(* ===== verification/Prelude.thy ===== *)
theory Prelude
  imports Main "HOL-Library.Word"
begin

text \<open>
  Shared vocabulary of the development: C's \<open>int\<close> arithmetic, the error numbers the
  libraries return, the scan for a free slot that every job table of the repository performs,
  and the two interfaces (slot tables, first-in first-out queues) that several components
  implement.
\<close>

section \<open>Fact collections\<close>

named_theorems c_simps \<open>evaluation of C integer arithmetic in range\<close>
named_theorems inv_intros \<open>operations that keep a component's invariant\<close>

section \<open>C integers\<close>

text \<open>
  A C \<open>int\<close> is a mathematical integer between \<open>INT_MIN\<close> and \<open>INT_MAX\<close>. \<open>c_int\<close> writes the
  two's complement wrap-around out; results that stay in range are unchanged (\<open>c_int_id\<close>).
\<close>

definition INT_MAX :: int where
  "INT_MAX = 2147483647"

definition INT_MIN :: int where
  "INT_MIN = - 2147483648"

definition c_int :: "int \<Rightarrow> int" where
  "c_int x = (x + 2147483648) mod 4294967296 - 2147483648"

lemma c_int_id [c_simps]: "INT_MIN \<le> x \<Longrightarrow> x \<le> INT_MAX \<Longrightarrow> c_int x = x"
  by (simp add: c_int_def INT_MIN_def INT_MAX_def)

lemma c_int_range: "INT_MIN \<le> c_int x \<and> c_int x \<le> INT_MAX"
proof -
  have "0 \<le> (x + 2147483648) mod 4294967296" "(x + 2147483648) mod 4294967296 < 4294967296"
    by simp_all
  then show ?thesis
    by (simp add: c_int_def INT_MIN_def INT_MAX_def)
qed

text \<open>\<open>c_int\<close> is the reading of the low 32 bits as a signed word.\<close>

lemma c_int_sint: "c_int x = sint (word_of_int x :: 32 word)"
  by (simp add: c_int_def int_word_sint)

section \<open>Error numbers\<close>

definition EINTR :: int where "EINTR = 4"
definition EAGAIN :: int where "EAGAIN = 11"
definition ENOMEM :: int where "ENOMEM = 12"
definition EBUSY :: int where "EBUSY = 16"
definition EINVAL :: int where "EINVAL = 22"
definition ENOSPC :: int where "ENOSPC = 28"
definition ECANCELED :: int where "ECANCELED = 125"

lemmas errno_defs = EINTR_def EAGAIN_def ENOMEM_def EBUSY_def EINVAL_def ENOSPC_def ECANCELED_def

section \<open>Outcomes of C code\<close>

text \<open>
  A piece of C code returns, leaves the process with an exit status, aborts, is blocked in a
  call that nothing has completed yet, is still running when the model's fuel is spent, or has
  undefined behaviour (an access to freed memory or past the end of an array).
\<close>

datatype ('a, 'w) outcome =
    Ret 'a 'w
  | Exit int 'w
  | Abort 'w
  | Blocked 'w
  | OutOfFuel 'w
  | Undef 'w

fun bind_outcome :: "('a, 'w) outcome \<Rightarrow> ('a \<Rightarrow> 'w \<Rightarrow> ('b, 'w) outcome) \<Rightarrow> ('b, 'w) outcome" where
  "bind_outcome (Ret a w) f = f a w"
| "bind_outcome (Exit c w) f = Exit c w"
| "bind_outcome (Abort w) f = Abort w"
| "bind_outcome (Blocked w) f = Blocked w"
| "bind_outcome (OutOfFuel w) f = OutOfFuel w"
| "bind_outcome (Undef w) f = Undef w"

section \<open>Scanning a table of pointers for a free slot\<close>

text \<open>
  The loop \<^verbatim>\<open>for (i = 0; i < MAX; i++) if (job[i] == NULL) return i; return -1;\<close> over the rest
  of the array from index \<open>i\<close> on.
\<close>

fun scan_from :: "nat \<Rightarrow> 'a option list \<Rightarrow> int" where
  "scan_from i [] = -1"
| "scan_from i (x # xs) = (if x = None then int i else scan_from (Suc i) xs)"

lemma scan_from_cases:
  "scan_from i xs = -1 \<and> None \<notin> set xs \<or>
   (\<exists>k < length xs. scan_from i xs = int (i + k) \<and> xs ! k = None \<and> None \<notin> set (take k xs))"
proof (induction xs arbitrary: i)
  case Nil
  then show ?case by simp
next
  case (Cons x xs)
  show ?case
  proof (cases x)
    case None
    then show ?thesis by auto
  next
    case (Some y)
    from Cons.IH [of "Suc i"] consider
        "scan_from (Suc i) xs = -1" "None \<notin> set xs"
      | k where "k < length xs" "scan_from (Suc i) xs = int (Suc i + k)" "xs ! k = None"
          "None \<notin> set (take k xs)"
      by blast
    then show ?thesis
    proof cases
      case 1
      with Some show ?thesis by simp
    next
      case 2
      with Some show ?thesis by (intro disjI2 exI [of _ "Suc k"]) auto
    qed
  qed
qed

definition scan_slots :: "'a option list \<Rightarrow> int" where
  "scan_slots xs = scan_from 0 xs"

lemma scan_slots_cases:
  obtains (full) "scan_slots xs = -1" "None \<notin> set xs"
  | (free) k where "k < length xs" "scan_slots xs = int k" "xs ! k = None"
      "None \<notin> set (take k xs)"
  using scan_from_cases [of 0 xs] by (auto simp: scan_slots_def)

lemma scan_slots_full_iff: "scan_slots xs = -1 \<longleftrightarrow> None \<notin> set xs"
  by (rule scan_slots_cases [of xs]) (auto simp: in_set_conv_nth)

lemma scan_slots_neg_iff: "scan_slots xs < 0 \<longleftrightarrow> None \<notin> set xs"
  by (rule scan_slots_cases [of xs]) (auto simp: in_set_conv_nth)

lemma scan_slots_nat:
  "None \<in> set xs \<Longrightarrow> nat (scan_slots xs) < length xs \<and> xs ! nat (scan_slots xs) = None"
  by (rule scan_slots_cases [of xs]) auto

lemma scan_slots_hd: "scan_slots (None # xs) = 0"
  by (simp add: scan_slots_def)

lemma scan_slots_replicate: "0 < n \<Longrightarrow> scan_slots (replicate n None) = 0"
  by (cases n) (simp_all add: scan_slots_hd)

section \<open>Number of occupied slots\<close>

definition used :: "'a option list \<Rightarrow> nat" where
  "used xs = length (filter (\<lambda>x. x \<noteq> None) xs)"

lemma used_le: "used xs \<le> length xs"
  by (simp add: used_def)

lemma used_full_iff: "used xs = length xs \<longleftrightarrow> None \<notin> set xs"
proof -
  have "length (filter (\<lambda>x. x \<noteq> None) xs) = length xs \<longleftrightarrow> filter (\<lambda>x. x \<noteq> None) xs = xs"
    by (metis length_filter_less nless_le filter_id_conv)
  then show ?thesis by (auto simp: used_def filter_id_conv)
qed

lemma used_update_Some:
  "i < length xs \<Longrightarrow> xs ! i = None \<Longrightarrow> used (xs[i := Some v]) = Suc (used xs)"
proof (induction xs arbitrary: i)
  case Nil
  then show ?case by simp
next
  case (Cons x xs)
  then show ?case by (cases i) (auto simp: used_def)
qed

lemma used_update_None:
  "i < length xs \<Longrightarrow> xs ! i \<noteq> None \<Longrightarrow> Suc (used (xs[i := None])) = used xs"
proof (induction xs arbitrary: i)
  case Nil
  then show ?case by simp
next
  case (Cons x xs)
  then show ?case by (cases i) (auto simp: used_def)
qed

section \<open>Loops over the pointers of a table\<close>

text \<open>
  The loop \<^verbatim>\<open>for (i = 0; i < MAX; i++) if (job[i] != NULL) f(job[i]);\<close> on a store; \<open>f\<close> fails
  (\<open>None\<close>) where the C code would touch freed memory.
\<close>

fun for_ptrs :: "('a \<Rightarrow> 'h \<Rightarrow> 'h option) \<Rightarrow> 'a option list \<Rightarrow> 'h \<Rightarrow> 'h option" where
  "for_ptrs f [] h = Some h"
| "for_ptrs f (None # ps) h = for_ptrs f ps h"
| "for_ptrs f (Some a # ps) h =
     (case f a h of None \<Rightarrow> None | Some h' \<Rightarrow> for_ptrs f ps h')"

fun ptrs :: "'a option list \<Rightarrow> 'a list" where
  "ptrs [] = []"
| "ptrs (None # ps) = ptrs ps"
| "ptrs (Some a # ps) = a # ptrs ps"

lemma set_ptrs: "set (ptrs ps) = {a. Some a \<in> set ps}"
  by (induction ps rule: ptrs.induct) auto

lemma distinct_ptrs:
  "(\<And>i j a. i < length ps \<Longrightarrow> j < length ps \<Longrightarrow> ps ! i = Some a \<Longrightarrow> ps ! j = Some a \<Longrightarrow> i = j)
   \<Longrightarrow> distinct (ptrs ps)"
proof (induction ps rule: ptrs.induct)
  case 1
  then show ?case by simp
next
  case (2 ps)
  have "i = j" if "i < length ps" "j < length ps" "ps ! i = Some a" "ps ! j = Some a" for i j a
    using 2(2) [of "Suc i" "Suc j" a] that by simp
  with 2(1) show ?case by simp
next
  case (3 b ps)
  have "i = j" if "i < length ps" "j < length ps" "ps ! i = Some a" "ps ! j = Some a" for i j a
    using 3(2) [of "Suc i" "Suc j" a] that by simp
  moreover have "b \<notin> set (ptrs ps)"
  proof
    assume "b \<in> set (ptrs ps)"
    then obtain k where "k < length ps" "ps ! k = Some b"
      by (auto simp: set_ptrs in_set_conv_nth)
    then show False using 3(2) [of 0 "Suc k" b] by simp
  qed
  ultimately show ?case using 3(1) by simp
qed

text \<open>A loop that rewrites each allocated object once: the store is updated pointwise.\<close>

definition upd_cell :: "('c \<Rightarrow> 'c option) \<Rightarrow> 'a \<Rightarrow> ('a \<rightharpoonup> 'c) \<Rightarrow> ('a \<rightharpoonup> 'c) option" where
  "upd_cell g a h = (case h a of None \<Rightarrow> None | Some c \<Rightarrow> Some (h(a := g c)))"

lemma for_ptrs_upd:
  "distinct (ptrs ps) \<Longrightarrow> (\<And>a. a \<in> set (ptrs ps) \<Longrightarrow> h a \<noteq> None) \<Longrightarrow>
   for_ptrs (upd_cell g) ps h =
     Some (\<lambda>a. if a \<in> set (ptrs ps) then Option.bind (h a) g else h a)"
proof (induction ps arbitrary: h rule: ptrs.induct)
  case 1
  then show ?case by simp
next
  case (2 ps)
  then show ?case by simp
next
  case (3 b ps)
  then obtain c where c: "h b = Some c" by auto
  have "for_ptrs (upd_cell g) ps (h(b := g c)) =
      Some (\<lambda>a. if a \<in> set (ptrs ps) then Option.bind ((h(b := g c)) a) g else (h(b := g c)) a)"
    using 3 by (intro "3.IH") auto
  moreover have "b \<notin> set (ptrs ps)" using 3 by simp
  moreover have "upd_cell g b h = Some (h(b := g c))" by (simp add: upd_cell_def c)
  ultimately show ?case using c by (auto simp: fun_eq_iff)
qed

section \<open>Intervals\<close>

lemma upt_split: "i \<le> j \<Longrightarrow> j \<le> k \<Longrightarrow> [i..<k] = [i..<j] @ [j..<k]"
  using upt_add_eq_append [of i j "k - j"] by simp

section \<open>Decimal numbers\<close>

text \<open>The conversions \<^verbatim>\<open>%d\<close>, \<^verbatim>\<open>%ld\<close> and \<^verbatim>\<open>%lu\<close> of a number that is not negative, and reading it back.\<close>

fun show_nat :: "nat \<Rightarrow> string" where
  "show_nat n = (if n < 10 then [char_of (48 + n)] else show_nat (n div 10) @ [char_of (48 + n mod 10)])"

declare show_nat.simps [simp del]

definition read_nat :: "string \<Rightarrow> nat" where
  "read_nat s = foldl (\<lambda>n c. 10 * n + (of_char c - 48)) 0 s"

lemma read_show_nat [simp]: "read_nat (show_nat n) = n"
proof (induction n rule: show_nat.induct)
  case (1 n)
  then show ?case by (subst show_nat.simps) (simp add: read_nat_def)
qed

lemma show_nat_inj: "show_nat m = show_nat n \<longleftrightarrow> m = n"
  by (metis read_show_nat)

definition c_digit :: "char \<Rightarrow> bool" where
  "c_digit c \<longleftrightarrow> 48 \<le> (of_char c :: nat) \<and> (of_char c :: nat) \<le> 57"

lemma show_nat_digits: "c \<in> set (show_nat n) \<Longrightarrow> c_digit c"
proof (induction n rule: show_nat.induct)
  case (1 n)
  from 1(2) show ?case
    using 1(1) by (subst (asm) show_nat.simps) (auto simp: c_digit_def split: if_splits)
qed

lemma show_nat_ne: "show_nat n \<noteq> []"
  by (subst show_nat.simps) simp

lemma show_nat_mono: "m \<le> n \<Longrightarrow> length (show_nat m) \<le> length (show_nat n)"
proof (induction n arbitrary: m rule: show_nat.induct)
  case (1 n)
  show ?case
  proof (cases "n < 10")
    case True
    with 1(2) show ?thesis by (simp add: show_nat.simps [of n] show_nat.simps [of m])
  next
    case False
    with 1(2) 1(1) [OF False, of "m div 10"] show ?thesis
      by (simp add: show_nat.simps [of n] show_nat.simps [of m] div_le_mono show_nat_ne Suc_le_eq)
  qed
qed

text \<open>A property of all elements survives the update of one.\<close>

lemma ball_upd: "\<forall>x \<in> set xs. P x \<Longrightarrow> P y \<Longrightarrow> \<forall>x \<in> set (xs[i := y]). P x"
  using set_update_subset_insert [of xs i y] by blast

text \<open>A sum over a list, when one element changes.\<close>

lemma sum_list_upd:
  fixes f :: "'a \<Rightarrow> 'b :: comm_monoid_add"
  shows "i < length xs \<Longrightarrow> sum_list (map f (xs[i := x])) + f (xs ! i) = sum_list (map f xs) + f x"
proof (induction xs arbitrary: i)
  case (Cons y ys)
  show ?case
  proof (cases i)
    case (Suc j)
    with Cons have "sum_list (map f (ys[j := x])) + f (ys ! j) = sum_list (map f ys) + f x" by simp
    with Suc show ?thesis by (simp add: add.assoc)
  qed (simp add: ac_simps)
qed simp

section \<open>Reading in blocks\<close>

text \<open>What successive reads into a buffer of \<open>n\<close> bytes return for a file, up to its end.\<close>

function blocks :: "nat \<Rightarrow> 'a list \<Rightarrow> 'a list list" where
  "blocks n xs = (if xs = [] \<or> n = 0 then [] else take n xs # blocks n (drop n xs))"
  by pat_completeness auto
termination
  by (relation "measure (length \<circ> snd)") auto

declare blocks.simps [simp del]

lemma concat_blocks [simp]: "0 < n \<Longrightarrow> concat (blocks n xs) = xs"
proof (induction n xs rule: blocks.induct)
  case (1 n xs)
  then show ?case by (subst blocks.simps) simp
qed

lemma blocks_ne: "b \<in> set (blocks n xs) \<Longrightarrow> b \<noteq> [] \<and> length b \<le> n"
proof (induction n xs rule: blocks.induct)
  case (1 n xs)
  then show ?case by (subst (asm) (2) blocks.simps) (auto split: if_splits)
qed

lemma length_blocks: "0 < n \<Longrightarrow> length xs \<le> n * k \<Longrightarrow> length (blocks n xs) \<le> k"
proof (induction n xs arbitrary: k rule: blocks.induct)
  case (1 n xs)
  show ?case
  proof (cases k)
    case (Suc m)
    with 1 show ?thesis by (subst blocks.simps) auto
  qed (use 1 in \<open>simp add: blocks.simps\<close>)
qed

lemma length_blocks_gt: "0 < n \<Longrightarrow> n * k < length xs \<Longrightarrow> k < length (blocks n xs)"
proof (induction n xs arbitrary: k rule: blocks.induct)
  case (1 n xs)
  then show ?case by (cases k) (auto simp: blocks.simps [of n xs])
qed

section \<open>The interface of a slot table\<close>

text \<open>
  \<open>mytbf.c\<close> (three versions), \<open>anytimer.c\<close> and \<open>relayer.c\<close> each keep a static array of
  pointers, find a free index by a scan and store a new object there. The contract: the scan
  reads the table, storing writes one slot, releasing clears one slot.
\<close>

locale slot_table =
  fixes invar :: "'s \<Rightarrow> bool"
    and slots :: "'s \<Rightarrow> 'a option list"
    and cap :: nat
    and free_pos :: "'s \<Rightarrow> int"
    and occupy :: "nat \<Rightarrow> 'a \<Rightarrow> 's \<Rightarrow> 's"
    and release :: "nat \<Rightarrow> 's \<Rightarrow> 's"
  assumes slots_length: "invar s \<Longrightarrow> length (slots s) = cap"
    and free_pos_scan: "invar s \<Longrightarrow> free_pos s = scan_slots (slots s)"
    and slots_occupy: "slots (occupy i a s) = (slots s)[i := Some a]"
    and slots_release: "slots (release i s) = (slots s)[i := None]"
begin

lemma free_pos_neg_iff: "invar s \<Longrightarrow> free_pos s < 0 \<longleftrightarrow> used (slots s) = cap"
  using used_full_iff [of "slots s"] by (simp add: free_pos_scan scan_slots_neg_iff slots_length)

lemma free_pos_bounds:
  "invar s \<Longrightarrow> 0 \<le> free_pos s \<Longrightarrow> nat (free_pos s) < cap \<and> slots s ! nat (free_pos s) = None"
  by (metis free_pos_scan scan_slots_nat scan_slots_neg_iff slots_length not_le)

lemma occupy_used:
  "invar s \<Longrightarrow> 0 \<le> free_pos s \<Longrightarrow>
   used (slots (occupy (nat (free_pos s)) a s)) = Suc (used (slots s))"
  using free_pos_bounds [of s] by (simp add: slots_occupy used_update_Some slots_length)

lemma occupy_other:
  "invar s \<Longrightarrow> 0 \<le> free_pos s \<Longrightarrow> j \<noteq> nat (free_pos s) \<Longrightarrow>
   slots (occupy (nat (free_pos s)) a s) ! j = slots s ! j"
  by (simp add: slots_occupy)

lemma occupy_release:
  "invar s \<Longrightarrow> 0 \<le> free_pos s \<Longrightarrow>
   slots (release (nat (free_pos s)) (occupy (nat (free_pos s)) a s)) = slots s"
  using free_pos_bounds [of s]
  by (metis list_update_overwrite list_update_id slots_occupy slots_release)

end

section \<open>The interface of a first-in first-out queue\<close>

text \<open>
  The directory walker's ring of tasks and the socket server's linked list of tasks promise the
  same: \<open>put\<close> appends, \<open>get\<close> removes the oldest element. \<open>room\<close> says when an element may be put.
\<close>

locale fifo =
  fixes invar :: "'q \<Rightarrow> bool"
    and items :: "'q \<Rightarrow> 'a list"
    and room :: "'a \<Rightarrow> 'q \<Rightarrow> bool"
    and put :: "'a \<Rightarrow> 'q \<Rightarrow> 'q"
    and get :: "'q \<Rightarrow> ('a \<times> 'q) option"
  assumes put_items: "invar q \<Longrightarrow> room a q \<Longrightarrow> items (put a q) = items q @ [a]"
    and put_invar: "invar q \<Longrightarrow> room a q \<Longrightarrow> invar (put a q)"
    and get_None: "invar q \<Longrightarrow> get q = None \<longleftrightarrow> items q = []"
    and get_Some: "invar q \<Longrightarrow> get q = Some (a, q') \<Longrightarrow> items q = a # items q' \<and> invar q'"
begin

text \<open>The elements that \<open>n\<close> calls of \<open>get\<close> deliver, and the queue they leave.\<close>

fun drain :: "nat \<Rightarrow> 'q \<Rightarrow> 'a list \<times> 'q" where
  "drain 0 q = ([], q)"
| "drain (Suc n) q =
     (case get q of None \<Rightarrow> ([], q) | Some (a, q') \<Rightarrow> (let (as, q'') = drain n q' in (a # as, q'')))"

lemma drain_items:
  "invar q \<Longrightarrow> fst (drain n q) = take n (items q) \<and> items (snd (drain n q)) = drop n (items q)
     \<and> invar (snd (drain n q))"
proof (induction n arbitrary: q)
  case 0
  then show ?case by simp
next
  case (Suc n)
  show ?case
  proof (cases "get q")
    case None
    with Suc.prems get_None have "items q = []" by blast
    with None Suc.prems show ?thesis by simp
  next
    case (Some r)
    obtain a q' where r: "r = (a, q')" by fastforce
    with Some Suc.prems get_Some have q': "items q = a # items q'" "invar q'" by blast+
    from Suc.IH [OF q'(2)] q'(1) Some r show ?thesis by (simp add: case_prod_beta Let_def)
  qed
qed

lemma put_then_drain:
  assumes "invar q" "room a q"
  shows "fst (drain (Suc (length (items q))) (put a q)) = items q @ [a]"
  using drain_items [of "put a q" "Suc (length (items q))"] assms by (simp add: put_items put_invar)

end

end
