(* ===== verification/Posix.thy ===== *)
theory Posix
  imports Prelude "HOL-Library.Sublist"
begin

text \<open>
  The part of POSIX input and output the programs use: \<open>open\<close>, \<open>read\<close>, \<open>write\<close>, \<open>close\<close>, the
  status flags of \<open>fcntl\<close> and \<open>perror\<close>. What the other end of a descriptor will do is a script:
  the results its next reads and writes will have. Scripts are arbitrary, so theorems hold for
  every behaviour of the environment.
\<close>

type_synonym byte = "8 word"

text \<open>
  A read delivers bytes (an empty delivery is end of file) or fails. A write accepts at most so
  many bytes, or fails. A descriptor whose script is used up has nothing to read (\<open>EAGAIN\<close>) and
  accepts whatever is written.
\<close>

datatype rd_ev = RData "byte list" | RErr int
datatype wr_ev = WAccept nat | WErr int

record world =
  open_fd :: "string \<Rightarrow> int"
  rd_script :: "int \<Rightarrow> rd_ev list"
  wr_script :: "int \<Rightarrow> wr_ev list"
  written :: "int \<Rightarrow> byte list"
  fd_flags :: "int \<Rightarrow> 32 word"
  errno :: int
  perrs :: "string list"
  closed :: "int list"

definition O_NONBLOCK :: "32 word" where
  "O_NONBLOCK = 2048"

definition O_RDWR :: "32 word" where
  "O_RDWR = 2"

text \<open>\<open>open\<close>: the descriptor (or -1) the environment assigns to the path; its status flags are set.\<close>

definition sys_open :: "string \<Rightarrow> 32 word \<Rightarrow> world \<Rightarrow> int \<times> world" where
  "sys_open path fl w = (let fd = open_fd w path
     in (fd, if fd < 0 then w else w\<lparr>fd_flags := (fd_flags w)(fd := fl)\<rparr>))"

definition sys_read :: "int \<Rightarrow> nat \<Rightarrow> world \<Rightarrow> int \<times> byte list \<times> world" where
  "sys_read fd n w = (case rd_script w fd of
      [] \<Rightarrow> (-1, [], w\<lparr>errno := EAGAIN\<rparr>)
    | RErr e # es \<Rightarrow> (-1, [], w\<lparr>errno := e, rd_script := (rd_script w)(fd := es)\<rparr>)
    | RData bs # es \<Rightarrow>
        (int (length (take n bs)), take n bs,
         w\<lparr>rd_script := (rd_script w)(fd := if drop n bs = [] then es else RData (drop n bs) # es)\<rparr>))"

definition sys_write :: "int \<Rightarrow> byte list \<Rightarrow> world \<Rightarrow> int \<times> world" where
  "sys_write fd bs w = (case wr_script w fd of
      [] \<Rightarrow> (int (length bs), w\<lparr>written := (written w)(fd := written w fd @ bs)\<rparr>)
    | WErr e # es \<Rightarrow> (-1, w\<lparr>errno := e, wr_script := (wr_script w)(fd := es)\<rparr>)
    | WAccept k # es \<Rightarrow>
        (int (length (take k bs)),
         w\<lparr>wr_script := (wr_script w)(fd := es), written := (written w)(fd := written w fd @ take k bs)\<rparr>))"

definition sys_close :: "int \<Rightarrow> world \<Rightarrow> world" where
  "sys_close fd w = w\<lparr>closed := fd # closed w\<rparr>"

definition F_GETFL :: "int \<Rightarrow> world \<Rightarrow> 32 word" where
  "F_GETFL fd w = fd_flags w fd"

definition F_SETFL :: "int \<Rightarrow> 32 word \<Rightarrow> world \<Rightarrow> world" where
  "F_SETFL fd v w = w\<lparr>fd_flags := (fd_flags w)(fd := v)\<rparr>"

definition perror :: "string \<Rightarrow> world \<Rightarrow> world" where
  "perror s w = w\<lparr>perrs := perrs w @ [s]\<rparr>"

definition str_bytes :: "string \<Rightarrow> byte list" where
  "str_bytes s = map of_char s"

section \<open>What a reader can get\<close>

text \<open>An event that ends a stream: end of file, or an error other than \<open>EAGAIN\<close>.\<close>

fun ending :: "rd_ev \<Rightarrow> bool" where
  "ending (RData bs) = (bs = [])"
| "ending (RErr e) = (e \<noteq> EAGAIN)"

fun data_of :: "rd_ev \<Rightarrow> byte list" where
  "data_of (RData bs) = bs"
| "data_of (RErr e) = []"

text \<open>The bytes a stream delivers before it ends, and whether it ends at all.\<close>

definition stream :: "rd_ev list \<Rightarrow> byte list" where
  "stream es = concat (map data_of (takeWhile (\<lambda>e. \<not> ending e) es))"

definition stream_ends :: "rd_ev list \<Rightarrow> bool" where
  "stream_ends es \<longleftrightarrow> (\<exists>e \<in> set es. ending e)"

text \<open>A sink that never fails for good: errors other than \<open>EAGAIN\<close> do not occur.\<close>

definition sink_ok :: "wr_ev list \<Rightarrow> bool" where
  "sink_ok es \<longleftrightarrow> (\<forall>e. WErr e \<in> set es \<longrightarrow> e = EAGAIN)"

lemma stream_simps [simp]:
  "stream [] = []"
  "stream (e # es) = (if ending e then [] else data_of e @ stream es)"
  by (simp_all add: stream_def)

lemma stream_ends_simps [simp]:
  "\<not> stream_ends []"
  "stream_ends (e # es) \<longleftrightarrow> ending e \<or> stream_ends es"
  by (auto simp: stream_ends_def)

lemma sink_ok_simps [simp]:
  "sink_ok []"
  "sink_ok (WAccept k # es) = sink_ok es"
  "sink_ok (WErr e # es) \<longleftrightarrow> e = EAGAIN \<and> sink_ok es"
  by (auto simp: sink_ok_def)

text \<open>The work a script still holds, for termination arguments.\<close>

definition rd_work :: "rd_ev list \<Rightarrow> nat" where
  "rd_work es = sum_list (map (\<lambda>e. Suc (length (data_of e))) es)"

lemma rd_work_simps [simp]:
  "rd_work [] = 0" "rd_work (e # es) = Suc (length (data_of e)) + rd_work es"
  by (simp_all add: rd_work_def)

section \<open>Writing a whole buffer\<close>

text \<open>
  \<^verbatim>\<open>while (len > 0) { ret = write(dfd, buf + pos, len); if (ret < 0) { perror("write()"); exit(1); }
  len -= ret; pos += ret; }\<close>, the loop of every \<open>cat\<close> of the repository; \<open>bs\<close> is the rest of the
  buffer. A call that accepts nothing repeats, so the recursion is on the sink's script too.
\<close>

function write_all :: "int \<Rightarrow> byte list \<Rightarrow> world \<Rightarrow> (unit, world) outcome" where
  "write_all fd bs w =
     (if bs = [] then Ret () w
      else (case sys_write fd bs w of (ret, w1) \<Rightarrow>
        if ret < 0 then Exit 1 (perror ''write()'' w1)
        else write_all fd (drop (nat ret) bs) w1))"
  by pat_completeness auto
termination
  by (relation "measure (\<lambda>(fd, bs, w). length bs + length (wr_script w fd))")
     (auto simp: sys_write_def split: list.splits wr_ev.splits)

declare write_all.simps [simp del]

text \<open>All bytes arrive in order when no write fails.\<close>

definition sink_total :: "wr_ev list \<Rightarrow> bool" where
  "sink_total es \<longleftrightarrow> (\<forall>e. WErr e \<notin> set es)"

lemma write_all_Nil [simp]: "write_all fd [] w = Ret () w"
  by (simp add: write_all.simps [of fd "[]"])

lemma write_all_ok:
  "sink_total (wr_script w fd) \<Longrightarrow> \<exists>w'. write_all fd bs w = Ret () w' \<and>
     written w' = (written w)(fd := written w fd @ bs) \<and> rd_script w' = rd_script w \<and>
     sink_total (wr_script w' fd)"
proof (induction fd bs w rule: write_all.induct)
  case (1 fd bs w)
  show ?case
  proof (cases "bs = []")
    case True
    with 1 show ?thesis by simp
  next
    case False
    show ?thesis
    proof (cases "wr_script w fd")
      case Nil
      with False "1.prems" show ?thesis
        by (auto simp: write_all.simps [of fd bs w] sys_write_def)
    next
      case (Cons e es)
      with "1.prems" obtain k where e: "e = WAccept k"
        by (cases e) (auto simp: sink_total_def)
      let ?w1 = "w\<lparr>wr_script := (wr_script w)(fd := es), written := (written w)(fd := written w fd @ take k bs)\<rparr>"
      have sw: "sys_write fd bs w = (int (length (take k bs)), ?w1)"
        using Cons e by (simp add: sys_write_def)
      have "\<exists>w'. write_all fd (drop (nat (int (length (take k bs)))) bs) ?w1 = Ret () w' \<and>
          written w' = (written ?w1)(fd := written ?w1 fd @ drop (nat (int (length (take k bs)))) bs) \<and>
          rd_script w' = rd_script ?w1 \<and> sink_total (wr_script w' fd)"
        using "1.prems" Cons False sw by (intro "1.IH" [OF _ sw [symmetric]]) (auto simp: sink_total_def)
      moreover have "write_all fd bs w = write_all fd (drop (nat (int (length (take k bs)))) bs) ?w1"
        using False sw by (simp add: write_all.simps [of fd bs w])
      moreover have "take k bs @ drop (min (length bs) k) bs = bs"
        by (cases "k \<le> length bs") (simp_all add: min_def)
      ultimately show ?thesis by (auto simp: fun_eq_iff)
    qed
  qed
qed

end
