(* ===== verification/Relay_Spec.thy ===== *)
theory Relay_Spec
  imports Posix
begin

text \<open>
  The relays of \<open>proIO/\<close> copy bytes between two descriptors in both directions with one finite
  state machine per direction. Five programs contain the same machine with different enumerations
  of its states. Here: the machine's record, the flow of bytes through one machine, the contract
  of a driver as a locale, and what any schedule of calls of a driver does.
\<close>

section \<open>The machine\<close>

definition BUFSIZE :: nat where
  "BUFSIZE = 1024"

text \<open>\<open>struct rel_fsm_st\<close>; the type of its states is a parameter.\<close>

record 's rel_fsm_st =
  state :: 's
  sfd :: int
  dfd :: int
  buf :: "byte list"
  len :: int
  strerr :: string
  fpos :: int

text \<open>\<open>read\<close> into the start of an array of fixed size: the rest of the array stays.\<close>

definition fill :: "byte list \<Rightarrow> byte list \<Rightarrow> byte list" where
  "fill bs old = bs @ drop (length bs) old"

lemma length_fill: "length bs \<le> length old \<Longrightarrow> length (fill bs old) = length old"
  by (simp add: fill_def)

text \<open>The bytes that \<^verbatim>\<open>buf + pos, len\<close> denotes.\<close>

definition window :: "'s rel_fsm_st \<Rightarrow> byte list" where
  "window f = take (nat (len f)) (drop (nat (fpos f)) (buf f))"

section \<open>The contract of a driver\<close>

locale relay_driver =
  fixes stR stW stEX stT :: 's
    and drv :: "'s rel_fsm_st \<Rightarrow> world \<Rightarrow> ('s rel_fsm_st \<times> world) option"
  assumes states_distinct: "distinct [stR, stW, stEX, stT]"
    and drv_R: "state f = stR \<Longrightarrow> drv f w =
      (case sys_read (sfd f) BUFSIZE w of (n, bs, w1) \<Rightarrow>
         (let f1 = f\<lparr>len := n, buf := fill bs (buf f)\<rparr>
          in if n = 0 then Some (f1\<lparr>state := stT\<rparr>, w1)
             else if n < 0 then
               (if errno w1 = EAGAIN then Some (f1\<lparr>state := stR\<rparr>, w1)
                else Some (f1\<lparr>strerr := ''read()'', state := stEX\<rparr>, w1))
             else Some (f1\<lparr>fpos := 0, state := stW\<rparr>, w1)))"
    and drv_W: "state f = stW \<Longrightarrow> drv f w =
      (case sys_write (dfd f) (window f) w of (ret, w1) \<Rightarrow>
         if ret < 0 then
           (if errno w1 = EAGAIN then Some (f\<lparr>state := stW\<rparr>, w1)
            else Some (f\<lparr>strerr := ''write()'', state := stEX\<rparr>, w1))
         else (let f1 = f\<lparr>fpos := fpos f + ret, len := len f - ret\<rparr>
               in Some (f1\<lparr>state := if len f1 = 0 then stR else stW\<rparr>, w1)))"
    and drv_EX: "state f = stEX \<Longrightarrow> drv f w = Some (f\<lparr>state := stT\<rparr>, perror (strerr f) w)"
    and drv_T: "state f = stT \<Longrightarrow> drv f w = Some (f, w)"
begin

lemma st_neq [simp]:
  "stR \<noteq> stW" "stR \<noteq> stEX" "stR \<noteq> stT" "stW \<noteq> stR" "stW \<noteq> stEX" "stW \<noteq> stT"
  "stEX \<noteq> stR" "stEX \<noteq> stW" "stEX \<noteq> stT" "stT \<noteq> stR" "stT \<noteq> stW" "stT \<noteq> stEX"
  using states_distinct by auto

text \<open>Well-formed machines: the window of pending bytes lies inside the buffer.\<close>

definition wf_fsm :: "'s rel_fsm_st \<Rightarrow> bool" where
  "wf_fsm f \<longleftrightarrow> state f \<in> {stR, stW, stEX, stT} \<and> length (buf f) = BUFSIZE \<and>
     (state f = stW \<longrightarrow> 0 \<le> fpos f \<and> 0 < len f \<and> fpos f + len f \<le> int BUFSIZE)"

text \<open>Bytes read but not yet written, and bytes the machine can still read.\<close>

definition pending :: "'s rel_fsm_st \<Rightarrow> byte list" where
  "pending f = (if state f = stW then window f else [])"

definition avail :: "'s rel_fsm_st \<Rightarrow> world \<Rightarrow> byte list" where
  "avail f w = (if state f \<in> {stR, stW} then stream (rd_script w (sfd f)) else [])"

definition flow :: "'s rel_fsm_st \<Rightarrow> world \<Rightarrow> byte list" where
  "flow f w = written w (dfd f) @ pending f @ avail f w"

text \<open>A running machine's source must end sometime; the work left is bounded.\<close>

definition will_end :: "'s rel_fsm_st \<Rightarrow> world \<Rightarrow> bool" where
  "will_end f w \<longleftrightarrow> (state f \<in> {stR, stW} \<longrightarrow> stream_ends (rd_script w (sfd f)))"

definition work :: "'s rel_fsm_st \<Rightarrow> world \<Rightarrow> nat" where
  "work f w = (if state f = stT then 0 else if state f = stEX then 1
     else 4 * rd_work (rd_script w (sfd f)) + length (wr_script w (dfd f)) +
       (if state f = stW then 2 * nat (len f) + 3 else 2))"

text \<open>What a step may touch: its own source, its own sink.\<close>

definition frame :: "'s rel_fsm_st \<Rightarrow> world \<Rightarrow> world \<Rightarrow> bool" where
  "frame f w w' \<longleftrightarrow> (\<forall>fd. fd \<noteq> sfd f \<longrightarrow> rd_script w' fd = rd_script w fd) \<and>
     (\<forall>fd. fd \<noteq> dfd f \<longrightarrow> wr_script w' fd = wr_script w fd \<and> written w' fd = written w fd) \<and>
     fd_flags w' = fd_flags w \<and> open_fd w' = open_fd w \<and> closed w' = closed w"

text \<open>Everything one call guarantees.\<close>

definition step_ok :: "'s rel_fsm_st \<Rightarrow> world \<Rightarrow> 's rel_fsm_st \<Rightarrow> world \<Rightarrow> bool" where
  "step_ok f w f' w' \<longleftrightarrow> wf_fsm f' \<and> sfd f' = sfd f \<and> dfd f' = dfd f \<and> frame f w w' \<and>
     prefix (flow f' w') (flow f w) \<and>
     (sink_ok (wr_script w (dfd f)) \<longrightarrow> flow f' w' = flow f w \<and> sink_ok (wr_script w' (dfd f))) \<and>
     prefix (written w (dfd f)) (written w' (dfd f)) \<and>
     (will_end f w \<longrightarrow> will_end f' w' \<and> (state f \<noteq> stT \<longrightarrow> work f' w' < work f w)) \<and>
     (state f = stT \<longrightarrow> f' = f \<and> w' = w)"

lemma step_T: "wf_fsm f \<Longrightarrow> state f = stT \<Longrightarrow> \<exists>f' w'. drv f w = Some (f', w') \<and> step_ok f w f' w'"
  by (simp add: drv_T step_ok_def frame_def)

lemma step_EX: "wf_fsm f \<Longrightarrow> state f = stEX \<Longrightarrow> \<exists>f' w'. drv f w = Some (f', w') \<and> step_ok f w f' w'"
  by (simp add: drv_EX step_ok_def frame_def wf_fsm_def perror_def flow_def pending_def avail_def
      will_end_def work_def)

lemma step_R:
  assumes "wf_fsm f" "state f = stR"
  shows "\<exists>f' w'. drv f w = Some (f', w') \<and> step_ok f w f' w'"
proof (cases "rd_script w (sfd f)")
  case Nil
  then show ?thesis
    using assms by (simp add: drv_R sys_read_def step_ok_def frame_def wf_fsm_def flow_def pending_def
        avail_def will_end_def fill_def)
next
  case (Cons e es)
  show ?thesis
  proof (cases e)
    case (RErr k)
    with Cons assms show ?thesis
      by (auto simp: drv_R sys_read_def step_ok_def frame_def wf_fsm_def flow_def pending_def
          avail_def will_end_def work_def fill_def)
  next
    case (RData bs)
    show ?thesis
    proof (cases "bs = []")
      case True
      with Cons RData assms show ?thesis
        by (auto simp: drv_R sys_read_def step_ok_def frame_def wf_fsm_def flow_def pending_def
            avail_def will_end_def work_def fill_def)
    next
      case False
      define got where "got = take BUFSIZE bs"
      define rest where "rest = (if drop BUFSIZE bs = [] then es else RData (drop BUFSIZE bs) # es)"
      define w1 where "w1 = w\<lparr>rd_script := (rd_script w)(sfd f := rest)\<rparr>"
      define f1 where "f1 = f\<lparr>len := int (length got), buf := fill got (buf f), fpos := 0, state := stW\<rparr>"
      have got: "0 < length got" "length got \<le> BUFSIZE" "got @ drop BUFSIZE bs = bs"
        using False by (simp_all add: got_def BUFSIZE_def)
      have d: "drv f w = Some (f1, w1)"
        using assms Cons RData False
        by (simp add: drv_R sys_read_def f1_def w1_def rest_def got_def BUFSIZE_def)
      have win: "window f1 = got"
        by (simp add: window_def f1_def fill_def)
      have str: "stream (rd_script w (sfd f)) = got @ stream rest"
      proof -
        have "stream (rd_script w (sfd f)) = (got @ drop BUFSIZE bs) @ stream es"
          using Cons RData False got(3) by simp
        moreover have "stream rest = drop BUFSIZE bs @ stream es" by (simp add: rest_def)
        ultimately show ?thesis by simp
      qed
      have wf: "wf_fsm f1"
        using assms(1) got by (auto simp: wf_fsm_def f1_def length_fill)
      have ends: "stream_ends (rd_script w (sfd f)) \<Longrightarrow> stream_ends rest"
        using Cons RData False by (auto simp: rest_def)
      have lb: "length bs = length got + length (drop BUFSIZE bs)"
        using arg_cong [OF got(3), of length] by simp
      have "rd_work rest + length got \<le> rd_work (rd_script w (sfd f))"
        using Cons RData lb by (auto simp: rest_def)
      moreover have "work f1 w1 = 4 * rd_work rest + length (wr_script w (dfd f)) + 2 * length got + 3"
        "work f w = 4 * rd_work (rd_script w (sfd f)) + length (wr_script w (dfd f)) + 2"
        using assms(2) by (simp_all add: work_def f1_def w1_def)
      ultimately have "work f1 w1 < work f w" using got(1) by linarith
      moreover have "flow f1 w1 = flow f w"
        using assms win str by (simp add: flow_def pending_def avail_def f1_def w1_def)
      ultimately show ?thesis
        using assms d wf ends
        by (auto simp: step_ok_def frame_def f1_def w1_def will_end_def)
    qed
  qed
qed

lemma step_W:
  assumes "wf_fsm f" "state f = stW"
  shows "\<exists>f' w'. drv f w = Some (f', w') \<and> step_ok f w f' w'"
proof -
  have f: "0 \<le> fpos f" "0 < len f" "fpos f + len f \<le> int BUFSIZE" "length (buf f) = BUFSIZE"
    using assms by (auto simp: wf_fsm_def)
  have lw: "int (length (window f)) = len f" using f by (simp add: window_def)
  show ?thesis
  proof (cases "\<exists>e es. wr_script w (dfd f) = WErr e # es")
    case True
    then obtain e es where e: "wr_script w (dfd f) = WErr e # es" by blast
    show ?thesis
    proof (cases "e = EAGAIN")
      case True
      with e assms f show ?thesis
        by (auto simp: drv_W sys_write_def step_ok_def frame_def flow_def pending_def avail_def
            will_end_def work_def)
    next
      case False
      with e assms f show ?thesis
        by (auto simp: drv_W sys_write_def step_ok_def frame_def flow_def pending_def avail_def
            will_end_def work_def wf_fsm_def)
    qed
  next
    case False
    then obtain k es where acc: "sys_write (dfd f) (window f) w = (int (length (take k (window f))),
        w\<lparr>wr_script := (wr_script w)(dfd f := es), written := (written w)(dfd f := written w (dfd f) @ take k (window f))\<rparr>)"
      and es: "length es \<le> length (wr_script w (dfd f))" "sink_ok (wr_script w (dfd f)) \<Longrightarrow> sink_ok es"
      and prog: "length es < length (wr_script w (dfd f)) \<or> length (window f) \<le> k"
    proof (cases "wr_script w (dfd f)")
      case Nil
      then have "sys_write (dfd f) (window f) w = (int (length (take (length (window f)) (window f))),
          w\<lparr>wr_script := (wr_script w)(dfd f := []), written := (written w)(dfd f := written w (dfd f) @ take (length (window f)) (window f))\<rparr>)"
        by (simp add: sys_write_def fun_upd_idem)
      with Nil that [of "length (window f)" "[]"] show ?thesis by simp
    next
      case (Cons e es)
      with False obtain k where "e = WAccept k" by (cases e) auto
      with Cons that [of k es] show ?thesis by (simp add: sys_write_def)
    qed
    define n where "n = int (length (take k (window f)))"
    define w1 where "w1 = w\<lparr>wr_script := (wr_script w)(dfd f := es), written := (written w)(dfd f := written w (dfd f) @ take k (window f))\<rparr>"
    define f1 where "f1 = f\<lparr>fpos := fpos f + n, len := len f - n, state := if len f - n = 0 then stR else stW\<rparr>"
    have n: "0 \<le> n" "n \<le> len f" using lw by (auto simp: n_def)
    have d: "drv f w = Some (f1, w1)"
      using assms acc n(1) by (simp add: drv_W f1_def w1_def n_def)
    have win: "window f1 = drop (nat n) (window f)"
    proof -
      have "window f1 = take (nat (len f) - nat n) (drop (nat n + nat (fpos f)) (buf f))"
        using n f(1) by (simp add: window_def f1_def nat_diff_distrib nat_add_distrib add.commute)
      also have "\<dots> = drop (nat n) (window f)"
        by (simp add: window_def drop_take add.commute)
      finally show ?thesis .
    qed
    have dn: "drop (nat n) (window f) = drop k (window f)"
      by (simp add: n_def min_def) 
    have pend: "take k (window f) @ pending f1 = window f"
    proof (cases "len f - n = 0")
      case True
      then have "length (window f) \<le> k" using lw by (simp add: n_def min_def split: if_splits)
      with True show ?thesis by (simp add: pending_def f1_def)
    next
      case False
      then show ?thesis using win dn by (simp add: pending_def f1_def)
    qed
    have "flow f1 w1 = flow f w"
      using pend assms by (simp add: flow_def w1_def avail_def f1_def pending_def [of f])
    moreover have "wf_fsm f1"
      using f n by (auto simp: wf_fsm_def f1_def)
    moreover have "work f1 w1 < work f w"
    proof (cases "len f - n = 0")
      case True
      then show ?thesis using assms(2) es(1) f(2) by (simp add: work_def f1_def w1_def)
    next
      case ne: False
      with prog lw have "length es < length (wr_script w (dfd f))" by (auto simp: n_def)
      moreover have "nat (len f - n) \<le> nat (len f)" using n(1) by simp
      ultimately show ?thesis using ne assms(2) by (simp add: work_def f1_def w1_def)
    qed
    ultimately show ?thesis
      using assms d es(2) by (auto simp: step_ok_def frame_def f1_def w1_def will_end_def)
  qed
qed

lemma step_total:
  "wf_fsm f \<Longrightarrow> \<exists>f' w'. drv f w = Some (f', w') \<and> step_ok f w f' w'"
  using step_R [of f w] step_W [of f w] step_EX [of f w] step_T [of f w] by (auto simp: wf_fsm_def)

text \<open>A direction without failures never enters the error state.\<close>

definition quiet :: "'s rel_fsm_st \<Rightarrow> world \<Rightarrow> bool" where
  "quiet f w \<longleftrightarrow> state f \<in> {stR, stW, stT} \<and> sink_ok (wr_script w (dfd f)) \<and>
     (\<forall>e. RErr e \<in> set (rd_script w (sfd f)) \<longrightarrow> e = EAGAIN)"

lemma quiet_step:
  assumes "quiet f w" "drv f w = Some (f', w')"
  shows "quiet f' w'"
proof -
  consider "state f = stR" | "state f = stW" | "state f = stT" using assms(1) by (auto simp: quiet_def)
  then show ?thesis
  proof cases
    case 1
    show ?thesis
    proof (cases "rd_script w (sfd f)")
      case Nil
      with 1 assms show ?thesis by (auto simp: drv_R sys_read_def quiet_def)
    next
      case (Cons e es)
      with assms(1) have es: "\<forall>k. RErr k \<in> set es \<longrightarrow> k = EAGAIN" by (simp add: quiet_def)
      show ?thesis
      proof (cases e)
        case (RErr k)
        with Cons assms(1) have "k = EAGAIN" by (simp add: quiet_def)
        with Cons RErr es 1 assms show ?thesis by (auto simp: drv_R sys_read_def quiet_def)
      next
        case (RData bs)
        with Cons es 1 assms show ?thesis
          by (cases "bs = []") (auto simp: drv_R sys_read_def quiet_def BUFSIZE_def split: if_splits)
      qed
    qed
  next
    case 2
    show ?thesis
    proof (cases "wr_script w (dfd f)")
      case Nil
      with 2 assms show ?thesis by (auto simp: drv_W sys_write_def quiet_def Let_def)
    next
      case (Cons e es)
      with 2 assms show ?thesis by (cases e) (auto simp: drv_W sys_write_def quiet_def Let_def)
    qed
  next
    case 3
    with assms show ?thesis by (simp add: drv_T)
  qed
qed

section \<open>Two machines between two descriptors\<close>

definition pair_ok :: "int \<Rightarrow> int \<Rightarrow> 's rel_fsm_st \<Rightarrow> 's rel_fsm_st \<Rightarrow> bool" where
  "pair_ok fd1 fd2 a b \<longleftrightarrow> fd1 \<noteq> fd2 \<and> wf_fsm a \<and> wf_fsm b \<and>
     sfd a = fd1 \<and> dfd a = fd2 \<and> sfd b = fd2 \<and> dfd b = fd1"

text \<open>How one direction may evolve while calls of either machine go on.\<close>

definition evolves :: "'s rel_fsm_st \<Rightarrow> world \<Rightarrow> 's rel_fsm_st \<Rightarrow> world \<Rightarrow> bool" where
  "evolves f w f' w' \<longleftrightarrow>
     prefix (flow f' w') (flow f w) \<and>
     (sink_ok (wr_script w (dfd f)) \<longrightarrow> flow f' w' = flow f w \<and> sink_ok (wr_script w' (dfd f))) \<and>
     prefix (written w (dfd f)) (written w' (dfd f)) \<and>
     (will_end f w \<longrightarrow> will_end f' w' \<and> work f' w' \<le> work f w) \<and>
     dfd f' = dfd f \<and> fd_flags w' = fd_flags w \<and> open_fd w' = open_fd w \<and> closed w' = closed w"

lemma evolves_refl: "evolves f w f w"
  by (simp add: evolves_def)

lemma evolves_trans: "evolves f w f1 w1 \<Longrightarrow> evolves f1 w1 f2 w2 \<Longrightarrow> evolves f w f2 w2"
  by (auto simp: evolves_def intro: prefix_order.trans order_trans)

lemma step_ok_evolves: "step_ok f w f' w' \<Longrightarrow> evolves f w f' w'"
  by (cases "state f = stT") (auto simp: step_ok_def evolves_def frame_def)

lemma other_evolves:
  assumes "frame g w w'" "sfd f \<noteq> sfd g" "dfd f \<noteq> dfd g"
  shows "evolves f w f w'" "work f w' = work f w" "will_end f w' = will_end f w" "quiet f w' = quiet f w"
  using assms by (auto simp: frame_def evolves_def flow_def avail_def will_end_def work_def quiet_def)

lemma drive_T_work: "state f = stT \<Longrightarrow> work f w = 0"
  by (simp add: work_def)

lemma work_0: "wf_fsm f \<Longrightarrow> work f w = 0 \<Longrightarrow> state f = stT"
  by (auto simp: work_def wf_fsm_def split: if_splits)

text \<open>Calling the driver on one machine of the pair.\<close>

lemma drive_first:
  assumes "pair_ok fd1 fd2 a b"
  obtains a' w' where "drv a w = Some (a', w')" "pair_ok fd1 fd2 a' b"
    "evolves a w a' w'" "evolves b w b w'" "work b w' = work b w" "quiet b w' = quiet b w"
    "will_end a w \<longrightarrow> state a \<noteq> stT \<longrightarrow> work a' w' < work a w"
proof -
  from assms have p: "fd1 \<noteq> fd2" "wf_fsm a" "wf_fsm b" "sfd a = fd1" "dfd a = fd2" "sfd b = fd2" "dfd b = fd1"
    by (simp_all add: pair_ok_def)
  from step_total [OF p(2)] obtain a' w' where s: "drv a w = Some (a', w')" "step_ok a w a' w'" by blast
  then have fr: "frame a w w'" by (simp add: step_ok_def)
  have "sfd b \<noteq> sfd a" "dfd b \<noteq> dfd a" using p by auto
  note o = other_evolves [OF fr this]
  show thesis
    using s p o step_ok_evolves [OF s(2)] by (intro that [of a' w']) (auto simp: pair_ok_def step_ok_def)
qed

lemma pair_ok_sym: "pair_ok fd1 fd2 a b = pair_ok fd2 fd1 b a"
  by (auto simp: pair_ok_def)

lemma drive_second:
  assumes "pair_ok fd1 fd2 a b"
  obtains b' w' where "drv b w = Some (b', w')" "pair_ok fd1 fd2 a b'"
    "evolves b w b' w'" "evolves a w a w'" "work a w' = work a w" "quiet a w' = quiet a w"
    "will_end b w \<longrightarrow> state b \<noteq> stT \<longrightarrow> work b' w' < work b w"
  using drive_first [of fd2 fd1 b a w] assms pair_ok_sym by metis

text \<open>One turn of a relay loop: each machine is driven, or not.\<close>

lemma turn:
  assumes "pair_ok fd1 fd2 a b" "will_end a w" "will_end b w"
  obtains a1 w1 b1 w2 where
    "(if c then drv a w else Some (a, w)) = Some (a1, w1)"
    "(if d then drv b w1 else Some (b, w1)) = Some (b1, w2)"
    "pair_ok fd1 fd2 a1 b1" "evolves a w a1 w2" "evolves b w b1 w2"
    "will_end a1 w2" "will_end b1 w2" "work a1 w2 + work b1 w2 \<le> work a w + work b w"
    "c \<and> state a \<noteq> stT \<or> d \<and> state b \<noteq> stT \<longrightarrow> work a1 w2 + work b1 w2 < work a w + work b w"
    "quiet a w \<longrightarrow> quiet a1 w2" "quiet b w \<longrightarrow> quiet b1 w2" "\<not> d \<longrightarrow> b1 = b"
proof -
  obtain a1 w1 where 1: "(if c then drv a w else Some (a, w)) = Some (a1, w1)" "pair_ok fd1 fd2 a1 b"
    "evolves a w a1 w1" "evolves b w b w1" "work b w1 = work b w" "quiet b w1 = quiet b w"
    "c \<and> state a \<noteq> stT \<longrightarrow> work a1 w1 < work a w" "quiet a w \<longrightarrow> quiet a1 w1"
  proof (cases c)
    case True
    show thesis
      by (rule drive_first [OF assms(1), of w], rule that) (use True assms(2) quiet_step in auto)
  next
    case False
    with assms(1) evolves_refl show thesis by (intro that [of a w]) simp_all
  qed
  obtain b1 w2 where 2: "(if d then drv b w1 else Some (b, w1)) = Some (b1, w2)" "pair_ok fd1 fd2 a1 b1"
    "evolves b w1 b1 w2" "evolves a1 w1 a1 w2" "work a1 w2 = work a1 w1" "quiet a1 w2 = quiet a1 w1"
    "d \<and> state b \<noteq> stT \<longrightarrow> work b1 w2 < work b w1" "quiet b w1 \<longrightarrow> quiet b1 w2" "\<not> d \<longrightarrow> b1 = b"
  proof (cases d)
    case True
    have we: "will_end b w1" using 1(4) assms(3) by (auto simp: evolves_def)
    show thesis
      by (rule drive_second [OF 1(2), of w1], rule that) (use True we quiet_step in auto)
  next
    case False
    with 1(2) evolves_refl show thesis by (intro that [of b w1]) simp_all
  qed
  have ev: "evolves a w a1 w2" "evolves b w b1 w2"
    using evolves_trans [OF 1(3) 2(4)] evolves_trans [OF 1(4) 2(3)] by auto
  have wk: "work a1 w1 \<le> work a w" "work b1 w2 \<le> work b w1"
    using 1(3,4) 2(3) assms(2,3) by (auto simp: evolves_def)
  show thesis
  proof (rule that [OF 1(1) 2(1,2) ev])
    show "will_end a1 w2" "will_end b1 w2" using ev assms(2,3) by (auto simp: evolves_def)
    show "work a1 w2 + work b1 w2 \<le> work a w + work b w" using wk 1(5) 2(5) by simp
    show "c \<and> state a \<noteq> stT \<or> d \<and> state b \<noteq> stT \<longrightarrow> work a1 w2 + work b1 w2 < work a w + work b w"
      using wk 1(5,7) 2(5,7) by auto
  qed (use 1(6,8) 2(6,8,9) in auto)
qed

text \<open>The start of a relay: both machines read.\<close>

definition init_fsm :: "'s rel_fsm_st \<Rightarrow> int \<Rightarrow> int \<Rightarrow> 's rel_fsm_st" where
  "init_fsm g s d = g\<lparr>state := stR, sfd := s, dfd := d\<rparr>"

lemma init_pair_ok:
  "fd1 \<noteq> fd2 \<Longrightarrow> length (buf g1) = BUFSIZE \<Longrightarrow> length (buf g2) = BUFSIZE \<Longrightarrow>
   pair_ok fd1 fd2 (init_fsm g1 fd1 fd2) (init_fsm g2 fd2 fd1)"
  by (simp add: pair_ok_def wf_fsm_def init_fsm_def)

lemma init_flow: "flow (init_fsm g s d) w = written w d @ stream (rd_script w s)"
  by (simp add: flow_def pending_def avail_def init_fsm_def)

lemma init_will_end: "stream_ends (rd_script w s) \<Longrightarrow> will_end (init_fsm g s d) w"
  by (simp add: will_end_def init_fsm_def)

lemma init_quiet:
  "sink_ok (wr_script w d) \<Longrightarrow> (\<And>e. RErr e \<in> set (rd_script w s) \<Longrightarrow> e = EAGAIN) \<Longrightarrow>
   quiet (init_fsm g s d) w"
  by (simp add: quiet_def init_fsm_def)

lemma init_work:
  "work (init_fsm g s d) w = 4 * rd_work (rd_script w s) + length (wr_script w d) + 2"
  by (simp add: work_def init_fsm_def)

text \<open>The end of a relay: what has been written is what the source delivered.\<close>

lemma finish:
  assumes "evolves (init_fsm g s d) w f w'" "state f = stT"
  shows "prefix (written w d) (written w' d)"
    and "prefix (written w' d) (written w d @ stream (rd_script w s))"
    and "sink_ok (wr_script w d) \<Longrightarrow> written w' d = written w d @ stream (rd_script w s)"
proof -
  have f: "flow f w' = written w' d"
    using assms by (simp add: evolves_def flow_def pending_def avail_def init_fsm_def)
  from assms show "prefix (written w d) (written w' d)" by (simp add: evolves_def init_fsm_def)
  from assms f show "prefix (written w' d) (written w d @ stream (rd_script w s))"
    by (simp add: evolves_def init_flow)
  from assms f show "sink_ok (wr_script w d) \<Longrightarrow> written w' d = written w d @ stream (rd_script w s)"
    by (auto simp: evolves_def init_flow) (auto simp: init_fsm_def)
qed

end

section \<open>Loops that wait between the calls\<close>

text \<open>
  A relay loop over a source \<open>m\<close> of readiness reports. A turn drives each machine or not; when it
  drives no unfinished machine it must have used up some of the reports. With \<open>needs_quiet\<close> the
  turns are only promised while the second machine meets no failure.
\<close>

locale relay_mux = relay_driver stR stW stEX stT drv
  for stR stW stEX stT :: 's
    and drv :: "'s rel_fsm_st \<Rightarrow> world \<Rightarrow> ('s rel_fsm_st \<times> world) option" +
  fixes loop :: "nat \<Rightarrow> 'm \<Rightarrow> int \<Rightarrow> int \<Rightarrow> 's rel_fsm_st \<Rightarrow> 's rel_fsm_st \<Rightarrow> world \<Rightarrow>
      ('s rel_fsm_st \<times> 's rel_fsm_st, world) outcome"
    and reports :: "'m \<Rightarrow> nat"
    and alive :: "'m \<Rightarrow> bool"
    and needs_quiet :: bool
  assumes loop_done: "state a = stT \<Longrightarrow> state b = stT \<Longrightarrow> loop n m fd1 fd2 a b w = Ret (a, b) w"
    and loop_turn: "pair_ok fd1 fd2 a b \<Longrightarrow> \<not> (state a = stT \<and> state b = stT) \<Longrightarrow> alive m \<Longrightarrow>
      (needs_quiet \<longrightarrow> quiet b w) \<Longrightarrow> \<exists>c d m'. alive m' \<and>
        (reports m' < reports m \<or> reports m' \<le> reports m \<and> (c \<and> state a \<noteq> stT \<or> d \<and> state b \<noteq> stT)) \<and>
        loop (Suc n) m fd1 fd2 a b w =
          (case (if c then drv a w else Some (a, w)) of
             None \<Rightarrow> Abort w
           | Some (a1, w1) \<Rightarrow> (case (if d then drv b w1 else Some (b, w1)) of
               None \<Rightarrow> Abort w1
             | Some (b1, w2) \<Rightarrow> loop n m' fd1 fd2 a1 b1 w2))"
begin

lemma loop_evolves:
  assumes "pair_ok fd1 fd2 a b" "will_end a w" "will_end b w" "alive m" "needs_quiet \<longrightarrow> quiet b w"
    "reports m + work a w + work b w \<le> fuel"
  shows "\<exists>a' b' w'. loop fuel m fd1 fd2 a b w = Ret (a', b') w' \<and> state a' = stT \<and> state b' = stT \<and>
    evolves a w a' w' \<and> evolves b w b' w'"
  using assms
proof (induction fuel arbitrary: m a b w)
  case 0
  then have "state a = stT" "state b = stT"
    using work_0 [of a w] work_0 [of b w] by (auto simp: pair_ok_def)
  then show ?case by (simp add: loop_done evolves_refl)
next
  case (Suc n)
  show ?case
  proof (cases "state a = stT \<and> state b = stT")
    case True
    then show ?thesis by (simp add: loop_done evolves_refl)
  next
    case False
    from loop_turn [OF Suc.prems(1) False Suc.prems(4,5), of n] obtain c d m' where
      m': "alive m'" "reports m' < reports m \<or> reports m' \<le> reports m \<and> (c \<and> state a \<noteq> stT \<or> d \<and> state b \<noteq> stT)"
      and unfold: "loop (Suc n) m fd1 fd2 a b w =
          (case (if c then drv a w else Some (a, w)) of
             None \<Rightarrow> Abort w
           | Some (a1, w1) \<Rightarrow> (case (if d then drv b w1 else Some (b, w1)) of
               None \<Rightarrow> Abort w1
             | Some (b1, w2) \<Rightarrow> loop n m' fd1 fd2 a1 b1 w2))" by blast
    obtain a1 w1 b1 w2 where 1: "(if c then drv a w else Some (a, w)) = Some (a1, w1)"
      "(if d then drv b w1 else Some (b, w1)) = Some (b1, w2)"
      "pair_ok fd1 fd2 a1 b1" and ev: "evolves a w a1 w2" "evolves b w b1 w2"
      and we: "will_end a1 w2" "will_end b1 w2"
      and wk: "work a1 w2 + work b1 w2 \<le> work a w + work b w"
        "c \<and> state a \<noteq> stT \<or> d \<and> state b \<noteq> stT \<longrightarrow> work a1 w2 + work b1 w2 < work a w + work b w"
      and q: "quiet b w \<longrightarrow> quiet b1 w2"
      by (rule turn [OF Suc.prems(1-3), of c d])
    have "needs_quiet \<longrightarrow> quiet b1 w2" "reports m' + work a1 w2 + work b1 w2 \<le> n"
      using q Suc.prems(5,6) m'(2) wk by auto
    from Suc.IH [OF 1(3) we m'(1) this] obtain a' b' w' where r:
      "loop n m' fd1 fd2 a1 b1 w2 = Ret (a', b') w'" "state a' = stT" "state b' = stT"
      "evolves a1 w2 a' w'" "evolves b1 w2 b' w'" by blast
    have "loop (Suc n) m fd1 fd2 a b w = loop n m' fd1 fd2 a1 b1 w2" by (simp add: unfold 1)
    with r evolves_trans [OF ev(1) r(4)] evolves_trans [OF ev(2) r(5)] show ?thesis by simp
  qed
qed

text \<open>From the start of a relay to its end, with both sinks working.\<close>

lemma loop_copies:
  assumes "fd1 \<noteq> fd2" "length (buf g1) = BUFSIZE" "length (buf g2) = BUFSIZE"
    and "stream_ends (rd_script w fd1)" "stream_ends (rd_script w fd2)"
    and "sink_ok (wr_script w fd1)" "sink_ok (wr_script w fd2)" "alive m"
    and "needs_quiet \<Longrightarrow> \<forall>e. RErr e \<in> set (rd_script w fd2) \<longrightarrow> e = EAGAIN"
    and "reports m + (4 * rd_work (rd_script w fd1) + length (wr_script w fd2) + 2) +
      (4 * rd_work (rd_script w fd2) + length (wr_script w fd1) + 2) \<le> fuel"
  obtains a' b' w' where "loop fuel m fd1 fd2 (init_fsm g1 fd1 fd2) (init_fsm g2 fd2 fd1) w = Ret (a', b') w'"
    "written w' fd2 = written w fd2 @ stream (rd_script w fd1)"
    "written w' fd1 = written w fd1 @ stream (rd_script w fd2)" "fd_flags w' = fd_flags w"
proof -
  let ?a = "init_fsm g1 fd1 fd2" and ?b = "init_fsm g2 fd2 fd1"
  have f: "reports m + work ?a w + work ?b w \<le> fuel" using assms(10) by (simp add: init_work)
  have q: "needs_quiet \<longrightarrow> quiet ?b w" using assms(6,9) by (auto intro: init_quiet)
  from loop_evolves [OF init_pair_ok [OF assms(1-3)] init_will_end init_will_end assms(8) q f] assms(4,5)
  obtain a' b' w' where 3: "loop fuel m fd1 fd2 ?a ?b w = Ret (a', b') w'" "state a' = stT"
    "state b' = stT" "evolves ?a w a' w'" "evolves ?b w b' w'" by auto
  show thesis
    using finish(3) [OF 3(4,2) assms(7)] finish(3) [OF 3(5,3) assms(6)] 3(4)
    by (intro that [OF 3(1)]) (simp_all add: evolves_def)
qed

end

end
