(* ===== verification/Relay.thy ===== *)
theory Relay
  imports Relay_Spec
begin

text \<open>
  \<open>proIO/non-blocked/relay.c\<close> and its variant \<open>relay_file.c\<close>: the relay that polls both machines
  in turn on non-blocking descriptors, and their \<open>main\<close> programs.
\<close>

unbundle bit_operations_syntax

section \<open>The relay of \<open>relay.c\<close>\<close>

datatype rel_state = STATE_R | STATE_W | STATE_EX | STATE_T

type_synonym fsm = "rel_state rel_fsm_st"

text \<open>\<open>fsm_driver\<close>; \<open>None\<close> would be \<open>abort()\<close>, which the enumeration leaves no state for.\<close>

definition fsm_driver :: "fsm \<Rightarrow> world \<Rightarrow> (fsm \<times> world) option" where
  "fsm_driver f w = (case state f of
      STATE_R \<Rightarrow>
        (case sys_read (sfd f) BUFSIZE w of (n, bs, w1) \<Rightarrow>
           (let f1 = f\<lparr>len := n, buf := fill bs (buf f)\<rparr>
            in if len f1 = 0 then Some (f1\<lparr>state := STATE_T\<rparr>, w1)
               else if len f1 < 0 then
                 (if errno w1 = EAGAIN then Some (f1\<lparr>state := STATE_R\<rparr>, w1)
                  else Some (f1\<lparr>strerr := ''read()'', state := STATE_EX\<rparr>, w1))
               else Some (f1\<lparr>fpos := 0, state := STATE_W\<rparr>, w1)))
    | STATE_W \<Rightarrow>
        (case sys_write (dfd f) (window f) w of (ret, w1) \<Rightarrow>
           if ret < 0 then
             (if errno w1 = EAGAIN then Some (f\<lparr>state := STATE_W\<rparr>, w1)
              else Some (f\<lparr>strerr := ''write()'', state := STATE_EX\<rparr>, w1))
           else (let f1 = f\<lparr>fpos := fpos f + ret, len := len f - ret\<rparr>
                 in if len f1 = 0 then Some (f1\<lparr>state := STATE_R\<rparr>, w1)
                    else Some (f1\<lparr>state := STATE_W\<rparr>, w1)))
    | STATE_EX \<Rightarrow> Some (f\<lparr>state := STATE_T\<rparr>, perror (strerr f) w)
    | STATE_T \<Rightarrow> Some (f, w))"

interpretation rl: relay_driver STATE_R STATE_W STATE_EX STATE_T fsm_driver
  by unfold_locales (simp_all add: fsm_driver_def Let_def split: prod.split)

text \<open>The loop of \<open>relay\<close>; each turn costs one unit of fuel.\<close>

fun relay_loop :: "nat \<Rightarrow> fsm \<Rightarrow> fsm \<Rightarrow> world \<Rightarrow> (fsm \<times> fsm, world) outcome" where
  "relay_loop fuel a b w =
     (if state a \<noteq> STATE_T \<or> state b \<noteq> STATE_T then
        (case fuel of
           0 \<Rightarrow> OutOfFuel w
         | Suc n \<Rightarrow>
             (case fsm_driver a w of
                None \<Rightarrow> Abort w
              | Some (a1, w1) \<Rightarrow>
                  (case fsm_driver b w1 of
                     None \<Rightarrow> Abort w1
                   | Some (b1, w2) \<Rightarrow> relay_loop n a1 b1 w2)))
      else Ret (a, b) w)"

declare relay_loop.simps [simp del]

text \<open>\<open>relay\<close>; \<open>g1\<close> and \<open>g2\<close> are what the uninitialised local machines contain.\<close>

definition relay :: "nat \<Rightarrow> fsm \<Rightarrow> fsm \<Rightarrow> int \<Rightarrow> int \<Rightarrow> world \<Rightarrow> (unit, world) outcome" where
  "relay fuel g1 g2 fd1 fd2 w =
     (let fd1_save = F_GETFL fd1 w;
          w1 = F_SETFL fd1 (fd1_save OR O_NONBLOCK) w;
          fd2_save = F_GETFL fd2 w1;
          w2 = F_SETFL fd2 (fd2_save OR O_NONBLOCK) w1;
          fsm12 = g1\<lparr>state := STATE_R, sfd := fd1, dfd := fd2\<rparr>;
          fsm21 = g2\<lparr>state := STATE_R, sfd := fd2, dfd := fd1\<rparr>
      in bind_outcome (relay_loop fuel fsm12 fsm21 w2) (\<lambda>_ w3.
           Ret () (F_SETFL fd2 fd2_save (F_SETFL fd1 fd1_save w3))))"

definition relay_main :: "nat \<Rightarrow> fsm \<Rightarrow> fsm \<Rightarrow> world \<Rightarrow> (unit, world) outcome" where
  "relay_main fuel g1 g2 w =
     (case sys_open ''/dev/pts/1'' O_RDWR w of (fd1, w1) \<Rightarrow>
        if fd1 < 0 then Exit 1 (perror ''open()'' w1)
        else (let w2 = snd (sys_write fd1 (str_bytes (''TTY1'' @ [CHR 0x0A])) w1)
              in case sys_open ''/dev/pts/2'' (O_RDWR OR O_NONBLOCK) w2 of (fd2, w3) \<Rightarrow>
                   if fd2 < 0 then Exit 1 (perror ''open()'' w3)
                   else (let w4 = snd (sys_write fd2 (str_bytes (''TTY2'' @ [CHR 0x0A])) w3)
                         in bind_outcome (relay fuel g1 g2 fd1 fd2 w4) (\<lambda>_ w5.
                              Exit 0 (sys_close fd2 (sys_close fd1 w5))))))"

section \<open>The loop terminates and evolves both directions\<close>

lemma relay_loop_evolves:
  assumes "rl.pair_ok fd1 fd2 a b" "rl.will_end a w" "rl.will_end b w"
    "rl.work a w + rl.work b w \<le> fuel"
  shows "\<exists>a' b' w'. relay_loop fuel a b w = Ret (a', b') w' \<and> state a' = STATE_T \<and> state b' = STATE_T \<and>
    rl.evolves a w a' w' \<and> rl.evolves b w b' w'"
  using assms
proof (induction fuel arbitrary: a b w)
  case 0
  then have "state a = STATE_T" "state b = STATE_T"
    using rl.work_0 [of a w] rl.work_0 [of b w] by (auto simp: rl.pair_ok_def)
  then show ?case by (simp add: relay_loop.simps [of 0] rl.evolves_refl)
next
  case (Suc n)
  show ?case
  proof (cases "state a = STATE_T \<and> state b = STATE_T")
    case True
    then show ?thesis by (simp add: relay_loop.simps [of "Suc n"] rl.evolves_refl)
  next
    case False
    obtain a1 w1 b1 w2 where 1: "fsm_driver a w = Some (a1, w1)" "fsm_driver b w1 = Some (b1, w2)"
      "rl.pair_ok fd1 fd2 a1 b1" and ev: "rl.evolves a w a1 w2" "rl.evolves b w b1 w2"
      and we: "rl.will_end a1 w2" "rl.will_end b1 w2"
      and wk: "rl.work a1 w2 + rl.work b1 w2 < rl.work a w + rl.work b w"
      by (rule rl.turn [OF Suc.prems(1-3), of True True]) (use False in auto)
    from wk Suc.prems(4) have "rl.work a1 w2 + rl.work b1 w2 \<le> n" by simp
    from Suc.IH [OF 1(3) we this] obtain a' b' w' where r:
      "relay_loop n a1 b1 w2 = Ret (a', b') w'" "state a' = STATE_T" "state b' = STATE_T"
      "rl.evolves a1 w2 a' w'" "rl.evolves b1 w2 b' w'" by blast
    have "relay_loop (Suc n) a b w = relay_loop n a1 b1 w2"
      using False 1(1,2) by (auto simp: relay_loop.simps [of "Suc n"])
    with r rl.evolves_trans [OF ev(1) r(4)] rl.evolves_trans [OF ev(2) r(5)] show ?thesis by simp
  qed
qed

text \<open>Enough turns for a relay between two descriptors.\<close>

definition relay_fuel :: "int \<Rightarrow> int \<Rightarrow> world \<Rightarrow> nat" where
  "relay_fuel fd1 fd2 w = 4 * rd_work (rd_script w fd1) + 4 * rd_work (rd_script w fd2) +
     length (wr_script w fd1) + length (wr_script w fd2) + 4"

text \<open>A relay whose sources end returns, and both directions have evolved to their end.\<close>

lemma relay_returns:
  assumes "fd1 \<noteq> fd2" "length (buf g1) = BUFSIZE" "length (buf g2) = BUFSIZE"
    "stream_ends (rd_script w fd1)" "stream_ends (rd_script w fd2)" "relay_fuel fd1 fd2 w \<le> fuel"
  obtains w2 a' b' w3 where
    "relay fuel g1 g2 fd1 fd2 w = Ret () (F_SETFL fd2 (F_GETFL fd2 w) (F_SETFL fd1 (F_GETFL fd1 w) w3))"
    "w2 = F_SETFL fd2 (F_GETFL fd2 w OR O_NONBLOCK) (F_SETFL fd1 (F_GETFL fd1 w OR O_NONBLOCK) w)"
    "state a' = STATE_T" "rl.evolves (rl.init_fsm g1 fd1 fd2) w2 a' w3"
    "state b' = STATE_T" "rl.evolves (rl.init_fsm g2 fd2 fd1) w2 b' w3"
proof -
  define w2 where "w2 = F_SETFL fd2 (F_GETFL fd2 w OR O_NONBLOCK) (F_SETFL fd1 (F_GETFL fd1 w OR O_NONBLOCK) w)"
  let ?a = "rl.init_fsm g1 fd1 fd2" and ?b = "rl.init_fsm g2 fd2 fd1"
  have w2 [simp]: "rd_script w2 = rd_script w" "wr_script w2 = wr_script w"
    by (simp_all add: w2_def F_SETFL_def)
  have f: "rl.work ?a w2 + rl.work ?b w2 \<le> fuel"
    using assms(6) by (simp add: rl.init_work relay_fuel_def)
  from relay_loop_evolves [OF rl.init_pair_ok [OF assms(1-3)] rl.init_will_end rl.init_will_end f] assms(4,5)
  obtain a' b' w3 where 3: "relay_loop fuel ?a ?b w2 = Ret (a', b') w3" "state a' = STATE_T" "state b' = STATE_T"
    "rl.evolves ?a w2 a' w3" "rl.evolves ?b w2 b' w3" by auto
  have "relay fuel g1 g2 fd1 fd2 w =
      Ret () (F_SETFL fd2 (F_GETFL fd2 w) (F_SETFL fd1 (F_GETFL fd1 w) w3))"
    using 3(1) assms(1) unfolding relay_def w2_def rl.init_fsm_def
    by (simp add: Let_def F_GETFL_def F_SETFL_def)
  with 3 w2_def show thesis by (intro that)
qed

text \<open>
  C2: \<open>relay\<close> copies both directions completely. If both sources end (end of file or a read error)
  and neither sink fails for good, then \<open>relay\<close> returns after a bounded number of turns, for every
  pattern of \<open>EAGAIN\<close>s, short reads and short writes; exactly the bytes each side delivered have
  been appended to the other side, in order, and the descriptors' status flags are restored.
\<close>

theorem relay_copies_both_ways:
  assumes "fd1 \<noteq> fd2" and "length (buf g1) = BUFSIZE" and "length (buf g2) = BUFSIZE"
    and "stream_ends (rd_script w fd1)" and "stream_ends (rd_script w fd2)"
    and "sink_ok (wr_script w fd1)" and "sink_ok (wr_script w fd2)"
    and "relay_fuel fd1 fd2 w \<le> fuel"
  shows "\<exists>w'. relay fuel g1 g2 fd1 fd2 w = Ret () w' \<and>
    written w' fd2 = written w fd2 @ stream (rd_script w fd1) \<and>
    written w' fd1 = written w fd1 @ stream (rd_script w fd2) \<and>
    fd_flags w' = fd_flags w"
proof -
  obtain w2 a' b' w3 where *:
    "relay fuel g1 g2 fd1 fd2 w = Ret () (F_SETFL fd2 (F_GETFL fd2 w) (F_SETFL fd1 (F_GETFL fd1 w) w3))"
    "w2 = F_SETFL fd2 (F_GETFL fd2 w OR O_NONBLOCK) (F_SETFL fd1 (F_GETFL fd1 w OR O_NONBLOCK) w)"
    "state a' = STATE_T" "rl.evolves (rl.init_fsm g1 fd1 fd2) w2 a' w3"
    "state b' = STATE_T" "rl.evolves (rl.init_fsm g2 fd2 fd1) w2 b' w3"
    by (rule relay_returns [OF assms(1-5,8)])
  have "written w3 fd2 = written w fd2 @ stream (rd_script w fd1)"
    "written w3 fd1 = written w fd1 @ stream (rd_script w fd2)"
    using rl.finish(3) [OF *(4,3)] rl.finish(3) [OF *(6,5)] assms(6,7) by (simp_all add: *(2) F_SETFL_def)
  moreover have "fd_flags w3 = fd_flags w2" using *(4) by (simp add: rl.evolves_def)
  ultimately show ?thesis using *(1,2) by (auto simp: F_SETFL_def F_GETFL_def fun_eq_iff)
qed

text \<open>A world with two terminals, for the concrete instances.\<close>

definition ex_world :: world where
  "ex_world = \<lparr>open_fd = (\<lambda>p. if p = ''/dev/pts/1'' then 3 else 4),
     rd_script = (\<lambda>fd. if fd = 3 then [RErr EAGAIN, RData [104, 105], RData []] else [RData [33], RErr 5]),
     wr_script = (\<lambda>fd. if fd = 4 then [WAccept 1, WErr EAGAIN] else []),
     written = (\<lambda>fd. []), fd_flags = (\<lambda>fd. 2), errno = 0, perrs = [], closed = []\<rparr>"

definition ex_fsm :: "'s \<Rightarrow> 's rel_fsm_st" where
  "ex_fsm s = \<lparr>state = s, sfd = 0, dfd = 0, buf = replicate BUFSIZE 0, len = 77, strerr = [], fpos = -5\<rparr>"

theorem relay_copies_both_ways_witness:
  "\<exists>w'. relay 60 (ex_fsm STATE_T) (ex_fsm STATE_W) 3 4 ex_world = Ret () w' \<and>
    written w' 4 = [104, 105] \<and> written w' 3 = [33] \<and> fd_flags w' = fd_flags ex_world"
  using relay_copies_both_ways [of 3 4 "ex_fsm STATE_T" "ex_fsm STATE_W" ex_world 60]
  by (simp add: ex_fsm_def ex_world_def EAGAIN_def relay_fuel_def)

text \<open>
  Whatever fails, nothing is invented, reordered or duplicated: if both sources end, \<open>relay\<close>
  returns, and what it appended to each side is a prefix of what the other side delivered. A
  failed write loses the tail of the stream and nothing else.
\<close>

theorem relay_prefix_on_failure:
  assumes "fd1 \<noteq> fd2" and "length (buf g1) = BUFSIZE" and "length (buf g2) = BUFSIZE"
    and "stream_ends (rd_script w fd1)" and "stream_ends (rd_script w fd2)"
    and "relay_fuel fd1 fd2 w \<le> fuel"
  shows "\<exists>w' xs ys. relay fuel g1 g2 fd1 fd2 w = Ret () w' \<and>
    written w' fd2 = written w fd2 @ xs \<and> prefix xs (stream (rd_script w fd1)) \<and>
    written w' fd1 = written w fd1 @ ys \<and> prefix ys (stream (rd_script w fd2))"
proof -
  obtain w2 a' b' w3 where *:
    "relay fuel g1 g2 fd1 fd2 w = Ret () (F_SETFL fd2 (F_GETFL fd2 w) (F_SETFL fd1 (F_GETFL fd1 w) w3))"
    "w2 = F_SETFL fd2 (F_GETFL fd2 w OR O_NONBLOCK) (F_SETFL fd1 (F_GETFL fd1 w OR O_NONBLOCK) w)"
    "state a' = STATE_T" "rl.evolves (rl.init_fsm g1 fd1 fd2) w2 a' w3"
    "state b' = STATE_T" "rl.evolves (rl.init_fsm g2 fd2 fd1) w2 b' w3"
    by (rule relay_returns [OF assms])
  obtain xs where "written w3 fd2 = written w fd2 @ xs" "prefix xs (stream (rd_script w fd1))"
    using rl.finish(1,2) [OF *(4,3)] by (auto simp: *(2) F_SETFL_def elim!: prefixE)
  moreover obtain ys where "written w3 fd1 = written w fd1 @ ys" "prefix ys (stream (rd_script w fd2))"
    using rl.finish(1,2) [OF *(6,5)] by (auto simp: *(2) F_SETFL_def elim!: prefixE)
  ultimately show ?thesis using *(1) by (auto simp: F_SETFL_def)
qed

theorem relay_prefix_on_failure_witness:
  "\<exists>w' xs ys. relay 60 (ex_fsm STATE_T) (ex_fsm STATE_W) 3 4
      (ex_world\<lparr>wr_script := (\<lambda>fd. if fd = 4 then [WAccept 1, WErr 32] else [])\<rparr>) = Ret () w' \<and>
    written w' 4 = xs \<and> prefix xs [104, 105] \<and> written w' 3 = ys \<and> prefix ys [33]"
  using relay_prefix_on_failure [of 3 4 "ex_fsm STATE_T" "ex_fsm STATE_W"
      "ex_world\<lparr>wr_script := (\<lambda>fd. if fd = 4 then [WAccept 1, WErr 32] else [])\<rparr>" 60]
  by (simp add: ex_fsm_def ex_world_def EAGAIN_def relay_fuel_def)

section \<open>The file variant \<open>relay_file.c\<close>\<close>

definition rf_fsm_driver :: "fsm \<Rightarrow> world \<Rightarrow> (fsm \<times> world) option" where
  "rf_fsm_driver f w = (case state f of
      STATE_R \<Rightarrow>
        (case sys_read (sfd f) BUFSIZE w of (n, bs, w1) \<Rightarrow>
           (let f1 = f\<lparr>len := n, buf := fill bs (buf f)\<rparr>
            in if len f1 = 0 then Some (f1\<lparr>state := STATE_T\<rparr>, w1)
               else if len f1 < 0 then
                 (if errno w1 = EAGAIN then Some (f1\<lparr>state := STATE_R\<rparr>, w1)
                  else Some (f1\<lparr>strerr := ''read()'', state := STATE_EX\<rparr>, w1))
               else Some (f1\<lparr>fpos := 0, state := STATE_W\<rparr>, w1)))
    | STATE_W \<Rightarrow>
        (case sys_write (dfd f) (window f) w of (ret, w1) \<Rightarrow>
           if ret < 0 then
             (if errno w1 = EAGAIN then Some (f\<lparr>state := STATE_W\<rparr>, w1)
              else Some (f\<lparr>strerr := ''write()'', state := STATE_EX\<rparr>, w1))
           else (let f1 = f\<lparr>fpos := fpos f + ret, len := len f - ret\<rparr>
                 in if len f1 = 0 then Some (f1\<lparr>state := STATE_R\<rparr>, w1)
                    else Some (f1\<lparr>state := STATE_W\<rparr>, w1)))
    | STATE_EX \<Rightarrow> Some (f\<lparr>state := STATE_T\<rparr>, perror (strerr f) w)
    | STATE_T \<Rightarrow> Some (f, w))"

fun rf_relay_loop :: "nat \<Rightarrow> fsm \<Rightarrow> fsm \<Rightarrow> world \<Rightarrow> (fsm \<times> fsm, world) outcome" where
  "rf_relay_loop fuel a b w =
     (if state a \<noteq> STATE_T \<or> state b \<noteq> STATE_T then
        (case fuel of
           0 \<Rightarrow> OutOfFuel w
         | Suc n \<Rightarrow>
             (case rf_fsm_driver a w of
                None \<Rightarrow> Abort w
              | Some (a1, w1) \<Rightarrow>
                  (case rf_fsm_driver b w1 of
                     None \<Rightarrow> Abort w1
                   | Some (b1, w2) \<Rightarrow> rf_relay_loop n a1 b1 w2)))
      else Ret (a, b) w)"

declare rf_relay_loop.simps [simp del]

definition rf_relay :: "nat \<Rightarrow> fsm \<Rightarrow> fsm \<Rightarrow> int \<Rightarrow> int \<Rightarrow> world \<Rightarrow> (unit, world) outcome" where
  "rf_relay fuel g1 g2 fd1 fd2 w =
     (let fd1_save = F_GETFL fd1 w;
          w1 = F_SETFL fd1 (fd1_save OR O_NONBLOCK) w;
          fd2_save = F_GETFL fd2 w1;
          w2 = F_SETFL fd2 (fd2_save OR O_NONBLOCK) w1;
          fsm12 = g1\<lparr>state := STATE_R, sfd := fd1, dfd := fd2\<rparr>;
          fsm21 = g2\<lparr>state := STATE_R, sfd := fd2, dfd := fd1\<rparr>
      in bind_outcome (rf_relay_loop fuel fsm12 fsm21 w2) (\<lambda>_ w3.
           Ret () (F_SETFL fd2 fd2_save (F_SETFL fd1 fd1_save w3))))"

text \<open>
  \<open>main\<close> of \<open>relay_file.c\<close>: the output file is created or emptied, and a failure to open it closes
  the input file first. With the world goes what is printed to standard output.
\<close>

definition rf_main :: "nat \<Rightarrow> fsm \<Rightarrow> fsm \<Rightarrow> world \<Rightarrow> (unit, world \<times> string) outcome" where
  "rf_main fuel g1 g2 w =
     (case sys_open ''/tmp/input.txt'' O_RDWR w of (fd1, w1) \<Rightarrow>
        if fd1 < 0 then Exit 1 (perror ''open input file'' w1, [])
        else (case sys_open ''/tmp/output.txt'' O_RDWR w1 of (fd2, w2) \<Rightarrow>
          if fd2 < 0 then Exit 1 (sys_close fd1 (perror ''open output file'' w2), [])
          else (let w3 = w2\<lparr>written := (written w2)(fd2 := [])\<rparr>
                in bind_outcome (map_outcome id (\<lambda>w4. (w4, [])) (rf_relay fuel g1 g2 fd1 fd2 w3)) (\<lambda>_ (w4, out).
                     Exit 0 (sys_close fd2 (sys_close fd1 w4), out @ ''File copy completed!'' @ [CHR 0x0A])))))"

text \<open>\<open>realy_file.c\<close> has the same text as \<open>relay_file.c\<close>.\<close>

definition realy_main :: "nat \<Rightarrow> fsm \<Rightarrow> fsm \<Rightarrow> world \<Rightarrow> (unit, world \<times> string) outcome" where
  "realy_main = rf_main"

lemma rf_fsm_driver_eq: "rf_fsm_driver = fsm_driver"
  by (simp add: fun_eq_iff rf_fsm_driver_def fsm_driver_def)

lemma rf_relay_loop_eq: "rf_relay_loop fuel a b w = relay_loop fuel a b w"
  by (induction fuel arbitrary: a b w)
     (simp_all add: rf_relay_loop.simps relay_loop.simps rf_fsm_driver_eq split: option.split)

lemma rf_relay_eq: "rf_relay fuel g1 g2 fd1 fd2 w = relay fuel g1 g2 fd1 fd2 w"
  by (simp add: rf_relay_def relay_def rf_relay_loop_eq)

text \<open>
  \<open>relay_file.c\<close> as a program: when both files open on different descriptors, both reads come
  to an end and the writes do not fail for good, the program exits with status 0 after a bounded
  number of turns, the output file holds exactly the bytes of the input file, and both descriptors
  are closed, and the message of success is printed. When a file does not open, it exits with status 1, copies nothing and prints nothing.
\<close>

theorem rf_main_copies_file:
  assumes "open_fd w ''/tmp/input.txt'' = fd1" and "open_fd w ''/tmp/output.txt'' = fd2"
    and "fd1 \<noteq> fd2" and "length (buf g1) = BUFSIZE" and "length (buf g2) = BUFSIZE"
    and "stream_ends (rd_script w fd1)" and "stream_ends (rd_script w fd2)"
    and "sink_ok (wr_script w fd1)" and "sink_ok (wr_script w fd2)" and "relay_fuel fd1 fd2 w \<le> fuel"
  shows "(0 \<le> fd1 \<and> 0 \<le> fd2 \<longrightarrow> (\<exists>w'. rf_main fuel g1 g2 w = Exit 0 (w', ''File copy completed!'' @ [CHR 0x0A]) \<and>
      written w' fd2 = stream (rd_script w fd1) \<and> {fd1, fd2} \<subseteq> set (closed w'))) \<and>
    (fd1 < 0 \<or> fd2 < 0 \<longrightarrow> (\<exists>w'. rf_main fuel g1 g2 w = Exit 1 (w', []) \<and> written w' = written w \<and>
      (0 \<le> fd1 \<longrightarrow> fd1 \<in> set (closed w'))))"
proof (intro conjI impI)
  assume pos: "0 \<le> fd1 \<and> 0 \<le> fd2"
  define w3 where "w3 = w\<lparr>fd_flags := (fd_flags w)(fd1 := O_RDWR, fd2 := O_RDWR), written := (written w)(fd2 := [])\<rparr>"
  have w3: "rd_script w3 = rd_script w" "wr_script w3 = wr_script w" "relay_fuel fd1 fd2 w3 = relay_fuel fd1 fd2 w"
    by (simp_all add: w3_def relay_fuel_def)
  obtain w2 a' b' w4 where *:
    "relay fuel g1 g2 fd1 fd2 w3 = Ret () (F_SETFL fd2 (F_GETFL fd2 w3) (F_SETFL fd1 (F_GETFL fd1 w3) w4))"
    "w2 = F_SETFL fd2 (F_GETFL fd2 w3 OR O_NONBLOCK) (F_SETFL fd1 (F_GETFL fd1 w3 OR O_NONBLOCK) w3)"
    "state a' = STATE_T" "rl.evolves (rl.init_fsm g1 fd1 fd2) w2 a' w4"
    "state b' = STATE_T" "rl.evolves (rl.init_fsm g2 fd2 fd1) w2 b' w4"
    using assms w3 by (auto intro: relay_returns [of fd1 fd2 g1 g2 w3 fuel])
  have "written w4 fd2 = stream (rd_script w fd1)"
    using rl.finish(3) [OF *(4,3)] assms(9) by (simp add: *(2) F_SETFL_def w3_def)
  moreover have "rf_main fuel g1 g2 w =
      Exit 0 (sys_close fd2 (sys_close fd1 (F_SETFL fd2 (F_GETFL fd2 w3) (F_SETFL fd1 (F_GETFL fd1 w3) w4))), ''File copy completed!'' @ [CHR 0x0A])"
    using pos assms(1,2) *(1) by (simp add: rf_main_def sys_open_def Let_def rf_relay_eq w3_def)
  ultimately show "\<exists>w'. rf_main fuel g1 g2 w = Exit 0 (w', ''File copy completed!'' @ [CHR 0x0A]) \<and> written w' fd2 = stream (rd_script w fd1) \<and>
      {fd1, fd2} \<subseteq> set (closed w')"
    by (simp add: sys_close_def F_SETFL_def)
next
  assume "fd1 < 0 \<or> fd2 < 0"
  then show "\<exists>w'. rf_main fuel g1 g2 w = Exit 1 (w', []) \<and> written w' = written w \<and> (0 \<le> fd1 \<longrightarrow> fd1 \<in> set (closed w'))"
    using assms(1,2) by (auto simp: rf_main_def sys_open_def Let_def sys_close_def perror_def)
qed

definition ex_files :: world where
  "ex_files = ex_world\<lparr>open_fd := (\<lambda>p. if p = ''/tmp/input.txt'' then 3 else 4)\<rparr>"

theorem rf_main_copies_file_witness:
  "\<exists>w'. rf_main 60 (ex_fsm STATE_T) (ex_fsm STATE_W) ex_files = Exit 0 (w', ''File copy completed!'' @ [CHR 0x0A]) \<and> written w' 4 = [104, 105] \<and>
    {3, 4} \<subseteq> set (closed w')"
  using rf_main_copies_file [of ex_files 3 4 "ex_fsm STATE_T" "ex_fsm STATE_W" 60]
  by (simp add: ex_fsm_def ex_files_def ex_world_def EAGAIN_def relay_fuel_def)

end
