(* ===== verification/Relay_Select.thy ===== *)
theory Relay_Select
  imports Relay
begin

text \<open>
  \<open>proIO/select/relay.c\<close>: the relay that waits in \<open>select\<close>. What \<open>select\<close> reports is a script of
  results; the kernel reports only descriptors that were asked for.
\<close>

unbundle bit_operations_syntax

section \<open>States and driver\<close>

datatype auto_state = ASTATE_R | ASTATE_W | ASTATE_AUTO | ASTATE_EX | ASTATE_T

text \<open>The value of an enumerator, for the comparisons with \<open>STATE_AUTO\<close>.\<close>

fun scode :: "auto_state \<Rightarrow> int" where
  "scode ASTATE_R = 1"
| "scode ASTATE_W = 2"
| "scode ASTATE_AUTO = 3"
| "scode ASTATE_EX = 4"
| "scode ASTATE_T = 5"

type_synonym afsm = "auto_state rel_fsm_st"

definition sel_fsm_driver :: "afsm \<Rightarrow> world \<Rightarrow> (afsm \<times> world) option" where
  "sel_fsm_driver f w = (case state f of
      ASTATE_R \<Rightarrow>
        (case sys_read (sfd f) BUFSIZE w of (n, bs, w1) \<Rightarrow>
           (let f1 = f\<lparr>len := n, buf := fill bs (buf f)\<rparr>
            in if len f1 = 0 then Some (f1\<lparr>state := ASTATE_T\<rparr>, w1)
               else if len f1 < 0 then
                 (if errno w1 = EAGAIN then Some (f1\<lparr>state := ASTATE_R\<rparr>, w1)
                  else Some (f1\<lparr>strerr := ''read()'', state := ASTATE_EX\<rparr>, w1))
               else Some (f1\<lparr>fpos := 0, state := ASTATE_W\<rparr>, w1)))
    | ASTATE_W \<Rightarrow>
        (case sys_write (dfd f) (window f) w of (ret, w1) \<Rightarrow>
           if ret < 0 then
             (if errno w1 = EAGAIN then Some (f\<lparr>state := ASTATE_W\<rparr>, w1)
              else Some (f\<lparr>strerr := ''write()'', state := ASTATE_EX\<rparr>, w1))
           else (let f1 = f\<lparr>fpos := fpos f + ret, len := len f - ret\<rparr>
                 in if len f1 = 0 then Some (f1\<lparr>state := ASTATE_R\<rparr>, w1)
                    else Some (f1\<lparr>state := ASTATE_W\<rparr>, w1)))
    | ASTATE_EX \<Rightarrow> Some (f\<lparr>state := ASTATE_T\<rparr>, perror (strerr f) w)
    | ASTATE_T \<Rightarrow> Some (f, w)
    | ASTATE_AUTO \<Rightarrow> None)"

interpretation sl: relay_driver ASTATE_R ASTATE_W ASTATE_EX ASTATE_T sel_fsm_driver
  by unfold_locales (simp_all add: sel_fsm_driver_def Let_def split: prod.split)

section \<open>The loop\<close>

datatype sel_res = SelReady "int list" "int list" | SelErr int

text \<open>
  One call of \<open>select\<close> on a read set and a write set: an error, or the subsets that are ready. When
  the script is used up everything asked for is ready.
\<close>

fun sys_select :: "sel_res list \<Rightarrow> int list \<Rightarrow> int list \<Rightarrow> sel_res \<times> sel_res list" where
  "sys_select [] rset wset = (SelReady rset wset, [])"
| "sys_select (SelErr e # l) rset wset = (SelErr e, l)"
| "sys_select (SelReady rs ws # l) rset wset =
     (SelReady (filter (\<lambda>fd. fd \<in> set rs) rset) (filter (\<lambda>fd. fd \<in> set ws) wset), l)"

text \<open>Setting the watch, and the call of \<open>select\<close> unless both machines must be pushed anyway.\<close>

definition sel_wait :: "sel_res list \<Rightarrow> afsm \<Rightarrow> afsm \<Rightarrow> sel_res \<times> sel_res list" where
  "sel_wait mux a b =
     (let rset = (if state a = ASTATE_R then [sfd a] else []) @ (if state b = ASTATE_R then [sfd b] else []);
          wset = (if state a = ASTATE_W then [dfd a] else []) @ (if state b = ASTATE_W then [dfd b] else [])
      in if scode (state a) < scode ASTATE_AUTO \<or> scode (state b) < scode ASTATE_AUTO
         then sys_select mux rset wset else (SelReady rset wset, mux))"

fun sel_loop :: "nat \<Rightarrow> sel_res list \<Rightarrow> int \<Rightarrow> int \<Rightarrow> afsm \<Rightarrow> afsm \<Rightarrow> world \<Rightarrow> (afsm \<times> afsm, world) outcome" where
  "sel_loop fuel mux fd1 fd2 a b w =
     (if state a \<noteq> ASTATE_T \<or> state b \<noteq> ASTATE_T then
        (case fuel of
           0 \<Rightarrow> OutOfFuel w
         | Suc n \<Rightarrow>
             (case sel_wait mux a b of
                (SelErr e, mux1) \<Rightarrow>
                  if e = EINTR then sel_loop n mux1 fd1 fd2 a b w
                  else Exit 1 (perror ''select()'' w)
              | (SelReady rs ws, mux1) \<Rightarrow>
                  (case (if fd1 \<in> set rs \<or> fd2 \<in> set ws \<or> scode (state a) > scode ASTATE_AUTO
                         then sel_fsm_driver a w else Some (a, w)) of
                     None \<Rightarrow> Abort w
                   | Some (a1, w1) \<Rightarrow>
                       (case (if fd2 \<in> set rs \<or> fd1 \<in> set ws \<or> scode (state b) < scode ASTATE_AUTO
                              then sel_fsm_driver b w1 else Some (b, w1)) of
                          None \<Rightarrow> Abort w1
                        | Some (b1, w2) \<Rightarrow> sel_loop n mux1 fd1 fd2 a1 b1 w2))))
      else Ret (a, b) w)"

declare sel_loop.simps [simp del]

definition sel_relay :: "nat \<Rightarrow> sel_res list \<Rightarrow> afsm \<Rightarrow> afsm \<Rightarrow> int \<Rightarrow> int \<Rightarrow> world \<Rightarrow> (unit, world) outcome" where
  "sel_relay fuel mux g1 g2 fd1 fd2 w =
     (let fd1_save = F_GETFL fd1 w;
          w1 = F_SETFL fd1 (fd1_save OR O_NONBLOCK) w;
          fd2_save = F_GETFL fd2 w1;
          w2 = F_SETFL fd2 (fd2_save OR O_NONBLOCK) w1;
          fsm12 = g1\<lparr>state := ASTATE_R, sfd := fd1, dfd := fd2\<rparr>;
          fsm21 = g2\<lparr>state := ASTATE_R, sfd := fd2, dfd := fd1\<rparr>
      in bind_outcome (sel_loop fuel mux fd1 fd2 fsm12 fsm21 w2) (\<lambda>_ w3.
           Ret () (F_SETFL fd2 fd2_save (F_SETFL fd1 fd1_save w3))))"

definition sel_main :: "nat \<Rightarrow> sel_res list \<Rightarrow> afsm \<Rightarrow> afsm \<Rightarrow> world \<Rightarrow> (unit, world) outcome" where
  "sel_main fuel mux g1 g2 w =
     (case sys_open ''/dev/pts/1'' O_RDWR w of (fd1, w1) \<Rightarrow>
        if fd1 < 0 then Exit 1 (perror ''open()'' w1)
        else (let w2 = snd (sys_write fd1 (str_bytes (''TTY1'' @ [CHR 0x0A])) w1)
              in case sys_open ''/dev/pts/2'' (O_RDWR OR O_NONBLOCK) w2 of (fd2, w3) \<Rightarrow>
                   if fd2 < 0 then Exit 1 (perror ''open()'' w3)
                   else (let w4 = snd (sys_write fd2 (str_bytes (''TTY2'' @ [CHR 0x0A])) w3)
                         in bind_outcome (sel_relay fuel mux g1 g2 fd1 fd2 w4) (\<lambda>_ w5.
                              Exit 0 (sys_close fd2 (sys_close fd1 w5))))))"

section \<open>Termination and correctness of the loop\<close>

definition sel_alive :: "sel_res list \<Rightarrow> bool" where
  "sel_alive mux \<longleftrightarrow> (\<forall>e. SelErr e \<in> set mux \<longrightarrow> e = EINTR)"

text \<open>What a call of \<open>select\<close> can report.\<close>

lemma sel_wait_err:
  "sel_wait mux a b = (SelErr e, mux1) \<Longrightarrow> mux = SelErr e # mux1"
  by (cases mux rule: list.exhaust; cases "hd mux") (auto simp: sel_wait_def Let_def split: if_splits)

lemma sel_wait_ready:
  assumes "sel_wait mux a b = (SelReady rs ws, mux1)"
  shows "set mux1 \<subseteq> set mux" "length mux1 \<le> length mux"
    and "length mux1 < length mux \<or>
      (state a = ASTATE_R \<longrightarrow> sfd a \<in> set rs) \<and> (state a = ASTATE_W \<longrightarrow> dfd a \<in> set ws) \<and>
      (state b = ASTATE_R \<longrightarrow> sfd b \<in> set rs) \<and> (state b = ASTATE_W \<longrightarrow> dfd b \<in> set ws)"
    and "set rs \<subseteq> (if state a = ASTATE_R then {sfd a} else {}) \<union> (if state b = ASTATE_R then {sfd b} else {})"
    and "set ws \<subseteq> (if state a = ASTATE_W then {dfd a} else {}) \<union> (if state b = ASTATE_W then {dfd b} else {})"
  using assms
  by (cases mux rule: list.exhaust; cases "hd mux"; auto simp: sel_wait_def Let_def split: if_splits)+

lemma sel_loop_turn:
  assumes "sl.pair_ok fd1 fd2 a b" "\<not> (state a = ASTATE_T \<and> state b = ASTATE_T)" "sel_alive mux" "sl.quiet b w"
  shows "\<exists>c d mux'. sel_alive mux' \<and>
    (length mux' < length mux \<or> length mux' \<le> length mux \<and> (c \<and> state a \<noteq> ASTATE_T \<or> d \<and> state b \<noteq> ASTATE_T)) \<and>
    sel_loop (Suc n) mux fd1 fd2 a b w =
      (case (if c then sel_fsm_driver a w else Some (a, w)) of
         None \<Rightarrow> Abort w
       | Some (a1, w1) \<Rightarrow> (case (if d then sel_fsm_driver b w1 else Some (b, w1)) of
           None \<Rightarrow> Abort w1
         | Some (b1, w2) \<Rightarrow> sel_loop n mux' fd1 fd2 a1 b1 w2))"
proof (cases "sel_wait mux a b")
  case (Pair r mux1)
  show ?thesis
  proof (cases r)
    case (SelErr e)
    with Pair have m: "mux = SelErr e # mux1" by (simp add: sel_wait_err)
    with assms(3) have "e = EINTR" by (simp add: sel_alive_def)
    with assms(2,3) Pair SelErr m show ?thesis
      by (intro exI [of _ False] exI [of _ mux1]) (auto simp: sel_loop.simps [of "Suc n"] sel_alive_def)
  next
    case (SelReady rs ws)
    define c where "c = (fd1 \<in> set rs \<or> fd2 \<in> set ws \<or> scode (state a) > scode ASTATE_AUTO)"
    define d where "d = (fd2 \<in> set rs \<or> fd1 \<in> set ws \<or> scode (state b) < scode ASTATE_AUTO)"
    note rdy = sel_wait_ready [OF Pair [unfolded SelReady]]
    have "state a \<in> {ASTATE_R, ASTATE_W, ASTATE_EX, ASTATE_T}" "sfd a = fd1" "dfd a = fd2"
      "state b \<in> {ASTATE_R, ASTATE_W, ASTATE_T}"
      using assms(1,4) by (auto simp: sl.pair_ok_def sl.wf_fsm_def sl.quiet_def)
    with rdy(3) assms(2) have "length mux1 < length mux \<or> c \<and> state a \<noteq> ASTATE_T \<or> d \<and> state b \<noteq> ASTATE_T"
      by (auto simp: c_def d_def)
    moreover have "sel_alive mux1" using rdy(1) assms(3) by (auto simp: sel_alive_def)
    moreover have "sel_loop (Suc n) mux fd1 fd2 a b w =
      (case (if c then sel_fsm_driver a w else Some (a, w)) of
         None \<Rightarrow> Abort w
       | Some (a1, w1) \<Rightarrow> (case (if d then sel_fsm_driver b w1 else Some (b, w1)) of
           None \<Rightarrow> Abort w1
         | Some (b1, w2) \<Rightarrow> sel_loop n mux1 fd1 fd2 a1 b1 w2))"
      using assms(2) Pair SelReady unfolding c_def d_def by (subst sel_loop.simps) simp
    ultimately show ?thesis using rdy(2) by blast
  qed
qed

interpretation slm: relay_mux ASTATE_R ASTATE_W ASTATE_EX ASTATE_T sel_fsm_driver sel_loop length sel_alive True
proof
  show "sel_loop n m fd1 fd2 a b w = Ret (a, b) w" if "state a = ASTATE_T" "state b = ASTATE_T" for a b n m fd1 fd2 w
    using that by (simp add: sel_loop.simps)
qed (rule sel_loop_turn, simp_all)

text \<open>
  C13: The \<open>select\<close> relay copies both directions completely and returns, for every sequence of
  readiness reports and interruptions, provided both sources end, the sinks do not fail for good
  and the second source reports no read error.
\<close>

theorem sel_relay_copies:
  assumes "fd1 \<noteq> fd2" and "length (buf g1) = BUFSIZE" and "length (buf g2) = BUFSIZE"
    and "stream_ends (rd_script w fd1)" and "stream_ends (rd_script w fd2)"
    and "sink_ok (wr_script w fd1)" and "sink_ok (wr_script w fd2)"
    and "\<And>e. RErr e \<in> set (rd_script w fd2) \<Longrightarrow> e = EAGAIN" and "sel_alive mux"
    and "length mux + relay_fuel fd1 fd2 w \<le> fuel"
  shows "\<exists>w'. sel_relay fuel mux g1 g2 fd1 fd2 w = Ret () w' \<and>
    written w' fd2 = written w fd2 @ stream (rd_script w fd1) \<and>
    written w' fd1 = written w fd1 @ stream (rd_script w fd2) \<and> fd_flags w' = fd_flags w"
proof -
  define w2 where "w2 = F_SETFL fd2 (F_GETFL fd2 w OR O_NONBLOCK) (F_SETFL fd1 (F_GETFL fd1 w OR O_NONBLOCK) w)"
  have w2 [simp]: "rd_script w2 = rd_script w" "wr_script w2 = wr_script w" "written w2 = written w"
    by (simp_all add: w2_def F_SETFL_def)
  obtain a' b' w3 where 3: "sel_loop fuel mux fd1 fd2 (sl.init_fsm g1 fd1 fd2) (sl.init_fsm g2 fd2 fd1) w2 = Ret (a', b') w3"
    "written w3 fd2 = written w fd2 @ stream (rd_script w fd1)"
    "written w3 fd1 = written w fd1 @ stream (rd_script w fd2)" "fd_flags w3 = fd_flags w2"
    using slm.loop_copies [OF assms(1-3), of w2 mux fuel] assms by (auto simp: relay_fuel_def)
  have "sel_relay fuel mux g1 g2 fd1 fd2 w =
      Ret () (F_SETFL fd2 (F_GETFL fd2 w) (F_SETFL fd1 (F_GETFL fd1 w) w3))"
    using 3(1) assms(1) unfolding sel_relay_def w2_def sl.init_fsm_def
    by (simp add: Let_def F_GETFL_def F_SETFL_def)
  with 3 show ?thesis by (auto simp: F_SETFL_def F_GETFL_def w2_def fun_eq_iff)
qed

definition ex_quiet_world :: world where
  "ex_quiet_world = ex_world\<lparr>rd_script := (\<lambda>fd. if fd = 3 then [RErr EAGAIN, RData [104, 105], RData []] else [RData [33], RData []])\<rparr>"

theorem sel_relay_copies_witness:
  "\<exists>w'. sel_relay 60 [SelReady [] [], SelErr EINTR, SelReady [4] []] (ex_fsm ASTATE_T) (ex_fsm ASTATE_W) 3 4 ex_quiet_world = Ret () w' \<and>
    written w' 4 = [104, 105] \<and> written w' 3 = [33]"
  using sel_relay_copies [of 3 4 "ex_fsm ASTATE_T" "ex_fsm ASTATE_W" ex_quiet_world "[SelReady [] [], SelErr EINTR, SelReady [4] []]" 60]
  by (auto simp: ex_fsm_def ex_quiet_world_def ex_world_def EAGAIN_def relay_fuel_def sel_alive_def)

text \<open>
  C21: The wrong comparison \<open>fsm21.state < STATE_AUTO\<close> makes the \<open>select\<close> relay hang: once the
  second machine has met a read or write error, it is never driven again, so \<open>relay\<close> does not
  return however long it runs and whatever \<open>select\<close> reports.
\<close>

theorem sel_relay_stuck_after_error:
  assumes "fd1 \<noteq> fd2" and "state b = ASTATE_EX" and "sfd a = fd1" and "dfd a = fd2"
  shows "sel_loop fuel mux fd1 fd2 a b w \<noteq> Ret r w'"
  using assms
proof (induction fuel arbitrary: mux a b w)
  case 0
  then show ?case by (simp add: sel_loop.simps [of 0])
next
  case (Suc n)
  have keep: "sfd a1 = fd1 \<and> dfd a1 = fd2" if "sel_fsm_driver a w = Some (a1, w1)" for a1 w1
    using that Suc.prems(3,4)
    by (auto simp: sel_fsm_driver_def Let_def split: auto_state.splits prod.splits if_splits)
  show ?case
  proof (cases "sel_wait mux a b")
    case (Pair q mux1)
    show ?thesis
    proof (cases q)
      case (SelErr e)
      with Pair Suc.IH [OF Suc.prems] Suc.prems(2) show ?thesis by (subst sel_loop.simps) simp
    next
      case (SelReady rs ws)
      with sel_wait_ready(4,5) [OF Pair [unfolded SelReady]] Suc.prems have "fd2 \<notin> set rs" "fd1 \<notin> set ws"
        by (auto split: if_splits)
      with Pair SelReady keep Suc.IH [OF Suc.prems(1,2)] Suc.prems show ?thesis
        by (subst sel_loop.simps) (auto split: option.splits)
    qed
  qed
qed

theorem sel_relay_stuck_after_error_witness:
  "\<forall>r w'. sel_loop 1000000 [] 3 4 ((ex_fsm ASTATE_T)\<lparr>sfd := 3, dfd := 4\<rparr>) ((ex_fsm ASTATE_EX)\<lparr>sfd := 4, dfd := 3\<rparr>) ex_world
    \<noteq> Ret r w'"
  by (intro allI sel_relay_stuck_after_error) (simp_all add: ex_fsm_def)

end
