(* ===== verification/Relay_Poll.thy ===== *)
theory Relay_Poll
  imports Relay_Select
begin

text \<open>
  \<open>proIO/epoll/relay.c\<close>: the relay that waits in \<open>poll\<close> (the directories \<open>proIO/poll\<close> and
  \<open>proIO/epoll\<close> hold each other's program). Results of \<open>poll\<close> are a script.
\<close>

unbundle bit_operations_syntax

section \<open>Driver\<close>

definition poll_fsm_driver :: "afsm \<Rightarrow> world \<Rightarrow> (afsm \<times> world) option" where
  "poll_fsm_driver f w = (case state f of
      ASTATE_R \<Rightarrow>
        (case sys_read (sfd f) BUFSIZE w of (n, bs, w1) \<Rightarrow>
           (let f1 = f\<lparr>len := n, buf := fill bs (buf f)\<rparr>
            in if len f1 = 0 then Some (f1\<lparr>state := ASTATE_T\<rparr>, w1)
               else if len f1 < 0 then
                 (if errno w1 = EAGAIN then Some (f1\<lparr>state := ASTATE_R\<rparr>, w1)
                  else Some (f1\<lparr>strerr := ''read()'', state := ASTATE_EX\<rparr>, w1))
               else Some (f1\<lparr>fpos := 0, state := ASTATE_W\<rparr>, w1)))
    | ASTATE_W \<Rightarrow>
        (case sys_write (dfd f) (window f) w of (ret, w1) \<Rightarrow>
           if ret < 0 then
             (if errno w1 = EAGAIN then Some (f\<lparr>state := ASTATE_W\<rparr>, w1)
              else Some (f\<lparr>strerr := ''write()'', state := ASTATE_EX\<rparr>, w1))
           else (let f1 = f\<lparr>fpos := fpos f + ret, len := len f - ret\<rparr>
                 in if len f1 = 0 then Some (f1\<lparr>state := ASTATE_R\<rparr>, w1)
                    else Some (f1\<lparr>state := ASTATE_W\<rparr>, w1)))
    | ASTATE_EX \<Rightarrow> Some (f\<lparr>state := ASTATE_T\<rparr>, perror (strerr f) w)
    | ASTATE_T \<Rightarrow> Some (f, w)
    | ASTATE_AUTO \<Rightarrow> None)"

interpretation pl: relay_driver ASTATE_R ASTATE_W ASTATE_EX ASTATE_T poll_fsm_driver
  by unfold_locales (simp_all add: poll_fsm_driver_def Let_def split: prod.split)

section \<open>The loop\<close>

text \<open>The bits \<open>POLLIN\<close> and \<open>POLLOUT\<close> of \<open>events\<close> and \<open>revents\<close>.\<close>

record pollfd =
  ev_in :: bool
  ev_out :: bool
  rev_in :: bool
  rev_out :: bool

datatype poll_res = PollReady bool bool bool bool | PollErr int

text \<open>
  \<^verbatim>\<open>while (poll(pfd, 2, -1) < 0) { if (errno == EINTR) continue; perror("poll()"); exit(1); }\<close>.
  A successful call sets \<open>revents\<close> to a part of \<open>events\<close>; \<open>None\<close> is the exit.
\<close>

fun poll_wait :: "poll_res list \<Rightarrow> pollfd \<Rightarrow> pollfd \<Rightarrow> (pollfd \<times> pollfd \<times> poll_res list) option" where
  "poll_wait [] p0 p1 =
     Some (p0\<lparr>rev_in := ev_in p0, rev_out := ev_out p0\<rparr>, p1\<lparr>rev_in := ev_in p1, rev_out := ev_out p1\<rparr>, [])"
| "poll_wait (PollErr e # l) p0 p1 = (if e = EINTR then poll_wait l p0 p1 else None)"
| "poll_wait (PollReady i0 o0 i1 o1 # l) p0 p1 =
     Some (p0\<lparr>rev_in := i0 \<and> ev_in p0, rev_out := o0 \<and> ev_out p0\<rparr>,
           p1\<lparr>rev_in := i1 \<and> ev_in p1, rev_out := o1 \<and> ev_out p1\<rparr>, l)"

text \<open>Setting the watch, and the call of \<open>poll\<close> unless both machines must be pushed anyway.\<close>

definition poll_watch :: "poll_res list \<Rightarrow> pollfd \<Rightarrow> pollfd \<Rightarrow> afsm \<Rightarrow> afsm \<Rightarrow> (pollfd \<times> pollfd \<times> poll_res list) option" where
  "poll_watch mux p0 p1 a b =
     (let q0 = p0\<lparr>ev_in := state a = ASTATE_R, ev_out := state b = ASTATE_W\<rparr>;
          q1 = p1\<lparr>ev_in := state b = ASTATE_R, ev_out := state a = ASTATE_W\<rparr>
      in if scode (state a) < scode ASTATE_AUTO \<or> scode (state b) < scode ASTATE_AUTO
         then poll_wait mux q0 q1 else Some (q0, q1, mux))"

fun poll_loop :: "nat \<Rightarrow> poll_res list \<times> pollfd \<times> pollfd \<Rightarrow> int \<Rightarrow> int \<Rightarrow> afsm \<Rightarrow> afsm \<Rightarrow> world \<Rightarrow> (afsm \<times> afsm, world) outcome" where
  "poll_loop fuel (mux, p0, p1) fd1 fd2 a b w =
     (if state a \<noteq> ASTATE_T \<or> state b \<noteq> ASTATE_T then
        (case fuel of
           0 \<Rightarrow> OutOfFuel w
         | Suc n \<Rightarrow>
             (case poll_watch mux p0 p1 a b of
                None \<Rightarrow> Exit 1 (perror ''poll()'' w)
              | Some (r0, r1, mux1) \<Rightarrow>
                  (case (if rev_in r0 \<or> rev_out r1 \<or> scode (state a) > scode ASTATE_AUTO
                         then poll_fsm_driver a w else Some (a, w)) of
                     None \<Rightarrow> Abort w
                   | Some (a1, w1) \<Rightarrow>
                       (case (if rev_in r1 \<or> rev_out r0 \<or> scode (state b) > scode ASTATE_AUTO
                              then poll_fsm_driver b w1 else Some (b, w1)) of
                          None \<Rightarrow> Abort w1
                        | Some (b1, w2) \<Rightarrow> poll_loop n (mux1, r0, r1) fd1 fd2 a1 b1 w2))))
      else Ret (a, b) w)"

declare poll_loop.simps [simp del]

text \<open>\<open>relay\<close>; the array \<open>pfd\<close> starts with unspecified contents.\<close>

definition poll_relay :: "nat \<Rightarrow> poll_res list \<times> pollfd \<times> pollfd \<Rightarrow> afsm \<Rightarrow> afsm \<Rightarrow> int \<Rightarrow> int \<Rightarrow> world \<Rightarrow> (unit, world) outcome" where
  "poll_relay fuel mux g1 g2 fd1 fd2 w =
     (let fd1_save = F_GETFL fd1 w;
          w1 = F_SETFL fd1 (fd1_save OR O_NONBLOCK) w;
          fd2_save = F_GETFL fd2 w1;
          w2 = F_SETFL fd2 (fd2_save OR O_NONBLOCK) w1;
          fsm12 = g1\<lparr>state := ASTATE_R, sfd := fd1, dfd := fd2\<rparr>;
          fsm21 = g2\<lparr>state := ASTATE_R, sfd := fd2, dfd := fd1\<rparr>
      in bind_outcome (poll_loop fuel mux fd1 fd2 fsm12 fsm21 w2) (\<lambda>_ w3.
           Ret () (F_SETFL fd2 fd2_save (F_SETFL fd1 fd1_save w3))))"

definition poll_main :: "nat \<Rightarrow> poll_res list \<times> pollfd \<times> pollfd \<Rightarrow> afsm \<Rightarrow> afsm \<Rightarrow> world \<Rightarrow> (unit, world) outcome" where
  "poll_main fuel mux g1 g2 w =
     (case sys_open ''/dev/pts/1'' O_RDWR w of (fd1, w1) \<Rightarrow>
        if fd1 < 0 then Exit 1 (perror ''open()'' w1)
        else (let w2 = snd (sys_write fd1 (str_bytes (''TTY1'' @ [CHR 0x0A])) w1)
              in case sys_open ''/dev/pts/2'' (O_RDWR OR O_NONBLOCK) w2 of (fd2, w3) \<Rightarrow>
                   if fd2 < 0 then Exit 1 (perror ''open()'' w3)
                   else (let w4 = snd (sys_write fd2 (str_bytes (''TTY2'' @ [CHR 0x0A])) w3)
                         in bind_outcome (poll_relay fuel mux g1 g2 fd1 fd2 w4) (\<lambda>_ w5.
                              Exit 0 (sys_close fd2 (sys_close fd1 w5))))))"

section \<open>Termination and correctness\<close>

text \<open>\<open>poll\<close> fails with nothing but \<open>EINTR\<close>.\<close>

definition poll_alive :: "poll_res list \<Rightarrow> bool" where
  "poll_alive mux \<longleftrightarrow> (\<forall>e. PollErr e \<in> set mux \<longrightarrow> e = EINTR)"

lemma poll_wait_ready:
  "poll_alive mux \<Longrightarrow> \<exists>r0 r1 mux1. poll_wait mux p0 p1 = Some (r0, r1, mux1) \<and> poll_alive mux1 \<and>
     (length mux1 < length mux \<or> mux1 = mux \<and> rev_in r0 = ev_in p0 \<and> rev_out r0 = ev_out p0 \<and>
        rev_in r1 = ev_in p1 \<and> rev_out r1 = ev_out p1)"
proof (induction mux p0 p1 rule: poll_wait.induct)
  case (2 e l p0 p1)
  then have "e = EINTR" "poll_alive l" by (auto simp: poll_alive_def)
  with 2 show ?case by fastforce
qed (auto simp: poll_alive_def)

lemma poll_loop_turn:
  assumes "pl.pair_ok fd1 fd2 a b" "\<not> (state a = ASTATE_T \<and> state b = ASTATE_T)" "poll_alive mux"
  shows "\<exists>c d m'. poll_alive (fst m') \<and>
    (length (fst m') < length mux \<or> length (fst m') \<le> length mux \<and> (c \<and> state a \<noteq> ASTATE_T \<or> d \<and> state b \<noteq> ASTATE_T)) \<and>
    poll_loop (Suc n) (mux, p0, p1) fd1 fd2 a b w =
      (case (if c then poll_fsm_driver a w else Some (a, w)) of
         None \<Rightarrow> Abort w
       | Some (a1, w1) \<Rightarrow> (case (if d then poll_fsm_driver b w1 else Some (b, w1)) of
           None \<Rightarrow> Abort w1
         | Some (b1, w2) \<Rightarrow> poll_loop n m' fd1 fd2 a1 b1 w2))"
proof -
  have st: "state a \<in> {ASTATE_R, ASTATE_W, ASTATE_EX, ASTATE_T}" "state b \<in> {ASTATE_R, ASTATE_W, ASTATE_EX, ASTATE_T}"
    using assms(1) by (auto simp: pl.pair_ok_def pl.wf_fsm_def)
  obtain r0 r1 mux1 where r: "poll_watch mux p0 p1 a b = Some (r0, r1, mux1)" "poll_alive mux1"
    "length mux1 < length mux \<or> mux1 = mux \<and> ((state a = ASTATE_R \<longrightarrow> rev_in r0) \<and> (state a = ASTATE_W \<longrightarrow> rev_out r1) \<and>
      (state b = ASTATE_R \<longrightarrow> rev_in r1) \<and> (state b = ASTATE_W \<longrightarrow> rev_out r0))"
    using poll_wait_ready [OF assms(3)] assms(3) st unfolding poll_watch_def Let_def
    by (cases "scode (state a) < scode ASTATE_AUTO \<or> scode (state b) < scode ASTATE_AUTO") fastforce+
  define c where "c = (rev_in r0 \<or> rev_out r1 \<or> scode (state a) > scode ASTATE_AUTO)"
  define m' where "m' = (mux1, r0, r1)"
  define d where "d = (rev_in r1 \<or> rev_out r0 \<or> scode (state b) > scode ASTATE_AUTO)"
  have "length (fst m') < length mux \<or> length (fst m') \<le> length mux \<and> (c \<and> state a \<noteq> ASTATE_T \<or> d \<and> state b \<noteq> ASTATE_T)"
    using r(3) st assms(2) by (auto simp: c_def d_def m'_def)
  moreover have "poll_loop (Suc n) (mux, p0, p1) fd1 fd2 a b w =
      (case (if c then poll_fsm_driver a w else Some (a, w)) of
         None \<Rightarrow> Abort w
       | Some (a1, w1) \<Rightarrow> (case (if d then poll_fsm_driver b w1 else Some (b, w1)) of
           None \<Rightarrow> Abort w1
         | Some (b1, w2) \<Rightarrow> poll_loop n m' fd1 fd2 a1 b1 w2))"
    using assms(2) r(1) unfolding c_def d_def m'_def by (subst poll_loop.simps) simp
  moreover have "poll_alive (fst m')" using r(2) by (simp add: m'_def)
  ultimately show ?thesis by blast
qed

interpretation plm: relay_mux ASTATE_R ASTATE_W ASTATE_EX ASTATE_T poll_fsm_driver poll_loop
  "\<lambda>m. length (fst m)" "\<lambda>m. poll_alive (fst m)" False
proof
  show "poll_loop n m fd1 fd2 a b w = Ret (a, b) w" if "state a = ASTATE_T" "state b = ASTATE_T" for a b n m fd1 fd2 w
    using that by (cases m) (simp add: poll_loop.simps)
next
  fix fd1 fd2 a b w n and m :: "poll_res list \<times> pollfd \<times> pollfd"
  assume "pl.pair_ok fd1 fd2 a b" "\<not> (state a = ASTATE_T \<and> state b = ASTATE_T)" "poll_alive (fst m)"
  then show "\<exists>c d m'. poll_alive (fst m') \<and>
    (length (fst m') < length (fst m) \<or> length (fst m') \<le> length (fst m) \<and> (c \<and> state a \<noteq> ASTATE_T \<or> d \<and> state b \<noteq> ASTATE_T)) \<and>
    poll_loop (Suc n) m fd1 fd2 a b w =
      (case (if c then poll_fsm_driver a w else Some (a, w)) of
         None \<Rightarrow> Abort w
       | Some (a1, w1) \<Rightarrow> (case (if d then poll_fsm_driver b w1 else Some (b, w1)) of
           None \<Rightarrow> Abort w1
         | Some (b1, w2) \<Rightarrow> poll_loop n m' fd1 fd2 a1 b1 w2))"
    using poll_loop_turn [of fd1 fd2 a b "fst m" n "fst (snd m)" "snd (snd m)" w] unfolding prod.collapse by blast
qed

text \<open>
  The \<open>poll\<close> relay copies both directions completely, restores the flags and returns, for every
  sequence of readiness reports and interruptions, provided both sources end (by end of file or an
  error) and the sinks do not fail for good.
\<close>

theorem poll_relay_copies:
  assumes "fd1 \<noteq> fd2" and "length (buf g1) = BUFSIZE" and "length (buf g2) = BUFSIZE"
    and "stream_ends (rd_script w fd1)" and "stream_ends (rd_script w fd2)"
    and "sink_ok (wr_script w fd1)" and "sink_ok (wr_script w fd2)" and "poll_alive mux"
    and "length mux + relay_fuel fd1 fd2 w \<le> fuel"
  shows "\<exists>w'. poll_relay fuel (mux, p0, p1) g1 g2 fd1 fd2 w = Ret () w' \<and>
    written w' fd2 = written w fd2 @ stream (rd_script w fd1) \<and>
    written w' fd1 = written w fd1 @ stream (rd_script w fd2) \<and> fd_flags w' = fd_flags w"
proof -
  define w2 where "w2 = F_SETFL fd2 (F_GETFL fd2 w OR O_NONBLOCK) (F_SETFL fd1 (F_GETFL fd1 w OR O_NONBLOCK) w)"
  have w2 [simp]: "rd_script w2 = rd_script w" "wr_script w2 = wr_script w" "written w2 = written w"
    by (simp_all add: w2_def F_SETFL_def)
  obtain a' b' w3 where 3: "poll_loop fuel (mux, p0, p1) fd1 fd2 (pl.init_fsm g1 fd1 fd2) (pl.init_fsm g2 fd2 fd1) w2 = Ret (a', b') w3"
    "written w3 fd2 = written w fd2 @ stream (rd_script w fd1)"
    "written w3 fd1 = written w fd1 @ stream (rd_script w fd2)" "fd_flags w3 = fd_flags w2"
    using plm.loop_copies [OF assms(1-3), of w2 "(mux, p0, p1)" fuel] assms by (auto simp: relay_fuel_def)
  have "poll_relay fuel (mux, p0, p1) g1 g2 fd1 fd2 w =
      Ret () (F_SETFL fd2 (F_GETFL fd2 w) (F_SETFL fd1 (F_GETFL fd1 w) w3))"
    using 3(1) assms(1) unfolding poll_relay_def w2_def pl.init_fsm_def
    by (simp add: Let_def F_GETFL_def F_SETFL_def)
  with 3 show ?thesis by (auto simp: F_SETFL_def F_GETFL_def w2_def fun_eq_iff)
qed

definition ex_pfd :: pollfd where
  "ex_pfd = \<lparr>ev_in = False, ev_out = False, rev_in = True, rev_out = True\<rparr>"

theorem poll_relay_copies_witness:
  "\<exists>w'. poll_relay 60 ([PollReady False False True False, PollErr EINTR], ex_pfd, ex_pfd)
      (ex_fsm ASTATE_T) (ex_fsm ASTATE_W) 3 4 ex_world = Ret () w' \<and>
    written w' 4 = [104, 105] \<and> written w' 3 = [33]"
  using poll_relay_copies [of 3 4 "ex_fsm ASTATE_T" "ex_fsm ASTATE_W" ex_world "[PollReady False False True False, PollErr EINTR]" 60 ex_pfd ex_pfd]
  by (auto simp: ex_fsm_def ex_world_def EAGAIN_def relay_fuel_def poll_alive_def)

end
