(* ===== verification/Relay_Epoll.thy ===== *)
theory Relay_Epoll
  imports Relay_Select
begin

text \<open>
  \<open>proIO/poll/relay.c\<close>: the relay that waits in \<open>epoll_wait\<close> for one event at a time (see
  \<open>Relay_Poll\<close> for the swapped directories). Results of \<open>epoll_wait\<close> are a script.
\<close>

unbundle bit_operations_syntax

section \<open>Driver\<close>

definition ep_fsm_driver :: "afsm \<Rightarrow> world \<Rightarrow> (afsm \<times> world) option" where
  "ep_fsm_driver f w = (case state f of
      ASTATE_R \<Rightarrow>
        (case sys_read (sfd f) BUFSIZE w of (n, bs, w1) \<Rightarrow>
           (let f1 = f\<lparr>len := n, buf := fill bs (buf f)\<rparr>
            in if len f1 = 0 then Some (f1\<lparr>state := ASTATE_T\<rparr>, w1)
               else if len f1 < 0 then
                 (if errno w1 = EAGAIN then Some (f1\<lparr>state := ASTATE_R\<rparr>, w1)
                  else Some (f1\<lparr>strerr := ''read()'', state := ASTATE_EX\<rparr>, w1))
               else Some (f1\<lparr>fpos := 0, state := ASTATE_W\<rparr>, w1)))
    | ASTATE_W \<Rightarrow>
        (case sys_write (dfd f) (window f) w of (ret, w1) \<Rightarrow>
           if ret < 0 then
             (if errno w1 = EAGAIN then Some (f\<lparr>state := ASTATE_W\<rparr>, w1)
              else Some (f\<lparr>strerr := ''write()'', state := ASTATE_EX\<rparr>, w1))
           else (let f1 = f\<lparr>fpos := fpos f + ret, len := len f - ret\<rparr>
                 in if len f1 = 0 then Some (f1\<lparr>state := ASTATE_R\<rparr>, w1)
                    else Some (f1\<lparr>state := ASTATE_W\<rparr>, w1)))
    | ASTATE_EX \<Rightarrow> Some (f\<lparr>state := ASTATE_T\<rparr>, perror (strerr f) w)
    | ASTATE_T \<Rightarrow> Some (f, w)
    | ASTATE_AUTO \<Rightarrow> None)"

interpretation ep: relay_driver ASTATE_R ASTATE_W ASTATE_EX ASTATE_T ep_fsm_driver
  by unfold_locales (simp_all add: ep_fsm_driver_def Let_def split: prod.split)

section \<open>The loop\<close>

text \<open>\<open>struct epoll_event\<close> with the bits \<open>EPOLLIN\<close> and \<open>EPOLLOUT\<close>; the interest list of the two descriptors.\<close>

record epoll_event =
  ee_fd :: int
  ee_in :: bool
  ee_out :: bool

text \<open>
  A result: an interruption or failure, or an event of the first (\<open>True\<close>) or the second
  descriptor with some of the bits asked for.
\<close>

datatype ep_res = EpEvent bool bool bool | EpErr int

text \<open>
  \<^verbatim>\<open>while (epoll_wait(epfd, &ev, 1, -1) < 0) { if (errno == EINTR) continue; perror("epoll_wait()"); exit(1); }\<close>.
  \<open>i1\<close> and \<open>i2\<close> are the interests registered for the two descriptors. When the script is used up a
  descriptor with a registered interest is reported; \<open>None\<close> is the exit.
\<close>

fun ep_wait :: "ep_res list \<Rightarrow> epoll_event \<Rightarrow> epoll_event \<Rightarrow> (epoll_event \<times> ep_res list) option" where
  "ep_wait [] i1 i2 = Some (if ee_in i1 \<or> ee_out i1 then i1 else i2, [])"
| "ep_wait (EpErr e # l) i1 i2 = (if e = EINTR then ep_wait l i1 i2 else None)"
| "ep_wait (EpEvent first i out # l) i1 i2 =
     (let r = (if first then i1 else i2) in Some (r\<lparr>ee_in := i \<and> ee_in r, ee_out := out \<and> ee_out r\<rparr>, l))"

text \<open>
  The two \<open>EPOLL_CTL_MOD\<close> calls and the wait. When the wait is skipped \<open>ev\<close> still holds what was
  registered last.
\<close>

definition ep_watch :: "ep_res list \<Rightarrow> int \<Rightarrow> int \<Rightarrow> afsm \<Rightarrow> afsm \<Rightarrow> (epoll_event \<times> ep_res list) option" where
  "ep_watch mux fd1 fd2 a b =
     (let i1 = \<lparr>ee_fd = fd1, ee_in = (state a = ASTATE_R), ee_out = (state b = ASTATE_W)\<rparr>;
          i2 = \<lparr>ee_fd = fd2, ee_in = (state b = ASTATE_R), ee_out = (state a = ASTATE_W)\<rparr>
      in if scode (state a) < scode ASTATE_AUTO \<or> scode (state b) < scode ASTATE_AUTO
         then ep_wait mux i1 i2 else Some (i2, mux))"

fun ep_loop :: "nat \<Rightarrow> ep_res list \<Rightarrow> int \<Rightarrow> int \<Rightarrow> afsm \<Rightarrow> afsm \<Rightarrow> world \<Rightarrow> (afsm \<times> afsm, world) outcome" where
  "ep_loop fuel mux fd1 fd2 a b w =
     (if state a \<noteq> ASTATE_T \<or> state b \<noteq> ASTATE_T then
        (case fuel of
           0 \<Rightarrow> OutOfFuel w
         | Suc n \<Rightarrow>
             (case ep_watch mux fd1 fd2 a b of
                None \<Rightarrow> Exit 1 (perror ''epoll_wait()'' w)
              | Some (ev, mux1) \<Rightarrow>
                  (case (if ee_fd ev = fd1 \<and> ee_in ev \<or> ee_fd ev = fd2 \<and> ee_out ev \<or> scode (state a) > scode ASTATE_AUTO
                         then ep_fsm_driver a w else Some (a, w)) of
                     None \<Rightarrow> Abort w
                   | Some (a1, w1) \<Rightarrow>
                       (case (if ee_fd ev = fd1 \<and> ee_out ev \<or> ee_fd ev = fd2 \<and> ee_in ev \<or> scode (state b) > scode ASTATE_AUTO
                              then ep_fsm_driver b w1 else Some (b, w1)) of
                          None \<Rightarrow> Abort w1
                        | Some (b1, w2) \<Rightarrow> ep_loop n mux1 fd1 fd2 a1 b1 w2))))
      else Ret (a, b) w)"

declare ep_loop.simps [simp del]

text \<open>\<open>relay\<close>; \<open>epfd\<close> is what \<open>epoll_create\<close> returns.\<close>

definition ep_relay :: "nat \<Rightarrow> int \<Rightarrow> ep_res list \<Rightarrow> afsm \<Rightarrow> afsm \<Rightarrow> int \<Rightarrow> int \<Rightarrow> world \<Rightarrow> (unit, world) outcome" where
  "ep_relay fuel epfd mux g1 g2 fd1 fd2 w =
     (let fd1_save = F_GETFL fd1 w;
          w1 = F_SETFL fd1 (fd1_save OR O_NONBLOCK) w;
          fd2_save = F_GETFL fd2 w1;
          w2 = F_SETFL fd2 (fd2_save OR O_NONBLOCK) w1;
          fsm12 = g1\<lparr>state := ASTATE_R, sfd := fd1, dfd := fd2\<rparr>;
          fsm21 = g2\<lparr>state := ASTATE_R, sfd := fd2, dfd := fd1\<rparr>
      in if epfd < 0 then Exit 1 (perror ''epoll_create()'' w2)
         else bind_outcome (ep_loop fuel mux fd1 fd2 fsm12 fsm21 w2) (\<lambda>_ w3.
           Ret () (sys_close epfd (F_SETFL fd2 fd2_save (F_SETFL fd1 fd1_save w3)))))"

definition ep_main :: "nat \<Rightarrow> int \<Rightarrow> ep_res list \<Rightarrow> afsm \<Rightarrow> afsm \<Rightarrow> world \<Rightarrow> (unit, world) outcome" where
  "ep_main fuel epfd mux g1 g2 w =
     (case sys_open ''/dev/pts/1'' O_RDWR w of (fd1, w1) \<Rightarrow>
        if fd1 < 0 then Exit 1 (perror ''open()'' w1)
        else (let w2 = snd (sys_write fd1 (str_bytes (''TTY1'' @ [CHR 0x0A])) w1)
              in case sys_open ''/dev/pts/2'' (O_RDWR OR O_NONBLOCK) w2 of (fd2, w3) \<Rightarrow>
                   if fd2 < 0 then Exit 1 (perror ''open()'' w3)
                   else (let w4 = snd (sys_write fd2 (str_bytes (''TTY2'' @ [CHR 0x0A])) w3)
                         in bind_outcome (ep_relay fuel epfd mux g1 g2 fd1 fd2 w4) (\<lambda>_ w5.
                              Exit 0 (sys_close fd2 (sys_close fd1 w5))))))"

section \<open>Termination and correctness\<close>

text \<open>\<open>epoll_wait\<close> fails with nothing but \<open>EINTR\<close>.\<close>

definition ep_alive :: "ep_res list \<Rightarrow> bool" where
  "ep_alive mux \<longleftrightarrow> (\<forall>e. EpErr e \<in> set mux \<longrightarrow> e = EINTR)"

lemma ep_wait_ready:
  "ep_alive mux \<Longrightarrow> \<exists>ev mux1. ep_wait mux i1 i2 = Some (ev, mux1) \<and> ep_alive mux1 \<and>
     (length mux1 < length mux \<or> mux1 = mux \<and> ev = (if ee_in i1 \<or> ee_out i1 then i1 else i2))"
proof (induction mux i1 i2 rule: ep_wait.induct)
  case (2 e l i1 i2)
  then have "e = EINTR" "ep_alive l" by (auto simp: ep_alive_def)
  with 2 show ?case by fastforce
qed (auto simp: ep_alive_def Let_def)

lemma ep_loop_turn:
  assumes "ep.pair_ok fd1 fd2 a b" "\<not> (state a = ASTATE_T \<and> state b = ASTATE_T)" "ep_alive mux"
  shows "\<exists>c d mux1. ep_alive mux1 \<and>
    (length mux1 < length mux \<or> length mux1 \<le> length mux \<and> (c \<and> state a \<noteq> ASTATE_T \<or> d \<and> state b \<noteq> ASTATE_T)) \<and>
    ep_loop (Suc n) mux fd1 fd2 a b w =
      (case (if c then ep_fsm_driver a w else Some (a, w)) of
         None \<Rightarrow> Abort w
       | Some (a1, w1) \<Rightarrow> (case (if d then ep_fsm_driver b w1 else Some (b, w1)) of
           None \<Rightarrow> Abort w1
         | Some (b1, w2) \<Rightarrow> ep_loop n mux1 fd1 fd2 a1 b1 w2))"
proof -
  let ?i1 = "\<lparr>ee_fd = fd1, ee_in = (state a = ASTATE_R), ee_out = (state b = ASTATE_W)\<rparr>"
  let ?i2 = "\<lparr>ee_fd = fd2, ee_in = (state b = ASTATE_R), ee_out = (state a = ASTATE_W)\<rparr>"
  have st: "state a \<in> {ASTATE_R, ASTATE_W, ASTATE_EX, ASTATE_T}" "state b \<in> {ASTATE_R, ASTATE_W, ASTATE_EX, ASTATE_T}"
    using assms(1) by (auto simp: ep.pair_ok_def ep.wf_fsm_def)
  obtain ev mux1 where r: "ep_watch mux fd1 fd2 a b = Some (ev, mux1)" "ep_alive mux1"
    "length mux1 < length mux \<or> mux1 = mux \<and> ev = (if ee_in ?i1 \<or> ee_out ?i1 then ?i1 else ?i2)"
    using ep_wait_ready [OF assms(3), of ?i1 ?i2] assms(3) st unfolding ep_watch_def Let_def
    by (cases "scode (state a) < scode ASTATE_AUTO \<or> scode (state b) < scode ASTATE_AUTO") auto
  define c where "c = (ee_fd ev = fd1 \<and> ee_in ev \<or> ee_fd ev = fd2 \<and> ee_out ev \<or> scode (state a) > scode ASTATE_AUTO)"
  define d where "d = (ee_fd ev = fd1 \<and> ee_out ev \<or> ee_fd ev = fd2 \<and> ee_in ev \<or> scode (state b) > scode ASTATE_AUTO)"
  have "length mux1 < length mux \<or> length mux1 \<le> length mux \<and> (c \<and> state a \<noteq> ASTATE_T \<or> d \<and> state b \<noteq> ASTATE_T)"
    using r(3) st assms(2) by (auto simp: c_def d_def)
  moreover have "ep_loop (Suc n) mux fd1 fd2 a b w =
      (case (if c then ep_fsm_driver a w else Some (a, w)) of
         None \<Rightarrow> Abort w
       | Some (a1, w1) \<Rightarrow> (case (if d then ep_fsm_driver b w1 else Some (b, w1)) of
           None \<Rightarrow> Abort w1
         | Some (b1, w2) \<Rightarrow> ep_loop n mux1 fd1 fd2 a1 b1 w2))"
    using assms(2) r(1) unfolding c_def d_def by (subst ep_loop.simps) simp
  ultimately show ?thesis using r(2) by blast
qed

interpretation epm: relay_mux ASTATE_R ASTATE_W ASTATE_EX ASTATE_T ep_fsm_driver ep_loop length ep_alive False
proof
  show "ep_loop n m fd1 fd2 a b w = Ret (a, b) w" if "state a = ASTATE_T" "state b = ASTATE_T" for a b n m fd1 fd2 w
    using that by (simp add: ep_loop.simps)
qed (rule ep_loop_turn)

text \<open>
  The \<open>epoll\<close> relay copies both directions completely, restores the flags, closes its epoll
  descriptor and returns, for every sequence of events and interruptions, provided both sources end
  and the sinks do not fail for good.
\<close>

theorem ep_relay_copies:
  assumes "fd1 \<noteq> fd2" and "length (buf g1) = BUFSIZE" and "length (buf g2) = BUFSIZE"
    and "stream_ends (rd_script w fd1)" and "stream_ends (rd_script w fd2)"
    and "sink_ok (wr_script w fd1)" and "sink_ok (wr_script w fd2)" and "ep_alive mux" and "0 \<le> epfd"
    and "length mux + relay_fuel fd1 fd2 w \<le> fuel"
  shows "\<exists>w'. ep_relay fuel epfd mux g1 g2 fd1 fd2 w = Ret () w' \<and>
    written w' fd2 = written w fd2 @ stream (rd_script w fd1) \<and>
    written w' fd1 = written w fd1 @ stream (rd_script w fd2) \<and> fd_flags w' = fd_flags w \<and>
    epfd \<in> set (closed w')"
proof -
  define w2 where "w2 = F_SETFL fd2 (F_GETFL fd2 w OR O_NONBLOCK) (F_SETFL fd1 (F_GETFL fd1 w OR O_NONBLOCK) w)"
  have w2 [simp]: "rd_script w2 = rd_script w" "wr_script w2 = wr_script w" "written w2 = written w"
    by (simp_all add: w2_def F_SETFL_def)
  obtain a' b' w3 where 3: "ep_loop fuel mux fd1 fd2 (ep.init_fsm g1 fd1 fd2) (ep.init_fsm g2 fd2 fd1) w2 = Ret (a', b') w3"
    "written w3 fd2 = written w fd2 @ stream (rd_script w fd1)"
    "written w3 fd1 = written w fd1 @ stream (rd_script w fd2)" "fd_flags w3 = fd_flags w2"
    using epm.loop_copies [OF assms(1-3), of w2 mux fuel] assms by (auto simp: relay_fuel_def)
  have "ep_relay fuel epfd mux g1 g2 fd1 fd2 w =
      Ret () (sys_close epfd (F_SETFL fd2 (F_GETFL fd2 w) (F_SETFL fd1 (F_GETFL fd1 w) w3)))"
    using 3(1) assms(1,9) unfolding ep_relay_def w2_def ep.init_fsm_def
    by (simp add: Let_def F_GETFL_def F_SETFL_def)
  with 3 show ?thesis by (auto simp: F_SETFL_def F_GETFL_def w2_def fun_eq_iff sys_close_def)
qed

theorem ep_relay_copies_witness:
  "\<exists>w'. ep_relay 60 5 [EpEvent False True False, EpErr EINTR] (ex_fsm ASTATE_T) (ex_fsm ASTATE_W) 3 4 ex_world = Ret () w' \<and>
    written w' 4 = [104, 105] \<and> written w' 3 = [33] \<and> 5 \<in> set (closed w')"
  using ep_relay_copies [of 3 4 "ex_fsm ASTATE_T" "ex_fsm ASTATE_W" ex_world "[EpEvent False True False, EpErr EINTR]" 5 60]
  by (auto simp: ex_fsm_def ex_world_def EAGAIN_def relay_fuel_def ep_alive_def)

end
