(* ===== verification/Relayer.thy ===== *)
theory Relayer
  imports Relay
begin

text \<open>
  \<open>proIO/non-blocked/relayer/\<close>: the relay engine as a library. A thread drives the two machines of
  every running job of a table over and over; \<open>rel_addjob\<close> adds a job. The table holds the jobs
  themselves, since nothing but the table points to them.
\<close>

unbundle bit_operations_syntax

section \<open>State\<close>

definition REL_JOBMAX :: nat where
  "REL_JOBMAX = 10000"

datatype job_status = STATE_RUNNING | STATE_CANCELED | STATE_OVER

text \<open>
  \<open>struct rel_job_st\<close>. The field \<open>count\<close> of its machines is never read or written, so the machines
  are those of \<open>relay.c\<close>.
\<close>

record rel_job_st =
  job_state :: job_status
  fd1 :: int
  fd2 :: int
  fsm12 :: fsm
  fsm21 :: fsm
  fd1_save :: "32 word"
  fd2_save :: "32 word"

text \<open>The static variables; \<open>once\<close> is \<open>init_once\<close>, \<open>thread\<close> whether the relaying thread exists.\<close>

record relayer_module =
  rel_job :: "rel_job_st option list"
  once :: bool
  thread :: bool
  env :: world

definition relayer_start :: "world \<Rightarrow> relayer_module" where
  "relayer_start w = \<lparr>rel_job = replicate REL_JOBMAX None, once = False, thread = False, env = w\<rparr>"

section \<open>Operations\<close>

definition rr_fsm_driver :: "fsm \<Rightarrow> world \<Rightarrow> (fsm \<times> world) option" where
  "rr_fsm_driver f w = (case state f of
      STATE_R \<Rightarrow>
        (case sys_read (sfd f) BUFSIZE w of (n, bs, w1) \<Rightarrow>
           (let f1 = f\<lparr>len := n, buf := fill bs (buf f)\<rparr>
            in if len f1 = 0 then Some (f1\<lparr>state := STATE_T\<rparr>, w1)
               else if len f1 < 0 then
                 (if errno w1 = EAGAIN then Some (f1\<lparr>state := STATE_R\<rparr>, w1)
                  else Some (f1\<lparr>strerr := ''read()'', state := STATE_EX\<rparr>, w1))
               else Some (f1\<lparr>fpos := 0, state := STATE_W\<rparr>, w1)))
    | STATE_W \<Rightarrow>
        (case sys_write (dfd f) (window f) w of (ret, w1) \<Rightarrow>
           if ret < 0 then
             (if errno w1 = EAGAIN then Some (f\<lparr>state := STATE_W\<rparr>, w1)
              else Some (f\<lparr>strerr := ''write()'', state := STATE_EX\<rparr>, w1))
           else (let f1 = f\<lparr>fpos := fpos f + ret, len := len f - ret\<rparr>
                 in if len f1 = 0 then Some (f1\<lparr>state := STATE_R\<rparr>, w1)
                    else Some (f1\<lparr>state := STATE_W\<rparr>, w1)))
    | STATE_EX \<Rightarrow> Some (f\<lparr>state := STATE_T\<rparr>, perror (strerr f) w)
    | STATE_T \<Rightarrow> Some (f, w))"

interpretation rr: relay_driver STATE_R STATE_W STATE_EX STATE_T rr_fsm_driver
  by unfold_locales (simp_all add: rr_fsm_driver_def Let_def split: prod.split)

text \<open>The body of the loop of \<open>thr_relayer\<close> for one job; \<open>None\<close> is \<open>abort()\<close>.\<close>

definition relay_job :: "rel_job_st \<Rightarrow> world \<Rightarrow> (rel_job_st \<times> world) option" where
  "relay_job j w =
     (if job_state j = STATE_RUNNING then
        (case rr_fsm_driver (fsm12 j) w of
           None \<Rightarrow> None
         | Some (a, w1) \<Rightarrow>
             (case rr_fsm_driver (fsm21 j) w1 of
                None \<Rightarrow> None
              | Some (b, w2) \<Rightarrow>
                  (let j1 = j\<lparr>fsm12 := a, fsm21 := b\<rparr>
                   in Some (if state (fsm12 j1) = STATE_T \<and> state (fsm21 j1) = STATE_T
                            then j1\<lparr>job_state := STATE_OVER\<rparr> else j1, w2))))
      else Some (j, w))"

fun relay_jobs :: "rel_job_st option list \<Rightarrow> world \<Rightarrow> (rel_job_st option list \<times> world) option" where
  "relay_jobs [] w = Some ([], w)"
| "relay_jobs (None # js) w =
     (case relay_jobs js w of None \<Rightarrow> None | Some (js1, w1) \<Rightarrow> Some (None # js1, w1))"
| "relay_jobs (Some j # js) w =
     (case relay_job j w of
        None \<Rightarrow> None
      | Some (j1, w1) \<Rightarrow>
          (case relay_jobs js w1 of None \<Rightarrow> None | Some (js1, w2) \<Rightarrow> Some (Some j1 # js1, w2)))"

text \<open>\<open>n\<close> turns of the endless loop of \<open>thr_relayer\<close>, each under the mutex.\<close>

fun thr_relayer :: "nat \<Rightarrow> relayer_module \<Rightarrow> (unit, relayer_module) outcome" where
  "thr_relayer 0 m = Ret () m"
| "thr_relayer (Suc n) m =
     (case relay_jobs (rel_job m) (env m) of
        None \<Rightarrow> Abort m
      | Some (js, w) \<Rightarrow> thr_relayer n (m\<lparr>rel_job := js, env := w\<rparr>))"

text \<open>\<open>err\<close> is what \<open>pthread_create\<close> returns.\<close>

definition moudule_load :: "int \<Rightarrow> relayer_module \<Rightarrow> (unit, relayer_module) outcome" where
  "moudule_load err m =
     (let m1 = m\<lparr>thread := thread m \<or> err = 0\<rparr>
      in if err \<noteq> 0 then Exit 1 m1 else Ret () m1)"

definition rel_free_pos_unlocked :: "relayer_module \<Rightarrow> int" where
  "rel_free_pos_unlocked m = scan_slots (rel_job m)"

text \<open>
  \<open>rel_addjob\<close>. \<open>me\<close> is the block \<open>malloc\<close> returns with its old contents, or \<open>None\<close>. On success the
  function ends without a \<open>return\<close>: its value is indeterminate, \<open>junk\<close>.
\<close>

definition rel_addjob :: "int \<Rightarrow> rel_job_st option \<Rightarrow> int \<Rightarrow> int \<Rightarrow> int \<Rightarrow> relayer_module \<Rightarrow> (int, relayer_module) outcome" where
  "rel_addjob err me junk a b m =
     bind_outcome (if once m then Ret () m else moudule_load err (m\<lparr>once := True\<rparr>)) (\<lambda>_ m1.
       case me of
         None \<Rightarrow> Ret (- ENOMEM) m1
       | Some g \<Rightarrow>
           (let g1 = g\<lparr>fd1 := a, fd2 := b, job_state := STATE_RUNNING, fd1_save := F_GETFL a (env m1)\<rparr>;
                w1 = F_SETFL a (fd1_save g1 OR O_NONBLOCK) (env m1);
                g2 = g1\<lparr>fd2_save := F_GETFL b w1\<rparr>;
                w2 = F_SETFL b (fd2_save g2 OR O_NONBLOCK) w1;
                j = g2\<lparr>fsm12 := (fsm12 g2)\<lparr>state := STATE_R, sfd := a, dfd := b\<rparr>,
                       fsm21 := (fsm21 g2)\<lparr>state := STATE_R, sfd := b, dfd := a\<rparr>\<rparr>;
                pos = rel_free_pos_unlocked m1
            in if pos < 0
               then Ret (- ENOSPC) (m1\<lparr>env := F_SETFL b (fd2_save j) (F_SETFL a (fd1_save j) w2)\<rparr>)
               else Ret junk (m1\<lparr>rel_job := (rel_job m1)[nat pos := Some j], env := w2\<rparr>)))"

text \<open>\<open>main.c\<close> up to the endless \<open>pause()\<close>, where the thread relays (\<open>n\<close> turns of it).\<close>

definition relayer_main :: "nat \<Rightarrow> int \<Rightarrow> rel_job_st option \<Rightarrow> int \<Rightarrow> relayer_module \<Rightarrow> (unit, relayer_module) outcome" where
  "relayer_main n err me junk m =
     (case sys_open ''/dev/pts/1'' O_RDWR (env m) of (fd1', w1) \<Rightarrow>
        if fd1' < 0 then Exit 1 (m\<lparr>env := perror ''open()'' w1\<rparr>)
        else (let w2 = snd (sys_write fd1' (str_bytes (''TTY1'' @ [CHR 0x0A])) w1)
              in case sys_open ''/dev/pts/2'' (O_RDWR OR O_NONBLOCK) w2 of (fd2', w3) \<Rightarrow>
                   if fd2' < 0 then Exit 1 (m\<lparr>env := perror ''open()'' w3\<rparr>)
                   else (let w4 = snd (sys_write fd2' (str_bytes (''TTY2'' @ [CHR 0x0A])) w3)
                         in bind_outcome (rel_addjob err me junk fd1' fd2' (m\<lparr>env := w4\<rparr>)) (\<lambda>job1 m1.
                              if job1 < 0 then Exit 1 m1 else thr_relayer n m1))))"

section \<open>One turn of the thread\<close>

text \<open>A job's machines fit together; a finished job has finished machines.\<close>

definition job_ok :: "rel_job_st \<Rightarrow> bool" where
  "job_ok j \<longleftrightarrow> rr.pair_ok (fd1 j) (fd2 j) (fsm12 j) (fsm21 j) \<and>
     (job_state j = STATE_RUNNING \<or> job_state j = STATE_OVER \<and> state (fsm12 j) = STATE_T \<and> state (fsm21 j) = STATE_T)"

definition job_fds :: "rel_job_st \<Rightarrow> int set" where
  "job_fds j = {fd1 j, fd2 j}"

definition jobs_fds :: "rel_job_st option list \<Rightarrow> int set" where
  "jobs_fds js = \<Union> {job_fds j | j. Some j \<in> set js}"

lemma jobs_fds_simps [simp]:
  "jobs_fds [] = {}" "jobs_fds (None # js) = jobs_fds js" "jobs_fds (Some j # js) = job_fds j \<union> jobs_fds js"
  by (auto simp: jobs_fds_def)

text \<open>No two jobs share a descriptor.\<close>

fun apart :: "rel_job_st option list \<Rightarrow> bool" where
  "apart [] = True"
| "apart (None # js) = apart js"
| "apart (Some j # js) = (job_fds j \<inter> jobs_fds js = {} \<and> apart js)"

definition table_ok :: "rel_job_st option list \<Rightarrow> bool" where
  "table_ok js \<longleftrightarrow> apart js \<and> (\<forall>j. Some j \<in> set js \<longrightarrow> job_ok j)"

text \<open>Worlds that agree on some descriptors.\<close>

definition same_on :: "int set \<Rightarrow> world \<Rightarrow> world \<Rightarrow> bool" where
  "same_on S w w' \<longleftrightarrow> (\<forall>fd \<in> S. rd_script w' fd = rd_script w fd \<and> wr_script w' fd = wr_script w fd \<and>
     written w' fd = written w fd) \<and> fd_flags w' = fd_flags w \<and> open_fd w' = open_fd w \<and> closed w' = closed w"

text \<open>What a turn does to one job, and how far the job is from its end.\<close>

definition job_work :: "rel_job_st \<Rightarrow> world \<Rightarrow> nat" where
  "job_work j w = (if job_state j = STATE_RUNNING then Suc (rr.work (fsm12 j) w + rr.work (fsm21 j) w) else 0)"

definition job_ends :: "rel_job_st \<Rightarrow> world \<Rightarrow> bool" where
  "job_ends j w \<longleftrightarrow> rr.will_end (fsm12 j) w \<and> rr.will_end (fsm21 j) w"

definition job_step :: "rel_job_st \<Rightarrow> world \<Rightarrow> rel_job_st \<Rightarrow> world \<Rightarrow> bool" where
  "job_step j w j' w' \<longleftrightarrow> job_ok j' \<and> fd1 j' = fd1 j \<and> fd2 j' = fd2 j \<and>
     rr.evolves (fsm12 j) w (fsm12 j') w' \<and> rr.evolves (fsm21 j) w (fsm21 j') w' \<and>
     (job_ends j w \<longrightarrow> job_ends j' w' \<and> job_work j' w' \<le> job_work j w - 1)"


lemma same_on_refl: "same_on S w w"
  by (simp add: same_on_def)

lemma same_on_trans: "same_on S w w1 \<Longrightarrow> same_on S w1 w2 \<Longrightarrow> same_on S w w2"
  by (simp add: same_on_def)

lemma same_on_mono: "same_on S w w' \<Longrightarrow> T \<subseteq> S \<Longrightarrow> same_on T w w'"
  by (auto simp: same_on_def)

text \<open>A machine does not notice a change of other descriptors.\<close>

lemma same_on_machine:
  assumes "same_on S w w'" "sfd f \<in> S" "dfd f \<in> S"
  shows "rr.evolves f w f w'" "rr.work f w' = rr.work f w" "rr.will_end f w' = rr.will_end f w"
  using assms by (auto simp: same_on_def rr.evolves_def rr.flow_def rr.avail_def rr.work_def rr.will_end_def)

lemma job_step_before:
  assumes "same_on (job_fds j) w w1" "job_ok j" "job_step j w1 j' w'"
  shows "job_step j w j' w'"
proof -
  have "sfd (fsm12 j) \<in> job_fds j" "dfd (fsm12 j) \<in> job_fds j" "sfd (fsm21 j) \<in> job_fds j" "dfd (fsm21 j) \<in> job_fds j"
    using assms(2) by (auto simp: job_ok_def rr.pair_ok_def job_fds_def)
  note m = same_on_machine [OF assms(1) this(1,2)] same_on_machine [OF assms(1) this(3,4)]
  have "rr.evolves (fsm12 j) w (fsm12 j') w'" "rr.evolves (fsm21 j) w (fsm21 j') w'"
    using assms(3) rr.evolves_trans [OF m(1)] rr.evolves_trans [OF m(4)] by (auto simp: job_step_def)
  moreover have "job_ends j w1 = job_ends j w" "job_work j w1 = job_work j w"
    using m(2,3,5,6) by (simp_all add: job_ends_def job_work_def)
  ultimately show ?thesis using assms(3) by (simp add: job_step_def)
qed

lemma job_step_after:
  assumes "job_step j w j' w1" "same_on (job_fds j) w1 w'"
  shows "job_step j w j' w'"
proof -
  have "sfd (fsm12 j') \<in> job_fds j" "dfd (fsm12 j') \<in> job_fds j" "sfd (fsm21 j') \<in> job_fds j" "dfd (fsm21 j') \<in> job_fds j"
    using assms(1) by (auto simp: job_step_def job_ok_def rr.pair_ok_def job_fds_def)
  note m = same_on_machine [OF assms(2) this(1,2)] same_on_machine [OF assms(2) this(3,4)]
  have "rr.evolves (fsm12 j) w (fsm12 j') w'" "rr.evolves (fsm21 j) w (fsm21 j') w'"
    using assms(1) rr.evolves_trans [OF _ m(1)] rr.evolves_trans [OF _ m(4)] by (auto simp: job_step_def)
  moreover have "job_ends j' w' = job_ends j' w1" "job_work j' w' = job_work j' w1"
    using m(2,3,5,6) by (simp_all add: job_ends_def job_work_def)
  ultimately show ?thesis using assms(1) by (simp add: job_step_def)
qed

lemma frame_same_on: "rr.frame f w w' \<Longrightarrow> same_on (- {sfd f, dfd f}) w w'"
  by (auto simp: rr.frame_def same_on_def)

lemma relay_job_ok:
  assumes "job_ok j"
  shows "\<exists>j' w'. relay_job j w = Some (j', w') \<and> job_step j w j' w' \<and> same_on (- job_fds j) w w'"
proof (cases "job_state j = STATE_RUNNING")
  case False
  with assms show ?thesis
    by (auto simp: relay_job_def job_step_def same_on_refl rr.evolves_refl job_work_def)
next
  case True
  have p: "rr.pair_ok (fd1 j) (fd2 j) (fsm12 j) (fsm21 j)" using assms by (simp add: job_ok_def)
  then have fds: "sfd (fsm12 j) = fd1 j" "dfd (fsm12 j) = fd2 j" "sfd (fsm21 j) = fd2 j" "dfd (fsm21 j) = fd1 j"
    and wf: "rr.wf_fsm (fsm12 j)" "rr.wf_fsm (fsm21 j)" and ne: "fd1 j \<noteq> fd2 j"
    by (simp_all add: rr.pair_ok_def)
  from rr.step_total [OF wf(1), of w] obtain a w1 where a: "rr_fsm_driver (fsm12 j) w = Some (a, w1)"
    "rr.step_ok (fsm12 j) w a w1" by blast
  from rr.step_total [OF wf(2), of w1] obtain b w2 where b: "rr_fsm_driver (fsm21 j) w1 = Some (b, w2)"
    "rr.step_ok (fsm21 j) w1 b w2" by blast
  have fr: "rr.frame (fsm12 j) w w1" "rr.frame (fsm21 j) w1 w2"
    and ab: "rr.pair_ok (fd1 j) (fd2 j) a b"
    using a(2) b(2) fds ne by (auto simp: rr.step_ok_def rr.pair_ok_def)
  have so: "same_on (- job_fds j) w w2"
    using same_on_trans [OF same_on_mono [OF frame_same_on [OF fr(1)]] same_on_mono [OF frame_same_on [OF fr(2)]]] fds
    by (auto simp: job_fds_def)
  have "sfd (fsm21 j) \<noteq> sfd (fsm12 j)" "dfd (fsm21 j) \<noteq> dfd (fsm12 j)" using fds ne by auto
  note ob = rr.other_evolves [OF fr(1) this]
  have "sfd a \<noteq> sfd (fsm21 j)" "dfd a \<noteq> dfd (fsm21 j)" using fds ne ab by (auto simp: rr.pair_ok_def)
  note oa = rr.other_evolves [OF fr(2) this]
  have ev: "rr.evolves (fsm12 j) w a w2" "rr.evolves (fsm21 j) w b w2"
    using rr.evolves_trans [OF rr.step_ok_evolves [OF a(2)] oa(1)] rr.evolves_trans [OF ob(1) rr.step_ok_evolves [OF b(2)]]
    by auto
  have dec: "rr.will_end a w2" "rr.will_end b w2" "rr.work a w2 \<le> rr.work (fsm12 j) w" "rr.work b w2 \<le> rr.work (fsm21 j) w"
    "state (fsm12 j) \<noteq> STATE_T \<Longrightarrow> rr.work a w2 < rr.work (fsm12 j) w"
    "state (fsm21 j) \<noteq> STATE_T \<Longrightarrow> rr.work b w2 < rr.work (fsm21 j) w" if "job_ends j w"
    using that a(2) b(2) oa(2,3) ob(2,3) ev by (auto simp: job_ends_def rr.evolves_def rr.step_ok_def)
  have keep: "state (fsm12 j) = STATE_T \<Longrightarrow> state a = STATE_T" "state (fsm21 j) = STATE_T \<Longrightarrow> state b = STATE_T"
    using a(2) b(2) by (auto simp: rr.step_ok_def)
  define j1 where "j1 = (if state a = STATE_T \<and> state b = STATE_T then j\<lparr>fsm12 := a, fsm21 := b, job_state := STATE_OVER\<rparr>
    else j\<lparr>fsm12 := a, fsm21 := b\<rparr>)"
  have j1: "relay_job j w = Some (j1, w2)"
    using True a(1) b(1) by (simp add: relay_job_def j1_def Let_def)
  have step: "job_step j w j1 w2"
    unfolding job_step_def
  proof (intro conjI impI)
    show "job_ok j1" using ab True by (simp add: job_ok_def j1_def)
    show "rr.evolves (fsm12 j) w (fsm12 j1) w2" "rr.evolves (fsm21 j) w (fsm21 j1) w2" "fd1 j1 = fd1 j" "fd2 j1 = fd2 j"
      using ev by (simp_all add: j1_def)
    assume e: "job_ends j w"
    show "job_ends j1 w2" using dec(1,2) [OF e] by (simp add: job_ends_def j1_def)
    show "job_work j1 w2 \<le> job_work j w - 1"
      using dec(3-6) [OF e] keep True
      by (cases "state (fsm12 j) = STATE_T"; cases "state (fsm21 j) = STATE_T") (auto simp: job_work_def j1_def)
  qed
  with j1 so show ?thesis by blast
qed

abbreviation jobs_step :: "rel_job_st option list \<Rightarrow> world \<Rightarrow> rel_job_st option list \<Rightarrow> world \<Rightarrow> bool" where
  "jobs_step js w js' w' \<equiv> list_all2 (rel_option (\<lambda>j j'. job_step j w j' w')) js js'"

lemma jobs_fds_step: "jobs_step js w js' w' \<Longrightarrow> jobs_fds js' = jobs_fds js"
  by (induction js js' rule: list_all2_induct) (auto elim!: option.rel_cases simp: job_step_def job_fds_def)

lemma table_ok_step: "jobs_step js w js' w' \<Longrightarrow> apart js \<Longrightarrow> table_ok js'"
proof (induction js js' rule: list_all2_induct)
  case Nil
  then show ?case by (simp add: table_ok_def)
next
  case (Cons x xs y ys)
  then show ?case
    using jobs_fds_step [OF Cons.hyps(2)] by (auto elim!: option.rel_cases simp: table_ok_def job_step_def job_fds_def)
qed

lemma relay_jobs_ok:
  "table_ok js \<Longrightarrow> \<exists>js' w'. relay_jobs js w = Some (js', w') \<and> jobs_step js w js' w' \<and> same_on (- jobs_fds js) w w'"
proof (induction js w rule: relay_jobs.induct)
  case (1 w)
  then show ?case by (simp add: same_on_refl)
next
  case (2 js w)
  then have "table_ok js" by (simp add: table_ok_def)
  with 2 show ?case by fastforce
next
  case (3 j js w)
  from "3.prems" have j: "job_ok j" "table_ok js" "job_fds j \<inter> jobs_fds js = {}" by (auto simp: table_ok_def)
  from relay_job_ok [OF j(1)] obtain j1 w1 where j1: "relay_job j w = Some (j1, w1)" "job_step j w j1 w1"
    "same_on (- job_fds j) w w1" by blast
  from "3.IH" [OF j1(1) refl j(2)] obtain js' w' where r: "relay_jobs js w1 = Some (js', w')"
    "jobs_step js w1 js' w'" "same_on (- jobs_fds js) w1 w'" by blast
  have hd: "job_step j w j1 w'"
    using job_step_after [OF j1(2) same_on_mono [OF r(3)]] j(3) by auto
  have tl: "jobs_step js w js' w'"
  proof (rule list.rel_mono_strong [OF r(2)])
    fix x y
    assume x: "x \<in> set js" "y \<in> set js'" "rel_option (\<lambda>j j'. job_step j w1 j' w') x y"
    show "rel_option (\<lambda>j j'. job_step j w j' w') x y"
    proof (cases x)
      case None
      with x show ?thesis by auto
    next
      case (Some k)
      with x(1) j(2) have "job_ok k" "job_fds k \<subseteq> jobs_fds js" by (auto simp: table_ok_def jobs_fds_def)
      with j(3) have "same_on (job_fds k) w w1" "job_ok k" by (auto intro!: same_on_mono [OF j1(3)])
      with x Some job_step_before show ?thesis by (auto elim!: option.rel_cases)
    qed
  qed
  have "same_on (- jobs_fds (Some j # js)) w w'"
    using same_on_trans [OF same_on_mono [OF j1(3)] same_on_mono [OF r(3)]] by auto
  with hd tl j1(1) r(1) show ?case by auto
qed


section \<open>The thread and the interface\<close>

lemma job_step_refl: "job_ok j \<Longrightarrow> \<not> job_ends j w \<or> job_work j w = 0 \<Longrightarrow> job_step j w j w"
  by (auto simp: job_step_def rr.evolves_refl)

text \<open>\<open>n\<close> turns of the thread bring every job \<open>n\<close> steps nearer to its end.\<close>

lemma thr_relayer_job:
  assumes "table_ok (rel_job m)" "i < length (rel_job m)" "rel_job m ! i = Some j" "job_ends j (env m)" "job_work j (env m) \<le> n"
  shows "\<exists>m' j'. thr_relayer n m = Ret () m' \<and> table_ok (rel_job m') \<and> i < length (rel_job m') \<and> rel_job m' ! i = Some j' \<and>
    job_state j' = STATE_OVER \<and> job_ok j' \<and> rr.evolves (fsm12 j) (env m) (fsm12 j') (env m') \<and>
    rr.evolves (fsm21 j) (env m) (fsm21 j') (env m')"
  using assms
proof (induction n arbitrary: m j)
  case 0
  then have "job_ok j" using nth_mem [OF 0(2)] by (auto simp: table_ok_def)
  with 0 show ?case by (auto simp: job_work_def job_ok_def rr.evolves_refl split: if_splits)
next
  case (Suc n)
  from relay_jobs_ok [OF Suc.prems(1), of "env m"] obtain js w where r: "relay_jobs (rel_job m) (env m) = Some (js, w)"
    "jobs_step (rel_job m) (env m) js w" by blast
  let ?m1 = "m\<lparr>rel_job := js, env := w\<rparr>"
  from list_all2_nthD [OF r(2) Suc.prems(2)] Suc.prems(3) obtain k where k: "js ! i = Some k" "job_step j (env m) k w"
    by (auto elim: option.rel_cases)
  have "table_ok js" "i < length js"
    using table_ok_step [OF r(2)] Suc.prems(1,2) list_all2_lengthD [OF r(2)] by (auto simp: table_ok_def)
  moreover have "job_ends k w" "job_work k w \<le> n" using k(2) Suc.prems(4,5) by (auto simp: job_step_def)
  ultimately obtain m' j' where
    f: "thr_relayer n ?m1 = Ret () m'" "table_ok (rel_job m')" "i < length (rel_job m')" "rel_job m' ! i = Some j'"
      "job_state j' = STATE_OVER" "job_ok j'"
      "rr.evolves (fsm12 k) w (fsm12 j') (env m')" "rr.evolves (fsm21 k) w (fsm21 j') (env m')"
    using Suc.IH [of ?m1 k] k(1) by auto
  have "rr.evolves (fsm12 j) (env m) (fsm12 k) w" "rr.evolves (fsm21 j) (env m) (fsm21 k) w"
    using k(2) by (simp_all add: job_step_def)
  with f rr.evolves_trans [OF _ f(7)] rr.evolves_trans [OF _ f(8)] r(1) show ?case by auto
qed

lemma apart_update:
  "apart js \<Longrightarrow> job_fds j \<inter> jobs_fds js = {} \<Longrightarrow> i < length js \<Longrightarrow> js ! i = None \<Longrightarrow>
   apart (js[i := Some j]) \<and> jobs_fds (js[i := Some j]) = job_fds j \<union> jobs_fds js"
proof (induction js arbitrary: i rule: apart.induct)
  case (2 js)
  then show ?case by (cases i) auto
next
  case (3 k js)
  then show ?case by (cases i) auto
qed simp

lemma table_ok_add:
  "table_ok js \<Longrightarrow> job_ok j \<Longrightarrow> job_fds j \<inter> jobs_fds js = {} \<Longrightarrow> i < length js \<Longrightarrow> js ! i = None \<Longrightarrow>
   table_ok (js[i := Some j])"
  using apart_update [of js j i] set_update_subset_insert [of js i "Some j"] by (auto simp: table_ok_def)

text \<open>The module is started, or starts now with its thread.\<close>

definition can_start :: "int \<Rightarrow> relayer_module \<Rightarrow> bool" where
  "can_start err m \<longleftrightarrow> once m \<or> err = 0"

lemma rel_addjob_added:
  assumes "table_ok (rel_job m)" "can_start err m" "None \<in> set (rel_job m)" "a \<noteq> b" "a \<notin> jobs_fds (rel_job m)"
    "b \<notin> jobs_fds (rel_job m)" "length (buf (fsm12 g)) = BUFSIZE" "length (buf (fsm21 g)) = BUFSIZE"
  obtains m1 j where "rel_addjob err (Some g) junk a b m = Ret junk m1" "table_ok (rel_job m1)"
    "rel_job m1 = (rel_job m)[nat (scan_slots (rel_job m)) := Some j]"
    "job_state j = STATE_RUNNING" "fsm12 j = rr.init_fsm (fsm12 g) a b" "fsm21 j = rr.init_fsm (fsm21 g) b a"
    "env m1 = F_SETFL b (F_GETFL b (env m) OR O_NONBLOCK) (F_SETFL a (F_GETFL a (env m) OR O_NONBLOCK) (env m))"
proof -
  define j where "j = g\<lparr>fd1 := a, fd2 := b, job_state := STATE_RUNNING, fd1_save := F_GETFL a (env m),
    fd2_save := F_GETFL b (env m), fsm12 := rr.init_fsm (fsm12 g) a b, fsm21 := rr.init_fsm (fsm21 g) b a\<rparr>"
  define w2 where "w2 = F_SETFL b (F_GETFL b (env m) OR O_NONBLOCK) (F_SETFL a (F_GETFL a (env m) OR O_NONBLOCK) (env m))"
  have pos: "nat (scan_slots (rel_job m)) < length (rel_job m)" "rel_job m ! nat (scan_slots (rel_job m)) = None"
    "\<not> scan_slots (rel_job m) < 0"
    using scan_slots_nat [OF assms(3)] assms(3) by (simp_all add: scan_slots_neg_iff)
  have j: "job_ok j" "job_fds j \<inter> jobs_fds (rel_job m) = {}"
    using rr.init_pair_ok [OF assms(4,7,8)] assms(5,6) by (simp_all add: job_ok_def j_def job_fds_def)
  let ?m1 = "m\<lparr>once := True, thread := thread m \<or> \<not> once m, rel_job := (rel_job m)[nat (scan_slots (rel_job m)) := Some j], env := w2\<rparr>"
  have "rel_addjob err (Some g) junk a b m = Ret junk ?m1"
    using assms(2,4) pos(3)
    by (auto simp: rel_addjob_def moudule_load_def can_start_def Let_def rel_free_pos_unlocked_def F_GETFL_def
        F_SETFL_def j_def w2_def rr.init_fsm_def)
  with table_ok_add [OF assms(1) j pos(1,2)] show thesis
    by (intro that [of ?m1 j]) (simp_all add: j_def w2_def)
qed

text \<open>
  C7: A job added to the relayer is relayed to its end. If its descriptors belong to no other job,
  both sources end and the sinks do not fail for good, then after finitely many turns of the thread
  the job is over and all bytes of either side have arrived at the other, in order, whatever the
  other jobs of the table do. The value \<open>rel_addjob\<close> returns is not the job's number: it is
  whatever the missing \<open>return\<close> leaves.
\<close>

theorem relayer_relays_added_job:
  assumes "table_ok (rel_job m)" and "can_start err m" and "None \<in> set (rel_job m)" and "a \<noteq> b"
    and "a \<notin> jobs_fds (rel_job m)" and "b \<notin> jobs_fds (rel_job m)"
    and "length (buf (fsm12 g)) = BUFSIZE" and "length (buf (fsm21 g)) = BUFSIZE"
    and "stream_ends (rd_script (env m) a)" and "stream_ends (rd_script (env m) b)"
    and "sink_ok (wr_script (env m) a)" and "sink_ok (wr_script (env m) b)"
    and "Suc (relay_fuel a b (env m)) \<le> n"
  shows "\<exists>m1 m2 j. rel_addjob err (Some g) junk a b m = Ret junk m1 \<and> thr_relayer n m1 = Ret () m2 \<and>
    rel_job m2 ! nat (scan_slots (rel_job m)) = Some j \<and> job_state j = STATE_OVER \<and>
    written (env m2) b = written (env m) b @ stream (rd_script (env m) a) \<and>
    written (env m2) a = written (env m) a @ stream (rd_script (env m) b)"
proof -
  obtain m1 j where 1: "rel_addjob err (Some g) junk a b m = Ret junk m1" "table_ok (rel_job m1)"
    "rel_job m1 = (rel_job m)[nat (scan_slots (rel_job m)) := Some j]"
    "job_state j = STATE_RUNNING" "fsm12 j = rr.init_fsm (fsm12 g) a b" "fsm21 j = rr.init_fsm (fsm21 g) b a"
    "env m1 = F_SETFL b (F_GETFL b (env m) OR O_NONBLOCK) (F_SETFL a (F_GETFL a (env m) OR O_NONBLOCK) (env m))"
    by (rule rel_addjob_added [OF assms(1-8)])
  have same: "rd_script (env m1) = rd_script (env m)" "wr_script (env m1) = wr_script (env m)" "written (env m1) = written (env m)"
    by (simp_all add: 1(7) F_SETFL_def)
  let ?i = "nat (scan_slots (rel_job m))"
  have i: "?i < length (rel_job m1)" "rel_job m1 ! ?i = Some j"
    using scan_slots_nat [OF assms(3)] by (simp_all add: 1(3))
  have "job_ends j (env m1)" "job_work j (env m1) \<le> n"
    using assms(9,10,13) by (simp_all add: job_ends_def job_work_def 1(4-6) same rr.init_will_end rr.init_work relay_fuel_def)
  from thr_relayer_job [OF 1(2) i this] obtain m2 j2 where 2: "thr_relayer n m1 = Ret () m2"
    "rel_job m2 ! ?i = Some j2" "job_state j2 = STATE_OVER" "job_ok j2"
    "rr.evolves (fsm12 j) (env m1) (fsm12 j2) (env m2)" "rr.evolves (fsm21 j) (env m1) (fsm21 j2) (env m2)" by blast
  from 2(3,4) have "state (fsm12 j2) = STATE_T" "state (fsm21 j2) = STATE_T" by (auto simp: job_ok_def)
  with rr.finish(3) [OF 2(5) [unfolded 1(5)]] rr.finish(3) [OF 2(6) [unfolded 1(6)]] assms(11,12) same
  have "written (env m2) b = written (env m) b @ stream (rd_script (env m) a)"
    "written (env m2) a = written (env m) a @ stream (rd_script (env m) b)" by simp_all
  with 1(1) 2(1-3) show ?thesis by blast
qed

definition ex_rel_job :: rel_job_st where
  "ex_rel_job = \<lparr>job_state = STATE_CANCELED, fd1 = 0, fd2 = 0, fsm12 = ex_fsm STATE_T, fsm21 = ex_fsm STATE_T,
     fd1_save = 0, fd2_save = 0\<rparr>"

lemma relayer_start_ok: "table_ok (rel_job (relayer_start w))" "jobs_fds (rel_job (relayer_start w)) = {}"
proof -
  have "apart (replicate n None)" for n by (induction n) simp_all
  then show "table_ok (rel_job (relayer_start w))" "jobs_fds (rel_job (relayer_start w)) = {}"
    by (auto simp: relayer_start_def table_ok_def jobs_fds_def)
qed

theorem relayer_relays_added_job_witness:
  "\<exists>m1 m2 j. rel_addjob 0 (Some ex_rel_job) (-7) 3 4 (relayer_start ex_world) = Ret (-7) m1 \<and> thr_relayer 60 m1 = Ret () m2 \<and>
    rel_job m2 ! 0 = Some j \<and> job_state j = STATE_OVER \<and>
    written (env m2) 4 = [104, 105] \<and> written (env m2) 3 = [33]"
proof -
  have s: "scan_slots (rel_job (relayer_start ex_world)) = 0" "None \<in> set (rel_job (relayer_start ex_world))"
    by (simp_all add: relayer_start_def REL_JOBMAX_def scan_slots_replicate)
  have e: "env (relayer_start ex_world) = ex_world" by (simp add: relayer_start_def)
  show ?thesis
    using relayer_relays_added_job [of "relayer_start ex_world" 0 3 4 ex_rel_job 60 "-7"] relayer_start_ok [of ex_world] s e
    by (simp add: can_start_def ex_rel_job_def ex_fsm_def ex_world_def EAGAIN_def relay_fuel_def)
qed

text \<open>
  \<open>rel_addjob\<close> reports a full table with \<open>-ENOSPC\<close> and a failed allocation with \<open>-ENOMEM\<close>;
  both leave the table and the descriptors' status flags as they were.
\<close>

theorem rel_addjob_errors:
  assumes "can_start err m" and "me = None \<or> None \<notin> set (rel_job m)" and "a \<noteq> b"
  shows "\<exists>m'. rel_addjob err me junk a b m = Ret (if me = None then - ENOMEM else - ENOSPC) m' \<and>
    rel_job m' = rel_job m \<and> env m' = env m"
proof -
  have "F_SETFL b (fd_flags (env m) b) (F_SETFL a (fd_flags (env m) a) (F_SETFL b y (F_SETFL a x (env m)))) = env m" for x y
    using assms(3) by (simp add: F_SETFL_def fun_upd_twist)
  with assms show ?thesis
    by (cases me) (auto simp: rel_addjob_def can_start_def moudule_load_def Let_def rel_free_pos_unlocked_def
        scan_slots_neg_iff F_GETFL_def F_SETFL_def fun_upd_twist)
qed

theorem rel_addjob_errors_witness:
  "\<exists>m'. rel_addjob 0 None 0 3 4 (relayer_start ex_world) = Ret (- ENOMEM) m' \<and>
    rel_job m' = rel_job (relayer_start ex_world) \<and> env m' = env (relayer_start ex_world)"
  using rel_addjob_errors [of 0 "relayer_start ex_world" None 3 4 0] by (simp add: can_start_def)

end
