(* ===== verification/Bucket_Spec.thy ===== *)
theory Bucket_Spec
  imports Prelude
begin

text \<open>
  The contract of a token bucket, shared by the three implementations of \<open>mytbf.c\<close> (signal
  handler, interval timer, timer thread): an abstract bucket, the interface an implementation
  offers on its buckets, and the traffic bound every implementation of the interface meets.
\<close>

section \<open>The bucket object\<close>

text \<open>\<open>struct mytbf_st\<close>, the same four fields in all three versions.\<close>

record mytbf_st =
  cps :: int
  burst :: int
  token :: int
  pos :: int

text \<open>\<open>min\<close> of \<open>mytbf.c\<close>.\<close>

definition tbf_min :: "int \<Rightarrow> int \<Rightarrow> int" where
  "tbf_min a b = (if a < b then a else b)"

lemma tbf_min_min [simp]: "tbf_min a b = min a b"
  by (simp add: tbf_min_def)

section \<open>The abstract bucket\<close>

text \<open>What each operation is meant to do to the number of tokens.\<close>

definition spec_tick :: "'a mytbf_st_scheme \<Rightarrow> 'a mytbf_st_scheme" where
  "spec_tick b = b\<lparr>token := min (burst b) (token b + cps b)\<rparr>"

definition spec_fetch :: "int \<Rightarrow> 'a mytbf_st_scheme \<Rightarrow> 'a mytbf_st_scheme" where
  "spec_fetch sz b = b\<lparr>token := token b - min (token b) sz\<rparr>"

definition spec_return :: "int \<Rightarrow> 'a mytbf_st_scheme \<Rightarrow> 'a mytbf_st_scheme" where
  "spec_return sz b = b\<lparr>token := min (burst b) (token b + sz)\<rparr>"

text \<open>
  The buckets whose arithmetic stays inside \<open>int\<close>: rate and depth are non-negative and below
  \<open>2 ^ 30\<close>, and the fill level is between empty and full.
\<close>

definition TBF_LIM :: int where
  "TBF_LIM = 1073741823"

definition bucket_ok :: "'a mytbf_st_scheme \<Rightarrow> bool" where
  "bucket_ok b \<longleftrightarrow> 0 \<le> cps b \<and> cps b \<le> TBF_LIM \<and> burst b \<le> TBF_LIM \<and> 0 \<le> token b \<and> token b \<le> burst b"

lemma bucket_ok_tick [inv_intros]: "bucket_ok b \<Longrightarrow> bucket_ok (spec_tick b)"
  by (simp add: bucket_ok_def spec_tick_def)

lemma bucket_ok_fetch [inv_intros]: "bucket_ok b \<Longrightarrow> 0 < sz \<Longrightarrow> bucket_ok (spec_fetch sz b)"
  by (auto simp: bucket_ok_def spec_fetch_def min_def)

lemma bucket_ok_return [inv_intros]: "bucket_ok b \<Longrightarrow> 0 < sz \<Longrightarrow> bucket_ok (spec_return sz b)"
  by (simp add: bucket_ok_def spec_return_def)

lemma bucket_ok_add_tick [c_simps]: "bucket_ok b \<Longrightarrow> c_int (token b + cps b) = token b + cps b"
  by (simp add: c_int_id bucket_ok_def TBF_LIM_def INT_MIN_def INT_MAX_def)

lemma bucket_ok_add_size [c_simps]:
  "bucket_ok b \<Longrightarrow> 0 < sz \<Longrightarrow> sz \<le> TBF_LIM \<Longrightarrow> c_int (token b + sz) = token b + sz"
  by (simp add: c_int_id bucket_ok_def TBF_LIM_def INT_MIN_def INT_MAX_def)

lemma bucket_ok_sub_min [c_simps]:
  "bucket_ok b \<Longrightarrow> 0 < sz \<Longrightarrow> c_int (token b - min (token b) sz) = token b - min (token b) sz"
  by (rule c_int_id) (auto simp: min_def bucket_ok_def TBF_LIM_def INT_MIN_def INT_MAX_def)

section \<open>The table of buckets\<close>

text \<open>
  All three versions keep their buckets in an array of 1024 pointers and record in each bucket
  the index of its pointer. Table and buckets correspond: a non-null entry points to a bucket that
  records the entry's index, and every bucket is at its index; all buckets are within range.
\<close>

definition MYTBF_MAX :: nat where
  "MYTBF_MAX = 1024"

definition table_inv :: "nat option list \<Rightarrow> (nat \<rightharpoonup> 'a mytbf_st_scheme) \<Rightarrow> bool" where
  "table_inv ps h \<longleftrightarrow> length ps = MYTBF_MAX \<and>
     (\<forall>i < MYTBF_MAX. \<forall>a. ps ! i = Some a \<longrightarrow> (\<exists>b. h a = Some b \<and> pos b = int i)) \<and>
     (\<forall>a b. h a = Some b \<longrightarrow>
        0 \<le> pos b \<and> nat (pos b) < MYTBF_MAX \<and> ps ! nat (pos b) = Some a \<and> bucket_ok b)"

lemma table_inv_start: "table_inv (replicate MYTBF_MAX None) Map.empty"
  by (simp add: table_inv_def)

lemma table_inv_length: "table_inv ps h \<Longrightarrow> length ps = MYTBF_MAX"
  by (simp add: table_inv_def)

lemma table_inv_job:
  "table_inv ps h \<Longrightarrow> i < MYTBF_MAX \<Longrightarrow> ps ! i = Some a \<Longrightarrow> \<exists>b. h a = Some b \<and> pos b = int i"
  by (auto simp: table_inv_def)

lemma table_inv_cell:
  "table_inv ps h \<Longrightarrow> h a = Some b \<Longrightarrow>
   0 \<le> pos b \<and> nat (pos b) < MYTBF_MAX \<and> ps ! nat (pos b) = Some a \<and> bucket_ok b"
  by (auto simp: table_inv_def)

lemma table_inv_ptrs:
  assumes "table_inv ps h"
  shows "distinct (ptrs ps)" and "set (ptrs ps) = dom h"
proof -
  show "distinct (ptrs ps)"
  proof (rule distinct_ptrs)
    fix i j a
    assume *: "i < length ps" "j < length ps" "ps ! i = Some a" "ps ! j = Some a"
    with table_inv_job [OF assms, of i a] table_inv_job [OF assms, of j a] table_inv_length [OF assms]
    show "i = j" by auto
  qed
  show "set (ptrs ps) = dom h"
  proof (intro set_eqI iffI)
    fix a assume "a \<in> set (ptrs ps)"
    then obtain i where "i < MYTBF_MAX" "ps ! i = Some a"
      using table_inv_length [OF assms] by (auto simp: set_ptrs in_set_conv_nth)
    with table_inv_job [OF assms] show "a \<in> dom h" by blast
  next
    fix a assume "a \<in> dom h"
    then obtain b where "h a = Some b" by blast
    with table_inv_cell [OF assms] table_inv_length [OF assms] show "a \<in> set (ptrs ps)"
      by (metis (mono_tags, lifting) mem_Collect_eq nth_mem set_ptrs)
  qed
qed

text \<open>A loop over a well-formed table visits every bucket exactly once.\<close>

lemma table_for_ptrs:
  "table_inv ps h \<Longrightarrow> for_ptrs (upd_cell g) ps h = Some (\<lambda>a. Option.bind (h a) g)"
  using for_ptrs_upd [of ps h g] table_inv_ptrs [of ps h] by (fastforce simp: fun_eq_iff dom_def)

text \<open>Changing the contents of buckets, but not their index, keeps the correspondence.\<close>

lemma table_inv_heap:
  assumes "table_inv ps h0" "dom h = dom h0"
    "\<And>a b b'. h0 a = Some b \<Longrightarrow> h a = Some b' \<Longrightarrow> pos b' = pos b \<and> bucket_ok b'"
  shows "table_inv ps h"
proof -
  have 1: "\<exists>b'. h a = Some b' \<and> pos b' = int i" if "i < MYTBF_MAX" "ps ! i = Some a" for i a
    using table_inv_job [OF assms(1) that] assms(2,3) by (metis domD domI)
  have 2: "0 \<le> pos b' \<and> nat (pos b') < MYTBF_MAX \<and> ps ! nat (pos b') = Some a \<and> bucket_ok b'"
    if "h a = Some b'" for a b'
  proof -
    from that assms(2) obtain b where b: "h0 a = Some b" by (metis domD domI)
    from assms(3) [OF b that] table_inv_cell [OF assms(1) b] show ?thesis by simp
  qed
  show ?thesis using 1 2 table_inv_length [OF assms(1)] by (simp add: table_inv_def)
qed

lemma table_inv_tick [inv_intros]:
  "table_inv ps h \<Longrightarrow> table_inv ps (\<lambda>a. map_option spec_tick (h a))"
  by (frule table_inv_heap)
     (auto simp: dom_def spec_tick_def bucket_ok_tick [unfolded spec_tick_def] dest: table_inv_cell)

lemma table_inv_upd [inv_intros]:
  "table_inv ps h \<Longrightarrow> h p = Some b \<Longrightarrow> pos b' = pos b \<Longrightarrow> bucket_ok b' \<Longrightarrow> table_inv ps (h(p \<mapsto> b'))"
  by (frule table_inv_heap) (auto dest: table_inv_cell split: if_splits)

lemma table_free_cases:
  assumes "table_inv ps h"
  shows "scan_slots ps = -1 \<longleftrightarrow> used ps = MYTBF_MAX"
    and "scan_slots ps \<noteq> -1 \<Longrightarrow>
      0 \<le> scan_slots ps \<and> nat (scan_slots ps) < MYTBF_MAX \<and> ps ! nat (scan_slots ps) = None"
proof -
  show "scan_slots ps = -1 \<longleftrightarrow> used ps = MYTBF_MAX"
    using table_inv_length [OF assms] used_full_iff [of ps] by (simp add: scan_slots_full_iff)
  assume "scan_slots ps \<noteq> -1"
  then have "None \<in> set ps" by (simp add: scan_slots_full_iff)
  with scan_slots_nat [of ps] scan_slots_neg_iff [of ps] table_inv_length [OF assms] show
    "0 \<le> scan_slots ps \<and> nat (scan_slots ps) < MYTBF_MAX \<and> ps ! nat (scan_slots ps) = None"
    by auto
qed

lemma table_inv_add:
  assumes "table_inv ps h" "scan_slots ps \<noteq> -1" "h a = None" "bucket_ok b" "pos b = scan_slots ps"
  shows "table_inv (ps[nat (scan_slots ps) := Some a]) (h(a \<mapsto> b))"
proof -
  let ?k = "nat (scan_slots ps)"
  have k: "0 \<le> scan_slots ps" "?k < MYTBF_MAX" "ps ! ?k = None"
    using table_free_cases(2) [OF assms(1,2)] by auto
  have 1: "\<exists>b'. (h(a \<mapsto> b)) c = Some b' \<and> pos b' = int i"
    if "i < MYTBF_MAX" "ps[?k := Some a] ! i = Some c" for i c
  proof (cases "i = ?k")
    case True
    with that k assms(1,5) show ?thesis by (simp add: table_inv_length)
  next
    case False
    with that(2) have "ps ! i = Some c" by simp
    with table_inv_job [OF assms(1) that(1)] assms(3) show ?thesis by fastforce
  qed
  have 2: "0 \<le> pos b' \<and> nat (pos b') < MYTBF_MAX \<and> ps[?k := Some a] ! nat (pos b') = Some c \<and>
      bucket_ok b'" if "(h(a \<mapsto> b)) c = Some b'" for c b'
  proof (cases "c = a")
    case True
    with that k assms show ?thesis by (simp add: table_inv_length)
  next
    case False
    with that have "h c = Some b'" by simp
    with table_inv_cell [OF assms(1)] k show ?thesis by (metis nth_list_update_neq option.distinct(1))
  qed
  show ?thesis using 1 2 table_inv_length [OF assms(1)] by (simp add: table_inv_def)
qed

lemma table_inv_remove:
  assumes "table_inv ps h" "h a = Some b"
  shows "table_inv (ps[nat (pos b) := None]) (h(a := None))"
proof -
  have b: "0 \<le> pos b" "nat (pos b) < MYTBF_MAX" "ps ! nat (pos b) = Some a"
    using table_inv_cell [OF assms] by auto
  have 1: "\<exists>b'. (h(a := None)) c = Some b' \<and> pos b' = int i"
    if "i < MYTBF_MAX" "ps[nat (pos b) := None] ! i = Some c" for i c
  proof -
    have i: "i \<noteq> nat (pos b)" using that b assms(1) by (auto simp: table_inv_length)
    with that(2) have "ps ! i = Some c" by simp
    with table_inv_job [OF assms(1) that(1)] i assms(2) show ?thesis by fastforce
  qed
  have 2: "0 \<le> pos b' \<and> nat (pos b') < MYTBF_MAX \<and> ps[nat (pos b) := None] ! nat (pos b') = Some c \<and>
      bucket_ok b'" if "(h(a := None)) c = Some b'" for c b'
  proof -
    from that have c: "c \<noteq> a" "h c = Some b'" by (auto split: if_splits)
    with table_inv_cell [OF assms(1) c(2)] b show ?thesis by (metis nth_list_update_neq option.inject)
  qed
  show ?thesis using 1 2 table_inv_length [OF assms(1)] by (simp add: table_inv_def)
qed

section \<open>The interface of an implementation\<close>

text \<open>
  A client's view of a module: ticks of its clock and calls on its buckets (addresses are
  natural numbers). A call either returns a number or blocks.
\<close>

datatype tbf_ev = EvTick | EvFetch nat int | EvReturn nat int

text \<open>Tokens granted to, and handed back by, the clients of bucket \<open>p\<close> in a log of calls.\<close>

fun granted :: "nat \<Rightarrow> (tbf_ev \<times> int) list \<Rightarrow> int" where
  "granted p [] = 0"
| "granted p ((EvFetch q n, r) # l) = (if q = p \<and> 0 < r then r else 0) + granted p l"
| "granted p (_ # l) = granted p l"

fun handed_back :: "nat \<Rightarrow> (tbf_ev \<times> int) list \<Rightarrow> int" where
  "handed_back p [] = 0"
| "handed_back p ((EvReturn q n, r) # l) = (if q = p \<and> 0 < r then r else 0) + handed_back p l"
| "handed_back p (_ # l) = handed_back p l"

fun ticks :: "(tbf_ev \<times> int) list \<Rightarrow> int" where
  "ticks [] = 0"
| "ticks ((EvTick, r) # l) = 1 + ticks l"
| "ticks (_ # l) = ticks l"

fun ev_ok :: "tbf_ev \<Rightarrow> bool" where
  "ev_ok (EvReturn p n) = (n \<le> TBF_LIM)"
| "ev_ok _ = True"

text \<open>
  One event on a module with operations \<open>tick\<close>, \<open>fetch\<close> and \<open>give\<close>, the number it returned (0
  where it blocked) and the module after it; \<open>None\<close> where the code's behaviour is undefined.
\<close>

definition tbf_step ::
  "('m \<Rightarrow> 'm option) \<Rightarrow> (nat \<Rightarrow> int \<Rightarrow> 'm \<Rightarrow> (int, 'm) outcome) \<Rightarrow>
   (nat \<Rightarrow> int \<Rightarrow> 'm \<Rightarrow> (int, 'm) outcome) \<Rightarrow> tbf_ev \<Rightarrow> 'm \<Rightarrow> (int \<times> 'm) option" where
  "tbf_step tick fetch give e m = (case e of
      EvTick \<Rightarrow> map_option (Pair 0) (tick m)
    | EvFetch p n \<Rightarrow> (case fetch p n m of Ret r m' \<Rightarrow> Some (r, m') | Blocked m' \<Rightarrow> Some (0, m') | _ \<Rightarrow> None)
    | EvReturn p n \<Rightarrow> (case give p n m of Ret r m' \<Rightarrow> Some (r, m') | _ \<Rightarrow> None))"

fun tbf_run ::
  "('m \<Rightarrow> 'm option) \<Rightarrow> (nat \<Rightarrow> int \<Rightarrow> 'm \<Rightarrow> (int, 'm) outcome) \<Rightarrow>
   (nat \<Rightarrow> int \<Rightarrow> 'm \<Rightarrow> (int, 'm) outcome) \<Rightarrow> tbf_ev list \<Rightarrow> 'm \<Rightarrow>
   ((tbf_ev \<times> int) list \<times> 'm) option" where
  "tbf_run tick fetch give [] m = Some ([], m)"
| "tbf_run tick fetch give (e # es) m = (case tbf_step tick fetch give e m of
      None \<Rightarrow> None
    | Some (r, m') \<Rightarrow>
        map_option (\<lambda>(l, m''). ((e, r) # l, m'')) (tbf_run tick fetch give es m'))"

text \<open>What an event does to bucket \<open>p\<close> of the specification.\<close>

definition spec_ev :: "nat \<Rightarrow> mytbf_st \<Rightarrow> tbf_ev \<Rightarrow> mytbf_st" where
  "spec_ev p b e = (case e of
      EvTick \<Rightarrow> spec_tick b
    | EvFetch q n \<Rightarrow> if q = p \<and> 0 < n then spec_fetch n b else b
    | EvReturn q n \<Rightarrow> if q = p \<and> 0 < n then spec_return n b else b)"

text \<open>A run whose log is in two parts is a run in two parts.\<close>

lemma tbf_run_split:
  assumes "tbf_run tick fetch give es m = Some (l1 @ l2, m')"
  shows "\<exists>es1 es2 m1. es = es1 @ es2 \<and> tbf_run tick fetch give es1 m = Some (l1, m1) \<and> tbf_run tick fetch give es2 m1 = Some (l2, m')"
  using assms
proof (induction l1 arbitrary: es m)
  case (Cons x l1)
  from Cons.prems obtain e es' r m1 where e: "es = e # es'" "tbf_step tick fetch give e m = Some (r, m1)" "x = (e, r)"
    "tbf_run tick fetch give es' m1 = Some (l1 @ l2, m')"
    by (cases es) (auto split: option.splits)
  from Cons.IH [OF e(4)] obtain es1 es2 m2 where "es' = es1 @ es2" "tbf_run tick fetch give es1 m1 = Some (l1, m2)"
    "tbf_run tick fetch give es2 m2 = Some (l2, m')" by blast
  with e show ?case by (intro exI [of _ "e # es1"] exI [of _ es2] exI [of _ m2]) simp
next
  case Nil
  then show ?case by (intro exI [of _ "[]"] exI [of _ es] exI [of _ m]) simp
qed

fun ev_ptr :: "tbf_ev \<Rightarrow> nat option" where
  "ev_ptr EvTick = None"
| "ev_ptr (EvFetch p n) = Some p"
| "ev_ptr (EvReturn p n) = Some p"

locale token_buckets =
  fixes invar :: "'m \<Rightarrow> bool"
    and cell :: "'m \<Rightarrow> nat \<rightharpoonup> mytbf_st"
    and tick :: "'m \<Rightarrow> 'm option"
    and fetch :: "nat \<Rightarrow> int \<Rightarrow> 'm \<Rightarrow> (int, 'm) outcome"
    and give :: "nat \<Rightarrow> int \<Rightarrow> 'm \<Rightarrow> (int, 'm) outcome"
  assumes invar_ok: "invar m \<Longrightarrow> cell m a = Some b \<Longrightarrow> bucket_ok b"
    and tick_law: "invar m \<Longrightarrow>
          \<exists>m'. tick m = Some m' \<and> invar m' \<and> cell m' = (\<lambda>a. map_option spec_tick (cell m a))"
    and fetch_inval: "sz \<le> 0 \<Longrightarrow> fetch p sz m = Ret (- EINVAL) m"
    and fetch_wait: "invar m \<Longrightarrow> cell m p = Some b \<Longrightarrow> 0 < sz \<Longrightarrow> token b \<le> 0 \<Longrightarrow>
          \<exists>m'. fetch p sz m = Blocked m' \<and> invar m' \<and> cell m' = cell m"
    and fetch_law: "invar m \<Longrightarrow> cell m p = Some b \<Longrightarrow> 0 < sz \<Longrightarrow> 0 < token b \<Longrightarrow>
          \<exists>m'. fetch p sz m = Ret (min (token b) sz) m' \<and> invar m' \<and>
               cell m' = (cell m)(p \<mapsto> spec_fetch sz b)"
    and give_inval: "sz \<le> 0 \<Longrightarrow> give p sz m = Ret (- EINVAL) m"
    and give_law: "invar m \<Longrightarrow> cell m p = Some b \<Longrightarrow> 0 < sz \<Longrightarrow> sz \<le> TBF_LIM \<Longrightarrow>
          \<exists>m'. give p sz m = Ret sz m' \<and> invar m' \<and>
               cell m' = (cell m)(p \<mapsto> spec_return sz b)"
    and fetch_freed: "cell m p = None \<Longrightarrow> 0 < sz \<Longrightarrow> fetch p sz m = Undef m"
    and give_freed: "cell m p = None \<Longrightarrow> 0 < sz \<Longrightarrow> give p sz m = Undef m"
begin

text \<open>The effect of one event on one bucket: it stays, and its level pays for what it granted.\<close>

lemma step_ev_bucket:
  assumes inv: "invar m" and cell: "cell m p = Some b" and step: "tbf_step tick fetch give e m = Some (r, m')"
    and ok: "ev_ok e"
  obtains b' where "invar m'" "cell m' p = Some b'" "b' = spec_ev p b e" "cps b' = cps b" "burst b' = burst b"
    "token b' + granted p [(e, r)] \<le> token b + handed_back p [(e, r)] + cps b * ticks [(e, r)]"
proof (cases e)
  case EvTick
  with step obtain m1 where "tick m = Some m1" "r = 0" "m' = m1"
    by (auto simp: tbf_step_def)
  with tick_law [OF inv] have "invar m'" "cell m' p = Some (spec_tick b)" by (auto simp: cell)
  then show thesis by (rule that) (auto simp: EvTick spec_ev_def spec_tick_def)
next
  case (EvFetch q n)
  show thesis
  proof (cases "n \<le> 0")
    case True
    then have "r = - EINVAL" "m' = m" using step EvFetch fetch_inval [of n q m]
      by (auto simp: tbf_step_def)
    with inv cell True show thesis by (intro that [of b]) (auto simp: EvFetch EINVAL_def spec_ev_def)
  next
    case n: False
    have "cell m q \<noteq> None"
    proof
      assume "cell m q = None"
      with n fetch_freed [of m q n] step EvFetch show False by (auto simp: tbf_step_def)
    qed
    then obtain c where c: "cell m q = Some c" by blast
    show thesis
    proof (cases "token c \<le> 0")
      case True
      with fetch_wait [OF inv c, of n] n obtain m1 where "fetch q n m = Blocked m1" "invar m1" "cell m1 = cell m"
        by auto
      with step EvFetch have "r = 0" "m' = m1" "invar m1" "cell m1 = cell m" by (auto simp: tbf_step_def)
      with cell c True invar_ok [OF inv cell] show thesis by (intro that [of b]) (auto simp: EvFetch spec_ev_def spec_fetch_def bucket_ok_def)
    next
      case tok: False
      with fetch_law [OF inv c, of n] n obtain m1 where
        "fetch q n m = Ret (min (token c) n) m1" "invar m1" "cell m1 = (cell m)(q \<mapsto> spec_fetch n c)"
        by auto
      with step EvFetch have *: "r = min (token c) n" "invar m'" "cell m' = (cell m)(q \<mapsto> spec_fetch n c)"
        by (auto simp: tbf_step_def)
      show thesis
      proof (cases "q = p")
        case True
        with * cell c tok n show thesis
          by (intro that [of "spec_fetch n b"]) (auto simp: EvFetch spec_ev_def spec_fetch_def)
      next
        case False
        with * cell show thesis by (intro that [of b]) (auto simp: EvFetch spec_ev_def)
      qed
    qed
  qed
next
  case (EvReturn q n)
  show thesis
  proof (cases "n \<le> 0")
    case True
    then have "r = - EINVAL" "m' = m" using step EvReturn give_inval [of n q m]
      by (auto simp: tbf_step_def)
    with inv cell True show thesis by (intro that [of b]) (auto simp: EvReturn EINVAL_def spec_ev_def)
  next
    case False
    have "cell m q \<noteq> None"
    proof
      assume "cell m q = None"
      with False give_freed [of m q n] step EvReturn show False by (auto simp: tbf_step_def)
    qed
    then obtain c where c: "cell m q = Some c" by blast
    from give_law [OF inv c, of n] False ok EvReturn obtain m1 where
      "give q n m = Ret n m1" "invar m1" "cell m1 = (cell m)(q \<mapsto> spec_return n c)" by auto
    with step EvReturn have *: "r = n" "invar m'" "cell m' = (cell m)(q \<mapsto> spec_return n c)"
      by (auto simp: tbf_step_def)
    show thesis
    proof (cases "q = p")
      case True
      with * cell c False show thesis
        by (intro that [of "spec_return n b"]) (auto simp: EvReturn spec_ev_def spec_return_def)
    next
      case False
      with * cell show thesis by (intro that [of b]) (auto simp: EvReturn spec_ev_def)
    qed
  qed
qed

lemma granted_Cons: "granted p (x # l) = granted p [x] + granted p l"
  by (cases x; cases "fst x") auto

lemma handed_back_Cons: "handed_back p (x # l) = handed_back p [x] + handed_back p l"
  by (cases x; cases "fst x") auto

lemma ticks_Cons: "ticks (x # l) = ticks [x] + ticks l"
  by (cases x; cases "fst x") auto

text \<open>Accounting over a whole run.\<close>

lemma run_account:
  assumes "invar m" "cell m p = Some b" "tbf_run tick fetch give es m = Some (l, m')" "list_all ev_ok es"
  shows "\<exists>b'. invar m' \<and> cell m' p = Some b' \<and> b' = foldl (spec_ev p) b es \<and> cps b' = cps b \<and> burst b' = burst b \<and>
    token b' + granted p l \<le> token b + handed_back p l + cps b * ticks l"
  using assms
proof (induction es arbitrary: m b l)
  case Nil
  then show ?case by auto
next
  case (Cons e es)
  from Cons.prems(3) obtain r m1 l1 where s: "tbf_step tick fetch give e m = Some (r, m1)"
    and r: "tbf_run tick fetch give es m1 = Some (l1, m')" and l: "l = (e, r) # l1"
    by (auto split: option.splits)
  from Cons.prems(4) have ok: "ev_ok e" "list_all ev_ok es" by simp_all
  obtain b1 where b1: "invar m1" "cell m1 p = Some b1" "cps b1 = cps b" "burst b1 = burst b" "b1 = spec_ev p b e"
    "token b1 + granted p [(e, r)] \<le> token b + handed_back p [(e, r)] + cps b * ticks [(e, r)]"
    using step_ev_bucket [OF Cons.prems(1,2) s ok(1)] by blast
  obtain b' where b': "invar m'" "cell m' p = Some b'" "b' = foldl (spec_ev p) b1 es" "cps b' = cps b" "burst b' = burst b"
    "token b' + granted p l1 \<le> token b1 + handed_back p l1 + cps b * ticks l1"
    using Cons.IH [OF b1(1,2) r ok(2)] b1(3,4) by auto
  from b1(6) b'(6) have "token b' + granted p l \<le> token b + handed_back p l + cps b * ticks l"
    unfolding l granted_Cons [of p "(e, r)" l1] handed_back_Cons [of p "(e, r)" l1]
      ticks_Cons [of "(e, r)" l1] by (simp add: distrib_left)
  with b' b1(5) show ?case by auto
qed

text \<open>The traffic bound: never more than the burst plus the rate times the elapsed ticks.\<close>

lemma conformance:
  assumes "invar m" "cell m p = Some b" "tbf_run tick fetch give es m = Some (l, m')" "list_all ev_ok es"
  shows "granted p l - handed_back p l \<le> burst b + cps b * ticks l"
proof -
  from run_account [OF assms] obtain b' where b': "invar m'" "cell m' p = Some b'"
    "token b' + granted p l \<le> token b + handed_back p l + cps b * ticks l" by blast
  from invar_ok [OF b'(1,2)] invar_ok [OF assms(1,2)]
  have "0 \<le> token b'" "token b \<le> burst b" by (simp_all add: bucket_ok_def)
  with b'(3) show ?thesis by linarith
qed

text \<open>The same over every stretch of a run: what was saved up before the stretch is at most the burst.\<close>

lemma conformance_within:
  assumes "invar m" "cell m p = Some b" "tbf_run tick fetch give es m = Some (l1 @ l2 @ l3, m')" "list_all ev_ok es"
  shows "granted p l2 - handed_back p l2 \<le> burst b + cps b * ticks l2"
proof -
  from tbf_run_split [OF assms(3)] obtain es1 es2 m1 where s: "es = es1 @ es2" "tbf_run tick fetch give es1 m = Some (l1, m1)"
    "tbf_run tick fetch give es2 m1 = Some (l2 @ l3, m')" by blast
  from tbf_run_split [OF s(3)] obtain es3 es4 m2 where t: "es2 = es3 @ es4" "tbf_run tick fetch give es3 m1 = Some (l2, m2)" by blast
  from run_account [OF assms(1,2) s(2)] assms(4) s(1) obtain b1 where "invar m1" "cell m1 p = Some b1" "cps b1 = cps b" "burst b1 = burst b"
    by auto
  with conformance [OF _ _ t(2), of p b1] assms(4) s(1) t(1) show ?thesis by simp
qed

text \<open>A run over allocated buckets never touches freed memory and never faults.\<close>

lemma step_ev_total:
  assumes "invar m" "ev_ok e" "\<And>q. ev_ptr e = Some q \<Longrightarrow> cell m q \<noteq> None"
  shows "\<exists>r m'. tbf_step tick fetch give e m = Some (r, m') \<and> invar m' \<and> dom (cell m') = dom (cell m)"
proof (cases e)
  case EvTick
  with tick_law [OF assms(1)] show ?thesis by (auto simp: tbf_step_def dom_def)
next
  case (EvFetch q n)
  with assms(3) obtain c where c: "cell m q = Some c" by fastforce
  consider "n \<le> 0" | "0 < n" "token c \<le> 0" | "0 < n" "0 < token c" by linarith
  then show ?thesis
  proof cases
    case 1
    then show ?thesis using assms(1) by (simp add: EvFetch tbf_step_def fetch_inval)
  next
    case 2
    with fetch_wait [OF assms(1) c] show ?thesis by (fastforce simp: EvFetch tbf_step_def)
  next
    case 3
    with fetch_law [OF assms(1) c] c show ?thesis by (fastforce simp: EvFetch tbf_step_def)
  qed
next
  case (EvReturn q n)
  with assms(3) obtain c where c: "cell m q = Some c" by fastforce
  show ?thesis
  proof (cases "n \<le> 0")
    case True
    then show ?thesis using assms(1) by (simp add: EvReturn tbf_step_def give_inval)
  next
    case False
    with give_law [OF assms(1) c, of n] assms(2) EvReturn obtain m1 where
      "give q n m = Ret n m1" "invar m1" "cell m1 = (cell m)(q \<mapsto> spec_return n c)" by auto
    with c show ?thesis by (auto simp: EvReturn tbf_step_def)
  qed
qed

lemma run_total:
  assumes "invar m" "list_all ev_ok es" "\<And>e q. e \<in> set es \<Longrightarrow> ev_ptr e = Some q \<Longrightarrow> cell m q \<noteq> None"
  shows "\<exists>l m'. tbf_run tick fetch give es m = Some (l, m') \<and> map fst l = es"
  using assms
proof (induction es arbitrary: m)
  case Nil
  then show ?case by simp
next
  case (Cons e es)
  from Cons.prems(2) have "ev_ok e" by simp
  with step_ev_total [of m e] Cons.prems(1,3) obtain r m1 where
    m1: "tbf_step tick fetch give e m = Some (r, m1)" "invar m1" "dom (cell m1) = dom (cell m)"
    by (meson list.set_intros(1))
  have "\<exists>l m'. tbf_run tick fetch give es m1 = Some (l, m') \<and> map fst l = es"
  proof (rule Cons.IH [OF m1(2)])
    show "list_all ev_ok es" using Cons.prems(2) by simp
    show "cell m1 q \<noteq> None" if "f \<in> set es" "ev_ptr f = Some q" for f q
      using Cons.prems(3) [of f q] that m1(3) by (metis domIff list.set_intros(2))
  qed
  with m1 show ?case by auto
qed

end

end
