(* ===== verification/Token_Bucket.thy ===== *)
theory Token_Bucket
  imports Bucket_Spec
begin

text \<open>
  \<open>mytbf/mytbf.c\<close>: token buckets refilled by the handler of \<open>SIGALRM\<close>. The module's static
  variables, the objects it has allocated and the process state it changes (disposition of the
  signal, pending alarm, exit hooks) are one record.
\<close>

section \<open>State\<close>

datatype sighandler_t = SIG_DFL | SIG_IGN | Handler_alrm

record tbf_module =
  job :: "nat option list"
  heap :: "nat \<rightharpoonup> mytbf_st"
  inited :: bool
  alrm_handler_save :: sighandler_t
  sigalrm_disp :: sighandler_t
  alarm_secs :: nat
  exit_hooks :: nat

text \<open>The static variables before the first call; \<open>d\<close> is what the process does on \<open>SIGALRM\<close>.\<close>

definition tbf_start :: "sighandler_t \<Rightarrow> tbf_module" where
  "tbf_start d = \<lparr>job = replicate MYTBF_MAX None, heap = Map.empty, inited = False,
     alrm_handler_save = SIG_DFL, sigalrm_disp = d, alarm_secs = 0, exit_hooks = 0\<rparr>"

section \<open>Operations\<close>

definition get_free_pos :: "tbf_module \<Rightarrow> int" where
  "get_free_pos m = scan_slots (job m)"

text \<open>The body of the handler's loop on one bucket.\<close>

definition refill :: "mytbf_st \<Rightarrow> mytbf_st" where
  "refill b = (let b' = b\<lparr>token := c_int (token b + cps b)\<rparr>
     in if token b' > burst b' then b'\<lparr>token := burst b'\<rparr> else b')"

text \<open>\<open>alrm_handler\<close> re-arms the alarm and refills every bucket of the table.\<close>

definition alrm_handler :: "tbf_module \<Rightarrow> tbf_module option" where
  "alrm_handler m = map_option (\<lambda>h. m\<lparr>alarm_secs := 1, heap := h\<rparr>)
     (for_ptrs (upd_cell (\<lambda>b. Some (refill b))) (job m) (heap m))"

text \<open>\<open>module_unload\<close>: \<open>free\<close> on every entry of the table; the entries themselves stay.\<close>

definition module_unload :: "tbf_module \<Rightarrow> tbf_module option" where
  "module_unload m = map_option
     (\<lambda>h. m\<lparr>sigalrm_disp := alrm_handler_save m, alarm_secs := 0, heap := h\<rparr>)
     (for_ptrs (upd_cell (\<lambda>b. None)) (job m) (heap m))"

definition module_load :: "tbf_module \<Rightarrow> tbf_module" where
  "module_load m = m\<lparr>alrm_handler_save := sigalrm_disp m, sigalrm_disp := Handler_alrm,
     alarm_secs := 1, exit_hooks := Suc (exit_hooks m)\<rparr>"

text \<open>\<open>mytbf_init\<close>; \<open>mal\<close> is what \<open>malloc\<close> returns (\<open>None\<close> for \<open>NULL\<close>).\<close>

definition mytbf_init :: "int \<Rightarrow> int \<Rightarrow> nat option \<Rightarrow> tbf_module \<Rightarrow> nat option \<times> tbf_module" where
  "mytbf_init c b mal m =
     (let m1 = (if \<not> inited m then (module_load m)\<lparr>inited := True\<rparr> else m);
          ps = get_free_pos m1
      in if ps = -1 then (None, m1)
         else case mal of
             None \<Rightarrow> (None, m1)
           | Some me \<Rightarrow>
               (Some me, m1\<lparr>heap := (heap m1)(me \<mapsto> \<lparr>cps = c, burst = b, token = 0, pos = ps\<rparr>),
                            job := (job m1)[nat ps := Some me]\<rparr>))"

text \<open>
  The loop \<^verbatim>\<open>while (me->token <= 0) pause();\<close>. The number counts the alarms that are still to
  come while the caller waits; with none left the caller stays in \<open>pause\<close>.
\<close>

fun wait_token :: "nat \<Rightarrow> nat \<Rightarrow> tbf_module \<Rightarrow> (unit, tbf_module) outcome" where
  "wait_token n p m = (case heap m p of
      None \<Rightarrow> Undef m
    | Some b \<Rightarrow>
        if token b \<le> 0 then
          (case n of
             0 \<Rightarrow> Blocked m
           | Suc n' \<Rightarrow> (case alrm_handler m of None \<Rightarrow> Undef m | Some m' \<Rightarrow> wait_token n' p m'))
        else Ret () m)"

declare wait_token.simps [simp del]

definition mytbf_fetchToken :: "nat \<Rightarrow> nat \<Rightarrow> int \<Rightarrow> tbf_module \<Rightarrow> (int, tbf_module) outcome" where
  "mytbf_fetchToken alarms p sz m =
     (if sz \<le> 0 then Ret (- EINVAL) m
      else bind_outcome (wait_token alarms p m) (\<lambda>_ m1.
        case heap m1 p of
          None \<Rightarrow> Undef m1
        | Some b \<Rightarrow>
            (let n = tbf_min (token b) sz
             in Ret n (m1\<lparr>heap := (heap m1)(p \<mapsto> b\<lparr>token := c_int (token b - n)\<rparr>)\<rparr>))))"

definition mytbf_returnToken :: "nat \<Rightarrow> int \<Rightarrow> tbf_module \<Rightarrow> (int, tbf_module) outcome" where
  "mytbf_returnToken p sz m =
     (if sz \<le> 0 then Ret (- EINVAL) m
      else case heap m p of
          None \<Rightarrow> Undef m
        | Some b \<Rightarrow>
            (let b1 = b\<lparr>token := c_int (token b + sz)\<rparr>;
                 b2 = (if token b1 > burst b1 then b1\<lparr>token := burst b1\<rparr> else b1)
             in Ret sz (m\<lparr>heap := (heap m)(p \<mapsto> b2)\<rparr>)))"

definition mytbf_destroy :: "nat \<Rightarrow> tbf_module \<Rightarrow> (int, tbf_module) outcome" where
  "mytbf_destroy p m = (case heap m p of
      None \<Rightarrow> Undef m
    | Some b \<Rightarrow>
        if 0 \<le> pos b \<and> nat (pos b) < MYTBF_MAX
        then Ret 0 (m\<lparr>job := (job m)[nat (pos b) := None], heap := (heap m)(p := None)\<rparr>)
        else Undef m)"

section \<open>Invariant\<close>

definition tbf_inv :: "tbf_module \<Rightarrow> bool" where
  "tbf_inv m \<longleftrightarrow> table_inv (job m) (heap m)"

lemma tbf_inv_start: "tbf_inv (tbf_start d)"
  by (simp add: tbf_inv_def tbf_start_def table_inv_start)

lemma tbf_inv_cell: "tbf_inv m \<Longrightarrow> heap m a = Some b \<Longrightarrow> bucket_ok b"
  by (auto simp: tbf_inv_def dest: table_inv_cell)

section \<open>What the operations do\<close>

lemma refill_spec: "bucket_ok b \<Longrightarrow> refill b = spec_tick b"
  by (auto simp: refill_def spec_tick_def Let_def bucket_ok_add_tick min_def)

lemma alrm_handler_spec:
  assumes "tbf_inv m"
  shows "alrm_handler m =
    Some (m\<lparr>alarm_secs := 1, heap := \<lambda>a. map_option spec_tick (heap m a)\<rparr>)"
proof -
  have "Option.bind (heap m a) (\<lambda>b. Some (refill b)) = map_option spec_tick (heap m a)" for a
    using tbf_inv_cell [OF assms, of a] by (cases "heap m a") (simp_all add: refill_spec)
  then show ?thesis by (simp add: alrm_handler_def table_for_ptrs [OF assms [unfolded tbf_inv_def]])
qed

lemma tbf_inv_alarm [inv_intros]:
  "tbf_inv m \<Longrightarrow> tbf_inv (m\<lparr>alarm_secs := n, heap := \<lambda>a. map_option spec_tick (heap m a)\<rparr>)"
  by (simp add: tbf_inv_def table_inv_tick)

lemma tbf_inv_upd [inv_intros]:
  "tbf_inv m \<Longrightarrow> heap m p = Some b \<Longrightarrow> pos b' = pos b \<Longrightarrow> bucket_ok b' \<Longrightarrow>
   tbf_inv (m\<lparr>heap := (heap m)(p \<mapsto> b')\<rparr>)"
  by (simp add: tbf_inv_def table_inv_upd)

lemma fetch_spec:
  assumes "tbf_inv m" "heap m p = Some b" "0 < sz" "0 < token b"
  shows "mytbf_fetchToken n p sz m =
    Ret (min (token b) sz) (m\<lparr>heap := (heap m)(p \<mapsto> spec_fetch sz b)\<rparr>)"
  using assms tbf_inv_cell [OF assms(1,2)]
  by (simp add: mytbf_fetchToken_def wait_token.simps [of n p m] spec_fetch_def Let_def bucket_ok_sub_min)

lemma return_spec:
  assumes "tbf_inv m" "heap m p = Some b" "0 < sz" "sz \<le> TBF_LIM"
  shows "mytbf_returnToken p sz m = Ret sz (m\<lparr>heap := (heap m)(p \<mapsto> spec_return sz b)\<rparr>)"
  using assms tbf_inv_cell [OF assms(1,2)]
  by (auto simp: mytbf_returnToken_def spec_return_def Let_def bucket_ok_add_size min_def)

interpretation tb: token_buckets tbf_inv heap alrm_handler "mytbf_fetchToken 0" mytbf_returnToken
proof (unfold_locales, goal_cases)
  case (1 m a b)
  then show ?case by (blast dest: tbf_inv_cell)
next
  case (2 m)
  then show ?case by (simp add: alrm_handler_spec tbf_inv_alarm)
next
  case (3 sz p m)
  then show ?case by (simp add: mytbf_fetchToken_def)
next
  case (4 m p b sz)
  then show ?case by (simp add: mytbf_fetchToken_def wait_token.simps [of 0 p m])
next
  case (5 m p b sz)
  then show ?case
    using tbf_inv_cell [of m p b]
    by (auto simp: fetch_spec intro!: tbf_inv_upd bucket_ok_fetch) (simp add: spec_fetch_def)
next
  case (6 sz p m)
  then show ?case by (simp add: mytbf_returnToken_def)
next
  case (7 m p b sz)
  then show ?case
    using tbf_inv_cell [of m p b]
    by (auto simp: return_spec intro!: tbf_inv_upd bucket_ok_return) (simp add: spec_return_def)
next
  case (8 m p sz)
  then show ?case by (simp add: mytbf_fetchToken_def wait_token.simps [of 0 p m])
next
  case (9 m p sz)
  then show ?case by (simp add: mytbf_returnToken_def)
qed

definition occupy_job :: "nat \<Rightarrow> nat \<Rightarrow> tbf_module \<Rightarrow> tbf_module" where
  "occupy_job i a m = m\<lparr>job := (job m)[i := Some a]\<rparr>"

definition release_job :: "nat \<Rightarrow> tbf_module \<Rightarrow> tbf_module" where
  "release_job i m = m\<lparr>job := (job m)[i := None]\<rparr>"

interpretation tb_slots: slot_table tbf_inv job MYTBF_MAX get_free_pos occupy_job release_job
  by unfold_locales (simp_all add: tbf_inv_def table_inv_length get_free_pos_def occupy_job_def release_job_def)

lemma get_free_pos_cases:
  assumes "tbf_inv m"
  shows "get_free_pos m = -1 \<longleftrightarrow> used (job m) = MYTBF_MAX"
    and "get_free_pos m \<noteq> -1 \<Longrightarrow>
      0 \<le> get_free_pos m \<and> nat (get_free_pos m) < MYTBF_MAX \<and> job m ! nat (get_free_pos m) = None"
  using table_free_cases [OF assms [unfolded tbf_inv_def]] by (simp_all add: get_free_pos_def)

text \<open>The module after the first-use initialisation of \<open>mytbf_init\<close>.\<close>

definition loaded :: "tbf_module \<Rightarrow> tbf_module" where
  "loaded m = (if \<not> inited m then (module_load m)\<lparr>inited := True\<rparr> else m)"

lemma loaded_simps [simp]:
  "job (loaded m) = job m" "heap (loaded m) = heap m" "inited (loaded m)"
  "tbf_inv (loaded m) = tbf_inv m" "get_free_pos (loaded m) = get_free_pos m"
  by (simp_all add: loaded_def module_load_def tbf_inv_def get_free_pos_def)

lemma tbf_inv_add:
  "tbf_inv m \<Longrightarrow> get_free_pos m \<noteq> -1 \<Longrightarrow> heap m a = None \<Longrightarrow> bucket_ok b \<Longrightarrow> pos b = get_free_pos m \<Longrightarrow>
   tbf_inv (m\<lparr>heap := (heap m)(a \<mapsto> b), job := (job m)[nat (get_free_pos m) := Some a]\<rparr>)"
  by (simp add: tbf_inv_def get_free_pos_def table_inv_add)

lemma tbf_inv_new:
  assumes "tbf_inv m" "get_free_pos m \<noteq> -1" "heap m a = None" "0 \<le> c" "c \<le> TBF_LIM" "0 \<le> b" "b \<le> TBF_LIM"
  shows "tbf_inv (snd (mytbf_init c b (Some a) m))"
  using tbf_inv_add [of "loaded m" a "\<lparr>cps = c, burst = b, token = 0, pos = get_free_pos m\<rparr>"] assms
  by (simp add: mytbf_init_def loaded_def [symmetric] Let_def bucket_ok_def)

text \<open>A module with one bucket at address 7, rate 10 and depth 100, for the concrete instances.\<close>

definition ex_tbf :: tbf_module where
  "ex_tbf = snd (mytbf_init 10 100 (Some 7) (tbf_start SIG_DFL))"

lemma get_free_pos_start: "get_free_pos (tbf_start d) = 0"
  by (simp add: get_free_pos_def tbf_start_def scan_slots_replicate MYTBF_MAX_def)

lemma ex_tbf_inv: "tbf_inv ex_tbf"
  unfolding ex_tbf_def
  by (rule tbf_inv_new [OF tbf_inv_start])
     (simp_all add: get_free_pos_start TBF_LIM_def, simp add: tbf_start_def)

lemma ex_tbf_heap: "heap ex_tbf = [7 \<mapsto> \<lparr>cps = 10, burst = 100, token = 0, pos = 0\<rparr>]"
  by (simp add: ex_tbf_def mytbf_init_def loaded_def [symmetric] Let_def get_free_pos_start)
     (simp add: tbf_start_def)

section \<open>Properties of \<open>mytbf/mytbf.c\<close>\<close>

text \<open>
  C1: Traffic bound of the token bucket. All buckets of the module have a rate and a depth between 0 and \<open>2 ^ 30 - 1\<close>, and no call returns more than
  \<open>2 ^ 30 - 1\<close> tokens at a time, so that no sum leaves \<open>int\<close>. However ticks of the alarm, fetches and returns on allocated buckets interleave: no call
  touches freed memory; over every stretch of the run, also one that begins after a long pause or after tokens were handed back, the tokens bucket \<open>p\<close> grants
  minus those handed back to it do not exceed its burst plus its rate times the ticks of that stretch; and in the end the bucket holds what the
  specification computes, in which ticks and returns fill it up to its depth and a fetch takes the smaller of level and request.
\<close>

theorem tbf_traffic_bound:
  assumes "tbf_inv m" and "heap m p = Some b" and "list_all ev_ok es"
    and "\<And>e q. e \<in> set es \<Longrightarrow> ev_ptr e = Some q \<Longrightarrow> heap m q \<noteq> None"
  shows "\<exists>l m'. tbf_run alrm_handler (mytbf_fetchToken 0) mytbf_returnToken es m = Some (l, m')
    \<and> map fst l = es \<and> heap m' p = Some (foldl (spec_ev p) b es)
    \<and> (\<forall>l1 l2 l3. l = l1 @ l2 @ l3 \<longrightarrow> granted p l2 - handed_back p l2 \<le> burst b + cps b * ticks l2)"
proof -
  have "\<exists>l m'. tbf_run alrm_handler (mytbf_fetchToken 0) mytbf_returnToken es m = Some (l, m')
      \<and> map fst l = es"
    by (rule tb.run_total [OF assms(1,3)]) (rule assms(4))
  then obtain l m' where run: "tbf_run alrm_handler (mytbf_fetchToken 0) mytbf_returnToken es m = Some (l, m')" "map fst l = es"
    by blast
  have "granted p l2 - handed_back p l2 \<le> burst b + cps b * ticks l2" if "l = l1 @ l2 @ l3" for l1 l2 l3
    using tb.conformance_within [OF assms(1,2) _ assms(3)] run(1) that by blast
  with run tb.run_account [OF assms(1,2) run(1) assms(3)] show ?thesis by blast
qed

theorem tbf_traffic_bound_witness:
  "\<exists>l m'. tbf_run alrm_handler (mytbf_fetchToken 0) mytbf_returnToken
      [EvFetch 7 5, EvTick, EvFetch 7 8, EvReturn 7 3] ex_tbf = Some (l, m') \<and>
    heap m' 7 = Some \<lparr>cps = 10, burst = 100, token = 5, pos = 0\<rparr> \<and> granted 7 l - handed_back 7 l \<le> 100 + 10 * ticks l"
proof -
  let ?es = "[EvFetch 7 5, EvTick, EvFetch 7 8, EvReturn 7 3]"
  have b: "heap ex_tbf 7 = Some \<lparr>cps = 10, burst = 100, token = 0, pos = 0\<rparr>" by (simp add: ex_tbf_heap)
  have ok: "list_all ev_ok ?es" by (simp add: TBF_LIM_def)
  have al: "heap ex_tbf q \<noteq> None" if "e \<in> set ?es" "ev_ptr e = Some q" for e q
    using that by (auto simp: ex_tbf_heap)
  let ?b = "\<lparr>cps = 10, burst = 100, token = 0, pos = 0\<rparr>"
  have "\<exists>l m'. tbf_run alrm_handler (mytbf_fetchToken 0) mytbf_returnToken ?es ex_tbf = Some (l, m') \<and> map fst l = ?es \<and>
      heap m' 7 = Some (foldl (spec_ev 7) ?b ?es) \<and>
      (\<forall>l1 l2 l3. l = l1 @ l2 @ l3 \<longrightarrow> granted 7 l2 - handed_back 7 l2 \<le> burst ?b + cps ?b * ticks l2)"
    by (rule tbf_traffic_bound [OF ex_tbf_inv b ok]) (rule al)
  then obtain l m' where r: "tbf_run alrm_handler (mytbf_fetchToken 0) mytbf_returnToken ?es ex_tbf = Some (l, m')"
      "heap m' 7 = Some (foldl (spec_ev 7) ?b ?es)"
    and w: "\<forall>l1 l2 l3. l = l1 @ l2 @ l3 \<longrightarrow> granted 7 l2 - handed_back 7 l2 \<le> burst ?b + cps ?b * ticks l2" by blast
  from w have "granted 7 l - handed_back 7 l \<le> 100 + 10 * ticks l" by (auto dest: spec [of _ "[]"])
  moreover have "foldl (spec_ev 7) ?b ?es = \<lparr>cps = 10, burst = 100, token = 5, pos = 0\<rparr>"
    by (simp add: spec_ev_def spec_tick_def spec_fetch_def spec_return_def)
  ultimately show ?thesis using r by metis
qed

text \<open>A bucket with a positive rate and depth.\<close>

definition tbf_live :: "nat \<Rightarrow> tbf_module \<Rightarrow> bool" where
  "tbf_live p m \<longleftrightarrow> tbf_inv m \<and> (\<exists>b. heap m p = Some b \<and> 0 < cps b \<and> 0 < burst b)"

lemma fetch_live_now:
  assumes "tbf_inv m" "heap m p = Some b" "0 < cps b" "0 < burst b" "0 < sz" "0 < token b"
  shows "\<exists>r m'. mytbf_fetchToken n p sz m = Ret r m' \<and> 1 \<le> r \<and> r \<le> sz \<and> tbf_live p m'"
  using fetch_spec [OF assms(1,2,5,6), of n] assms tbf_inv_cell [OF assms(1,2)]
  by (auto simp: tbf_live_def intro!: tbf_inv_upd bucket_ok_fetch) (simp_all add: spec_fetch_def)

lemma fetch_live:
  assumes "tbf_live p m" "0 < sz"
  shows "\<exists>r m'. mytbf_fetchToken (Suc n) p sz m = Ret r m' \<and> 1 \<le> r \<and> r \<le> sz \<and> tbf_live p m'"
proof -
  obtain b where b: "tbf_inv m" "heap m p = Some b" "0 < cps b" "0 < burst b"
    using assms(1) by (auto simp: tbf_live_def)
  show ?thesis
  proof (cases "0 < token b")
    case True
    with fetch_live_now [OF b assms(2)] show ?thesis by blast
  next
    case False
    define m1 where "m1 = m\<lparr>alarm_secs := 1, heap := \<lambda>a. map_option spec_tick (heap m a)\<rparr>"
    have m1: "alrm_handler m = Some m1" "tbf_inv m1" "heap m1 p = Some (spec_tick b)"
      using alrm_handler_spec [OF b(1)] b(1,2) by (simp_all add: m1_def tbf_inv_alarm)
    have tok: "0 < cps (spec_tick b)" "0 < burst (spec_tick b)" "0 < token (spec_tick b)"
      using b(3,4) tbf_inv_cell [OF b(1,2)] by (auto simp: spec_tick_def bucket_ok_def)
    have "mytbf_fetchToken (Suc n) p sz m = mytbf_fetchToken n p sz m1"
      using False b(2) assms(2) m1(1) by (simp add: mytbf_fetchToken_def wait_token.simps [of "Suc n"])
    with fetch_live_now [OF m1(2,3) tok(1,2) assms(2) tok(3), of n] show ?thesis by simp
  qed
qed

text \<open>
  A caller that finds the bucket empty waits for one alarm at most: with a positive rate and
  depth, \<open>mytbf_fetchToken\<close> returns between 1 and \<open>size\<close> tokens as soon as one alarm is
  delivered, and the module stays well formed.
\<close>

theorem fetch_waits_one_alarm:
  assumes "tbf_inv m" and "heap m p = Some b" and "0 < cps b" and "0 < burst b" and "0 < sz"
  shows "\<exists>r m'. mytbf_fetchToken (Suc n) p sz m = Ret r m' \<and> 1 \<le> r \<and> r \<le> sz \<and> tbf_inv m'"
  using fetch_live [of p m sz n] assms by (auto simp: tbf_live_def)

theorem fetch_waits_one_alarm_witness:
  "\<exists>r m'. mytbf_fetchToken (Suc 0) 7 20 ex_tbf = Ret r m' \<and> 1 \<le> r \<and> r \<le> 20 \<and> tbf_inv m'"
  using fetch_waits_one_alarm [OF ex_tbf_inv, of 7 _ 20 0] by (simp add: ex_tbf_heap)

text \<open>
  A bucket whose rate is not positive never delivers: \<open>mytbf_init\<close> accepts any rate, and
  once such a bucket is empty \<open>mytbf_fetchToken\<close> stays blocked however many alarms arrive.
\<close>

theorem fetch_blocks_without_rate:
  assumes "tbf_inv m" and "heap m p = Some b" and "cps b = 0" and "token b = 0" and "0 < sz"
  shows "\<exists>m'. mytbf_fetchToken n p sz m = Blocked m'"
proof -
  have "\<exists>m'. wait_token n p m = Blocked m'"
    using assms(1,2,3,4)
  proof (induction n arbitrary: m b)
    case 0
    then show ?case by (simp add: wait_token.simps [of 0])
  next
    case (Suc n)
    define m1 where "m1 = m\<lparr>alarm_secs := 1, heap := \<lambda>a. map_option spec_tick (heap m a)\<rparr>"
    have m1: "alrm_handler m = Some m1" "tbf_inv m1" "heap m1 p = Some (spec_tick b)"
      using alrm_handler_spec [OF Suc.prems(1)] Suc.prems by (simp_all add: m1_def tbf_inv_alarm)
    have "cps (spec_tick b) = 0" "token (spec_tick b) = 0"
      using Suc.prems tbf_inv_cell [OF Suc.prems(1,2)] by (simp_all add: spec_tick_def bucket_ok_def)
    from Suc.IH [OF m1(2,3) this] Suc.prems m1(1) show ?case
      by (simp add: wait_token.simps [of "Suc n"])
  qed
  with assms(5) show ?thesis by (auto simp: mytbf_fetchToken_def)
qed

theorem fetch_blocks_without_rate_witness:
  "\<exists>m'. mytbf_fetchToken 3600 4 1 (snd (mytbf_init 0 50 (Some 4) (tbf_start SIG_IGN))) = Blocked m'"
proof -
  have inv: "tbf_inv (snd (mytbf_init 0 50 (Some 4) (tbf_start SIG_IGN)))"
    by (rule tbf_inv_new [OF tbf_inv_start])
       (simp_all add: get_free_pos_start TBF_LIM_def, simp add: tbf_start_def)
  show ?thesis
    by (rule fetch_blocks_without_rate [OF inv, of 4 "\<lparr>cps = 0, burst = 50, token = 0, pos = 0\<rparr>"])
       (simp_all add: mytbf_init_def loaded_def [symmetric] Let_def get_free_pos_start)
qed

text \<open>
  \<open>mytbf_init\<close> returns \<open>NULL\<close> exactly when all 1024 slots are taken or \<open>malloc\<close> fails;
  otherwise the new bucket is empty, sits at the first free index, one more slot is in use, and
  the correspondence of table and buckets is kept.
\<close>

theorem mytbf_init_correct:
  assumes "tbf_inv m" and "\<And>a. mal = Some a \<Longrightarrow> heap m a = None"
    and "0 \<le> c" and "c \<le> TBF_LIM" and "0 \<le> b" and "b \<le> TBF_LIM"
    and "mytbf_init c b mal m = (r, m')"
  shows "tbf_inv m' \<and> (r = None \<longleftrightarrow> used (job m) = MYTBF_MAX \<or> mal = None) \<and>
    (\<forall>a. r = Some a \<longrightarrow>
       heap m' = (heap m)(a \<mapsto> \<lparr>cps = c, burst = b, token = 0, pos = get_free_pos m\<rparr>) \<and>
       job m' ! nat (get_free_pos m) = Some a \<and> used (job m') = Suc (used (job m)))"
proof (cases "get_free_pos m = -1 \<or> mal = None")
  case True
  then have "r = None" "m' = loaded m"
    using assms(7) by (auto simp: mytbf_init_def loaded_def [symmetric] Let_def split: option.splits)
  with True assms(1) get_free_pos_cases(1) [OF assms(1)] show ?thesis by auto
next
  case False
  then obtain a where a: "mal = Some a" and f: "get_free_pos m \<noteq> -1" by auto
  let ?b = "\<lparr>cps = c, burst = b, token = 0, pos = get_free_pos m\<rparr>"
  have r: "r = Some a" and m': "m' = (loaded m)\<lparr>heap := (heap (loaded m))(a \<mapsto> ?b),
      job := (job (loaded m))[nat (get_free_pos (loaded m)) := Some a]\<rparr>"
    using assms(7) a f by (auto simp: mytbf_init_def loaded_def [symmetric] Let_def)
  have ok: "bucket_ok ?b" using assms(3-6) by (simp add: bucket_ok_def)
  have "tbf_inv m'"
    unfolding m' using tbf_inv_add [of "loaded m" a ?b] assms(1,2) a f ok by simp
  moreover have "length (job m) = MYTBF_MAX"
    using assms(1) by (simp add: tbf_inv_def table_inv_length)
  ultimately show ?thesis using r m' get_free_pos_cases [OF assms(1)] f a
    by (simp add: used_update_Some)
qed

theorem mytbf_init_correct_witness:
  "\<exists>r m'. mytbf_init 10 100 (Some 7) (tbf_start SIG_DFL) = (r, m') \<and> tbf_inv m' \<and>
    (r = None \<longleftrightarrow> used (job (tbf_start SIG_DFL)) = MYTBF_MAX \<or> Some 7 = (None :: nat option))"
proof -
  obtain r m' where e: "mytbf_init 10 100 (Some 7) (tbf_start SIG_DFL) = (r, m')" by fastforce
  have "\<And>a. Some 7 = Some a \<Longrightarrow> heap (tbf_start SIG_DFL) a = None" by (simp add: tbf_start_def)
  from mytbf_init_correct [OF tbf_inv_start this _ _ _ _ e] e show ?thesis by (simp add: TBF_LIM_def)
qed

text \<open>
  Creating a bucket and destroying it gives back the table and the memory as they were, and
  the slot is free again.
\<close>

theorem init_destroy_roundtrip:
  assumes "tbf_inv m" and "heap m a = None" and "get_free_pos m \<noteq> -1"
    and "mytbf_init c b (Some a) m = (Some a, m1)"
  shows "\<exists>m2. mytbf_destroy a m1 = Ret 0 m2 \<and> job m2 = job m \<and> heap m2 = heap m"
proof -
  let ?b = "\<lparr>cps = c, burst = b, token = 0, pos = get_free_pos m\<rparr>"
  have m1: "m1 = (loaded m)\<lparr>heap := (heap m)(a \<mapsto> ?b), job := (job m)[nat (get_free_pos m) := Some a]\<rparr>"
    using assms(3,4) by (simp add: mytbf_init_def loaded_def [symmetric] Let_def)
  have k: "0 \<le> get_free_pos m" "nat (get_free_pos m) < MYTBF_MAX" "job m ! nat (get_free_pos m) = None"
    using get_free_pos_cases(2) [OF assms(1,3)] by auto
  have "(job m)[nat (get_free_pos m) := None] = job m" using k(3) by (metis list_update_id)
  moreover have "(heap m)(a := None) = heap m" using assms(2) by auto
  ultimately show ?thesis using k by (simp add: mytbf_destroy_def m1)
qed

theorem init_destroy_roundtrip_witness:
  "\<exists>m2. mytbf_destroy 7 ex_tbf = Ret 0 m2 \<and> job m2 = job (tbf_start SIG_DFL) \<and> heap m2 = Map.empty"
proof -
  have "mytbf_init 10 100 (Some 7) (tbf_start SIG_DFL) = (Some 7, ex_tbf)"
    by (simp add: ex_tbf_def mytbf_init_def loaded_def [symmetric] Let_def get_free_pos_start)
  from init_destroy_roundtrip [OF tbf_inv_start _ _ this] show ?thesis
    by (simp add: get_free_pos_start) (simp add: tbf_start_def)
qed

text \<open>
  At exit \<open>module_unload\<close> releases every bucket exactly once (no double free, no leak), stops
  the alarm and restores the disposition of \<open>SIGALRM\<close> found when the module was loaded.
\<close>

theorem module_unload_releases_all:
  assumes "tbf_inv m"
  shows "\<exists>m'. module_unload m = Some m' \<and> heap m' = Map.empty \<and> alarm_secs m' = 0 \<and>
    sigalrm_disp m' = alrm_handler_save m"
proof -
  have "(\<lambda>a. Option.bind (heap m a) (\<lambda>b. None)) = Map.empty" by (auto simp: fun_eq_iff bind_eq_None_conv)
  with table_for_ptrs [OF assms [unfolded tbf_inv_def], of "\<lambda>b. None"] show ?thesis by (simp add: module_unload_def)
qed

theorem module_unload_releases_all_witness:
  "\<exists>m'. module_unload ex_tbf = Some m' \<and> heap m' = Map.empty \<and> alarm_secs m' = 0 \<and>
    sigalrm_disp m' = alrm_handler_save ex_tbf"
  by (rule module_unload_releases_all [OF ex_tbf_inv])

end
