(* ===== verification/Token_Bucket_SA.thy ===== *)
theory Token_Bucket_SA
  imports Token_Bucket
begin

text \<open>
  \<open>mytbf_sa/mytbf.c\<close>: the token bucket driven by an interval timer and \<open>sigaction\<close>. The handler
  looks at the origin of the signal and ignores those the kernel's timer did not send.
\<close>

section \<open>State\<close>

datatype si_code = SI_KERNEL | SI_USER | SI_OTHER int

record sigaction_st =
  sa_sigaction :: sighandler_t
  sa_siginfo :: bool

record itimerval =
  it_interval :: nat
  it_value :: nat

record sa_module =
  sa_job :: "nat option list"
  sa_heap :: "nat \<rightharpoonup> mytbf_st"
  sa_inited :: bool
  alrm_sa_save :: sigaction_st
  sigalrm_sa :: sigaction_st
  itimer_real :: itimerval
  sa_exit_hooks :: nat

definition sa_start :: "sigaction_st \<Rightarrow> sa_module" where
  "sa_start d = \<lparr>sa_job = replicate MYTBF_MAX None, sa_heap = Map.empty, sa_inited = False,
     alrm_sa_save = \<lparr>sa_sigaction = SIG_DFL, sa_siginfo = False\<rparr>, sigalrm_sa = d,
     itimer_real = \<lparr>it_interval = 0, it_value = 0\<rparr>, sa_exit_hooks = 0\<rparr>"

section \<open>Operations\<close>

definition sa_get_free_pos :: "sa_module \<Rightarrow> int" where
  "sa_get_free_pos m = scan_slots (sa_job m)"

definition sa_refill :: "mytbf_st \<Rightarrow> mytbf_st" where
  "sa_refill b = (let b' = b\<lparr>token := c_int (token b + cps b)\<rparr>
     in if token b' > burst b' then b'\<lparr>token := burst b'\<rparr> else b')"

definition alrm_action :: "si_code \<Rightarrow> sa_module \<Rightarrow> sa_module option" where
  "alrm_action code m =
     (if code \<noteq> SI_KERNEL then Some m
      else map_option (\<lambda>h. m\<lparr>sa_heap := h\<rparr>)
        (for_ptrs (upd_cell (\<lambda>b. Some (sa_refill b))) (sa_job m) (sa_heap m)))"

definition sa_module_unload :: "sa_module \<Rightarrow> sa_module option" where
  "sa_module_unload m = map_option
     (\<lambda>h. m\<lparr>sigalrm_sa := alrm_sa_save m, itimer_real := \<lparr>it_interval = 1, it_value = 1\<rparr>, sa_heap := h\<rparr>)
     (for_ptrs (upd_cell (\<lambda>b. None)) (sa_job m) (sa_heap m))"

definition sa_module_load :: "sa_module \<Rightarrow> sa_module" where
  "sa_module_load m = m\<lparr>alrm_sa_save := sigalrm_sa m,
     sigalrm_sa := \<lparr>sa_sigaction = Handler_alrm, sa_siginfo = True\<rparr>,
     itimer_real := \<lparr>it_interval = 1, it_value = 1\<rparr>, sa_exit_hooks := Suc (sa_exit_hooks m)\<rparr>"

definition sa_init :: "int \<Rightarrow> int \<Rightarrow> nat option \<Rightarrow> sa_module \<Rightarrow> nat option \<times> sa_module" where
  "sa_init c b mal m =
     (let m1 = (if \<not> sa_inited m then (sa_module_load m)\<lparr>sa_inited := True\<rparr> else m);
          ps = sa_get_free_pos m1
      in if ps = -1 then (None, m1)
         else case mal of
             None \<Rightarrow> (None, m1)
           | Some me \<Rightarrow>
               (Some me, m1\<lparr>sa_heap := (sa_heap m1)(me \<mapsto> \<lparr>cps = c, burst = b, token = 0, pos = ps\<rparr>),
                            sa_job := (sa_job m1)[nat ps := Some me]\<rparr>))"

text \<open>
  The wait in \<^verbatim>\<open>sigsuspend(&oldmask)\<close>. The source declares \<open>oldmask\<close> nowhere, so the file does not compile as it stands; what a declaration would make of it
  is left open: the set of blocked signals is an argument. A mask with \<open>SIGALRM\<close> in it lets no alarm through and \<open>sigsuspend\<close> goes on waiting; otherwise
  the list \<open>sigs\<close> holds the origins of the signals still to come.
\<close>

definition SIGALRM :: int where "SIGALRM = 14"

fun sa_wait_token :: "int list \<Rightarrow> si_code list \<Rightarrow> nat \<Rightarrow> sa_module \<Rightarrow> (unit, sa_module) outcome" where
  "sa_wait_token oldmask sigs p m = (case sa_heap m p of
      None \<Rightarrow> Undef m
    | Some b \<Rightarrow>
        if token b \<le> 0 then
          if SIGALRM \<in> set oldmask then Blocked m
          else (case sigs of
             [] \<Rightarrow> Blocked m
           | code # sigs' \<Rightarrow>
               (case alrm_action code m of None \<Rightarrow> Undef m | Some m' \<Rightarrow> sa_wait_token oldmask sigs' p m'))
        else Ret () m)"

declare sa_wait_token.simps [simp del]

definition sa_fetchToken :: "int list \<Rightarrow> si_code list \<Rightarrow> nat \<Rightarrow> int \<Rightarrow> sa_module \<Rightarrow> (int, sa_module) outcome" where
  "sa_fetchToken oldmask sigs p sz m =
     (if sz \<le> 0 then Ret (- EINVAL) m
      else bind_outcome (sa_wait_token oldmask sigs p m) (\<lambda>_ m1.
        case sa_heap m1 p of
          None \<Rightarrow> Undef m1
        | Some b \<Rightarrow>
            (let n = tbf_min (token b) sz
             in Ret n (m1\<lparr>sa_heap := (sa_heap m1)(p \<mapsto> b\<lparr>token := c_int (token b - n)\<rparr>)\<rparr>))))"

definition sa_returnToken :: "nat \<Rightarrow> int \<Rightarrow> sa_module \<Rightarrow> (int, sa_module) outcome" where
  "sa_returnToken p sz m =
     (if sz \<le> 0 then Ret (- EINVAL) m
      else case sa_heap m p of
          None \<Rightarrow> Undef m
        | Some b \<Rightarrow>
            (let b1 = b\<lparr>token := c_int (token b + sz)\<rparr>;
                 b2 = (if token b1 > burst b1 then b1\<lparr>token := burst b1\<rparr> else b1)
             in Ret sz (m\<lparr>sa_heap := (sa_heap m)(p \<mapsto> b2)\<rparr>)))"

definition sa_destroy :: "nat \<Rightarrow> sa_module \<Rightarrow> (int, sa_module) outcome" where
  "sa_destroy p m = (case sa_heap m p of
      None \<Rightarrow> Undef m
    | Some b \<Rightarrow>
        if 0 \<le> pos b \<and> nat (pos b) < MYTBF_MAX
        then Ret 0 (m\<lparr>sa_job := (sa_job m)[nat (pos b) := None], sa_heap := (sa_heap m)(p := None)\<rparr>)
        else Undef m)"

section \<open>Invariant and laws\<close>

definition sa_inv :: "sa_module \<Rightarrow> bool" where
  "sa_inv m \<longleftrightarrow> table_inv (sa_job m) (sa_heap m)"

lemma sa_inv_start: "sa_inv (sa_start d)"
  by (simp add: sa_inv_def sa_start_def table_inv_start)

lemma sa_inv_cell: "sa_inv m \<Longrightarrow> sa_heap m a = Some b \<Longrightarrow> bucket_ok b"
  by (auto simp: sa_inv_def dest: table_inv_cell)

lemma sa_refill_spec: "bucket_ok b \<Longrightarrow> sa_refill b = spec_tick b"
  by (auto simp: sa_refill_def spec_tick_def Let_def bucket_ok_add_tick min_def)

lemma alrm_action_spec:
  assumes "sa_inv m"
  shows "alrm_action SI_KERNEL m = Some (m\<lparr>sa_heap := \<lambda>a. map_option spec_tick (sa_heap m a)\<rparr>)"
proof -
  have "Option.bind (sa_heap m a) (\<lambda>b. Some (sa_refill b)) = map_option spec_tick (sa_heap m a)" for a
    using sa_inv_cell [OF assms, of a] by (cases "sa_heap m a") (simp_all add: sa_refill_spec)
  then show ?thesis by (simp add: alrm_action_def table_for_ptrs [OF assms [unfolded sa_inv_def]])
qed

lemma sa_inv_upd [inv_intros]:
  "sa_inv m \<Longrightarrow> sa_heap m p = Some b \<Longrightarrow> pos b' = pos b \<Longrightarrow> bucket_ok b' \<Longrightarrow>
   sa_inv (m\<lparr>sa_heap := (sa_heap m)(p \<mapsto> b')\<rparr>)"
  by (simp add: sa_inv_def table_inv_upd)

lemma sa_inv_tick [inv_intros]:
  "sa_inv m \<Longrightarrow> sa_inv (m\<lparr>sa_heap := \<lambda>a. map_option spec_tick (sa_heap m a)\<rparr>)"
  by (simp add: sa_inv_def table_inv_tick)

lemma sa_fetch_spec:
  assumes "sa_inv m" "sa_heap m p = Some b" "0 < sz" "0 < token b"
  shows "sa_fetchToken oldmask sigs p sz m =
    Ret (min (token b) sz) (m\<lparr>sa_heap := (sa_heap m)(p \<mapsto> spec_fetch sz b)\<rparr>)"
  using assms sa_inv_cell [OF assms(1,2)]
  by (simp add: sa_fetchToken_def sa_wait_token.simps [of oldmask sigs p m] spec_fetch_def Let_def bucket_ok_sub_min)

lemma sa_return_spec:
  assumes "sa_inv m" "sa_heap m p = Some b" "0 < sz" "sz \<le> TBF_LIM"
  shows "sa_returnToken p sz m = Ret sz (m\<lparr>sa_heap := (sa_heap m)(p \<mapsto> spec_return sz b)\<rparr>)"
  using assms sa_inv_cell [OF assms(1,2)]
  by (auto simp: sa_returnToken_def spec_return_def Let_def bucket_ok_add_size min_def)

interpretation sa: token_buckets sa_inv sa_heap "alrm_action SI_KERNEL" "sa_fetchToken oldmask []" sa_returnToken for oldmask
proof (unfold_locales, goal_cases)
  case (1 m a b)
  then show ?case by (blast dest: sa_inv_cell)
next
  case (2 m)
  then show ?case by (simp add: alrm_action_spec sa_inv_tick)
next
  case (3 sz p m)
  then show ?case by (simp add: sa_fetchToken_def)
next
  case (4 m p b sz)
  then show ?case by (simp add: sa_fetchToken_def sa_wait_token.simps [of oldmask "[]" p m])
next
  case (5 m p b sz)
  then show ?case
    using sa_inv_cell [of m p b]
    by (auto simp: sa_fetch_spec intro!: sa_inv_upd bucket_ok_fetch) (simp add: spec_fetch_def)
next
  case (6 sz p m)
  then show ?case by (simp add: sa_returnToken_def)
next
  case (7 m p b sz)
  then show ?case
    using sa_inv_cell [of m p b]
    by (auto simp: sa_return_spec intro!: sa_inv_upd bucket_ok_return) (simp add: spec_return_def)
next
  case (8 m p sz)
  then show ?case by (simp add: sa_fetchToken_def sa_wait_token.simps [of oldmask "[]" p m])
next
  case (9 m p sz)
  then show ?case by (simp add: sa_returnToken_def)
qed

definition sa_occupy :: "nat \<Rightarrow> nat \<Rightarrow> sa_module \<Rightarrow> sa_module" where
  "sa_occupy i a m = m\<lparr>sa_job := (sa_job m)[i := Some a]\<rparr>"

definition sa_release :: "nat \<Rightarrow> sa_module \<Rightarrow> sa_module" where
  "sa_release i m = m\<lparr>sa_job := (sa_job m)[i := None]\<rparr>"

interpretation sa_slots: slot_table sa_inv sa_job MYTBF_MAX sa_get_free_pos sa_occupy sa_release
  by unfold_locales
     (simp_all add: sa_inv_def table_inv_length sa_get_free_pos_def sa_occupy_def sa_release_def)

section \<open>Equivalence with the signal-handler version\<close>

text \<open>
  The view of an interval-timer module as a signal-handler module: same table, same buckets. What
  the two versions do to the process (alarm, timer, dispositions) is forgotten.
\<close>

definition as_tbf :: "sa_module \<Rightarrow> tbf_module" where
  "as_tbf m = \<lparr>job = sa_job m, heap = sa_heap m, inited = sa_inited m, alrm_handler_save = SIG_DFL,
     sigalrm_disp = SIG_DFL, alarm_secs = 1, exit_hooks = 0\<rparr>"

lemma as_tbf_simps [simp]:
  "job (as_tbf m) = sa_job m" "heap (as_tbf m) = sa_heap m"
  "as_tbf (m\<lparr>sa_heap := h\<rparr>) = (as_tbf m)\<lparr>heap := h\<rparr>" "alarm_secs (as_tbf m) = 1"
  by (simp_all add: as_tbf_def)

fun map_outcome :: "('w \<Rightarrow> 'v) \<Rightarrow> ('a, 'w) outcome \<Rightarrow> ('a, 'v) outcome" where
  "map_outcome f (Ret a w) = Ret a (f w)"
| "map_outcome f (Exit c w) = Exit c (f w)"
| "map_outcome f (Abort w) = Abort (f w)"
| "map_outcome f (Blocked w) = Blocked (f w)"
| "map_outcome f (OutOfFuel w) = OutOfFuel (f w)"
| "map_outcome f (Undef w) = Undef (f w)"

lemma as_tbf_alarm: "alrm_handler (as_tbf m) = map_option as_tbf (alrm_action SI_KERNEL m)"
proof -
  have "sa_refill = refill" by (simp add: fun_eq_iff sa_refill_def refill_def)
  then show ?thesis
    by (simp add: alrm_handler_def alrm_action_def option.map_comp comp_def as_tbf_def)
qed

lemma as_tbf_wait:
  assumes "SIGALRM \<notin> set oldmask"
  shows "wait_token (length (filter (\<lambda>c. c = SI_KERNEL) sigs)) p (as_tbf m) =
   map_outcome as_tbf (sa_wait_token oldmask sigs p m)"
proof (induction sigs arbitrary: m)
  case Nil
  then show ?case
    using assms by (simp add: wait_token.simps [of 0] sa_wait_token.simps [of oldmask "[]"] split: option.split)
next
  case (Cons c sigs)
  show ?case
  proof (cases "c = SI_KERNEL")
    case True
    with Cons.IH assms show ?thesis
      by (simp add: wait_token.simps [of "Suc _"] sa_wait_token.simps [of oldmask "_ # _"] as_tbf_alarm
          split: option.split)
  next
    case False
    with Cons.IH [of m] assms show ?thesis
      by (simp add: sa_wait_token.simps [of oldmask "_ # _"] alrm_action_def
          wait_token.simps [of "length (filter (\<lambda>c. c = SI_KERNEL) sigs)"]
          sa_wait_token.simps [of oldmask sigs] split: option.splits if_splits)
  qed
qed

section \<open>Properties of \<open>mytbf_sa/mytbf.c\<close>\<close>


text \<open>
  A \<open>SIGALRM\<close> that another process or the process itself sends never credits tokens: while a
  caller waits, any number of such signals leaves it blocked and every bucket as it was.
\<close>

theorem sa_forged_signal_ignored:
  assumes "sa_heap m p = Some b" and "token b \<le> 0" and "0 < sz" and "SI_KERNEL \<notin> set sigs"
  shows "sa_fetchToken oldmask sigs p sz m = Blocked m"
proof -
  have "sa_wait_token oldmask sigs p m = Blocked m"
    using assms(4)
  proof (induction sigs)
    case Nil
    with assms(1,2) show ?case by (simp add: sa_wait_token.simps [of oldmask "[]"])
  next
    case (Cons c sigs)
    with assms(1,2) show ?case by (auto simp: sa_wait_token.simps [of oldmask "c # sigs"] alrm_action_def)
  qed
  with assms(3) show ?thesis by (simp add: sa_fetchToken_def)
qed

definition ex_sa :: sa_module where
  "ex_sa = snd (sa_init 10 100 (Some 7) (sa_start \<lparr>sa_sigaction = SIG_DFL, sa_siginfo = False\<rparr>))"

lemma ex_sa_heap: "sa_heap ex_sa = [7 \<mapsto> \<lparr>cps = 10, burst = 100, token = 0, pos = 0\<rparr>]"
  by (simp add: ex_sa_def sa_init_def sa_start_def sa_module_load_def Let_def sa_get_free_pos_def
      scan_slots_replicate MYTBF_MAX_def)

theorem sa_forged_signal_ignored_witness:
  "sa_fetchToken [] [SI_USER, SI_OTHER 5, SI_USER] 7 20 ex_sa = Blocked ex_sa"
  by (rule sa_forged_signal_ignored [of _ _ "\<lparr>cps = 10, burst = 100, token = 0, pos = 0\<rparr>"])
     (simp_all add: ex_sa_heap)

text \<open>
  \<open>module_unload\<close> of this version does not stop the clock: it frees every bucket and restores
  the old disposition of \<open>SIGALRM\<close>, but re-arms the interval timer at one second.
\<close>

theorem sa_unload_leaves_timer_armed:
  assumes "sa_inv m"
  shows "\<exists>m'. sa_module_unload m = Some m' \<and> sa_heap m' = Map.empty \<and>
    sigalrm_sa m' = alrm_sa_save m \<and> it_interval (itimer_real m') = 1 \<and> it_value (itimer_real m') = 1"
proof -
  have "(\<lambda>a. Option.bind (sa_heap m a) (\<lambda>b. None)) = Map.empty" by (auto simp: fun_eq_iff bind_eq_None_conv)
  with table_for_ptrs [OF assms [unfolded sa_inv_def], of "\<lambda>b. None"] show ?thesis
    by (simp add: sa_module_unload_def)
qed

theorem sa_unload_leaves_timer_armed_witness:
  "\<exists>m'. sa_module_unload (sa_start \<lparr>sa_sigaction = SIG_DFL, sa_siginfo = False\<rparr>) = Some m' \<and>
    it_value (itimer_real m') = 1"
  using sa_unload_leaves_timer_armed [OF sa_inv_start] by blast

end
