(* ===== verification/Anytimer.thy ===== *)
theory Anytimer
  imports Token_Bucket_SA "HOL-Library.Sublist"
begin

text \<open>
  \<open>anytimer/anytimer.c\<close>: many one-shot and periodic jobs multiplexed on one interval timer. The
  table holds the jobs themselves, since nothing but the table points to them. The job functions
  are the caller's; the model records their calls in order with the index of the job and assumes
  that they do not call the library.
\<close>

section \<open>State\<close>

definition JOB_MAX :: nat where
  "JOB_MAX = 1024"

datatype at_status = STATE_RUNNING | STATE_CANCELED | STATE_OVER

record at_job_st =
  at_state :: at_status
  sec :: int
  time_remain :: int
  jobp :: string
  arg :: string
  repeat :: int

record at_module =
  at_job :: "at_job_st option list"
  initied :: bool
  at_sa_save :: sigaction_st
  at_sigalrm :: sigaction_st
  at_itimer :: itimerval
  at_exit_hooks :: nat
  calls :: "(nat \<times> string \<times> string) list"

definition at_start :: "sigaction_st \<Rightarrow> at_module" where
  "at_start d = \<lparr>at_job = replicate JOB_MAX None, initied = False,
     at_sa_save = \<lparr>sa_sigaction = SIG_DFL, sa_siginfo = False\<rparr>, at_sigalrm = d,
     at_itimer = \<lparr>it_interval = 0, it_value = 0\<rparr>, at_exit_hooks = 0, calls = []\<rparr>"

section \<open>Operations\<close>

definition at_get_free_pos :: "at_module \<Rightarrow> int" where
  "at_get_free_pos m = scan_slots (at_job m)"

text \<open>The body of the loop of \<open>alrm_action\<close> for the job with index \<open>i\<close>: the job and the calls made.\<close>

definition at_tick :: "nat \<Rightarrow> at_job_st \<Rightarrow> at_job_st \<times> (nat \<times> string \<times> string) list" where
  "at_tick i j =
     (if at_state j = STATE_RUNNING then
        (let j1 = j\<lparr>time_remain := c_int (time_remain j - 1)\<rparr>
         in if time_remain j1 = 0
            then (if repeat j1 = 1 then j1\<lparr>time_remain := sec j1\<rparr> else j1\<lparr>at_state := STATE_OVER\<rparr>,
                  [(i, jobp j1, arg j1)])
            else (j1, []))
      else (j, []))"

fun at_ticks :: "nat \<Rightarrow> at_job_st option list \<Rightarrow> at_job_st option list \<times> (nat \<times> string \<times> string) list" where
  "at_ticks i [] = ([], [])"
| "at_ticks i (None # js) = (case at_ticks (Suc i) js of (js1, cs) \<Rightarrow> (None # js1, cs))"
| "at_ticks i (Some j # js) =
     (case at_tick i j of (j1, c) \<Rightarrow> (case at_ticks (Suc i) js of (js1, cs) \<Rightarrow> (Some j1 # js1, c @ cs)))"

definition at_alrm_action :: "si_code \<Rightarrow> at_module \<Rightarrow> at_module" where
  "at_alrm_action code m =
     (if code \<noteq> SI_KERNEL then m
      else (case at_ticks 0 (at_job m) of (js, cs) \<Rightarrow> m\<lparr>at_job := js, calls := calls m @ cs\<rparr>))"

text \<open>\<open>setitimer\<close> and \<open>sigaction\<close> fail when the flags \<open>t\<close> and \<open>s\<close> say so; both failures exit.\<close>

definition at_module_unload :: "bool \<Rightarrow> bool \<Rightarrow> at_module \<Rightarrow> (unit, at_module) outcome" where
  "at_module_unload t s m =
     (if t then Exit 1 m
      else (let m1 = m\<lparr>at_itimer := \<lparr>it_interval = 0, it_value = 0\<rparr>\<rparr>
            in if s then Exit 1 m1 else Ret () (m1\<lparr>at_sigalrm := at_sa_save m1\<rparr>)))"

definition at_module_load :: "bool \<Rightarrow> bool \<Rightarrow> at_module \<Rightarrow> (unit, at_module) outcome" where
  "at_module_load s t m =
     (if s then Exit 1 m
      else (let m1 = m\<lparr>at_sa_save := at_sigalrm m, at_sigalrm := \<lparr>sa_sigaction = Handler_alrm, sa_siginfo = True\<rparr>\<rparr>
            in if t then Exit 1 m1
               else Ret () (m1\<lparr>at_itimer := \<lparr>it_interval = 1, it_value = 1\<rparr>, at_exit_hooks := Suc (at_exit_hooks m1)\<rparr>)))"

text \<open>\<open>mal\<close>: whether \<open>malloc\<close> succeeds. \<open>fails\<close>: the results of \<open>sigaction\<close> and \<open>setitimer\<close> in \<open>module_load\<close>.\<close>

definition at_addjob :: "bool \<times> bool \<Rightarrow> bool \<Rightarrow> int \<Rightarrow> string \<Rightarrow> string \<Rightarrow> at_module \<Rightarrow> (int, at_module) outcome" where
  "at_addjob fails mal sc f a m =
     (if sc < 0 then Ret (- EINVAL) m
      else bind_outcome
        (if \<not> initied m then
           bind_outcome (at_module_load (fst fails) (snd fails) m) (\<lambda>_ m1. Ret () (m1\<lparr>initied := True\<rparr>))
         else Ret () m)
        (\<lambda>_ m1.
          (let pos = at_get_free_pos m1
           in if pos < 0 then Ret (- ENOSPC) m1
              else if \<not> mal then Ret (- ENOMEM) m1
              else (let me = \<lparr>at_state = STATE_RUNNING, sec = sc, time_remain = sc, jobp = f, arg = a, repeat = 0\<rparr>
                    in Ret pos (m1\<lparr>at_job := (at_job m1)[nat pos := Some me]\<rparr>)))))"

definition at_addjob_repeat :: "bool \<times> bool \<Rightarrow> bool \<Rightarrow> int \<Rightarrow> string \<Rightarrow> string \<Rightarrow> at_module \<Rightarrow> (int, at_module) outcome" where
  "at_addjob_repeat fails mal sc f a m =
     (if sc < 0 then Ret (- EINVAL) m
      else bind_outcome
        (if \<not> initied m then
           bind_outcome (at_module_load (fst fails) (snd fails) m) (\<lambda>_ m1. Ret () (m1\<lparr>initied := True\<rparr>))
         else Ret () m)
        (\<lambda>_ m1.
          (let pos = at_get_free_pos m1
           in if pos < 0 then Ret (- ENOSPC) m1
              else if \<not> mal then Ret (- ENOMEM) m1
              else (let me = \<lparr>at_state = STATE_RUNNING, sec = sc, time_remain = sc, jobp = f, arg = a, repeat = 1\<rparr>
                    in Ret pos (m1\<lparr>at_job := (at_job m1)[nat pos := Some me]\<rparr>)))))"

text \<open>The job an id names, if the checks at the head of \<open>at_canceljob\<close> and \<open>at_waitjob\<close> let it pass.\<close>

definition at_lookup :: "int \<Rightarrow> at_module \<Rightarrow> at_job_st option" where
  "at_lookup jid m = (if jid < 0 \<or> jid \<ge> int JOB_MAX then None else at_job m ! nat jid)"

definition at_canceljob :: "int \<Rightarrow> at_module \<Rightarrow> int \<times> at_module" where
  "at_canceljob jid m = (case at_lookup jid m of
      None \<Rightarrow> (- EINVAL, m)
    | Some j \<Rightarrow>
        if at_state j = STATE_CANCELED then (- ECANCELED, m)
        else if at_state j = STATE_OVER then (- EBUSY, m)
        else (0, m\<lparr>at_job := (at_job m)[nat jid := Some (j\<lparr>at_state := STATE_CANCELED\<rparr>)]\<rparr>))"

text \<open>\<^verbatim>\<open>while (job[jid]->job_state == STATE_RUNNING) pause();\<close> with the signals still to come.\<close>

fun at_wait :: "si_code list \<Rightarrow> nat \<Rightarrow> at_module \<Rightarrow> (unit, at_module) outcome" where
  "at_wait sigs i m = (case at_job m ! i of
      None \<Rightarrow> Undef m
    | Some j \<Rightarrow>
        if at_state j = STATE_RUNNING then
          (case sigs of [] \<Rightarrow> Blocked m | code # sigs' \<Rightarrow> at_wait sigs' i (at_alrm_action code m))
        else Ret () m)"

declare at_wait.simps [simp del]

definition at_waitjob :: "si_code list \<Rightarrow> int \<Rightarrow> at_module \<Rightarrow> (int, at_module) outcome" where
  "at_waitjob sigs jid m = (case at_lookup jid m of
      None \<Rightarrow> Ret (- EINVAL) m
    | Some j \<Rightarrow>
        if repeat j = 1 then Ret (- EBUSY) m
        else bind_outcome (at_wait sigs (nat jid) m) (\<lambda>_ m1.
          case at_job m1 ! nat jid of
            None \<Rightarrow> Undef m1
          | Some j1 \<Rightarrow>
              Ret 0 (if at_state j1 = STATE_CANCELED \<or> at_state j1 = STATE_OVER
                     then m1\<lparr>at_job := (at_job m1)[nat jid := None]\<rparr> else m1)))"

text \<open>A run: signals arrive.\<close>

definition at_signals :: "si_code list \<Rightarrow> at_module \<Rightarrow> at_module" where
  "at_signals sigs m = fold at_alrm_action sigs m"

text \<open>
  \<open>main.c\<close>: three jobs; a failed call exits with status 1. The endless loop writes a dot per second;
  \<open>secs\<close> are the signals of each second it runs in the model.
\<close>

definition at_main :: "bool \<times> bool \<Rightarrow> bool list \<Rightarrow> si_code list list \<Rightarrow> at_module \<Rightarrow> (string, at_module) outcome" where
  "at_main fails mals secs m =
     bind_outcome (at_addjob_repeat fails (mals ! 0) 5 ''f1'' ''aaa'' m) (\<lambda>job1 m1.
     if job1 < 0 then Exit 1 m1 else
     bind_outcome (at_addjob fails (mals ! 1) 2 ''f2'' ''bbb'' m1) (\<lambda>job2 m2.
     if job2 < 0 then Exit 1 m2 else
     bind_outcome (at_addjob fails (mals ! 2) 7 ''f1'' ''ccc'' m2) (\<lambda>job3 m3.
     if job3 < 0 then Exit 1 m3 else
     Ret (concat (map (\<lambda>_. ''.'') secs)) (at_signals (concat secs) m3))))"

section \<open>One tick, seen from one slot\<close>

text \<open>The two recursion equations of a pass as one.\<close>

lemma at_ticks_Cons:
  "at_ticks k (x # js) =
     (map_option (\<lambda>j. fst (at_tick k j)) x # fst (at_ticks (Suc k) js),
      (case x of None \<Rightarrow> [] | Some j \<Rightarrow> snd (at_tick k j)) @ snd (at_ticks (Suc k) js))"
  by (cases x) (simp_all add: case_prod_beta)

lemma at_ticks_length [simp]: "length (fst (at_ticks k js)) = length js"
  by (induction js arbitrary: k) (simp_all add: at_ticks_Cons)

lemma at_tick_own: "c \<in> set (snd (at_tick k j)) \<Longrightarrow> fst c = k"
  by (auto simp: at_tick_def Let_def split: if_splits)

lemma at_ticks_index: "c \<in> set (snd (at_ticks k js)) \<Longrightarrow> k \<le> fst c"
proof (induction js arbitrary: k)
  case (Cons x js)
  then have "c \<in> set (snd (at_ticks (Suc k) js)) \<Longrightarrow> k \<le> fst c" by (blast dest: Suc_leD)
  with Cons.prems show ?case by (cases x) (auto simp: at_ticks_Cons dest: at_tick_own)
qed simp

lemma at_ticks_job:
  "i < length js \<Longrightarrow> fst (at_ticks k js) ! i = map_option (\<lambda>j. fst (at_tick (k + i) j)) (js ! i)"
proof (induction js arbitrary: k i)
  case (Cons x js)
  then show ?case by (cases i) (simp_all add: at_ticks_Cons)
qed simp

lemma at_ticks_none: "n < k \<Longrightarrow> filter (\<lambda>c. fst c = n) (snd (at_ticks k js)) = []"
  using at_ticks_index [of _ k js] by (fastforce simp: filter_empty_conv)

lemma at_tick_filter:
  "filter (\<lambda>c. fst c = n) (snd (at_tick k j)) = (if n = k then snd (at_tick k j) else [])"
  by (auto simp: filter_id_conv filter_empty_conv dest: at_tick_own)

lemma at_ticks_calls:
  "i < length js \<Longrightarrow> filter (\<lambda>c. fst c = k + i) (snd (at_ticks k js)) =
     (case js ! i of None \<Rightarrow> [] | Some j \<Rightarrow> snd (at_tick (k + i) j))"
proof (induction js arbitrary: k i)
  case (Cons x js)
  show ?case
  proof (cases i)
    case 0
    then show ?thesis
      by (cases x) (simp_all add: at_ticks_Cons at_ticks_none at_tick_filter)
  next
    case (Suc n)
    with Cons.IH [of n "Suc k"] Cons.prems show ?thesis
      by (cases x; cases "js ! n") (simp_all add: at_ticks_Cons at_tick_filter)
  qed
qed simp

text \<open>The calls of one job's function, in order.\<close>

definition calls_of :: "nat \<Rightarrow> at_module \<Rightarrow> (nat \<times> string \<times> string) list" where
  "calls_of i m = filter (\<lambda>c. fst c = i) (calls m)"

lemma at_alrm_other [simp]: "code \<noteq> SI_KERNEL \<Longrightarrow> at_alrm_action code m = m"
  by (simp add: at_alrm_action_def)

lemma at_alrm_kernel:
  assumes "i < length (at_job m)" "at_job m ! i = Some j"
  shows "at_job (at_alrm_action SI_KERNEL m) ! i = Some (fst (at_tick i j))"
    and "calls_of i (at_alrm_action SI_KERNEL m) = calls_of i m @ snd (at_tick i j)"
  using assms at_ticks_job [of i "at_job m" 0] at_ticks_calls [of i "at_job m" 0]
  by (simp_all add: at_alrm_action_def case_prod_beta calls_of_def)

lemma at_alrm_length [simp]: "length (at_job (at_alrm_action code m)) = length (at_job m)"
  by (simp add: at_alrm_action_def case_prod_beta)

lemma at_signals_simps [simp]:
  "at_signals [] m = m" "at_signals (c # sigs) m = at_signals sigs (at_alrm_action c m)"
  by (simp_all add: at_signals_def)

section \<open>Firing\<close>

text \<open>Timer signals among the signals: forged ones do not count.\<close>

definition kernel_ticks :: "si_code list \<Rightarrow> nat" where
  "kernel_ticks sigs = count_list sigs SI_KERNEL"

lemma kernel_ticks_simps [simp]:
  "kernel_ticks [] = 0" "kernel_ticks (c # sigs) = (if c = SI_KERNEL then Suc (kernel_ticks sigs) else kernel_ticks sigs)"
  by (simp_all add: kernel_ticks_def)

lemma kernel_ticks_replicate [simp]: "kernel_ticks (replicate n SI_KERNEL) = n"
  by (induction n) simp_all

definition job_in :: "nat \<Rightarrow> at_module \<Rightarrow> at_job_st \<Rightarrow> bool" where
  "job_in i m j \<longleftrightarrow> i < length (at_job m) \<and> at_job m ! i = Some j"

lemma job_in_tick:
  "job_in i m j \<Longrightarrow> job_in i (at_alrm_action SI_KERNEL m) (fst (at_tick i j))"
  "job_in i m j \<Longrightarrow> calls_of i (at_alrm_action SI_KERNEL m) = calls_of i m @ snd (at_tick i j)"
  by (simp_all add: job_in_def at_alrm_kernel)

text \<open>A job that does not run is never called.\<close>

lemma at_idle:
  "job_in i m j \<Longrightarrow> at_state j \<noteq> STATE_RUNNING \<Longrightarrow>
   job_in i (at_signals sigs m) j \<and> calls_of i (at_signals sigs m) = calls_of i m"
proof (induction sigs arbitrary: m)
  case (Cons c sigs)
  show ?case
  proof (cases "c = SI_KERNEL")
    case True
    with Cons job_in_tick [of i m j] show ?thesis by (simp add: at_tick_def)
  qed (use Cons in simp)
qed simp

lemma at_oneshot_run:
  assumes "job_in i m j" and "at_state j = STATE_RUNNING" and "repeat j \<noteq> 1"
    and "0 < time_remain j" and "time_remain j \<le> INT_MAX"
  shows "\<exists>j'. job_in i (at_signals sigs m) j' \<and>
    (if int (kernel_ticks sigs) < time_remain j
     then j' = j\<lparr>time_remain := time_remain j - int (kernel_ticks sigs)\<rparr> \<and> calls_of i (at_signals sigs m) = calls_of i m
     else at_state j' = STATE_OVER \<and> calls_of i (at_signals sigs m) = calls_of i m @ [(i, jobp j, arg j)])"
  using assms
proof (induction sigs arbitrary: m j)
  case (Cons c sigs)
  show ?case
  proof (cases "c = SI_KERNEL")
    case k: True
    let ?m = "at_alrm_action SI_KERNEL m"
    have ci: "c_int (time_remain j - 1) = time_remain j - 1"
      using Cons.prems(4,5) by (intro c_int_id) (simp_all add: INT_MIN_def)
    note t = job_in_tick [OF Cons.prems(1)]
    show ?thesis
    proof (cases "time_remain j = 1")
      case True
      let ?j = "j\<lparr>time_remain := 0, at_state := STATE_OVER\<rparr>"
      have "at_tick i j = (?j, [(i, jobp j, arg j)])"
        using True Cons.prems(2,3) ci by (simp add: at_tick_def Let_def)
      with t at_idle [of i ?m ?j sigs] k True show ?thesis by (intro exI [of _ ?j]) simp
    next
      case False
      let ?j = "j\<lparr>time_remain := time_remain j - 1\<rparr>"
      have e: "at_tick i j = (?j, [])"
        using False Cons.prems(2) ci by (simp add: at_tick_def Let_def)
      have p: "job_in i ?m ?j" "calls_of i ?m = calls_of i m" using t e by simp_all
      from Cons.IH [OF p(1)] Cons.prems False obtain j' where j': "job_in i (at_signals sigs ?m) j'"
        "if int (kernel_ticks sigs) < time_remain ?j
         then j' = ?j\<lparr>time_remain := time_remain ?j - int (kernel_ticks sigs)\<rparr> \<and> calls_of i (at_signals sigs ?m) = calls_of i ?m
         else at_state j' = STATE_OVER \<and> calls_of i (at_signals sigs ?m) = calls_of i ?m @ [(i, jobp ?j, arg ?j)]"
        by auto
      with p(2) k show ?thesis by (intro exI [of _ j']) (auto split: if_splits)
    qed
  next
    case False
    then have forged: "at_signals (c # sigs) m = at_signals sigs m" "kernel_ticks (c # sigs) = kernel_ticks sigs" by simp_all
    show ?thesis unfolding forged by (rule Cons.IH [OF Cons.prems])
  qed
qed auto

lemma at_oneshot_pre:
  assumes "job_in i m j" "at_state j = STATE_RUNNING" "repeat j \<noteq> 1" "0 < time_remain j" "time_remain j \<le> INT_MAX"
    "job_in i (at_signals sigs m) k" "at_state k \<noteq> STATE_RUNNING"
  shows "at_state k = STATE_OVER \<and> calls_of i (at_signals sigs m) = calls_of i m @ [(i, jobp j, arg j)]"
  using at_oneshot_run [OF assms(1-5), of sigs] assms(2,6,7) by (auto simp: job_in_def split: if_splits)

text \<open>
  A periodic job with a positive period is called once per period for as long as it runs: with
  \<open>r\<close> seconds to the next call, \<open>n\<close> ticks bring \<open>(n + sec - r) div sec\<close> calls.
\<close>

theorem at_repeat_period:
  assumes "job_in i m j" and "at_state j = STATE_RUNNING" and "repeat j = 1"
    and "0 < time_remain j" and "time_remain j \<le> sec j" and "sec j \<le> INT_MAX"
  shows "calls_of i (at_signals sigs m) = calls_of i m @
    replicate (nat ((int (kernel_ticks sigs) + sec j - time_remain j) div sec j)) (i, jobp j, arg j)"
  using assms
proof (induction sigs arbitrary: m j)
  case Nil
  then show ?case by simp
next
  case (Cons c sigs)
  show ?case
  proof (cases "c = SI_KERNEL")
    case k: True
    let ?m = "at_alrm_action SI_KERNEL m"
    have ci: "c_int (time_remain j - 1) = time_remain j - 1"
      using Cons.prems(4-6) by (intro c_int_id) (simp_all add: INT_MIN_def)
    note t = job_in_tick [OF Cons.prems(1)]
    show ?thesis
    proof (cases "time_remain j = 1")
      case True
      let ?j = "j\<lparr>time_remain := sec j\<rparr>"
      have e: "at_tick i j = (?j, [(i, jobp j, arg j)])"
        using True Cons.prems(2,3) ci by (simp add: at_tick_def Let_def)
      have "calls_of i (at_signals sigs ?m) = calls_of i ?m @
          replicate (nat ((int (kernel_ticks sigs) + sec ?j - time_remain ?j) div sec ?j)) (i, jobp ?j, arg ?j)"
        using t e Cons.prems by (intro Cons.IH) simp_all
      moreover have "nat ((1 + int (kernel_ticks sigs) + sec j - 1) div sec j) = Suc (nat (int (kernel_ticks sigs) div sec j))"
      proof -
        have "(int (kernel_ticks sigs) + sec j) div sec j = int (kernel_ticks sigs) div sec j + 1"
          using Cons.prems(4,5) by (intro div_add_self2) simp
        then show ?thesis using Cons.prems(4,5) by (simp add: nat_add_distrib pos_imp_zdiv_nonneg_iff)
      qed
      ultimately show ?thesis using t e k True by simp
    next
      case False
      let ?j = "j\<lparr>time_remain := time_remain j - 1\<rparr>"
      have e: "at_tick i j = (?j, [])"
        using False Cons.prems(2) ci by (simp add: at_tick_def Let_def)
      have "calls_of i (at_signals sigs ?m) = calls_of i ?m @
          replicate (nat ((int (kernel_ticks sigs) + sec ?j - time_remain ?j) div sec ?j)) (i, jobp ?j, arg ?j)"
        using t e Cons.prems False by (intro Cons.IH) simp_all
      with t e k show ?thesis by (simp add: algebra_simps)
    qed
  qed (use Cons in simp)
qed


definition ex_job :: "int \<Rightarrow> int \<Rightarrow> at_job_st" where
  "ex_job s r = \<lparr>at_state = STATE_RUNNING, sec = s, time_remain = s, jobp = ''f'', arg = ''x'', repeat = r\<rparr>"

definition ex_at :: "at_job_st \<Rightarrow> at_module" where
  "ex_at j = (at_start \<lparr>sa_sigaction = SIG_DFL, sa_siginfo = False\<rparr>)
     \<lparr>at_job := (replicate JOB_MAX None)[3 := Some j], initied := True\<rparr>"

lemma ex_at_job [simp]: "job_in 3 (ex_at j) j" "calls_of n (ex_at j) = []"
  by (simp_all add: job_in_def ex_at_def JOB_MAX_def calls_of_def at_start_def)

theorem at_repeat_period_witness:
  "calls_of 3 (at_signals (replicate 7 SI_KERNEL) (ex_at (ex_job 2 1))) = replicate 3 (3, ''f'', ''x'')"
  using at_repeat_period [of 3 "ex_at (ex_job 2 1)" "ex_job 2 1" "replicate 7 SI_KERNEL"]
  by (simp add: ex_job_def INT_MAX_def)

text \<open>
  A job added with a time of 0 seconds is not called at once: its counter runs from 0 into the
  negative numbers, and it is called only when it has wrapped around, after \<open>2^32\<close> ticks.
\<close>

theorem at_zero_seconds_never_fires:
  assumes "job_in i m j" and "at_state j = STATE_RUNNING" and "time_remain j = 0"
    and "kernel_ticks sigs < 2 ^ 32"
  shows "calls_of i (at_signals sigs m) = calls_of i m"
proof -
  have gen: "calls_of i (at_signals sigs m) = calls_of i m"
    if "job_in i m j" "at_state j = STATE_RUNNING" "time_remain j = c_int (- int k)" "k + kernel_ticks sigs < 2 ^ 32" for k sigs m j
    using that
  proof (induction sigs arbitrary: m j k)
    case (Cons c sigs)
    show ?case
    proof (cases "c = SI_KERNEL")
      case True
      have e: "c_int (time_remain j - 1) = c_int (- int (Suc k))"
        using Cons.prems(3) by (simp add: c_int_def mod_simps algebra_simps)
      have nz: "c_int (- int (Suc k)) \<noteq> 0"
      proof
        assume "c_int (- int (Suc k)) = 0"
        then have "(2147483648 - int (Suc k)) mod 4294967296 = 2147483648" by (simp add: c_int_def)
        then have "(2147483648 - int (Suc k) - 2147483648) mod 4294967296 = 0" by (metis mod_diff_left_eq diff_self mod_0)
        moreover have "2147483648 - int (Suc k) - 2147483648 = - int (Suc k)" by simp
        ultimately have "4294967296 dvd int (Suc k)" by (metis dvd_minus_iff mod_eq_0_iff_dvd)
        then have "4294967296 \<le> int (Suc k)" by (rule zdvd_imp_le) simp
        with Cons.prems(4) True show False by simp
      qed
      let ?j = "j\<lparr>time_remain := c_int (- int (Suc k))\<rparr>"
      have "at_tick i j = (?j, [])" using Cons.prems(2) e nz by (simp add: at_tick_def Let_def)
      with job_in_tick [OF Cons.prems(1)] Cons.IH [of "at_alrm_action SI_KERNEL m" ?j "Suc k"] Cons.prems(2,4) True
      show ?thesis by simp
    qed (use Cons in simp)
  qed simp
  have "c_int (- int 0) = 0" by (simp add: c_int_def)
  with gen [of m j 0 sigs] assms show ?thesis by simp
qed

theorem at_zero_seconds_never_fires_witness:
  "calls_of 3 (at_signals (replicate 1000000 SI_KERNEL) (ex_at (ex_job 0 0))) = []"
  using at_zero_seconds_never_fires [of 3 "ex_at (ex_job 0 0)" "ex_job 0 0" "replicate 1000000 SI_KERNEL"]
  by (simp add: ex_job_def)

text \<open>A job that \<open>at_addjob\<close> accepts is in the slot it returns.\<close>

lemma at_addjob_stores:
  assumes "at_addjob fails mal sc f a m = Ret jd m1" "0 \<le> jd"
  shows "0 \<le> sc \<and> job_in (nat jd) m1 \<lparr>at_state = STATE_RUNNING, sec = sc, time_remain = sc, jobp = f, arg = a, repeat = 0\<rparr>"
proof -
  let ?load = "if \<not> initied m then bind_outcome (at_module_load (fst fails) (snd fails) m) (\<lambda>_ m1. Ret () (m1\<lparr>initied := True\<rparr>)) else Ret () m"
  have sc: "0 \<le> sc" using assms by (auto simp: at_addjob_def EINVAL_def split: if_splits)
  then obtain m2 where m2: "?load = Ret () m2" using assms(1) by (cases ?load) (auto simp: at_addjob_def)
  have e: "0 \<le> at_get_free_pos m2" "jd = at_get_free_pos m2"
    "m1 = m2\<lparr>at_job := (at_job m2)[nat jd := Some \<lparr>at_state = STATE_RUNNING, sec = sc, time_remain = sc, jobp = f, arg = a, repeat = 0\<rparr>]\<rparr>"
    using assms sc m2 by (auto simp: at_addjob_def Let_def ENOSPC_def ENOMEM_def split: if_splits)
  then have "None \<in> set (at_job m2)" using scan_slots_neg_iff [of "at_job m2"] by (auto simp: at_get_free_pos_def)
  with e sc scan_slots_nat [of "at_job m2"] show ?thesis by (simp add: job_in_def at_get_free_pos_def)
qed

text \<open>
  C6: When a job added with \<open>at_addjob\<close> is called. If \<open>at_addjob\<close> has returned a slot, and as long as the job is not cancelled: with a time \<open>sec\<close> of at least one
  second the job is called exactly once, at the moment its time has elapsed: after \<open>n\<close> ticks of the timer (signals from elsewhere do not count) it has not been
  called if \<open>n < sec\<close> and still runs with \<open>sec - n\<close> seconds to go; otherwise it has been called once, with its argument, and is over. With a time of 0
  seconds, which \<open>at_addjob\<close> accepts too, the job is not called during the next \<open>2^32 - 1\<close> ticks.
\<close>

theorem at_oneshot_fires_once:
  assumes "at_addjob fails mal sc f a m = Ret jd m1" and "0 \<le> jd" and "sc \<le> INT_MAX"
  shows "if sc = 0 then kernel_ticks sigs < 2 ^ 32 \<longrightarrow> calls_of (nat jd) (at_signals sigs m1) = calls_of (nat jd) m1
    else \<exists>j'. job_in (nat jd) (at_signals sigs m1) j' \<and>
      (if int (kernel_ticks sigs) < sc
       then at_state j' = STATE_RUNNING \<and> time_remain j' = sc - int (kernel_ticks sigs) \<and> calls_of (nat jd) (at_signals sigs m1) = calls_of (nat jd) m1
       else at_state j' = STATE_OVER \<and> calls_of (nat jd) (at_signals sigs m1) = calls_of (nat jd) m1 @ [(nat jd, f, a)])"
proof -
  note j = at_addjob_stores [OF assms(1,2)]
  let ?j = "\<lparr>at_state = STATE_RUNNING, sec = sc, time_remain = sc, jobp = f, arg = a, repeat = 0\<rparr>"
  show ?thesis
  proof (cases "sc = 0")
    case True
    with j at_zero_seconds_never_fires [of "nat jd" m1 ?j sigs] show ?thesis by simp
  next
    case False
    with j assms(3) at_oneshot_run [of "nat jd" m1 ?j sigs] show ?thesis by auto
  qed
qed

theorem at_oneshot_fires_once_witness:
  "\<exists>m1. at_addjob (False, False) True 2 ''f'' ''x'' (at_start \<lparr>sa_sigaction = SIG_DFL, sa_siginfo = False\<rparr>) = Ret 0 m1 \<and>
    calls_of 0 (at_signals [SI_KERNEL, SI_USER, SI_KERNEL] m1) = calls_of 0 m1 @ [(0, ''f'', ''x'')]"
proof -
  let ?m = "at_start \<lparr>sa_sigaction = SIG_DFL, sa_siginfo = False\<rparr>"
  have "\<exists>m1. at_addjob (False, False) True 2 ''f'' ''x'' ?m = Ret 0 m1"
    by (simp add: at_addjob_def at_module_load_def at_start_def at_get_free_pos_def scan_slots_replicate JOB_MAX_def Let_def)
  then obtain m1 where m1: "at_addjob (False, False) True 2 ''f'' ''x'' ?m = Ret 0 m1" by blast
  with at_oneshot_fires_once [OF m1, of "[SI_KERNEL, SI_USER, SI_KERNEL]"] show ?thesis by (auto simp: INT_MAX_def)
qed

section \<open>The interface\<close>

definition at_ok :: "at_module \<Rightarrow> bool" where
  "at_ok m \<longleftrightarrow> length (at_job m) = JOB_MAX"

interpretation at_slots: slot_table at_ok at_job JOB_MAX at_get_free_pos
  "\<lambda>i j m. m\<lparr>at_job := (at_job m)[i := Some j]\<rparr>" "\<lambda>i m. m\<lparr>at_job := (at_job m)[i := None]\<rparr>"
  by unfold_locales (simp_all add: at_ok_def at_get_free_pos_def)

lemma at_wait_run:
  assumes "job_in i m j" "repeat j \<noteq> 1" "at_state j = STATE_RUNNING \<Longrightarrow> 0 < time_remain j \<and> time_remain j \<le> INT_MAX"
  shows "if at_state j = STATE_RUNNING \<and> int (kernel_ticks sigs) < time_remain j
    then at_wait sigs i m = Blocked (at_signals sigs m)
    else \<exists>pre j'. prefix pre sigs \<and> at_wait sigs i m = Ret () (at_signals pre m) \<and> job_in i (at_signals pre m) j' \<and> at_state j' \<noteq> STATE_RUNNING"
  using assms
proof (induction sigs arbitrary: m j)
  case Nil
  then show ?case by (auto simp: at_wait.simps [of "[]"] job_in_def)
next
  case (Cons c sigs)
  let ?m = "at_alrm_action c m"
  show ?case
  proof (cases "at_state j = STATE_RUNNING")
    case False
    with Cons.prems(1) have "at_wait (c # sigs) i m = Ret () (at_signals [] m)"
      by (simp add: at_wait.simps [of "c # sigs"] job_in_def)
    with False Cons.prems(1) show ?thesis by (simp, intro exI [of _ "[]"]) auto
  next
    case run: True
    have w: "at_wait (c # sigs) i m = at_wait sigs i ?m"
      using run Cons.prems(1) by (simp add: at_wait.simps [of "c # sigs"] job_in_def)
    have lift: "\<exists>pre j'. prefix pre (c # sigs) \<and> at_wait (c # sigs) i m = Ret () (at_signals pre m) \<and>
        job_in i (at_signals pre m) j' \<and> at_state j' \<noteq> STATE_RUNNING"
      if "\<exists>pre j'. prefix pre sigs \<and> at_wait sigs i ?m = Ret () (at_signals pre ?m) \<and> job_in i (at_signals pre ?m) j' \<and> at_state j' \<noteq> STATE_RUNNING"
    proof -
      from that obtain pre j' where "prefix pre sigs" "at_wait sigs i ?m = Ret () (at_signals pre ?m)"
        "job_in i (at_signals pre ?m) j'" "at_state j' \<noteq> STATE_RUNNING" by blast
      then show ?thesis using w by (intro exI [of _ "c # pre"] exI [of _ j']) simp
    qed
    show ?thesis
    proof (cases "c = SI_KERNEL")
      case False
      with Cons.IH [OF Cons.prems(1-3)] w lift show ?thesis by (auto split: if_splits)
    next
      case True
      define k where "k = fst (at_tick i j)"
      have ci: "c_int (time_remain j - 1) = time_remain j - 1"
        using Cons.prems(3) [OF run] by (intro c_int_id) (simp_all add: INT_MIN_def)
      have k: "job_in i ?m k" using job_in_tick(1) [OF Cons.prems(1)] True by (simp add: k_def)
      have k2: "k = (if time_remain j = 1 then j\<lparr>time_remain := 0, at_state := STATE_OVER\<rparr> else j\<lparr>time_remain := time_remain j - 1\<rparr>)"
        using run ci Cons.prems(2) by (simp add: k_def at_tick_def Let_def)
      have "repeat k \<noteq> 1" "at_state k = STATE_RUNNING \<Longrightarrow> 0 < time_remain k \<and> time_remain k \<le> INT_MAX"
        using k2 Cons.prems(2,3) run by (auto split: if_splits)
      from Cons.IH [OF k this] k2 run True w lift Cons.prems(3) [OF run] show ?thesis by (auto split: if_splits)
    qed
  qed
qed


lemma at_lookup_job: "at_ok m \<Longrightarrow> i < JOB_MAX \<Longrightarrow> at_lookup (int i) m = at_job m ! i"
  by (simp add: at_lookup_def)

text \<open>
  \<open>at_waitjob\<close> on a one-shot job with \<open>r\<close> seconds to go blocks as long as fewer than \<open>r\<close> ticks
  have come; with enough of them it returns 0, the job is no longer in the table and its slot is
  free. (Ticks may be mixed with signals from elsewhere.)
\<close>

theorem at_waitjob_reaps:
  assumes "at_ok m" and "i < JOB_MAX" and "at_job m ! i = Some j" and "at_state j = STATE_RUNNING" and "repeat j \<noteq> 1"
    and "0 < time_remain j" and "time_remain j \<le> INT_MAX"
  shows "if int (kernel_ticks sigs) < time_remain j then \<exists>m'. at_waitjob sigs (int i) m = Blocked m'
    else \<exists>m'. at_waitjob sigs (int i) m = Ret 0 m' \<and> at_job m' ! i = None \<and> at_ok m' \<and>
      calls_of i m' = calls_of i m @ [(i, jobp j, arg j)]"
proof -
  have ji: "job_in i m j" using assms(1-3) by (simp add: job_in_def at_ok_def)
  have len: "length (at_job (at_signals s m)) = JOB_MAX" for s
    using assms(1) by (induction s arbitrary: m) (simp_all add: at_ok_def)
  have w: "at_waitjob sigs (int i) m = bind_outcome (at_wait sigs i m) (\<lambda>_ m1.
      case at_job m1 ! i of None \<Rightarrow> Undef m1
      | Some j1 \<Rightarrow> Ret 0 (if at_state j1 = STATE_CANCELED \<or> at_state j1 = STATE_OVER
          then m1\<lparr>at_job := (at_job m1)[i := None]\<rparr> else m1))"
    using assms(3,5) at_lookup_job [OF assms(1,2)] unfolding at_waitjob_def nat_int by simp
  note run = at_wait_run [OF ji assms(5), of sigs]
  show ?thesis
  proof (cases "int (kernel_ticks sigs) < time_remain j")
    case True
    with run w assms(4,6,7) show ?thesis by simp
  next
    case False
    with run assms(4,6,7) obtain pre k where p: "at_wait sigs i m = Ret () (at_signals pre m)"
      "job_in i (at_signals pre m) k" "at_state k \<noteq> STATE_RUNNING" by auto
    from at_oneshot_pre [OF ji assms(4-7) p(2,3)] have "at_state k = STATE_OVER"
      "calls_of i (at_signals pre m) = calls_of i m @ [(i, jobp j, arg j)]" by auto
    with False w p len [of pre] assms(2) show ?thesis
      by (auto simp: job_in_def at_ok_def calls_of_def)
  qed
qed


lemma ex_at_ok: "at_ok (ex_at j)" "at_job (ex_at j) ! 3 = Some j"
  by (simp_all add: ex_at_def at_ok_def JOB_MAX_def)

theorem at_waitjob_reaps_witness:
  "\<exists>m'. at_waitjob [SI_KERNEL, SI_KERNEL, SI_KERNEL] 3 (ex_at (ex_job 2 0)) = Ret 0 m' \<and> at_job m' ! 3 = None \<and>
    at_ok m' \<and> calls_of 3 m' = [(3, ''f'', ''x'')]"
  using at_waitjob_reaps [of "ex_at (ex_job 2 0)" 3 "ex_job 2 0" "[SI_KERNEL, SI_KERNEL, SI_KERNEL]"] ex_at_ok [of "ex_job 2 0"]
  by (simp add: ex_job_def INT_MAX_def JOB_MAX_def)

text \<open>The module is loaded, or can be.\<close>

definition at_loads :: "bool \<times> bool \<Rightarrow> at_module \<Rightarrow> bool" where
  "at_loads fails m \<longleftrightarrow> initied m \<or> fails = (False, False)"

lemma at_load_spec:
  assumes "at_loads fails m"
  obtains m1 where "(if \<not> initied m then
      bind_outcome (at_module_load (fst fails) (snd fails) m) (\<lambda>_ m1. Ret () (m1\<lparr>initied := True\<rparr>))
    else Ret () m) = Ret () m1" "at_job m1 = at_job m" "calls m1 = calls m" "initied m1"
  using assms by (cases "initied m") (auto simp: at_loads_def at_module_load_def Let_def)

text \<open>
  \<open>at_addjob\<close> and \<open>at_addjob_repeat\<close> store the new job in the first free slot, change no other
  slot and return its index; with a full table they return \<open>-ENOSPC\<close> and change nothing in it.
\<close>

theorem at_addjob_first_free:
  assumes "at_ok m" and "0 \<le> sc" and "at_loads fails m"
  shows "(\<exists>m'. if None \<in> set (at_job m)
    then \<exists>i < JOB_MAX. at_addjob fails True sc f a m = Ret (int i) m' \<and> at_job m ! i = None \<and>
      None \<notin> set (take i (at_job m)) \<and> used (at_job m') = Suc (used (at_job m)) \<and>
      at_job m' = (at_job m)[i := Some \<lparr>at_state = STATE_RUNNING, sec = sc, time_remain = sc, jobp = f, arg = a, repeat = 0\<rparr>]
    else at_addjob fails True sc f a m = Ret (- ENOSPC) m' \<and> at_job m' = at_job m) \<and>
    (\<exists>m'. if None \<in> set (at_job m)
    then \<exists>i < JOB_MAX. at_addjob_repeat fails True sc f a m = Ret (int i) m' \<and> at_job m ! i = None \<and>
      None \<notin> set (take i (at_job m)) \<and> used (at_job m') = Suc (used (at_job m)) \<and>
      at_job m' = (at_job m)[i := Some \<lparr>at_state = STATE_RUNNING, sec = sc, time_remain = sc, jobp = f, arg = a, repeat = 1\<rparr>]
    else at_addjob_repeat fails True sc f a m = Ret (- ENOSPC) m' \<and> at_job m' = at_job m)"
proof -
  obtain m1 where m1: "(if \<not> initied m then
      bind_outcome (at_module_load (fst fails) (snd fails) m) (\<lambda>_ m1. Ret () (m1\<lparr>initied := True\<rparr>))
    else Ret () m) = Ret () m1" "at_job m1 = at_job m" by (rule at_load_spec [OF assms(3)])
  have ok1: "at_ok m1" using assms(1) m1(2) by (simp add: at_ok_def)
  show ?thesis
  proof (cases rule: scan_slots_cases [of "at_job m"])
    case full
    then show ?thesis using assms(2) m1 by (simp add: at_addjob_def at_addjob_repeat_def at_get_free_pos_def Let_def)
  next
    case (free k)
    then have "None \<in> set (at_job m)" "k < JOB_MAX" using assms(1) nth_mem [OF free(1)] by (auto simp: at_ok_def)
    moreover have "at_get_free_pos m1 = int k" using free(2) m1(2) by (simp add: at_get_free_pos_def)
    moreover from this have "used ((at_job m)[k := Some j]) = Suc (used (at_job m))" for j
      using at_slots.occupy_used [OF ok1, of j] m1(2) by simp
    ultimately show ?thesis
      using free(3,4) assms(2) m1 by (auto simp: at_addjob_def at_addjob_repeat_def Let_def)
  qed
qed

theorem at_addjob_first_free_witness:
  "\<exists>m'. at_addjob (True, True) True 5 ''g'' ''y'' (ex_at (ex_job 2 0)) = Ret 0 m' \<and>
    at_job m' = (at_job (ex_at (ex_job 2 0)))[0 := Some \<lparr>at_state = STATE_RUNNING, sec = 5, time_remain = 5, jobp = ''g'', arg = ''y'', repeat = 0\<rparr>]"
proof -
  have h: "at_job (ex_at (ex_job 2 0)) ! 0 = None" "length (at_job (ex_at (ex_job 2 0))) = 1024"
    by (simp_all add: ex_at_def JOB_MAX_def)
  then have n: "None \<in> set (at_job (ex_at (ex_job 2 0)))" using nth_mem [of 0 "at_job (ex_at (ex_job 2 0))"] by simp
  have "i = 0" if "None \<notin> set (take i (at_job (ex_at (ex_job 2 0))))" for i
  proof (rule ccontr)
    assume "i \<noteq> 0"
    then have "take i (at_job (ex_at (ex_job 2 0))) ! 0 = None" "0 < length (take i (at_job (ex_at (ex_job 2 0))))"
      using h by simp_all
    with that show False by (metis nth_mem)
  qed
  with at_addjob_first_free [of "ex_at (ex_job 2 0)" 5 "(True, True)" "''g''" "''y''"] n ex_at_ok [of "ex_job 2 0"]
  show ?thesis by (fastforce simp: at_loads_def ex_at_def)
qed

section \<open>Cancelled periodic jobs\<close>

text \<open>The state in which a call leaves the module, whatever its outcome.\<close>

fun outcome_state :: "('a, 'w) outcome \<Rightarrow> 'w" where
  "outcome_state (Ret a w) = w"
| "outcome_state (Exit c w) = w"
| "outcome_state (Abort w) = w"
| "outcome_state (Blocked w) = w"
| "outcome_state (OutOfFuel w) = w"
| "outcome_state (Undef w) = w"

datatype at_op =
    OpAdd "bool \<times> bool" bool int string string
  | OpAddRepeat "bool \<times> bool" bool int string string
  | OpCancel int
  | OpWait "si_code list" int
  | OpSignals "si_code list"

fun at_exec :: "at_op \<Rightarrow> at_module \<Rightarrow> at_module" where
  "at_exec (OpAdd fails mal sc f a) m = outcome_state (at_addjob fails mal sc f a m)"
| "at_exec (OpAddRepeat fails mal sc f a) m = outcome_state (at_addjob_repeat fails mal sc f a m)"
| "at_exec (OpCancel jid) m = snd (at_canceljob jid m)"
| "at_exec (OpWait sigs jid) m = outcome_state (at_waitjob sigs jid m)"
| "at_exec (OpSignals sigs) m = at_signals sigs m"

definition dead_repeat :: "at_job_st \<Rightarrow> bool" where
  "dead_repeat j \<longleftrightarrow> at_state j = STATE_CANCELED \<and> repeat j = 1"

text \<open>A new job goes elsewhere.\<close>

lemma job_in_add:
  assumes "job_in i m j" "at_job m1 = at_job m"
  shows "job_in i (m1\<lparr>at_job := (at_job m1)[nat (at_get_free_pos m1) := Some k]\<rparr>) j \<or> at_get_free_pos m1 < 0"
proof (cases "at_get_free_pos m1 < 0")
  case False
  then have "nat (at_get_free_pos m1) \<noteq> i"
    using assms scan_slots_nat [of "at_job m"] scan_slots_neg_iff [of "at_job m"]
    by (auto simp: job_in_def at_get_free_pos_def)
  with assms show ?thesis by (simp add: job_in_def)
qed simp

lemma job_in_load:
  "outcome_state (if \<not> initied m then
      bind_outcome (at_module_load s t m) (\<lambda>_ m1. Ret () (m1\<lparr>initied := True\<rparr>)) else Ret () m) = m1 \<Longrightarrow> at_job m1 = at_job m"
  by (auto simp: at_module_load_def Let_def split: if_splits)

lemma at_add_length:
  "length (at_job (outcome_state (at_addjob fails mal sc f a m))) = length (at_job m)"
  "length (at_job (outcome_state (at_addjob_repeat fails mal sc f a m))) = length (at_job m)"
proof -
  obtain r where r: "(if \<not> initied m then bind_outcome (at_module_load (fst fails) (snd fails) m) (\<lambda>_ m1. Ret () (m1\<lparr>initied := True\<rparr>))
      else Ret () m) = r" by blast
  have e: "at_job (outcome_state r) = at_job m" using job_in_load [of m "fst fails" "snd fails"] r by blast
  then show "length (at_job (outcome_state (at_addjob fails mal sc f a m))) = length (at_job m)"
    "length (at_job (outcome_state (at_addjob_repeat fails mal sc f a m))) = length (at_job m)"
    by (cases r; simp add: at_addjob_def at_addjob_repeat_def r Let_def)+
qed

lemma job_in_addjob:
  assumes "job_in i m j"
  shows "job_in i (outcome_state (at_addjob fails mal sc f a m)) j"
    and "job_in i (outcome_state (at_addjob_repeat fails mal sc f a m)) j"
proof -
  obtain r where r: "(if \<not> initied m then bind_outcome (at_module_load (fst fails) (snd fails) m) (\<lambda>_ m1. Ret () (m1\<lparr>initied := True\<rparr>))
      else Ret () m) = r" by blast
  have e: "at_job (outcome_state r) = at_job m" using job_in_load [of m "fst fails" "snd fails"] r by blast
  have k: "job_in i (outcome_state r) j" using assms e by (simp add: job_in_def)
  show "job_in i (outcome_state (at_addjob fails mal sc f a m)) j"
    using assms k job_in_add [OF assms e] by (cases r) (auto simp: at_addjob_def r Let_def)
  show "job_in i (outcome_state (at_addjob_repeat fails mal sc f a m)) j"
    using assms k job_in_add [OF assms e] by (cases r) (auto simp: at_addjob_repeat_def r Let_def)
qed


lemma at_wait_state: "\<exists>pre. outcome_state (at_wait sigs k m) = at_signals pre m"
proof (induction sigs arbitrary: m)
  case Nil
  show ?case by (intro exI [of _ "[]"]) (simp add: at_wait.simps [of "[]"] split: option.split)
next
  case (Cons c sigs)
  show ?case
  proof (cases "\<exists>j. at_job m ! k = Some j \<and> at_state j = STATE_RUNNING")
    case True
    then have "at_wait (c # sigs) k m = at_wait sigs k (at_alrm_action c m)" by (auto simp: at_wait.simps [of "c # sigs"])
    moreover obtain pre where "outcome_state (at_wait sigs k (at_alrm_action c m)) = at_signals pre (at_alrm_action c m)"
      using Cons.IH by blast
    ultimately show ?thesis by (intro exI [of _ "c # pre"]) simp
  next
    case False
    then show ?thesis by (intro exI [of _ "[]"]) (auto simp: at_wait.simps [of "c # sigs"] split: option.split)
  qed
qed

lemma dead_repeat_wait:
  assumes "at_ok m" "job_in i m j" "dead_repeat j"
  shows "job_in i (outcome_state (at_waitjob sigs jid m)) j"
proof (cases "at_lookup jid m")
  case None
  with assms show ?thesis by (simp add: at_waitjob_def)
next
  case (Some k)
  show ?thesis
  proof (cases "repeat k = 1")
    case True
    with Some assms show ?thesis by (simp add: at_waitjob_def)
  next
    case False
    have "nat jid \<noteq> i" using Some False assms by (auto simp: at_lookup_def job_in_def dead_repeat_def split: if_splits)
    moreover obtain pre where "outcome_state (at_wait sigs (nat jid) m) = at_signals pre m" using at_wait_state by blast
    moreover have "job_in i (at_signals pre m) j" using at_idle [OF assms(2)] assms(3) by (simp add: dead_repeat_def)
    ultimately show ?thesis using Some False
      by (cases "at_wait sigs (nat jid) m") (auto simp: at_waitjob_def job_in_def split: option.split)
  qed
qed

lemma dead_repeat_exec:
  assumes "at_ok m" "job_in i m j" "dead_repeat j"
  shows "job_in i (at_exec op m) j \<and> at_ok (at_exec op m)"
proof
  show "job_in i (at_exec op m) j"
  proof (cases op)
    case (OpCancel jid)
    with assms show ?thesis
      by (cases "nat jid = i") (auto simp: at_canceljob_def at_lookup_def job_in_def dead_repeat_def split: option.split)
  next
    case (OpSignals sigs)
    with assms at_idle [of i m j sigs] show ?thesis by (simp add: dead_repeat_def)
  qed (use assms dead_repeat_wait job_in_addjob in simp_all)
  have sig: "length (at_job (at_signals sigs n)) = length (at_job n)" for sigs n by (induction sigs arbitrary: n) simp_all
  show "at_ok (at_exec op m)"
  proof (cases op)
    case (OpWait sigs jid)
    moreover obtain pre where "outcome_state (at_wait sigs (nat jid) m) = at_signals pre m" using at_wait_state by blast
    ultimately show ?thesis using assms(1) sig
      by (cases "at_wait sigs (nat jid) m") (auto simp: at_waitjob_def at_ok_def split: option.split)
  qed (use assms(1) sig at_add_length in \<open>auto simp: at_ok_def at_canceljob_def split: option.split\<close>)
qed

text \<open>
  A cancelled periodic job can never be taken out of the table: whatever calls and signals
  follow, the job stays in its slot, its function is not called, \<open>at_waitjob\<close> refuses it with
  \<open>-EBUSY\<close> and \<open>at_canceljob\<close> with \<open>-ECANCELED\<close>.
\<close>

theorem at_cancelled_repeat_leaks:
  assumes "at_ok m" and "job_in i m j" and "at_state j = STATE_RUNNING" and "repeat j = 1"
  shows "\<exists>m1. at_canceljob (int i) m = (0, m1) \<and>
    (let m2 = fold at_exec ops m1
     in job_in i m2 (j\<lparr>at_state := STATE_CANCELED\<rparr>) \<and> at_waitjob sigs (int i) m2 = Ret (- EBUSY) m2 \<and>
        at_canceljob (int i) m2 = (- ECANCELED, m2))"
proof -
  let ?j = "j\<lparr>at_state := STATE_CANCELED\<rparr>"
  let ?m1 = "m\<lparr>at_job := (at_job m)[i := Some ?j]\<rparr>"
  have i: "i < JOB_MAX" using assms(1,2) by (simp add: at_ok_def job_in_def)
  have c: "at_canceljob (int i) m = (0, ?m1)"
    using assms i by (simp add: at_canceljob_def at_lookup_def job_in_def)
  have "at_ok ?m1" "job_in i ?m1 ?j" using assms(1,2) by (simp_all add: at_ok_def job_in_def)
  moreover have d: "dead_repeat ?j" using assms(4) by (simp add: dead_repeat_def)
  moreover have "at_ok n \<Longrightarrow> job_in i n ?j \<Longrightarrow> job_in i (fold at_exec ops n) ?j" for n
    by (induction ops arbitrary: n) (auto simp: dead_repeat_exec [OF _ _ d])
  ultimately have "job_in i (fold at_exec ops ?m1) ?j" by blast
  with c d i assms(4) show ?thesis
    by (auto simp: Let_def at_waitjob_def at_canceljob_def at_lookup_def job_in_def dead_repeat_def)
qed

theorem at_cancelled_repeat_leaks_witness:
  "\<exists>m1. at_canceljob 3 (ex_at (ex_job 2 1)) = (0, m1) \<and>
    (let m2 = fold at_exec [OpWait [SI_KERNEL] 3, OpAdd (False, False) True 4 ''g'' [], OpSignals [SI_KERNEL]] m1
     in job_in 3 m2 ((ex_job 2 1)\<lparr>at_state := STATE_CANCELED\<rparr>) \<and> at_waitjob [] 3 m2 = Ret (- EBUSY) m2 \<and>
        at_canceljob 3 m2 = (- ECANCELED, m2))"
  using at_cancelled_repeat_leaks [of "ex_at (ex_job 2 1)" 3 "ex_job 2 1"
      "[OpWait [SI_KERNEL] 3, OpAdd (False, False) True 4 ''g'' [], OpSignals [SI_KERNEL]]" "[]"] ex_at_ok [of "ex_job 2 1"]
  by (simp add: ex_job_def)

end
