(* ===== verification/Monitor.thy ===== *)
theory Monitor
  imports Prelude
begin

text \<open>
  Threads that share an object with one mutex and one condition variable, the pattern of
  \<open>mysem.c\<close>, \<open>mypipe.c\<close> and the producer and consumer programs: a call locks the mutex, waits in a loop
  on the condition variable while its guard fails, changes the object, may broadcast, and unlocks.
  What happens under the mutex between two waits is one section.
\<close>

section \<open>Sections and threads\<close>

text \<open>
  A section ends in \<open>pthread_cond_wait\<close>, or leaves with the call's result; the flag says whether it
  called \<open>pthread_cond_broadcast\<close>.
\<close>

datatype ('r, 's) sect = Sleep 's | Leave 'r 's bool

text \<open>A thread before its call, asleep in the wait, woken but without the mutex, or returned.\<close>

datatype ('c, 'r) thr = Start 'c | Sleeping 'c | Woken 'c | Finished 'r

fun wake_one :: "('c, 'r) thr \<Rightarrow> ('c, 'r) thr" where
  "wake_one (Sleeping c) = Woken c"
| "wake_one t = t"

definition wake :: "bool \<Rightarrow> ('c, 'r) thr list \<Rightarrow> ('c, 'r) thr list" where
  "wake b ts = (if b then map wake_one ts else ts)"

text \<open>
  One thread runs one section: \<open>sec True\<close> from the start of the call, \<open>sec False\<close> from the return of
  the wait. The order in which threads get the mutex is arbitrary.
\<close>

inductive mon_step :: "(bool \<Rightarrow> 'c \<Rightarrow> 's \<Rightarrow> ('r, 's) sect) \<Rightarrow> 's \<times> ('c, 'r) thr list \<Rightarrow> 's \<times> ('c, 'r) thr list \<Rightarrow> bool"
  for sec where
  start_sleep: "i < length ts \<Longrightarrow> ts ! i = Start c \<Longrightarrow> sec True c s = Sleep s' \<Longrightarrow>
    mon_step sec (s, ts) (s', ts[i := Sleeping c])"
| start_leave: "i < length ts \<Longrightarrow> ts ! i = Start c \<Longrightarrow> sec True c s = Leave r s' b \<Longrightarrow>
    mon_step sec (s, ts) (s', wake b (ts[i := Finished r]))"
| woken_sleep: "i < length ts \<Longrightarrow> ts ! i = Woken c \<Longrightarrow> sec False c s = Sleep s' \<Longrightarrow>
    mon_step sec (s, ts) (s', ts[i := Sleeping c])"
| woken_leave: "i < length ts \<Longrightarrow> ts ! i = Woken c \<Longrightarrow> sec False c s = Leave r s' b \<Longrightarrow>
    mon_step sec (s, ts) (s', wake b (ts[i := Finished r]))"

inductive_cases mon_stepE: "mon_step sec (s, ts) st"

definition mon_reach :: "(bool \<Rightarrow> 'c \<Rightarrow> 's \<Rightarrow> ('r, 's) sect) \<Rightarrow> 's \<times> ('c, 'r) thr list \<Rightarrow> 's \<times> ('c, 'r) thr list \<Rightarrow> bool" where
  "mon_reach sec = (mon_step sec)\<^sup>*\<^sup>*"

lemma mon_reach_refl: "mon_reach sec st st"
  by (simp add: mon_reach_def)

lemma mon_reach_step: "mon_step sec st st1 \<Longrightarrow> mon_reach sec st1 st2 \<Longrightarrow> mon_reach sec st st2"
  unfolding mon_reach_def by (rule converse_rtranclp_into_rtranclp)

definition blocked :: "(bool \<Rightarrow> 'c \<Rightarrow> 's \<Rightarrow> ('r, 's) sect) \<Rightarrow> 'c \<Rightarrow> 's \<Rightarrow> bool" where
  "blocked sec c s \<longleftrightarrow> (\<exists>s'. sec False c s = Sleep s')"

lemma wake_one_cases: "wake_one u = u \<and> (\<forall>c. u \<noteq> Sleeping c) \<or> (\<exists>c. u = Sleeping c \<and> wake_one u = Woken c)"
  by (cases u) simp_all

lemma set_wake:
  assumes "t \<in> set (wake b ts)"
  obtains u where "u \<in> set ts" "t = u \<and> (b \<longrightarrow> (\<forall>c. t \<noteq> Sleeping c)) \<or> (\<exists>c. u = Sleeping c \<and> t = Woken c)"
proof (cases b)
  case True
  with assms obtain u where "u \<in> set ts" "t = wake_one u" by (auto simp: wake_def)
  with wake_one_cases [of u] show thesis by (intro that [of u]) auto
next
  case False
  with assms show thesis by (intro that [of t]) (simp_all add: wake_def)
qed

section \<open>The contract of a well-written monitor\<close>

text \<open>
  A section that does not broadcast must not make any other thread's guard true; this is what the
  client relies on for liveness.
\<close>

locale monitor =
  fixes sec :: "bool \<Rightarrow> 'c \<Rightarrow> 's \<Rightarrow> ('r, 's) sect"
    and inv :: "'s \<Rightarrow> bool"
    and ok :: "'c \<Rightarrow> bool"
  assumes inv_sleep: "inv s \<Longrightarrow> ok c \<Longrightarrow> sec f c s = Sleep s' \<Longrightarrow> inv s'"
    and inv_leave: "inv s \<Longrightarrow> ok c \<Longrightarrow> sec f c s = Leave r s' b \<Longrightarrow> inv s'"
    and sleep_blocked: "inv s \<Longrightarrow> ok c \<Longrightarrow> sec f c s = Sleep s' \<Longrightarrow> blocked sec c s'"
    and sleep_silent: "inv s \<Longrightarrow> ok c \<Longrightarrow> ok d \<Longrightarrow> sec f c s = Sleep s' \<Longrightarrow> blocked sec d s \<Longrightarrow> blocked sec d s'"
    and leave_silent: "inv s \<Longrightarrow> ok c \<Longrightarrow> ok d \<Longrightarrow> sec f c s = Leave r s' False \<Longrightarrow> blocked sec d s \<Longrightarrow> blocked sec d s'"
begin

fun thr_ok :: "'s \<Rightarrow> ('c, 'r) thr \<Rightarrow> bool" where
  "thr_ok s (Start c) = ok c"
| "thr_ok s (Sleeping c) = (ok c \<and> blocked sec c s)"
| "thr_ok s (Woken c) = ok c"
| "thr_ok s (Finished r) = True"

definition good :: "'s \<times> ('c, 'r) thr list \<Rightarrow> bool" where
  "good st \<longleftrightarrow> inv (fst st) \<and> (\<forall>t \<in> set (snd st). thr_ok (fst st) t)"

lemma good_sleep:
  assumes "good (s, ts)" "ok c" "sec f c s = Sleep s'"
  shows "good (s', ts[i := Sleeping c])"
proof -
  have "thr_ok s' t" if "t \<in> set ts" for t
    using assms that sleep_silent by (cases t) (auto simp: good_def)
  with assms inv_sleep sleep_blocked show ?thesis
    by (auto simp: good_def dest!: set_update_subset_insert [THEN subsetD])
qed

lemma good_leave:
  assumes "good (s, ts)" "ok c" "sec f c s = Leave r s' b"
  shows "good (s', wake b (ts[i := Finished r]))"
proof -
  have "thr_ok s' t" if t: "t \<in> set (wake b (ts[i := Finished r]))" for t
  proof -
    obtain u where u: "u \<in> set (ts[i := Finished r])" "t = u \<and> (b \<longrightarrow> (\<forall>c. t \<noteq> Sleeping c)) \<or> (\<exists>c. u = Sleeping c \<and> t = Woken c)"
      by (rule set_wake [OF t])
    from u(1) have "u \<in> set ts \<or> u = Finished r" by (auto dest!: set_update_subset_insert [THEN subsetD])
    with assms(1) have v: "thr_ok s u" by (auto simp: good_def)
    show ?thesis
    proof (cases b)
      case True
      with u(2) v show ?thesis by (cases t) auto
    next
      case False
      with assms leave_silent [OF _ assms(2)] u(2) v show ?thesis by (cases t) (auto simp: good_def)
    qed
  qed
  with assms inv_leave show ?thesis by (auto simp: good_def)
qed

lemma good_step: "mon_step sec st st' \<Longrightarrow> good st \<Longrightarrow> good st'"
proof (induction rule: mon_step.induct)
  case (start_sleep i ts c s s')
  then show ?case using nth_mem [of i ts] by (intro good_sleep) (auto simp: good_def)
next
  case (start_leave i ts c s r s' b)
  then show ?case using nth_mem [of i ts] by (intro good_leave) (auto simp: good_def)
next
  case (woken_sleep i ts c s s')
  then show ?case using nth_mem [of i ts] by (intro good_sleep) (auto simp: good_def)
next
  case (woken_leave i ts c s r s' b)
  then show ?case using nth_mem [of i ts] by (intro good_leave) (auto simp: good_def)
qed

lemma good_reach: "mon_reach sec st st' \<Longrightarrow> good st \<Longrightarrow> good st'"
  unfolding mon_reach_def by (induction rule: rtranclp_induct) (auto intro: good_step)

lemma good_start: "inv s \<Longrightarrow> \<forall>c \<in> set cs. ok c \<Longrightarrow> good (s, map Start cs)"
  by (auto simp: good_def)

text \<open>In every reachable state a sleeping thread has reason to sleep.\<close>

lemma no_lost_wakeup:
  assumes "inv s" "\<forall>c \<in> set cs. ok c" "mon_reach sec (s, map Start cs) (s', ts)"
  shows "inv s' \<and> (\<forall>c. Sleeping c \<in> set ts \<longrightarrow> blocked sec c s')"
  using good_reach [OF assms(3) good_start [OF assms(1,2)]] by (auto simp: good_def)

text \<open>When nothing can run any more, every thread has returned or sleeps with its guard false.\<close>

lemma stuck_state:
  assumes "inv s" "\<forall>c \<in> set cs. ok c" "mon_reach sec (s, map Start cs) (s', ts)" "\<nexists>st. mon_step sec (s', ts) st" "t \<in> set ts"
  shows "(\<exists>r. t = Finished r) \<or> (\<exists>c. t = Sleeping c \<and> blocked sec c s')"
proof -
  obtain i where i: "i < length ts" "ts ! i = t" using assms(5) by (auto simp: in_set_conv_nth)
  show ?thesis
  proof (cases t)
    case (Start c)
    with i assms(4) show ?thesis by (cases "sec True c s'") (auto dest: start_sleep start_leave)
  next
    case (Woken c)
    with i assms(4) show ?thesis by (cases "sec False c s'") (auto dest: woken_sleep woken_leave)
  qed (use no_lost_wakeup [OF assms(1-3)] assms(5) in auto)
qed

end

section \<open>Accounting\<close>

fun finished :: "('c, 'r) thr \<Rightarrow> bool" where
  "finished (Finished r) = True"
| "finished t = False"

text \<open>The call a thread is busy with.\<close>

fun busy_with :: "'c \<Rightarrow> ('c, 'r) thr \<Rightarrow> bool" where
  "busy_with c (Start d) = (d = c)"
| "busy_with c (Sleeping d) = (d = c)"
| "busy_with c (Woken d) = (d = c)"
| "busy_with c (Finished r) = True"

lemma wake_nth:
  assumes "i < length ts"
  shows "finished (wake b ts ! i) = finished (ts ! i)" "busy_with c (wake b ts ! i) = busy_with c (ts ! i)"
  using assms by (cases "ts ! i"; simp add: wake_def)+

lemma length_wake [simp]: "length (wake b ts) = length ts"
  by (simp add: wake_def)

text \<open>What the finished calls of a run contribute.\<close>

definition contrib :: "('c \<Rightarrow> int) \<Rightarrow> 'c list \<Rightarrow> ('c, 'r) thr list \<Rightarrow> int" where
  "contrib eff cs ts = (\<Sum>i<length cs. if finished (ts ! i) then eff (cs ! i) else 0)"

definition runs :: "'c list \<Rightarrow> ('c, 'r) thr list \<Rightarrow> bool" where
  "runs cs ts \<longleftrightarrow> length ts = length cs \<and> (\<forall>i < length cs. busy_with (cs ! i) (ts ! i))"

lemma runs_call:
  "runs cs ts \<Longrightarrow> i < length ts \<Longrightarrow> ts ! i \<in> {Start c, Sleeping c, Woken c} \<Longrightarrow> cs ! i = c"
  by (fastforce simp: runs_def)

lemma runs_sleep:
  assumes "runs cs ts" "i < length ts" "ts ! i \<in> {Start c, Woken c}"
  shows "runs cs (ts[i := Sleeping c])" "contrib eff cs (ts[i := Sleeping c]) = contrib eff cs ts"
proof -
  have "cs ! i = c" using runs_call [OF assms(1,2), of c] assms(3) by blast
  with assms show "runs cs (ts[i := Sleeping c])" by (auto simp: runs_def nth_list_update)
  show "contrib eff cs (ts[i := Sleeping c]) = contrib eff cs ts"
    using assms unfolding contrib_def by (intro sum.cong) (auto simp: runs_def nth_list_update)
qed

lemma runs_leave:
  assumes "runs cs ts" "i < length ts" "ts ! i \<in> {Start c, Woken c}"
  shows "runs cs (wake b (ts[i := Finished r]))" "contrib eff cs (wake b (ts[i := Finished r])) = contrib eff cs ts + eff c"
proof -
  have i: "i < length cs" "cs ! i = c" "length ts = length cs" "\<not> finished (ts ! i)"
    using runs_call [OF assms(1,2), of c] assms by (auto simp: runs_def)
  show "runs cs (wake b (ts[i := Finished r]))"
    using assms(1) i by (auto simp: runs_def wake_nth nth_list_update)
  have "contrib eff cs (wake b (ts[i := Finished r])) =
      (\<Sum>k<length cs. (if finished (ts ! k) then eff (cs ! k) else 0) + (if k = i then eff c else 0))"
    using i unfolding contrib_def by (intro sum.cong) (auto simp: wake_nth nth_list_update)
  then show "contrib eff cs (wake b (ts[i := Finished r])) = contrib eff cs ts + eff c"
    using i(1) by (simp add: sum.distrib contrib_def)
qed

text \<open>
  A quantity of the object to which each completed call contributes once: in every reachable state
  it is the initial quantity plus the contributions of the finished calls. \<open>norm\<close> is the identity, or
  the reduction to a C \<open>int\<close>.
\<close>

lemma mon_account:
  fixes val :: "'s \<Rightarrow> int"
  assumes norm: "\<And>x y z. norm x = norm y \<Longrightarrow> norm (x + z) = norm (y + z)"
    and leave: "\<And>f c s r s' b. sec f c s = Leave r s' b \<Longrightarrow> norm (val s') = norm (val s + eff c)"
    and sleep: "\<And>f c s s'. sec f c s = Sleep s' \<Longrightarrow> val s' = val s"
    and reach: "mon_reach sec (s, map Start cs) (s', ts)"
  shows "runs cs ts \<and> norm (val s') = norm (val s + contrib eff cs ts)"
proof -
  have lv: "norm (val s2) = norm (val s + (contrib eff cs ts + eff c))"
    if "sec f c s1 = Leave r s2 b" "norm (val s1) = norm (val s + contrib eff cs ts)" for f c s1 r s2 b ts
    using leave [OF that(1)] norm [OF that(2), of "eff c"] by (simp add: add.assoc)
  have one: "runs cs (snd st') \<and> norm (val (fst st')) = norm (val s + contrib eff cs (snd st'))"
    if "mon_step sec st st'" "runs cs (snd st) \<and> norm (val (fst st)) = norm (val s + contrib eff cs (snd st))" for st st'
    using that
  proof (induction rule: mon_step.induct)
    case (start_sleep i ts c s1 s2) then show ?case using sleep runs_sleep [of cs ts i c] by simp
  next
    case (start_leave i ts c s1 r s2 b) then show ?case using lv [OF start_leave(3), of ts] runs_leave [of cs ts i c] by simp
  next
    case (woken_sleep i ts c s1 s2) then show ?case using sleep runs_sleep [of cs ts i c] by simp
  next
    case (woken_leave i ts c s1 r s2 b) then show ?case using lv [OF woken_leave(3), of ts] runs_leave [of cs ts i c] by simp
  qed
  have "runs cs (snd st') \<and> norm (val (fst st')) = norm (val s + contrib eff cs (snd st'))"
    if "(mon_step sec)\<^sup>*\<^sup>* (s, map Start cs) st'" for st'
    using that
  proof (induction rule: rtranclp_induct)
    case base then show ?case by (simp add: runs_def contrib_def)
  next
    case (step st1 st2) then show ?case using one [of st1 st2] by simp
  qed
  from this [of "(s', ts)"] reach show ?thesis by (simp add: mon_reach_def)
qed

section \<open>Signals\<close>

text \<open>
  \<open>pthread_cond_signal\<close> wakes one thread that waits on the condition variable, if there is one; which
  one is arbitrary. A woken thread checks its guard again.
\<close>

inductive signalled :: "('w \<Rightarrow> bool) \<Rightarrow> ('w \<Rightarrow> 'w) \<Rightarrow> 'w list \<Rightarrow> 'w list \<Rightarrow> bool" for waits woken where
  nobody: "\<forall>w \<in> set ws. \<not> waits w \<Longrightarrow> signalled waits woken ws ws"
| somebody: "j < length ws \<Longrightarrow> waits (ws ! j) \<Longrightarrow> signalled waits woken ws (ws[j := woken (ws ! j)])"

definition broadcast :: "('w \<Rightarrow> bool) \<Rightarrow> ('w \<Rightarrow> 'w) \<Rightarrow> 'w list \<Rightarrow> 'w list" where
  "broadcast waits woken ws = map (\<lambda>w. if waits w then woken w else w) ws"

definition number :: "('w \<Rightarrow> bool) \<Rightarrow> 'w list \<Rightarrow> nat" where
  "number P ws = length (filter P ws)"

lemma number_upd:
  "i < length ws \<Longrightarrow> number P (ws[i := w]) + (if P (ws ! i) then 1 else 0) = number P ws + (if P w then 1 else 0)"
proof (induction ws arbitrary: i)
  case (Cons x ws)
  then show ?case by (cases i) (auto simp: number_def)
qed (simp add: number_def)

lemma number_le: "number P ws \<le> length ws"
  by (simp add: number_def)

lemma number_mono: "(\<And>w. w \<in> set ws \<Longrightarrow> P w \<Longrightarrow> Q w) \<Longrightarrow> number P ws \<le> number Q ws"
  by (induction ws) (force simp: number_def)+

lemma number_pos_iff: "0 < number P ws \<longleftrightarrow> (\<exists>w \<in> set ws. P w)"
  by (auto simp: number_def filter_empty_conv)

lemma signalled_ex: "\<exists>ws'. signalled waits woken ws ws'"
  by (metis in_set_conv_nth nobody somebody)

text \<open>One way to deliver a signal, for concrete runs: to the first thread that waits.\<close>

fun wake_first :: "('w \<Rightarrow> bool) \<Rightarrow> ('w \<Rightarrow> 'w) \<Rightarrow> 'w list \<Rightarrow> 'w list" where
  "wake_first waits woken [] = []"
| "wake_first waits woken (w # ws) = (if waits w then woken w # ws else w # wake_first waits woken ws)"

lemma signalled_Cons: "signalled waits woken ws ws' \<Longrightarrow> \<not> waits w \<Longrightarrow> signalled waits woken (w # ws) (w # ws')"
proof (induction rule: signalled.induct)
  case (nobody ws)
  then show ?case by (intro signalled.nobody) simp
next
  case (somebody j ws)
  then show ?case using signalled.somebody [of "Suc j" "w # ws" waits woken] by simp
qed

lemma signalled_first: "signalled waits woken ws (wake_first waits woken ws)"
proof (induction ws)
  case (Cons w ws)
  then show ?case using signalled.somebody [of 0 "w # ws" waits woken] signalled_Cons [OF Cons, of w] by simp
qed (simp add: nobody)

lemma signalled_length: "signalled waits woken ws ws' \<Longrightarrow> length ws' = length ws"
  by (induction rule: signalled.induct) simp_all

lemma signalled_set:
  "signalled waits woken ws ws' \<Longrightarrow> w \<in> set ws' \<Longrightarrow> w \<in> set ws \<or> (\<exists>v \<in> set ws. waits v \<and> w = woken v)"
  by (induction rule: signalled.induct) (auto dest!: set_update_subset_insert [THEN subsetD])

lemma signalled_number:
  assumes "signalled waits woken ws ws'" "\<And>w. waits w \<Longrightarrow> P (woken w) = P w"
  shows "number P ws' = number P ws"
  using assms
proof (induction rule: signalled.induct)
  case (somebody j ws)
  then show ?case using number_upd [of j ws P "woken (ws ! j)"] by (simp split: if_splits)
qed simp

text \<open>
  The accounting that rules out lost signals: as long as threads wait, there are at least as many woken
  threads as there are units to take; one more unit with a signal keeps this.
\<close>

definition covered :: "('w \<Rightarrow> bool) \<Rightarrow> ('w \<Rightarrow> bool) \<Rightarrow> nat \<Rightarrow> 'w list \<Rightarrow> bool" where
  "covered waits awake n ws \<longleftrightarrow> (\<exists>w \<in> set ws. waits w) \<longrightarrow> n \<le> number awake ws"

lemma covered_signal:
  assumes "signalled waits woken ws ws'" "covered waits awake n ws"
    and "\<And>w. waits w \<Longrightarrow> \<not> awake w \<and> awake (woken w)"
  shows "covered waits awake (Suc n) ws'"
  using assms
proof (induction rule: signalled.induct)
  case (nobody ws)
  then show ?case by (simp add: covered_def)
next
  case (somebody j ws)
  then have "n \<le> number awake ws" by (auto simp: covered_def)
  moreover have "number awake (ws[j := woken (ws ! j)]) = Suc (number awake ws)"
    using number_upd [of j ws awake "woken (ws ! j)"] somebody by simp
  ultimately show ?case by (simp add: covered_def)
qed

lemma covered_mono: "covered waits awake n ws \<Longrightarrow> m \<le> n \<Longrightarrow> covered waits awake m ws"
  by (auto simp: covered_def)

text \<open>A thread that changes its position without waiting and without giving up being awake.\<close>

lemma covered_move:
  assumes "covered waits awake n ws" "i < length ws" "\<not> waits w" "awake (ws ! i) \<longrightarrow> awake w"
  shows "covered waits awake n (ws[i := w])"
  using assms number_upd [of i ws awake w] set_update_subset_insert [of ws i w]
  by (fastforce simp: covered_def split: if_splits)

text \<open>An awake thread that takes a unit.\<close>

lemma covered_take:
  assumes "covered waits awake (Suc n) ws" "i < length ws" "\<not> waits w"
  shows "covered waits awake n (ws[i := w])"
  using assms number_upd [of i ws awake w] set_update_subset_insert [of ws i w]
  by (fastforce simp: covered_def split: if_splits)

text \<open>A thread that starts to wait while nothing is to be taken, and other kinds of waiting.\<close>

lemma covered_0 [simp]: "covered waits awake 0 ws"
  by (simp add: covered_def)

lemma covered_other:
  assumes "signalled waits' woken ws ws'" "covered waits awake n ws"
    and "\<And>w. waits' w \<Longrightarrow> \<not> waits (woken w) \<and> (awake w \<longrightarrow> awake (woken w))"
  shows "covered waits awake n ws'"
  using assms
proof (induction rule: signalled.induct)
  case (somebody j ws)
  then show ?case using covered_move [of waits awake n ws j "woken (ws ! j)"] by auto
qed

end
