(* ===== verification/Mysem.thy ===== *)
theory Mysem
  imports Monitor
begin

text \<open>
  \<open>thread/posix/mysemphon/mysem.c\<close>: a counting semaphore from a mutex and a condition variable.
\<close>

record mysem_st =
  sem_value :: int

text \<open>\<open>mal\<close>: whether \<open>malloc\<close> succeeds.\<close>

definition mysem_init :: "bool \<Rightarrow> int \<Rightarrow> mysem_st option" where
  "mysem_init mal initval = (if \<not> mal then None else Some \<lparr>sem_value = initval\<rparr>)"

text \<open>The broadcast comes before the addition, but the woken threads need the mutex.\<close>

definition mysem_add :: "int \<Rightarrow> mysem_st \<Rightarrow> (int, mysem_st) sect" where
  "mysem_add n me = Leave n (me\<lparr>sem_value := c_int (sem_value me + n)\<rparr>) True"

definition mysem_sub :: "int \<Rightarrow> mysem_st \<Rightarrow> (int, mysem_st) sect" where
  "mysem_sub n me = (if sem_value me < n then Sleep me else Leave n (me\<lparr>sem_value := c_int (sem_value me - n)\<rparr>) False)"

text \<open>\<open>mysem_destroy\<close>: destroying a condition variable on which threads sleep is undefined; the object is freed.\<close>

definition mysem_destroy :: "(int \<times> bool, int) thr list \<Rightarrow> mysem_st \<Rightarrow> (int, mysem_st option) outcome" where
  "mysem_destroy ts me = (if \<exists>c. Sleeping c \<in> set ts then Undef (Some me) else Ret 0 None)"

datatype sem_call = SemAdd int | SemSub int

fun sem_sec :: "bool \<Rightarrow> sem_call \<Rightarrow> mysem_st \<Rightarrow> (int, mysem_st) sect" where
  "sem_sec f (SemAdd n) me = mysem_add n me"
| "sem_sec f (SemSub n) me = mysem_sub n me"

fun sem_ok :: "sem_call \<Rightarrow> bool" where
  "sem_ok (SemAdd n) = True"
| "sem_ok (SemSub n) = (0 \<le> n)"

definition sem_inv :: "mysem_st \<Rightarrow> bool" where
  "sem_inv me \<longleftrightarrow> INT_MIN \<le> sem_value me \<and> sem_value me \<le> INT_MAX"

lemma sem_blocked: "blocked sem_sec c me \<longleftrightarrow> (\<exists>n. c = SemSub n \<and> sem_value me < n)"
  by (cases c) (auto simp: blocked_def mysem_add_def mysem_sub_def)

lemma sem_sub_down:
  "sem_inv me \<Longrightarrow> 0 \<le> n \<Longrightarrow> n \<le> sem_value me \<Longrightarrow> c_int (sem_value me - n) = sem_value me - n"
  by (intro c_int_id) (auto simp: sem_inv_def INT_MIN_def)

interpretation sem: monitor sem_sec sem_inv sem_ok
proof (unfold_locales, goal_cases)
  case (1 s c f s')
  then show ?case by (cases c) (auto simp: mysem_add_def mysem_sub_def split: if_splits)
next
  case (2 s c f r s' b)
  then show ?case using c_int_range by (cases c) (auto simp: mysem_add_def mysem_sub_def sem_inv_def split: if_splits)
next
  case (3 s c f s')
  then show ?case by (cases c) (auto simp: sem_blocked mysem_add_def mysem_sub_def split: if_splits)
next
  case (4 s c d f s')
  then show ?case by (cases c) (auto simp: mysem_add_def mysem_sub_def split: if_splits)
next
  case (5 s c d f r s')
  then show ?case using sem_sub_down [of s]
    by (cases c) (auto simp: sem_blocked mysem_add_def mysem_sub_def split: if_splits)
qed

fun sem_eff :: "sem_call \<Rightarrow> int" where
  "sem_eff (SemAdd n) = n"
| "sem_eff (SemSub n) = - n"

text \<open>
  C8: The semaphore loses no wake-up and no count. However the threads of a program that adds and
  subtracts (non-negative amounts) interleave, a thread sleeps in \<open>mysem_sub\<close> only while the value is below
  what it asks for, and the value is the initial value plus all completed additions minus all
  completed subtractions (as a C \<open>int\<close>).
\<close>

theorem mysem_correct:
  assumes "\<forall>c \<in> set cs. sem_ok c" and "INT_MIN \<le> v" and "v \<le> INT_MAX"
    and "mysem_init True v = Some me" and "mon_reach sem_sec (me, map Start cs) (me', ts)"
  shows "(\<forall>n. Sleeping (SemSub n) \<in> set ts \<longrightarrow> sem_value me' < n) \<and>
    (\<forall>n. Sleeping (SemAdd n) \<notin> set ts) \<and> sem_value me' = c_int (v + contrib sem_eff cs ts)"
proof -
  have i: "sem_inv me" "sem_value me = v" using assms(2-4) by (auto simp: mysem_init_def sem_inv_def)
  note n = sem.no_lost_wakeup [OF i(1) assms(1,5)]
  have c1: "c_int (c_int x) = c_int x" for x using c_int_range [of x] by (intro c_int_id) auto
  have c2: "c_int (x + z) = c_int (y + z)" if "c_int x = c_int y" for x y z
  proof -
    have "(x + 2147483648) mod 4294967296 = (y + 2147483648) mod 4294967296" using that by (simp add: c_int_def)
    then have "((x + 2147483648) + z) mod 4294967296 = ((y + 2147483648) + z) mod 4294967296" by (rule mod_add_cong) simp
    then show ?thesis by (simp add: c_int_def algebra_simps)
  qed
  have "runs cs ts \<and> c_int (sem_value me') = c_int (sem_value me + contrib sem_eff cs ts)"
  proof (rule mon_account [where norm = c_int and val = sem_value and eff = sem_eff and sec = sem_sec, OF _ _ _ assms(5)])
    fix x y z :: int
    assume "c_int x = c_int y"
    then show "c_int (x + z) = c_int (y + z)" by (rule c2)
  next
    fix f c r b and s s' :: mysem_st
    assume "sem_sec f c s = Leave r s' b"
    then show "c_int (sem_value s') = c_int (sem_value s + sem_eff c)"
      by (cases c) (auto simp: mysem_add_def mysem_sub_def c1 split: if_splits)
  next
    fix f c and s s' :: mysem_st
    assume "sem_sec f c s = Sleep s'"
    then show "sem_value s' = sem_value s" by (cases c) (auto simp: mysem_add_def mysem_sub_def split: if_splits)
  qed
  moreover have "c_int (sem_value me') = sem_value me'" using n by (intro c_int_id) (auto simp: sem_inv_def)
  ultimately show ?thesis using n i(2) by (auto simp: sem_blocked)
qed

theorem mysem_correct_witness:
  "\<exists>me' ts. mon_reach sem_sec (\<lparr>sem_value = 1\<rparr>, map Start [SemSub 3, SemAdd 2]) (me', ts) \<and>
    ts = [Woken (SemSub 3), Finished 2] \<and> sem_value me' = c_int (1 + contrib sem_eff [SemSub 3, SemAdd 2] ts)"
proof -
  have 1: "mon_step sem_sec (\<lparr>sem_value = 1\<rparr>, [Start (SemSub 3), Start (SemAdd 2)]) (\<lparr>sem_value = 1\<rparr>, [Sleeping (SemSub 3), Start (SemAdd 2)])"
    using start_sleep [of 0 "[Start (SemSub 3), Start (SemAdd 2)]" "SemSub 3" sem_sec "\<lparr>sem_value = 1\<rparr>"]
    by (simp add: mysem_sub_def)
  have 2: "mon_step sem_sec (\<lparr>sem_value = 1\<rparr>, [Sleeping (SemSub 3), Start (SemAdd 2)]) (\<lparr>sem_value = 3\<rparr>, [Woken (SemSub 3), Finished 2])"
    using start_leave [of 1 "[Sleeping (SemSub 3), Start (SemAdd 2)]" "SemAdd 2" sem_sec "\<lparr>sem_value = 1\<rparr>"]
    by (simp add: mysem_add_def wake_def c_int_def)
  have r: "mon_reach sem_sec (\<lparr>sem_value = 1\<rparr>, map Start [SemSub 3, SemAdd 2]) (\<lparr>sem_value = 3\<rparr>, [Woken (SemSub 3), Finished 2])"
    using mon_reach_step [OF 1 mon_reach_step [OF 2 mon_reach_refl]] by simp
  from mysem_correct [of "[SemSub 3, SemAdd 2]" 1, OF _ _ _ _ r] r show ?thesis
    by (auto simp: mysem_init_def INT_MIN_def INT_MAX_def)
qed

end
