(* ===== verification/Mypipe.thy ===== *)
theory Mypipe
  imports Monitor Posix
begin

text \<open>
  \<open>mypipe/mypipe.c\<close>: a pipe between threads. Calls are monitor sections on the pipe's mutex and
  condition variable. The bit masks are \<open>unsigned long\<close>, so an \<open>int\<close> operand is converted to 64 bits.
\<close>

unbundle bit_operations_syntax

section \<open>State and operations\<close>

definition PIPESIZE :: nat where
  "PIPESIZE = 1024"

definition MYPIPE_READ :: "64 word" where
  "MYPIPE_READ = 1"

definition MYPIPE_WRITE :: "64 word" where
  "MYPIPE_WRITE = 2"

record mypipe_st =
  head :: int
  tail :: int
  data :: "byte list"
  datasize :: int
  count_rd :: int
  count_wr :: int

text \<open>\<open>mypipe_init\<close>: \<open>mal\<close> is the array in the block \<open>malloc\<close> returns, or \<open>None\<close>.\<close>

definition mypipe_init :: "byte list option \<Rightarrow> mypipe_st option" where
  "mypipe_init mal = (case mal of
      None \<Rightarrow> None
    | Some d \<Rightarrow> Some \<lparr>head = 0, tail = 0, data = d, datasize = 0, count_rd = 0, count_wr = 0\<rparr>)"

definition pipe_next :: "int \<Rightarrow> int" where
  "pipe_next h = h mod int PIPESIZE"

text \<open>\<open>first\<close>: the section starts the call; otherwise it starts where the wait returns.\<close>

definition mypipe_register :: "bool \<Rightarrow> int \<Rightarrow> mypipe_st \<Rightarrow> (int \<times> byte list, mypipe_st) sect" where
  "mypipe_register first opmap me =
     (let om = word_of_int opmap :: 64 word
      in if first \<and> om AND NOT (MYPIPE_READ OR MYPIPE_WRITE) \<noteq> 0 then Leave (-1, []) me False
         else if first \<and> om AND (MYPIPE_READ OR MYPIPE_WRITE) = 0 then Leave (-1, []) me False
         else (let me1 = (if first \<and> om AND MYPIPE_READ \<noteq> 0 then me\<lparr>count_rd := count_rd me + 1\<rparr> else me);
                   me2 = (if first \<and> om AND MYPIPE_WRITE \<noteq> 0 then me1\<lparr>count_wr := count_wr me1 + 1\<rparr> else me1)
               in if count_rd me2 \<le> 0 \<or> count_wr me2 \<le> 0 then Sleep me2
                  else Leave (0, []) me2 True))"

text \<open>
  \<open>mypipe_unregister\<close>. The test \<^verbatim>\<open>opmap | 0x00000000 != 0x00000001 && opmap | 0x00000000 != 0x000000010\<close>
  compares the constants first: it is \<^verbatim>\<open>(opmap | 1) && (opmap | 1)\<close>.
\<close>

definition c_bool :: "bool \<Rightarrow> 32 word" where
  "c_bool b = (if b then 1 else 0)"

definition mypipe_unregister :: "int \<Rightarrow> mypipe_st \<Rightarrow> (int \<times> byte list, mypipe_st) sect" where
  "mypipe_unregister opmap me =
     (if ((word_of_int opmap :: 32 word) OR c_bool ((0::int) \<noteq> 1)) \<noteq> 0 \<and>
         ((word_of_int opmap :: 32 word) OR c_bool ((0::int) \<noteq> 16)) \<noteq> 0
      then Leave (-1, []) me False
      else (let om = word_of_int opmap :: 64 word;
                me1 = (if om AND MYPIPE_READ \<noteq> 0 then me\<lparr>count_rd := count_rd me - 1\<rparr> else me);
                me2 = (if om AND MYPIPE_WRITE \<noteq> 0 then me1\<lparr>count_wr := count_wr me1 - 1\<rparr> else me1)
            in Leave (0, []) me2 True))"

text \<open>The byte read, or \<open>None\<close> for the result -1.\<close>

definition mypipe_readbyte_unlocked :: "mypipe_st \<Rightarrow> (byte \<times> mypipe_st) option" where
  "mypipe_readbyte_unlocked me =
     (if datasize me \<le> 0 then None
      else Some (data me ! nat (head me), me\<lparr>head := pipe_next (head me), datasize := datasize me - 1\<rparr>))"

text \<open>The loop of \<open>mypipe_read\<close>: at most \<open>n\<close> more bytes.\<close>

fun read_bytes :: "nat \<Rightarrow> mypipe_st \<Rightarrow> byte list \<times> mypipe_st" where
  "read_bytes 0 me = ([], me)"
| "read_bytes (Suc n) me = (case mypipe_readbyte_unlocked me of
      None \<Rightarrow> ([], me)
    | Some (b, me1) \<Rightarrow> (case read_bytes n me1 of (bs, me2) \<Rightarrow> (b # bs, me2)))"

definition mypipe_read :: "nat \<Rightarrow> mypipe_st \<Rightarrow> (int \<times> byte list, mypipe_st) sect" where
  "mypipe_read n me =
     (if datasize me \<le> 0 \<and> count_wr me > 0 then Sleep me
      else if datasize me \<le> 0 \<and> count_wr me \<le> 0 then Leave (0, []) me False
      else (case read_bytes n me of (bs, me1) \<Rightarrow> Leave (int (length bs), bs) me1 True))"

definition mypipe_writebyte_unlocked :: "mypipe_st \<Rightarrow> byte \<Rightarrow> mypipe_st option" where
  "mypipe_writebyte_unlocked me b =
     (if datasize me \<ge> int PIPESIZE then None
      else Some (me\<lparr>data := (data me)[nat (tail me) := b], tail := pipe_next (tail me), datasize := datasize me + 1\<rparr>))"

fun write_bytes :: "byte list \<Rightarrow> mypipe_st \<Rightarrow> int \<times> mypipe_st" where
  "write_bytes [] me = (0, me)"
| "write_bytes (b # bs) me = (case mypipe_writebyte_unlocked me b of
      None \<Rightarrow> (0, me)
    | Some me1 \<Rightarrow> (case write_bytes bs me1 of (n, me2) \<Rightarrow> (n + 1, me2)))"

definition mypipe_write :: "byte list \<Rightarrow> mypipe_st \<Rightarrow> (int \<times> byte list, mypipe_st) sect" where
  "mypipe_write bs me =
     (if datasize me \<ge> int PIPESIZE \<and> count_rd me > 0 then Sleep me
      else if datasize me \<ge> int PIPESIZE \<and> count_rd me \<le> 0 then Leave (0, []) me False
      else (case write_bytes bs me of (n, me1) \<Rightarrow> Leave (n, []) me1 True))"

datatype pipe_call = Register int | Unregister int | Read nat | Write "byte list"

fun pipe_sec :: "bool \<Rightarrow> pipe_call \<Rightarrow> mypipe_st \<Rightarrow> (int \<times> byte list, mypipe_st) sect" where
  "pipe_sec f (Register om) me = mypipe_register f om me"
| "pipe_sec f (Unregister om) me = mypipe_unregister om me"
| "pipe_sec f (Read n) me = mypipe_read n me"
| "pipe_sec f (Write bs) me = mypipe_write bs me"

text \<open>
  \<open>mypipe_destroy\<close>, with the threads that have a call on the pipe: it destroys mutex and condition variable and frees the block. With a thread
  asleep on the condition variable, or still to run in the freed block, the behaviour is undefined.
\<close>

definition mypipe_destroy :: "(pipe_call, int \<times> byte list) thr list \<Rightarrow> mypipe_st \<Rightarrow> (int, mypipe_st option) outcome" where
  "mypipe_destroy ts me = (if \<forall>t \<in> set ts. finished t then Ret 0 None else Undef (Some me))"

section \<open>Invariant\<close>

text \<open>
  Both indices stay 0, because \<open>next\<close> does not advance them; the size stays within the array.
\<close>

definition pipe_inv :: "mypipe_st \<Rightarrow> bool" where
  "pipe_inv me \<longleftrightarrow> head me = 0 \<and> tail me = 0 \<and> length (data me) = PIPESIZE \<and>
     0 \<le> datasize me \<and> datasize me \<le> int PIPESIZE \<and> 0 \<le> count_rd me \<and> 0 \<le> count_wr me"

lemma pipe_next_0 [simp]: "pipe_next 0 = 0"
  by (simp add: pipe_next_def)

lemma read_bytes_spec:
  "pipe_inv me \<Longrightarrow> read_bytes n me =
     (replicate (min n (nat (datasize me))) (data me ! 0), me\<lparr>datasize := datasize me - int (min n (nat (datasize me)))\<rparr>)"
proof (induction n arbitrary: me)
  case (Suc n)
  show ?case
  proof (cases "datasize me \<le> 0")
    case True
    with Suc.prems show ?thesis by (auto simp: mypipe_readbyte_unlocked_def pipe_inv_def)
  next
    case False
    let ?me = "me\<lparr>head := pipe_next (head me), datasize := datasize me - 1\<rparr>"
    have e: "?me = me\<lparr>datasize := datasize me - 1\<rparr>" using Suc.prems by (simp add: pipe_inv_def)
    have "pipe_inv ?me" using Suc.prems False by (simp add: pipe_inv_def)
    moreover have "min (Suc n) (nat (datasize me)) = Suc (min n (nat (datasize me - 1)))" using False by simp
    ultimately show ?thesis
      using Suc.IH [of ?me] Suc.prems False by (simp add: mypipe_readbyte_unlocked_def e pipe_inv_def)
  qed
qed simp

lemma write_bytes_spec:
  "pipe_inv me \<Longrightarrow> write_bytes bs me =
     (let k = min (length bs) (PIPESIZE - nat (datasize me))
      in (int k, me\<lparr>data := if k = 0 then data me else (data me)[0 := bs ! (k - 1)], datasize := datasize me + int k\<rparr>))"
proof (induction bs arbitrary: me)
  case (Cons b bs)
  show ?case
  proof (cases "datasize me \<ge> int PIPESIZE")
    case True
    with Cons.prems show ?thesis by (simp add: mypipe_writebyte_unlocked_def pipe_inv_def Let_def)
  next
    case False
    let ?me = "me\<lparr>data := (data me)[0 := b], datasize := datasize me + 1\<rparr>"
    have w: "mypipe_writebyte_unlocked me b = Some ?me"
      using Cons.prems False by (simp add: mypipe_writebyte_unlocked_def pipe_inv_def)
    have inv: "pipe_inv ?me" using Cons.prems False by (simp add: pipe_inv_def)
    define k where "k = min (length bs) (PIPESIZE - nat (datasize ?me))"
    have k: "min (length (b # bs)) (PIPESIZE - nat (datasize me)) = Suc k"
      using Cons.prems False by (auto simp: k_def pipe_inv_def)
    have ih: "write_bytes bs ?me = (int k, ?me\<lparr>data := if k = 0 then data ?me else (data ?me)[0 := bs ! (k - 1)], datasize := datasize ?me + int k\<rparr>)"
      using Cons.IH [OF inv] unfolding Let_def k_def .
    show ?thesis unfolding k Let_def by (cases k) (simp_all add: w ih)
  qed
qed simp


lemma read_leaves:
  assumes "pipe_inv me" "0 < datasize me"
  shows "mypipe_read n me = Leave (int (min n (nat (datasize me))), replicate (min n (nat (datasize me))) (data me ! 0))
    (me\<lparr>datasize := datasize me - int (min n (nat (datasize me)))\<rparr>) True"
  using assms by (simp add: mypipe_read_def read_bytes_spec)

lemma write_leaves:
  assumes "pipe_inv me" "datasize me < int PIPESIZE" "k = min (length bs) (PIPESIZE - nat (datasize me))"
  shows "mypipe_write bs me = Leave (int k, [])
    (me\<lparr>data := if k = 0 then data me else (data me)[0 := bs ! (k - 1)], datasize := datasize me + int k\<rparr>) True"
  using assms(1,2) unfolding assms(3) by (simp add: mypipe_write_def write_bytes_spec Let_def)

lemma unregister_fails: "mypipe_unregister om me = Leave (-1, []) me False"
proof -
  have "((word_of_int om :: 32 word) OR 1) \<noteq> 0" by (simp add: or_eq_0_iff)
  then show ?thesis by (simp add: mypipe_unregister_def c_bool_def)
qed

lemma pipe_inv_sec:
  assumes "pipe_inv me"
  shows "pipe_sec f c me = Sleep me' \<Longrightarrow> pipe_inv me'" "pipe_sec f c me = Leave r me' b \<Longrightarrow> pipe_inv me'"
proof -
  have reg: "pipe_inv me'" if "mypipe_register f om me = Sleep me' \<or> mypipe_register f om me = Leave r me' b" for om
    using that assms by (auto simp: mypipe_register_def Let_def pipe_inv_def split: if_splits)
  have rd: "pipe_inv me'" if "mypipe_read n me = Sleep me' \<or> mypipe_read n me = Leave r me' b" for n
    using that assms read_leaves [OF assms, of n]
    by (cases "0 < datasize me") (auto simp: mypipe_read_def pipe_inv_def split: if_splits)
  have wr: "pipe_inv me'" if "mypipe_write bs me = Sleep me' \<or> mypipe_write bs me = Leave r me' b" for bs
    using that assms write_leaves [OF assms _ refl, of bs]
    by (cases "datasize me < int PIPESIZE") (auto simp: mypipe_write_def pipe_inv_def split: if_splits)
  show "pipe_sec f c me = Sleep me' \<Longrightarrow> pipe_inv me'" "pipe_sec f c me = Leave r me' b \<Longrightarrow> pipe_inv me'"
    using assms reg rd wr unregister_fails by (cases c; auto)+
qed

fun pipe_waits :: "pipe_call \<Rightarrow> mypipe_st \<Rightarrow> bool" where
  "pipe_waits (Register om) me = (count_rd me \<le> 0 \<or> count_wr me \<le> 0)"
| "pipe_waits (Unregister om) me = False"
| "pipe_waits (Read n) me = (datasize me \<le> 0 \<and> count_wr me > 0)"
| "pipe_waits (Write bs) me = (datasize me \<ge> int PIPESIZE \<and> count_rd me > 0)"

lemma pipe_blocked: "blocked pipe_sec c me = pipe_waits c me"
  by (cases c) (auto simp: blocked_def mypipe_register_def unregister_fails mypipe_read_def mypipe_write_def Let_def split: prod.split)


text \<open>A section that leaves without a broadcast has changed nothing; one that sleeps only counts itself.\<close>

lemma pipe_silent: "pipe_sec f c me = Leave r me' False \<Longrightarrow> me' = me"
  by (cases c) (auto simp: mypipe_register_def unregister_fails mypipe_read_def mypipe_write_def Let_def split: if_splits prod.splits)

lemma pipe_sleep:
  "pipe_sec f c me = Sleep me' \<Longrightarrow> pipe_waits c me' \<and> datasize me' = datasize me \<and>
     count_rd me \<le> count_rd me' \<and> count_wr me \<le> count_wr me' \<and> (me' = me \<or> count_rd me' \<le> 0 \<or> count_wr me' \<le> 0)"
  by (cases c) (auto simp: mypipe_register_def unregister_fails mypipe_read_def mypipe_write_def Let_def split: if_splits prod.splits)

interpretation pipe: monitor pipe_sec pipe_inv "\<lambda>c. True"
proof (unfold_locales, goal_cases)
  case (1 s c f s')
  then show ?case by (blast dest: pipe_inv_sec(1))
next
  case (2 s c f r s' b)
  then show ?case by (blast dest: pipe_inv_sec(2))
next
  case (3 s c f s')
  then show ?case using pipe_sleep by (simp add: pipe_blocked)
next
  case (4 s c d f s')
  then show ?case using pipe_sleep [of f c s s'] by (cases d) (auto simp: pipe_blocked)
next
  case (5 s c d f r s')
  then show ?case using pipe_silent by blast
qed

section \<open>Properties\<close>

text \<open>
  C20: No wake-up of the pipe is lost: in every state that any interleaving of any calls reaches, a
  thread sleeps in \<open>mypipe_register\<close> only while one side is missing, in \<open>mypipe_read\<close> only while the
  pipe is empty and has writers, in \<open>mypipe_write\<close> only while it is full and has readers; the fill
  level stays between 0 and \<open>PIPESIZE\<close>.
\<close>

theorem pipe_no_lost_wakeup:
  assumes "length d = PIPESIZE" and "mypipe_init (Some d) = Some me" and "mon_reach pipe_sec (me, map Start cs) (me', ts)"
  shows "0 \<le> datasize me' \<and> datasize me' \<le> int PIPESIZE \<and> (\<forall>c. Sleeping c \<in> set ts \<longrightarrow> pipe_waits c me')"
proof -
  have "pipe_inv me" using assms(1,2) by (auto simp: mypipe_init_def pipe_inv_def)
  from pipe.no_lost_wakeup [OF this _ assms(3)] show ?thesis by (auto simp: pipe_inv_def pipe_blocked)
qed

definition ex_pipe :: mypipe_st where
  "ex_pipe = \<lparr>head = 0, tail = 0, data = replicate PIPESIZE 0, datasize = 0, count_rd = 0, count_wr = 0\<rparr>"

lemma ex_pipe_init: "mypipe_init (Some (replicate PIPESIZE 0)) = Some ex_pipe" "pipe_inv ex_pipe"
  by (simp_all add: mypipe_init_def ex_pipe_def pipe_inv_def)

theorem pipe_no_lost_wakeup_witness:
  "\<exists>me' ts. mon_reach pipe_sec (ex_pipe, map Start [Register 1, Register 2]) (me', ts) \<and>
    ts = [Sleeping (Register 1), Start (Register 2)] \<and> (\<forall>c. Sleeping c \<in> set ts \<longrightarrow> pipe_waits c me')"
proof -
  have s: "mypipe_register True 1 ex_pipe = Sleep (ex_pipe\<lparr>count_rd := 1\<rparr>)"
    by (simp add: mypipe_register_def ex_pipe_def MYPIPE_READ_def MYPIPE_WRITE_def Let_def)
  have 1: "mon_step pipe_sec (ex_pipe, [Start (Register 1), Start (Register 2)])
      (ex_pipe\<lparr>count_rd := 1\<rparr>, [Sleeping (Register 1), Start (Register 2)])"
    using start_sleep [of 0 "[Start (Register 1), Start (Register 2)]" "Register 1" pipe_sec ex_pipe] s by simp
  then have "mon_reach pipe_sec (ex_pipe, map Start [Register 1, Register 2])
      (ex_pipe\<lparr>count_rd := 1\<rparr>, [Sleeping (Register 1), Start (Register 2)])"
    using mon_reach_step [OF 1 mon_reach_refl] by simp
  with pipe_no_lost_wakeup [OF _ ex_pipe_init(1) this] show ?thesis by auto
qed

text \<open>
  The pipe does not transport its data. \<open>next\<close> computes \<open>head % PIPESIZE\<close> without advancing, so
  every byte is stored in and read from cell 0: reading back what was written into an empty pipe
  yields the right number of bytes, all equal to the last byte written.
\<close>

theorem pipe_delivers_last_byte_only:
  assumes "pipe_inv me" and "datasize me = 0" and "bs \<noteq> []" and "length bs \<le> PIPESIZE"
  shows "\<exists>me1 me2. mypipe_write bs me = Leave (int (length bs), []) me1 True \<and>
    mypipe_read (length bs) me1 = Leave (int (length bs), replicate (length bs) (last bs)) me2 True"
proof -
  have k: "length bs = min (length bs) (PIPESIZE - nat (datasize me))" using assms by simp
  let ?me1 = "me\<lparr>data := (data me)[0 := bs ! (length bs - 1)], datasize := int (length bs)\<rparr>"
  have w: "mypipe_write bs me = Leave (int (length bs), []) ?me1 True"
    using write_leaves [OF assms(1) _ k] assms(2,3) by (simp add: PIPESIZE_def)
  have i: "pipe_inv ?me1" "0 < datasize ?me1" using assms by (simp_all add: pipe_inv_def)
  have d: "data ?me1 ! 0 = last bs"
    using assms(1,3) by (simp add: pipe_inv_def last_conv_nth PIPESIZE_def)
  show ?thesis using w read_leaves [OF i, of "length bs"] d by simp
qed

theorem pipe_delivers_last_byte_only_witness:
  "\<exists>me1 me2. mypipe_write [104, 105] ex_pipe = Leave (2, []) me1 True \<and>
    mypipe_read 2 me1 = Leave (2, [105, 105]) me2 True"
  using pipe_delivers_last_byte_only [OF ex_pipe_init(2), of "[104, 105]"]
  by (simp add: ex_pipe_def PIPESIZE_def numeral_2_eq_2)

text \<open>
  \<open>mypipe_unregister\<close> always fails, so a writer never leaves: a reader of an empty pipe whose
  writers have all called \<open>mypipe_unregister\<close> sleeps forever instead of returning 0.
\<close>

theorem pipe_reader_hangs_after_unregister:
  assumes "datasize me = 0" and "0 < count_wr me" and "\<forall>c \<in> set cs. (\<exists>om. c = Unregister om) \<or> (\<exists>n. c = Read n)"
    and "mon_reach pipe_sec (me, map Start cs) (me', ts)" and "i < length cs" and "cs ! i = Read n"
  shows "me' = me \<and> \<not> finished (ts ! i)"
proof -
  have rd: "pipe_sec f (Read n) me = Sleep me" for f n using assms(1,2) by (simp add: mypipe_read_def)
  define ok where "ok = (\<lambda>c t. busy_with c t \<and> ((\<exists>n. c = Read n) \<longrightarrow> \<not> finished (t :: (pipe_call, int \<times> byte list) thr)))"
  define inv where "inv = (\<lambda>st. fst st = me \<and> list_all2 ok cs (snd st))"
  have one: "inv st'" if "mon_step pipe_sec st st'" "inv st" for st st'
    using that
  proof (induction rule: mon_step.induct)
    case (start_sleep i ts c s s')
    then have "cs ! i = c" "c \<in> set cs" by (auto simp: inv_def ok_def list_all2_conv_all_nth)
    with assms(3) start_sleep rd show ?case
      by (auto simp: inv_def unregister_fails ok_def list_all2_conv_all_nth nth_list_update)
  next
    case (start_leave i ts c s r s' b)
    then have "cs ! i = c" "c \<in> set cs" by (auto simp: inv_def ok_def list_all2_conv_all_nth)
    with assms(3) start_leave rd show ?case
      by (auto simp: inv_def unregister_fails ok_def list_all2_conv_all_nth nth_list_update wake_def)
  next
    case (woken_sleep i ts c s s')
    then have "cs ! i = c" "c \<in> set cs" by (auto simp: inv_def ok_def list_all2_conv_all_nth)
    with assms(3) woken_sleep rd show ?case
      by (auto simp: inv_def unregister_fails ok_def list_all2_conv_all_nth nth_list_update)
  next
    case (woken_leave i ts c s r s' b)
    then have "cs ! i = c" "c \<in> set cs" by (auto simp: inv_def ok_def list_all2_conv_all_nth)
    with assms(3) woken_leave rd show ?case
      by (auto simp: inv_def unregister_fails ok_def list_all2_conv_all_nth nth_list_update wake_def)
  qed
  have "inv (me, map Start cs)" by (auto simp: inv_def ok_def list_all2_conv_all_nth)
  moreover have "inv st'" if "(mon_step pipe_sec)\<^sup>*\<^sup>* st st'" "inv st" for st st'
    using that by (induction rule: rtranclp_induct) (auto dest: one)
  ultimately have "inv (me', ts)" using assms(4) unfolding mon_reach_def by blast
  with assms(5,6) show ?thesis by (auto simp: inv_def ok_def list_all2_conv_all_nth)
qed

theorem pipe_reader_hangs_after_unregister_witness:
  "\<not> finished ([Start (Read 5), Finished (-1, [])] ! 0) \<and>
   mon_reach pipe_sec (ex_pipe\<lparr>count_wr := 1\<rparr>, map Start [Read 5, Unregister 2])
     (ex_pipe\<lparr>count_wr := 1\<rparr>, [Start (Read 5), Finished (-1, [])])"
proof -
  have 1: "mon_step pipe_sec (ex_pipe\<lparr>count_wr := 1\<rparr>, [Start (Read 5), Start (Unregister 2)])
      (ex_pipe\<lparr>count_wr := 1\<rparr>, [Start (Read 5), Finished (-1, [])])"
    using start_leave [of 1 "[Start (Read 5), Start (Unregister 2)]" "Unregister 2" pipe_sec "ex_pipe\<lparr>count_wr := 1\<rparr>" "(-1, [])" "ex_pipe\<lparr>count_wr := 1\<rparr>" False] unregister_fails
    by (simp add: wake_def)
  have r: "mon_reach pipe_sec (ex_pipe\<lparr>count_wr := 1\<rparr>, map Start [Read 5, Unregister 2])
     (ex_pipe\<lparr>count_wr := 1\<rparr>, [Start (Read 5), Finished (-1, [])])"
    using mon_reach_step [OF 1 mon_reach_refl] by simp
  from pipe_reader_hangs_after_unregister [OF _ _ _ r, of 0 5] r show ?thesis by (simp add: ex_pipe_def)
qed

text \<open>So a pipe whose readers wait for the end of the data cannot be destroyed either.\<close>

lemma pipe_destroy_undefined:
  assumes "datasize me = 0" "0 < count_wr me" "\<forall>c \<in> set cs. (\<exists>om. c = Unregister om) \<or> (\<exists>n. c = Read n)"
    and "mon_reach pipe_sec (me, map Start cs) (me', ts)" "length ts = length cs" "Read n \<in> set cs"
  shows "mypipe_destroy ts me' = Undef (Some me')"
proof -
  obtain i where "i < length cs" "cs ! i = Read n" using assms(6) by (auto simp: in_set_conv_nth)
  with pipe_reader_hangs_after_unregister [OF assms(1-4) this] assms(5) show ?thesis by (auto simp: mypipe_destroy_def intro: nth_mem)
qed

end
