(* ===== verification/Token_Bucket_MT.thy ===== *)
theory Token_Bucket_MT
  imports Bucket_Spec
begin

text \<open>
  \<open>thread/posix/mytbf_multithread/mytbf.c\<close>: the token bucket for threads. A timer thread refills
  the buckets, every bucket has a mutex and a condition variable, the table has a mutex. A mutex is
  a flag; an operation that needs a held mutex blocks, and an operation that finishes has released
  what it took, so that operations of different threads interleave at these boundaries.
\<close>

section \<open>State\<close>

record mt_bucket = mytbf_st +
  mut :: bool
  cond_waiters :: nat

record mt_module =
  mt_job :: "nat option list"
  mt_heap :: "nat \<rightharpoonup> mt_bucket"
  mut_job :: bool
  once_done :: bool
  alrm_tid :: bool
  mt_exit_hooks :: nat

definition mt_start :: mt_module where
  "mt_start = \<lparr>mt_job = replicate MYTBF_MAX None, mt_heap = Map.empty, mut_job = False,
     once_done = False, alrm_tid = False, mt_exit_hooks = 0\<rparr>"

section \<open>Operations\<close>

definition get_free_pos_unlocked :: "mt_module \<Rightarrow> int" where
  "get_free_pos_unlocked m = scan_slots (mt_job m)"

text \<open>Lock a bucket, refill it, wake its waiters, unlock it; \<open>None\<close> when its mutex is held.\<close>

definition mt_refill :: "mt_bucket \<Rightarrow> mt_bucket option" where
  "mt_refill b = (if mut b then None else
     (let b1 = b\<lparr>mut := True\<rparr>;
          b2 = b1\<lparr>token := c_int (token b1 + cps b1)\<rparr>;
          b3 = (if token b2 > burst b2 then b2\<lparr>token := burst b2\<rparr> else b2);
          b4 = b3\<lparr>cond_waiters := 0\<rparr>
      in Some (b4\<lparr>mut := False\<rparr>)))"

definition mt_refill_at :: "nat \<Rightarrow> (nat \<rightharpoonup> mt_bucket) \<Rightarrow> (nat \<rightharpoonup> mt_bucket) option" where
  "mt_refill_at a h = (case h a of
      None \<Rightarrow> None
    | Some b \<Rightarrow> (case mt_refill b of None \<Rightarrow> None | Some b' \<Rightarrow> Some (h(a \<mapsto> b'))))"

text \<open>
  One round of the timer thread's loop, up to its \<open>sleep\<close>, when no other thread runs in between. The round holds \<open>mut_job\<close> throughout, but the mutex of a
  bucket only while it refills that bucket: \<open>thr_alarm_at\<close> is what it does at one slot, and \<open>mt_step\<close> below lets clients run between the slots.
\<close>

definition thr_alarm_at :: "nat \<Rightarrow> mt_module \<Rightarrow> mt_module option" where
  "thr_alarm_at i m = (case mt_job m ! i of
      None \<Rightarrow> Some m
    | Some a \<Rightarrow> map_option (\<lambda>h. m\<lparr>mt_heap := h\<rparr>) (mt_refill_at a (mt_heap m)))"

definition thr_alarm :: "mt_module \<Rightarrow> mt_module option" where
  "thr_alarm m =
     (if mut_job m then None
      else (let m1 = m\<lparr>mut_job := True\<rparr>
            in map_option (\<lambda>h. m1\<lparr>mt_heap := h, mut_job := False\<rparr>)
                 (for_ptrs mt_refill_at (mt_job m1) (mt_heap m1))))"

text \<open>\<open>module_load\<close>; \<open>err\<close> is the result of \<open>pthread_create\<close>.\<close>

definition mt_module_load :: "int \<Rightarrow> mt_module \<Rightarrow> (unit, mt_module) outcome" where
  "mt_module_load err m =
     (if err \<noteq> 0 then Exit 1 m
      else Ret () (m\<lparr>alrm_tid := True, mt_exit_hooks := Suc (mt_exit_hooks m)\<rparr>))"

definition mt_init ::
  "int \<Rightarrow> int \<Rightarrow> int \<Rightarrow> nat option \<Rightarrow> mt_module \<Rightarrow> (nat option, mt_module) outcome" where
  "mt_init err c b mal m =
     bind_outcome
       (if once_done m then Ret () m else mt_module_load err (m\<lparr>once_done := True\<rparr>))
       (\<lambda>_ m1. case mal of
           None \<Rightarrow> Ret None m1
         | Some me \<Rightarrow>
             (let b0 = \<lparr>cps = c, burst = b, token = 0, pos = 0, mut = False, cond_waiters = 0\<rparr>;
                  m2 = m1\<lparr>mt_heap := (mt_heap m1)(me \<mapsto> b0)\<rparr>
              in if mut_job m2 then Blocked m2
                 else (let m3 = m2\<lparr>mut_job := True\<rparr>;
                           ps = get_free_pos_unlocked m3
                       in if ps = -1
                          then (let m4 = m3\<lparr>mut_job := False\<rparr>
                                in Ret None (m4\<lparr>mt_heap := (mt_heap m4)(me := None)\<rparr>))
                          else (let m4 = m3\<lparr>mt_heap := (mt_heap m3)(me \<mapsto> b0\<lparr>pos := ps\<rparr>),
                                            mt_job := (mt_job m3)[nat ps := Some me]\<rparr>
                                in Ret (Some me) (m4\<lparr>mut_job := False\<rparr>)))))"

text \<open>
  The locked loop \<^verbatim>\<open>while (me->token <= 0) pthread_cond_wait(...)\<close>: waiting releases the bucket's
  mutex; \<open>n\<close> counts the rounds of the timer thread still to come.
\<close>

fun mt_wait_token :: "nat \<Rightarrow> nat \<Rightarrow> mt_module \<Rightarrow> (unit, mt_module) outcome" where
  "mt_wait_token n p m = (case mt_heap m p of
      None \<Rightarrow> Undef m
    | Some b \<Rightarrow>
        if token b \<le> 0 then
          (let m1 = m\<lparr>mt_heap := (mt_heap m)(p \<mapsto> b\<lparr>mut := False, cond_waiters := Suc (cond_waiters b)\<rparr>)\<rparr>
           in case n of
                0 \<Rightarrow> Blocked m1
              | Suc n' \<Rightarrow>
                  (case thr_alarm m1 of
                     None \<Rightarrow> Blocked m1
                   | Some m2 \<Rightarrow>
                       (case mt_heap m2 p of
                          None \<Rightarrow> Undef m2
                        | Some b2 \<Rightarrow>
                            mt_wait_token n' p (m2\<lparr>mt_heap := (mt_heap m2)(p \<mapsto> b2\<lparr>mut := True\<rparr>)\<rparr>))))
        else Ret () m)"

declare mt_wait_token.simps [simp del]

definition mt_fetchToken :: "nat \<Rightarrow> nat \<Rightarrow> int \<Rightarrow> mt_module \<Rightarrow> (int, mt_module) outcome" where
  "mt_fetchToken n p sz m =
     (if sz \<le> 0 then Ret (- EINVAL) m
      else case mt_heap m p of
          None \<Rightarrow> Undef m
        | Some b \<Rightarrow>
            if mut b then Blocked m
            else bind_outcome (mt_wait_token n p (m\<lparr>mt_heap := (mt_heap m)(p \<mapsto> b\<lparr>mut := True\<rparr>)\<rparr>))
              (\<lambda>_ m1. case mt_heap m1 p of
                 None \<Rightarrow> Undef m1
               | Some b1 \<Rightarrow>
                   (let k = tbf_min (token b1) sz
                    in Ret k (m1\<lparr>mt_heap := (mt_heap m1)(p \<mapsto>
                         b1\<lparr>token := c_int (token b1 - k), mut := False\<rparr>)\<rparr>))))"

definition mt_returnToken :: "nat \<Rightarrow> int \<Rightarrow> mt_module \<Rightarrow> (int, mt_module) outcome" where
  "mt_returnToken p sz m =
     (if sz \<le> 0 then Ret (- EINVAL) m
      else case mt_heap m p of
          None \<Rightarrow> Undef m
        | Some b \<Rightarrow>
            if mut b then Blocked m
            else (let b1 = b\<lparr>mut := True\<rparr>;
                      b2 = b1\<lparr>token := c_int (token b1 + sz)\<rparr>;
                      b3 = (if token b2 > burst b2 then b2\<lparr>token := burst b2\<rparr> else b2);
                      b4 = b3\<lparr>cond_waiters := 0\<rparr>
                  in Ret sz (m\<lparr>mt_heap := (mt_heap m)(p \<mapsto> b4\<lparr>mut := False\<rparr>)\<rparr>)))"

text \<open>\<open>mytbf_destroy\<close>: destroying a held mutex or a condition with waiters is undefined.\<close>

definition mt_destroy :: "nat \<Rightarrow> mt_module \<Rightarrow> (int, mt_module) outcome" where
  "mt_destroy p m =
     (if mut_job m then Blocked m
      else case mt_heap m p of
          None \<Rightarrow> Undef m
        | Some b \<Rightarrow>
            if 0 \<le> pos b \<and> nat (pos b) < MYTBF_MAX
            then (let m1 = m\<lparr>mut_job := True\<rparr>;
                      m2 = m1\<lparr>mt_job := (mt_job m1)[nat (pos b) := None]\<rparr>;
                      m3 = m2\<lparr>mut_job := False\<rparr>
                  in if mut b \<or> cond_waiters b \<noteq> 0 then Undef m3
                     else Ret 0 (m3\<lparr>mt_heap := (mt_heap m3)(p := None)\<rparr>))
            else Undef m)"

text \<open>\<open>module_unload\<close>: stop the timer thread, then destroy what the table still holds.\<close>

fun mt_unload_from :: "nat \<Rightarrow> nat \<Rightarrow> mt_module \<Rightarrow> (unit, mt_module) outcome" where
  "mt_unload_from i 0 m = Ret () m"
| "mt_unload_from i (Suc k) m = (case mt_job m ! i of
      None \<Rightarrow> mt_unload_from (Suc i) k m
    | Some p \<Rightarrow> bind_outcome (mt_destroy p m) (\<lambda>_ m1. mt_unload_from (Suc i) k m1))"

definition mt_module_unload :: "mt_module \<Rightarrow> (unit, mt_module) outcome" where
  "mt_module_unload m = mt_unload_from 0 MYTBF_MAX (m\<lparr>alrm_tid := False\<rparr>)"

section \<open>Invariant and laws\<close>

text \<open>Between operations: table and buckets correspond and every mutex is free.\<close>

definition mt_inv :: "mt_module \<Rightarrow> bool" where
  "mt_inv m \<longleftrightarrow> table_inv (mt_job m) (mt_heap m) \<and> \<not> mut_job m \<and>
     (\<forall>a b. mt_heap m a = Some b \<longrightarrow> \<not> mut b)"

lemma mt_inv_start: "mt_inv mt_start"
  by (simp add: mt_inv_def mt_start_def table_inv_start)

lemma mt_inv_cell: "mt_inv m \<Longrightarrow> mt_heap m a = Some b \<Longrightarrow> bucket_ok b \<and> \<not> mut b"
  by (auto simp: mt_inv_def dest: table_inv_cell)

lemma mt_inv_upd [inv_intros]:
  "mt_inv m \<Longrightarrow> mt_heap m p = Some b \<Longrightarrow> pos b' = pos b \<Longrightarrow> bucket_ok b' \<Longrightarrow> \<not> mut b' \<Longrightarrow>
   mt_inv (m\<lparr>mt_heap := (mt_heap m)(p \<mapsto> b')\<rparr>)"
  by (auto simp: mt_inv_def table_inv_upd split: if_splits)

definition mt_tick :: "mt_bucket \<Rightarrow> mt_bucket" where
  "mt_tick b = (spec_tick b)\<lparr>cond_waiters := 0\<rparr>"

lemma mt_refill_spec: "bucket_ok b \<Longrightarrow> \<not> mut b \<Longrightarrow> mt_refill b = Some (mt_tick b)"
  by (auto simp: mt_refill_def mt_tick_def spec_tick_def Let_def bucket_ok_add_tick min_def)

lemma for_ptrs_cong:
  "(\<And>a h. a \<in> set (ptrs ps) \<Longrightarrow> I h \<Longrightarrow> f a h = g a h) \<Longrightarrow>
   (\<And>a h h'. a \<in> set (ptrs ps) \<Longrightarrow> I h \<Longrightarrow> g a h = Some h' \<Longrightarrow> I h') \<Longrightarrow>
   I h \<Longrightarrow> for_ptrs f ps h = for_ptrs g ps h"
proof (induction ps arbitrary: h rule: ptrs.induct)
  case 1
  then show ?case by simp
next
  case (2 ps)
  from 2(1) [OF 2(2,3) 2(4)] show ?case by simp
next
  case (3 b ps)
  have "for_ptrs f ps h' = for_ptrs g ps h'" if "g b h = Some h'" for h'
  proof (rule "3.IH")
    show "f a k = g a k" if "a \<in> set (ptrs ps)" "I k" for a k using 3(2) [of a k] that by simp
    show "I k'" if "a \<in> set (ptrs ps)" "I k" "g a k = Some k'" for a k k'
      using 3(3) [of a k k'] that by simp
    show "I h'" using 3(3) [of b h h'] that 3(4) by simp
  qed
  with 3(2) [of b h] 3(4) show ?case by (simp split: option.split)
qed

lemma unlocked [simp]: "\<not> mut b \<Longrightarrow> b\<lparr>mut := False\<rparr> = b"
  by simp

lemma thr_alarm_spec:
  assumes "mt_inv m"
  shows "thr_alarm m = Some (m\<lparr>mt_heap := \<lambda>a. map_option mt_tick (mt_heap m a)\<rparr>)"
proof -
  let ?I = "\<lambda>h. \<forall>a b. h a = Some b \<longrightarrow> bucket_ok b \<and> \<not> mut (b :: mt_bucket)"
  have keep: "?I (h(a \<mapsto> mt_tick b))" if "?I h" "h a = Some b" for h :: "nat \<rightharpoonup> mt_bucket" and a b
    using that bucket_ok_tick [of b]
    by (auto simp: mt_tick_def spec_tick_def bucket_ok_def split: if_splits)
  have "for_ptrs mt_refill_at (mt_job m) (mt_heap m) =
      for_ptrs (upd_cell (\<lambda>b. Some (mt_tick b))) (mt_job m) (mt_heap m)"
  proof (rule for_ptrs_cong [where I = ?I])
    show "mt_refill_at a h = upd_cell (\<lambda>b. Some (mt_tick b)) a h" if "?I h" for a h
      using that by (auto simp: mt_refill_at_def upd_cell_def mt_refill_spec split: option.split)
    show "?I h'" if "?I h" "upd_cell (\<lambda>b. Some (mt_tick b)) a h = Some h'" for a :: nat and h h'
    proof -
      from that(2) obtain b where "h a = Some b" "h' = h(a \<mapsto> mt_tick b)"
        by (auto simp: upd_cell_def split: option.splits)
      with keep [OF that(1)] show ?thesis by simp
    qed
    show "?I (mt_heap m)" using mt_inv_cell [OF assms] by blast
  qed
  also have "\<dots> = Some (\<lambda>a. map_option mt_tick (mt_heap m a))"
  proof -
    have "Option.bind x (\<lambda>b. Some (mt_tick b)) = map_option mt_tick x" for x by (cases x) simp_all
    then show ?thesis using table_for_ptrs [of "mt_job m" "mt_heap m"] assms by (simp add: mt_inv_def)
  qed
  finally show ?thesis using assms by (simp add: thr_alarm_def mt_inv_def Let_def)
qed

lemma mt_inv_tick [inv_intros]:
  assumes "mt_inv m"
  shows "mt_inv (m\<lparr>mt_heap := \<lambda>a. map_option mt_tick (mt_heap m a)\<rparr>)"
proof -
  have "table_inv (mt_job m) (\<lambda>a. map_option mt_tick (mt_heap m a))"
  proof (rule table_inv_heap)
    show "table_inv (mt_job m) (mt_heap m)" using assms by (simp add: mt_inv_def)
    show "pos b' = pos b \<and> bucket_ok b'"
      if "mt_heap m a = Some b" "map_option mt_tick (mt_heap m a) = Some b'" for a b b'
      using that mt_inv_cell [OF assms that(1)] bucket_ok_tick [of b]
      by (auto simp: mt_tick_def spec_tick_def bucket_ok_def)
  qed (auto simp: dom_def)
  with assms show ?thesis by (auto simp: mt_inv_def mt_tick_def spec_tick_def)
qed

text \<open>The four fields a client of the contract sees.\<close>

definition mt_cell :: "mt_module \<Rightarrow> nat \<rightharpoonup> mytbf_st" where
  "mt_cell m a = map_option mytbf_st.truncate (mt_heap m a)"

lemma truncate_simps [simp]:
  "token (mytbf_st.truncate b) = token b" "cps (mytbf_st.truncate b) = cps b"
  "burst (mytbf_st.truncate b) = burst b" "pos (mytbf_st.truncate b) = pos b"
  by (simp_all add: mytbf_st.truncate_def)

lemma mt_cell_Some: "mt_cell m p = Some b \<longleftrightarrow> (\<exists>c. mt_heap m p = Some c \<and> b = mytbf_st.truncate c)"
  by (auto simp: mt_cell_def)

lemma mt_cell_None: "mt_cell m p = None \<longleftrightarrow> mt_heap m p = None"
  by (simp add: mt_cell_def)

lemma mt_cell_upd:
  "mt_cell (m\<lparr>mt_heap := (mt_heap m)(p \<mapsto> b)\<rparr>) = (mt_cell m)(p \<mapsto> mytbf_st.truncate b)"
  by (auto simp: mt_cell_def fun_eq_iff)

lemma mt_fetch_spec:
  assumes "mt_inv m" "mt_heap m p = Some b" "0 < sz" "0 < token b"
  shows "mt_fetchToken n p sz m =
    Ret (min (token b) sz) (m\<lparr>mt_heap := (mt_heap m)(p \<mapsto> spec_fetch sz b)\<rparr>)"
  using assms mt_inv_cell [OF assms(1,2)]
  by (simp add: mt_fetchToken_def mt_wait_token.simps [of n p] spec_fetch_def Let_def bucket_ok_sub_min)

lemma mt_return_spec:
  assumes "mt_inv m" "mt_heap m p = Some b" "0 < sz" "sz \<le> TBF_LIM"
  shows "mt_returnToken p sz m =
    Ret sz (m\<lparr>mt_heap := (mt_heap m)(p \<mapsto> (spec_return sz b)\<lparr>cond_waiters := 0\<rparr>)\<rparr>)"
  using assms mt_inv_cell [OF assms(1,2)]
  by (auto simp: mt_returnToken_def spec_return_def Let_def bucket_ok_add_size min_def)

lemma mt_fetch_wait_spec:
  assumes "mt_inv m" "mt_heap m p = Some b" "0 < sz" "token b \<le> 0"
  shows "mt_fetchToken 0 p sz m =
    Blocked (m\<lparr>mt_heap := (mt_heap m)(p \<mapsto> b\<lparr>cond_waiters := Suc (cond_waiters b)\<rparr>)\<rparr>)"
  using assms mt_inv_cell [OF assms(1,2)]
  by (simp add: mt_fetchToken_def mt_wait_token.simps [of 0 p] Let_def)

interpretation mt: token_buckets mt_inv mt_cell thr_alarm "mt_fetchToken 0" mt_returnToken
proof (unfold_locales, goal_cases)
  case (1 m a b)
  then show ?case by (auto simp: mt_cell_Some bucket_ok_def dest: mt_inv_cell)
next
  case (2 m)
  have "mytbf_st.truncate (mt_tick b) = spec_tick (mytbf_st.truncate b)" for b
    by (simp add: mt_tick_def spec_tick_def mytbf_st.truncate_def)
  then have "map_option mytbf_st.truncate (map_option mt_tick x) = map_option spec_tick (map_option mytbf_st.truncate x)" for x
    by (cases x) simp_all
  with 2 show ?case by (simp add: thr_alarm_spec mt_inv_tick mt_cell_def [abs_def])
next
  case (3 sz p m)
  then show ?case by (simp add: mt_fetchToken_def)
next
  case (4 m p b sz)
  then obtain c where c: "mt_heap m p = Some c" "b = mytbf_st.truncate c" by (auto simp: mt_cell_Some)
  with 4 have "mt_cell (m\<lparr>mt_heap := (mt_heap m)(p \<mapsto> c\<lparr>cond_waiters := Suc (cond_waiters c)\<rparr>)\<rparr>) = mt_cell m"
    by (auto simp: mt_cell_upd mytbf_st.truncate_def)
  moreover have "mt_inv (m\<lparr>mt_heap := (mt_heap m)(p \<mapsto> c\<lparr>cond_waiters := Suc (cond_waiters c)\<rparr>)\<rparr>)"
    using mt_inv_cell [OF 4(1) c(1)] by (intro mt_inv_upd [OF 4(1) c(1)]) (auto simp: bucket_ok_def)
  ultimately show ?case using mt_fetch_wait_spec [OF 4(1) c(1) 4(3)] 4(4) c(2) by simp
next
  case (5 m p b sz)
  then obtain c where c: "mt_heap m p = Some c" "b = mytbf_st.truncate c" by (auto simp: mt_cell_Some)
  have "mt_inv (m\<lparr>mt_heap := (mt_heap m)(p \<mapsto> spec_fetch sz c)\<rparr>)"
    using mt_inv_cell [OF 5(1) c(1)] 5(3) bucket_ok_fetch [of c sz]
    by (intro mt_inv_upd [OF 5(1) c(1)]) (simp_all add: spec_fetch_def)
  then show ?case using mt_fetch_spec [OF 5(1) c(1) 5(3)] 5(4) c(2)
    by (simp add: mt_cell_upd spec_fetch_def mytbf_st.truncate_def)
next
  case (6 sz p m)
  then show ?case by (simp add: mt_returnToken_def)
next
  case (7 m p b sz)
  then obtain c where c: "mt_heap m p = Some c" "b = mytbf_st.truncate c" by (auto simp: mt_cell_Some)
  have "mt_inv (m\<lparr>mt_heap := (mt_heap m)(p \<mapsto> (spec_return sz c)\<lparr>cond_waiters := 0\<rparr>)\<rparr>)"
    using mt_inv_cell [OF 7(1) c(1)] 7(3) bucket_ok_return [of c sz]
    by (intro mt_inv_upd [OF 7(1) c(1)]) (simp_all add: spec_return_def bucket_ok_def)
  then show ?case using mt_return_spec [OF 7(1) c(1) 7(3,4)] c(2)
    by (simp add: mt_cell_upd spec_return_def mytbf_st.truncate_def)
next
  case (8 m p sz)
  then show ?case by (simp add: mt_fetchToken_def mt_cell_None)
next
  case (9 m p sz)
  then show ?case by (simp add: mt_returnToken_def mt_cell_None)
qed

definition mt_occupy :: "nat \<Rightarrow> nat \<Rightarrow> mt_module \<Rightarrow> mt_module" where
  "mt_occupy i a m = m\<lparr>mt_job := (mt_job m)[i := Some a]\<rparr>"

definition mt_release :: "nat \<Rightarrow> mt_module \<Rightarrow> mt_module" where
  "mt_release i m = m\<lparr>mt_job := (mt_job m)[i := None]\<rparr>"

interpretation mt_slots: slot_table mt_inv mt_job MYTBF_MAX get_free_pos_unlocked mt_occupy mt_release
  by unfold_locales
     (auto simp: mt_inv_def get_free_pos_unlocked_def mt_occupy_def mt_release_def dest: table_inv_length)

section \<open>Properties of \<open>mytbf_multithread/mytbf.c\<close>\<close>

text \<open>
  The traffic bound holds for the threaded version as well: however the rounds of the timer
  thread and the critical sections of the clients interleave, the tokens a bucket grants minus
  those handed back never exceed its burst plus its rate times the number of rounds.
\<close>

theorem mt_traffic_bound:
  assumes "mt_inv m" and "mt_heap m p = Some b" and "list_all ev_ok es"
    and "\<And>e q. e \<in> set es \<Longrightarrow> ev_ptr e = Some q \<Longrightarrow> mt_heap m q \<noteq> None"
  shows "\<exists>l m'. tbf_run thr_alarm (mt_fetchToken 0) mt_returnToken es m = Some (l, m')
    \<and> map fst l = es \<and> granted p l - handed_back p l \<le> burst b + cps b * ticks l"
proof -
  have c: "mt_cell m p = Some (mytbf_st.truncate b)" using assms(2) by (simp add: mt_cell_def)
  have "\<exists>l m'. tbf_run thr_alarm (mt_fetchToken 0) mt_returnToken es m = Some (l, m') \<and> map fst l = es"
    by (rule mt.run_total [OF assms(1,3)]) (use assms(4) in \<open>auto simp: mt_cell_None\<close>)
  with mt.conformance [OF assms(1) c _ assms(3)] show ?thesis by fastforce
qed

text \<open>
  No sleeper is forgotten: threads wait on a bucket's condition variable only while the bucket is
  empty.
\<close>

definition wake_inv :: "mt_module \<Rightarrow> bool" where
  "wake_inv m \<longleftrightarrow> (\<forall>a b. mt_heap m a = Some b \<longrightarrow> 0 < cond_waiters b \<longrightarrow> token b \<le> 0)"

lemma wake_inv_step:
  assumes "mt_inv m" "wake_inv m" "ev_ok e"
    "tbf_step thr_alarm (mt_fetchToken 0) mt_returnToken e m = Some (r, m')"
  shows "mt_inv m' \<and> wake_inv m'"
proof -
  have alloc: "mt_heap m q \<noteq> None" if "e = EvFetch q n \<or> e = EvReturn q n" "0 < n" for q n
  proof
    assume "mt_heap m q = None"
    with that assms(4) show False
      by (auto simp: tbf_step_def mt_fetchToken_def mt_returnToken_def)
  qed
  show ?thesis
  proof (cases e)
    case EvTick
    with assms have "m' = m\<lparr>mt_heap := \<lambda>a. map_option mt_tick (mt_heap m a)\<rparr>"
      by (simp add: tbf_step_def thr_alarm_spec)
    with mt_inv_tick [OF assms(1)] show ?thesis by (auto simp: wake_inv_def mt_tick_def)
  next
    case (EvFetch q n)
    consider "n \<le> 0" | b where "0 < n" "mt_heap m q = Some b" using alloc EvFetch by fastforce
    then show ?thesis
    proof cases
      case 1
      with assms EvFetch show ?thesis by (simp add: tbf_step_def mt_fetchToken_def)
    next
      case 2
      note b = mt_inv_cell [OF assms(1) 2(2)]
      show ?thesis
      proof (cases "0 < token b")
        case True
        then have m': "m' = m\<lparr>mt_heap := (mt_heap m)(q \<mapsto> spec_fetch n b)\<rparr>"
          using assms(4) EvFetch mt_fetch_spec [OF assms(1) 2(2,1) True] by (simp add: tbf_step_def)
        have "mt_inv m'" unfolding m'
          using b bucket_ok_fetch [of b n] 2(1)
          by (intro mt_inv_upd [OF assms(1) 2(2)]) (simp_all add: spec_fetch_def)
        moreover have "cond_waiters b = 0" using assms(2) 2(2) True by (fastforce simp: wake_inv_def)
        ultimately show ?thesis using assms(2) by (auto simp: m' wake_inv_def spec_fetch_def)
      next
        case False
        then have m': "m' = m\<lparr>mt_heap := (mt_heap m)(q \<mapsto> b\<lparr>cond_waiters := Suc (cond_waiters b)\<rparr>)\<rparr>"
          using assms(4) EvFetch mt_fetch_wait_spec [OF assms(1) 2(2,1)] by (simp add: tbf_step_def)
        have "mt_inv m'" unfolding m'
          using b by (intro mt_inv_upd [OF assms(1) 2(2)]) (simp_all add: bucket_ok_def)
        with False assms(2) show ?thesis by (auto simp: m' wake_inv_def)
      qed
    qed
  next
    case (EvReturn q n)
    consider "n \<le> 0" | b where "0 < n" "mt_heap m q = Some b" using alloc EvReturn by fastforce
    then show ?thesis
    proof cases
      case 1
      with assms EvReturn show ?thesis by (simp add: tbf_step_def mt_returnToken_def)
    next
      case 2
      from assms(3) EvReturn have n: "n \<le> TBF_LIM" by simp
      then have m': "m' = m\<lparr>mt_heap := (mt_heap m)(q \<mapsto> (spec_return n b)\<lparr>cond_waiters := 0\<rparr>)\<rparr>"
        using assms(4) EvReturn mt_return_spec [OF assms(1) 2(2,1)] by (auto simp: tbf_step_def)
      have "mt_inv m'" unfolding m'
        using mt_inv_cell [OF assms(1) 2(2)] bucket_ok_return [of b n] 2(1)
        by (intro mt_inv_upd [OF assms(1) 2(2)]) (simp_all add: spec_return_def bucket_ok_def)
      with assms(2) show ?thesis by (auto simp: m' wake_inv_def)
    qed
  qed
qed

text \<open>
  Threads that interleave at every critical section: the timer thread rests, or holds \<open>mut_job\<close> and is at a slot of the table; clients
  fetch and return at any time, also in the middle of a round.
\<close>

datatype timer = Resting | At_slot nat

inductive mt_step :: "timer \<times> mt_module \<Rightarrow> timer \<times> mt_module \<Rightarrow> bool" where
  locks: "\<not> mut_job m \<Longrightarrow> mt_step (Resting, m) (At_slot 0, m\<lparr>mut_job := True\<rparr>)"
| refills: "i < MYTBF_MAX \<Longrightarrow> thr_alarm_at i m = Some m' \<Longrightarrow> mt_step (At_slot i, m) (At_slot (Suc i), m')"
| unlocks: "mt_step (At_slot MYTBF_MAX, m) (Resting, m\<lparr>mut_job := False\<rparr>)"
| client: "e \<noteq> EvTick \<Longrightarrow> ev_ok e \<Longrightarrow> tbf_step thr_alarm (mt_fetchToken 0) mt_returnToken e m = Some (r, m') \<Longrightarrow> mt_step (t, m) (t, m')"

text \<open>A round without clients in between is \<open>thr_alarm\<close>.\<close>

lemma slots_steps:
  assumes "for_ptrs mt_refill_at (drop i (mt_job m)) (mt_heap m) = Some h" "length (mt_job m) = MYTBF_MAX" "i \<le> MYTBF_MAX"
  shows "mt_step\<^sup>*\<^sup>* (At_slot i, m) (At_slot MYTBF_MAX, m\<lparr>mt_heap := h\<rparr>)"
  using assms
proof (induction "MYTBF_MAX - i" arbitrary: i m)
  case 0
  then have "drop i (mt_job m) = []" "i = MYTBF_MAX" by auto
  with 0 have "h = mt_heap m" "i = MYTBF_MAX" by auto
  then show ?case by simp
next
  case (Suc n)
  then have i: "i < MYTBF_MAX" by simp
  then have d: "drop i (mt_job m) = mt_job m ! i # drop (Suc i) (mt_job m)" using Suc.prems(2) by (simp add: Cons_nth_drop_Suc)
  have "\<exists>h1. thr_alarm_at i m = Some (m\<lparr>mt_heap := h1\<rparr>) \<and> for_ptrs mt_refill_at (drop (Suc i) (mt_job m)) h1 = Some h"
  proof (cases "mt_job m ! i")
    case None
    with Suc.prems(1) d show ?thesis by (intro exI [of _ "mt_heap m"]) (simp add: thr_alarm_at_def)
  qed (use Suc.prems(1) d in \<open>auto simp: thr_alarm_at_def split: option.splits\<close>)
  then obtain h1 where h1: "thr_alarm_at i m = Some (m\<lparr>mt_heap := h1\<rparr>)" "for_ptrs mt_refill_at (drop (Suc i) (mt_job m)) h1 = Some h" by blast
  have "mt_step\<^sup>*\<^sup>* (At_slot (Suc i), m\<lparr>mt_heap := h1\<rparr>) (At_slot MYTBF_MAX, (m\<lparr>mt_heap := h1\<rparr>)\<lparr>mt_heap := h\<rparr>)"
    using Suc.hyps(2) Suc.prems(2) i h1(2) by (intro Suc.hyps(1)) auto
  with refills [OF i h1(1)] show ?case by (auto intro: converse_rtranclp_into_rtranclp)
qed

lemma thr_alarm_steps:
  assumes "thr_alarm m = Some m'" "length (mt_job m) = MYTBF_MAX"
  shows "mt_step\<^sup>*\<^sup>* (Resting, m) (Resting, m')"
proof -
  obtain h where h: "\<not> mut_job m" "for_ptrs mt_refill_at (mt_job m) (mt_heap m) = Some h" "m' = m\<lparr>mt_heap := h, mut_job := False\<rparr>"
    using assms(1) by (auto simp: thr_alarm_def Let_def split: if_splits)
  from slots_steps [of 0 "m\<lparr>mut_job := True\<rparr>" h] h assms(2)
  have "mt_step\<^sup>*\<^sup>* (At_slot 0, m\<lparr>mut_job := True\<rparr>) (At_slot MYTBF_MAX, m\<lparr>mut_job := True, mt_heap := h\<rparr>)" by simp
  moreover have "mt_step (At_slot MYTBF_MAX, m\<lparr>mut_job := True, mt_heap := h\<rparr>) (Resting, m')"
    using unlocks [of "m\<lparr>mut_job := True, mt_heap := h\<rparr>"] h(3) by simp
  ultimately have "mt_step\<^sup>*\<^sup>* (At_slot 0, m\<lparr>mut_job := True\<rparr>) (Resting, m')" by (rule rtranclp.rtrancl_into_rtrancl)
  with locks [OF h(1)] show ?thesis by (rule converse_rtranclp_into_rtranclp)
qed

text \<open>Clients do not look at \<open>mut_job\<close>, and the refill of one bucket keeps the invariant of all.\<close>

lemma client_frame:
  assumes "e \<noteq> EvTick"
  shows "tbf_step thr_alarm (mt_fetchToken 0) mt_returnToken e (m\<lparr>mut_job := c\<rparr>) =
    map_option (map_prod id (\<lambda>m. m\<lparr>mut_job := c\<rparr>)) (tbf_step thr_alarm (mt_fetchToken 0) mt_returnToken e m)"
proof (cases e)
  case (EvFetch p n)
  then show ?thesis
    by (cases "mt_heap m p") (simp_all add: tbf_step_def mt_fetchToken_def mt_wait_token.simps [of 0 p] Let_def)
next
  case (EvReturn p n)
  then show ?thesis
    by (cases "mt_heap m p") (simp_all add: tbf_step_def mt_returnToken_def Let_def)
qed (use assms in simp)

definition fine_inv :: "timer \<times> mt_module \<Rightarrow> bool" where
  "fine_inv st = (case st of (t, m) \<Rightarrow> mt_inv (m\<lparr>mut_job := False\<rparr>) \<and> wake_inv m \<and> mut_job m = (t \<noteq> Resting) \<and> (\<forall>i. t = At_slot i \<longrightarrow> i \<le> MYTBF_MAX))"

lemma refill_inv:
  assumes "mt_inv (m\<lparr>mut_job := False\<rparr>)" "wake_inv m" "i < MYTBF_MAX"
  shows "\<exists>m'. thr_alarm_at i m = Some m' \<and> mt_inv (m'\<lparr>mut_job := False\<rparr>) \<and> wake_inv m' \<and> mut_job m' = mut_job m"
proof (cases "mt_job m ! i")
  case (Some a)
  moreover have "\<forall>i < MYTBF_MAX. \<forall>a. mt_job m ! i = Some a \<longrightarrow> (\<exists>b. mt_heap m a = Some b \<and> pos b = int i)"
    using assms(1) by (simp add: mt_inv_def table_inv_def)
  ultimately obtain b where b: "mt_heap m a = Some b" using assms(3) by blast
  note ok = mt_inv_cell [OF assms(1), simplified, OF b]
  have "thr_alarm_at i m = Some (m\<lparr>mt_heap := (mt_heap m)(a \<mapsto> mt_tick b)\<rparr>)"
    using Some b ok by (simp add: thr_alarm_at_def mt_refill_at_def mt_refill_spec)
  moreover have "mt_inv (m\<lparr>mut_job := False, mt_heap := (mt_heap m)(a \<mapsto> mt_tick b)\<rparr>)"
    using mt_inv_upd [OF assms(1), of a b "mt_tick b"] b ok bucket_ok_tick [of b] by (simp add: mt_tick_def spec_tick_def bucket_ok_def)
  moreover have "m\<lparr>mut_job := False, mt_heap := h\<rparr> = m\<lparr>mt_heap := h, mut_job := False\<rparr>" for h by (cases m) simp
  ultimately show ?thesis using assms(2) by (auto simp: wake_inv_def mt_tick_def)
qed (use assms in \<open>simp add: thr_alarm_at_def\<close>)

lemma fine_inv_step: "mt_step st st' \<Longrightarrow> fine_inv st \<Longrightarrow> fine_inv st'"
proof (induction rule: mt_step.induct)
  case (refills i m m')
  with refill_inv [of m i] show ?case by (auto simp: fine_inv_def)
next
  case (client e m r m' t)
  then have "mt_inv (m\<lparr>mut_job := False\<rparr>)" "wake_inv (m\<lparr>mut_job := False\<rparr>)" by (auto simp: fine_inv_def wake_inv_def)
  moreover have "tbf_step thr_alarm (mt_fetchToken 0) mt_returnToken e (m\<lparr>mut_job := False\<rparr>) = Some (r, m'\<lparr>mut_job := False\<rparr>)"
    using client_frame [OF client(1), where m = m and c = False] client(3) by simp
  ultimately have "mt_inv (m'\<lparr>mut_job := False\<rparr>) \<and> wake_inv (m'\<lparr>mut_job := False\<rparr>)" using client(2) by (intro wake_inv_step)
  moreover have "m'\<lparr>mut_job := mut_job m\<rparr> = m'"
    using client_frame [OF client(1), where m = m and c = "mut_job m"] client(3) by simp
  then have "mut_job m' = mut_job m" by (metis mt_module.select_convs(3) mt_module.surjective mt_module.update_convs(3))
  ultimately show ?case using client(4) by (auto simp: fine_inv_def wake_inv_def)
qed (auto simp: fine_inv_def wake_inv_def)

lemma timer_live:
  assumes "fine_inv (t, m)"
  shows "\<exists>t' m'. t' \<noteq> t \<and> mt_step (t, m) (t', m')"
proof (cases t)
  case Resting
  with assms locks [of m] show ?thesis by (auto simp: fine_inv_def)
next
  case (At_slot i)
  show ?thesis
  proof (cases "i < MYTBF_MAX")
    case True
    with assms At_slot refill_inv [of m i] obtain m' where "thr_alarm_at i m = Some m'" by (auto simp: fine_inv_def)
    from refills [OF True this] At_slot show ?thesis by (intro exI [of _ "At_slot (Suc i)"] exI [of _ m']) simp
  next
    case False
    with assms At_slot unlocks [of m] show ?thesis by (auto simp: fine_inv_def)
  qed
qed

text \<open>
  C4: No wake-up is lost: in every state a run of the threaded module reaches, threads sleep on
  a bucket's condition variable only while the bucket has no tokens, and every mutex is free. The first part is about runs in which
  a round of the timer thread is one event, the second about runs in which clients also come between the buckets
  of a round: then \<open>mut_job\<close> is held during the round and only then, the mutexes of the buckets are free between the critical sections, and the timer thread can always go on.
\<close>

theorem mt_no_lost_wakeup:
  assumes "mt_inv m" and "wake_inv m"
  shows "(\<forall>es l m'. list_all ev_ok es \<longrightarrow> tbf_run thr_alarm (mt_fetchToken 0) mt_returnToken es m = Some (l, m') \<longrightarrow>
      \<not> mut_job m' \<and> (\<forall>a b. mt_heap m' a = Some b \<longrightarrow> \<not> mut b \<and> (0 < cond_waiters b \<longrightarrow> token b \<le> 0))) \<and>
    (\<forall>t m'. mt_step\<^sup>*\<^sup>* (Resting, m) (t, m') \<longrightarrow> mut_job m' = (t \<noteq> Resting) \<and>
      (\<forall>a b. mt_heap m' a = Some b \<longrightarrow> \<not> mut b \<and> (0 < cond_waiters b \<longrightarrow> token b \<le> 0)) \<and>
      (\<exists>t2 m2. t2 \<noteq> t \<and> mt_step (t, m') (t2, m2)))"
proof (intro conjI allI impI)
  fix t m' assume r: "mt_step\<^sup>*\<^sup>* (Resting, m) (t, m')"
  have "fine_inv (Resting, m)" using assms by (simp add: fine_inv_def mt_inv_def)
  with r have f: "fine_inv (t, m')" by (induction rule: rtranclp_induct) (auto intro: fine_inv_step)
  then show "mut_job m' = (t \<noteq> Resting)" by (simp add: fine_inv_def)
  show "\<not> mut b" "0 < cond_waiters b \<Longrightarrow> token b \<le> 0" if "mt_heap m' a = Some b" for a b
    using f that by (auto simp: fine_inv_def mt_inv_def wake_inv_def)
  show "\<exists>t2 m2. t2 \<noteq> t \<and> mt_step (t, m') (t2, m2)" using timer_live [OF f] by blast
next
  fix es l m'
  assume e: "list_all ev_ok es" "tbf_run thr_alarm (mt_fetchToken 0) mt_returnToken es m = Some (l, m')"
  have "mt_inv m' \<and> wake_inv m'"
    using assms e
  proof (induction es arbitrary: m l)
    case Nil
    then show ?case by simp
  next
    case (Cons e es)
    from Cons.prems(4) obtain r m1 l1 where
      s: "tbf_step thr_alarm (mt_fetchToken 0) mt_returnToken e m = Some (r, m1)" and
      r: "tbf_run thr_alarm (mt_fetchToken 0) mt_returnToken es m1 = Some (l1, m')"
      by (auto split: option.splits)
    from Cons.prems(3) have "mt_inv m1 \<and> wake_inv m1"
      by (intro wake_inv_step [OF Cons.prems(1,2) _ s]) simp
    with Cons.IH [OF _ _ _ r] Cons.prems(3) show ?case by simp
  qed
  then show "\<not> mut_job m'" "mt_heap m' a = Some b \<Longrightarrow> \<not> mut b" "mt_heap m' a = Some b \<Longrightarrow> 0 < cond_waiters b \<Longrightarrow> token b \<le> 0" for a b
    by (auto simp: mt_inv_def wake_inv_def)
qed

text \<open>The module with one bucket of rate 10 and depth 100 at address 7.\<close>

definition ex_mt :: mt_module where
  "ex_mt = mt_start\<lparr>mt_heap := [7 \<mapsto> \<lparr>cps = 10, burst = 100, token = 0, pos = 0, mut = False, cond_waiters = 0\<rparr>],
     mt_job := (mt_job mt_start)[0 := Some 7], once_done := True, alrm_tid := True, mt_exit_hooks := 1\<rparr>"

lemma mt_start_scan: "scan_slots (mt_job mt_start) = 0"
  by (simp add: mt_start_def scan_slots_replicate MYTBF_MAX_def)

lemma ex_mt_init: "mt_init 0 10 100 (Some 7) mt_start = Ret (Some 7) ex_mt"
  by (simp add: mt_init_def mt_module_load_def Let_def get_free_pos_unlocked_def ex_mt_def
      mt_start_scan) (simp add: mt_start_def)

lemma ex_mt_inv: "mt_inv ex_mt"
proof -
  have "table_inv ((mt_job mt_start)[nat (scan_slots (mt_job mt_start)) := Some 7])
      (Map.empty(7 \<mapsto> \<lparr>cps = 10, burst = 100, token = 0, pos = 0, mut = False, cond_waiters = 0\<rparr>))"
    by (rule table_inv_add)
       (simp_all add: mt_start_scan bucket_ok_def TBF_LIM_def,
        simp add: mt_start_def table_inv_start)
  then show ?thesis by (auto simp: mt_inv_def ex_mt_def mt_start_scan, simp add: mt_start_def)
qed

theorem mt_traffic_bound_witness:
  "\<exists>l m'. tbf_run thr_alarm (mt_fetchToken 0) mt_returnToken [EvFetch 7 5, EvTick, EvFetch 7 8] ex_mt
      = Some (l, m') \<and> map fst l = [EvFetch 7 5, EvTick, EvFetch 7 8] \<and>
    granted 7 l - handed_back 7 l \<le> 100 + 10 * ticks l"
  using mt_traffic_bound [OF ex_mt_inv, of 7 _ "[EvFetch 7 5, EvTick, EvFetch 7 8]"]
  by (simp add: ex_mt_def) fastforce

lemma ex_mt_cell: "mt_cell ex_mt q \<noteq> None \<longleftrightarrow> q = 7"
  by (simp add: mt_cell_def ex_mt_def)

theorem mt_no_lost_wakeup_witness:
  "\<exists>l m'. tbf_run thr_alarm (mt_fetchToken 0) mt_returnToken [EvFetch 7 5, EvTick] ex_mt = Some (l, m') \<and>
    \<not> mut_job m' \<and> (\<forall>a b. mt_heap m' a = Some b \<longrightarrow> \<not> mut b \<and> (0 < cond_waiters b \<longrightarrow> token b \<le> 0))"
proof -
  let ?es = "[EvFetch 7 5, EvTick]"
  have "wake_inv ex_mt" by (simp add: wake_inv_def ex_mt_def)
  moreover have "\<exists>l m'. tbf_run thr_alarm (mt_fetchToken 0) mt_returnToken ?es ex_mt = Some (l, m')
      \<and> map fst l = ?es"
  proof (rule mt.run_total [OF ex_mt_inv])
    show "list_all ev_ok ?es" by simp
    show "mt_cell ex_mt q \<noteq> None" if "e \<in> set ?es" "ev_ptr e = Some q" for e q
      unfolding ex_mt_cell using that by auto
  qed
  then obtain l m' where l: "tbf_run thr_alarm (mt_fetchToken 0) mt_returnToken ?es ex_mt = Some (l, m')" by blast
  moreover have "list_all ev_ok ?es" by simp
  moreover note mt_no_lost_wakeup [OF ex_mt_inv, THEN conjunct1, rule_format, of ?es l m']
  ultimately show ?thesis by (intro exI [of _ l] exI [of _ m']) blast
qed

text \<open>
  \<open>mytbf_init\<close> of the threaded version releases the table's mutex on every path, returns
  \<open>NULL\<close> exactly when \<open>malloc\<close> fails or the table is full, and gives the memory it took back
  when the table is full.
\<close>

theorem mt_init_correct:
  assumes "mt_inv m" and "\<And>a. mal = Some a \<Longrightarrow> mt_heap m a = None"
    and "0 \<le> c" and "c \<le> TBF_LIM" and "0 \<le> b" and "b \<le> TBF_LIM" and "once_done m \<or> err = 0"
  shows "\<exists>r m'. mt_init err c b mal m = Ret r m' \<and> mt_inv m' \<and>
    (r = None \<longleftrightarrow> used (mt_job m) = MYTBF_MAX \<or> mal = None) \<and>
    (r = None \<longrightarrow> mt_heap m' = mt_heap m \<and> mt_job m' = mt_job m)"
proof -
  define m1 where "m1 = (if once_done m then m else
    m\<lparr>once_done := True, alrm_tid := True, mt_exit_hooks := Suc (mt_exit_hooks m)\<rparr>)"
  have load: "(if once_done m then Ret () m else mt_module_load err (m\<lparr>once_done := True\<rparr>)) = Ret () m1"
    using assms(7) by (auto simp: mt_module_load_def m1_def)
  have m1: "mt_inv m1" "mt_job m1 = mt_job m" "mt_heap m1 = mt_heap m" "\<not> mut_job m1"
    using assms(1) by (simp_all add: m1_def mt_inv_def)
  have tab: "table_inv (mt_job m) (mt_heap m)" using assms(1) by (simp add: mt_inv_def)
  show ?thesis
  proof (cases mal)
    case None
    with m1 load show ?thesis by (simp add: mt_init_def)
  next
    case (Some a)
    show ?thesis
    proof (cases "scan_slots (mt_job m) = -1")
      case True
      have [simp]: "(mt_heap m)(a := None) = mt_heap m" using assms(2) [OF Some] by auto
      from True table_free_cases(1) [OF tab] Some m1 load show ?thesis
        by (simp add: mt_init_def Let_def get_free_pos_unlocked_def) (simp add: mt_inv_def)
    next
      case False
      let ?b = "\<lparr>cps = c, burst = b, token = 0, pos = scan_slots (mt_job m), mut = False, cond_waiters = 0\<rparr>"
      have "table_inv ((mt_job m)[nat (scan_slots (mt_job m)) := Some a]) ((mt_heap m)(a \<mapsto> ?b))"
        using assms(2) [OF Some] assms(3-6) by (intro table_inv_add [OF tab False]) (simp_all add: bucket_ok_def)
      with False table_free_cases(1) [OF tab] Some m1 load assms(1) show ?thesis
        by (auto simp: mt_init_def Let_def get_free_pos_unlocked_def mt_inv_def)
    qed
  qed
qed

theorem mt_init_correct_witness:
  "\<exists>r m'. mt_init 0 10 100 (Some 7) mt_start = Ret r m' \<and> mt_inv m'"
  using mt_init_correct [OF mt_inv_start, of "Some 7" 10 100 0] by (auto simp: TBF_LIM_def mt_start_def)

end
