(* ===== verification/Slowcat.thy ===== *)
theory Slowcat
  imports Token_Bucket_SA Token_Bucket_MT Posix
begin

text \<open>
  The rate-limited \<open>cat\<close> programs: \<open>slowcat.c\<close>, \<open>slowcat2.c\<close> and the \<open>main.c\<close> of the three token
  buckets. All five read a permitted number of bytes, write them completely and start over.
\<close>

section \<open>The common loop\<close>

text \<open>Running an operation of the limiter beside the world.\<close>

definition beside :: "'w \<Rightarrow> ('a, 'm) outcome \<Rightarrow> ('a, 'm \<times> 'w) outcome" where
  "beside w r = map_outcome (\<lambda>m. (m, w)) r"

definition beside' :: "'m \<Rightarrow> ('a, 'w) outcome \<Rightarrow> ('a, 'm \<times> 'w) outcome" where
  "beside' m r = map_outcome (\<lambda>w. (m, w)) r"

lemma beside_simps [simp]: "beside w (Ret a m) = Ret a (m, w)" "beside' m (Ret a w) = Ret a (m, w)"
  by (simp_all add: beside_def beside'_def)

text \<open>
  The \<^verbatim>\<open>while(1)\<close> of these programs: \<open>acq\<close> waits for permission and says how many bytes may be
  read, \<open>rel\<close> hands unused permission back. A failed read ends the loop after a message.
\<close>

fun limited_cat ::
  "('m \<Rightarrow> (int, 'm) outcome) \<Rightarrow> (int \<Rightarrow> 'm \<Rightarrow> (int, 'm) outcome) \<Rightarrow> nat \<Rightarrow> int \<Rightarrow> 'm \<Rightarrow> world \<Rightarrow> (unit, 'm \<times> world) outcome" where
  "limited_cat acq rel 0 sfd m w = OutOfFuel (m, w)"
| "limited_cat acq rel (Suc n) sfd m w =
     bind_outcome (beside w (acq m)) (\<lambda>sz (m1, w1).
       if sz < 0 then Exit 1 (m1, w1)
       else (case sys_read sfd (nat sz) w1 of (len, bs, w2) \<Rightarrow>
         if len < 0 then Ret () (m1, perror ''read()'' w2)
         else if len = 0 then Ret () (m1, w2)
         else bind_outcome (if sz - len > 0 then beside w2 (rel (sz - len) m1) else Ret 0 (m1, w2)) (\<lambda>_ (m2, w3).
           bind_outcome (beside' m2 (write_all 1 bs w3)) (\<lambda>_ (m3, w4). limited_cat acq rel n sfd m3 w4))))"

declare limited_cat.simps(2) [simp del]

text \<open>
  A limiter always gives between 1 and \<open>lim\<close> bytes in the end. Where it keeps accounts (\<open>metered\<close>),
  \<open>paid\<close> covers what it gives.
\<close>

locale limiter =
  fixes acq :: "'m \<Rightarrow> (int, 'm) outcome"
    and rel :: "int \<Rightarrow> 'm \<Rightarrow> (int, 'm) outcome"
    and invar :: "'m \<Rightarrow> bool"
    and lim :: int
    and metered :: bool
    and paid :: "'m \<Rightarrow> int"
  assumes acq_ok: "invar m \<Longrightarrow> \<exists>r m'. acq m = Ret r m' \<and> 1 \<le> r \<and> r \<le> lim \<and> invar m'"
    and rel_ok: "invar m \<Longrightarrow> 0 < k \<Longrightarrow> k < lim \<Longrightarrow> \<exists>r m'. rel k m = Ret r m' \<and> invar m'"
    and acq_paid: "metered \<Longrightarrow> invar m \<Longrightarrow> acq m = Ret r m' \<Longrightarrow> paid m + r \<le> paid m'"
    and rel_paid: "metered \<Longrightarrow> invar m \<Longrightarrow> 0 < k \<Longrightarrow> rel k m = Ret r m' \<Longrightarrow> paid m - k \<le> paid m'"
begin

definition file_like :: "rd_ev list \<Rightarrow> bool" where
  "file_like es \<longleftrightarrow> stream_ends es \<and> RErr EAGAIN \<notin> set es"

lemma cat_step:
  assumes "invar m" "file_like (rd_script w sfd)" "sink_total (wr_script w 1)"
  obtains (stop) m' w' where "\<And>n. limited_cat acq rel (Suc n) sfd m w = Ret () (m', w')" "invar m'" "written w' = written w"
      "metered \<longrightarrow> paid m \<le> paid m'" "stream (rd_script w sfd) = []"
  | (copy) m' w' bs where "\<And>n. limited_cat acq rel (Suc n) sfd m w = limited_cat acq rel n sfd m' w'" "invar m'"
      "written w' = (written w)(1 := written w 1 @ bs)" "stream (rd_script w sfd) = bs @ stream (rd_script w' sfd)"
      "file_like (rd_script w' sfd)" "sink_total (wr_script w' 1)" "metered \<longrightarrow> paid m + int (length bs) \<le> paid m'" "rd_work (rd_script w' sfd) < rd_work (rd_script w sfd)"
proof -
  obtain r m1 where a: "acq m = Ret r m1" "1 \<le> r" "r \<le> lim" "invar m1" using acq_ok [OF assms(1)] by blast
  have pd: "metered \<longrightarrow> paid m + r \<le> paid m1" using acq_paid [OF _ assms(1) a(1)] by blast
  obtain e es where e: "rd_script w sfd = e # es" using assms(2) by (cases "rd_script w sfd") (auto simp: file_like_def)
  show thesis
  proof (cases "ending e")
    case True
    show thesis
    proof (cases e)
      case (RErr k)
      let ?w = "perror ''read()'' (w\<lparr>errno := k, rd_script := (rd_script w)(sfd := es)\<rparr>)"
      from RErr True e a pd show thesis by (intro stop [of m1 ?w]) (auto simp: limited_cat.simps(2) sys_read_def perror_def)
    next
      case (RData bs)
      let ?w = "w\<lparr>rd_script := (rd_script w)(sfd := es)\<rparr>"
      from RData True e a pd show thesis by (intro stop [of m1 ?w]) (auto simp: limited_cat.simps(2) sys_read_def)
    qed
  next
    case False
    have "e \<noteq> RErr k" for k using False assms(2) e by (auto simp: file_like_def)
    then obtain bs where bs: "e = RData bs" "bs \<noteq> []" using False by (cases e) auto
    define got where "got = take (nat r) bs"
    define rest where "rest = (if drop (nat r) bs = [] then es else RData (drop (nat r) bs) # es)"
    define w2 where "w2 = w\<lparr>rd_script := (rd_script w)(sfd := rest)\<rparr>"
    have got: "0 < length got" "int (length got) \<le> r" "got @ drop (nat r) bs = bs" using bs a(2) by (auto simp: got_def)
    have rd: "sys_read sfd (nat r) w = (int (length got), got, w2)"
      using e bs by (simp add: sys_read_def got_def w2_def rest_def)
    obtain q m2 where m2: "(if r - int (length got) > 0 then beside w2 (rel (r - int (length got)) m1) else Ret 0 (m1, w2)) = Ret q (m2, w2)" "invar m2"
      and pd2: "metered \<longrightarrow> paid m + int (length got) \<le> paid m2"
    proof (cases "r - int (length got) > 0")
      case True
      then obtain q m2 where "rel (r - int (length got)) m1 = Ret q m2" "invar m2"
        using rel_ok [OF a(4), of "r - int (length got)"] got a(3) by auto
      with True rel_paid [OF _ a(4) True, of q m2] pd show ?thesis by (intro that [of q m2]) auto
    next
      case False
      with a(4) pd got(2) show ?thesis by (intro that [of 0 m1]) auto
    qed
    obtain w3 where w3: "write_all 1 got w2 = Ret () w3" "written w3 = (written w2)(1 := written w2 1 @ got)"
      "rd_script w3 = rd_script w2" "sink_total (wr_script w3 1)"
      using write_all_ok [of w2 1 got] assms(3) by (auto simp: w2_def)
    have step: "limited_cat acq rel (Suc n) sfd m w = limited_cat acq rel n sfd m2 w3" for n
      using a(1,2) rd got(1) m2(1) w3(1) by (simp add: limited_cat.simps(2))
    have lb: "length bs = length got + length (drop (nat r) bs)" using arg_cong [OF got(3), of length] by simp
    have str: "stream (rd_script w sfd) = got @ stream rest"
    proof -
      have "stream (rd_script w sfd) = (got @ drop (nat r) bs) @ stream es" using e bs got(3) by simp
      moreover have "stream rest = drop (nat r) bs @ stream es" by (simp add: rest_def)
      ultimately show ?thesis by simp
    qed
    show thesis
    proof (rule copy [OF step m2(2)])
      show "written w3 = (written w)(1 := written w 1 @ got)" by (simp add: w3(2) w2_def)
      show "stream (rd_script w sfd) = got @ stream (rd_script w3 sfd)" using str by (simp add: w3(3) w2_def)
      show "file_like (rd_script w3 sfd)" using assms(2) e bs by (auto simp: file_like_def w3(3) w2_def rest_def)
      show "rd_work (rd_script w3 sfd) < rd_work (rd_script w sfd)" using e bs got(1) lb a(2) by (auto simp: w3(3) w2_def rest_def)
      show "metered \<longrightarrow> paid m + int (length got) \<le> paid m2" by (rule pd2)
    qed (rule w3(4))
  qed
qed

lemma cat_copies:
  assumes "invar m" "file_like (rd_script w sfd)" "sink_total (wr_script w 1)" "rd_work (rd_script w sfd) < fuel"
  shows "\<exists>m' w'. limited_cat acq rel fuel sfd m w = Ret () (m', w') \<and> invar m' \<and>
    written w' = (written w)(1 := written w 1 @ stream (rd_script w sfd)) \<and>
    (metered \<longrightarrow> paid m + int (length (stream (rd_script w sfd))) \<le> paid m')"
  using assms
proof (induction fuel arbitrary: m w)
  case (Suc n)
  show ?case
  proof (cases rule: cat_step [OF Suc.prems(1-3)])
    case (1 m' w')
    then show ?thesis by simp
  next
    case (2 m' w' bs)
    have "rd_work (rd_script w' sfd) < n" using 2(8) Suc.prems(4) by simp
    from Suc.IH [OF 2(2,5,6) this] obtain m2 w2 where
      "limited_cat acq rel n sfd m' w' = Ret () (m2, w2)" "invar m2"
      "written w2 = (written w')(1 := written w' 1 @ stream (rd_script w' sfd))"
      "metered \<longrightarrow> paid m' + int (length (stream (rd_script w' sfd))) \<le> paid m2" by blast
    with 2(1) [of n] 2(3,4,7) show ?thesis by (auto simp: fun_eq_iff)
  qed
qed simp

end

section \<open>\<open>slowcat.c\<close>\<close>

text \<open>
  \<open>loop_flag\<close> is \<open>loop\<close>. \<open>due\<close> says for each turn whether an alarm comes while the program reads and
  writes; \<open>fired\<close> and \<open>turns\<close> count alarms and turns for the statement of the rate.
\<close>

record slowcat_st =
  loop_flag :: bool
  due :: "bool list"
  fired :: nat
  turns :: nat

definition slow_handler :: "slowcat_st \<Rightarrow> slowcat_st" where
  "slow_handler m = m\<lparr>loop_flag := True, fired := Suc (fired m)\<rparr>"

text \<open>\<^verbatim>\<open>while(!loop) pause(); loop = 0;\<close>: the periodic timer ends the pause with its next alarm.\<close>

definition slow_wait :: "slowcat_st \<Rightarrow> (int, slowcat_st) outcome" where
  "slow_wait m =
     (let m1 = (if \<not> loop_flag m then slow_handler m else m);
          m2 = m1\<lparr>loop_flag := False, turns := Suc (turns m1)\<rparr>
      in Ret 10 (case due m2 of
           [] \<Rightarrow> m2
         | d # ds \<Rightarrow> (let m3 = m2\<lparr>due := ds\<rparr> in if d then slow_handler m3 else m3)))"

text \<open>\<open>main\<close>: \<open>tfail\<close> is the failure of \<open>setitimer\<close>.\<close>

definition slowcat_main :: "bool \<Rightarrow> nat \<Rightarrow> string list \<Rightarrow> slowcat_st \<Rightarrow> world \<Rightarrow> (unit, slowcat_st \<times> world) outcome" where
  "slowcat_main tfail fuel argv m w =
     (if length argv < 2 then Exit 1 (m, w)
      else if tfail then Exit 1 (m, perror ''seitimer()'' w)
      else (case sys_open (argv ! 1) 0 w of (sfd, w1) \<Rightarrow>
        if sfd < 0 then Exit 1 (m, perror ''open()'' w1)
        else bind_outcome (limited_cat slow_wait (\<lambda>k m. Ret 0 m) fuel sfd m w1) (\<lambda>_ (m2, w2).
          Exit 0 (m2, sys_close sfd w2))))"

definition slow_inv :: "slowcat_st \<Rightarrow> bool" where
  "slow_inv m \<longleftrightarrow> turns m + (if loop_flag m then 1 else 0) \<le> fired m"

lemma slow_wait_inv: "slow_inv m \<Longrightarrow> \<exists>m'. slow_wait m = Ret 10 m' \<and> slow_inv m' \<and> turns m' = Suc (turns m)"
  by (auto simp: slow_wait_def slow_handler_def slow_inv_def Let_def split: list.split)

interpretation slow: limiter slow_wait "\<lambda>k m. Ret 0 m" slow_inv 10 True "\<lambda>m. 10 * int (turns m)"
proof (unfold_locales, goal_cases)
  case (1 m)
  then show ?case using slow_wait_inv [of m] by auto
next
  case (3 m r m')
  then show ?case using slow_wait_inv [of m] by auto
qed simp_all

text \<open>What the five programs print when the file can be read to its end and the output never fails.\<close>

definition cat_ready :: "world \<Rightarrow> string \<Rightarrow> int \<Rightarrow> bool" where
  "cat_ready w path sfd \<longleftrightarrow> open_fd w path = sfd \<and> 0 \<le> sfd \<and> stream_ends (rd_script w sfd) \<and>
     RErr EAGAIN \<notin> set (rd_script w sfd) \<and> sink_total (wr_script w 1)"

lemma cat_ready_open:
  assumes "cat_ready w path sfd"
  obtains w1 where "sys_open path fl w = (sfd, w1)" "\<not> sfd < 0" "rd_script w1 = rd_script w" "wr_script w1 = wr_script w"
    "written w1 = written w" "closed w1 = closed w"
  using assms by (auto simp: cat_ready_def sys_open_def Let_def)

text \<open>
  \<open>slowcat\<close> prints the whole file, then exits with status 0; at every moment it has printed at
  most 10 bytes per alarm received, so the total is bounded by ten times the number of alarms.
\<close>

theorem slowcat_copies_at_rate:
  assumes "cat_ready w (argv ! 1) sfd" and "2 \<le> length argv" and "rd_work (rd_script w sfd) < fuel"
  shows "\<exists>m' w'. slowcat_main False fuel argv \<lparr>loop_flag = False, due = ds, fired = 0, turns = 0\<rparr> w = Exit 0 (m', w') \<and>
    written w' 1 = written w 1 @ stream (rd_script w sfd) \<and> sfd \<in> set (closed w') \<and>
    length (stream (rd_script w sfd)) \<le> 10 * fired m'"
proof -
  let ?m = "\<lparr>loop_flag = False, due = ds, fired = 0, turns = 0\<rparr>"
  obtain w1 where o: "sys_open (argv ! 1) 0 w = (sfd, w1)" "\<not> sfd < 0" "rd_script w1 = rd_script w" "wr_script w1 = wr_script w"
    "written w1 = written w" by (rule cat_ready_open [OF assms(1)])
  have "slow_inv ?m" by (simp add: slow_inv_def)
  from slow.cat_copies [OF this, of w1 sfd fuel] o assms(1,3) obtain m' w2 where
    c: "limited_cat slow_wait (\<lambda>k m. Ret 0 m) fuel sfd ?m w1 = Ret () (m', w2)" "slow_inv m'"
      "written w2 = (written w)(1 := written w 1 @ stream (rd_script w sfd))"
      "int (length (stream (rd_script w sfd))) \<le> 10 * int (turns m')"
    by (auto simp: slow.file_like_def cat_ready_def)
  have "turns m' \<le> fired m'" using c(2) by (auto simp: slow_inv_def split: if_splits)
  with c o assms(2) show ?thesis by (auto simp: slowcat_main_def sys_close_def)
qed

text \<open>A file and an output that takes few bytes at a time, for the concrete instances.\<close>

definition ex_file :: world where
  "ex_file = \<lparr>open_fd = (\<lambda>p. if p = ''f'' then 5 else -1),
     rd_script = (\<lambda>fd. if fd = 5 then [RData [1, 2, 3, 4, 5, 6, 7, 8, 9, 10, 11, 12], RData []] else []),
     wr_script = (\<lambda>fd. if fd = 1 then [WAccept 3, WAccept 0] else []),
     written = (\<lambda>fd. []), fd_flags = (\<lambda>fd. 2), errno = 0, perrs = [], closed = []\<rparr>"

lemma ex_file_ready: "cat_ready ex_file ([''cat'', ''f''] ! 1) 5"
  by (simp add: cat_ready_def ex_file_def sink_total_def)

theorem slowcat_copies_at_rate_witness:
  "\<exists>m' w'. slowcat_main False 20 [''cat'', ''f''] \<lparr>loop_flag = False, due = [True], fired = 0, turns = 0\<rparr> ex_file = Exit 0 (m', w') \<and>
    written w' 1 = [1, 2, 3, 4, 5, 6, 7, 8, 9, 10, 11, 12] \<and> 12 \<le> 10 * fired m'"
  using slowcat_copies_at_rate [OF ex_file_ready, of 20 "[True]"] by (auto simp: ex_file_def)

section \<open>\<open>slowcat2.c\<close>\<close>

record slowcat2_st =
  s2_token :: int
  s2_due :: "nat list"
  s2_fired :: nat
  s2_turns :: nat

definition slow2_handler :: "slowcat2_st \<Rightarrow> slowcat2_st" where
  "slow2_handler m = (let m1 = m\<lparr>s2_token := s2_token m + 1, s2_fired := Suc (s2_fired m)\<rparr>
     in if s2_token m1 > 100 then m1\<lparr>s2_token := 100\<rparr> else m1)"

text \<open>\<^verbatim>\<open>while(token <= 0) pause(); token--;\<close>; \<open>s2_due\<close> counts the alarms during each turn's work.\<close>

function slow2_pause :: "slowcat2_st \<Rightarrow> slowcat2_st" where
  "slow2_pause m = (if s2_token m \<le> 0 then slow2_pause (slow2_handler m) else m)"
  by pat_completeness auto
termination
  by (relation "measure (\<lambda>m. nat (1 - s2_token m))") (auto simp: slow2_handler_def Let_def)

declare slow2_pause.simps [simp del]

definition slow2_wait :: "slowcat2_st \<Rightarrow> (int, slowcat2_st) outcome" where
  "slow2_wait m =
     (let m1 = slow2_pause m;
          m2 = m1\<lparr>s2_token := s2_token m1 - 1, s2_turns := Suc (s2_turns m1)\<rparr>
      in Ret 10 (case s2_due m2 of [] \<Rightarrow> m2 | d # ds \<Rightarrow> (slow2_handler ^^ d) (m2\<lparr>s2_due := ds\<rparr>)))"

definition slowcat2_main :: "nat \<Rightarrow> string list \<Rightarrow> slowcat2_st \<Rightarrow> world \<Rightarrow> (unit, slowcat2_st \<times> world) outcome" where
  "slowcat2_main fuel argv m w =
     (if length argv < 2 then Exit 1 (m, w)
      else (case sys_open (argv ! 1) 0 w of (sfd, w1) \<Rightarrow>
        if sfd < 0 then Exit 1 (m, perror ''open()'' w1)
        else bind_outcome (limited_cat slow2_wait (\<lambda>k m. Ret 0 m) fuel sfd m w1) (\<lambda>_ (m2, w2).
          Exit 0 (m2, sys_close sfd w2))))"

definition slow2_inv :: "slowcat2_st \<Rightarrow> bool" where
  "slow2_inv m \<longleftrightarrow> 0 \<le> s2_token m \<and> s2_token m \<le> 100 \<and> int (s2_turns m) + s2_token m \<le> int (s2_fired m)"

lemma slow2_handler_inv: "slow2_inv m \<Longrightarrow> slow2_inv (slow2_handler m) \<and> s2_turns (slow2_handler m) = s2_turns m \<and> 0 < s2_token (slow2_handler m)"
  by (auto simp: slow2_inv_def slow2_handler_def Let_def)

lemma slow2_handlers_inv: "slow2_inv m \<Longrightarrow> slow2_inv ((slow2_handler ^^ d) m) \<and> s2_turns ((slow2_handler ^^ d) m) = s2_turns m"
  by (induction d) (auto simp: slow2_handler_inv)

lemma slow2_pause_inv: "slow2_inv m \<Longrightarrow> slow2_inv (slow2_pause m) \<and> s2_turns (slow2_pause m) = s2_turns m \<and> 0 < s2_token (slow2_pause m)"
  using slow2_handler_inv [of m] by (cases "s2_token m \<le> 0") (auto simp: slow2_pause.simps [of m] slow2_pause.simps [of "slow2_handler m"])

lemma slow2_wait_inv:
  assumes "slow2_inv m"
  shows "\<exists>m'. slow2_wait m = Ret 10 m' \<and> slow2_inv m' \<and> s2_turns m' = Suc (s2_turns m)"
proof -
  define m2 where "m2 = (slow2_pause m)\<lparr>s2_token := s2_token (slow2_pause m) - 1, s2_turns := Suc (s2_turns (slow2_pause m))\<rparr>"
  have 2: "slow2_inv m2" "s2_turns m2 = Suc (s2_turns m)"
    using slow2_pause_inv [OF assms] by (auto simp: m2_def slow2_inv_def)
  have "slow2_wait m = Ret 10 (case s2_due m2 of [] \<Rightarrow> m2 | d # ds \<Rightarrow> (slow2_handler ^^ d) (m2\<lparr>s2_due := ds\<rparr>))"
    unfolding slow2_wait_def m2_def Let_def by (rule refl)
  moreover have "slow2_inv (m2\<lparr>s2_due := ds\<rparr>)" "s2_turns (m2\<lparr>s2_due := ds\<rparr>) = s2_turns m2" for ds
    using 2(1) by (simp_all add: slow2_inv_def)
  ultimately show ?thesis using 2 slow2_handlers_inv by (auto split: list.split)
qed

interpretation slow2: limiter slow2_wait "\<lambda>k m. Ret 0 m" slow2_inv 10 True "\<lambda>m. 10 * int (s2_turns m)"
proof (unfold_locales, goal_cases)
  case (1 m)
  then show ?case using slow2_wait_inv [of m] by auto
next
  case (3 m r m')
  then show ?case using slow2_wait_inv [of m] by auto
qed simp_all

text \<open>
  \<open>slowcat2\<close> prints the whole file and exits with status 0, and the total number of bytes is at most ten
  times the number of alarms received, even though it may save up to 100 unused alarms.
\<close>

theorem slowcat2_copies_at_rate:
  assumes "cat_ready w (argv ! 1) sfd" and "2 \<le> length argv" and "rd_work (rd_script w sfd) < fuel"
  shows "\<exists>m' w'. slowcat2_main fuel argv \<lparr>s2_token = 0, s2_due = ds, s2_fired = 0, s2_turns = 0\<rparr> w = Exit 0 (m', w') \<and>
    written w' 1 = written w 1 @ stream (rd_script w sfd) \<and> sfd \<in> set (closed w') \<and>
    length (stream (rd_script w sfd)) \<le> 10 * s2_fired m'"
proof -
  let ?m = "\<lparr>s2_token = 0, s2_due = ds, s2_fired = 0, s2_turns = 0\<rparr>"
  obtain w1 where o: "sys_open (argv ! 1) 0 w = (sfd, w1)" "\<not> sfd < 0" "rd_script w1 = rd_script w" "wr_script w1 = wr_script w"
    "written w1 = written w" by (rule cat_ready_open [OF assms(1)])
  have "slow2_inv ?m" by (simp add: slow2_inv_def)
  from slow2.cat_copies [OF this, of w1 sfd fuel] o assms(1,3) obtain m' w2 where
    c: "limited_cat slow2_wait (\<lambda>k m. Ret 0 m) fuel sfd ?m w1 = Ret () (m', w2)" "slow2_inv m'"
      "written w2 = (written w)(1 := written w 1 @ stream (rd_script w sfd))"
      "int (length (stream (rd_script w sfd))) \<le> 10 * int (s2_turns m')"
    by (auto simp: slow2.file_like_def cat_ready_def)
  have "s2_turns m' \<le> s2_fired m'" using c(2) by (auto simp: slow2_inv_def)
  with c o assms(2) show ?thesis by (auto simp: slowcat2_main_def sys_close_def)
qed

theorem slowcat2_copies_at_rate_witness:
  "\<exists>m' w'. slowcat2_main 20 [''cat'', ''f''] \<lparr>s2_token = 0, s2_due = [2], s2_fired = 0, s2_turns = 0\<rparr> ex_file = Exit 0 (m', w') \<and>
    written w' 1 = [1, 2, 3, 4, 5, 6, 7, 8, 9, 10, 11, 12] \<and> 12 \<le> 10 * s2_fired m'"
  using slowcat2_copies_at_rate [OF ex_file_ready, of 20 "[2]"] by (auto simp: ex_file_def)

section \<open>The \<open>main.c\<close> of the token buckets\<close>

text \<open>
  \<open>mytbf/main.c\<close>. \<open>al\<close> more alarms than one come while a fetch waits. The static handler and counter at
  the head of the file are never used.
\<close>

definition tbf_main :: "nat \<Rightarrow> nat option \<Rightarrow> nat \<Rightarrow> string list \<Rightarrow> tbf_module \<Rightarrow> world \<Rightarrow> (unit, tbf_module \<times> world) outcome" where
  "tbf_main al mal fuel argv m w =
     (if length argv < 2 then Exit 1 (m, w)
      else (case mytbf_init 10 100 mal m of
          (None, m1) \<Rightarrow> Exit 1 (m1, w)
        | (Some tbf, m1) \<Rightarrow>
            (case sys_open (argv ! 1) 0 w of (sfd, w1) \<Rightarrow>
              if sfd < 0 then Exit 1 (m1, perror ''open()'' w1)
              else bind_outcome (limited_cat (mytbf_fetchToken (Suc al) tbf 1024) (mytbf_returnToken tbf) fuel sfd m1 w1) (\<lambda>_ (m2, w2).
                bind_outcome (beside (sys_close sfd w2) (mytbf_destroy tbf m2)) (\<lambda>_ (m3, w3). Exit 0 (m3, w3))))))"

lemma return_live:
  assumes "tbf_live p m" "0 < k" "k < 1024"
  shows "\<exists>r m'. mytbf_returnToken p k m = Ret r m' \<and> tbf_live p m'"
proof -
  obtain b where b: "tbf_inv m" "heap m p = Some b" "0 < cps b" "0 < burst b"
    using assms(1) by (auto simp: tbf_live_def)
  have "k \<le> TBF_LIM" using assms(3) by (simp add: TBF_LIM_def)
  from return_spec [OF b(1,2) assms(2) this] b assms(2) this tbf_inv_cell [OF b(1,2)] show ?thesis
    by (auto simp: tbf_live_def intro!: tbf_inv_upd bucket_ok_return) (simp_all add: spec_return_def)
qed

interpretation tbfc: limiter "mytbf_fetchToken (Suc al) p 1024" "mytbf_returnToken p" "tbf_live p" 1024 False "\<lambda>m. 0" for al p
  by unfold_locales (use fetch_live return_live in auto)


lemma tbf_live_destroy:
  assumes "tbf_live p m"
  shows "\<exists>m'. mytbf_destroy p m = Ret 0 m' \<and> heap m' = (heap m)(p := None) \<and> tbf_inv m'"
proof -
  obtain b where b: "tbf_inv m" "heap m p = Some b" using assms by (auto simp: tbf_live_def)
  with table_inv_cell [of "job m" "heap m" p b] table_inv_remove [of "job m" "heap m" p b] show ?thesis
    by (simp add: tbf_inv_def mytbf_destroy_def)
qed

lemma tbf_init_live:
  assumes "tbf_inv m" "get_free_pos m \<noteq> -1" "heap m a = None"
  obtains m1 where "mytbf_init 10 100 (Some a) m = (Some a, m1)" "tbf_live a m1"
proof (rule that)
  show "mytbf_init 10 100 (Some a) m = (Some a, snd (mytbf_init 10 100 (Some a) m))"
    using assms(2) by (simp add: mytbf_init_def loaded_def [symmetric] Let_def)
  show "tbf_live a (snd (mytbf_init 10 100 (Some a) m))"
    using tbf_inv_new [OF assms, of 10 100] assms(2)
    by (simp add: tbf_live_def TBF_LIM_def) (simp add: mytbf_init_def loaded_def [symmetric] Let_def)
qed

text \<open>
  C14: The token-bucket \<open>cat\<close> of \<open>mytbf/main.c\<close> prints the whole file, closes it, destroys its bucket
  and exits with status 0, for every way in which the file delivers and the output takes its bytes,
  as long as the timer keeps firing.
\<close>

theorem tbf_main_copies:
  assumes "cat_ready w (argv ! 1) sfd" and "2 \<le> length argv" and "rd_work (rd_script w sfd) < fuel"
    and "tbf_inv m" and "get_free_pos m \<noteq> -1" and "heap m a = None"
  shows "\<exists>m' w'. tbf_main al (Some a) fuel argv m w = Exit 0 (m', w') \<and>
    written w' 1 = written w 1 @ stream (rd_script w sfd) \<and> sfd \<in> set (closed w') \<and> tbf_inv m' \<and> heap m' a = None"
proof -
  obtain w1 where o: "sys_open (argv ! 1) 0 w = (sfd, w1)" "\<not> sfd < 0" "rd_script w1 = rd_script w" "wr_script w1 = wr_script w"
    "written w1 = written w" by (rule cat_ready_open [OF assms(1)])
  obtain m1 where m1: "mytbf_init 10 100 (Some a) m = (Some a, m1)" "tbf_live a m1" by (rule tbf_init_live [OF assms(4-6)])
  from tbfc.cat_copies [OF m1(2), of w1 sfd fuel al] o assms(1,3) obtain m2 w2 where
    c: "limited_cat (mytbf_fetchToken (Suc al) a 1024) (mytbf_returnToken a) fuel sfd m1 w1 = Ret () (m2, w2)" "tbf_live a m2"
      "written w2 = (written w)(1 := written w 1 @ stream (rd_script w sfd))"
    by (auto simp: tbfc.file_like_def cat_ready_def)
  from tbf_live_destroy [OF c(2)] obtain m3 where "mytbf_destroy a m2 = Ret 0 m3" "tbf_inv m3" "heap m3 a = None" by auto
  with c o m1(1) assms(2) show ?thesis by (auto simp: tbf_main_def sys_close_def)
qed

theorem tbf_main_copies_witness:
  "\<exists>m' w'. tbf_main 0 (Some 7) 20 [''cat'', ''f''] (tbf_start SIG_DFL) ex_file = Exit 0 (m', w') \<and>
    written w' 1 = [1, 2, 3, 4, 5, 6, 7, 8, 9, 10, 11, 12] \<and> heap m' 7 = None"
proof -
  have "heap (tbf_start SIG_DFL) 7 = None" by (simp add: tbf_start_def)
  with tbf_main_copies [OF ex_file_ready, of 20 "tbf_start SIG_DFL" 7 0] tbf_inv_start [of SIG_DFL] get_free_pos_start [of SIG_DFL]
  show ?thesis by (auto simp: ex_file_def)
qed

text \<open>
  The mask that \<open>mytbf_sa/mytbf.c\<close> waits with is the argument \<open>om\<close> of \<open>sa_main\<close>. \<open>mytbf_sa/main.c\<close> and \<open>thread/posix/mytbf_multithread/main.c\<close>: the same program on the other modules.
\<close>

definition sa_main :: "int list \<Rightarrow> si_code list \<Rightarrow> nat option \<Rightarrow> nat \<Rightarrow> string list \<Rightarrow> sa_module \<Rightarrow> world \<Rightarrow> (unit, sa_module \<times> world) outcome" where
  "sa_main om sigs mal fuel argv m w =
     (if length argv < 2 then Exit 1 (m, w)
      else (case sa_init 10 100 mal m of
          (None, m1) \<Rightarrow> Exit 1 (m1, w)
        | (Some tbf, m1) \<Rightarrow>
            (case sys_open (argv ! 1) 0 w of (sfd, w1) \<Rightarrow>
              if sfd < 0 then Exit 1 (m1, perror ''open()'' w1)
              else bind_outcome (limited_cat (sa_fetchToken om (SI_KERNEL # sigs) tbf 1024) (sa_returnToken tbf) fuel sfd m1 w1) (\<lambda>_ (m2, w2).
                bind_outcome (beside (sys_close sfd w2) (sa_destroy tbf m2)) (\<lambda>_ (m3, w3). Exit 0 (m3, w3))))))"

definition mt_main :: "int \<Rightarrow> nat \<Rightarrow> nat option \<Rightarrow> nat \<Rightarrow> string list \<Rightarrow> mt_module \<Rightarrow> world \<Rightarrow> (unit, mt_module \<times> world) outcome" where
  "mt_main err al mal fuel argv m w =
     (if length argv < 2 then Exit 1 (m, w)
      else bind_outcome (beside w (mt_init err 10 100 mal m)) (\<lambda>r (m1, w0). case r of
          None \<Rightarrow> Exit 1 (m1, w0)
        | Some tbf \<Rightarrow>
            (case sys_open (argv ! 1) 0 w0 of (sfd, w1) \<Rightarrow>
              if sfd < 0 then Exit 1 (m1, perror ''open()'' w1)
              else bind_outcome (limited_cat (mt_fetchToken (Suc al) tbf 1024) (mt_returnToken tbf) fuel sfd m1 w1) (\<lambda>_ (m2, w2).
                bind_outcome (beside (sys_close sfd w2) (mt_destroy tbf m2)) (\<lambda>_ (m3, w3). Exit 0 (m3, w3))))))"

definition sa_live :: "nat \<Rightarrow> sa_module \<Rightarrow> bool" where
  "sa_live p m \<longleftrightarrow> sa_inv m \<and> (\<exists>b. sa_heap m p = Some b \<and> 0 < cps b \<and> 0 < burst b)"

lemma sa_fetch_live_now:
  assumes "sa_inv m" "sa_heap m p = Some b" "0 < cps b" "0 < burst b" "0 < sz" "0 < token b"
  shows "\<exists>r m'. sa_fetchToken om sigs p sz m = Ret r m' \<and> 1 \<le> r \<and> r \<le> sz \<and> sa_live p m'"
  using sa_fetch_spec [OF assms(1,2,5,6), of om sigs] assms sa_inv_cell [OF assms(1,2)]
  by (auto simp: sa_live_def intro!: sa_inv_upd bucket_ok_fetch) (simp_all add: spec_fetch_def)

lemma sa_fetch_live:
  assumes "sa_live p m" "0 < sz" "SIGALRM \<notin> set om"
  shows "\<exists>r m'. sa_fetchToken om (SI_KERNEL # sigs) p sz m = Ret r m' \<and> 1 \<le> r \<and> r \<le> sz \<and> sa_live p m'"
proof -
  obtain b where b: "sa_inv m" "sa_heap m p = Some b" "0 < cps b" "0 < burst b"
    using assms(1) by (auto simp: sa_live_def)
  show ?thesis
  proof (cases "0 < token b")
    case True
    with sa_fetch_live_now [OF b assms(2)] show ?thesis by blast
  next
    case False
    define m1 where "m1 = m\<lparr>sa_heap := \<lambda>a. map_option spec_tick (sa_heap m a)\<rparr>"
    have m1: "alrm_action SI_KERNEL m = Some m1" "sa_inv m1" "sa_heap m1 p = Some (spec_tick b)"
      using alrm_action_spec [OF b(1)] b(1,2) by (simp_all add: m1_def sa_inv_tick)
    have tok: "0 < cps (spec_tick b)" "0 < burst (spec_tick b)" "0 < token (spec_tick b)"
      using b(3,4) sa_inv_cell [OF b(1,2)] by (auto simp: spec_tick_def bucket_ok_def)
    have "sa_fetchToken om (SI_KERNEL # sigs) p sz m = sa_fetchToken om sigs p sz m1"
      using False b(2) assms(2,3) m1(1) by (simp add: sa_fetchToken_def sa_wait_token.simps [of om "SI_KERNEL # sigs"])
    with sa_fetch_live_now [OF m1(2,3) tok(1,2) assms(2) tok(3), of om sigs] show ?thesis by simp
  qed
qed

lemma sa_return_live:
  assumes "sa_live p m" "0 < k" "k < 1024"
  shows "\<exists>r m'. sa_returnToken p k m = Ret r m' \<and> sa_live p m'"
proof -
  obtain b where b: "sa_inv m" "sa_heap m p = Some b" "0 < cps b" "0 < burst b"
    using assms(1) by (auto simp: sa_live_def)
  have "k \<le> TBF_LIM" using assms(3) by (simp add: TBF_LIM_def)
  from sa_return_spec [OF b(1,2) assms(2) this] b assms(2) this sa_inv_cell [OF b(1,2)] show ?thesis
    by (auto simp: sa_live_def intro!: sa_inv_upd bucket_ok_return) (simp_all add: spec_return_def)
qed

interpretation sac: limiter "sa_fetchToken om (SI_KERNEL # sigs) p 1024" "sa_returnToken p" "\<lambda>m. SIGALRM \<notin> set om \<and> sa_live p m" 1024 False "\<lambda>m. 0" for om sigs p
  by unfold_locales (use sa_fetch_live sa_return_live in auto)


definition mt_live :: "nat \<Rightarrow> mt_module \<Rightarrow> bool" where
  "mt_live p m \<longleftrightarrow> mt_inv m \<and> (\<exists>b. mt_heap m p = Some b \<and> 0 < cps b \<and> 0 < burst b \<and> cond_waiters b = 0)"

lemma mt_fetch_live_now:
  assumes "mt_inv m" "mt_heap m p = Some b" "0 < cps b" "0 < burst b" "cond_waiters b = 0" "0 < sz" "0 < token b"
  shows "\<exists>r m'. mt_fetchToken n p sz m = Ret r m' \<and> 1 \<le> r \<and> r \<le> sz \<and> mt_live p m'"
  using mt_fetch_spec [OF assms(1,2,6,7), of n] assms mt_inv_cell [OF assms(1,2)]
  by (auto simp: mt_live_def intro!: mt_inv_upd bucket_ok_fetch) (simp_all add: spec_fetch_def)

lemma mt_fetch_after_tick:
  assumes "mt_inv m" "mt_heap m p = Some b" "token b \<le> 0" "0 < sz"
  defines "m1 \<equiv> m\<lparr>mt_heap := (mt_heap m)(p \<mapsto> b\<lparr>cond_waiters := Suc (cond_waiters b)\<rparr>)\<rparr>"
  shows "mt_fetchToken (Suc n) p sz m = mt_fetchToken n p sz (m1\<lparr>mt_heap := \<lambda>a. map_option mt_tick (mt_heap m1 a)\<rparr>)"
proof -
  have b: "bucket_ok b" "\<not> mut b" using mt_inv_cell [OF assms(1,2)] by auto
  have "mt_inv m1" unfolding m1_def
    using assms(2) b by (intro mt_inv_upd [OF assms(1,2)]) (simp_all add: bucket_ok_def)
  note t = thr_alarm_spec [OF this]
  have "\<not> mut (mt_tick b')" if "\<not> mut b'" for b' :: mt_bucket using that by (simp add: mt_tick_def spec_tick_def)
  with assms(2-4) b t show ?thesis
    by (simp add: mt_fetchToken_def mt_wait_token.simps [of "Suc n"] Let_def m1_def)
qed

lemma mt_fetch_live:
  assumes "mt_live p m" "0 < sz"
  shows "\<exists>r m'. mt_fetchToken (Suc n) p sz m = Ret r m' \<and> 1 \<le> r \<and> r \<le> sz \<and> mt_live p m'"
proof -
  obtain b where b: "mt_inv m" "mt_heap m p = Some b" "0 < cps b" "0 < burst b" "cond_waiters b = 0"
    using assms(1) by (auto simp: mt_live_def)
  have ok: "bucket_ok b" "\<not> mut b" using mt_inv_cell [OF b(1,2)] by auto
  show ?thesis
  proof (cases "0 < token b")
    case True
    with mt_fetch_live_now [OF b assms(2)] show ?thesis by blast
  next
    case False
    define c where "c = b\<lparr>cond_waiters := Suc (cond_waiters b)\<rparr>"
    define m1 where "m1 = m\<lparr>mt_heap := (mt_heap m)(p \<mapsto> c)\<rparr>"
    define m2 where "m2 = m1\<lparr>mt_heap := \<lambda>a. map_option mt_tick (mt_heap m1 a)\<rparr>"
    have "mt_inv m1" unfolding m1_def c_def using ok by (intro mt_inv_upd [OF b(1,2)]) (simp_all add: bucket_ok_def)
    then have i2: "mt_inv m2" unfolding m2_def by (rule mt_inv_tick)
    have h2: "mt_heap m2 p = Some (mt_tick c)" by (simp add: m2_def m1_def)
    have tok: "0 < cps (mt_tick c)" "0 < burst (mt_tick c)" "cond_waiters (mt_tick c) = 0" "0 < token (mt_tick c)"
      using b(3,4) ok(1) by (auto simp: mt_tick_def c_def spec_tick_def bucket_ok_def)
    have "mt_fetchToken (Suc n) p sz m = mt_fetchToken n p sz m2"
      using mt_fetch_after_tick [OF b(1,2) _ assms(2), of n] False by (simp add: m2_def m1_def c_def)
    with mt_fetch_live_now [OF i2 h2 tok(1-3) assms(2) tok(4), of n] show ?thesis by simp
  qed
qed

lemma mt_return_live:
  assumes "mt_live p m" "0 < k" "k < 1024"
  shows "\<exists>r m'. mt_returnToken p k m = Ret r m' \<and> mt_live p m'"
proof -
  obtain b where b: "mt_inv m" "mt_heap m p = Some b" "0 < cps b" "0 < burst b"
    using assms(1) by (auto simp: mt_live_def)
  have ok: "bucket_ok b" "\<not> mut b" using mt_inv_cell [OF b(1,2)] by auto
  have "k \<le> TBF_LIM" using assms(3) by (simp add: TBF_LIM_def)
  note r = mt_return_spec [OF b(1,2) assms(2) this]
  have "mt_inv (m\<lparr>mt_heap := (mt_heap m)(p \<mapsto> (spec_return k b)\<lparr>cond_waiters := 0\<rparr>)\<rparr>)"
    using ok assms(2) bucket_ok_return [OF ok(1) assms(2)]
    by (intro mt_inv_upd [OF b(1,2)]) (simp_all add: spec_return_def bucket_ok_def)
  with r b show ?thesis by (auto simp: mt_live_def spec_return_def)
qed

interpretation mtc: limiter "mt_fetchToken (Suc al) p 1024" "mt_returnToken p" "mt_live p" 1024 False "\<lambda>m. 0" for al p
  by unfold_locales (use mt_fetch_live mt_return_live in auto)


lemma sa_start_live:
  obtains m1 where "sa_init 10 100 (Some a) (sa_start d) = (Some a, m1)" "sa_live a m1"
proof (rule that)
  let ?b = "\<lparr>cps = 10, burst = 100, token = 0, pos = 0\<rparr>"
  have s: "scan_slots (replicate MYTBF_MAX (None :: nat option)) = 0" by (simp add: scan_slots_replicate MYTBF_MAX_def)
  have "table_inv ((replicate MYTBF_MAX None)[nat (scan_slots (replicate MYTBF_MAX (None :: nat option))) := Some a]) (Map.empty(a \<mapsto> ?b))"
    by (rule table_inv_add) (simp_all add: table_inv_start s bucket_ok_def TBF_LIM_def)
  then show "sa_live a (snd (sa_init 10 100 (Some a) (sa_start d)))"
    by (simp add: sa_live_def sa_inv_def sa_init_def sa_start_def sa_module_load_def Let_def sa_get_free_pos_def s)
  show "sa_init 10 100 (Some a) (sa_start d) = (Some a, snd (sa_init 10 100 (Some a) (sa_start d)))"
    by (simp add: sa_init_def sa_start_def sa_module_load_def Let_def sa_get_free_pos_def s)
qed

lemma mt_start_live:
  obtains m1 where "mt_init 0 10 100 (Some a) mt_start = Ret (Some a) m1" "mt_live a m1"
proof -
  let ?b = "\<lparr>cps = 10, burst = 100, token = 0, pos = 0, mut = False, cond_waiters = 0\<rparr>"
  let ?m1 = "mt_start\<lparr>mt_heap := [a \<mapsto> ?b], mt_job := (mt_job mt_start)[0 := Some a], once_done := True, alrm_tid := True, mt_exit_hooks := 1\<rparr>"
  have "table_inv ((mt_job mt_start)[nat (scan_slots (mt_job mt_start)) := Some a]) (Map.empty(a \<mapsto> ?b))"
    by (rule table_inv_add) (simp_all add: mt_start_scan bucket_ok_def TBF_LIM_def, simp add: mt_start_def table_inv_start)
  then have "mt_live a ?m1" by (auto simp: mt_live_def mt_inv_def mt_start_scan, simp add: mt_start_def)
  moreover have "mt_init 0 10 100 (Some a) mt_start = Ret (Some a) ?m1"
    by (simp add: mt_init_def mt_module_load_def Let_def get_free_pos_unlocked_def mt_start_scan) (simp add: mt_start_def)
  ultimately show thesis by (intro that)
qed

text \<open>
  The same program on the interval-timer module, started fresh, with a mask that lets alarms through, prints the whole file, destroys
  its bucket and exits with status 0.
\<close>

theorem sa_main_copies:
  assumes "cat_ready w (argv ! 1) sfd" and "2 \<le> length argv" and "rd_work (rd_script w sfd) < fuel" and "SIGALRM \<notin> set om"
  shows "\<exists>m' w'. sa_main om sigs (Some a) fuel argv (sa_start d) w = Exit 0 (m', w') \<and>
    written w' 1 = written w 1 @ stream (rd_script w sfd) \<and> sfd \<in> set (closed w') \<and> sa_heap m' a = None"
proof -
  obtain w1 where o: "sys_open (argv ! 1) 0 w = (sfd, w1)" "\<not> sfd < 0" "rd_script w1 = rd_script w" "wr_script w1 = wr_script w"
    "written w1 = written w" by (rule cat_ready_open [OF assms(1)])
  obtain m1 where m1: "sa_init 10 100 (Some a) (sa_start d) = (Some a, m1)" "sa_live a m1" by (rule sa_start_live)
  from sac.cat_copies [of om a m1 w1 sfd fuel sigs] m1(2) o assms(1,3,4) obtain m2 w2 where
    c: "limited_cat (sa_fetchToken om (SI_KERNEL # sigs) a 1024) (sa_returnToken a) fuel sfd m1 w1 = Ret () (m2, w2)" "sa_live a m2"
      "written w2 = (written w)(1 := written w 1 @ stream (rd_script w sfd))"
    by (auto simp: sac.file_like_def cat_ready_def)
  from c(2) obtain b where b: "sa_inv m2" "sa_heap m2 a = Some b" by (auto simp: sa_live_def)
  then have "0 \<le> pos b \<and> nat (pos b) < MYTBF_MAX" using table_inv_cell by (auto simp: sa_inv_def)
  with c o m1(1) b assms(2) show ?thesis by (auto simp: sa_main_def sys_close_def sa_destroy_def)
qed

theorem sa_main_copies_witness:
  "\<exists>m' w'. sa_main [] [SI_USER] (Some 7) 20 [''cat'', ''f''] (sa_start \<lparr>sa_sigaction = SIG_DFL, sa_siginfo = False\<rparr>) ex_file = Exit 0 (m', w') \<and>
    written w' 1 = [1, 2, 3, 4, 5, 6, 7, 8, 9, 10, 11, 12] \<and> sa_heap m' 7 = None"
  using sa_main_copies [OF ex_file_ready, of 20 "[]" "[SI_USER]" 7 "\<lparr>sa_sigaction = SIG_DFL, sa_siginfo = False\<rparr>"]
  by (auto simp: ex_file_def)

text \<open>
  The same program on the threaded module, started fresh, prints the whole file, destroys its
  bucket (whose mutex is free and whose condition variable nobody waits on) and exits with status 0.
\<close>

theorem mt_main_copies:
  assumes "cat_ready w (argv ! 1) sfd" and "2 \<le> length argv" and "rd_work (rd_script w sfd) < fuel"
  shows "\<exists>m' w'. mt_main 0 al (Some a) fuel argv mt_start w = Exit 0 (m', w') \<and>
    written w' 1 = written w 1 @ stream (rd_script w sfd) \<and> sfd \<in> set (closed w') \<and> mt_heap m' a = None"
proof -
  obtain w1 where o: "sys_open (argv ! 1) 0 w = (sfd, w1)" "\<not> sfd < 0" "rd_script w1 = rd_script w" "wr_script w1 = wr_script w"
    "written w1 = written w" by (rule cat_ready_open [OF assms(1)])
  obtain m1 where m1: "mt_init 0 10 100 (Some a) mt_start = Ret (Some a) m1" "mt_live a m1" by (rule mt_start_live)
  from mtc.cat_copies [OF m1(2), of w1 sfd fuel al] o assms(1,3) obtain m2 w2 where
    c: "limited_cat (mt_fetchToken (Suc al) a 1024) (mt_returnToken a) fuel sfd m1 w1 = Ret () (m2, w2)" "mt_live a m2"
      "written w2 = (written w)(1 := written w 1 @ stream (rd_script w sfd))"
    by (auto simp: mtc.file_like_def cat_ready_def)
  from c(2) obtain b where b: "mt_inv m2" "mt_heap m2 a = Some b" "cond_waiters b = 0" by (auto simp: mt_live_def)
  then have "0 \<le> pos b \<and> nat (pos b) < MYTBF_MAX" "\<not> mut_job m2" "\<not> mut b"
    using table_inv_cell [of "mt_job m2" "mt_heap m2" a b] by (auto simp: mt_inv_def)
  with c o m1(1) b assms(2) show ?thesis by (auto simp: mt_main_def sys_close_def mt_destroy_def Let_def)
qed

theorem mt_main_copies_witness:
  "\<exists>m' w'. mt_main 0 0 (Some 7) 20 [''cat'', ''f''] mt_start ex_file = Exit 0 (m', w') \<and>
    written w' 1 = [1, 2, 3, 4, 5, 6, 7, 8, 9, 10, 11, 12] \<and> mt_heap m' 7 = None"
  using mt_main_copies [OF ex_file_ready, of 20 0 7] by (auto simp: ex_file_def)

end
