(* ===== verification/Dirstat.thy ===== *)
theory Dirstat
  imports Monitor
begin

text \<open>
  The directory statistics: \<open>homework/statistic_file_with_thread_pool.c\<close> (a pool of threads fed by a ring
  of directories), \<open>homework/statistic_file.c\<close> (a thread per directory) and \<open>IO/dir/statistic.c\<close>
  (recursion). The file system is a parameter: what \<open>stat\<close>, \<open>opendir\<close> and \<open>fopen\<close> find under a path.
\<close>

section \<open>The file system\<close>

text \<open>
  A path names nothing, a regular file (with its contents, or unreadable), a directory (with the names
  \<open>readdir\<close> delivers and whether it fails after them, or one that cannot be opened) or something else.
\<close>

datatype fnode = Absent | Reg string | RegLocked | Directory "string list" bool | DirLocked | Other

type_synonym fs = "string \<Rightarrow> fnode"

fun is_reg :: "fnode \<Rightarrow> bool" where
  "is_reg (Reg s) = True" | "is_reg RegLocked = True" | "is_reg _ = False"

fun is_dir :: "fnode \<Rightarrow> bool" where
  "is_dir (Directory es b) = True" | "is_dir DirLocked = True" | "is_dir _ = False"

text \<open>\<^verbatim>\<open>snprintf(full_path, 1024, "%s/%s", dir_name, d_name)\<close>.\<close>

definition join_path :: "string \<Rightarrow> string \<Rightarrow> string" where
  "join_path d n = take 1023 (d @ ''/'' @ n)"

definition dots :: "string \<Rightarrow> bool" where
  "dots n \<longleftrightarrow> n = ''.'' \<or> n = ''..''"

text \<open>\<^verbatim>\<open>len > 2 && full_path[len-2] == '.' && (full_path[len-1] == 'c' || full_path[len-1] == 'h')\<close>.\<close>

definition is_source :: "string \<Rightarrow> bool" where
  "is_source p \<longleftrightarrow> length p > 2 \<and> p ! (length p - 2) = CHR ''.'' \<and>
     (p ! (length p - 1) = CHR ''c'' \<or> p ! (length p - 1) = CHR ''h'')"

text \<open>The loop over \<open>fgetc\<close>: newlines plus one.\<close>

fun newlines :: "string \<Rightarrow> int" where
  "newlines [] = 0"
| "newlines (c # s) = (if c = CHR 0x0A then 1 else 0) + newlines s"

definition code_counter :: "fs \<Rightarrow> string \<Rightarrow> int" where
  "code_counter fs p = (case fs p of Reg s \<Rightarrow> newlines s + 1 | _ \<Rightarrow> 0)"

lemma newlines_nonneg: "0 \<le> newlines s"
  by (induction s) simp_all

section \<open>The ring of tasks\<close>

definition QUEUE_MAX :: nat where
  "QUEUE_MAX = 1024"

record ring =
  task_queue :: "string list"
  queue_front :: nat
  queue_rear :: nat
  queue_count :: nat
  done_flag :: bool

definition ring_start :: ring where
  "ring_start = \<lparr>task_queue = replicate QUEUE_MAX [], queue_front = 0, queue_rear = 0, queue_count = 0, done_flag = False\<rparr>"

definition ring_put :: "string \<Rightarrow> ring \<Rightarrow> ring" where
  "ring_put path q = q\<lparr>task_queue := (task_queue q)[queue_rear q := path],
     queue_rear := (queue_rear q + 1) mod QUEUE_MAX, queue_count := queue_count q + 1\<rparr>"

definition ring_get :: "ring \<Rightarrow> (string \<times> ring) option" where
  "ring_get q = (if queue_count q > 0
     then Some (task_queue q ! queue_front q,
       q\<lparr>queue_front := (queue_front q + 1) mod QUEUE_MAX, queue_count := queue_count q - 1\<rparr>)
     else None)"

text \<open>
  \<open>enqueue_task\<close> and \<open>dequeue_task\<close> as sections under \<open>queue_mutex\<close>; the flag tells of a signal. The
  result of \<open>enqueue_task\<close> says whether the path was stored (otherwise it is freed).
\<close>

definition enqueue_task :: "string \<Rightarrow> ring \<Rightarrow> (bool, ring) sect" where
  "enqueue_task path q =
     (if queue_count q \<ge> QUEUE_MAX \<and> \<not> done_flag q then Sleep q
      else if queue_count q < QUEUE_MAX then Leave True (ring_put path q) True
      else Leave False q False)"

definition dequeue_task :: "ring \<Rightarrow> (string option, ring) sect" where
  "dequeue_task q =
     (if queue_count q = 0 \<and> \<not> done_flag q then Sleep q
      else (case ring_get q of
          Some (path, q1) \<Rightarrow> Leave (Some path) q1 True
        | None \<Rightarrow> Leave None q False))"

definition set_done :: "ring \<Rightarrow> ring" where
  "set_done q = q\<lparr>done_flag := True\<rparr>"

text \<open>The tasks in the ring, oldest first.\<close>

definition ring_items :: "ring \<Rightarrow> string list" where
  "ring_items q = map (\<lambda>i. task_queue q ! ((queue_front q + i) mod QUEUE_MAX)) [0..<queue_count q]"

definition ring_inv :: "ring \<Rightarrow> bool" where
  "ring_inv q \<longleftrightarrow> length (task_queue q) = QUEUE_MAX \<and> queue_front q < QUEUE_MAX \<and> queue_count q \<le> QUEUE_MAX \<and>
     queue_rear q = (queue_front q + queue_count q) mod QUEUE_MAX"

definition ring_room :: "string \<Rightarrow> ring \<Rightarrow> bool" where
  "ring_room p q \<longleftrightarrow> queue_count q < QUEUE_MAX"

lemma QUEUE_MAX_pos [simp]: "0 < QUEUE_MAX"
  by (simp add: QUEUE_MAX_def)

lemma mod_window:
  assumes "(f + i) mod n = (f + c) mod n" "i \<le> c" "c < (n :: nat) + i"
  shows "i = c"
proof -
  have "n dvd (f + c) - (f + i)" using assms(1,2) by (metis add_le_cancel_left mod_eq_dvd_iff_nat)
  then have "n dvd c - i" by simp
  with assms(2,3) show ?thesis by (metis dvd_imp_le le_antisym less_diff_conv2 not_le zero_less_diff)
qed

interpretation rq: fifo ring_inv ring_items ring_room ring_put ring_get
proof (unfold_locales, goal_cases)
  case (1 q a)
  have ne: "(queue_front q + i) mod QUEUE_MAX \<noteq> queue_rear q" if "i < queue_count q" for i
    using 1 that mod_window [of "queue_front q" i QUEUE_MAX "queue_count q"] by (auto simp: ring_inv_def ring_room_def)
  have "(queue_front q + queue_count q) mod QUEUE_MAX < length (task_queue q)" using 1 by (simp add: ring_inv_def)
  with 1 ne [THEN not_sym] show ?case by (auto simp: ring_items_def ring_put_def ring_inv_def intro!: map_cong)
next
  case (2 q a)
  then show ?case by (auto simp: ring_inv_def ring_put_def ring_room_def mod_simps)
next
  case (3 q)
  then show ?case by (simp add: ring_get_def ring_items_def)
next
  case (4 q a q')
  then obtain n where n: "queue_count q = Suc n" by (cases "queue_count q") (auto simp: ring_get_def)
  have f: "queue_front q mod QUEUE_MAX = queue_front q" using 4 by (simp add: ring_inv_def)
  have "[0..<Suc n] = 0 # map Suc [0..<n]" by (simp add: upt_conv_Cons map_Suc_upt)
  with 4 n f show ?case
    by (auto simp: ring_get_def ring_items_def ring_inv_def mod_simps comp_def)
qed

section \<open>The pool\<close>

text \<open>
  A worker is about to take a task, waits on \<open>cond_not_empty\<close>, reads a directory (the names still to
  come), is about to store a subdirectory, waits on \<open>cond_not_full\<close>, or has left its loop.
\<close>

datatype wstate = Idle | GetWait | Busy string "string list" | Putting string "string list" string
  | PutWait string "string list" string | Exited

text \<open>\<open>dropped\<close> records the paths freed because the ring was full after \<open>set_done\<close>, and those for which \<open>strdup\<close> had no memory.\<close>

record pool_shared =
  queue :: ring
  file_count :: int
  code_count :: int
  dir_count :: int
  dropped :: "string list"

text \<open>The two condition variables, and what a step does to their waiters.\<close>

datatype cond = Not_empty | Not_full
datatype notice = Silent | Signal cond | Broadcast cond

fun waits_on :: "cond \<Rightarrow> wstate \<Rightarrow> bool" where
  "waits_on Not_empty GetWait = True"
| "waits_on Not_full (PutWait d es p) = True"
| "waits_on c w = False"

fun woken :: "wstate \<Rightarrow> wstate" where
  "woken GetWait = Idle"
| "woken (PutWait d es p) = Putting d es p"
| "woken w = w"

fun notify :: "notice \<Rightarrow> wstate list \<Rightarrow> wstate list \<Rightarrow> bool" where
  "notify Silent ws ws' = (ws' = ws)"
| "notify (Signal c) ws ws' = signalled (waits_on c) woken ws ws'"
| "notify (Broadcast c) ws ws' = (ws' = broadcast (waits_on c) woken ws)"

text \<open>A regular file: counted, and its lines if its name says it is C.\<close>

definition count_file :: "fs \<Rightarrow> string \<Rightarrow> pool_shared \<Rightarrow> pool_shared" where
  "count_file fs p s =
     (let s1 = s\<lparr>file_count := file_count s + 1\<rparr>;
          lines = (if is_source p then code_counter fs p else 0)
      in if lines > 0 then s1\<lparr>code_count := code_count s1 + lines\<rparr> else s1)"

text \<open>
  One step of \<open>worker\<close>: one pass through \<open>queue_mutex\<close>, or one directory entry. It cannot step while it
  waits on a condition variable or after it has returned. \<open>dup\<close>: \<open>strdup\<close> has memory for the path of a subdirectory; without, the
  subdirectory is counted and not stored.
\<close>

fun worker :: "bool \<Rightarrow> fs \<Rightarrow> wstate \<Rightarrow> pool_shared \<Rightarrow> (wstate \<times> pool_shared \<times> notice) option" where
  "worker dup fs Idle s = (case dequeue_task (queue s) of
      Sleep q \<Rightarrow> Some (GetWait, s\<lparr>queue := q\<rparr>, Silent)
    | Leave None q b \<Rightarrow> Some (Exited, s\<lparr>queue := q\<rparr>, Silent)
    | Leave (Some p) q b \<Rightarrow>
        Some (case fs p of Directory es e \<Rightarrow> Busy p es | _ \<Rightarrow> Idle, s\<lparr>queue := q\<rparr>, if b then Signal Not_full else Silent))"
| "worker dup fs GetWait s = None"
| "worker dup fs (Busy d []) s = Some (Idle, s, Silent)"
| "worker dup fs (Busy d (e # es)) s =
     (if dots e then Some (Busy d es, s, Silent)
      else (let p = join_path d e
            in if is_reg (fs p) then Some (Busy d es, count_file fs p s, Silent)
               else if is_dir (fs p) then
                 (let s1 = s\<lparr>dir_count := dir_count s + 1\<rparr>
                  in if dup then Some (Putting d es p, s1, Silent) else Some (Busy d es, s1\<lparr>dropped := p # dropped s1\<rparr>, Silent))
               else Some (Busy d es, s, Silent)))"
| "worker dup fs (Putting d es p) s = (case enqueue_task p (queue s) of
      Sleep q \<Rightarrow> Some (PutWait d es p, s\<lparr>queue := q\<rparr>, Silent)
    | Leave stored q b \<Rightarrow>
        Some (Busy d es, if stored then s\<lparr>queue := q\<rparr> else s\<lparr>queue := q, dropped := p # dropped s\<rparr>,
          if b then Signal Not_empty else Silent))"
| "worker dup fs (PutWait d es p) s = None"
| "worker dup fs Exited s = None"

text \<open>
  \<open>main\<close> stores the start directory, looks at the ring, looks again after a pause, sets the flag (and
  broadcasts \<open>cond_not_empty\<close> only) and joins the workers.
\<close>

datatype main_pc = Storing string | Checking | SawEmpty | Leaving | Joining | Printed

fun main_step :: "main_pc \<Rightarrow> wstate list \<Rightarrow> pool_shared \<Rightarrow> (main_pc \<times> pool_shared \<times> notice) option" where
  "main_step (Storing p) ws s = (case enqueue_task p (queue s) of
      Sleep q \<Rightarrow> None
    | Leave stored q b \<Rightarrow>
        Some (Checking, if stored then s\<lparr>queue := q\<rparr> else s\<lparr>queue := q, dropped := p # dropped s\<rparr>,
          if b then Signal Not_empty else Silent))"
| "main_step Checking ws s = (if queue_count (queue s) = 0 then Some (SawEmpty, s, Silent) else None)"
| "main_step SawEmpty ws s = Some (if queue_count (queue s) = 0 then Leaving else Checking, s, Silent)"
| "main_step Leaving ws s = Some (Joining, s\<lparr>queue := set_done (queue s)\<rparr>, Broadcast Not_empty)"
| "main_step Joining ws s = (if \<forall>w \<in> set ws. w = Exited then Some (Printed, s, Silent) else None)"
| "main_step Printed ws s = None"

type_synonym pool_state = "main_pc \<times> wstate list \<times> pool_shared"

inductive pool_step :: "fs \<Rightarrow> pool_state \<Rightarrow> pool_state \<Rightarrow> bool" for fs where
  by_worker: "i < length ws \<Longrightarrow> worker dup fs (ws ! i) s = Some (w, s', n) \<Longrightarrow> notify n (ws[i := w]) ws' \<Longrightarrow>
    pool_step fs (pc, ws, s) (pc, ws', s')"
| by_main: "main_step pc ws s = Some (pc', s', n) \<Longrightarrow> notify n ws ws' \<Longrightarrow> pool_step fs (pc, ws, s) (pc', ws', s')"

text \<open>A run may also wake waiters spuriously, as \<open>pthread_cond_wait\<close> may.\<close>

inductive pool_any :: "fs \<Rightarrow> pool_state \<Rightarrow> pool_state \<Rightarrow> bool" for fs where
  proper: "pool_step fs st st' \<Longrightarrow> pool_any fs st st'"
| spurious: "j < length ws \<Longrightarrow> waits_on c (ws ! j) \<Longrightarrow> pool_any fs (pc, ws, s) (pc, ws[j := woken (ws ! j)], s)"

definition THREAD_NUM :: nat where
  "THREAD_NUM = 12"

text \<open>\<open>main\<close> has created the workers and is about to store \<open>argv[1]\<close>.\<close>

definition pool_start :: "string \<Rightarrow> pool_state" where
  "pool_start path = (Storing path, replicate THREAD_NUM Idle,
     \<lparr>queue = ring_start, file_count = 0, code_count = 0, dir_count = 0, dropped = []\<rparr>)"

section \<open>What has to be counted\<close>

datatype statistic = Files | Lines | Dirs

fun stat_of :: "statistic \<Rightarrow> pool_shared \<Rightarrow> int" where
  "stat_of Files s = file_count s"
| "stat_of Lines s = code_count s"
| "stat_of Dirs s = dir_count s"

fun own :: "fs \<Rightarrow> statistic \<Rightarrow> string \<Rightarrow> int" where
  "own fs Files p = (if is_reg (fs p) then 1 else 0)"
| "own fs Lines p = (if is_reg (fs p) \<and> is_source p then code_counter fs p else 0)"
| "own fs Dirs p = (if is_dir (fs p) then 1 else 0)"

text \<open>What a directory entry contributes, when \<open>W\<close> gives the totals below directories.\<close>

definition entry :: "fs \<Rightarrow> (statistic \<Rightarrow> string \<Rightarrow> int) \<Rightarrow> statistic \<Rightarrow> string \<Rightarrow> string \<Rightarrow> int" where
  "entry fs W k d e = (if dots e then 0
     else own fs k (join_path d e) + (if is_dir (fs (join_path d e)) then W k (join_path d e) else 0))"

definition entries :: "fs \<Rightarrow> (statistic \<Rightarrow> string \<Rightarrow> int) \<Rightarrow> statistic \<Rightarrow> string \<Rightarrow> string list \<Rightarrow> int" where
  "entries fs W k d es = sum_list (map (entry fs W k d) es)"

text \<open>\<open>W\<close> totals the tree: the equation a recursive count satisfies.\<close>

definition totals :: "fs \<Rightarrow> (statistic \<Rightarrow> string \<Rightarrow> int) \<Rightarrow> bool" where
  "totals fs W \<longleftrightarrow> (\<forall>k p. W k p = (case fs p of Directory es b \<Rightarrow> entries fs W k p es | _ \<Rightarrow> 0))"

section \<open>No task is lost\<close>

fun owed :: "fs \<Rightarrow> (statistic \<Rightarrow> string \<Rightarrow> int) \<Rightarrow> statistic \<Rightarrow> wstate \<Rightarrow> int" where
  "owed fs W k Idle = 0"
| "owed fs W k GetWait = 0"
| "owed fs W k (Busy d es) = entries fs W k d es"
| "owed fs W k (Putting d es p) = W k p + entries fs W k d es"
| "owed fs W k (PutWait d es p) = W k p + entries fs W k d es"
| "owed fs W k Exited = 0"

fun owed_main :: "(statistic \<Rightarrow> string \<Rightarrow> int) \<Rightarrow> statistic \<Rightarrow> main_pc \<Rightarrow> int" where
  "owed_main W k (Storing p) = W k p"
| "owed_main W k pc = 0"

definition held :: "(statistic \<Rightarrow> string \<Rightarrow> int) \<Rightarrow> statistic \<Rightarrow> pool_shared \<Rightarrow> int" where
  "held W k s = stat_of k s + sum_list (map (W k) (ring_items (queue s))) + sum_list (map (W k) (dropped s))"

lemma count_file_stat: "is_reg (fs p) \<Longrightarrow> stat_of k (count_file fs p s) = stat_of k s + own fs k p"
  by (cases k; cases "fs p") (auto simp: count_file_def code_counter_def Let_def newlines_nonneg add_pos_nonneg add_nonneg_pos)

lemma reg_not_dir [simp]: "is_reg n \<Longrightarrow> \<not> is_dir n"
  by (cases n) simp_all

lemma count_file_rest [simp]: "queue (count_file fs p s) = queue s" "dropped (count_file fs p s) = dropped s"
  by (simp_all add: count_file_def Let_def)

text \<open>Storing a path moves what it stands for from its owner into the ring, or into the dropped paths.\<close>

lemma enqueue_conserves:
  assumes "ring_inv (queue s)" "enqueue_task p (queue s) = Leave stored q b"
  defines "s' \<equiv> if stored then s\<lparr>queue := q\<rparr> else s\<lparr>queue := q, dropped := p # dropped s\<rparr>"
  shows "ring_inv (queue s') \<and> held W k s' = held W k s + W k p"
proof (cases "queue_count (queue s) < QUEUE_MAX")
  case True
  then have "ring_room p (queue s)" by (simp add: ring_room_def)
  note pi = rq.put_items [OF assms(1) this] rq.put_invar [OF assms(1) this]
  with True assms(2) show ?thesis unfolding s'_def by (cases k) (auto simp: enqueue_task_def held_def)
next
  case False
  with assms(1,2) show ?thesis unfolding s'_def by (cases k) (auto simp: enqueue_task_def held_def split: if_splits)
qed

lemma enqueue_Sleep: "enqueue_task p q = Sleep q' \<longleftrightarrow> q' = q \<and> queue_count q \<ge> QUEUE_MAX \<and> \<not> done_flag q"
  by (auto simp: enqueue_task_def)

lemma worker_conserves:
  assumes "totals fs W" "ring_inv (queue s)" "worker dup fs w s = Some (w', s', n)"
  shows "ring_inv (queue s') \<and> held W k s' + owed fs W k w' = held W k s + owed fs W k w"
proof (cases w)
  case Idle
  show ?thesis
  proof (cases "ring_get (queue s)")
    case None
    with Idle assms show ?thesis by (cases k; auto simp: dequeue_task_def held_def split: if_splits)
  next
    case (Some r)
    then obtain p q where r: "ring_get (queue s) = Some (p, q)" by (cases r) auto
    note g = rq.get_Some [OF assms(2) r]
    have "W k p = (case fs p of Directory es b \<Rightarrow> entries fs W k p es | _ \<Rightarrow> 0)" using assms(1) by (simp add: totals_def)
    moreover have "\<not> queue_count (queue s) = 0" using r by (auto simp: ring_get_def split: if_splits)
    ultimately show ?thesis using Idle assms(3) r g
      by (cases k; auto simp: dequeue_task_def held_def split: fnode.splits)
  qed
next
  case (Busy d es)
  show ?thesis
  proof (cases es)
    case Nil
    with Busy assms show ?thesis by (auto simp: entries_def)
  next
    case (Cons e es')
    with Busy assms count_file_stat [of fs "join_path d e" k s] show ?thesis
      by (cases k) (auto simp: entries_def entry_def Let_def held_def split: if_splits)
  qed
next
  case (Putting d es p)
  show ?thesis
  proof (cases "enqueue_task p (queue s)")
    case (Sleep q)
    with Putting assms show ?thesis by (cases k; auto simp: enqueue_Sleep held_def)
  next
    case (Leave stored q b)
    with Putting assms(3) enqueue_conserves [OF assms(2) Leave, of W k] show ?thesis by auto
  qed
qed (use assms in auto)

lemma sum_list_upd_int:
  "i < length ws \<Longrightarrow> sum_list (map f (ws[i := w])) = sum_list (map f ws) - f (ws ! i) + (f w :: int)"
  using sum_list_upd [of i ws f w] by simp

lemma owed_woken [simp]: "owed fs W k (woken w) = owed fs W k w"
  by (cases w) simp_all

lemma notify_owed: "notify n ws ws' \<Longrightarrow> sum_list (map (owed fs W k) ws') = sum_list (map (owed fs W k) ws) \<and> length ws' = length ws"
proof (cases n)
  case (Signal c)
  moreover assume "notify n ws ws'"
  ultimately have "signalled (waits_on c) woken ws ws'" by simp
  then show ?thesis by (induction rule: signalled.induct) (simp_all add: sum_list_upd_int)
qed (auto simp: broadcast_def comp_def intro!: arg_cong [of _ _ sum_list])

definition pool_total :: "fs \<Rightarrow> (statistic \<Rightarrow> string \<Rightarrow> int) \<Rightarrow> statistic \<Rightarrow> pool_state \<Rightarrow> int" where
  "pool_total fs W k st = (case st of (pc, ws, s) \<Rightarrow> owed_main W k pc + held W k s + sum_list (map (owed fs W k) ws))"

lemma main_conserves:
  assumes "ring_inv (queue s)" "main_step pc ws s = Some (pc', s', n)"
  shows "ring_inv (queue s') \<and> owed_main W k pc' + held W k s' = owed_main W k pc + held W k s"
proof (cases pc)
  case (Storing p)
  show ?thesis
  proof (cases "enqueue_task p (queue s)")
    case (Leave stored q b)
    with Storing assms(2) enqueue_conserves [OF assms(1) Leave, of W k] show ?thesis by auto
  qed (use Storing assms in simp)
qed (use assms in \<open>auto simp: held_def set_done_def ring_inv_def ring_items_def split: if_splits\<close>,
  (cases k; simp)+)

section \<open>No signal is lost\<close>

fun putting :: "wstate \<Rightarrow> bool" where
  "putting (Putting d es p) = True"
| "putting w = False"

text \<open>
  The invariant: the ring is well formed; the flag is set exactly when \<open>main\<close> waits for the workers;
  workers leave only after that; as long as a task is in the ring some worker is left. While a worker
  waits for a task, as many workers are awake to take one as there are tasks; while one waits for room,
  as many are awake to store as there are free places.
\<close>

definition wake_ok :: "wstate list \<Rightarrow> ring \<Rightarrow> bool" where
  "wake_ok ws q \<longleftrightarrow> covered (waits_on Not_empty) (\<lambda>w. w = Idle) (queue_count q) ws \<and>
     covered (waits_on Not_full) putting (QUEUE_MAX - queue_count q) ws"

definition flag_ok :: "main_pc \<Rightarrow> wstate list \<Rightarrow> ring \<Rightarrow> bool" where
  "flag_ok pc ws q \<longleftrightarrow> (done_flag q \<longleftrightarrow> pc = Joining \<or> pc = Printed) \<and> (done_flag q \<longrightarrow> GetWait \<notin> set ws) \<and>
     (Exited \<in> set ws \<longrightarrow> done_flag q \<and> (\<forall>w \<in> set ws. \<not> waits_on Not_full w)) \<and>
     (pc = Printed \<longrightarrow> (\<forall>w \<in> set ws. w = Exited)) \<and>
     (\<forall>p. pc = Storing p \<longrightarrow> queue_count q = 0 \<and> (\<forall>w \<in> set ws. w = Idle \<or> w = GetWait))"

definition pool_inv :: "pool_state \<Rightarrow> bool" where
  "pool_inv st \<longleftrightarrow> (case st of (pc, ws, s) \<Rightarrow> ring_inv (queue s) \<and> length ws = THREAD_NUM \<and>
     wake_ok ws (queue s) \<and> flag_ok pc ws (queue s) \<and>
     ((\<forall>w \<in> set ws. w = Exited) \<longrightarrow> queue_count (queue s) = 0))"

lemma waits_on_iff [simp]:
  "waits_on Not_empty w \<longleftrightarrow> w = GetWait"
  "waits_on Not_full w \<longleftrightarrow> (\<exists>d es p. w = PutWait d es p)"
  by (cases w; simp)+

text \<open>The steps of a worker, by what they do to the ring.\<close>

lemma worker_cases:
  assumes "worker dup fs w s = Some (w', s', n)"
  obtains (sleep_get) "w = Idle" "w' = GetWait" "queue s' = queue s" "n = Silent" "queue_count (queue s) = 0" "\<not> done_flag (queue s)"
  | (exit) "w = Idle" "w' = Exited" "queue s' = queue s" "n = Silent" "queue_count (queue s) = 0" "done_flag (queue s)"
  | (get) "w = Idle" "w' = Idle \<or> (\<exists>d es. w' = Busy d es)" "0 < queue_count (queue s)"
      "queue_count (queue s') = queue_count (queue s) - 1" "done_flag (queue s') = done_flag (queue s)" "n = Signal Not_full"
  | (scan) d es where "w = Busy d es" "w' = Idle \<or> (\<exists>es. w' = Busy d es) \<or> (\<exists>es p. w' = Putting d es p)" "queue s' = queue s" "n = Silent"
  | (sleep_put) "putting w" "waits_on Not_full w'" "queue s' = queue s" "n = Silent" "QUEUE_MAX \<le> queue_count (queue s)" "\<not> done_flag (queue s)"
  | (put) "putting w" "\<exists>d es. w' = Busy d es" "queue_count (queue s) < QUEUE_MAX"
      "queue_count (queue s') = Suc (queue_count (queue s))" "done_flag (queue s') = done_flag (queue s)" "n = Signal Not_empty"
  | (drop) "putting w" "\<exists>d es. w' = Busy d es" "queue s' = queue s" "n = Silent" "QUEUE_MAX \<le> queue_count (queue s)" "done_flag (queue s)"
proof (cases "(dup, fs, w, s)" rule: worker.cases)
  case (1 dup fs s)
  with assms sleep_get exit get show ?thesis
    by (auto simp: dequeue_task_def ring_get_def split: if_splits fnode.splits)
next
  case (3 dup fs d s)
  with assms scan show ?thesis by auto
next
  case (4 dup fs d e es s)
  with assms scan show ?thesis by (auto simp: Let_def split: if_splits)
next
  case (5 dup fs d es p s)
  with assms sleep_put put drop show ?thesis by (auto simp: enqueue_task_def ring_put_def split: if_splits)
qed (use assms in auto)

lemma woken_cases: "waits_on c u \<Longrightarrow> woken u = Idle \<or> putting (woken u)"
  by (cases c) auto

lemma notify_set: "notify n ws ws' \<Longrightarrow> v \<in> set ws' \<Longrightarrow> v \<in> set ws \<or> v = Idle \<or> putting v"
  by (cases n) (auto simp: broadcast_def dest!: signalled_set dest: woken_cases split: if_splits)

lemma worker_wake:
  assumes "wake_ok ws (queue s)" "queue_count (queue s) \<le> QUEUE_MAX" "i < length ws" "worker dup fs (ws ! i) s = Some (w', s', n)"
    and "notify n (ws[i := w']) ws'"
  shows "wake_ok ws' (queue s')"
proof -
  let ?E = "waits_on Not_empty" and ?F = "waits_on Not_full" and ?c = "queue_count (queue s)"
  have E: "covered ?E (\<lambda>w. w = Idle) ?c ws" and F: "covered ?F putting (QUEUE_MAX - ?c) ws" using assms(1) by (auto simp: wake_ok_def)
  note moveE = covered_move [OF E assms(3), of w'] and moveF = covered_move [OF F assms(3), of w']
  from assms(4) show ?thesis
  proof (cases rule: worker_cases)
    case sleep_get
    with assms(5) moveF show ?thesis by (simp add: wake_ok_def)
  next
    case exit
    with assms(5) moveF show ?thesis by (simp add: wake_ok_def)
  next
    case get
    have sg: "signalled ?F woken (ws[i := w']) ws'" using assms(5) get by simp
    obtain m where m: "?c = Suc m" using get(3) by (cases ?c) auto
    have nw: "\<not> ?E w'" "\<not> ?F w'" using get(2) by auto
    have "covered ?E (\<lambda>w. w = Idle) m (ws[i := w'])" using E m nw by (intro covered_take [OF _ assms(3)]) auto
    with sg have "covered ?E (\<lambda>w. w = Idle) m ws'" by (elim covered_other) auto
    moreover have "covered ?F putting (QUEUE_MAX - ?c) (ws[i := w'])" using nw get(1) by (intro moveF) auto
    with sg have "covered ?F putting (Suc (QUEUE_MAX - ?c)) ws'" by (elim covered_signal) auto
    moreover have "Suc (QUEUE_MAX - ?c) = QUEUE_MAX - m" using m assms(2) by simp
    ultimately show ?thesis using get(4) m by (simp add: wake_ok_def)
  next
    case (scan d es)
    then have "\<not> ?E w'" "\<not> ?F w'" by auto
    with scan assms(5) moveE moveF show ?thesis by (simp add: wake_ok_def)
  next
    case sleep_put
    then have "\<not> ?E w'" "ws ! i \<noteq> Idle" by auto
    with sleep_put assms(5) moveE show ?thesis by (simp add: wake_ok_def)
  next
    case put
    have nw: "\<not> ?E w'" "\<not> ?F w'" "ws ! i \<noteq> Idle" using put(1,2) by auto
    have "covered ?F putting (Suc (QUEUE_MAX - Suc ?c)) ws" using F put(3) by (simp add: Suc_diff_Suc)
    then have "covered ?F putting (QUEUE_MAX - Suc ?c) (ws[i := w'])" using nw by (intro covered_take [OF _ assms(3)])
    moreover have "covered ?E (\<lambda>w. w = Idle) ?c (ws[i := w'])" using nw by (intro moveE) auto
    moreover have sg: "signalled ?E woken (ws[i := w']) ws'" using assms(5) put by simp
    ultimately have "covered ?E (\<lambda>w. w = Idle) (Suc ?c) ws'" "covered ?F putting (QUEUE_MAX - Suc ?c) ws'"
      using covered_signal [OF sg, of "\<lambda>w. w = Idle" ?c] covered_other [OF sg, of ?F putting] by auto
    with put(4) show ?thesis by (simp add: wake_ok_def)
  next
    case drop
    then have "\<not> ?E w'" "ws ! i \<noteq> Idle" by auto
    with drop assms(5) moveE show ?thesis by (simp add: wake_ok_def)
  qed
qed

text \<open>A worker that finds the ring empty is not among workers that wait for room: there are too few of them.\<close>

lemma empty_no_putwait:
  assumes "wake_ok ws q" "queue_count q = 0" "length ws = THREAD_NUM" "w \<in> set ws"
  shows "\<not> waits_on Not_full w"
proof
  assume "waits_on Not_full w"
  with assms have "QUEUE_MAX \<le> number putting ws" by (auto simp: wake_ok_def covered_def)
  with number_le [of putting ws] assms(3) show False by (simp add: QUEUE_MAX_def THREAD_NUM_def)
qed

lemma worker_flags:
  assumes "flag_ok pc ws (queue s)" "wake_ok ws (queue s)" "length ws = THREAD_NUM" "i < length ws"
    and "worker dup fs (ws ! i) s = Some (w', s', n)" "notify n (ws[i := w']) ws'"
  shows "flag_ok pc ws' (queue s')"
proof -
  have old: "v \<in> set ws \<or> v = w' \<or> v = Idle \<or> putting v" if "v \<in> set ws'" for v
    using notify_set [OF assms(6) that] set_update_subset_insert [of ws i w'] by blast
  have mem: "ws ! i \<in> set ws" using assms(4) by simp
  have d: "done_flag (queue s') = done_flag (queue s)" "w' = GetWait \<Longrightarrow> \<not> done_flag (queue s)"
      "w' = Exited \<Longrightarrow> done_flag (queue s) \<and> queue_count (queue s) = 0" "waits_on Not_full w' \<Longrightarrow> \<not> done_flag (queue s)" "ws ! i \<noteq> Exited"
    using assms(5) by (auto elim!: worker_cases)
  have st: "w' = GetWait \<and> n = Silent \<and> queue s' = queue s" if "pc = Storing p" for p
    using assms(1,5) that mem by (auto simp: flag_ok_def elim!: worker_cases)
  have "done_flag (queue s') \<longrightarrow> GetWait \<notin> set ws'"
    using old [of GetWait] d(1,2) assms(1) by (auto simp: flag_ok_def)
  moreover have "done_flag (queue s') \<and> (\<forall>w \<in> set ws'. \<not> waits_on Not_full w)" if e: "Exited \<in> set ws'"
  proof -
    have x: "done_flag (queue s) \<and> (\<forall>w \<in> set ws. \<not> waits_on Not_full w)"
    proof (cases "Exited \<in> set ws")
      case True
      with assms(1) show ?thesis by (auto simp: flag_ok_def)
    next
      case False
      with old [OF e] d(3) have "done_flag (queue s)" "queue_count (queue s) = 0" by auto
      with empty_no_putwait [OF assms(2) _ assms(3)] show ?thesis by auto
    qed
    have "\<not> waits_on Not_full w" if "w \<in> set ws'" for w
      using old [OF that] x d(4) by (auto simp del: waits_on_iff) (auto)
    with x d(1) show ?thesis by blast
  qed
  moreover have "pc \<noteq> Printed" using assms(1) mem d(5) by (auto simp: flag_ok_def)
  moreover have "queue_count (queue s') = 0 \<and> (\<forall>w \<in> set ws'. w = Idle \<or> w = GetWait)" if "pc = Storing p" for p
    using st [OF that] assms(1,6) that by (auto simp: flag_ok_def dest!: set_update_subset_insert [THEN subsetD])
  ultimately show ?thesis using assms(1) d(1) by (simp add: flag_ok_def)
qed

lemma put_signal_ok:
  assumes "signalled (waits_on Not_empty) woken ws ws'" "wake_ok ws q" "queue_count q' = Suc (queue_count q)"
  shows "wake_ok ws' q'"
proof -
  have "covered (waits_on Not_empty) (\<lambda>w. w = Idle) (Suc (queue_count q)) ws'"
    using assms(2) by (intro covered_signal [OF assms(1)]) (auto simp: wake_ok_def)
  moreover have "covered (waits_on Not_full) putting (QUEUE_MAX - queue_count q) ws'"
    using assms(2) by (intro covered_other [OF assms(1)]) (auto simp: wake_ok_def)
  ultimately show ?thesis using assms(3) by (auto simp: wake_ok_def intro: covered_mono)
qed

text \<open>\<open>set_done\<close> wakes all that wait for a task and none that wait for room.\<close>

lemma done_broadcast:
  assumes "notify (Broadcast Not_empty) ws ws'"
  shows "GetWait \<notin> set ws'" "v \<in> set ws' \<Longrightarrow> v \<in> set ws \<or> v = Idle"
    and "number putting ws' = number putting ws"
proof -
  have e: "ws' = map (\<lambda>w. if w = GetWait then Idle else w) ws"
    using assms by (auto simp: broadcast_def)
  from e show "GetWait \<notin> set ws'" "v \<in> set ws' \<Longrightarrow> v \<in> set ws \<or> v = Idle" by (auto split: if_splits)
  show "number putting ws' = number putting ws" unfolding e by (induction ws) (auto simp: number_def)
qed

lemma main_inv:
  assumes "wake_ok ws (queue s)" "flag_ok pc ws (queue s)" "main_step pc ws s = Some (pc', s', n)" "notify n ws ws'"
  shows "wake_ok ws' (queue s') \<and> flag_ok pc' ws' (queue s') \<and>
    (queue_count (queue s') = queue_count (queue s) \<or> Exited \<notin> set ws')"
proof (cases pc)
  case (Storing p)
  with assms(2,3) have s: "pc' = Checking" "n = Signal Not_empty" "queue_count (queue s') = Suc (queue_count (queue s))"
      "\<not> done_flag (queue s')" and w: "\<forall>w \<in> set ws. w = Idle \<or> w = GetWait"
    by (auto simp: enqueue_task_def flag_ok_def ring_put_def split: if_splits)
  have "wake_ok ws' (queue s')" using put_signal_ok [OF _ assms(1) s(3)] assms(4) s(2) by simp
  moreover have "Exited \<notin> set ws'" using notify_set [OF assms(4), of Exited] w by auto
  ultimately show ?thesis using s by (simp add: flag_ok_def)
next
  case Leaving
  then have s: "pc' = Joining" "n = Broadcast Not_empty" "queue_count (queue s') = queue_count (queue s)" "done_flag (queue s')"
    using assms(3) by (auto simp: set_done_def)
  note b = done_broadcast [OF assms(4) [unfolded s(2)]]
  have "\<exists>w \<in> set ws. waits_on Not_full w" if "\<exists>w \<in> set ws'. waits_on Not_full w" using that b(2) by fastforce
  then have "wake_ok ws' (queue s')" using assms(1) b(1,3) s(3) by (simp add: wake_ok_def covered_def)
  moreover have "Exited \<notin> set ws'" using b(2) [of Exited] assms(2) Leaving by (auto simp: flag_ok_def)
  ultimately show ?thesis using s b(1) by (simp add: flag_ok_def)
qed (use assms in \<open>auto simp: flag_ok_def split: if_splits\<close>)

lemma spurious_inv:
  assumes "wake_ok ws q" "flag_ok pc ws q" "j < length ws" "waits_on c (ws ! j)"
  shows "wake_ok (ws[j := woken (ws ! j)]) q \<and> flag_ok pc (ws[j := woken (ws ! j)]) q"
proof -
  have m: "ws ! j \<in> set ws" using assms(3) by simp
  have "\<not> waits_on d (woken (ws ! j))" for d using assms(4) by (cases c; cases d) auto
  then have w: "wake_ok (ws[j := woken (ws ! j)]) q"
    using assms(1,3,4) unfolding wake_ok_def by (intro conjI covered_move) (cases c; auto)+
  have new: "v \<in> set ws \<or> v = woken (ws ! j)" if "v \<in> set (ws[j := woken (ws ! j)])" for v
    using that set_update_subset_insert [of ws j "woken (ws ! j)"] by blast
  have wk: "woken (ws ! j) \<noteq> GetWait" "woken (ws ! j) \<noteq> Exited" "woken (ws ! j) \<noteq> PutWait d es p" for d es p
    using woken_cases [OF assms(4)] by auto
  have st: "woken (ws ! j) = Idle" if "pc = Storing p" for p
    using assms(2,4) that m by (cases c) (auto simp: flag_ok_def)
  have np: "pc \<noteq> Printed" using assms(2,4) m by (cases c) (auto simp: flag_ok_def)
  have 1: "Exited \<in> set ws" if "Exited \<in> set (ws[j := woken (ws ! j)])" using new [OF that] wk by auto
  have 2: "GetWait \<in> set ws" if "GetWait \<in> set (ws[j := woken (ws ! j)])" using new [OF that] wk by auto
  have 3: "\<not> waits_on Not_full v" if "\<forall>w \<in> set ws. \<not> waits_on Not_full w" "v \<in> set (ws[j := woken (ws ! j)])" for v
    using new [OF that(2)] that(1) wk by (metis waits_on_iff(2))
  have 4: "v = Idle \<or> v = GetWait" if "pc = Storing p" "v \<in> set (ws[j := woken (ws ! j)])" for v p
    using new [OF that(2)] st [OF that(1)] assms(2) that(1) by (auto simp: flag_ok_def)
  have f: "done_flag q \<longleftrightarrow> pc = Joining \<or> pc = Printed" "done_flag q \<Longrightarrow> GetWait \<notin> set ws"
      "Exited \<in> set ws \<Longrightarrow> done_flag q" "Exited \<in> set ws \<Longrightarrow> \<forall>w \<in> set ws. \<not> waits_on Not_full w" "pc = Storing p \<Longrightarrow> queue_count q = 0" for p
    using assms(2) by (auto simp: flag_ok_def)
  have "flag_ok pc (ws[j := woken (ws ! j)]) q" unfolding flag_ok_def
  proof (intro conjI)
    show "done_flag q \<longrightarrow> GetWait \<notin> set (ws[j := woken (ws ! j)])" using 2 f(2) by blast
    show "Exited \<in> set (ws[j := woken (ws ! j)]) \<longrightarrow> done_flag q \<and> (\<forall>w \<in> set (ws[j := woken (ws ! j)]). \<not> waits_on Not_full w)"
      using 1 3 f(3,4) by blast
    show "\<forall>p. pc = Storing p \<longrightarrow> queue_count q = 0 \<and> (\<forall>w \<in> set (ws[j := woken (ws ! j)]). w = Idle \<or> w = GetWait)"
      using 4 f(5) by blast
  qed (use f(1) np in auto)
  with w show ?thesis by blast
qed

lemma notify_exited:
  assumes "notify n ws ws'" "\<forall>v \<in> set ws'. v = Exited"
  shows "\<forall>v \<in> set ws. v = Exited"
proof (cases n)
  case (Signal c)
  with assms(1) have "signalled (waits_on c) woken ws ws'" by simp
  then show ?thesis using assms(2)
  proof (induction rule: signalled.induct)
    case (somebody j ws)
    then have "woken (ws ! j) = Exited" by (simp add: set_update_memI)
    with woken_cases [OF somebody(2)] show ?case by simp
  qed
next
  case (Broadcast c)
  with assms have "(if waits_on c v then woken v else v) = Exited" if "v \<in> set ws" for v using that by (auto simp: broadcast_def)
  then show ?thesis using woken_cases by (metis putting.simps(6) wstate.distinct(9))
qed (use assms in simp)

lemma pool_inv_step:
  assumes "pool_step fs st st'" "pool_inv st" "totals fs W"
  shows "pool_inv st' \<and> pool_total fs W k st' = pool_total fs W k st"
  using assms
proof (induction rule: pool_step.induct)
  case (by_worker i ws dup s w s' n ws' pc)
  then have r: "ring_inv (queue s)" "length ws = THREAD_NUM" "wake_ok ws (queue s)" "flag_ok pc ws (queue s)"
    by (simp_all add: pool_inv_def)
  then have le: "queue_count (queue s) \<le> QUEUE_MAX" by (simp add: ring_inv_def)
  note c = worker_conserves [OF by_worker(5) r(1) by_worker(2)] and o = notify_owed [OF by_worker(3), of fs W k]
  note wk = worker_wake [OF r(3) le by_worker(1-3)] and fl = worker_flags [OF r(4,3,2) by_worker(1-3)]
  have "queue_count (queue s') = 0" if "\<forall>v \<in> set ws'. v = Exited"
  proof -
    have "w = Exited" using notify_exited [OF by_worker(3) that] set_update_memI [OF by_worker(1), of w] by blast
    with by_worker(2) show ?thesis by (auto elim!: worker_cases)
  qed
  with c wk fl o r(2) have "pool_inv (pc, ws', s')" by (simp add: pool_inv_def)
  moreover have "pool_total fs W k (pc, ws', s') = pool_total fs W k (pc, ws, s)"
    using c [of k] o by_worker(1) by (simp add: pool_total_def sum_list_upd_int)
  ultimately show ?case by blast
next
  case (by_main pc ws s pc' s' n ws')
  then have r: "ring_inv (queue s)" "length ws = THREAD_NUM" "wake_ok ws (queue s)" "flag_ok pc ws (queue s)"
    by (simp_all add: pool_inv_def)
  note c = main_conserves [OF r(1) by_main(1), of W k] and o = notify_owed [OF by_main(2), of fs W k] and m = main_inv [OF r(3,4) by_main(1,2)]
  have "ws' \<noteq> []" using o r(2) by (auto simp: THREAD_NUM_def)
  then have "queue_count (queue s') = 0" if "\<forall>v \<in> set ws'. v = Exited"
    using notify_exited [OF by_main(2) that] that m by_main(3) by (cases ws') (auto simp: pool_inv_def)
  with c m o r(2) show ?case by (simp add: pool_inv_def pool_total_def)
qed

lemma pool_inv_any:
  assumes "pool_any fs st st'" "pool_inv st" "totals fs W"
  shows "pool_inv st' \<and> pool_total fs W k st' = pool_total fs W k st"
  using assms
proof (induction rule: pool_any.induct)
  case (proper st st')
  then show ?case by (rule pool_inv_step)
next
  case (spurious j ws c pc s)
  have "woken (ws ! j) \<noteq> Exited" using woken_cases [OF spurious(2)] by auto
  then have "\<not> (\<forall>v \<in> set (ws[j := woken (ws ! j)]). v = Exited)" using set_update_memI [OF spurious(1)] by blast
  with spurious spurious_inv [OF _ _ spurious(1,2), of "queue s" pc] show ?case
    by (auto simp: pool_inv_def pool_total_def sum_list_upd_int simp del: waits_on_iff)
qed

lemma pool_start_inv:
  "pool_inv (pool_start path)" "pool_total fs W k (pool_start path) = W k path"
proof -
  have r: "ring_inv ring_start" "ring_items ring_start = []"
    by (simp_all add: ring_inv_def ring_start_def ring_items_def)
  then show "pool_inv (pool_start path)"
    by (simp add: pool_inv_def pool_start_def wake_ok_def covered_def flag_ok_def ring_start_def THREAD_NUM_def)
  have "sum_list (map (owed fs W k) (replicate n Idle)) = 0" for n by (induction n) simp_all
  with r show "pool_total fs W k (pool_start path) = W k path"
    by (cases k) (simp_all add: pool_total_def pool_start_def held_def)
qed

lemma pool_reach_inv:
  assumes "totals fs W" "(pool_any fs)\<^sup>*\<^sup>* (pool_start path) st"
  shows "pool_inv st \<and> pool_total fs W k st = W k path"
  using assms(2) by (induction rule: rtranclp_induct) (use pool_start_inv pool_inv_any [OF _ _ assms(1)] in auto)

text \<open>
  C5: The thread pool counts exactly. However its twelve workers and \<open>main\<close> interleave -- also when
  \<open>main\<close> sets the flag while a worker is still reading a directory -- the numbers printed are the totals
  of the directory tree, less the totals below the directories freed by \<open>enqueue_task\<close> or for whose path \<open>strdup\<close> had no
  memory; when there is none they are the totals of the tree.
\<close>

theorem pool_counts_tree:
  assumes "totals fs W" and "(pool_any fs)\<^sup>*\<^sup>* (pool_start path) (Printed, ws, s)"
  shows "stat_of k s + sum_list (map (W k) (dropped s)) = W k path \<and>
    (dropped s = [] \<longrightarrow> file_count s = W Files path \<and> code_count s = W Lines path \<and> dir_count s = W Dirs path)"
proof -
  have "stat_of k s + sum_list (map (W k) (dropped s)) = W k path" for k
  proof -
    note i = pool_reach_inv [OF assms, of k]
    then have x: "\<forall>w \<in> set ws. w = Exited" "queue_count (queue s) = 0" by (auto simp: pool_inv_def flag_ok_def)
    have "sum_list (map (owed fs W k) ws) = sum_list (map (\<lambda>_. 0) ws)"
      using x(1) by (intro arg_cong [of _ _ sum_list] map_cong) auto
    with i x(2) show ?thesis by (simp add: pool_total_def held_def ring_items_def)
  qed
  from this [of k] this [of Files] this [of Lines] this [of Dirs] show ?thesis by auto
qed

text \<open>A worker can step unless it waits on a condition variable or has left.\<close>

lemma worker_stuck: "worker dup fs w s = None \<Longrightarrow> w = GetWait \<or> waits_on Not_full w \<or> w = Exited"
  by (cases "(dup, fs, w, s)" rule: worker.cases) (auto simp: Let_def split: if_splits sect.splits option.splits)

lemma notify_ex: "\<exists>ws'. notify n ws ws'"
  by (cases n) (auto intro: signalled_ex)

lemma stuck_steps:
  assumes "\<nexists>st. pool_step fs (pc, ws, s) st"
  shows "main_step pc ws s = None" "w \<in> set ws \<Longrightarrow> worker dup fs w s = None"
proof -
  show "main_step pc ws s = None"
  proof (rule ccontr)
    assume "main_step pc ws s \<noteq> None"
    then obtain pc' s' n where m: "main_step pc ws s = Some (pc', s', n)" by auto
    from notify_ex [of n ws] by_main [OF m] assms show False by blast
  qed
  show "worker dup fs w s = None" if "w \<in> set ws"
  proof (rule ccontr)
    assume "worker dup fs w s \<noteq> None"
    moreover obtain i where i: "i < length ws" "ws ! i = w" using \<open>w \<in> set ws\<close> by (auto simp: in_set_conv_nth)
    ultimately obtain w' s' n where m: "worker dup fs (ws ! i) s = Some (w', s', n)" by auto
    from notify_ex [of n "ws[i := w']"] by_worker [OF i(1) m] assms show False by blast
  qed
qed

text \<open>
  C16: The pool gets stuck in one way only: if no thread can take a step, then the program has printed
  its result, or the ring is full, all twelve workers wait on \<open>cond_not_full\<close> for room that only they
  could make, and \<open>main\<close> polls the ring or waits for the workers to end. No other wake-up is lost although
  \<open>pthread_cond_signal\<close> wakes one thread only and \<open>set_done\<close> does not wake those that wait for room.
\<close>

theorem pool_deadlock_only_when_full:
  assumes "totals fs W" and "(pool_any fs)\<^sup>*\<^sup>* (pool_start path) (pc, ws, s)" and "\<nexists>st. pool_step fs (pc, ws, s) st"
  shows "pc = Printed \<or> queue_count (queue s) = QUEUE_MAX \<and> (pc = Checking \<or> pc = Joining) \<and>
    (\<forall>w \<in> set ws. \<exists>d es p. w = PutWait d es p)"
proof -
  have i: "pool_inv (pc, ws, s)" using pool_reach_inv [OF assms(1,2)] by blast
  then have inv: "wake_ok ws (queue s)" "flag_ok pc ws (queue s)" "queue_count (queue s) \<le> QUEUE_MAX" "ws \<noteq> []"
    by (auto simp: pool_inv_def ring_inv_def THREAD_NUM_def)
  note m = stuck_steps(1) [OF assms(3)]
  have st: "w = GetWait \<or> waits_on Not_full w \<or> w = Exited" if "w \<in> set ws" for w
    using worker_stuck [OF stuck_steps(2) [OF assms(3) that]] .
  have z: "number (\<lambda>w. w = Idle) ws = 0" "number putting ws = 0"
    using st number_pos_iff [of "\<lambda>w. w = Idle" ws] number_pos_iff [of putting ws] by fastforce+
  have empty: "queue_count (queue s) = 0 \<and> \<not> done_flag (queue s)" if "GetWait \<in> set ws"
    using inv(1,2) z(1) that by (auto simp: wake_ok_def covered_def flag_ok_def)
  have full: "queue_count (queue s) = QUEUE_MAX \<and> Exited \<notin> set ws" if "w \<in> set ws" "waits_on Not_full w" for w
    using inv z(2) that by (auto simp: wake_ok_def covered_def flag_ok_def simp del: waits_on_iff)
  have ng: "GetWait \<notin> set ws"
    using empty m inv(2) st by (cases pc) (auto simp: flag_ok_def enqueue_task_def QUEUE_MAX_def split: if_splits)
  show ?thesis
  proof (cases "\<exists>w \<in> set ws. waits_on Not_full w")
    case True
    then have f: "queue_count (queue s) = QUEUE_MAX" "\<forall>w \<in> set ws. waits_on Not_full w" using full st ng by blast+
    with m inv(2,4) show ?thesis by (cases pc) (auto simp: flag_ok_def QUEUE_MAX_def)
  next
    case False
    then have e: "\<forall>w \<in> set ws. w = Exited" using st ng by blast
    with inv(2,4) have "pc = Joining \<or> pc = Printed" by (cases ws) (auto simp: flag_ok_def)
    with e m show ?thesis by auto
  qed
qed

text \<open>A schedule of the pool, for concrete runs: \<open>Some i\<close> lets worker \<open>i\<close> take a step, \<open>None\<close> \<open>main\<close>.\<close>

fun notify_first :: "notice \<Rightarrow> wstate list \<Rightarrow> wstate list" where
  "notify_first Silent ws = ws"
| "notify_first (Signal c) ws = wake_first (waits_on c) woken ws"
| "notify_first (Broadcast c) ws = broadcast (waits_on c) woken ws"

lemma notify_first: "notify n ws (notify_first n ws)"
  by (cases n) (simp_all add: signalled_first)

fun pool_run :: "fs \<Rightarrow> nat option list \<Rightarrow> pool_state \<Rightarrow> pool_state option" where
  "pool_run fs [] st = Some st"
| "pool_run fs (None # sch) (pc, ws, s) = (case main_step pc ws s of
      None \<Rightarrow> None | Some (pc', s', n) \<Rightarrow> pool_run fs sch (pc', notify_first n ws, s'))"
| "pool_run fs (Some i # sch) (pc, ws, s) = (if i < length ws then
      (case worker True fs (ws ! i) s of None \<Rightarrow> None
       | Some (w, s', n) \<Rightarrow> pool_run fs sch (pc, notify_first n (ws[i := w]), s')) else None)"

lemma pool_run_reach: "pool_run fs sch st = Some st' \<Longrightarrow> (pool_any fs)\<^sup>*\<^sup>* st st'"
proof (induction fs sch st rule: pool_run.induct)
  case (2 fs sch pc ws s)
  then obtain pc' s' n where m: "main_step pc ws s = Some (pc', s', n)" by (auto split: option.splits)
  have "pool_any fs (pc, ws, s) (pc', notify_first n ws, s')" by (intro proper by_main [OF m] notify_first)
  with 2 m show ?case by (auto intro: converse_rtranclp_into_rtranclp)
next
  case (3 fs i sch pc ws s)
  then obtain w s' n where m: "i < length ws" "worker True fs (ws ! i) s = Some (w, s', n)" by (auto split: option.splits if_splits)
  have "pool_any fs (pc, ws, s) (pc, notify_first n (ws[i := w]), s')" by (intro proper by_worker [OF m] notify_first)
  with 3 m show ?case by (auto intro: converse_rtranclp_into_rtranclp)
qed simp

text \<open>A directory with one C file of two lines.\<close>

definition ex_fs :: fs where
  "ex_fs p = (if p = ''r'' then Directory [''.'', ''a.c''] False else if p = ''r/a.c'' then Reg [CHR ''x'', CHR 0x0A, CHR ''y''] else Absent)"

definition ex_W :: "statistic \<Rightarrow> string \<Rightarrow> int" where
  "ex_W k p = (if p = ''r'' then (case k of Files \<Rightarrow> 1 | Lines \<Rightarrow> 2 | Dirs \<Rightarrow> 0) else 0)"

definition ex_schedule :: "nat option list" where
  "ex_schedule = [Some 0, None, Some 0, None, None, Some 0, Some 0, None, Some 0] @ map Some [0..<12] @ [None]"

lemma ex_totals: "totals ex_fs ex_W"
proof -
  have "ex_W k p = (case ex_fs p of Directory es b \<Rightarrow> entries ex_fs ex_W k p es | _ \<Rightarrow> 0)" for k p
    by (cases k) (simp_all add: ex_fs_def ex_W_def entries_def entry_def dots_def join_path_def code_counter_def is_source_def)
  then show ?thesis by (simp add: totals_def)
qed

lemma ex_pool_run:
  "\<exists>s. pool_run ex_fs ex_schedule (pool_start ''r'') = Some (Printed, replicate 12 Exited, s) \<and>
    dropped s = [] \<and> file_count s = 1 \<and> code_count s = 2"
proof -
  have *: "map_option (\<lambda>(pc, ws, s). (pc, ws, dropped s, file_count s, code_count s)) (pool_run ex_fs ex_schedule (pool_start ''r'')) =
      Some (Printed, replicate 12 Exited, [], 1, 2)" by code_simp
  then show ?thesis by (auto simp: map_option_eq_Some)
qed

theorem pool_counts_tree_witness:
  "\<exists>ws s. (pool_any ex_fs)\<^sup>*\<^sup>* (pool_start ''r'') (Printed, ws, s) \<and>
    file_count s = ex_W Files ''r'' \<and> code_count s = ex_W Lines ''r'' \<and> dir_count s = ex_W Dirs ''r''"
proof -
  obtain s where s: "pool_run ex_fs ex_schedule (pool_start ''r'') = Some (Printed, replicate 12 Exited, s)" "dropped s = []"
    using ex_pool_run by blast
  from pool_counts_tree [OF ex_totals pool_run_reach [OF s(1)]] pool_run_reach [OF s(1)] s(2) show ?thesis by blast
qed

theorem pool_deadlock_only_when_full_witness:
  "\<exists>pc ws s. (pool_any ex_fs)\<^sup>*\<^sup>* (pool_start ''r'') (pc, ws, s) \<and> (\<nexists>st. pool_step ex_fs (pc, ws, s) st) \<and>
    (pc = Printed \<or> queue_count (queue s) = QUEUE_MAX)"
proof -
  obtain s where s: "pool_run ex_fs ex_schedule (pool_start ''r'') = Some (Printed, replicate 12 Exited, s)"
    using ex_pool_run by blast
  have "\<nexists>st. pool_step ex_fs (Printed, replicate 12 Exited, s) st"
    by (auto elim!: pool_step.cases)
  with pool_deadlock_only_when_full [OF ex_totals pool_run_reach [OF s]] pool_run_reach [OF s] show ?thesis by blast
qed

section \<open>\<open>statistic_file.c\<close>: a thread per directory\<close>

record Count =
  c_dir :: int
  c_file :: int
  c_code :: int

fun stat_count :: "statistic \<Rightarrow> Count \<Rightarrow> int" where
  "stat_count Files c = c_file c"
| "stat_count Lines c = c_code c"
| "stat_count Dirs c = c_dir c"

text \<open>The loop over \<open>readdir\<close>: the counts of this level and the paths for which threads are created.\<close>

fun scan_dir :: "fs \<Rightarrow> string \<Rightarrow> string list \<Rightarrow> Count \<Rightarrow> Count \<times> string list" where
  "scan_dir fs d [] c = (c, [])"
| "scan_dir fs d (e # es) c =
     (if dots e then scan_dir fs d es c
      else (let p = join_path d e
            in if is_reg (fs p) then
                 (let c1 = c\<lparr>c_file := c_file c + 1\<rparr>;
                      c2 = (if length p > 2 \<and> p ! (length p - 1) = CHR ''c'' \<and> p ! (length p - 2) = CHR ''.''
                            then c1\<lparr>c_code := c_code c1 + code_counter fs p\<rparr>
                            else if length p > 2 \<and> p ! (length p - 1) = CHR ''h'' \<and> p ! (length p - 2) = CHR ''.''
                            then c1\<lparr>c_code := c_code c1 + code_counter fs p\<rparr> else c1)
                  in scan_dir fs d es c2)
               else if is_dir (fs p) then
                 (case scan_dir fs d es (c\<lparr>c_dir := c_dir c + 1\<rparr>) of (c1, kids) \<Rightarrow> (c1, p # kids))
               else scan_dir fs d es c))"

definition add_count :: "Count option \<Rightarrow> Count \<Rightarrow> Count" where
  "add_count child c = (case child of
      None \<Rightarrow> c
    | Some k \<Rightarrow> \<lparr>c_dir = c_dir c + c_dir k, c_file = c_file c + c_file k, c_code = c_code c + c_code k\<rparr>)"

text \<open>
  \<open>show_dir\<close> with its children joined: \<open>Some None\<close> is the \<open>NULL\<close> of a directory that cannot be opened,
  \<open>None\<close> that the threads are nested deeper than the fuel.
\<close>

primrec show_dir :: "fs \<Rightarrow> nat \<Rightarrow> string \<Rightarrow> Count option option" where
  "show_dir fs 0 d = None"
| "show_dir fs (Suc n) d = (case fs d of
      Directory es b \<Rightarrow>
        (case scan_dir fs d es \<lparr>c_dir = 0, c_file = 0, c_code = 0\<rparr> of (c, kids) \<Rightarrow>
           (let rs = map (show_dir fs n) kids
            in if None \<in> set rs then None else Some (Some (fold (\<lambda>r. add_count (the r)) rs c))))
    | _ \<Rightarrow> Some None)"

text \<open>\<open>main\<close>: the three numbers printed, if any.\<close>

definition statfile_main :: "fs \<Rightarrow> nat \<Rightarrow> string list \<Rightarrow> ((int \<times> int \<times> int) option, unit) outcome" where
  "statfile_main fs n argv =
     (if length argv < 2 then Exit 1 ()
      else (case show_dir fs n (argv ! 1) of
          None \<Rightarrow> OutOfFuel ()
        | Some r \<Rightarrow> Ret (map_option (\<lambda>c. (c_file c, c_dir c, c_code c)) r) ()))"

text \<open>The tree below a path is at most \<open>n\<close> directories deep.\<close>

primrec depth_ok :: "fs \<Rightarrow> nat \<Rightarrow> string \<Rightarrow> bool" where
  "depth_ok fs 0 d = False"
| "depth_ok fs (Suc n) d = (case fs d of
      Directory es b \<Rightarrow> (\<forall>e \<in> set es. \<not> dots e \<longrightarrow> is_dir (fs (join_path d e)) \<longrightarrow> depth_ok fs n (join_path d e))
    | _ \<Rightarrow> True)"

lemma scan_dir_spec:
  "stat_count k (fst (scan_dir fs d es c)) + sum_list (map (W k) (snd (scan_dir fs d es c))) = stat_count k c + entries fs W k d es"
proof (induction es arbitrary: c)
  case (Cons e es)
  show ?case
    using Cons.IH by (cases k) (auto simp: Let_def entries_def entry_def is_source_def case_prod_beta algebra_simps)
qed (simp add: entries_def)

lemma scan_dir_kids: "set (snd (scan_dir fs d es c)) = {join_path d e | e. e \<in> set es \<and> \<not> dots e \<and> is_dir (fs (join_path d e))}"
  by (induction es arbitrary: c) (auto simp: Let_def case_prod_beta)

lemma add_count_stat: "stat_count k (add_count r c) = stat_count k c + (case r of None \<Rightarrow> 0 | Some x \<Rightarrow> stat_count k x)"
  by (cases k) (auto simp: add_count_def split: option.split)

lemma show_dir_spec:
  assumes "totals fs W" "depth_ok fs n d"
  shows "\<exists>r. show_dir fs n d = Some r \<and> (case r of None \<Rightarrow> \<forall>es b. fs d \<noteq> Directory es b | Some c \<Rightarrow> \<exists>es b. fs d = Directory es b) \<and>
    (\<forall>k. (case r of None \<Rightarrow> 0 | Some c \<Rightarrow> stat_count k c) = W k d)"
  using assms(2)
proof (induction n arbitrary: d)
  case (Suc n)
  have W: "W k d = (case fs d of Directory es b \<Rightarrow> entries fs W k d es | _ \<Rightarrow> 0)" for k
    using assms(1) by (simp add: totals_def)
  show ?case
  proof (cases "\<exists>es b. fs d = Directory es b")
    case False
    with W show ?thesis by (auto split: fnode.splits)
  next
    case True
    then obtain es b where d: "fs d = Directory es b" by blast
    define c0 :: Count where "c0 = \<lparr>c_dir = 0, c_file = 0, c_code = 0\<rparr>"
    obtain c kids where s: "scan_dir fs d es c0 = (c, kids)" by fastforce
    have kid: "\<exists>r. show_dir fs n x = Some r \<and> (\<forall>k. (case r of None \<Rightarrow> 0 | Some c \<Rightarrow> stat_count k c) = W k x)" if "x \<in> set kids" for x
    proof -
      have "depth_ok fs n x" using that scan_dir_kids [of fs d es c0] s Suc.prems d by auto
      from Suc.IH [OF this] show ?thesis by blast
    qed
    have "None \<notin> set (map (show_dir fs n) kids)" using kid by fastforce
    then have r: "show_dir fs (Suc n) d = Some (Some (fold (\<lambda>r. add_count (the r)) (map (show_dir fs n) kids) c))"
      using d s by (simp add: c0_def Let_def)
    have f: "stat_count k (fold (\<lambda>r. add_count (the r)) (map (show_dir fs n) xs) a) = stat_count k a + sum_list (map (W k) xs)"
      if "set xs \<subseteq> set kids" for k xs a
      using that
    proof (induction xs arbitrary: a)
      case (Cons x xs)
      then obtain r where "show_dir fs n x = Some r" "(case r of None \<Rightarrow> 0 | Some c \<Rightarrow> stat_count k c) = W k x"
        using kid [of x] by auto
      with Cons show ?case by (simp add: add_count_stat)
    qed simp
    have "stat_count k c + sum_list (map (W k) kids) = W k d" for k
      using scan_dir_spec [of k fs d es c0 W] s W [of k] d by (cases k) (simp_all add: c0_def)
    with r d f [of kids] show ?thesis by simp
  qed
qed simp

text \<open>
  \<open>statistic_file.c\<close> prints the totals of the tree: for a directory whose nesting the threads can
  follow, the joined results are the numbers of files, directories and lines below it.
\<close>

theorem statfile_counts_tree:
  assumes "totals fs W" and "depth_ok fs n (argv ! 1)" and "2 \<le> length argv" and "fs (argv ! 1) = Directory es b"
  shows "statfile_main fs n argv = Ret (Some (W Files (argv ! 1), W Dirs (argv ! 1), W Lines (argv ! 1))) ()"
proof -
  from show_dir_spec [OF assms(1,2)] assms(4) obtain c where c: "show_dir fs n (argv ! 1) = Some (Some c)"
    "\<And>k. stat_count k c = W k (argv ! 1)" by (auto split: option.splits)
  from c(2) [of Files] c(2) [of Lines] c(2) [of Dirs] c(1) assms(3) show ?thesis by (simp add: statfile_main_def)
qed

theorem statfile_counts_tree_witness:
  "statfile_main ex_fs 2 [''prog'', ''r''] = Ret (Some (1, 0, 2)) ()"
  using statfile_counts_tree [OF ex_totals, of 2 "[''prog'', ''r'']" _ False]
  by (simp add: numeral_2_eq_2 ex_fs_def ex_W_def join_path_def dots_def)

section \<open>\<open>IO/dir/statistic.c\<close>: recursion\<close>

text \<open>
  Types come from \<open>d_type\<close>, so links are not followed: in the file system parameter a link is \<open>Other\<close>. A C file
  that cannot be opened ends the program; a failing \<open>readdir\<close> closes the directory twice, which is
  undefined.
\<close>

definition io_code_counter :: "fs \<Rightarrow> string \<Rightarrow> Count \<Rightarrow> (int, Count) outcome" where
  "io_code_counter fs p c = (case fs p of Reg s \<Rightarrow> Ret (newlines s + 1) c | _ \<Rightarrow> Exit 1 c)"

fun io_entries :: "(string \<Rightarrow> Count \<Rightarrow> (unit, Count) outcome) \<Rightarrow> fs \<Rightarrow> string \<Rightarrow> string list \<Rightarrow> Count \<Rightarrow> (unit, Count) outcome" where
  "io_entries rec fs d [] c = Ret () c"
| "io_entries rec fs d (e # es) c =
     (if dots e then io_entries rec fs d es c
      else (let p = join_path d e
            in if is_reg (fs p) then
                 (let c1 = c\<lparr>c_file := c_file c + 1\<rparr>
                  in if (p ! (length p - 1) = CHR ''c'' \<or> p ! (length p - 1) = CHR ''h'') \<and> p ! (length p - 2) = CHR ''.''
                     then bind_outcome (io_code_counter fs p c1) (\<lambda>n c2. io_entries rec fs d es (c2\<lparr>c_code := c_code c2 + n\<rparr>))
                     else io_entries rec fs d es c1)
               else if is_dir (fs p) then
                 bind_outcome (rec p (c\<lparr>c_dir := c_dir c + 1\<rparr>)) (\<lambda>_ c1. io_entries rec fs d es c1)
               else io_entries rec fs d es c))"

primrec io_show_dir :: "fs \<Rightarrow> nat \<Rightarrow> string \<Rightarrow> Count \<Rightarrow> (unit, Count) outcome" where
  "io_show_dir fs 0 d c = OutOfFuel c"
| "io_show_dir fs (Suc n) d c = (case fs d of
      Directory es err \<Rightarrow>
        bind_outcome (io_entries (io_show_dir fs n) fs d es c) (\<lambda>_ c1. if err then Undef c1 else Ret () c1)
    | _ \<Rightarrow> Ret () c)"

definition io_main :: "fs \<Rightarrow> nat \<Rightarrow> string list \<Rightarrow> (unit, Count) outcome" where
  "io_main fs n argv = (if length argv < 2 then Undef \<lparr>c_dir = 0, c_file = 0, c_code = 0\<rparr>
     else bind_outcome (io_show_dir fs n (argv ! 1) \<lparr>c_dir = 0, c_file = 0, c_code = 0\<rparr>) (\<lambda>_ c. Exit 0 c))"

text \<open>Entries whose names do not make paths too long, readable C files, no \<open>readdir\<close> error: the tree is clean.\<close>

primrec clean :: "fs \<Rightarrow> nat \<Rightarrow> string \<Rightarrow> bool" where
  "clean fs 0 d = False"
| "clean fs (Suc n) d = (case fs d of
      Directory es err \<Rightarrow> \<not> err \<and> (\<forall>e \<in> set es. \<not> dots e \<longrightarrow>
        (is_dir (fs (join_path d e)) \<longrightarrow> clean fs n (join_path d e)) \<and>
        (is_reg (fs (join_path d e)) \<longrightarrow> fs (join_path d e) \<noteq> RegLocked \<and> 2 < length (join_path d e)))
    | _ \<Rightarrow> True)"

lemma io_entries_reg:
  assumes "\<not> dots e" "fs (join_path d e) = Reg s" "2 < length (join_path d e)"
  shows "io_entries rec fs d (e # xs) a = io_entries rec fs d xs
    (a\<lparr>c_file := c_file a + 1, c_code := c_code a + own fs Lines (join_path d e)\<rparr>)"
proof (cases "is_source (join_path d e)")
  case True
  with assms show ?thesis by (auto simp: Let_def io_code_counter_def is_source_def code_counter_def)
next
  case False
  then have "\<not> ((join_path d e ! (length (join_path d e) - 1) = CHR ''c'' \<or> join_path d e ! (length (join_path d e) - 1) = CHR ''h'') \<and>
    join_path d e ! (length (join_path d e) - 2) = CHR ''.'')" using assms(3) by (auto simp: is_source_def)
  with assms(1,2) False show ?thesis by (auto simp: Let_def)
qed

text \<open>One level, given that the recursive calls count.\<close>

lemma io_entries_spec:
  assumes "\<And>p a. is_dir (fs p) \<Longrightarrow> P p \<Longrightarrow> \<exists>c'. rec p a = Ret () c' \<and> (\<forall>k. stat_count k c' = stat_count k a + W k p)"
    and "\<forall>e \<in> set xs. \<not> dots e \<longrightarrow> (is_dir (fs (join_path d e)) \<longrightarrow> P (join_path d e)) \<and>
      (is_reg (fs (join_path d e)) \<longrightarrow> fs (join_path d e) \<noteq> RegLocked \<and> 2 < length (join_path d e))"
  shows "\<exists>c'. io_entries rec fs d xs a = Ret () c' \<and> (\<forall>k. stat_count k c' = stat_count k a + entries fs W k d xs)"
  using assms(2)
proof (induction xs arbitrary: a)
  case (Cons e xs)
  let ?p = "join_path d e"
  have ih: "\<exists>c'. io_entries rec fs d xs b = Ret () c' \<and> (\<forall>k. stat_count k c' = stat_count k b + entries fs W k d xs)" for b
    using Cons.prems by (intro Cons.IH) simp
  have step: ?case if "io_entries rec fs d (e # xs) a = io_entries rec fs d xs b" "\<And>k. stat_count k b = stat_count k a + entry fs W k d e" for b
    using ih [of b] that by (auto simp: entries_def)
  show ?case
  proof (cases "dots e")
    case True
    then show ?thesis by (intro step [of a]) (simp_all add: entry_def)
  next
    case nd: False
    consider (reg) s where "fs ?p = Reg s" "2 < length ?p" | (dir) "is_dir (fs ?p)" "P ?p" | (other) "\<not> is_reg (fs ?p)" "\<not> is_dir (fs ?p)"
      using Cons.prems nd by (cases "fs ?p") auto
    then show ?thesis
    proof cases
      case reg
      let ?b = "a\<lparr>c_file := c_file a + 1, c_code := c_code a + own fs Lines ?p\<rparr>"
      have "stat_count k ?b = stat_count k a + entry fs W k d e" for k
        using reg nd by (cases k) (simp_all add: entry_def)
      with io_entries_reg [of e fs d s rec xs a] nd reg show ?thesis by (intro step [of ?b]) auto
    next
      case dir
      obtain b where b: "rec ?p (a\<lparr>c_dir := c_dir a + 1\<rparr>) = Ret () b"
        "\<And>k. stat_count k b = stat_count k (a\<lparr>c_dir := c_dir a + 1\<rparr>) + W k ?p" using assms(1) [OF dir] by blast
      have nr: "\<not> is_reg (fs ?p)" using dir(1) by (cases "fs ?p") simp_all
      have "stat_count k b = stat_count k a + entry fs W k d e" for k
        using b(2) [of k] dir(1) nr nd by (cases k) (simp_all add: entry_def)
      moreover have "io_entries rec fs d (e # xs) a = io_entries rec fs d xs b" using nd dir(1) nr b(1) by (simp add: Let_def)
      ultimately show ?thesis by (intro step)
    next
      case other
      have "stat_count k a = stat_count k a + entry fs W k d e" for k using other nd by (cases k) (simp_all add: entry_def)
      moreover have "io_entries rec fs d (e # xs) a = io_entries rec fs d xs a" using other nd by (simp add: Let_def)
      ultimately show ?thesis by (intro step)
    qed
  qed
qed (simp add: entries_def)

lemma io_show_dir_spec:
  assumes "totals fs W" "clean fs n d"
  shows "\<exists>c'. io_show_dir fs n d c = Ret () c' \<and> (\<forall>k. stat_count k c' = stat_count k c + W k d)"
  using assms(2)
proof (induction n arbitrary: d c)
  case (Suc n)
  have W: "W k d = (case fs d of Directory es b \<Rightarrow> entries fs W k d es | _ \<Rightarrow> 0)" for k
    using assms(1) by (simp add: totals_def)
  show ?case
  proof (cases "\<exists>es b. fs d = Directory es b")
    case False
    with W show ?thesis by (auto split: fnode.splits)
  next
    case True
    then obtain es err where d: "fs d = Directory es err" by blast
    with Suc.prems have "\<not> err" by simp
    have "\<exists>c'. io_entries (io_show_dir fs n) fs d es c = Ret () c' \<and> (\<forall>k. stat_count k c' = stat_count k c + entries fs W k d es)"
      by (rule io_entries_spec [where P = "clean fs n"]) (use Suc d in auto)
    with d W \<open>\<not> err\<close> show ?thesis by auto
  qed
qed simp

text \<open>
  \<open>IO/dir/statistic.c\<close> prints the totals of a clean tree (no unreadable C file, no failing
  \<open>readdir\<close>, nesting within the fuel) and exits with status 0.
\<close>

theorem io_main_counts_tree:
  assumes "totals fs W" and "2 \<le> length argv" and "clean fs n (argv ! 1)"
  shows "\<exists>c. io_main fs n argv = Exit 0 c \<and> c_file c = W Files (argv ! 1) \<and> c_dir c = W Dirs (argv ! 1) \<and> c_code c = W Lines (argv ! 1)"
proof -
  let ?c0 = "\<lparr>c_dir = 0, c_file = 0, c_code = 0\<rparr>"
  from io_show_dir_spec [OF assms(1,3), of ?c0] obtain c where c: "io_show_dir fs n (argv ! 1) ?c0 = Ret () c"
    "\<And>k. stat_count k c = stat_count k ?c0 + W k (argv ! 1)" by blast
  from c(2) [of Files] c(2) [of Lines] c(2) [of Dirs] c(1) assms(2) show ?thesis by (auto simp: io_main_def)
qed

theorem io_main_counts_tree_witness:
  "\<exists>c. io_main ex_fs 2 [''prog'', ''r''] = Exit 0 c \<and> c_file c = 1 \<and> c_dir c = 0 \<and> c_code c = 2"
  using io_main_counts_tree [OF ex_totals, of "[''prog'', ''r'']" 2]
  by (auto simp: numeral_2_eq_2 ex_fs_def ex_W_def join_path_def dots_def)

end
