(* ===== verification/Socket_Server.thy ===== *)
theory Socket_Server
  imports Posix Monitor "HOL-Library.Multiset"
begin

text \<open>
  \<open>IPC/socket/Newer/server.c\<close>: a server whose main thread accepts connections and hands each to a pool
  of four threads through a linked list of tasks, guarded by a mutex and a condition variable. The
  memory of the list's nodes and of the descriptors passed to the tasks is modelled as two stores, so
  an access to freed memory is visible.
\<close>

section \<open>The queue of tasks\<close>

definition THREAD_MAX :: nat where
  "THREAD_MAX = 4"

text \<open>The only function ever stored in a task is \<open>handle_client\<close>; its argument is the address of a descriptor.\<close>

datatype task_fn = Handle_client

record task_t =
  task_function :: task_fn
  task_arg :: nat

record task_node_t =
  node_task :: task_t
  next_node :: "nat option"

type_synonym node_store = "nat \<rightharpoonup> task_node_t"

text \<open>\<open>nodes\<close> is the memory in which \<open>malloc\<close> places the nodes.\<close>

record thread_pool_t =
  task_head :: "nat option"
  task_tail :: "nat option"
  task_count :: int
  shutdown :: bool
  nodes :: node_store

definition pool_init :: "thread_pool_t \<Rightarrow> thread_pool_t" where
  "pool_init p = p\<lparr>task_head := None, task_tail := None, task_count := 0, shutdown := False\<rparr>"

text \<open>
  \<open>pool_add_task\<close> with the node that \<open>malloc\<close> returned; the part under the mutex signals \<open>pool.cond\<close>.
  The tail is dereferenced, so a stale tail would be undefined behaviour.
\<close>

definition pool_add_task :: "nat option \<Rightarrow> task_fn \<Rightarrow> nat \<Rightarrow> thread_pool_t \<Rightarrow> (unit, thread_pool_t) outcome" where
  "pool_add_task node f x p = (case node of
      None \<Rightarrow> Undef p
    | Some a \<Rightarrow>
        (let p1 = p\<lparr>nodes := (nodes p)(a \<mapsto> \<lparr>node_task = \<lparr>task_function = f, task_arg = x\<rparr>, next_node = None\<rparr>)\<rparr>
         in case task_tail p1 of
              None \<Rightarrow> Ret () (p1\<lparr>task_head := Some a, task_tail := Some a, task_count := task_count p1 + 1\<rparr>)
            | Some t \<Rightarrow>
                (case nodes p1 t of
                   None \<Rightarrow> Undef p1
                 | Some tn \<Rightarrow> Ret () (p1\<lparr>nodes := (nodes p1)(t \<mapsto> tn\<lparr>next_node := Some a\<rparr>), task_tail := Some a,
                     task_count := task_count p1 + 1\<rparr>))))"

text \<open>The removal of the first node in \<open>worker_thread\<close>; \<open>None\<close> when the head is \<open>NULL\<close> or freed.\<close>

definition pool_take :: "thread_pool_t \<Rightarrow> (nat \<times> thread_pool_t) option" where
  "pool_take p = (case task_head p of
      None \<Rightarrow> None
    | Some a \<Rightarrow> (case nodes p a of
          None \<Rightarrow> None
        | Some n \<Rightarrow>
            (let p1 = p\<lparr>task_head := next_node n\<rparr>;
                 p2 = (if task_head p1 = None then p1\<lparr>task_tail := None\<rparr> else p1)
             in Some (a, p2\<lparr>task_count := task_count p2 - 1\<rparr>))))"

section \<open>The list behind the pointers\<close>

fun chain :: "node_store \<Rightarrow> nat option \<Rightarrow> (nat \<times> task_t) list \<Rightarrow> bool" where
  "chain h q [] = (q = None)"
| "chain h q ((a, t) # xs) = (q = Some a \<and> (\<exists>n. h a = Some \<lparr>node_task = t, next_node = n\<rparr> \<and> chain h n xs))"

text \<open>The list, read from the memory; the number of nodes bounds the walk.\<close>

fun walk :: "nat \<Rightarrow> node_store \<Rightarrow> nat option \<Rightarrow> (nat \<times> task_t) list" where
  "walk 0 h q = []"
| "walk (Suc n) h None = []"
| "walk (Suc n) h (Some a) = (case h a of None \<Rightarrow> [] | Some nd \<Rightarrow> (a, node_task nd) # walk n h (next_node nd))"

definition pool_items :: "thread_pool_t \<Rightarrow> (nat \<times> task_t) list" where
  "pool_items p = walk (nat (task_count p)) (nodes p) (task_head p)"

definition list_ok :: "thread_pool_t \<Rightarrow> (nat \<times> task_t) list \<Rightarrow> bool" where
  "list_ok p xs \<longleftrightarrow> chain (nodes p) (task_head p) xs \<and> distinct (map fst xs) \<and> task_count p = int (length xs) \<and>
     task_tail p = (if xs = [] then None else Some (fst (last xs)))"

definition queue_ok :: "thread_pool_t \<Rightarrow> bool" where
  "queue_ok p \<longleftrightarrow> list_ok p (pool_items p)"

lemma walk_chain: "chain h q xs \<Longrightarrow> walk (length xs) h q = xs"
  by (induction h q xs rule: chain.induct) auto

lemma list_ok_items: "list_ok p xs \<Longrightarrow> pool_items p = xs"
  by (simp add: list_ok_def pool_items_def walk_chain)

lemma list_ok_queue: "list_ok p xs \<longleftrightarrow> queue_ok p \<and> pool_items p = xs"
  by (auto simp: queue_ok_def dest: list_ok_items)

lemma chain_fresh [simp]: "a \<notin> fst ` set xs \<Longrightarrow> chain (h(a := v)) q xs = chain h q xs"
  by (induction h q xs rule: chain.induct) auto

lemma chain_dom: "chain h q xs \<Longrightarrow> (a, t) \<in> set xs \<Longrightarrow> \<exists>n. h a = Some \<lparr>node_task = t, next_node = n\<rparr>"
  by (induction h q xs rule: chain.induct) auto

lemma chain_snoc:
  assumes "chain h q xs" "xs \<noteq> []" "distinct (map fst xs)" "a \<notin> fst ` set xs"
    and "last xs = (l, t)" "h' = h(l \<mapsto> \<lparr>node_task = t, next_node = Some a\<rparr>)" "h a = Some \<lparr>node_task = u, next_node = None\<rparr>"
  shows "chain h' q (xs @ [(a, u)])"
  using assms
proof (induction h q xs rule: chain.induct)
  case (2 h q b v xs)
  then obtain n where n: "h b = Some \<lparr>node_task = v, next_node = n\<rparr>" "chain h n xs" "q = Some b" by auto
  show ?case
  proof (cases "xs = []")
    case True
    with 2 n show ?thesis by auto
  next
    case False
    with 2 have "l \<noteq> b" using last_in_set [of xs] by (auto simp: image_iff)
    moreover from 2 n False have "chain h' n (xs @ [(a, u)])" by auto
    ultimately show ?thesis using n 2(7) by simp
  qed
qed simp

text \<open>A node that carries its task is put under an address that is not in use; \<open>put_node\<close> is \<open>pool_add_task\<close> on it.\<close>

definition put_node :: "nat \<times> task_t \<Rightarrow> thread_pool_t \<Rightarrow> thread_pool_t" where
  "put_node x p = (case pool_add_task (Some (fst x)) (task_function (snd x)) (task_arg (snd x)) p of
      Ret r p1 \<Rightarrow> p1 | Undef p1 \<Rightarrow> p1 | Exit c p1 \<Rightarrow> p1 | Abort p1 \<Rightarrow> p1 | Blocked p1 \<Rightarrow> p1 | OutOfFuel p1 \<Rightarrow> p1)"

definition take_node :: "thread_pool_t \<Rightarrow> ((nat \<times> task_t) \<times> thread_pool_t) option" where
  "take_node p = (case pool_take p of
      None \<Rightarrow> None
    | Some (a, p1) \<Rightarrow> (case nodes p1 a of None \<Rightarrow> None | Some n \<Rightarrow> Some ((a, node_task n), p1)))"

definition node_free :: "nat \<times> task_t \<Rightarrow> thread_pool_t \<Rightarrow> bool" where
  "node_free x p \<longleftrightarrow> nodes p (fst x) = None"

lemma add_task_ok:
  assumes "list_ok p xs" "nodes p a = None"
  shows "\<exists>p1. pool_add_task (Some a) f x p = Ret () p1 \<and> list_ok p1 (xs @ [(a, \<lparr>task_function = f, task_arg = x\<rparr>)]) \<and>
    shutdown p1 = shutdown p \<and> nodes p1 a \<noteq> None \<and>
    (\<forall>b. b \<noteq> a \<longrightarrow> map_option node_task (nodes p1 b) = map_option node_task (nodes p b))"
proof -
  have fresh: "a \<notin> fst ` set xs" using assms chain_dom [of "nodes p" "task_head p" xs] by (fastforce simp: list_ok_def)
  let ?n = "\<lparr>node_task = \<lparr>task_function = f, task_arg = x\<rparr>, next_node = None\<rparr>"
  show ?thesis
  proof (cases "xs = []")
    case True
    with assms show ?thesis by (auto simp: pool_add_task_def list_ok_def)
  next
    case False
    obtain l t where lt: "last xs = (l, t)" by fastforce
    then have mem: "(l, t) \<in> set xs" using last_in_set [OF False] by simp
    have "chain (nodes p) (task_head p) xs" using assms by (simp add: list_ok_def)
    from chain_dom [OF this mem] obtain n where n: "nodes p l = Some \<lparr>node_task = t, next_node = n\<rparr>" by blast
    have la: "l \<noteq> a" using mem fresh by force
    let ?h = "(nodes p)(a \<mapsto> ?n)"
    have "chain (?h(l \<mapsto> \<lparr>node_task = t, next_node = Some a\<rparr>)) (task_head p) (xs @ [(a, node_task ?n)])"
      by (rule chain_snoc [where h = ?h and l = l and t = t]) (use assms False fresh lt in \<open>simp_all add: list_ok_def\<close>)
    with assms False lt n la fresh show ?thesis
      by (auto simp: pool_add_task_def list_ok_def Let_def)
  qed
qed

lemma take_ok:
  assumes "list_ok p ((a, t) # xs)"
  shows "\<exists>p1. pool_take p = Some (a, p1) \<and> list_ok p1 xs \<and> nodes p1 = nodes p \<and> shutdown p1 = shutdown p"
  using assms by (cases xs) (auto simp: pool_take_def list_ok_def Let_def)

lemma take_None: "list_ok p xs \<Longrightarrow> pool_take p = None \<longleftrightarrow> xs = []"
  by (cases xs) (auto simp: pool_take_def list_ok_def Let_def)

lemma put_node_ok:
  assumes "queue_ok p" "node_free x p"
  shows "list_ok (put_node x p) (pool_items p @ [x])"
proof -
  have "x = (fst x, \<lparr>task_function = task_function (snd x), task_arg = task_arg (snd x)\<rparr>)" by (simp add: prod_eq_iff)
  with assms add_task_ok [of p "pool_items p" "fst x" "task_function (snd x)" "task_arg (snd x)"] show ?thesis
    by (auto simp: queue_ok_def node_free_def put_node_def)
qed

interpretation lq: fifo queue_ok pool_items node_free put_node take_node
proof (unfold_locales, goal_cases)
  case (1 q a)
  from put_node_ok [OF 1] show ?case by (rule list_ok_items)
next
  case (2 q a)
  from put_node_ok [OF 2] show ?case by (simp add: list_ok_queue)
next
  case (3 q)
  then have ok: "list_ok q (pool_items q)" by (simp add: queue_ok_def)
  show ?case
  proof (cases "pool_items q")
    case (Cons x xs)
    with ok take_ok [of q "fst x" "snd x" xs] chain_dom [of "nodes q" "task_head q" "pool_items q" "fst x" "snd x"]
    show ?thesis by (auto simp: take_node_def list_ok_def)
  qed (use ok take_None [OF ok] in \<open>simp add: take_node_def\<close>)
next
  case (4 q a q')
  then have ok: "list_ok q (pool_items q)" by (simp add: queue_ok_def)
  with 4 obtain x xs where x: "pool_items q = x # xs" using take_None [OF ok] by (cases "pool_items q") (auto simp: take_node_def)
  with ok take_ok [of q "fst x" "snd x" xs] obtain p1 where p1: "pool_take q = Some (fst x, p1)" "list_ok p1 xs" "nodes p1 = nodes q" by auto
  moreover have "\<exists>n. nodes q (fst x) = Some \<lparr>node_task = snd x, next_node = n\<rparr>"
    using ok x chain_dom [of "nodes q" "task_head q" "pool_items q" "fst x" "snd x"] by (simp add: list_ok_def)
  ultimately have "a = x \<and> q' = p1" using 4 by (auto simp: take_node_def)
  with x p1(2) show ?case by (auto simp: queue_ok_def dest: list_ok_items)
qed

section \<open>The threads and the accepting loop\<close>

definition message :: "byte list" where
  "message = str_bytes (''This is a message from server.'' @ [CHR 0x0A]) @ [0]"

text \<open>\<^verbatim>\<open>buf[strcspn(buf, "\r\n")] = 0\<close>: the string in the zeroed buffer up to the first line end.\<close>

definition line_of :: "byte list \<Rightarrow> byte list" where
  "line_of bs = takeWhile (\<lambda>b. b \<noteq> 0 \<and> b \<noteq> 13 \<and> b \<noteq> 10) bs"

text \<open>
  One turn of the loop of \<open>handle_client\<close>; the result says whether the client stays active. A read from a
  connected client that has sent nothing blocks; \<open>read\<close> on the result of a failed \<open>accept\<close> fails.
\<close>

definition client_turn :: "int \<Rightarrow> world \<Rightarrow> (bool, world) outcome" where
  "client_turn fd w =
     (if fd < 0 then Ret False w
      else if rd_script w fd = [] then Blocked w
      else (case sys_read fd 1023 w of (sz, bs, w1) \<Rightarrow>
        if sz \<le> 0 then Ret False w1
        else if line_of bs = str_bytes ''exit'' then Ret False w1
        else Ret True (snd (sys_write fd message w1))))"

lemma sys_write_rd [simp]: "rd_script (snd (sys_write fd bs w)) = rd_script w"
  by (auto simp: sys_write_def split: list.splits wr_ev.splits)

lemma client_turn_work: "client_turn fd w = Ret True w1 \<Longrightarrow> rd_work (rd_script w1 fd) < rd_work (rd_script w fd)"
  by (auto simp: client_turn_def sys_read_def split: if_splits list.splits rd_ev.splits)

text \<open>The whole of \<open>handle_client\<close> on its own.\<close>

function handle_client :: "int \<Rightarrow> world \<Rightarrow> (unit, world) outcome" where
  "handle_client fd w = (case client_turn fd w of
      Ret active w1 \<Rightarrow> if active then handle_client fd w1 else Ret () (sys_close fd w1)
    | Blocked w1 \<Rightarrow> Blocked w1
    | Exit c w1 \<Rightarrow> Exit c w1 | Abort w1 \<Rightarrow> Abort w1 | OutOfFuel w1 \<Rightarrow> OutOfFuel w1 | Undef w1 \<Rightarrow> Undef w1)"
  by pat_completeness auto
termination
  by (relation "measure (\<lambda>(fd, w). rd_work (rd_script w fd))") (auto dest: client_turn_work)

declare handle_client.simps [simp del]

text \<open>
  A pool thread is about to take a task, waits on \<open>pool.cond\<close>, serves a client (the node it has taken
  and the descriptor), or has left.
\<close>

datatype srv_thread = Fetching | Waiting | Serving nat int | Gone

text \<open>
  \<open>cells\<close> is the memory of the descriptors passed to the tasks. \<open>accepted\<close>, \<open>started\<close> and \<open>served\<close> record
  the connections accepted, taken over by a thread, and finished.
\<close>

record server =
  pool :: thread_pool_t
  cells :: "nat \<rightharpoonup> int"
  net :: world
  accepted :: "int list"
  started :: "int list"
  served :: "int list"

text \<open>One step of \<open>worker_thread\<close>: a pass through the mutex, or a turn of \<open>handle_client\<close>.\<close>

fun worker_thread :: "srv_thread \<Rightarrow> server \<Rightarrow> (srv_thread, server) outcome" where
  "worker_thread Fetching s =
     (if task_count (pool s) = 0 \<and> \<not> shutdown (pool s) then Ret Waiting s
      else if shutdown (pool s) then Ret Gone s
      else (case pool_take (pool s) of
          None \<Rightarrow> Undef s
        | Some (a, p1) \<Rightarrow> (case nodes p1 a of
              None \<Rightarrow> Undef s
            | Some n \<Rightarrow> (case cells s (task_arg (node_task n)) of
                  None \<Rightarrow> Undef s
                | Some fd \<Rightarrow> Ret (Serving a fd)
                    (s\<lparr>pool := p1, cells := (cells s)(task_arg (node_task n) := None), started := started s @ [fd]\<rparr>)))))"
| "worker_thread Waiting s = Blocked s"
| "worker_thread (Serving a fd) s = (case client_turn fd (net s) of
      Ret active w \<Rightarrow>
        if active then Ret (Serving a fd) (s\<lparr>net := w\<rparr>)
        else if nodes (pool s) a = None then Undef s
        else Ret Fetching (s\<lparr>net := sys_close fd w, pool := (pool s)\<lparr>nodes := (nodes (pool s))(a := None)\<rparr>, served := served s @ [fd]\<rparr>)
    | _ \<Rightarrow> Blocked s)"
| "worker_thread Gone s = Blocked s"

text \<open>One turn of the loop of \<open>main\<close>: the result of \<open>accept\<close> and the two results of \<open>malloc\<close> are given.\<close>

definition accept_turn :: "int \<Rightarrow> nat option \<Rightarrow> nat option \<Rightarrow> server \<Rightarrow> (unit, server) outcome" where
  "accept_turn fd cell node s = (case cell of
      None \<Rightarrow> Undef s
    | Some c \<Rightarrow> (case pool_add_task node Handle_client c (pool s) of
          Ret r p1 \<Rightarrow> Ret () (s\<lparr>pool := p1, cells := (cells s)(c \<mapsto> fd), accepted := accepted s @ [fd]\<rparr>)
        | _ \<Rightarrow> Undef s))"

definition srv_start :: "world \<Rightarrow> srv_thread list \<times> server" where
  "srv_start w = (replicate THREAD_MAX Fetching,
     \<lparr>pool = pool_init \<lparr>task_head = None, task_tail = None, task_count = 0, shutdown = False, nodes = Map.empty\<rparr>,
      cells = Map.empty, net = w, accepted = [], started = [], served = []\<rparr>)"

abbreviation srv_waits :: "srv_thread \<Rightarrow> bool" where
  "srv_waits t \<equiv> t = Waiting"

abbreviation srv_woken :: "srv_thread \<Rightarrow> srv_thread" where
  "srv_woken t \<equiv> Fetching"

text \<open>
  The threads interleave freely; \<open>malloc\<close> returns unused memory; what the clients send is arbitrary;
  waiting threads may wake without a signal.
\<close>

inductive srv_step :: "srv_thread list \<times> server \<Rightarrow> srv_thread list \<times> server \<Rightarrow> bool" where
  by_thread: "i < length ts \<Longrightarrow> worker_thread (ts ! i) s = Ret t s' \<Longrightarrow> srv_step (ts, s) (ts[i := t], s')"
| by_accept: "cells s c = None \<Longrightarrow> nodes (pool s) a = None \<Longrightarrow> accept_turn fd (Some c) (Some a) s = Ret () s' \<Longrightarrow>
    signalled srv_waits srv_woken ts ts' \<Longrightarrow> srv_step (ts, s) (ts', s')"
| by_client: "srv_step (ts, s) (ts, s\<lparr>net := (net s)\<lparr>rd_script := f\<rparr>\<rparr>)"
| by_chance: "i < length ts \<Longrightarrow> srv_waits (ts ! i) \<Longrightarrow> srv_step (ts, s) (ts[i := srv_woken (ts ! i)], s)"

section \<open>Every connection is served once, in order\<close>

fun serving :: "srv_thread \<Rightarrow> (nat \<times> int) list" where
  "serving (Serving a fd) = [(a, fd)]"
| "serving t = []"

definition in_service :: "srv_thread list \<Rightarrow> (nat \<times> int) list" where
  "in_service ts = concat (map serving ts)"

text \<open>The descriptor a queued task carries, and the descriptors that wait in the queue.\<close>

definition carried :: "server \<Rightarrow> nat \<times> task_t \<Rightarrow> int" where
  "carried s x = the (cells s (task_arg (snd x)))"

definition waiting_fds :: "server \<Rightarrow> int list" where
  "waiting_fds s = map (carried s) (pool_items (pool s))"

definition mem_ok :: "srv_thread list \<Rightarrow> server \<Rightarrow> bool" where
  "mem_ok ts s \<longleftrightarrow> queue_ok (pool s) \<and>
     distinct (map fst (pool_items (pool s)) @ map fst (in_service ts)) \<and>
     (\<forall>x \<in> set (in_service ts). nodes (pool s) (fst x) \<noteq> None) \<and>
     distinct (map (task_arg \<circ> snd) (pool_items (pool s))) \<and>
     (\<forall>x \<in> set (pool_items (pool s)). cells s (task_arg (snd x)) \<noteq> None)"

definition srv_inv :: "srv_thread list \<times> server \<Rightarrow> bool" where
  "srv_inv st \<longleftrightarrow> (case st of (ts, s) \<Rightarrow> length ts = THREAD_MAX \<and> Gone \<notin> set ts \<and> \<not> shutdown (pool s) \<and> mem_ok ts s \<and>
     accepted s = started s @ waiting_fds s \<and> mset (started s) = mset (served s) + mset (map snd (in_service ts)) \<and>
     covered srv_waits (\<lambda>t. t = Fetching) (length (pool_items (pool s))) ts)"

lemma gone_upd [simp]: "Gone \<notin> set ts \<Longrightarrow> t \<noteq> Gone \<Longrightarrow> Gone \<notin> set (ts[i := t])"
  using set_update_subset_insert [of ts i t] by auto

lemma in_service_upd:
  "i < length ts \<Longrightarrow> mset (in_service (ts[i := t])) + mset (serving (ts ! i)) = mset (in_service ts) + mset (serving t)"
proof (induction ts arbitrary: i)
  case (Cons x ts)
  then show ?case by (cases i) (auto simp: in_service_def ac_simps)
qed simp

lemma in_service_same:
  assumes "i < length ts" "serving (ts ! i) = []" "serving t = []"
  shows "mset (in_service (ts[i := t])) = mset (in_service ts)"
  using in_service_upd [OF assms(1), of t] assms by simp

lemma in_service_signal: "signalled srv_waits srv_woken ts ts' \<Longrightarrow> mset (in_service ts') = mset (in_service ts)"
  by (induction rule: signalled.induct) (simp_all add: in_service_same)

lemma mem_ok_cong: "mset (in_service ts') = mset (in_service ts) \<Longrightarrow> mem_ok ts' s = mem_ok ts s"
proof -
  assume e: "mset (in_service ts') = mset (in_service ts)"
  then have "set (in_service ts') = set (in_service ts)" by (metis set_mset_mset)
  moreover have "distinct (map fst (pool_items (pool s)) @ map fst (in_service ts')) =
      distinct (map fst (pool_items (pool s)) @ map fst (in_service ts))"
    by (rule mset_eq_imp_distinct_iff) (simp add: e)
  ultimately show ?thesis by (simp add: mem_ok_def)
qed

lemma list_ok_count: "queue_ok p \<Longrightarrow> task_count p = int (length (pool_items p))"
  by (simp add: queue_ok_def list_ok_def)

text \<open>Taking a task: the oldest connection goes into service and its descriptor's cell is freed.\<close>

lemma fetch_step:
  assumes "mem_ok ts s" "\<not> shutdown (pool s)" "pool_items (pool s) = x # xs"
  shows "\<exists>s'. worker_thread Fetching s = Ret (Serving (fst x) (carried s x)) s' \<and> pool_items (pool s') = xs \<and> queue_ok (pool s') \<and>
    nodes (pool s') = nodes (pool s) \<and> \<not> shutdown (pool s') \<and> cells s' = (cells s)(task_arg (snd x) := None) \<and>
    accepted s' = accepted s \<and> started s' = started s @ [carried s x] \<and> served s' = served s"
proof -
  have ok: "list_ok (pool s) ((fst x, snd x) # xs)" using assms by (auto simp: mem_ok_def queue_ok_def)
  from take_ok [OF ok] obtain p1 where p1: "pool_take (pool s) = Some (fst x, p1)" "list_ok p1 xs" "nodes p1 = nodes (pool s)" "shutdown p1 = shutdown (pool s)"
    by blast
  obtain n where n: "nodes (pool s) (fst x) = Some n" "node_task n = snd x"
    using ok by (cases x) (auto simp: list_ok_def)
  have "cells s (task_arg (snd x)) \<noteq> None" using assms by (auto simp: mem_ok_def)
  moreover have "task_count (pool s) \<noteq> 0" using ok by (simp add: list_ok_def)
  ultimately show ?thesis using assms(2) p1 n by (auto simp: carried_def list_ok_queue)
qed

lemma carried_cong: "cells s' = (cells s)(c := v) \<Longrightarrow> task_arg (snd x) \<noteq> c \<Longrightarrow> carried s' x = carried s x"
  by (simp add: carried_def)

lemma srv_inv_fetch:
  assumes "srv_inv (ts, s)" "i < length ts" "ts ! i = Fetching" "pool_items (pool s) = x # xs" "worker_thread Fetching s = Ret t s'"
  shows "srv_inv (ts[i := t], s')"
proof -
  from assms(1) have i: "mem_ok ts s" "\<not> shutdown (pool s)" by (simp_all add: srv_inv_def)
  from fetch_step [OF i assms(4)] assms(5) have t: "t = Serving (fst x) (carried s x)" and f: "pool_items (pool s') = xs" "queue_ok (pool s')"
      "nodes (pool s') = nodes (pool s)" "\<not> shutdown (pool s')" "cells s' = (cells s)(task_arg (snd x) := None)"
      "accepted s' = accepted s" "started s' = started s @ [carried s x]" "served s' = served s" by auto
  have ms: "mset (in_service (ts[i := t])) = mset (in_service ts) + {#(fst x, carried s x)#}"
    using in_service_upd [OF assms(2), of t] assms(3) t by simp
  then have set: "set (in_service (ts[i := t])) = insert (fst x, carried s x) (set (in_service ts))"
    by (metis set_mset_mset set_mset_add_mset_insert add_mset_add_single)
  have "distinct (map fst xs @ map fst (in_service (ts[i := t]))) = distinct (map fst (pool_items (pool s)) @ map fst (in_service ts))"
    by (rule mset_eq_imp_distinct_iff) (simp add: ms assms(4))
  moreover have ne: "task_arg (snd y) \<noteq> task_arg (snd x)" if "y \<in> set xs" for y
    using i(1) assms(4) that by (simp add: mem_ok_def image_iff) metis
  moreover have "nodes (pool s) (fst x) \<noteq> None" using i(1) assms(4) by (cases x) (auto simp: mem_ok_def queue_ok_def list_ok_def)
  ultimately have m: "mem_ok (ts[i := t]) s'" using i(1) assms(4) f set by (simp add: mem_ok_def)
  have "carried s' y = carried s y" if "y \<in> set xs" for y
    using f(5) ne [OF that] by (intro carried_cong [where c = "task_arg (snd x)" and v = None]) auto
  then have "waiting_fds s = carried s x # waiting_fds s'"
    using f(1) assms(4) by (simp add: waiting_fds_def)
  moreover have "covered srv_waits (\<lambda>t. t = Fetching) (length xs) (ts[i := t])"
    using assms(1,2,4) t by (intro covered_take) (auto simp: srv_inv_def)
  ultimately show ?thesis using assms(1,2) f t m ms by (simp add: srv_inv_def)
qed

lemma srv_inv_serve:
  assumes "srv_inv (ts, s)" "i < length ts" "ts ! i = Serving a fd" "worker_thread (Serving a fd) s = Ret t s'"
  shows "srv_inv (ts[i := t], s')"
proof (cases "t = Serving a fd")
  case True
  with assms have "pool s' = pool s" "cells s' = cells s" "accepted s' = accepted s" "started s' = started s" "served s' = served s"
    by (auto split: outcome.splits if_splits)
  with True assms(1-3) list_update_id [of ts i] show ?thesis by (simp add: srv_inv_def mem_ok_def waiting_fds_def carried_def)
next
  case False
  then have s': "t = Fetching" "pool s' = (pool s)\<lparr>nodes := (nodes (pool s))(a := None)\<rparr>" "cells s' = cells s" "accepted s' = accepted s"
      "started s' = started s" "served s' = served s @ [fd]"
    using assms(4) by (auto split: outcome.splits if_splits)
  have m: "mset (in_service ts) = mset (in_service (ts[i := t])) + {#(a, fd)#}"
    using in_service_upd [OF assms(2), of t] assms(3) s'(1) by simp
  have "distinct (map fst (pool_items (pool s)) @ a # map fst (in_service (ts[i := t]))) =
      distinct (map fst (pool_items (pool s)) @ map fst (in_service ts))"
    by (rule mset_eq_imp_distinct_iff) (simp add: m)
  moreover have i: "queue_ok (pool s)" "distinct (map fst (pool_items (pool s)) @ map fst (in_service ts))"
    using assms(1) by (auto simp: srv_inv_def mem_ok_def)
  ultimately have d: "distinct (map fst (pool_items (pool s)) @ a # map fst (in_service (ts[i := t])))" by blast
  then have "list_ok (pool s') (pool_items (pool s))" using i(1) s'(2) by (simp add: queue_ok_def list_ok_def)
  then have q: "queue_ok (pool s')" "pool_items (pool s') = pool_items (pool s)" by (simp_all add: list_ok_queue)
  have "set (in_service ts) = insert (a, fd) (set (in_service (ts[i := t])))"
    by (metis m set_mset_mset set_mset_add_mset_insert add_mset_add_single)
  moreover have "a \<notin> fst ` set (in_service (ts[i := t]))" using d by simp
  ultimately have n: "\<forall>x \<in> set (in_service (ts[i := t])). nodes (pool s') (fst x) \<noteq> None"
    using assms(1) s'(2) by (auto simp: srv_inv_def mem_ok_def)
  have "covered srv_waits (\<lambda>t. t = Fetching) (length (pool_items (pool s))) (ts[i := t])"
    using assms(1-3) s'(1) by (intro covered_move) (auto simp: srv_inv_def)
  with assms(1) s' q d n m show ?thesis
    by (simp add: srv_inv_def mem_ok_def waiting_fds_def carried_def)
qed

lemma accept_step:
  assumes "mem_ok ts s" "cells s c = None" "nodes (pool s) a = None"
  shows "\<exists>s'. accept_turn fd (Some c) (Some a) s = Ret () s' \<and> mem_ok ts s' \<and> shutdown (pool s') = shutdown (pool s) \<and>
    waiting_fds s' = waiting_fds s @ [fd] \<and> length (pool_items (pool s')) = Suc (length (pool_items (pool s))) \<and>
    accepted s' = accepted s @ [fd] \<and> started s' = started s \<and> served s' = served s"
proof -
  let ?t = "\<lparr>task_function = Handle_client, task_arg = c\<rparr>" and ?xs = "pool_items (pool s)"
  from assms(1) have ok: "list_ok (pool s) ?xs" and d: "distinct (map fst ?xs @ map fst (in_service ts))"
    and c: "\<forall>x \<in> set ?xs. cells s (task_arg (snd x)) \<noteq> None" and n: "\<forall>x \<in> set (in_service ts). nodes (pool s) (fst x) \<noteq> None"
    by (auto simp: mem_ok_def queue_ok_def)
  from add_task_ok [OF ok assms(3), of Handle_client c] obtain p1 where p1: "pool_add_task (Some a) Handle_client c (pool s) = Ret () p1"
      "list_ok p1 (?xs @ [(a, ?t)])" "shutdown p1 = shutdown (pool s)" "nodes p1 a \<noteq> None"
      and rest: "\<And>b. b \<noteq> a \<Longrightarrow> map_option node_task (nodes p1 b) = map_option node_task (nodes (pool s) b)" by blast
  have it: "pool_items p1 = ?xs @ [(a, ?t)]" "queue_ok p1" using p1(2) by (simp_all add: list_ok_queue)
  have fr: "a \<notin> fst ` set ?xs" "a \<notin> fst ` set (in_service ts)"
    using assms(3) n chain_dom [of "nodes (pool s)" "task_head (pool s)" ?xs] ok by (fastforce simp: list_ok_def)+
  have cc: "task_arg (snd x) \<noteq> c" if "x \<in> set ?xs" for x using c assms(2) that by auto
  have "nodes p1 (fst x) \<noteq> None" if "x \<in> set (in_service ts)" for x
    using that n rest [of "fst x"] fr(2) by fastforce
  moreover have "c \<notin> (task_arg \<circ> snd) ` set ?xs" using cc by auto
  ultimately have "mem_ok ts (s\<lparr>pool := p1, cells := (cells s)(c \<mapsto> fd), accepted := accepted s @ [fd]\<rparr>)"
    using assms(1) it fr d c by (auto simp: mem_ok_def)
  moreover have "map (carried (s\<lparr>pool := p1, cells := (cells s)(c \<mapsto> fd), accepted := accepted s @ [fd]\<rparr>)) ?xs = map (carried s) ?xs"
    using cc by (simp add: carried_def)
  ultimately show ?thesis using p1 it by (simp add: accept_turn_def waiting_fds_def) (simp add: carried_def)
qed

lemma srv_inv_step: "srv_step st st' \<Longrightarrow> srv_inv st \<Longrightarrow> srv_inv st'"
proof (induction rule: srv_step.induct)
  case (by_thread i ts s t s')
  show ?case
  proof (cases "ts ! i")
    case Fetching
    have ok: "queue_ok (pool s)" "\<not> shutdown (pool s)" using by_thread(3) by (auto simp: srv_inv_def mem_ok_def)
    show ?thesis
    proof (cases "pool_items (pool s)")
      case Nil
      with by_thread Fetching ok list_ok_count [OF ok(1)] have "t = Waiting" "s' = s" by auto
      with by_thread Nil in_service_same [OF by_thread(1), of Waiting] mem_ok_cong [of "ts[i := Waiting]" ts] Fetching show ?thesis
        by (simp add: srv_inv_def)
    next
      case (Cons x xs)
      with by_thread Fetching show ?thesis by (metis srv_inv_fetch)
    qed
  next
    case (Serving a fd)
    with by_thread show ?thesis by (metis srv_inv_serve)
  qed (use by_thread in simp_all)
next
  case (by_accept s c a fd s' ts ts')
  then have m: "mem_ok ts s" by (simp add: srv_inv_def)
  note a = accept_step [OF m by_accept(1,2), of fd] and e = in_service_signal [OF by_accept(4)]
  have "covered srv_waits (\<lambda>t. t = Fetching) (Suc (length (pool_items (pool s)))) ts'"
    using by_accept(5) by (intro covered_signal [OF by_accept(4)]) (auto simp: srv_inv_def)
  with a e mem_ok_cong [OF e] by_accept(3,5) signalled_length [OF by_accept(4)] signalled_set [OF by_accept(4), of Gone]
  show ?case by (auto simp: srv_inv_def)
next
  case (by_client ts s f)
  then show ?case by (simp add: srv_inv_def mem_ok_def waiting_fds_def carried_def)
next
  case (by_chance i ts s)
  have "mset (in_service (ts[i := Fetching])) = mset (in_service ts)" using by_chance by (simp add: in_service_same)
  moreover have "covered srv_waits (\<lambda>t. t = Fetching) (length (pool_items (pool s))) (ts[i := Fetching])"
    using by_chance by (intro covered_move) (auto simp: srv_inv_def)
  ultimately show ?case using by_chance mem_ok_cong [of "ts[i := Fetching]" ts s] by (simp add: srv_inv_def)
qed

lemma srv_inv_start: "srv_inv (srv_start w)"
  by (simp add: srv_inv_def srv_start_def pool_init_def mem_ok_def queue_ok_def list_ok_def pool_items_def in_service_def
    waiting_fds_def THREAD_MAX_def covered_def numeral_eq_Suc)

lemma srv_inv_reach: "srv_step\<^sup>*\<^sup>* (srv_start w) st \<Longrightarrow> srv_inv st"
  by (induction rule: rtranclp_induct) (auto intro: srv_inv_start srv_inv_step)

text \<open>
  C22: Every accepted connection is served exactly once and in the order of acceptance. However the pool
  threads, the accepting loop and the clients interleave: the accepted connections are those taken
  over so far followed by those in the queue; those taken over are, as a multiset, those finished plus
  those now in service; and no step of a thread touches a null pointer or freed memory, nor frees a node twice.
\<close>

theorem srv_serves_each_once:
  assumes "srv_step\<^sup>*\<^sup>* (srv_start w) (ts, s)"
  shows "accepted s = started s @ waiting_fds s \<and> mset (started s) = mset (served s) + mset (map snd (in_service ts)) \<and>
    (\<forall>t \<in> set ts. \<forall>s'. worker_thread t s \<noteq> Undef s')"
proof -
  have i: "srv_inv (ts, s)" by (rule srv_inv_reach [OF assms])
  then have m: "mem_ok ts s" "\<not> shutdown (pool s)" and c: "task_count (pool s) = int (length (pool_items (pool s)))"
    by (auto simp: srv_inv_def mem_ok_def list_ok_count)
  have "worker_thread t s \<noteq> Undef s'" if "t \<in> set ts" for t s'
  proof (cases t)
    case Fetching
    with m c fetch_step [OF m] show ?thesis by (cases "pool_items (pool s)") (simp, metis outcome.distinct(9))
  next
    case (Serving a fd)
    with that have "(a, fd) \<in> set (in_service ts)" by (force simp: in_service_def)
    with m(1) have "nodes (pool s) a \<noteq> None" by (force simp: mem_ok_def)
    with Serving show ?thesis by (auto split: outcome.splits)
  qed simp_all
  with i show ?thesis by (auto simp: srv_inv_def)
qed

text \<open>
  C23: No connection waits while a thread sleeps for lack of work: whenever tasks are queued and a thread
  waits on the condition variable, at least as many threads are already awake to take a task; so when no
  thread is about to take one, either the queue is empty or all four threads are serving clients.
\<close>

theorem srv_no_lost_wakeup:
  assumes "srv_step\<^sup>*\<^sup>* (srv_start w) (ts, s)"
  shows "(Waiting \<in> set ts \<longrightarrow> length (waiting_fds s) \<le> number (\<lambda>t. t = Fetching) ts) \<and>
    (Fetching \<notin> set ts \<longrightarrow> waiting_fds s = [] \<or> length (in_service ts) = THREAD_MAX)"
proof -
  have i: "srv_inv (ts, s)" by (rule srv_inv_reach [OF assms])
  then have c: "Waiting \<in> set ts \<longrightarrow> length (waiting_fds s) \<le> number (\<lambda>t. t = Fetching) ts"
    by (auto simp: srv_inv_def covered_def waiting_fds_def)
  have "length (in_service ts) = THREAD_MAX" if "Fetching \<notin> set ts" "waiting_fds s \<noteq> []"
  proof -
    have "number (\<lambda>t. t = Fetching) ts = 0" using that(1) number_pos_iff [of "\<lambda>t. t = Fetching" ts] by auto
    with c that have "Waiting \<notin> set ts" "Gone \<notin> set ts" using i by (auto simp: srv_inv_def)
    with that(1) have "\<forall>t \<in> set ts. length (serving t) = 1" by (metis serving.simps(1) srv_thread.exhaust length_Cons list.size(3) One_nat_def)
    then have "length (in_service ts) = length ts" by (simp add: in_service_def length_concat sum_list_triv cong: map_cong)
    with i show ?thesis by (simp add: srv_inv_def)
  qed
  with c show ?thesis by blast
qed

section \<open>What a client sees\<close>

text \<open>An event that ends a client's session: end of file, an error, or a line that says exit.\<close>

fun ends_session :: "rd_ev \<Rightarrow> bool" where
  "ends_session (RData bs) = (bs = [] \<or> length bs \<le> 1023 \<and> line_of bs = str_bytes ''exit'')"
| "ends_session (RErr e) = True"

definition plain_request :: "byte list \<Rightarrow> bool" where
  "plain_request bs \<longleftrightarrow> bs \<noteq> [] \<and> length bs \<le> 1023 \<and> line_of bs \<noteq> str_bytes ''exit''"

text \<open>
  \<open>handle_client\<close> answers every request with the 32-byte message and nothing else, closes the connection
  when the client is done, and returns: after any number of requests followed by the end of the session
  exactly one message per request has been written.
\<close>

theorem client_gets_one_reply_each:
  assumes "0 \<le> fd" and "rd_script w fd = map RData rs @ e # es" and "list_all plain_request rs" and "ends_session e"
    and "wr_script w fd = []"
  shows "\<exists>w'. handle_client fd w = Ret () w' \<and> written w' = (written w)(fd := written w fd @ concat (replicate (length rs) message)) \<and>
    rd_script w' fd = es \<and> closed w' = fd # closed w"
  using assms
proof (induction rs arbitrary: w)
  case Nil
  have "\<exists>w1. client_turn fd w = Ret False w1 \<and> written w1 = written w \<and> rd_script w1 fd = es \<and> closed w1 = closed w"
  proof (cases e)
    case (RData bs)
    with Nil show ?thesis by (cases "bs = []") (auto simp: client_turn_def sys_read_def)
  qed (use Nil in \<open>simp add: client_turn_def sys_read_def\<close>)
  then obtain w1 where "client_turn fd w = Ret False w1" "written w1 = written w" "rd_script w1 fd = es" "closed w1 = closed w" by blast
  then show ?case by (subst handle_client.simps) (simp add: sys_close_def)
next
  case (Cons r rs)
  let ?w1 = "w\<lparr>rd_script := (rd_script w)(fd := map RData rs @ e # es), written := (written w)(fd := written w fd @ message)\<rparr>"
  have r: "r \<noteq> []" "take 1023 r = r" "drop 1023 r = []" "line_of r \<noteq> str_bytes ''exit''" using Cons.prems by (auto simp: plain_request_def)
  have "client_turn fd w = Ret True ?w1"
    using Cons.prems(1,2,5) r by (simp add: client_turn_def sys_read_def sys_write_def)
  then have "handle_client fd w = handle_client fd ?w1" by (subst handle_client.simps) simp
  with Cons.IH [of ?w1] Cons.prems show ?case by (auto simp: fun_eq_iff)
qed

section \<open>Concrete runs\<close>

datatype srv_ev = Thread nat | Accept int nat nat

fun srv_run :: "srv_ev list \<Rightarrow> srv_thread list \<times> server \<Rightarrow> (srv_thread list \<times> server) option" where
  "srv_run [] st = Some st"
| "srv_run (Thread i # es) (ts, s) = (if i < length ts then
      (case worker_thread (ts ! i) s of Ret t s1 \<Rightarrow> srv_run es (ts[i := t], s1) | _ \<Rightarrow> None) else None)"
| "srv_run (Accept fd c a # es) (ts, s) = (if cells s c = None \<and> nodes (pool s) a = None then
      (case accept_turn fd (Some c) (Some a) s of
         Ret r s1 \<Rightarrow> srv_run es (wake_first srv_waits srv_woken ts, s1) | _ \<Rightarrow> None) else None)"

lemma srv_run_reach: "srv_run es st = Some st' \<Longrightarrow> srv_step\<^sup>*\<^sup>* st st'"
proof (induction es st rule: srv_run.induct)
  case (2 i es ts s)
  then obtain t s1 where m: "i < length ts" "worker_thread (ts ! i) s = Ret t s1" by (auto split: outcome.splits if_splits)
  from by_thread [OF m] 2 m show ?case by (auto intro: converse_rtranclp_into_rtranclp)
next
  case (3 fd c a es ts s)
  then obtain s1 where m: "cells s c = None" "nodes (pool s) a = None" "accept_turn fd (Some c) (Some a) s = Ret () s1"
    by (auto split: outcome.splits if_splits)
  from by_accept [OF m signalled_first [of srv_waits srv_woken ts]] 3 m show ?case by (auto intro: converse_rtranclp_into_rtranclp)
qed simp

text \<open>Two clients; the first asks once and leaves.\<close>

definition ex_net :: world where
  "ex_net = \<lparr>open_fd = (\<lambda>_. -1), rd_script = (\<lambda>_. []) (5 := [RData [104, 105], RData []]), wr_script = (\<lambda>_. []), written = (\<lambda>_. []),
     fd_flags = (\<lambda>_. 0), errno = 0, perrs = [], closed = []\<rparr>"

definition ex_events :: "srv_ev list" where
  "ex_events = [Thread 0, Accept 5 1 1, Thread 0, Thread 0, Thread 0, Accept 6 2 2, Accept 7 3 3, Thread 1]"

lemma ex_srv_run:
  "\<exists>ts s. srv_run ex_events (srv_start ex_net) = Some (ts, s) \<and> ts = [Fetching, Serving 2 6, Fetching, Fetching] \<and>
    accepted s = [5, 6, 7] \<and> served s = [5] \<and> waiting_fds s = [7]"
proof -
  have "map_option (\<lambda>(ts, s). (ts, accepted s, served s, waiting_fds s)) (srv_run ex_events (srv_start ex_net)) =
      Some ([Fetching, Serving 2 6, Fetching, Fetching], [5, 6, 7], [5], [7])" by code_simp
  then show ?thesis by (auto simp: map_option_eq_Some)
qed

theorem srv_serves_each_once_witness:
  "\<exists>ts s. srv_step\<^sup>*\<^sup>* (srv_start ex_net) (ts, s) \<and> accepted s = [5, 6, 7] \<and> started s = [5, 6] \<and> mset (started s) = mset [5] + {#6#}"
proof -
  obtain ts s where r: "srv_run ex_events (srv_start ex_net) = Some (ts, s)" "ts = [Fetching, Serving 2 6, Fetching, Fetching]"
      "accepted s = [5, 6, 7]" "served s = [5]" "waiting_fds s = [7]" using ex_srv_run by blast
  from srv_serves_each_once [OF srv_run_reach [OF r(1)]] r have "started s = [5, 6]" "mset (started s) = mset [5] + {#6#}"
    by (auto simp: append_eq_Cons_conv in_service_def)
  with srv_run_reach [OF r(1)] r(3) show ?thesis by blast
qed

theorem srv_no_lost_wakeup_witness:
  "\<exists>ts s. srv_step\<^sup>*\<^sup>* (srv_start ex_net) (ts, s) \<and> waiting_fds s = [7] \<and>
    (Waiting \<in> set ts \<longrightarrow> 1 \<le> number (\<lambda>t. t = Fetching) ts)"
proof -
  obtain ts s where r: "srv_run ex_events (srv_start ex_net) = Some (ts, s)" "waiting_fds s = [7]" using ex_srv_run by blast
  from srv_no_lost_wakeup [OF srv_run_reach [OF r(1)]] r srv_run_reach [OF r(1)] show ?thesis by force
qed

theorem client_gets_one_reply_each_witness:
  "\<exists>w'. handle_client 5 ex_net = Ret () w' \<and> written w' 5 = message"
  using client_gets_one_reply_each [of 5 ex_net "[[104, 105]]" "RData []" "[]"]
  by (auto simp: ex_net_def plain_request_def line_of_def str_bytes_def)

end
