(* ===== verification/Prefork.thy ===== *)
theory Prefork
  imports Monitor
begin

text \<open>
  \<open>IPC/socket/stream/pool_dynamic/server.c\<close>: a parent keeps a table of at most twenty child processes in
  shared memory; the children accept connections and mark themselves idle or busy; at every signal the
  parent counts them and starts or ends children so that between five and ten are idle.
\<close>

section \<open>State\<close>

definition MINSPARESERVER :: int where "MINSPARESERVER = 5"
definition MAXSPARESERVER :: int where "MAXSPARESERVER = 10"
definition MAXCLIENT :: nat where "MAXCLIENT = 20"

definition STATE_IDLE :: int where "STATE_IDLE = 0"
definition STATE_BUSY :: int where "STATE_BUSY = 1"

lemmas prefork_consts = MINSPARESERVER_def MAXSPARESERVER_def MAXCLIENT_def STATE_IDLE_def STATE_BUSY_def

record server_st =
  srv_pid :: int
  srv_state :: int

text \<open>Where a child stands in the loop of \<open>server_job\<close>: at its start, in \<open>accept\<close>, or with a descriptor.\<close>

datatype job_pc = Announce | Accepting | Accepted int

text \<open>
  The shared table and the parent's counters; \<open>procs\<close> holds the living children with their slot and
  position, \<open>fork_pid\<close> the results of the calls of \<open>fork\<close> and \<open>forked\<close> how many there were; \<open>sent\<close> is what
  the children sent, \<open>shown\<close> the lines the parent printed.
\<close>

record prefork =
  serverpool :: "server_st list"
  idle_count :: int
  busy_count :: int
  procs :: "int \<rightharpoonup> nat \<times> job_pc"
  fork_pid :: "nat \<Rightarrow> int"
  forked :: nat
  sent :: "(int \<times> string) list"
  shown :: "string list"

section \<open>The parent's operations\<close>

text \<open>\<open>scan_pool\<close>: entries of dead processes are cleared, the others counted; \<open>None\<close> stands for \<open>abort()\<close>.\<close>

fun scan_servers :: "(int \<Rightarrow> bool) \<Rightarrow> server_st list \<Rightarrow> (server_st list \<times> int \<times> int) option" where
  "scan_servers alive [] = Some ([], 0, 0)"
| "scan_servers alive (v # vs) =
     (if srv_pid v = -1 then map_option (\<lambda>(vs', i, b). (v # vs', i, b)) (scan_servers alive vs)
      else if \<not> alive (srv_pid v) then map_option (\<lambda>(vs', i, b). (v\<lparr>srv_pid := -1\<rparr> # vs', i, b)) (scan_servers alive vs)
      else if srv_state v = STATE_IDLE then map_option (\<lambda>(vs', i, b). (v # vs', i + 1, b)) (scan_servers alive vs)
      else if srv_state v = STATE_BUSY then map_option (\<lambda>(vs', i, b). (v # vs', i, b + 1)) (scan_servers alive vs)
      else None)"

definition scan_pool :: "prefork \<Rightarrow> (int, prefork) outcome" where
  "scan_pool s = (case scan_servers (\<lambda>p. procs s p \<noteq> None) (serverpool s) of
      None \<Rightarrow> Abort s
    | Some (vs, i, b) \<Rightarrow> Ret 0 (s\<lparr>serverpool := vs, idle_count := i, busy_count := b\<rparr>))"

text \<open>The first index of the table that satisfies a condition; the length of the table if there is none.\<close>

fun find_server :: "(server_st \<Rightarrow> bool) \<Rightarrow> server_st list \<Rightarrow> nat" where
  "find_server P [] = 0"
| "find_server P (v # vs) = (if P v then 0 else Suc (find_server P vs))"

text \<open>
  \<open>add_1_server\<close>. Without a free slot the store through \<open>slot = MAXCLIENT\<close> would be past the end of the
  table. The child starts at the beginning of \<open>server_job\<close>.
\<close>

definition add_1_server :: "prefork \<Rightarrow> (int, prefork) outcome" where
  "add_1_server s =
     (if idle_count s + busy_count s \<ge> int MAXCLIENT then Ret (-1) s
      else (let slot = find_server (\<lambda>v. srv_pid v = -1) (serverpool s)
            in if slot \<ge> length (serverpool s) then Undef s
               else (let s1 = s\<lparr>serverpool := (serverpool s)[slot := (serverpool s ! slot)\<lparr>srv_state := STATE_IDLE\<rparr>]\<rparr>;
                         pid = fork_pid s1 (forked s1);
                         s2 = s1\<lparr>forked := forked s1 + 1\<rparr>
                     in if pid < 0 then Exit 1 s2
                        else Ret 0 (s2\<lparr>serverpool := (serverpool s2)[slot := (serverpool s2 ! slot)\<lparr>srv_pid := pid\<rparr>],
                               idle_count := idle_count s2 + 1, procs := (procs s2)(pid \<mapsto> (slot, Announce))\<rparr>))))"

text \<open>\<open>del_1_server\<close>. The child gets \<open>SIGTERM\<close>; when it dies is up to the system.\<close>

definition del_1_server :: "prefork \<Rightarrow> int \<times> prefork" where
  "del_1_server s =
     (if idle_count s = 0 then (-1, s)
      else (let i = find_server (\<lambda>v. srv_pid v \<noteq> -1 \<and> srv_state v = STATE_IDLE) (serverpool s)
            in (0, if i < length (serverpool s)
                   then s\<lparr>serverpool := (serverpool s)[i := (serverpool s ! i)\<lparr>srv_pid := -1\<rparr>], idle_count := idle_count s - 1\<rparr>
                   else s)))"

text \<open>The line that shows the pool.\<close>

definition show_server :: "server_st \<Rightarrow> char" where
  "show_server v = (if srv_pid v = -1 then CHR '' '' else if srv_state v = STATE_IDLE then CHR ''.'' else CHR ''x'')"

text \<open>
  \<open>main\<close> from the first \<open>add_1_server\<close> on: starting the first children, in \<open>sigsuspend\<close>, after \<open>scan_pool\<close>,
  in the loops that end or start children (with their counter), and before printing.
\<close>

datatype pf_pc = Starting int | Suspended | Control | Deleting int | Adding int | Showing

fun pf_main :: "pf_pc \<Rightarrow> prefork \<Rightarrow> (pf_pc, prefork) outcome" where
  "pf_main (Starting i) s =
     (if i < MINSPARESERVER then bind_outcome (add_1_server s) (\<lambda>_ s1. Ret (Starting (i + 1)) s1) else Ret Suspended s)"
| "pf_main Suspended s = bind_outcome (scan_pool s) (\<lambda>_ s1. Ret Control s1)"
| "pf_main Control s =
     Ret (if idle_count s > MAXSPARESERVER then Deleting 0 else if idle_count s < MINSPARESERVER then Adding 0 else Showing) s"
| "pf_main (Deleting i) s =
     (if i < idle_count s - MAXSPARESERVER then Ret (Deleting (i + 1)) (snd (del_1_server s)) else Ret Showing s)"
| "pf_main (Adding i) s =
     (if i < MINSPARESERVER - idle_count s then bind_outcome (add_1_server s) (\<lambda>_ s1. Ret (Adding (i + 1)) s1) else Ret Showing s)"
| "pf_main Showing s = Ret Suspended (s\<lparr>shown := shown s @ [map show_server (serverpool s)]\<rparr>)"

section \<open>The children\<close>

definition fmt_stamp :: "nat \<Rightarrow> string" where
  "fmt_stamp t = show_nat t @ [CHR 0x0D, CHR 0x0A]"

definition set_state :: "nat \<Rightarrow> int \<Rightarrow> prefork \<Rightarrow> prefork" where
  "set_state p v s = s\<lparr>serverpool := (serverpool s)[p := (serverpool s ! p)\<lparr>srv_state := v\<rparr>]\<rparr>"

text \<open>
  One step of \<open>server_job\<close> in slot \<open>p\<close>: \<open>acc\<close> is the result of \<open>accept\<close> (a descriptor, or an error number),
  \<open>t\<close> the time. After \<open>EINTR\<close> or \<open>EAGAIN\<close> the loop goes on with the descriptor -1.
\<close>

fun server_job :: "nat \<Rightarrow> job_pc \<Rightarrow> int + int \<Rightarrow> nat \<Rightarrow> prefork \<Rightarrow> (job_pc, prefork) outcome" where
  "server_job p Announce acc t s = Ret Accepting (set_state p STATE_IDLE s)"
| "server_job p Accepting (Inr sd) t s = Ret (Accepted sd) (set_state p STATE_BUSY s)"
| "server_job p Accepting (Inl e) t s = (if e \<noteq> EINTR \<and> e \<noteq> EAGAIN then Exit 1 s else Ret (Accepted (-1)) (set_state p STATE_BUSY s))"
| "server_job p (Accepted sd) acc t s = Ret Announce (if sd < 0 then s else s\<lparr>sent := sent s @ [(sd, fmt_stamp t)]\<rparr>)"

section \<open>The system\<close>

text \<open>Parent and children interleave; a child may die at any time.\<close>

inductive pf_step :: "pf_pc \<times> prefork \<Rightarrow> pf_pc \<times> prefork \<Rightarrow> bool" where
  by_parent: "pf_main pc s = Ret pc' s' \<Longrightarrow> pf_step (pc, s) (pc', s')"
| by_child: "procs s pid = Some (p, j) \<Longrightarrow> server_job p j acc t s = Ret j' s' \<Longrightarrow>
    pf_step (pc, s) (pc, s'\<lparr>procs := (procs s')(pid \<mapsto> (p, j'))\<rparr>)"
| by_death: "pf_step (pc, s) (pc, s\<lparr>procs := (procs s)(pid := None)\<rparr>)"

definition pf_start :: "(nat \<Rightarrow> int) \<Rightarrow> pf_pc \<times> prefork" where
  "pf_start f = (Starting 0, \<lparr>serverpool = replicate MAXCLIENT \<lparr>srv_pid = -1, srv_state = 0\<rparr>, idle_count = 0, busy_count = 0,
     procs = Map.empty, fork_pid = f, forked = 0, sent = [], shown = []\<rparr>)"

section \<open>The table and the counters\<close>

abbreviation taken :: "server_st \<Rightarrow> bool" where
  "taken v \<equiv> srv_pid v \<noteq> -1"

abbreviation idle_server :: "server_st \<Rightarrow> bool" where
  "idle_server v \<equiv> taken v \<and> srv_state v = STATE_IDLE"

abbreviation busy_server :: "server_st \<Rightarrow> bool" where
  "busy_server v \<equiv> taken v \<and> srv_state v = STATE_BUSY"

definition pf_inv :: "prefork \<Rightarrow> bool" where
  "pf_inv s \<longleftrightarrow> length (serverpool s) = MAXCLIENT \<and> (\<forall>v \<in> set (serverpool s). srv_state v = STATE_IDLE \<or> srv_state v = STATE_BUSY) \<and>
     0 \<le> idle_count s \<and> 0 \<le> busy_count s \<and> idle_count s + busy_count s = int (number taken (serverpool s)) \<and>
     (\<forall>k. 0 < fork_pid s k)"

lemma find_server_cases:
  "find_server P vs < length vs \<and> P (vs ! find_server P vs) \<or> find_server P vs = length vs \<and> (\<forall>v \<in> set vs. \<not> P v)"
  by (induction vs) auto

lemma scan_servers_ok:
  assumes "\<forall>v \<in> set vs. srv_state v = STATE_IDLE \<or> srv_state v = STATE_BUSY"
  shows "\<exists>vs'. scan_servers alive vs = Some (vs', int (number idle_server vs'), int (number busy_server vs')) \<and>
    length vs' = length vs \<and> (\<forall>v \<in> set vs'. srv_state v = STATE_IDLE \<or> srv_state v = STATE_BUSY) \<and>
    number taken vs' = number idle_server vs' + number busy_server vs' \<and>
    ((\<forall>v \<in> set vs. taken v \<longrightarrow> alive (srv_pid v)) \<longrightarrow> vs' = vs)"
  using assms
proof (induction vs)
  case (Cons v vs)
  then obtain vs' where v: "scan_servers alive vs = Some (vs', int (number idle_server vs'), int (number busy_server vs'))"
      "length vs' = length vs" "\<forall>v \<in> set vs'. srv_state v = STATE_IDLE \<or> srv_state v = STATE_BUSY"
      "number taken vs' = number idle_server vs' + number busy_server vs'"
      "(\<forall>v \<in> set vs. taken v \<longrightarrow> alive (srv_pid v)) \<longrightarrow> vs' = vs" by auto
  consider "\<not> taken v" | "taken v" "\<not> alive (srv_pid v)" | "taken v" "alive (srv_pid v)" "srv_state v = STATE_IDLE"
    | "taken v" "alive (srv_pid v)" "srv_state v = STATE_BUSY" using Cons.prems by auto
  then show ?case
  proof cases
    case 1
    with v Cons.prems show ?thesis by (intro exI [of _ "v # vs'"]) (auto simp: number_def)
  next
    case 2
    with v Cons.prems show ?thesis by (intro exI [of _ "v\<lparr>srv_pid := -1\<rparr> # vs'"]) (auto simp: number_def)
  next
    case 3
    with v Cons.prems show ?thesis by (intro exI [of _ "v # vs'"]) (auto simp: number_def prefork_consts)
  next
    case 4
    with v Cons.prems show ?thesis by (intro exI [of _ "v # vs'"]) (auto simp: number_def prefork_consts)
  qed
qed (simp add: number_def)

lemma server_st_upd [simp]: "(v :: server_st)\<lparr>srv_state := x, srv_pid := y\<rparr> = \<lparr>srv_pid = y, srv_state = x\<rparr>"
  by (cases v) simp

text \<open>The three operations keep the invariant; \<open>add_1_server\<close> always finds its slot.\<close>

lemma scan_pool_ok:
  assumes "pf_inv s"
  shows "\<exists>s'. scan_pool s = Ret 0 s' \<and> pf_inv s' \<and> idle_count s' = int (number idle_server (serverpool s')) \<and>
    busy_count s' = int (number busy_server (serverpool s')) \<and> procs s' = procs s \<and> fork_pid s' = fork_pid s \<and> forked s' = forked s \<and>
    ((\<forall>v \<in> set (serverpool s). taken v \<longrightarrow> procs s (srv_pid v) \<noteq> None) \<longrightarrow> serverpool s' = serverpool s)"
  using scan_servers_ok [of "serverpool s" "\<lambda>p. procs s p \<noteq> None"] assms
  by (auto simp: scan_pool_def pf_inv_def)

lemma add_1_server_ok:
  assumes "pf_inv s" "idle_count s + busy_count s < int MAXCLIENT"
  shows "\<exists>s' i. add_1_server s = Ret 0 s' \<and> pf_inv s' \<and> idle_count s' = idle_count s + 1 \<and> busy_count s' = busy_count s \<and>
    i < length (serverpool s) \<and> \<not> taken (serverpool s ! i) \<and>
    serverpool s' = (serverpool s)[i := \<lparr>srv_pid = fork_pid s (forked s), srv_state = STATE_IDLE\<rparr>] \<and>
    procs s' = (procs s)(fork_pid s (forked s) \<mapsto> (i, Announce)) \<and> fork_pid s' = fork_pid s \<and> forked s' = Suc (forked s)"
proof -
  let ?i = "find_server (\<lambda>v. srv_pid v = -1) (serverpool s)" and ?p = "fork_pid s (forked s)"
  have "number taken (serverpool s) \<noteq> length (serverpool s)" using assms by (auto simp: pf_inv_def)
  then have "\<exists>v \<in> set (serverpool s). srv_pid v = -1" unfolding number_def by (metis (mono_tags, lifting) filter_True)
  with find_server_cases [of "\<lambda>v. srv_pid v = -1" "serverpool s"] have i: "?i < length (serverpool s)" "srv_pid (serverpool s ! ?i) = -1" by auto
  have p: "0 < ?p" using assms(1) by (simp add: pf_inv_def)
  define s' where "s' = s\<lparr>serverpool := (serverpool s)[?i := \<lparr>srv_pid = ?p, srv_state = STATE_IDLE\<rparr>], idle_count := idle_count s + 1,
      procs := (procs s)(?p \<mapsto> (?i, Announce)), forked := Suc (forked s)\<rparr>"
  have "add_1_server s = Ret 0 s'" using assms(2) i p by (simp add: add_1_server_def s'_def Let_def)
  moreover have "pf_inv s'"
  proof -
    let ?v = "\<lparr>srv_pid = ?p, srv_state = STATE_IDLE\<rparr>"
    have "number taken ((serverpool s)[?i := ?v]) = Suc (number taken (serverpool s))"
      using i p number_upd [OF i(1), of taken ?v] by simp
    with assms(1) ball_upd [of "serverpool s" "\<lambda>v. srv_state v = STATE_IDLE \<or> srv_state v = STATE_BUSY" ?v ?i] show ?thesis
      by (simp add: pf_inv_def s'_def)
  qed
  ultimately show ?thesis using i by (intro exI [of _ s'] exI [of _ ?i]) (simp add: s'_def)
qed

lemma add_1_server_full: "int MAXCLIENT \<le> idle_count s + busy_count s \<Longrightarrow> add_1_server s = Ret (-1) s"
  by (simp add: add_1_server_def)

lemma add_1_server_inv: "pf_inv s \<Longrightarrow> \<exists>r s'. add_1_server s = Ret r s' \<and> pf_inv s'"
  by (cases "idle_count s + busy_count s < int MAXCLIENT") (use add_1_server_ok add_1_server_full in force)+

lemma del_1_server_inv: "pf_inv s \<Longrightarrow> pf_inv (snd (del_1_server s))"
proof -
  assume inv: "pf_inv s"
  let ?i = "find_server idle_server (serverpool s)"
  show ?thesis
  proof (cases "idle_count s \<noteq> 0 \<and> ?i < length (serverpool s)")
    case True
    with find_server_cases [of idle_server "serverpool s"] have i: "taken (serverpool s ! ?i)" by auto
    let ?v = "(serverpool s ! ?i)\<lparr>srv_pid := -1\<rparr>"
    have "srv_state ?v = STATE_IDLE \<or> srv_state ?v = STATE_BUSY" using inv True nth_mem [of ?i "serverpool s"] by (auto simp: pf_inv_def)
    moreover have "number taken (serverpool s) = Suc (number taken ((serverpool s)[?i := ?v]))"
      using True i number_upd [of ?i "serverpool s" taken ?v] by simp
    ultimately show ?thesis using inv True ball_upd [of "serverpool s" "\<lambda>v. srv_state v = STATE_IDLE \<or> srv_state v = STATE_BUSY" ?v ?i]
      by (simp add: pf_inv_def del_1_server_def Let_def)
  next
    case False
    with inv show ?thesis by (auto simp: del_1_server_def Let_def)
  qed
qed

lemma set_state_inv:
  assumes "pf_inv s" "v = STATE_IDLE \<or> v = STATE_BUSY"
  shows "pf_inv (set_state p v s)"
proof (cases "p < length (serverpool s)")
  case True
  let ?w = "(serverpool s ! p)\<lparr>srv_state := v\<rparr>"
  have "number taken ((serverpool s)[p := ?w]) = number taken (serverpool s)"
    using number_upd [OF True, of taken ?w] by (simp split: if_splits)
  with assms ball_upd [of "serverpool s" "\<lambda>v. srv_state v = STATE_IDLE \<or> srv_state v = STATE_BUSY" ?w p] show ?thesis
    by (simp add: pf_inv_def set_state_def)
qed (use assms in \<open>simp add: pf_inv_def set_state_def list_update_beyond\<close>)

lemma server_job_inv: "pf_inv s \<Longrightarrow> server_job p j acc t s = Ret j' s' \<Longrightarrow> pf_inv s'"
  by (cases "(p, j, acc, t, s)" rule: server_job.cases)
     (auto simp: set_state_inv split: if_splits, simp_all add: pf_inv_def)

lemma pf_main_inv: "pf_inv s \<Longrightarrow> \<exists>pc' s'. pf_main pc s = Ret pc' s' \<and> pf_inv s'"
proof -
  assume inv: "pf_inv s"
  note a = add_1_server_inv [OF inv] and d = del_1_server_inv [OF inv] and c = scan_pool_ok [OF inv]
  show ?thesis using inv a d c by (cases pc) (auto simp: pf_inv_def)
qed

lemma pf_step_inv: "pf_step st st' \<Longrightarrow> pf_inv (snd st) \<Longrightarrow> pf_inv (snd st')"
proof (induction rule: pf_step.induct)
  case (by_parent pc s pc' s')
  then show ?case using pf_main_inv [of s pc] by simp
next
  case (by_child s pid p j acc t j' s' pc)
  then show ?case using server_job_inv [of s p j acc t j' s'] by (simp add: pf_inv_def)
next
  case (by_death pc s pid)
  then show ?case by (simp add: pf_inv_def)
qed

lemma pf_start_inv: "\<forall>k. 0 < f k \<Longrightarrow> pf_inv (snd (pf_start f))"
  by (simp add: pf_inv_def pf_start_def number_def STATE_IDLE_def)

lemma pf_reach_inv: "\<forall>k. 0 < f k \<Longrightarrow> pf_step\<^sup>*\<^sup>* (pf_start f) st \<Longrightarrow> pf_inv (snd st)"
  by (rotate_tac 1, induction rule: rtranclp_induct) (auto intro: pf_start_inv pf_step_inv)


section \<open>One turn of the parent\<close>

text \<open>The parent's steps up to its next \<open>sigsuspend\<close>, while no child changes its entry.\<close>

fun until_suspended :: "nat \<Rightarrow> pf_pc \<Rightarrow> prefork \<Rightarrow> prefork option" where
  "until_suspended 0 pc s = None"
| "until_suspended (Suc n) pc s = (case pf_main pc s of
      Ret pc' s' \<Rightarrow> if pc' = Suspended then Some s' else until_suspended n pc' s' | _ \<Rightarrow> None)"

text \<open>Every entry in use belongs to a living child; after \<open>scan_pool\<close> the counters are exact.\<close>

definition settled :: "prefork \<Rightarrow> bool" where
  "settled s \<longleftrightarrow> pf_inv s \<and> (\<forall>v \<in> set (serverpool s). taken v \<longrightarrow> procs s (srv_pid v) \<noteq> None)"

definition exact :: "prefork \<Rightarrow> bool" where
  "exact s \<longleftrightarrow> settled s \<and> idle_count s = int (number idle_server (serverpool s)) \<and> busy_count s = int (number busy_server (serverpool s))"

lemma add_exact:
  assumes "exact s" "idle_count s + busy_count s < int MAXCLIENT"
  shows "\<exists>s'. add_1_server s = Ret 0 s' \<and> exact s' \<and> idle_count s' = idle_count s + 1 \<and> busy_count s' = busy_count s"
proof -
  have inv: "pf_inv s" using assms by (simp add: exact_def settled_def)
  obtain s' i where a: "add_1_server s = Ret 0 s'" "pf_inv s'" "idle_count s' = idle_count s + 1" "busy_count s' = busy_count s"
      "i < length (serverpool s)" "\<not> taken (serverpool s ! i)"
      "serverpool s' = (serverpool s)[i := \<lparr>srv_pid = fork_pid s (forked s), srv_state = STATE_IDLE\<rparr>]"
      "procs s' = (procs s)(fork_pid s (forked s) \<mapsto> (i, Announce))"
    using add_1_server_ok [OF inv assms(2)] by blast
  have p: "0 < fork_pid s (forked s)" using inv by (simp add: pf_inv_def)
  let ?v = "\<lparr>srv_pid = fork_pid s (forked s), srv_state = STATE_IDLE\<rparr>"
  have "number idle_server (serverpool s') = Suc (number idle_server (serverpool s))" "number busy_server (serverpool s') = number busy_server (serverpool s)"
    using number_upd [OF a(5), of idle_server ?v] number_upd [OF a(5), of busy_server ?v] a(6,7) p by (simp_all add: prefork_consts)
  moreover have "settled s'" using assms(1) a(2,7,8) by (auto simp: exact_def settled_def intro: ball_upd dest!: set_update_subset_insert [THEN subsetD])
  ultimately show ?thesis using a(1,3,4) assms(1) by (simp add: exact_def)
qed

lemma del_exact:
  assumes "exact s" "0 < idle_count s"
  shows "exact (snd (del_1_server s)) \<and> idle_count (snd (del_1_server s)) = idle_count s - 1 \<and> busy_count (snd (del_1_server s)) = busy_count s"
proof -
  let ?i = "find_server idle_server (serverpool s)"
  let ?v = "(serverpool s ! ?i)\<lparr>srv_pid := -1\<rparr>"
  have "\<exists>v \<in> set (serverpool s). idle_server v" using assms number_pos_iff [of idle_server "serverpool s"] by (auto simp: exact_def)
  with find_server_cases [of idle_server "serverpool s"] have i: "?i < length (serverpool s)" "idle_server (serverpool s ! ?i)" by auto
  have n: "Suc (number idle_server ((serverpool s)[?i := ?v])) = number idle_server (serverpool s)"
      "number busy_server ((serverpool s)[?i := ?v]) = number busy_server (serverpool s)"
    using number_upd [OF i(1), of idle_server ?v] number_upd [OF i(1), of busy_server ?v] i by (simp_all add: prefork_consts)
  have d: "snd (del_1_server s) = s\<lparr>serverpool := (serverpool s)[?i := ?v], idle_count := idle_count s - 1\<rparr>"
    using assms(2) i by (simp add: del_1_server_def Let_def)
  have "settled (snd (del_1_server s))"
    using assms(1) del_1_server_inv [of s] by (auto simp: exact_def settled_def d dest!: set_update_subset_insert [THEN subsetD])
  with assms(1) n d show ?thesis by (auto simp: exact_def)
qed

declare until_suspended.simps(2) [simp del]

lemma turn_go: "pf_main pc s = Ret pc' s' \<Longrightarrow> pc' \<noteq> Suspended \<Longrightarrow> until_suspended (Suc n) pc s = until_suspended n pc' s'"
  by (simp add: until_suspended.simps(2))

lemma turn_end: "exact s \<Longrightarrow> \<exists>s'. until_suspended (Suc n) Showing s = Some s' \<and> exact s' \<and> busy_count s' = busy_count s \<and> idle_count s' = idle_count s"
  by (simp add: until_suspended.simps(2) exact_def settled_def pf_inv_def)

text \<open>How many turns a loop makes whose bound shrinks while its counter grows: half of them, rounded up.\<close>

definition half_up :: "int \<Rightarrow> int" where
  "half_up d = (if d \<le> 0 then 0 else (d + 1) div 2)"

lemma half_up_step: "0 < d \<Longrightarrow> half_up d = half_up (d - 2) + 1"
  unfolding half_up_def by presburger

lemma deleting_loop:
  "exact s \<Longrightarrow> 0 \<le> i \<Longrightarrow> nat (idle_count s - 10 - i) \<le> n \<Longrightarrow>
   \<exists>s'. until_suspended (Suc (Suc n)) (Deleting i) s = Some s' \<and> exact s' \<and> busy_count s' = busy_count s \<and>
     idle_count s' = idle_count s - half_up (idle_count s - 10 - i)"
proof (induction n arbitrary: i s)
  case 0
  then have "until_suspended (Suc (Suc 0)) (Deleting i) s = until_suspended (Suc 0) Showing s"
    by (intro turn_go) (simp_all add: MAXSPARESERVER_def)
  with 0 turn_end [OF 0(1), of 0] show ?case by (simp add: half_up_def)
next
  case (Suc n)
  show ?case
  proof (cases "idle_count s - 10 \<le> i")
    case True
    then have "until_suspended (Suc (Suc (Suc n))) (Deleting i) s = until_suspended (Suc (Suc n)) Showing s"
      by (intro turn_go) (simp_all add: MAXSPARESERVER_def)
    with True turn_end [OF Suc.prems(1), of "Suc n"] show ?thesis by (simp add: half_up_def)
  next
    case False
    with Suc.prems have "0 < idle_count s" by simp
    note d = del_exact [OF Suc.prems(1) this]
    let ?s = "snd (del_1_server s)"
    have t: "until_suspended (Suc (Suc (Suc n))) (Deleting i) s = until_suspended (Suc (Suc n)) (Deleting (i + 1)) ?s"
      using False by (intro turn_go) (simp_all add: MAXSPARESERVER_def)
    have le: "nat (idle_count ?s - 10 - (i + 1)) \<le> n" using d Suc.prems(2,3) by linarith
    obtain s' where s': "until_suspended (Suc (Suc n)) (Deleting (i + 1)) ?s = Some s'" "exact s'" "busy_count s' = busy_count ?s"
        "idle_count s' = idle_count ?s - half_up (idle_count ?s - 10 - (i + 1))"
      using Suc.IH [of ?s "i + 1"] le d Suc.prems(2) by auto
    have "idle_count s' = idle_count s - half_up (idle_count s - 10 - i)"
      using s'(4) d False half_up_step [of "idle_count s - 10 - i"] by (simp add: algebra_simps)
    with t s' d show ?thesis by simp
  qed
qed

lemma adding_loop:
  "exact s \<Longrightarrow> 0 \<le> i \<Longrightarrow> nat (5 - idle_count s - i) \<le> n \<Longrightarrow>
   \<exists>s'. until_suspended (Suc (Suc n)) (Adding i) s = Some s' \<and> exact s' \<and> busy_count s' = busy_count s \<and>
     idle_count s' = idle_count s + min (20 - busy_count s - idle_count s) (half_up (5 - idle_count s - i))"
proof (induction n arbitrary: i s)
  case 0
  have "idle_count s + busy_count s \<le> 20"
    using 0(1) number_le [of taken "serverpool s"] by (auto simp: exact_def settled_def pf_inv_def MAXCLIENT_def)
  moreover have "until_suspended (Suc (Suc 0)) (Adding i) s = until_suspended (Suc 0) Showing s"
    using 0 by (intro turn_go) (simp_all add: MINSPARESERVER_def)
  ultimately show ?case using 0 turn_end [OF 0(1), of 0] by (simp add: half_up_def min_absorb2)
next
  case (Suc n)
  have le: "idle_count s + busy_count s \<le> 20"
    using Suc.prems(1) number_le [of taken "serverpool s"] by (auto simp: exact_def settled_def pf_inv_def MAXCLIENT_def)
  consider "5 - idle_count s \<le> i" | "i < 5 - idle_count s" "idle_count s + busy_count s = 20" | "i < 5 - idle_count s" "idle_count s + busy_count s < 20"
    using le by linarith
  then show ?case
  proof cases
    case 1
    then have "until_suspended (Suc (Suc (Suc n))) (Adding i) s = until_suspended (Suc (Suc n)) Showing s"
      by (intro turn_go) (simp_all add: MINSPARESERVER_def)
    with 1 le turn_end [OF Suc.prems(1), of "Suc n"] show ?thesis by (simp add: half_up_def min_absorb2)
  next
    case 2
    then have "until_suspended (Suc (Suc (Suc n))) (Adding i) s = until_suspended (Suc (Suc n)) (Adding (i + 1)) s"
      by (intro turn_go) (simp_all add: MINSPARESERVER_def MAXCLIENT_def add_1_server_full)
    moreover have z: "min (20 - busy_count s - idle_count s) (half_up d) = 0" for d using 2 by (simp add: half_up_def)
    have "nat (5 - idle_count s - (i + 1)) \<le> n" using Suc.prems(2,3) by linarith
    from Suc.IH [OF Suc.prems(1) _ this] Suc.prems(2) have "\<exists>s'. until_suspended (Suc (Suc n)) (Adding (i + 1)) s = Some s' \<and> exact s' \<and>
        busy_count s' = busy_count s \<and> idle_count s' = idle_count s" unfolding z by simp
    ultimately show ?thesis unfolding z by simp
  next
    case 3
    then obtain s1 where a: "add_1_server s = Ret 0 s1" "exact s1" "idle_count s1 = idle_count s + 1" "busy_count s1 = busy_count s"
      using add_exact [OF Suc.prems(1)] by (auto simp: MAXCLIENT_def)
    have t: "until_suspended (Suc (Suc (Suc n))) (Adding i) s = until_suspended (Suc (Suc n)) (Adding (i + 1)) s1"
      using 3 a by (intro turn_go) (simp_all add: MINSPARESERVER_def)
    have le1: "nat (5 - idle_count s1 - (i + 1)) \<le> n" using a Suc.prems(2,3) by linarith
    obtain s' where s': "until_suspended (Suc (Suc n)) (Adding (i + 1)) s1 = Some s'" "exact s'" "busy_count s' = busy_count s1"
        "idle_count s' = idle_count s1 + min (20 - busy_count s1 - idle_count s1) (half_up (5 - idle_count s1 - (i + 1)))"
      using Suc.IH [of s1 "i + 1"] a le1 Suc.prems(2) by auto
    have "5 - idle_count s1 - (i + 1) = 5 - idle_count s - i - 2" using a by simp
    with s'(4) a 3 half_up_step [of "5 - idle_count s - i"]
    have "idle_count s' = idle_count s + min (20 - busy_count s - idle_count s) (half_up (5 - idle_count s - i))"
      by (simp add: min_def)
    with t s' a show ?thesis by simp
  qed
qed

text \<open>What one turn makes of the number of idle children.\<close>

definition next_idle :: "nat \<Rightarrow> nat \<Rightarrow> nat" where
  "next_idle b i = (if 10 < i then 10 + (i - 10) div 2 else if i < 5 then i + min (20 - b - i) ((6 - i) div 2) else i)"

lemma turn_exact:
  assumes "exact s"
  shows "\<exists>s'. until_suspended 13 Control s = Some s' \<and> exact s' \<and> busy_count s' = busy_count s \<and>
    idle_count s' = int (next_idle (nat (busy_count s)) (nat (idle_count s)))"
proof -
  have b: "0 \<le> idle_count s" "0 \<le> busy_count s" "idle_count s + busy_count s \<le> 20"
    using assms number_le [of taken "serverpool s"] by (auto simp: exact_def settled_def pf_inv_def MAXCLIENT_def)
  have n: "(13 :: nat) = Suc (Suc (Suc 10))" by simp
  obtain I B where IB: "idle_count s = int I" "busy_count s = int B" using b by (metis nonneg_int_cases)
  consider "10 < idle_count s" | "idle_count s < 5" | "5 \<le> idle_count s" "idle_count s \<le> 10" by linarith
  then show ?thesis
  proof cases
    case 1
    then have "until_suspended 13 Control s = until_suspended (Suc (Suc 10)) (Deleting 0) s"
      unfolding n by (intro turn_go) (simp_all add: MAXSPARESERVER_def)
    moreover have "idle_count s - half_up (idle_count s - 10 - 0) = int (next_idle (nat (busy_count s)) (nat (idle_count s)))"
      using 1 IB by (simp add: half_up_def next_idle_def zdiv_int of_nat_diff)
    ultimately show ?thesis using deleting_loop [OF assms, of 0 10] b by simp
  next
    case 2
    then have "until_suspended 13 Control s = until_suspended (Suc (Suc 10)) (Adding 0) s"
      unfolding n by (intro turn_go) (simp_all add: MAXSPARESERVER_def MINSPARESERVER_def)
    moreover have "idle_count s + min (20 - busy_count s - idle_count s) (half_up (5 - idle_count s - 0)) =
        int (next_idle (nat (busy_count s)) (nat (idle_count s)))"
      using 2 b IB by (simp add: half_up_def next_idle_def zdiv_int of_nat_diff of_nat_min add.commute)
    ultimately show ?thesis using adding_loop [OF assms, of 0 10] b by simp
  next
    case 3
    then have "until_suspended 13 Control s = until_suspended (Suc (Suc 10)) Showing s"
      unfolding n by (intro turn_go) (simp_all add: MAXSPARESERVER_def MINSPARESERVER_def)
    with 3 IB turn_end [OF assms, of "Suc 10"] show ?thesis by (simp add: next_idle_def)
  qed
qed

lemma turn_from_suspended:
  assumes "settled s"
  shows "\<exists>s'. until_suspended 14 Suspended s = Some s' \<and> settled s' \<and> number busy_server (serverpool s') = number busy_server (serverpool s) \<and>
    number idle_server (serverpool s') = next_idle (number busy_server (serverpool s)) (number idle_server (serverpool s))"
proof -
  obtain s1 where s1: "scan_pool s = Ret 0 s1" "serverpool s1 = serverpool s" "exact s1"
    using scan_pool_ok [of s] assms by (auto simp: exact_def settled_def)
  have n: "(14 :: nat) = Suc 13" by simp
  have "until_suspended 14 Suspended s = until_suspended 13 Control s1" unfolding n by (intro turn_go) (simp_all add: s1)
  with turn_exact [OF s1(3)] s1(2,3) show ?thesis by (auto simp: exact_def)
qed

text \<open>
  One turn of the parent. When no child changes its entry meanwhile, the parent returns to
  \<open>sigsuspend\<close> within 14 steps; busy children stay, and the number \<open>i\<close> of idle children becomes: unchanged between 5
  and 10; \<open>10 + (i - 10) div 2\<close> above 10, so that only half of the surplus is ended because the loop's
  bound shrinks while its counter grows; below 5, half of what is missing (rounded up) is started, as far as the table has room.
\<close>

theorem pf_turn_moves_halfway:
  assumes "settled s"
  shows "\<exists>s'. until_suspended 14 Suspended s = Some s' \<and> settled s' \<and> number busy_server (serverpool s') = number busy_server (serverpool s) \<and>
    (let i = number idle_server (serverpool s); b = number busy_server (serverpool s); i' = number idle_server (serverpool s')
     in (5 \<le> i \<and> i \<le> 10 \<longrightarrow> i' = i) \<and> (10 < i \<longrightarrow> i' = 10 + (i - 10) div 2) \<and> (i < 5 \<longrightarrow> i' = i + min (20 - b - i) ((6 - i) div 2)))"
  using turn_from_suspended [OF assms] by (auto simp: Let_def next_idle_def)

fun turns :: "nat \<Rightarrow> prefork \<Rightarrow> prefork option" where
  "turns 0 s = Some s"
| "turns (Suc n) s = (case until_suspended 14 Suspended s of None \<Rightarrow> None | Some s' \<Rightarrow> turns n s')"

lemma turns_idle:
  "settled s \<Longrightarrow> \<exists>s'. turns n s = Some s' \<and> settled s' \<and> number busy_server (serverpool s') = number busy_server (serverpool s) \<and>
     number idle_server (serverpool s') = (next_idle (number busy_server (serverpool s)) ^^ n) (number idle_server (serverpool s))"
proof (induction n arbitrary: s)
  case (Suc n)
  from turn_from_suspended [OF Suc.prems] obtain s1 where s1: "until_suspended 14 Suspended s = Some s1" "settled s1"
      "number busy_server (serverpool s1) = number busy_server (serverpool s)"
      "number idle_server (serverpool s1) = next_idle (number busy_server (serverpool s)) (number idle_server (serverpool s))" by blast
  with Suc.IH [OF s1(2)] show ?case by (simp add: funpow_swap1)
qed simp

lemma next_idle_settles:
  assumes "b \<le> 15" "i + b \<le> 20"
  shows "5 \<le> (next_idle b ^^ 4) i \<and> (next_idle b ^^ 4) i \<le> 10"
proof -
  have up: "next_idle b i = (if 10 < i then 10 + (i - 10) div 2 else if i < 5 then i + (6 - i) div 2 else i)" if "i + b \<le> 20" for i
    using assms(1) that by (auto simp: next_idle_def min_def)
  have room: "next_idle b i + b \<le> 20" if "i + b \<le> 20" for i using up [OF that] assms(1) that by (auto split: if_splits)
  define r where "r = (\<lambda>i. if 10 < i then i - 10 else 5 - i :: nat)"
  have halves: "r (next_idle b i) \<le> r i div 2" if "i + b \<le> 20" for i using up [OF that] by (auto simp: r_def)
  have "r ((next_idle b ^^ n) i) \<le> r i div 2 ^ n \<and> (next_idle b ^^ n) i + b \<le> 20" for n
  proof (induction n)
    case (Suc n)
    then have "r ((next_idle b ^^ Suc n) i) \<le> r i div 2 ^ n div 2" using halves [of "(next_idle b ^^ n) i"] by (simp add: div_le_mono le_trans)
    with Suc room show ?case by (simp add: div_mult2_eq power_Suc2 del: power_Suc)
  qed (use assms in simp)
  moreover have "r i < 2 ^ 4" using assms by (auto simp: r_def)
  ultimately have "r ((next_idle b ^^ 4) i) = 0" by (metis div_less le_zero_eq)
  then show ?thesis by (simp add: r_def split: if_splits)
qed

text \<open>
  C30: The pool settles. With at most 15 busy children and no child changing its entry, four turns of the
  parent bring the number of idle children between \<open>MINSPARESERVER\<close> and \<open>MAXSPARESERVER\<close>.
\<close>

theorem pf_pool_settles:
  assumes "settled s" and "number busy_server (serverpool s) \<le> 15"
  shows "\<exists>s'. turns 4 s = Some s' \<and> MINSPARESERVER \<le> int (number idle_server (serverpool s')) \<and>
    int (number idle_server (serverpool s')) \<le> MAXSPARESERVER"
proof -
  obtain s1 where "scan_pool s = Ret 0 s1" "serverpool s1 = serverpool s" "exact s1"
    using scan_pool_ok [of s] assms by (auto simp: exact_def settled_def)
  then have "number idle_server (serverpool s) + number busy_server (serverpool s) \<le> 20"
    using number_le [of taken "serverpool s1"] by (auto simp: exact_def settled_def pf_inv_def MAXCLIENT_def)
  from next_idle_settles [OF assms(2) this] turns_idle [OF assms(1), of 4] show ?thesis
    by (auto simp: MINSPARESERVER_def MAXSPARESERVER_def)
qed

section \<open>Concrete pools\<close>

text \<open>A pool with fourteen idle children.\<close>

definition ex_pool :: prefork where
  "ex_pool = \<lparr>serverpool = map (\<lambda>k. \<lparr>srv_pid = int k, srv_state = STATE_IDLE\<rparr>) [100..<114] @ replicate 6 \<lparr>srv_pid = -1, srv_state = 0\<rparr>,
     idle_count = 0, busy_count = 14, procs = (\<lambda>p. Some (0, Accepting)), fork_pid = (\<lambda>k. 200 + int k), forked = 0, sent = [], shown = []\<rparr>"

lemma ex_pool_settled: "settled ex_pool" "number idle_server (serverpool ex_pool) = 14" "number busy_server (serverpool ex_pool) = 0"
  by (auto simp: settled_def pf_inv_def ex_pool_def number_def prefork_consts upt_conv_Cons)

theorem pf_turn_moves_halfway_witness:
  "\<exists>s'. until_suspended 14 Suspended ex_pool = Some s' \<and> number idle_server (serverpool s') = 12"
  using pf_turn_moves_halfway [OF ex_pool_settled(1)] by (auto simp: ex_pool_settled(2) Let_def)

theorem pf_pool_settles_witness:
  "\<exists>s'. turns 4 ex_pool = Some s' \<and> int (number idle_server (serverpool s')) \<le> MAXSPARESERVER"
  using pf_pool_settles [OF ex_pool_settled(1)] ex_pool_settled(3) by auto

lemma pf_main_reach: "pf_main pc s = Ret pc' s' \<Longrightarrow> pf_step\<^sup>*\<^sup>* (pf_start f) (pc, s) \<Longrightarrow> pf_step\<^sup>*\<^sup>* (pf_start f) (pc', s')"
  by (rule rtranclp.rtrancl_into_rtrancl) (auto intro: by_parent)


end
