(* ===== verification/Primes.thy ===== *)
theory Primes
  imports Prelude "HOL-Library.Multiset"
begin

text \<open>
  The programs that look for prime numbers by trial division: one process (\<open>primer0.c\<close>, \<open>primer1.c\<close>,
  \<open>primer_xhl.c\<close>), one child per number (\<open>primer2.c\<close>, \<open>thread3.c\<close>), three children that share the numbers
  (\<open>thread4.c\<close>) and, with files for the results, one to thirty-two threads on consecutive ranges
  (\<open>thread/posix/Newer/primer_by_*.c\<close>).
\<close>

section \<open>Prime numbers\<close>

definition is_prime :: "nat \<Rightarrow> bool" where
  "is_prime n \<longleftrightarrow> 1 < n \<and> (\<forall>d. d dvd n \<longrightarrow> d = 1 \<or> d = n)"

lemma composite_factor:
  assumes "1 < n" "\<not> is_prime n"
  obtains d where "1 < d" "d * d \<le> n" "d dvd n"
proof -
  obtain a where a: "a dvd n" "a \<noteq> 1" "a \<noteq> n" using assms by (auto simp: is_prime_def)
  then obtain b where b: "n = a * b" by blast
  have pos: "1 < a" "1 < b" using a b assms(1) by (auto simp: nat_neq_iff)
  show thesis
  proof (cases "a \<le> b")
    case True
    with pos b show thesis by (intro that [of a]) auto
  next
    case False
    with pos b show thesis by (intro that [of b]) auto
  qed
qed

lemma prime_no_divisor: "is_prime n \<Longrightarrow> 1 < d \<Longrightarrow> d < n \<Longrightarrow> \<not> d dvd n"
  by (auto simp: is_prime_def)

lemma even_prime: "is_prime n \<Longrightarrow> even n \<Longrightarrow> n = 2"
  by (auto simp: is_prime_def)

section \<open>Trial division\<close>

text \<open>\<^verbatim>\<open>for (i = 3; i * i <= j; i += 2) if (j % i == 0) { is_primer = 0; break; }\<close> from \<open>i\<close> on.\<close>

function odd_trial :: "nat \<Rightarrow> nat \<Rightarrow> bool" where
  "odd_trial j i = (if i * i \<le> j then (if j mod i = 0 then False else odd_trial j (i + 2)) else True)"
  by pat_completeness auto
termination
  by (relation "measure (\<lambda>(j, i). Suc j - i)") (auto simp: less_Suc_eq_le dest: order_trans [OF le_square])

text \<open>\<^verbatim>\<open>for (; j < lim; j++) if (i % j == 0) { mark = 0; break; }\<close>.\<close>

function no_divisor :: "nat \<Rightarrow> nat \<Rightarrow> nat \<Rightarrow> bool" where
  "no_divisor i lim j = (if j < lim then (if i mod j = 0 then False else no_divisor i lim (j + 1)) else True)"
  by pat_completeness auto
termination
  by (relation "measure (\<lambda>(i, lim, j). lim - j)") auto

text \<open>\<^verbatim>\<open>for (; j <= limit; j += 2) if (i % j == 0) { mark = 0; break; }\<close>.\<close>

function no_odd_divisor :: "nat \<Rightarrow> nat \<Rightarrow> nat \<Rightarrow> bool" where
  "no_odd_divisor i lim j = (if j \<le> lim then (if i mod j = 0 then False else no_odd_divisor i lim (j + 2)) else True)"
  by pat_completeness auto
termination
  by (relation "measure (\<lambda>(i, lim, j). Suc lim - j)") auto

declare odd_trial.simps [simp del] no_divisor.simps [simp del] no_odd_divisor.simps [simp del]

lemma odd_step: "odd i \<Longrightarrow> odd d \<Longrightarrow> i \<le> d \<Longrightarrow> d = i \<or> i + 2 \<le> (d :: nat)"
  by (metis add_2_eq_Suc' dvd_add_right_iff even_Suc le_antisym not_less_eq_eq)

lemma odd_trial_iff: "odd i \<Longrightarrow> odd_trial j i \<longleftrightarrow> (\<forall>d. odd d \<and> i \<le> d \<and> d * d \<le> j \<longrightarrow> \<not> d dvd j)"
proof (induction j i rule: odd_trial.induct)
  case (1 j i)
  show ?case
  proof (cases "i * i \<le> j")
    case True
    show ?thesis
    proof (cases "j mod i = 0")
      case True
      with \<open>i * i \<le> j\<close> 1(2) show ?thesis by (subst odd_trial.simps) auto
    next
      case False
      with 1 True have "odd_trial j i \<longleftrightarrow> (\<forall>d. odd d \<and> i + 2 \<le> d \<and> d * d \<le> j \<longrightarrow> \<not> d dvd j)" by (subst odd_trial.simps) simp
      with False 1(2) show ?thesis using odd_step [of i] by (metis dvd_eq_mod_eq_0 le_add1 order_trans)
    qed
  next
    case False
    then have "\<not> d * d \<le> j" if "i \<le> d" for d using mult_le_mono [OF that that] by linarith
    with False show ?thesis by (subst odd_trial.simps) auto
  qed
qed

lemma no_divisor_iff: "no_divisor i lim j \<longleftrightarrow> (\<forall>d. j \<le> d \<and> d < lim \<longrightarrow> \<not> d dvd i)"
proof (induction i lim j rule: no_divisor.induct)
  case (1 i lim j)
  show ?case
  proof (cases "j < lim \<and> i mod j \<noteq> 0")
    case True
    with 1 have "no_divisor i lim j \<longleftrightarrow> (\<forall>d. Suc j \<le> d \<and> d < lim \<longrightarrow> \<not> d dvd i)" by (subst no_divisor.simps) simp
    with True show ?thesis by (metis Suc_leI Suc_leD dvd_eq_mod_eq_0 le_neq_implies_less)
  next
    case False
    then show ?thesis by (subst no_divisor.simps) auto
  qed
qed

lemma no_odd_divisor_iff: "odd j \<Longrightarrow> no_odd_divisor i lim j \<longleftrightarrow> (\<forall>d. odd d \<and> j \<le> d \<and> d \<le> lim \<longrightarrow> \<not> d dvd i)"
proof (induction i lim j rule: no_odd_divisor.induct)
  case (1 i lim j)
  show ?case
  proof (cases "j \<le> lim \<and> i mod j \<noteq> 0")
    case True
    with 1 have "no_odd_divisor i lim j \<longleftrightarrow> (\<forall>d. odd d \<and> j + 2 \<le> d \<and> d \<le> lim \<longrightarrow> \<not> d dvd i)" by (subst no_odd_divisor.simps) simp
    with True 1(2) show ?thesis using odd_step [of j] by (metis dvd_eq_mod_eq_0 le_add1 order_trans)
  next
    case False
    with 1(2) show ?thesis by (subst no_odd_divisor.simps) auto
  qed
qed

lemma odd_factor: "odd n \<Longrightarrow> d dvd n \<Longrightarrow> 1 < d \<Longrightarrow> odd d \<and> 3 \<le> (d :: nat)"
proof -
  assume n: "odd n" "d dvd n" "1 < d"
  then have "odd d" using dvd_trans by blast
  moreover from this have "d \<noteq> 2" by auto
  ultimately show ?thesis using n(3) by linarith
qed

lemma odd_trial_prime:
  assumes "odd j" "3 \<le> j"
  shows "odd_trial j 3 \<longleftrightarrow> is_prime j"
proof
  assume t: "odd_trial j 3"
  show "is_prime j"
  proof (rule ccontr)
    assume "\<not> is_prime j"
    with assms obtain d where "1 < d" "d * d \<le> j" "d dvd j" using composite_factor [of j] by auto
    with t assms odd_factor [of j d] show False by (simp add: odd_trial_iff)
  qed
next
  assume p: "is_prime j"
  have "d < j" if "3 \<le> d" "d * d \<le> j" for d
  proof -
    have "d * 3 \<le> d * d" using that by simp
    with that show ?thesis by linarith
  qed
  with prime_no_divisor [OF p] show "odd_trial j 3" by (auto simp: odd_trial_iff)
qed

text \<open>The loop \<^verbatim>\<open>j < i / 2\<close> is right from 5 on; it takes 4 for a prime.\<close>

lemma half_trial_prime:
  assumes "5 \<le> i"
  shows "no_divisor i (i div 2) 2 \<longleftrightarrow> is_prime i"
proof
  assume t: "no_divisor i (i div 2) 2"
  show "is_prime i"
  proof (rule ccontr)
    assume "\<not> is_prime i"
    with assms obtain d where d: "1 < d" "d * d \<le> i" "d dvd i" using composite_factor [of i] by auto
    have "d < i div 2"
    proof (cases "d = 2")
      case True
      with d(3) assms show ?thesis by auto
    next
      case False
      with d(1) have "d * 3 \<le> d * d" by simp
      with d(1,2) False show ?thesis by linarith
    qed
    with t d show False by (auto simp: no_divisor_iff)
  qed
next
  assume p: "is_prime i"
  have "\<not> d dvd i" if "2 \<le> d" "d < i div 2" for d using prime_no_divisor [OF p, of d] that by linarith
  then show "no_divisor i (i div 2) 2" by (auto simp: no_divisor_iff)
qed

lemma half_trial_four: "no_divisor 4 (4 div 2) 2" "\<not> is_prime 4"
proof -
  show "no_divisor 4 (4 div 2) 2" by (simp add: no_divisor.simps)
  show "\<not> is_prime 4" using even_prime [of 4] by auto
qed

text \<open>The loop \<^verbatim>\<open>j <= i / 2\<close> of the thread pools.\<close>

lemma full_trial_prime:
  assumes "2 \<le> i"
  shows "no_divisor i (i div 2 + 1) 2 \<longleftrightarrow> is_prime i"
proof
  assume t: "no_divisor i (i div 2 + 1) 2"
  show "is_prime i"
  proof (rule ccontr)
    assume "\<not> is_prime i"
    with assms obtain d where d: "1 < d" "d * d \<le> i" "d dvd i" using composite_factor [of i] by auto
    then have "d * 2 \<le> d * d" by simp
    with d have "d \<le> i div 2" by linarith
    with t d show False by (auto simp: no_divisor_iff)
  qed
next
  assume p: "is_prime i"
  have "\<not> d dvd i" if "2 \<le> d" "d < i div 2 + 1" for d using prime_no_divisor [OF p, of d] that assms by linarith
  then show "no_divisor i (i div 2 + 1) 2" by (auto simp: no_divisor_iff)
qed

text \<open>In the searched ranges no product of the test \<^verbatim>\<open>i * i <= j\<close> leaves an \<open>unsigned long\<close>.\<close>

lemma trial_no_wrap:
  fixes i j :: nat
  assumes "2 \<le> i" "(i - 2) * (i - 2) \<le> j" "j \<le> 100000000"
  shows "i * i < 2 ^ 64"
proof -
  have "i - 2 \<le> 10000"
  proof (rule ccontr)
    assume "\<not> ?thesis"
    then have "10001 * 10001 \<le> (i - 2) * (i - 2)" by (intro mult_le_mono) auto
    with assms(2,3) show False by linarith
  qed
  then have "i * i \<le> 10002 * 10002" by (intro mult_le_mono) auto
  then show ?thesis by simp
qed

section \<open>The sequential programs\<close>

definition LEFT :: nat where "LEFT = 30000000"
definition RIGHT :: nat where "RIGHT = 30000200"

text \<open>\<^verbatim>\<open>(int)sqrt(i)\<close>: the integer part of the root.\<close>

function root_from :: "nat \<Rightarrow> nat \<Rightarrow> nat" where
  "root_from n r = (if (r + 1) * (r + 1) \<le> n then root_from n (r + 1) else r)"
  by pat_completeness auto
termination
  by (relation "measure (\<lambda>(n, r). n - r)") auto

definition int_sqrt :: "nat \<Rightarrow> nat" where
  "int_sqrt n = root_from n 0"

declare root_from.simps [simp del]

lemma root_from_spec: "r * r \<le> n \<Longrightarrow> root_from n r * root_from n r \<le> n \<and> n < (root_from n r + 1) * (root_from n r + 1)"
proof (induction n r rule: root_from.induct)
  case (1 n r)
  then show ?case by (cases "(r + 1) * (r + 1) \<le> n") (simp_all add: root_from.simps [of n r])
qed

lemma int_sqrt_iff: "d \<le> int_sqrt n \<longleftrightarrow> d * d \<le> n"
proof -
  have s: "int_sqrt n * int_sqrt n \<le> n" "n < (int_sqrt n + 1) * (int_sqrt n + 1)" using root_from_spec [of 0 n] by (simp_all add: int_sqrt_def)
  show ?thesis
  proof
    assume "d \<le> int_sqrt n"
    with s(1) show "d * d \<le> n" using mult_le_mono [of d "int_sqrt n" d "int_sqrt n"] by linarith
  next
    assume "d * d \<le> n"
    with s(2) show "d \<le> int_sqrt n" by (metis Suc_eq_plus1 le_less_trans mult_le_mono not_less not_less_eq_eq)
  qed
qed

definition primer0_mark :: "nat \<Rightarrow> bool" where
  "primer0_mark i =
     (if i < 2 then False
      else if i = 2 then True
      else if i mod 2 = 0 then False
      else no_odd_divisor i (int_sqrt i) 3)"

text \<open>The numbers a program prints, in order; all these programs leave with \<open>exit(0)\<close>.\<close>

definition primer0_main :: "(unit, nat list) outcome" where
  "primer0_main = Exit 0 (filter primer0_mark [LEFT..<RIGHT + 1])"

definition primer_xhl_main :: "(unit, nat list) outcome" where
  "primer_xhl_main = Exit 0 (filter primer0_mark [LEFT..<RIGHT + 1])"

definition primer1_mark :: "nat \<Rightarrow> bool" where
  "primer1_mark i = no_divisor i (i div 2) 2"

definition primer1_main :: "(unit, nat list) outcome" where
  "primer1_main = Exit 0 (filter primer1_mark [LEFT..<RIGHT + 1])"

text \<open>\<open>thread0.c\<close> sets \<open>mark\<close> once, before the loop over the numbers, and never again.\<close>

fun thread0_loop :: "nat list \<Rightarrow> bool \<Rightarrow> nat list \<Rightarrow> nat list" where
  "thread0_loop [] mark out = out"
| "thread0_loop (i # is) mark out =
     (let mark1 = (if no_divisor i (i div 2) 2 then mark else False)
      in thread0_loop is mark1 (if mark1 then out @ [i] else out))"

definition thread0_main :: "(unit, nat list) outcome" where
  "thread0_main = Exit 0 (thread0_loop [LEFT..<RIGHT + 1] True [])"

section \<open>The forking programs\<close>

text \<open>The children that have not been waited for, and what all children have printed.\<close>

record family =
  kids :: nat
  printed :: "nat list"

text \<open>
  \<open>primer2.c\<close> and \<open>thread3.c\<close>: a child per number, started in a loop; \<open>fails\<close> says for which number
  \<open>fork\<close> fails. What the children print is listed in the order of their creation; their real order is arbitrary.
\<close>

fun fork_each :: "(nat \<Rightarrow> bool) \<Rightarrow> nat list \<Rightarrow> family \<Rightarrow> (unit, family) outcome" where
  "fork_each fails [] f = Ret () f"
| "fork_each fails (i # is) f =
     (if fails i then Exit 1 f
      else fork_each fails is (f\<lparr>kids := kids f + 1, printed := printed f @ (if primer1_mark i then [i] else [])\<rparr>))"

definition wait_kids :: "nat \<Rightarrow> family \<Rightarrow> family" where
  "wait_kids n f = f\<lparr>kids := kids f - n\<rparr>"

definition primer2_main :: "(nat \<Rightarrow> bool) \<Rightarrow> (unit, family) outcome" where
  "primer2_main fails = bind_outcome (fork_each fails [LEFT..<RIGHT + 1] \<lparr>kids = 0, printed = []\<rparr>) (\<lambda>_ f. Exit 0 f)"

text \<open>The children of \<open>thread1.c\<close> sleep before they end; the parent leaves without waiting.\<close>

definition thread1_main :: "(nat \<Rightarrow> bool) \<Rightarrow> (unit, family) outcome" where
  "thread1_main fails = bind_outcome (fork_each fails [LEFT..<RIGHT + 1] \<lparr>kids = 0, printed = []\<rparr>) (\<lambda>_ f. Exit 0 f)"

definition thread3_main :: "(nat \<Rightarrow> bool) \<Rightarrow> (unit, family) outcome" where
  "thread3_main fails = bind_outcome (fork_each fails [LEFT..<RIGHT + 1] \<lparr>kids = 0, printed = []\<rparr>)
     (\<lambda>_ f. Exit 0 (wait_kids (length [LEFT..<RIGHT + 1]) f))"

text \<open>\<^verbatim>\<open>for (i = LEFT + n; i <= RIGHT; i += N)\<close> in \<open>thread4.c\<close>.\<close>

definition PROC_N :: nat where "PROC_N = 3"

function every :: "nat \<Rightarrow> nat \<Rightarrow> nat \<Rightarrow> nat list" where
  "every s i r = (if i \<le> r \<and> 0 < s then i # every s (i + s) r else [])"
  by pat_completeness auto
termination
  by (relation "measure (\<lambda>(s, i, r). Suc r - i)") auto

declare every.simps [simp del]

fun fork_strides :: "(nat \<Rightarrow> bool) \<Rightarrow> nat list \<Rightarrow> family \<Rightarrow> (unit, family) outcome" where
  "fork_strides fails [] f = Ret () f"
| "fork_strides fails (n # ns) f =
     (if fails n then Exit 1 f
      else fork_strides fails ns
        (f\<lparr>kids := kids f + 1, printed := printed f @ filter primer1_mark (every PROC_N (LEFT + n) RIGHT)\<rparr>))"

definition thread4_main :: "(nat \<Rightarrow> bool) \<Rightarrow> (unit, family) outcome" where
  "thread4_main fails = bind_outcome (fork_strides fails [0..<PROC_N] \<lparr>kids = 0, printed = []\<rparr>)
     (\<lambda>_ f. Exit 0 (wait_kids PROC_N f))"

lemma primer0_prime: "primer0_mark i \<longleftrightarrow> is_prime i"
proof (cases "i < 3 \<or> even i")
  case True
  have "d = 1 \<or> d = 2" if "d dvd 2" for d :: nat using dvd_imp_le [OF that] that by (cases "d = 0") auto
  then have "is_prime 2" by (simp add: is_prime_def)
  moreover have "\<not> is_prime i" if "i < 2" using that by (simp add: is_prime_def)
  ultimately show ?thesis using True even_prime [of i] by (auto simp: primer0_mark_def less_Suc_eq numeral_3_eq_3 numeral_2_eq_2 dvd_eq_mod_eq_0)
next
  case False
  then have "primer0_mark i \<longleftrightarrow> no_odd_divisor i (int_sqrt i) 3" by (auto simp: primer0_mark_def)
  also have "\<dots> \<longleftrightarrow> odd_trial i 3" by (auto simp: no_odd_divisor_iff odd_trial_iff int_sqrt_iff)
  finally show ?thesis using False odd_trial_prime [of i] by simp
qed

lemma primer1_prime: "LEFT \<le> i \<Longrightarrow> primer1_mark i \<longleftrightarrow> is_prime i"
  by (simp add: primer1_mark_def half_trial_prime LEFT_def)

lemma fork_each_ok:
  "\<forall>i \<in> set is. \<not> fails i \<Longrightarrow>
   fork_each fails is f = Ret () (f\<lparr>kids := kids f + length is, printed := printed f @ filter primer1_mark is\<rparr>)"
  by (induction "is" arbitrary: f) auto

lemma every_mod: "0 < s \<Longrightarrow> every s i r = filter (\<lambda>k. k mod s = i mod s) [i..<Suc r]"
proof (induction s i r rule: every.induct)
  case (1 s i r)
  show ?case
  proof (cases "i \<le> r")
    case True
    define m where "m = min (i + s) (Suc r)"
    have no: "k mod s \<noteq> i mod s" if "i < k" "k < i + s" for k
    proof
      assume "k mod s = i mod s"
      then have "s dvd k - i" using that by (metis less_imp_le mod_eq_dvd_iff_nat)
      with that show False by (auto dest: dvd_imp_le)
    qed
    have "[Suc i..<Suc r] = [Suc i..<m] @ [m..<Suc r]" using True 1(2) by (intro upt_split) (auto simp: m_def)
    then have "[i..<Suc r] = i # [Suc i..<m] @ [m..<Suc r]" using True by (simp add: upt_conv_Cons del: upt_Suc)
    moreover have "filter (\<lambda>k. k mod s = i mod s) [Suc i..<m] = []" using no by (auto simp: filter_empty_conv m_def)
    moreover have "filter (\<lambda>k. k mod s = i mod s) [m..<Suc r] = every s (i + s) r"
      using 1 True by (cases "i + s \<le> r") (auto simp: m_def min_def every.simps [of s "i + s"])
    ultimately show ?thesis using True 1(2) by (simp add: every.simps [of s i r])
  qed (simp add: every.simps [of s i r])
qed

lemma every_from:
  assumes "n < s" "l + n \<le> r"
  shows "every s (l + n) r = filter (\<lambda>k. k mod s = (l + n) mod s) [l..<Suc r]"
proof -
  have "k mod s \<noteq> (l + n) mod s" if "l \<le> k" "k < l + n" for k
  proof
    assume "k mod s = (l + n) mod s"
    then have "s dvd l + n - k" using that by (metis less_imp_le mod_eq_dvd_iff_nat)
    with that assms(1) show False by (auto dest: dvd_imp_le)
  qed
  then have "filter (\<lambda>k. k mod s = (l + n) mod s) [l..<l + n] = []" by (auto simp: filter_empty_conv)
  moreover have "[l..<Suc r] = [l..<l + n] @ [l + n..<Suc r]" using assms(2) by (intro upt_split) auto
  ultimately show ?thesis using assms(1) by (simp add: every_mod)
qed

lemma residues3:
  "mset (filter P (filter (\<lambda>k. k mod 3 = 0) xs) @ filter P (filter (\<lambda>k. k mod 3 = 1) xs) @ filter P (filter (\<lambda>k. k mod 3 = 2) xs)) =
   mset (filter P (xs :: nat list))"
proof (induction xs)
  case (Cons x xs)
  have "x mod 3 = 0 \<or> x mod 3 = 1 \<or> x mod 3 = 2" by presburger
  with Cons show ?case by (auto simp del: mset_filter filter_filter)
qed simp

lemma filter_prime_cong: "filter primer1_mark [LEFT..<k] = filter is_prime [LEFT..<k]"
  by (rule filter_cong) (auto simp: primer1_prime)

lemma unmarked_silent: "thread0_loop is False out = out"
  by (induction "is" arbitrary: out) simp_all

lemma thread0_silent: "thread0_main = Exit 0 []"
proof -
  have "\<not> no_divisor LEFT (LEFT div 2) 2" by (subst no_divisor.simps) (simp add: LEFT_def)
  moreover have "[LEFT..<RIGHT + 1] = LEFT # [Suc LEFT..<RIGHT + 1]" by (rule upt_conv_Cons) (simp add: LEFT_def RIGHT_def)
  ultimately show ?thesis by (simp add: thread0_main_def unmarked_silent del: upt_Suc)
qed

text \<open>
  C33: The programs that search the same interval agree and are right: \<open>primer0.c\<close>, \<open>primer_xhl.c\<close> and
  \<open>primer1.c\<close> print exactly the primes from \<open>LEFT\<close> to \<open>RIGHT\<close> in ascending order; so do the children of
  \<open>primer2.c\<close>, \<open>thread3.c\<close> and \<open>thread4.c\<close> in some order, each prime once. \<open>thread3.c\<close> and \<open>thread4.c\<close> have waited for
  all their children when they leave, \<open>primer2.c\<close> and \<open>thread1.c\<close>, which print the same, for none. \<open>thread0.c\<close> prints nothing at all: its
  mark stays 0 after the first composite number.
\<close>

theorem prime_programs_agree:
  "primer0_main = Exit 0 (filter is_prime [LEFT..<RIGHT + 1]) \<and>
   primer_xhl_main = primer0_main \<and> primer1_main = primer0_main \<and>
   thread0_main = Exit 0 [] \<and> thread1_main = primer2_main \<and>
   (\<exists>f. primer2_main (\<lambda>_. False) = Exit 0 f \<and> printed f = filter is_prime [LEFT..<RIGHT + 1] \<and> kids f = 201) \<and>
   (\<exists>f. thread3_main (\<lambda>_. False) = Exit 0 f \<and> printed f = filter is_prime [LEFT..<RIGHT + 1] \<and> kids f = 0) \<and>
   (\<exists>f. thread4_main (\<lambda>_. False) = Exit 0 f \<and> mset (printed f) = mset (filter is_prime [LEFT..<RIGHT + 1]) \<and> kids f = 0)"
proof -
  have 0: "filter primer0_mark xs = filter is_prime xs" for xs by (intro filter_cong) (simp_all add: primer0_prime)
  have n: "length [LEFT..<RIGHT + 1] = 201" by (simp add: LEFT_def RIGHT_def)
  let ?xs = "[LEFT..<Suc RIGHT]"
  have e: "every 3 (LEFT + n) RIGHT = filter (\<lambda>k. k mod 3 = n) ?xs" if "n < 3" for n
    using every_from [of n 3 LEFT RIGHT] that by (simp add: LEFT_def RIGHT_def mod_add_eq [symmetric, of 30000000])
  have ns: "[0..<PROC_N] = [0, 1, 2]" by (simp add: PROC_N_def upt_rec)
  define x where "x n = filter primer1_mark (every PROC_N (LEFT + n) RIGHT)" for n
  have "fork_strides (\<lambda>_. False) [0, 1, 2] \<lparr>kids = 0, printed = []\<rparr> = Ret () \<lparr>kids = 3, printed = x 0 @ x 1 @ x 2\<rparr>"
    by (simp add: x_def)
  moreover have "mset (x 0 @ x 1 @ x 2) = mset (filter primer1_mark ?xs)"
    using residues3 [of primer1_mark ?xs] e [of 0] e [of 1] e [of 2] unfolding x_def PROC_N_def by (simp del: upt_Suc mset_filter filter_filter)
  ultimately have 4: "\<exists>f. thread4_main (\<lambda>_. False) = Exit 0 f \<and> mset (printed f) = mset (filter is_prime ?xs) \<and> kids f = 0"
    unfolding filter_prime_cong [symmetric] thread4_main_def ns by (simp add: wait_kids_def PROC_N_def del: upt_Suc mset_filter)
  moreover have "thread1_main = primer2_main" by (rule ext) (simp add: thread1_main_def primer2_main_def)
  ultimately show ?thesis using 0 n thread0_silent
    by (simp del: upt_Suc mset_filter add: primer0_main_def primer_xhl_main_def primer1_main_def primer2_main_def thread3_main_def fork_each_ok wait_kids_def
      filter_prime_cong)
qed

section \<open>The threads with files\<close>

text \<open>\<^verbatim>\<open>for (j = left; j <= right; j += 2) { ... if (is_primer) fprintf(fp, "%lu\n", j); }\<close>.\<close>

function odd_primes :: "nat \<Rightarrow> nat \<Rightarrow> nat list" where
  "odd_primes j r = (if j \<le> r then (if odd_trial j 3 then [j] else []) @ odd_primes (j + 2) r else [])"
  by pat_completeness auto
termination
  by (relation "measure (\<lambda>(j, r). Suc r - j)") auto

declare odd_primes.simps [simp del]

definition lines_of :: "nat list \<Rightarrow> string" where
  "lines_of ns = concat (map (\<lambda>n. show_nat n @ [CHR 0x0A]) ns)"

type_synonym files = "string \<rightharpoonup> string"

text \<open>\<open>primer_by_one.c\<close>: one thread, one file; \<open>ok\<close> says which files can be opened.\<close>

definition one_primer :: "(string \<Rightarrow> bool) \<Rightarrow> nat \<Rightarrow> files \<Rightarrow> files" where
  "one_primer ok n2 fs =
     (if \<not> ok ''primes.txt'' then fs
      else fs(''primes.txt'' \<mapsto> lines_of ((if n2 \<ge> 2 then [2] else []) @ odd_primes 3 n2)))"

definition by_one_main :: "(string \<Rightarrow> bool) \<Rightarrow> files \<Rightarrow> files" where
  "by_one_main ok fs = one_primer ok 100000000 fs"

record RANGE =
  r_left :: nat
  r_right :: nat
  thread_id :: nat

definition file_name :: "string \<Rightarrow> nat \<Rightarrow> string" where
  "file_name pre k = take 63 (pre @ show_nat k @ ''.txt'')"

text \<open>What \<open>primer\<close> writes for a range, and the thread function with the prefix of its file name.\<close>

definition range_primes :: "nat \<Rightarrow> nat \<Rightarrow> nat list" where
  "range_primes l r = (if l \<le> 2 \<and> r \<ge> 2 then [2] else []) @ odd_primes (if l mod 2 = 0 then l + 1 else l) r"

definition primer :: "string \<Rightarrow> (string \<Rightarrow> bool) \<Rightarrow> RANGE \<Rightarrow> files \<Rightarrow> files" where
  "primer pre ok r fs =
     (let name = file_name pre (thread_id r)
      in if \<not> ok name then fs else fs(name \<mapsto> lines_of (range_primes (r_left r) (r_right r))))"

definition primer_four where "primer_four = primer ''primes_''"
definition primer_eight where "primer_eight = primer ''primes8_''"
definition primer_sixteen where "primer_sixteen = primer ''primes16_''"
definition primer_24 where "primer_24 = primer ''primes24_''"
definition primer_32 where "primer_32 = primer ''primes32_''"

text \<open>
  \<open>main\<close> gives thread \<open>i + 1\<close> the \<open>i\<close>-th range and joins all threads. A thread touches no other thread's
  file, so their interleaving amounts to the order in which they write: \<open>order\<close> lists the threads in this order.
\<close>

definition run_threads :: "((string \<Rightarrow> bool) \<Rightarrow> RANGE \<Rightarrow> files \<Rightarrow> files) \<Rightarrow> (nat \<times> nat) list \<Rightarrow> nat list \<Rightarrow> (string \<Rightarrow> bool) \<Rightarrow> files \<Rightarrow> files" where
  "run_threads f ranges order ok fs =
     fold (\<lambda>i. f ok \<lparr>r_left = fst (ranges ! i), r_right = snd (ranges ! i), thread_id = i + 1\<rparr>) order fs"

definition ranges_four :: "(nat \<times> nat) list" where
  "ranges_four = [(3, 25000000), (25000001, 50000000), (50000001, 75000000), (75000001, 100000000)]"

definition by_four_main where "by_four_main = run_threads primer_four ranges_four"

definition ranges_eight :: "(nat \<times> nat) list" where
  "ranges_eight = [(3, 12500000), (12500001, 25000000), (25000001, 37500000), (37500001, 50000000),
     (50000001, 62500000), (62500001, 75000000), (75000001, 87500000), (87500001, 100000000)]"

definition by_eight_main where "by_eight_main = run_threads primer_eight ranges_eight"

definition ranges_sixteen :: "(nat \<times> nat) list" where
  "ranges_sixteen = [(3, 6250000), (6250001, 12500000), (12500001, 18750000), (18750001, 25000000),
     (25000001, 31250000), (31250001, 37500000), (37500001, 43750000), (43750001, 50000000),
     (50000001, 56250000), (56250001, 62500000), (62500001, 68750000), (68750001, 75000000),
     (75000001, 81250000), (81250001, 87500000), (87500001, 93750000), (93750001, 100000000)]"

definition by_sixteen_main where "by_sixteen_main = run_threads primer_sixteen ranges_sixteen"

definition ranges_24 :: "(nat \<times> nat) list" where
  "ranges_24 = [(3, 4166666), (4166667, 8333333), (8333334, 12500000), (12500001, 16666666),
     (16666667, 20833333), (20833334, 25000000), (25000001, 29166666), (29166667, 33333333),
     (33333334, 37500000), (37500001, 41666666), (41666667, 45833333), (45833334, 50000000),
     (50000001, 54166666), (54166667, 58333333), (58333334, 62500000), (62500001, 66666666),
     (66666667, 70833333), (70833334, 75000000), (75000001, 79166666), (79166667, 83333333),
     (83333334, 87500000), (87500001, 91666666), (91666667, 95833333), (95833334, 100000000)]"

definition by_24_main where "by_24_main = run_threads primer_24 ranges_24"

definition ranges_32 :: "(nat \<times> nat) list" where
  "ranges_32 = [(3, 3125000), (3125001, 6250000), (6250001, 9375000), (9375001, 12500000),
     (12500001, 15625000), (15625001, 18750000), (18750001, 21875000), (21875001, 25000000),
     (25000001, 28125000), (28125001, 31250000), (31250001, 34375000), (34375001, 37500000),
     (37500001, 40625000), (40625001, 43750000), (43750001, 46875000), (46875001, 50000000),
     (50000001, 53125000), (53125001, 56250000), (56250001, 59375000), (59375001, 62500000),
     (62500001, 65625000), (65625001, 68750000), (68750001, 71875000), (71875001, 75000000),
     (75000001, 78125000), (78125001, 81250000), (81250001, 84375000), (84375001, 87500000),
     (87500001, 90625000), (90625001, 93750000), (93750001, 96875000), (96875001, 100000000)]"

definition by_32_main where "by_32_main = run_threads primer_32 ranges_32"

section \<open>All thread counts find the same primes\<close>

lemma odd_primes_spec: "odd j \<Longrightarrow> 3 \<le> j \<Longrightarrow> odd_primes j r = filter is_prime [j..<Suc r]"
proof (induction j r rule: odd_primes.induct)
  case (1 j r)
  have np: "\<not> is_prime (Suc j)" using even_prime [of "Suc j"] 1(2,3) by auto
  show ?case
  proof (cases "j \<le> r")
    case True
    have "filter is_prime [Suc j..<Suc r] = filter is_prime [j + 2..<Suc r]"
      using np by (cases "Suc j \<le> r") (simp_all add: upt_conv_Cons del: upt_Suc)
    with 1 True odd_trial_prime [of j] show ?thesis
      by (subst odd_primes.simps) (simp add: upt_conv_Cons del: upt_Suc)
  qed (simp add: odd_primes.simps [of j])
qed

lemma range_primes_spec: "3 \<le> l \<Longrightarrow> range_primes l r = filter is_prime [l..<Suc r]"
proof (cases "odd l")
  case False
  moreover assume "3 \<le> l"
  ultimately have "\<not> is_prime l" using even_prime [of l] by auto
  with False \<open>3 \<le> l\<close> show ?thesis
    by (cases "l \<le> r") (simp_all add: range_primes_def odd_primes_spec upt_conv_Cons del: upt_Suc)
qed (auto simp: range_primes_def odd_primes_spec odd_iff_mod_2_eq_one)

lemma primes_up: "2 \<le> n \<Longrightarrow> filter is_prime [0..<Suc n] = 2 # filter is_prime [3..<Suc n]"
proof -
  assume n: "2 \<le> n"
  then have "[0..<Suc n] = [0..<3] @ [3..<Suc n]" by (intro upt_split) auto
  moreover have "[0..<3] = [0, 1, 2 :: nat]" by (simp add: numeral_3_eq_3 numeral_2_eq_2)
  moreover have "is_prime 2" "\<not> is_prime 0" "\<not> is_prime 1" using primer0_prime [of 2] by (simp_all add: primer0_mark_def is_prime_def)
  ultimately show ?thesis by simp
qed

text \<open>Consecutive ranges from \<open>a\<close> up to \<open>e\<close>.\<close>

fun chained :: "nat \<Rightarrow> (nat \<times> nat) list \<Rightarrow> nat \<Rightarrow> bool" where
  "chained a [] e = (a = Suc e)"
| "chained a ((l, r) # rs) e = (l = a \<and> a \<le> r \<and> r \<le> e \<and> chained (Suc r) rs e)"

lemma chained_concat: "chained a rs e \<Longrightarrow> concat (map (\<lambda>(l, r). filter P [l..<Suc r]) rs) = filter P [a..<Suc e]"
proof (induction a rs e rule: chained.induct)
  case (2 a l r rs e)
  then have "[a..<Suc e] = [a..<Suc r] @ [Suc r..<Suc e]" by (intro upt_split) auto
  with 2 show ?case by (simp del: upt_Suc)
qed simp

lemma chained_left: "chained a rs e \<Longrightarrow> x \<in> set rs \<Longrightarrow> a \<le> fst x"
  by (induction a rs e rule: chained.induct) auto

lemma file_name_inj:
  assumes "length pre \<le> 50" "i < 100" "j < 100"
  shows "file_name pre i = file_name pre j \<longleftrightarrow> i = j"
proof -
  have len: "length (show_nat k) \<le> 2" if "k < 100" for k
  proof -
    have "k div 10 < 10" using that by simp
    then show ?thesis by (subst show_nat.simps) (simp add: show_nat.simps [of "k div 10"])
  qed
  have "length (pre @ show_nat k @ ''.txt'') \<le> 63" if "k < 100" for k using assms(1) len [OF that] by simp
  then have "file_name pre k = pre @ show_nat k @ ''.txt''" if "k < 100" for k unfolding file_name_def using that by (intro take_all)
  with assms(2,3) show ?thesis by (auto simp: show_nat_inj)
qed

lemma run_threads_file:
  assumes "length pre \<le> 50" "length T < 99" "distinct order" "set order \<subseteq> {..<length T}" "i \<in> set order"
  shows "run_threads (primer pre) T order (\<lambda>_. True) fs (file_name pre (i + 1)) = Some (lines_of (range_primes (fst (T ! i)) (snd (T ! i))))"
  using assms(3-5)
proof (induction order rule: rev_induct)
  case (snoc x xs)
  show ?case
  proof (cases "x = i")
    case True
    then show ?thesis by (simp add: run_threads_def primer_def Let_def)
  next
    case False
    have "i < length T" "x < length T" using snoc.prems by auto
    then have "file_name pre (i + 1) \<noteq> file_name pre (x + 1)" using False assms(1,2) by (subst file_name_inj) auto
    with snoc False show ?thesis by (simp add: run_threads_def primer_def Let_def)
  qed
qed simp

lemma threads_find_all:
  assumes "length pre \<le> 50" "length T < 99" "chained 3 T e" "mset order = mset [0..<length T]" "i < length T"
  shows "run_threads (primer pre) T order (\<lambda>_. True) fs (file_name pre (i + 1)) =
    Some (lines_of (filter is_prime [fst (T ! i)..<Suc (snd (T ! i))]))"
proof -
  have o: "set order = {..<length T}" "distinct order"
    using assms(4) mset_eq_setD mset_eq_imp_distinct_iff [OF assms(4)] by fastforce+
  have "3 \<le> fst (T ! i)" using chained_left [OF assms(3)] assms(5) by simp
  with run_threads_file [OF assms(1,2) o(2), of i fs] o(1) assms(5) show ?thesis by (simp add: range_primes_spec del: upt_Suc)
qed

text \<open>The programs with their prefixes and ranges.\<close>

definition thread_versions :: "((nat list \<Rightarrow> (string \<Rightarrow> bool) \<Rightarrow> files \<Rightarrow> files) \<times> string \<times> (nat \<times> nat) list) set" where
  "thread_versions = {(by_four_main, ''primes_'', ranges_four), (by_eight_main, ''primes8_'', ranges_eight),
     (by_sixteen_main, ''primes16_'', ranges_sixteen), (by_24_main, ''primes24_'', ranges_24), (by_32_main, ''primes32_'', ranges_32)}"

lemma thread_versions_ok:
  assumes "(mn, pre, T) \<in> thread_versions"
  shows "mn = run_threads (primer pre) T \<and> length pre \<le> 50 \<and> length T < 99 \<and> chained 3 T 100000000"
proof -
  have "chained 3 ranges_four 100000000" by (simp add: ranges_four_def)
  moreover have "chained 3 ranges_eight 100000000" by (simp add: ranges_eight_def)
  moreover have "chained 3 ranges_sixteen 100000000" by (simp add: ranges_sixteen_def)
  moreover have "chained 3 ranges_24 100000000" by (simp add: ranges_24_def)
  moreover have "chained 3 ranges_32 100000000" by (simp add: ranges_32_def)
  moreover have "length ranges_four = 4" "length ranges_eight = 8" "length ranges_sixteen = 16" "length ranges_24 = 24" "length ranges_32 = 32"
    by (simp_all add: ranges_four_def ranges_eight_def ranges_sixteen_def ranges_24_def ranges_32_def)
  ultimately show ?thesis using assms
    by (auto simp: thread_versions_def by_four_main_def by_eight_main_def by_sixteen_main_def by_24_main_def by_32_main_def
      primer_four_def primer_eight_def primer_sixteen_def primer_24_def primer_32_def)
qed

text \<open>
  Every number of threads finds the same primes. In whatever order the threads of \<open>primer_by_four.c\<close>, \<open>primer_by_eight.c\<close>,
  \<open>primer_by_sixteen.c\<close>, \<open>primer_by_24.c\<close> and \<open>primer_by_32.c\<close> finish, the file of each thread lists exactly the primes of its range in
  ascending order, and the files together list each prime from 3 to a hundred million once; the single thread of
  \<open>primer_by_one.c\<close> lists these and the prime 2, which all the others leave out.
\<close>

theorem primer_threads_agree:
  assumes "(mn, pre, T) \<in> thread_versions" and "mset order = mset [0..<length T]"
  shows "(\<forall>i < length T. mn order (\<lambda>_. True) fs (file_name pre (i + 1)) = Some (lines_of (filter is_prime [fst (T ! i)..<Suc (snd (T ! i))]))) \<and>
    concat (map (\<lambda>(l, r). filter is_prime [l..<Suc r]) T) = filter is_prime [3..<Suc 100000000] \<and>
    by_one_main (\<lambda>_. True) fs ''primes.txt'' = Some (lines_of (2 # filter is_prime [3..<Suc 100000000]))"
proof -
  note v = thread_versions_ok [OF assms(1)]
  have "by_one_main (\<lambda>_. True) fs ''primes.txt'' = Some (lines_of (2 # filter is_prime [3..<Suc 100000000]))"
    using odd_primes_spec [of 3 100000000] by (simp add: by_one_main_def one_primer_def del: upt_Suc upt_rec_numeral)
  with v threads_find_all [of pre T 100000000 order] assms(2) chained_concat [of 3 T 100000000 is_prime] show ?thesis by blast
qed

theorem primer_threads_agree_witness:
  "\<exists>fs. by_four_main [2, 0, 3, 1] (\<lambda>_. True) Map.empty (file_name ''primes_'' 1) = Some (lines_of (filter is_prime [3..<Suc 25000000])) \<and>
    by_one_main (\<lambda>_. True) Map.empty ''primes.txt'' = Some fs"
proof -
  have v: "(by_four_main, ''primes_'', ranges_four) \<in> thread_versions" by (simp add: thread_versions_def)
  have "mset [2, 0, 3, 1] = mset [0..<length ranges_four]" by (simp add: ranges_four_def upt_conv_Cons numeral_2_eq_2 numeral_3_eq_3)
  note t = primer_threads_agree [OF v this, of Map.empty]
  have "(0 :: nat) < length ranges_four" by (simp add: ranges_four_def)
  with t have "by_four_main [2, 0, 3, 1] (\<lambda>_. True) Map.empty (file_name ''primes_'' (0 + 1)) =
      Some (lines_of (filter is_prime [fst (ranges_four ! 0)..<Suc (snd (ranges_four ! 0))]))" by blast
  with t show ?thesis by (simp add: ranges_four_def del: upt_Suc upt_rec_numeral)
qed

end
