(* ===== verification/Prime_Pool.thy ===== *)
theory Prime_Pool
  imports Primes Monitor
begin

text \<open>
  The pools that test numbers handed over one at a time through the variable \<open>num\<close>:
  \<open>thread/posix/primer_pool_busy.c\<close>, whose threads poll it, and \<open>mytbf_multithread/primer_pool_notice.c\<close>, whose threads wait on a
  condition variable. Both refine one abstract hand-over.
\<close>

section \<open>The abstract hand-over\<close>

record hand =
  nxt :: nat
  slot :: "nat option"
  testing :: "nat multiset"
  tested :: "nat list"

inductive hand_step :: "hand \<Rightarrow> hand \<Rightarrow> bool" where
  hand_put: "slot h = None \<Longrightarrow> nxt h \<le> RIGHT \<Longrightarrow> hand_step h (h\<lparr>slot := Some (nxt h), nxt := nxt h + 1\<rparr>)"
| hand_take: "slot h = Some i \<Longrightarrow> hand_step h (h\<lparr>slot := None, testing := testing h + {#i#}\<rparr>)"
| hand_finish: "i \<in># testing h \<Longrightarrow> hand_step h (h\<lparr>testing := testing h - {#i#}, tested := tested h @ [i]\<rparr>)"

definition hand_start :: hand where
  "hand_start = \<lparr>nxt = LEFT, slot = None, testing = {#}, tested = []\<rparr>"

definition hand_inv :: "hand \<Rightarrow> bool" where
  "hand_inv h \<longleftrightarrow> LEFT \<le> nxt h \<and> nxt h \<le> RIGHT + 1 \<and>
     mset (tested h) + testing h + (case slot h of None \<Rightarrow> {#} | Some i \<Rightarrow> {#i#}) = mset [LEFT..<nxt h]"

lemma hand_inv_start: "hand_inv hand_start"
  by (simp add: hand_inv_def hand_start_def LEFT_def RIGHT_def)

lemma hand_inv_step: "hand_step h h' \<Longrightarrow> hand_inv h \<Longrightarrow> hand_inv h'"
proof (induction rule: hand_step.induct)
  case (hand_put h)
  then have "mset [LEFT..<Suc (nxt h)] = mset [LEFT..<nxt h] + {#nxt h#}" by (simp add: hand_inv_def)
  with hand_put show ?case by (simp add: hand_inv_def del: upt_Suc)
next
  case (hand_finish i h)
  then have "mset (tested h) + {#i#} + (testing h - {#i#}) = mset (tested h) + testing h" by simp
  with hand_finish show ?case by (simp add: hand_inv_def)
qed (auto simp: hand_inv_def)

text \<open>
  A program refines the hand-over if each of its steps is a step of the hand-over or changes nothing of it. Then
  a program that has given out all numbers and holds none of them has tested each exactly once.
\<close>

locale hands_over =
  fixes step :: "'s \<Rightarrow> 's \<Rightarrow> bool"
    and start :: 's
    and inv :: "'s \<Rightarrow> bool"
    and view :: "'s \<Rightarrow> hand"
  assumes start_inv: "inv start"
    and start_view: "view start = hand_start"
    and step_inv: "step s s' \<Longrightarrow> inv s \<Longrightarrow> inv s'"
    and step_view: "step s s' \<Longrightarrow> inv s \<Longrightarrow> hand_step (view s) (view s') \<or> view s' = view s"
begin

lemma reach_inv: "step\<^sup>*\<^sup>* start s \<Longrightarrow> inv s \<and> hand_step\<^sup>*\<^sup>* hand_start (view s)"
proof (induction rule: rtranclp_induct)
  case base
  then show ?case using start_inv start_view by simp
next
  case (step s s')
  then show ?case using step_inv [OF step(2)] step_view [OF step(2)] by (auto intro: rtranclp.rtrancl_into_rtrancl)
qed

lemma reach_hand: "step\<^sup>*\<^sup>* start s \<Longrightarrow> hand_inv (view s)"
proof -
  assume "step\<^sup>*\<^sup>* start s"
  then have "hand_step\<^sup>*\<^sup>* hand_start (view s)" using reach_inv by blast
  then show ?thesis by (induction rule: rtranclp_induct) (auto intro: hand_inv_start hand_inv_step)
qed

lemma all_tested_once:
  assumes "step\<^sup>*\<^sup>* start s" "nxt (view s) = RIGHT + 1" "slot (view s) = None" "testing (view s) = {#}"
  shows "mset (tested (view s)) = mset [LEFT..<RIGHT + 1]"
  using reach_hand [OF assms(1)] assms(2-4) by (simp add: hand_inv_def)

end

section \<open>The programs\<close>

definition THRNUM :: nat where "THRNUM = 4"

text \<open>
  \<open>main\<close> is about to hand over a number, waits to do so, is about to set the end mark, joins, or has left. A
  thread is about to fetch a number, waits for one, tests one, or has left.
\<close>

datatype pp_main = Put nat | Put_wait nat | End | Join | Left
datatype pp_thread = Fetch | Fetch_wait | Test nat | Done

text \<open>The shared variable, the numbers tested and those printed.\<close>

record pp =
  num :: int
  log :: "nat list"
  out :: "nat list"

type_synonym pp_state = "pp_main \<times> pp_thread list \<times> pp"

text \<open>\<^verbatim>\<open>for (j = 2; j <= i / 2; j++)\<close> and the output.\<close>

definition pp_test :: "nat \<Rightarrow> pp \<Rightarrow> pp" where
  "pp_test i s = s\<lparr>log := log s @ [i], out := out s @ (if no_divisor i (i div 2 + 1) 2 then [i] else [])\<rparr>"

text \<open>The loop of \<open>main\<close> after the number \<open>i\<close> has been handed over.\<close>

definition next_put :: "nat \<Rightarrow> pp_main" where
  "next_put i = (if i < RIGHT then Put (i + 1) else End)"

text \<open>
  \<open>primer_pool_busy.c\<close>: a thread that finds \<open>num\<close> unsuitable releases the mutex and tries again, which changes nothing
  (\<open>None\<close>).
\<close>

fun busy_main :: "pp_main \<Rightarrow> pp_thread list \<Rightarrow> pp \<Rightarrow> (pp_main \<times> pp) option" where
  "busy_main (Put i) ts s = (if num s \<noteq> 0 then None else Some (next_put i, s\<lparr>num := int i\<rparr>))"
| "busy_main End ts s = (if num s \<noteq> 0 then None else Some (Join, s\<lparr>num := -1\<rparr>))"
| "busy_main Join ts s = (if \<forall>t \<in> set ts. t = Done then Some (Left, s) else None)"
| "busy_main m ts s = None"

fun busy_thread :: "pp_thread \<Rightarrow> pp \<Rightarrow> (pp_thread \<times> pp) option" where
  "busy_thread Fetch s = (if num s = 0 then None else if num s = -1 then Some (Done, s) else Some (Test (nat (num s)), s\<lparr>num := 0\<rparr>))"
| "busy_thread (Test i) s = Some (Fetch, pp_test i s)"
| "busy_thread t s = None"

inductive busy_step :: "pp_state \<Rightarrow> pp_state \<Rightarrow> bool" where
  busy_by_main: "busy_main m ts s = Some (m', s') \<Longrightarrow> busy_step (m, ts, s) (m', ts, s')"
| busy_by_thread: "k < length ts \<Longrightarrow> busy_thread (ts ! k) s = Some (t, s') \<Longrightarrow> busy_step (m, ts, s) (m, ts[k := t], s')"

definition pp_start :: pp_state where
  "pp_start = (Put LEFT, replicate THRNUM Fetch, \<lparr>num = 0, log = [], out = []\<rparr>)"

text \<open>
  \<open>primer_pool_notice.c\<close>: both sides wait on the one condition variable \<open>cond_num\<close>. \<open>main\<close> signals a new number and
  broadcasts the end mark (for which it polls); a thread that has taken a number broadcasts.
\<close>

fun notice_main :: "pp_main \<Rightarrow> pp_thread list \<Rightarrow> pp \<Rightarrow> (pp_main \<times> pp \<times> bool option) option" where
  "notice_main (Put i) ts s = (if num s \<noteq> 0 then Some (Put_wait i, s, None) else Some (next_put i, s\<lparr>num := int i\<rparr>, Some False))"
| "notice_main End ts s = (if num s \<noteq> 0 then None else Some (Join, s\<lparr>num := -1\<rparr>, Some True))"
| "notice_main Join ts s = (if \<forall>t \<in> set ts. t = Done then Some (Left, s, None) else None)"
| "notice_main m ts s = None"

text \<open>The third component tells of no signal, a signal (\<open>Some False\<close>) or a broadcast (\<open>Some True\<close>).\<close>

fun notice_thread :: "pp_thread \<Rightarrow> pp \<Rightarrow> (pp_thread \<times> pp \<times> bool option) option" where
  "notice_thread Fetch s =
     (if num s = 0 then Some (Fetch_wait, s, None)
      else if num s = -1 then Some (Done, s, None)
      else Some (Test (nat (num s)), s\<lparr>num := 0\<rparr>, Some True))"
| "notice_thread (Test i) s = Some (Fetch, pp_test i s, None)"
| "notice_thread t s = None"

fun wake_main :: "pp_main \<Rightarrow> pp_main" where
  "wake_main (Put_wait i) = Put i"
| "wake_main m = m"

abbreviation pp_waits :: "pp_thread \<Rightarrow> bool" where
  "pp_waits t \<equiv> t = Fetch_wait"

abbreviation pp_woken :: "pp_thread \<Rightarrow> pp_thread" where
  "pp_woken t \<equiv> Fetch"

text \<open>
  A signal wakes one of the threads that wait, \<open>main\<close> among them if it waits; a broadcast wakes all.
\<close>

inductive pp_notify :: "bool option \<Rightarrow> pp_main \<times> pp_thread list \<Rightarrow> pp_main \<times> pp_thread list \<Rightarrow> bool" where
  silent: "pp_notify None (m, ts) (m, ts)"
| signal_thread: "signalled pp_waits pp_woken ts ts' \<Longrightarrow> (\<forall>t \<in> set ts. \<not> pp_waits t) \<longrightarrow> wake_main m = m \<Longrightarrow>
    pp_notify (Some False) (m, ts) (m, ts')"
| signal_main: "pp_notify (Some False) (m, ts) (wake_main m, ts)" if "wake_main m \<noteq> m"
| all: "pp_notify (Some True) (m, ts) (wake_main m, broadcast pp_waits pp_woken ts)"

inductive notice_step :: "pp_state \<Rightarrow> pp_state \<Rightarrow> bool" where
  notice_by_main: "notice_main m ts s = Some (m', s', n) \<Longrightarrow> pp_notify n (m', ts) (m'', ts') \<Longrightarrow>
    notice_step (m, ts, s) (m'', ts', s')"
| notice_by_thread: "k < length ts \<Longrightarrow> notice_thread (ts ! k) s = Some (t, s', n) \<Longrightarrow> pp_notify n (m, ts[k := t]) (m', ts') \<Longrightarrow>
    notice_step (m, ts, s) (m', ts', s')"

section \<open>Both refine the hand-over\<close>

fun next_of :: "pp_main \<Rightarrow> nat" where
  "next_of (Put i) = i"
| "next_of (Put_wait i) = i"
| "next_of m = RIGHT + 1"

fun in_test :: "pp_thread \<Rightarrow> nat multiset" where
  "in_test (Test i) = {#i#}"
| "in_test t = {#}"

definition pp_view :: "pp_state \<Rightarrow> hand" where
  "pp_view st = (case st of (m, ts, s) \<Rightarrow>
     \<lparr>nxt = next_of m, slot = (if num s \<le> 0 then None else Some (nat (num s))), testing = sum_list (map in_test ts), tested = log s\<rparr>)"

text \<open>
  \<open>num\<close> is the end mark exactly when \<open>main\<close> has set it; threads leave only then; what is printed are the primes
  among the numbers tested.
\<close>

definition pp_inv :: "pp_state \<Rightarrow> bool" where
  "pp_inv st \<longleftrightarrow> (case st of (m, ts, s) \<Rightarrow> length ts = THRNUM \<and> -1 \<le> num s \<and> (num s = -1 \<longleftrightarrow> m = Join \<or> m = Left) \<and>
     (Done \<in> set ts \<longrightarrow> num s = -1) \<and> (m = Left \<longrightarrow> (\<forall>t \<in> set ts. t = Done)) \<and>
     LEFT \<le> next_of m \<and> next_of m \<le> RIGHT + 1 \<and> (m \<noteq> End \<and> m \<noteq> Join \<and> m \<noteq> Left \<longrightarrow> next_of m \<le> RIGHT) \<and>
     (\<forall>t \<in> set ts. \<forall>i. t = Test i \<longrightarrow> 2 \<le> i) \<and> (0 < num s \<longrightarrow> 2 \<le> num s) \<and>
     out s = filter is_prime (log s))"

lemma in_test_upd: "k < length ts \<Longrightarrow> sum_list (map in_test (ts[k := t])) + in_test (ts ! k) = sum_list (map in_test ts) + in_test t"
  by (rule sum_list_upd)

lemma in_test_member: "t \<in> set ts \<Longrightarrow> in_test t \<subseteq># sum_list (map in_test ts)"
  by (induction ts) (auto simp: subset_mset.add_increasing subset_mset.add_increasing2)

lemma pp_inv_main_moves:
  assumes "pp_inv (m, ts, s)" "busy_main m ts s = Some (m', s')"
  shows "pp_inv (m', ts, s') \<and> (hand_step (pp_view (m, ts, s)) (pp_view (m', ts, s')) \<or> pp_view (m', ts, s') = pp_view (m, ts, s))"
proof (cases m)
  case (Put i)
  with assms have n: "num s = 0" "m' = next_put i" "s' = s\<lparr>num := int i\<rparr>" "LEFT \<le> i" "i \<le> RIGHT" by (auto simp: pp_inv_def split: if_splits)
  then have pos: "2 \<le> i" "next_of (next_put i) = i + 1" by (auto simp: LEFT_def next_put_def)
  have "pp_view (m', ts, s') = (pp_view (m, ts, s))\<lparr>slot := Some i, nxt := i + 1\<rparr>"
    using n pos Put by (simp add: pp_view_def)
  moreover have "slot (pp_view (m, ts, s)) = None" "nxt (pp_view (m, ts, s)) = i" using n Put by (simp_all add: pp_view_def)
  ultimately have "hand_step (pp_view (m, ts, s)) (pp_view (m', ts, s'))" using hand_put [of "pp_view (m, ts, s)"] n(5) by simp
  moreover have "pp_inv (m', ts, s')" using assms(1) n pos Put by (auto simp: pp_inv_def next_put_def split: if_splits)
  ultimately show ?thesis by blast
qed (use assms in \<open>auto simp: pp_inv_def pp_view_def split: if_splits\<close>)

lemma test_ok: "2 \<le> i \<Longrightarrow> out s = filter is_prime (log s) \<Longrightarrow> out (pp_test i s) = filter is_prime (log (pp_test i s))"
  using full_trial_prime [of i] by (simp add: pp_test_def)

lemma pp_test_num [simp]: "num (pp_test i s) = num s" "log (pp_test i s) = log s @ [i]"
  by (simp_all add: pp_test_def)

lemma set_upd_mem: "t \<in> set (ts[k := u]) \<Longrightarrow> t = u \<or> t \<in> set ts"
  using set_update_subset_insert [of ts k u] by auto

lemma pp_inv_thread_moves:
  assumes "pp_inv (m, ts, s)" "k < length ts" "busy_thread (ts ! k) s = Some (t, s')"
  shows "pp_inv (m, ts[k := t], s') \<and>
    (hand_step (pp_view (m, ts, s)) (pp_view (m, ts[k := t], s')) \<or> pp_view (m, ts[k := t], s') = pp_view (m, ts, s))"
proof -
  have mem: "ts ! k \<in> set ts" using assms(2) by simp
  have nl: "m \<noteq> Left"
  proof
    assume "m = Left"
    then have "ts ! k = Done" using assms(1) mem by (simp add: pp_inv_def)
    with assms(3) show False by simp
  qed
  note u = in_test_upd [OF assms(2), of t]
  show ?thesis
  proof (cases "ts ! k")
    case Fetch
    show ?thesis
    proof (cases "num s = -1")
      case True
      with Fetch assms have t: "t = Done" "s' = s" by (auto split: if_splits)
      then have "pp_inv (m, ts[k := t], s')" using assms(1) True nl by (auto simp: pp_inv_def dest!: set_upd_mem)
      moreover have "pp_view (m, ts[k := t], s') = pp_view (m, ts, s)" using u Fetch t by (simp add: pp_view_def)
      ultimately show ?thesis by blast
    next
      case False
      then have t: "t = Test (nat (num s))" "s' = s\<lparr>num := 0\<rparr>" "0 < num s" "2 \<le> num s"
        using Fetch assms(1,3) by (auto simp: pp_inv_def split: if_splits)
      then have "pp_inv (m, ts[k := t], s')" using assms(1) nl by (auto simp: pp_inv_def dest!: set_upd_mem)
      moreover have "slot (pp_view (m, ts, s)) = Some (nat (num s))" using t by (simp add: pp_view_def)
      moreover have "pp_view (m, ts[k := t], s') = (pp_view (m, ts, s))\<lparr>slot := None, testing := testing (pp_view (m, ts, s)) + {#nat (num s)#}\<rparr>"
        using u Fetch t by (simp add: pp_view_def)
      ultimately show ?thesis using hand_take [of "pp_view (m, ts, s)"] by simp
    qed
  next
    case (Test i)
    then have t: "t = Fetch" "s' = pp_test i s" "2 \<le> i" using assms(1,3) mem by (auto simp: pp_inv_def)
    then have "pp_inv (m, ts[k := t], s')" using assms(1) nl test_ok [of i s] by (auto simp: pp_inv_def dest!: set_upd_mem)
    moreover have "i \<in># testing (pp_view (m, ts, s))" using in_test_member [OF mem] Test by (simp add: pp_view_def)
    moreover have "sum_list (map in_test (ts[k := t])) = sum_list (map in_test ts) - {#i#}" using u Test t by (metis add_diff_cancel_right' add.right_neutral in_test.simps(1,2))
    then have "pp_view (m, ts[k := t], s') = (pp_view (m, ts, s))\<lparr>testing := testing (pp_view (m, ts, s)) - {#i#}, tested := tested (pp_view (m, ts, s)) @ [i]\<rparr>"
      using t by (simp add: pp_view_def)
    ultimately show ?thesis using hand_finish [of i "pp_view (m, ts, s)"] by simp
  qed (use assms in auto)
qed

lemma pp_inv_start: "pp_inv pp_start" "pp_view pp_start = hand_start"
proof -
  have "sum_list (map in_test (replicate n Fetch)) = {#}" for n by (induction n) simp_all
  then show "pp_view pp_start = hand_start" by (simp add: pp_view_def pp_start_def hand_start_def)
  show "pp_inv pp_start" by (simp add: pp_inv_def pp_start_def THRNUM_def LEFT_def RIGHT_def)
qed

lemma busy_step_ok:
  "busy_step st st' \<Longrightarrow> pp_inv st \<Longrightarrow> pp_inv st' \<and> (hand_step (pp_view st) (pp_view st') \<or> pp_view st' = pp_view st)"
  by (induction rule: busy_step.induct) (simp_all add: pp_inv_main_moves pp_inv_thread_moves)

interpretation busy: hands_over busy_step pp_start pp_inv pp_view
  by unfold_locales (use pp_inv_start busy_step_ok in blast)+

lemma pp_notify_ok:
  assumes "pp_notify n (m, ts) (m', ts')"
  shows "(m' = m \<or> m' = wake_main m) \<and> length ts' = length ts \<and> sum_list (map in_test ts') = sum_list (map in_test ts) \<and>
    (\<forall>t \<in> set ts'. t \<in> set ts \<or> t = Fetch \<and> Fetch_wait \<in> set ts)"
proof -
  have s: "length us' = length us \<and> sum_list (map in_test us') = sum_list (map in_test us) \<and> (\<forall>t \<in> set us'. t \<in> set us \<or> t = Fetch \<and> Fetch_wait \<in> set us)"
    if "signalled pp_waits pp_woken us us'" for us us'
    using that
  proof (induction rule: signalled.induct)
    case (somebody j ws)
    then show ?case using in_test_upd [of j ws Fetch] nth_mem [of j ws] by (auto dest!: set_upd_mem)
  qed simp
  have "map in_test (broadcast pp_waits pp_woken ts) = map in_test ts" by (auto simp: broadcast_def)
  then have "sum_list (map in_test (broadcast pp_waits pp_woken ts)) = sum_list (map in_test ts)" by (simp only:)
  then have b: "length (broadcast pp_waits pp_woken ts) = length ts \<and> sum_list (map in_test (broadcast pp_waits pp_woken ts)) = sum_list (map in_test ts) \<and>
      (\<forall>t \<in> set (broadcast pp_waits pp_woken ts). t \<in> set ts \<or> t = Fetch \<and> Fetch_wait \<in> set ts)"
    by (auto simp: broadcast_def)
  show ?thesis using assms
    by (cases rule: pp_notify.cases) (use s b in auto)
qed

lemma wake_main_simps [simp]:
  "next_of (wake_main m) = next_of m" "wake_main m = End \<longleftrightarrow> m = End" "wake_main m = Join \<longleftrightarrow> m = Join" "wake_main m = Left \<longleftrightarrow> m = Left"
  by (cases m; simp)+

lemma pp_notify_inv:
  assumes "pp_notify n (m, ts) (m', ts')" "pp_inv (m, ts, s)"
  shows "pp_inv (m', ts', s) \<and> pp_view (m', ts', s) = pp_view (m, ts, s)"
proof -
  note o = pp_notify_ok [OF assms(1)]
  then have m: "next_of m' = next_of m" "m' = End \<longleftrightarrow> m = End" "m' = Join \<longleftrightarrow> m = Join" "m' = Left \<longleftrightarrow> m = Left" by auto
  have "Done \<in> set ts' \<Longrightarrow> Done \<in> set ts" using o by auto
  moreover have "\<forall>t \<in> set ts'. t = Done" if "\<forall>t \<in> set ts. t = Done" using that o by blast
  moreover have "Test i \<in> set ts'  \<Longrightarrow> Test i \<in> set ts" for i using o by auto
  ultimately show ?thesis using assms(2) o m by (auto simp: pp_inv_def pp_view_def)
qed

text \<open>A step of the waiting version is a step of the polling version and a notification, or someone goes to sleep.\<close>

lemma notice_main_cases:
  "notice_main m ts s = Some (m', s', n) \<Longrightarrow>
   busy_main m ts s = Some (m', s') \<or> (\<exists>i. m = Put i \<and> m' = Put_wait i \<and> s' = s \<and> n = None \<and> num s \<noteq> 0)"
  by (cases "(m, ts, s)" rule: notice_main.cases) (auto split: if_splits)

lemma notice_thread_cases:
  "notice_thread t s = Some (t', s', n) \<Longrightarrow>
   busy_thread t s = Some (t', s') \<or> t = Fetch \<and> t' = Fetch_wait \<and> s' = s \<and> n = None \<and> num s = 0"
  by (cases "(t, s)" rule: notice_thread.cases) (auto split: if_splits)

lemma notice_step_ok:
  "notice_step st st' \<Longrightarrow> pp_inv st \<Longrightarrow> pp_inv st' \<and> (hand_step (pp_view st) (pp_view st') \<or> pp_view st' = pp_view st)"
proof (induction rule: notice_step.induct)
  case (notice_by_main m ts s m' s' n m'' ts')
  from notice_main_cases [OF notice_by_main(1)] show ?case
  proof
    assume "busy_main m ts s = Some (m', s')"
    with pp_inv_main_moves [OF notice_by_main(3)] pp_notify_inv [OF notice_by_main(2), of s'] show ?thesis by metis
  next
    assume "\<exists>i. m = Put i \<and> m' = Put_wait i \<and> s' = s \<and> n = None \<and> num s \<noteq> 0"
    with notice_by_main(2,3) show ?thesis by (auto simp: pp_inv_def pp_view_def elim!: pp_notify.cases)
  qed
next
  case (notice_by_thread k ts s t s' n m m' ts')
  from notice_thread_cases [OF notice_by_thread(2)] show ?case
  proof
    assume "busy_thread (ts ! k) s = Some (t, s')"
    with pp_inv_thread_moves [OF notice_by_thread(4,1)] pp_notify_inv [OF notice_by_thread(3), of s'] show ?thesis by metis
  next
    assume a: "ts ! k = Fetch \<and> t = Fetch_wait \<and> s' = s \<and> n = None \<and> num s = 0"
    then have t: "m' = m" "ts' = ts[k := Fetch_wait]" using notice_by_thread(3) by (auto elim: pp_notify.cases)
    have "pp_view (m, ts[k := Fetch_wait], s) = pp_view (m, ts, s)" using in_test_upd [OF notice_by_thread(1), of Fetch_wait] a by (simp add: pp_view_def)
    moreover have "pp_inv (m, ts[k := Fetch_wait], s)"
      using notice_by_thread(4) a by (auto simp: pp_inv_def dest!: set_upd_mem)
    ultimately show ?thesis using a t by simp
  qed
qed

interpretation notice: hands_over notice_step pp_start pp_inv pp_view
  by unfold_locales (use pp_inv_start notice_step_ok in blast)+

lemma left_idle:
  assumes "pp_inv (Left, ts, s)"
  shows "nxt (pp_view (Left, ts, s)) = RIGHT + 1" "slot (pp_view (Left, ts, s)) = None" "testing (pp_view (Left, ts, s)) = {#}"
    and "out s = filter is_prime (tested (pp_view (Left, ts, s)))"
proof -
  have "\<forall>t \<in> set ts. t = Done" using assms by (simp add: pp_inv_def)
  then have "sum_list (map in_test ts) = {#}" by (induction ts) auto
  with assms show "nxt (pp_view (Left, ts, s)) = RIGHT + 1" "slot (pp_view (Left, ts, s)) = None" "testing (pp_view (Left, ts, s)) = {#}"
      "out s = filter is_prime (tested (pp_view (Left, ts, s)))"
    by (auto simp: pp_inv_def pp_view_def)
qed

text \<open>
  C31: Both prime pools refine the abstract hand-over: in every state that \<open>primer_pool_busy.c\<close> or
  \<open>primer_pool_notice.c\<close> reaches, each further step hands over a number, takes it or finishes it as the hand-over allows,
  or changes nothing of it.
\<close>

theorem prime_pools_refine:
  assumes "busy_step\<^sup>*\<^sup>* pp_start st \<and> busy_step st st' \<or> notice_step\<^sup>*\<^sup>* pp_start st \<and> notice_step st st'"
  shows "hand_step\<^sup>*\<^sup>* hand_start (pp_view st) \<and> (hand_step (pp_view st) (pp_view st') \<or> pp_view st' = pp_view st)"
  using assms busy.reach_inv [of st] notice.reach_inv [of st] busy_step_ok [of st st'] notice_step_ok [of st st'] by blast

text \<open>
  When \<open>main\<close> of either pool leaves, the threads have printed exactly the primes between \<open>LEFT\<close> and \<open>RIGHT\<close>,
  each once, however the threads interleaved.
\<close>

theorem prime_pools_print_primes:
  assumes "busy_step\<^sup>*\<^sup>* pp_start (Left, ts, s) \<or> notice_step\<^sup>*\<^sup>* pp_start (Left, ts, s)"
  shows "mset (out s) = mset (filter is_prime [LEFT..<RIGHT + 1])"
proof -
  have i: "pp_inv (Left, ts, s)" using assms busy.reach_inv notice.reach_inv by blast
  note l = left_idle [OF i]
  have "mset (tested (pp_view (Left, ts, s))) = mset [LEFT..<RIGHT + 1]"
    using assms busy.all_tested_once [OF _ l(1-3)] notice.all_tested_once [OF _ l(1-3)] by blast
  then show ?thesis using l(4) by (simp del: upt_Suc)
qed

section \<open>The waiting version always ends\<close>

text \<open>
  While \<open>main\<close> waits \<open>num\<close> is a number; while a number is there and a thread waits, some thread is awake to fetch it; after
  the end mark nobody waits.
\<close>

definition awake_ok :: "pp_state \<Rightarrow> bool" where
  "awake_ok st \<longleftrightarrow> (case st of (m, ts, s) \<Rightarrow> (\<forall>i. m = Put_wait i \<longrightarrow> 0 < num s) \<and>
     covered pp_waits (\<lambda>t. t = Fetch) (if 0 < num s then 1 else 0) ts \<and> (num s = -1 \<longrightarrow> Fetch_wait \<notin> set ts))"

lemma broadcast_no_wait: "Fetch_wait \<notin> set (broadcast pp_waits pp_woken ts)"
  by (auto simp: broadcast_def)

lemma next_put_no_wait: "next_put i \<noteq> Put_wait j"
  by (simp add: next_put_def)

lemma awake_main:
  assumes "pp_inv (m, ts, s)" "awake_ok (m, ts, s)" "notice_main m ts s = Some (m', s', n)" "pp_notify n (m', ts) (m'', ts')"
  shows "awake_ok (m'', ts', s')"
proof (cases m)
  case (Put i)
  show ?thesis
  proof (cases "num s = 0")
    case True
    then have e: "m' = next_put i" "s' = s\<lparr>num := int i\<rparr>" "n = Some False" "2 \<le> i"
      using Put assms(1,3) by (auto simp: pp_inv_def LEFT_def)
    then have sg: "signalled pp_waits pp_woken ts ts'" "m'' = m'" using assms(4) by (auto simp: next_put_def elim!: pp_notify.cases split: if_splits)
    have "covered pp_waits (\<lambda>t. t = Fetch) (Suc 0) ts'" by (rule covered_signal [OF sg(1)]) auto
    with e sg(2) show ?thesis by (simp add: awake_ok_def next_put_no_wait)
  next
    case False
    then have "m' = Put_wait i" "s' = s" "n = None" "0 < num s" using Put assms(1,3) by (auto simp: pp_inv_def)
    with assms(2,4) show ?thesis by (auto simp: awake_ok_def elim: pp_notify.cases)
  qed
next
  case End
  with assms(3) have e: "m' = Join" "s' = s\<lparr>num := -1\<rparr>" "n = Some True" by (auto split: if_splits)
  with assms(4) have "m'' = Join" "ts' = broadcast pp_waits pp_woken ts" by (auto elim: pp_notify.cases)
  with e show ?thesis by (simp add: awake_ok_def broadcast_no_wait)
next
  case Join
  with assms show ?thesis by (auto simp: awake_ok_def elim!: pp_notify.cases split: if_splits)
qed (use assms in simp_all)

lemma awake_thread:
  assumes "pp_inv (m, ts, s)" "awake_ok (m, ts, s)" "k < length ts" "notice_thread (ts ! k) s = Some (t, s', n)"
    and "pp_notify n (m, ts[k := t]) (m', ts')"
  shows "awake_ok (m', ts', s')"
proof (cases "ts ! k")
  case Fetch
  consider "num s = 0" | "num s = -1" | "0 < num s" using assms(1) by (auto simp: pp_inv_def)
  then show ?thesis
  proof cases
    case 1
    with Fetch assms have "m' = m" "ts' = ts[k := Fetch_wait]" "s' = s" by (auto elim!: pp_notify.cases)
    with 1 assms(2) show ?thesis by (simp add: awake_ok_def)
  next
    case 2
    with Fetch assms have "m' = m" "ts' = ts[k := Done]" "s' = s" by (auto elim!: pp_notify.cases)
    with 2 assms(2) show ?thesis by (auto simp: awake_ok_def dest!: set_upd_mem)
  next
    case 3
    with Fetch assms(4) have e: "t = Test (nat (num s))" "s' = s\<lparr>num := 0\<rparr>" "n = Some True" by auto
    with assms(5) have "m' = wake_main m" by (auto elim: pp_notify.cases)
    moreover have "wake_main m \<noteq> Put_wait i" for i by (cases m) simp_all
    ultimately show ?thesis using e by (simp add: awake_ok_def)
  qed
next
  case (Test i)
  with assms(4,5) have e: "t = Fetch" "s' = pp_test i s" "m' = m" "ts' = ts[k := Fetch]" by (auto elim!: pp_notify.cases)
  have "covered pp_waits (\<lambda>t. t = Fetch) (if 0 < num s then 1 else 0) (ts[k := Fetch])"
    using assms(2,3) by (intro covered_move) (auto simp: awake_ok_def)
  with e assms(2) show ?thesis by (auto simp: awake_ok_def dest!: set_upd_mem)
qed (use assms in simp_all)

lemma awake_reach: "notice_step\<^sup>*\<^sup>* pp_start st \<Longrightarrow> pp_inv st \<and> awake_ok st"
proof (induction rule: rtranclp_induct)
  case base
  then show ?case using pp_inv_start(1) by (simp add: awake_ok_def pp_start_def)
next
  case (step st st')
  from step(2) have "awake_ok st'"
  proof cases
    case (notice_by_main m ts s m' s' n m'' ts')
    with step(3) awake_main show ?thesis by blast
  next
    case (notice_by_thread k ts s t s' n m m' ts')
    with step(3) awake_thread show ?thesis by blast
  qed
  with step(3) notice_step_ok [OF step(2)] show ?case by blast
qed

text \<open>A weight that every step lowers.\<close>

fun phase :: "pp_main \<Rightarrow> nat" where
  "phase (Put i) = 21"
| "phase (Put_wait i) = 20"
| "phase End = 10"
| "phase Join = 1"
| "phase Left = 0"

fun is_test :: "pp_thread \<Rightarrow> bool" where
  "is_test (Test i) = True"
| "is_test t = False"

definition weight :: "pp_state \<Rightarrow> nat" where
  "weight st = (case st of (m, ts, s) \<Rightarrow> 40 * (RIGHT + 1 - next_of m) + (if 0 < num s then 30 else 0) +
     10 * number is_test ts + number (\<lambda>t. t = Fetch) ts + phase m)"

lemma broadcast_number:
  assumes "length ts = THRNUM"
  shows "number is_test (broadcast pp_waits pp_woken ts) = number is_test ts" "number (\<lambda>t. t = Fetch) (broadcast pp_waits pp_woken ts) \<le> 4"
proof -
  show "number is_test (broadcast pp_waits pp_woken ts) = number is_test ts"
    by (induction ts) (auto simp: number_def broadcast_def)
  show "number (\<lambda>t. t = Fetch) (broadcast pp_waits pp_woken ts) \<le> 4"
    using number_le [of "\<lambda>t. t = Fetch" "broadcast pp_waits pp_woken ts"] assms by (simp add: broadcast_def THRNUM_def)
qed

lemma weight_main:
  assumes "pp_inv (m, ts, s)" "notice_main m ts s = Some (m', s', n)" "pp_notify n (m', ts) (m'', ts')"
  shows "weight (m'', ts', s') < weight (m, ts, s)"
proof (cases m)
  case (Put i)
  have r: "i \<le> RIGHT" using assms(1) Put by (simp add: pp_inv_def)
  show ?thesis
  proof (cases "num s = 0")
    case True
    then have e: "m' = next_put i" "s' = s\<lparr>num := int i\<rparr>" "n = Some False" using Put assms(2) by auto
    then have sg: "signalled pp_waits pp_woken ts ts'" "m'' = next_put i" using assms(3) by (auto simp: next_put_def elim!: pp_notify.cases split: if_splits)
    from sg(1) have "number is_test ts' = number is_test ts \<and> number (\<lambda>t. t = Fetch) ts' \<le> Suc (number (\<lambda>t. t = Fetch) ts)"
    proof (induction rule: signalled.induct)
      case (somebody j ws)
      then show ?case using number_upd [of j ws is_test Fetch] number_upd [of j ws "\<lambda>t. t = Fetch" Fetch] by simp
    qed simp
    with r e sg(2) Put True show ?thesis by (auto simp: weight_def next_put_def)
  next
    case False
    then have "m' = Put_wait i" "s' = s" "n = None" using Put assms(2) by auto
    with Put assms(3) show ?thesis by (auto simp: weight_def elim: pp_notify.cases)
  qed
next
  case End
  with assms(2) have e: "m' = Join" "s' = s\<lparr>num := -1\<rparr>" "n = Some True" by (auto split: if_splits)
  with assms(3) have "m'' = Join" "ts' = broadcast pp_waits pp_woken ts" by (auto elim: pp_notify.cases)
  with e End broadcast_number [of ts] assms(1) show ?thesis by (simp add: weight_def pp_inv_def)
next
  case Join
  with assms show ?thesis by (auto simp: weight_def elim!: pp_notify.cases split: if_splits)
qed (use assms in simp_all)

lemma weight_thread:
  assumes "pp_inv (m, ts, s)" "k < length ts" "notice_thread (ts ! k) s = Some (t, s', n)" "pp_notify n (m, ts[k := t]) (m', ts')"
  shows "weight (m', ts', s') < weight (m, ts, s)"
proof -
  note u = number_upd [OF assms(2), of is_test t] number_upd [OF assms(2), of "\<lambda>t. t = Fetch" t]
  show ?thesis
  proof (cases "ts ! k")
    case Fetch
    show ?thesis
    proof (cases "0 < num s")
      case True
      with Fetch assms(3) have e: "t = Test (nat (num s))" "s' = s\<lparr>num := 0\<rparr>" "n = Some True" by auto
      with assms(4) have "m' = wake_main m" "ts' = broadcast pp_waits pp_woken (ts[k := t])" by (auto elim: pp_notify.cases)
      moreover have "phase (wake_main m) \<le> Suc (phase m)" by (cases m) simp_all
      ultimately show ?thesis using u e Fetch True broadcast_number [of "ts[k := t]"] assms(1) by (simp add: weight_def pp_inv_def)
    next
      case False
      with Fetch assms(1,3) have "s' = s" "n = None" "t \<noteq> Fetch" "\<not> is_test t" by (auto simp: pp_inv_def split: if_splits)
      with u Fetch assms(4) show ?thesis by (auto simp: weight_def elim: pp_notify.cases)
    qed
  next
    case (Test i)
    with assms(3) have "s' = pp_test i s" "n = None" "t = Fetch" by auto
    with u Test assms(4) show ?thesis by (auto simp: weight_def elim!: pp_notify.cases)
  qed (use assms in simp_all)
qed

lemma weight_step: "notice_step st st' \<Longrightarrow> pp_inv st \<Longrightarrow> weight st' < weight st"
  by (induction rule: notice_step.induct) (auto intro: weight_main weight_thread)

lemma weight_bound: "(notice_step ^^ k) pp_start st \<Longrightarrow> pp_inv st \<and> k + weight st \<le> weight pp_start"
proof (induction k arbitrary: st)
  case 0
  then show ?case using pp_inv_start(1) by simp
next
  case (Suc k)
  then obtain st1 where "(notice_step ^^ k) pp_start st1" "notice_step st1 st" by auto
  with Suc.IH [of st1] weight_step [of st1 st] notice_step_ok [of st1 st] show ?case by auto
qed

lemma pp_notify_ex: "\<exists>m' ts'. pp_notify n (m, ts) (m', ts')"
proof -
  consider "n = None" | "n = Some True" | "n = Some False" "wake_main m = m" | "n = Some False" "wake_main m \<noteq> m" by (cases n) auto
  then show ?thesis
  proof cases
    case 3
    obtain ts' where "signalled pp_waits pp_woken ts ts'" using signalled_ex [of pp_waits pp_woken ts] by blast
    with 3 show ?thesis using signal_thread [of ts ts' m] by blast
  qed (use silent all signal_main in blast)+
qed

lemma notice_stuck:
  assumes "pp_inv (m, ts, s)" "awake_ok (m, ts, s)" "\<nexists>st. notice_step (m, ts, s) st"
  shows "m = Left"
proof -
  have mn: "notice_main m ts s = None"
  proof (rule ccontr)
    assume "notice_main m ts s \<noteq> None"
    then obtain m' s' n where "notice_main m ts s = Some (m', s', n)" by auto
    with notice_by_main pp_notify_ex [of n m' ts] assms(3) show False by metis
  qed
  have tn: "notice_thread t s = None" if mem: "t \<in> set ts" for t
  proof (rule ccontr)
    assume "notice_thread t s \<noteq> None"
    moreover obtain k where "k < length ts" "ts ! k = t" using mem by (auto simp: in_set_conv_nth)
    ultimately obtain t' s' n where "k < length ts" "notice_thread (ts ! k) s = Some (t', s', n)" by auto
    with notice_by_thread pp_notify_ex [of n m "ts[k := t']"] assms(3) show False by metis
  qed
  have w: "t = Fetch_wait \<or> t = Done" if "t \<in> set ts" for t using tn [OF that] by (cases t) (auto split: if_splits)
  then have z: "number (\<lambda>t. t = Fetch) ts = 0" using number_pos_iff [of "\<lambda>t. t = Fetch" ts] by fastforce
  have ne: "ts \<noteq> []" using assms(1) by (auto simp: pp_inv_def THRNUM_def)
  consider "num s = 0" | "num s = -1" | "0 < num s" using assms(1) by (auto simp: pp_inv_def)
  then show ?thesis
  proof cases
    case 1
    with mn assms(1,2) show ?thesis by (cases m) (auto simp: pp_inv_def awake_ok_def)
  next
    case 2
    then have "\<forall>t \<in> set ts. t = Done" using w assms(2) by (auto simp: awake_ok_def)
    with 2 mn assms(1) show ?thesis by (cases m) (auto simp: pp_inv_def)
  next
    case 3
    then have "Fetch_wait \<notin> set ts" using assms(2) z by (auto simp: awake_ok_def covered_def)
    with w ne have "Done \<in> set ts" by (cases ts) auto
    with 3 assms(1) show ?thesis by (simp add: pp_inv_def)
  qed
qed

text \<open>
  C32: \<open>primer_pool_notice.c\<close> always ends with the right result: no run has more than 8065 steps, and a run that cannot
  continue has left \<open>main\<close> after all threads ended, with exactly the primes of the interval printed. No wake-up is lost
  although a new number is announced to one waiting thread only.
\<close>

theorem notice_pool_ends:
  assumes "(notice_step ^^ k) pp_start (m, ts, s)"
  shows "k \<le> 8065 \<and> ((\<nexists>st. notice_step (m, ts, s) st) \<longrightarrow> m = Left \<and> mset (out s) = mset (filter is_prime [LEFT..<RIGHT + 1]))"
proof -
  have w: "weight pp_start = 8065"
    by (simp add: weight_def pp_start_def number_def THRNUM_def LEFT_def RIGHT_def)
  have r: "notice_step\<^sup>*\<^sup>* pp_start (m, ts, s)" using assms by (rule relpowp_imp_rtranclp)
  have "m = Left" "mset (out s) = mset (filter is_prime [LEFT..<RIGHT + 1])" if "\<nexists>st. notice_step (m, ts, s) st"
  proof -
    show l: "m = Left" using notice_stuck awake_reach [OF r] that by blast
    note i = left_idle [of ts s] and t = notice.all_tested_once [OF r]
    have "pp_inv (Left, ts, s)" using awake_reach [OF r] l by blast
    with i t l show "mset (out s) = mset (filter is_prime [LEFT..<RIGHT + 1])" by (simp del: upt_Suc)
  qed
  with weight_bound [OF assms] w show ?thesis by simp
qed

text \<open>A complete run exists.\<close>

lemma notice_run_ex: "\<exists>k ts s. (notice_step ^^ k) pp_start (Left, ts, s) \<and> (\<nexists>st. notice_step (Left, ts, s) st)"
proof -
  have "\<exists>k st. (notice_step ^^ k) pp_start st \<and> (\<nexists>st'. notice_step st st')"
  proof (rule ccontr)
    assume n: "\<not> ?thesis"
    have "\<exists>st. (notice_step ^^ k) pp_start st" for k
    proof (induction k)
      case (Suc k)
      with n show ?case by (meson relpowp_Suc_I)
    qed (rule exI [of _ pp_start], simp)
    then obtain st where "(notice_step ^^ Suc (weight pp_start)) pp_start st" by blast
    from weight_bound [OF this] show False by simp
  qed
  then obtain k st where k: "(notice_step ^^ k) pp_start st" "\<nexists>st'. notice_step st st'" by blast
  obtain m ts s where st: "st = (m, ts, s)" by (cases st) auto
  have "m = Left" using notice_stuck awake_reach [OF relpowp_imp_rtranclp [OF k(1)]] k(2) st by blast
  with k st show ?thesis by blast
qed

theorem notice_pool_ends_witness:
  "\<exists>k ts s. k \<le> 8065 \<and> (notice_step ^^ k) pp_start (Left, ts, s) \<and> mset (out s) = mset (filter is_prime [LEFT..<RIGHT + 1])"
proof -
  obtain k ts s where r: "(notice_step ^^ k) pp_start (Left, ts, s)" "\<nexists>st. notice_step (Left, ts, s) st" using notice_run_ex by blast
  from notice_pool_ends [OF r(1)] r show ?thesis by blast
qed

theorem prime_pools_print_primes_witness:
  "\<exists>ts s. notice_step\<^sup>*\<^sup>* pp_start (Left, ts, s) \<and> mset (out s) = mset (filter is_prime [LEFT..<RIGHT + 1])"
proof -
  obtain k ts s where r: "(notice_step ^^ k) pp_start (Left, ts, s)" using notice_run_ex by blast
  from prime_pools_print_primes [of ts s] relpowp_imp_rtranclp [OF r] show ?thesis by blast
qed

theorem prime_pools_refine_witness:
  "\<exists>st st'. busy_step st st' \<and> slot (pp_view st') = Some LEFT \<and> hand_step (pp_view st) (pp_view st')"
proof -
  let ?s = "\<lparr>num = 0, log = [], out = []\<rparr>"
  let ?st = "(next_put LEFT, replicate THRNUM Fetch, ?s\<lparr>num := int LEFT\<rparr>)"
  have s: "busy_step pp_start ?st" unfolding pp_start_def by (rule busy_by_main) simp
  have v: "slot (pp_view ?st) = Some LEFT" "slot (pp_view pp_start) = None" by (simp_all add: pp_view_def pp_start_def LEFT_def)
  with prime_pools_refine [of pp_start ?st] s have "hand_step (pp_view pp_start) (pp_view ?st)" by auto
  with s v show ?thesis by blast
qed

section \<open>When a thread cannot be created\<close>

text \<open>
  \<open>main\<close> then joins the \<open>k\<close> threads it has, before it has handed over anything and without setting the end mark. With at least one thread it never leaves: the
  threads of one program poll for ever, those of the other wait for ever.
\<close>

definition pp_create_fails :: "nat \<Rightarrow> pp_state" where
  "pp_create_fails k = (Join, replicate k Fetch, \<lparr>num = 0, log = [], out = []\<rparr>)"

definition pp_idle :: "nat \<Rightarrow> pp_state \<Rightarrow> bool" where
  "pp_idle k st \<longleftrightarrow> (case st of (m, ts, s) \<Rightarrow> m = Join \<and> length ts = k \<and> num s = 0 \<and> (\<forall>t \<in> set ts. t = Fetch \<or> t = Fetch_wait))"

lemma pp_idle_start: "pp_idle k (pp_create_fails k)"
  by (simp add: pp_idle_def pp_create_fails_def)

lemma idle_no_join: "pp_idle k (m, ts, s) \<Longrightarrow> 0 < k \<Longrightarrow> \<not> (\<forall>t \<in> set ts. t = Done)"
  by (cases ts) (auto simp: pp_idle_def)

lemma busy_idle: "busy_step st st' \<Longrightarrow> pp_idle k st \<Longrightarrow> 0 < k \<Longrightarrow> pp_idle k st'"
proof (induction rule: busy_step.induct)
  case (busy_by_main m ts s m' s')
  then have "m = Join" "\<not> (\<forall>t \<in> set ts. t = Done)" using idle_no_join [of k m ts s] by (simp_all add: pp_idle_def)
  with busy_by_main(1) have False by (simp split: if_splits)
  then show ?case ..
next
  case (busy_by_thread j ts s t s' m)
  then have "ts ! j = Fetch \<or> ts ! j = Fetch_wait" "num s = 0" by (auto simp: pp_idle_def)
  with busy_by_thread(2) have False by (elim disjE) simp_all
  then show ?case ..
qed

lemma notice_idle: "notice_step st st' \<Longrightarrow> pp_idle k st \<Longrightarrow> 0 < k \<Longrightarrow> pp_idle k st'"
proof (induction rule: notice_step.induct)
  case (notice_by_main m ts s m' s' n m'' ts')
  then have "m = Join" "\<not> (\<forall>t \<in> set ts. t = Done)" using idle_no_join [of k m ts s] by (simp_all add: pp_idle_def)
  with notice_by_main(1) have False by (simp split: if_splits)
  then show ?case ..
next
  case (notice_by_thread j ts s t s' n m m' ts')
  then have j: "ts ! j = Fetch \<or> ts ! j = Fetch_wait" "num s = 0" by (auto simp: pp_idle_def)
  with notice_by_thread(2) have r: "t = Fetch_wait" "s' = s" "n = None" by (elim disjE; simp)+
  with notice_by_thread(3) have "m' = m" "ts' = ts[j := Fetch_wait]" by (auto elim: pp_notify.cases)
  with r notice_by_thread(1,4) show ?case by (auto simp: pp_idle_def dest: set_update_subset_insert [THEN subsetD])
qed

lemma pools_hang:
  assumes "0 < k"
  shows "busy_step\<^sup>*\<^sup>* (pp_create_fails k) (m, ts, s) \<Longrightarrow> m = Join" and "notice_step\<^sup>*\<^sup>* (pp_create_fails k) (m, ts, s) \<Longrightarrow> m = Join"
proof -
  have b: "pp_idle k st" if "busy_step\<^sup>*\<^sup>* (pp_create_fails k) st" for st
    using that by (induction rule: rtranclp_induct) (auto intro: pp_idle_start busy_idle [OF _ _ assms])
  have n: "pp_idle k st" if "notice_step\<^sup>*\<^sup>* (pp_create_fails k) st" for st
    using that by (induction rule: rtranclp_induct) (auto intro: pp_idle_start notice_idle [OF _ _ assms])
  show "busy_step\<^sup>*\<^sup>* (pp_create_fails k) (m, ts, s) \<Longrightarrow> m = Join" using b [of "(m, ts, s)"] by (simp add: pp_idle_def)
  show "notice_step\<^sup>*\<^sup>* (pp_create_fails k) (m, ts, s) \<Longrightarrow> m = Join" using n [of "(m, ts, s)"] by (simp add: pp_idle_def)
qed

end
