(* ===== verification/Critical.thy ===== *)
theory Critical
  imports Prelude Monitor
begin

text \<open>
  Threads (or processes) that protect a shared object by a lock: \<open>thread/posix/add_race.c\<close>,
  \<open>proIO/mmap/add_race.c\<close>, \<open>IPC/xsi/sem/add_race.c\<close>, \<open>samphorePV.c\<close>, \<open>multi_thread_with_lock.c\<close>,
  \<open>spin_lock.c\<close>, \<open>sem.c\<close>. Every thread runs the same code some rounds: something before the lock, the lock,
  the statements of the critical section one by one, the unlock. The contract of the lock is a locale, and the
  atomicity of the critical section is proved once from it.
\<close>

section \<open>Threads around a critical section\<close>

text \<open>
  A thread between two rounds with so many rounds left; waiting for the lock; in the critical section with the next
  statement's number; or ended by an error.
\<close>

datatype 'l cs = Out nat | Wait 'l nat | In nat 'l nat | Quit

fun is_in :: "'l cs \<Rightarrow> bool" where
  "is_in (In pc l n) = True"
| "is_in t = False"

definition insiders :: "'l cs list \<Rightarrow> nat set" where
  "insiders ts = {i. i < length ts \<and> is_in (ts ! i)}"

lemma finite_insiders [simp]: "finite (insiders ts)"
  by (simp add: insiders_def)

lemma insiders_upd:
  "i < length ts \<Longrightarrow> insiders (ts[i := t]) = (if is_in t then insert i (insiders ts) else insiders ts - {i})"
  by (auto simp: insiders_def nth_list_update)

lemma insiders_number: "card (insiders ts) = number is_in ts"
  unfolding insiders_def number_def by (simp add: length_filter_conv_card)

text \<open>
  What a program consists of: \<open>pre\<close> runs before the lock and may end the thread (\<open>None\<close>), \<open>fails\<close> tells for
  which threads the locking call returns an error, \<open>acts\<close> are the statements of the critical section on the
  thread's variables and the shared object, \<open>quit\<close> says what an error does to the threads.
\<close>

record ('l, 's, 'k) code =
  pre :: "nat \<Rightarrow> 's \<Rightarrow> 'l option"
  fails :: "nat \<Rightarrow> bool"
  acts :: "('l \<times> 's \<Rightarrow> 'l \<times> 's) list"
  quit :: "nat \<Rightarrow> 'l cs list \<Rightarrow> 'l cs list"
  enter :: "nat \<Rightarrow> 'k \<Rightarrow> 'k option"
  leave :: "nat \<Rightarrow> 'k \<Rightarrow> 'k"

definition quit_one :: "nat \<Rightarrow> 'l cs list \<Rightarrow> 'l cs list" where
  "quit_one i ts = ts[i := Quit]"

definition quit_all :: "nat \<Rightarrow> 'l cs list \<Rightarrow> 'l cs list" where
  "quit_all i ts = map (\<lambda>_. Quit) ts"

inductive cs_step :: "('l, 's, 'k) code \<Rightarrow> 'k \<times> 's \<times> 'l cs list \<Rightarrow> 'k \<times> 's \<times> 'l cs list \<Rightarrow> bool" for p where
  cs_begin: "i < length ts \<Longrightarrow> ts ! i = Out (Suc n) \<Longrightarrow> pre p i s = Some l \<Longrightarrow> cs_step p (k, s, ts) (k, s, ts[i := Wait l n])"
| cs_abort: "i < length ts \<Longrightarrow> ts ! i = Out (Suc n) \<Longrightarrow> pre p i s = None \<Longrightarrow> cs_step p (k, s, ts) (k, s, quit p i ts)"
| cs_fail: "i < length ts \<Longrightarrow> ts ! i = Wait l n \<Longrightarrow> fails p i \<Longrightarrow> cs_step p (k, s, ts) (k, s, quit p i ts)"
| cs_enter: "i < length ts \<Longrightarrow> ts ! i = Wait l n \<Longrightarrow> \<not> fails p i \<Longrightarrow> enter p i k = Some k' \<Longrightarrow>
    cs_step p (k, s, ts) (k', s, ts[i := In 0 l n])"
| cs_act: "i < length ts \<Longrightarrow> ts ! i = In pc l n \<Longrightarrow> pc < length (acts p) \<Longrightarrow> (acts p ! pc) (l, s) = (l', s') \<Longrightarrow>
    cs_step p (k, s, ts) (k, s', ts[i := In (Suc pc) l' n])"
| cs_leave: "i < length ts \<Longrightarrow> ts ! i = In (length (acts p)) l n \<Longrightarrow> cs_step p (k, s, ts) (leave p i k, s, ts[i := Out n])"

inductive_cases cs_stepE: "cs_step p (k, s, ts) st"

text \<open>A run of \<open>m\<close> threads with \<open>n\<close> rounds each, to the point where nothing can happen any more.\<close>

definition finishes :: "('l, 's, 'k) code \<Rightarrow> 'k \<Rightarrow> 's \<Rightarrow> nat \<Rightarrow> nat \<Rightarrow> 's \<Rightarrow> 'l cs list \<Rightarrow> bool" where
  "finishes p k s m n s' ts \<longleftrightarrow> (\<exists>k'. (cs_step p)\<^sup>*\<^sup>* (k, s, replicate m (Out n)) (k', s', ts) \<and> (\<nexists>st. cs_step p (k', s', ts) st))"

section \<open>The contract of a lock\<close>

text \<open>
  \<open>fits k I\<close>: the lock's state is the one it has when just the threads of \<open>I\<close> are past it. At most \<open>cap\<close> threads get
  in, and one gets in while there is room.
\<close>

locale gate =
  fixes enter :: "nat \<Rightarrow> 'k \<Rightarrow> 'k option" and leave :: "nat \<Rightarrow> 'k \<Rightarrow> 'k"
    and fits :: "'k \<Rightarrow> nat set \<Rightarrow> bool" and cap :: nat and k0 :: 'k
  assumes fits_init: "fits k0 {}"
    and fits_enter: "fits k I \<Longrightarrow> finite I \<Longrightarrow> i \<notin> I \<Longrightarrow> enter i k = Some k' \<Longrightarrow> fits k' (insert i I)"
    and fits_leave: "fits k I \<Longrightarrow> finite I \<Longrightarrow> i \<in> I \<Longrightarrow> fits (leave i k) (I - {i})"
    and fits_card: "fits k I \<Longrightarrow> finite I \<Longrightarrow> card I \<le> cap"
    and fits_room: "fits k I \<Longrightarrow> finite I \<Longrightarrow> i \<notin> I \<Longrightarrow> card I < cap \<Longrightarrow> enter i k \<noteq> None"

text \<open>
  A program with a lock: an error in \<open>quit\<close> ends one thread that is not inside.
\<close>

locale guarded = gate enter leave fits cap k0
  for enter :: "nat \<Rightarrow> 'k \<Rightarrow> 'k option" and leave :: "nat \<Rightarrow> 'k \<Rightarrow> 'k"
    and fits :: "'k \<Rightarrow> nat set \<Rightarrow> bool" and cap :: nat and k0 :: 'k +
  fixes p :: "('l, 's, 'k) code"
  assumes p_enter: "code.enter p = enter" and p_leave: "code.leave p = leave"
    and quits_one: "pre p i s = None \<or> fails p i \<Longrightarrow> quit p i ts = ts[i := Quit]"
    and cap_pos: "0 < cap"
begin

definition locked_ok :: "'k \<times> 's \<times> 'l cs list \<Rightarrow> bool" where
  "locked_ok st \<longleftrightarrow> (case st of (k, s, ts) \<Rightarrow> fits k (insiders ts) \<and> (\<forall>pc l n. In pc l n \<in> set ts \<longrightarrow> pc \<le> length (acts p)))"

lemma locked_upd:
  assumes "locked_ok (k, s, ts)" "i < length ts" "\<And>pc l n. t = In pc l n \<Longrightarrow> pc \<le> length (acts p)"
    and "fits k' (if is_in t then insert i (insiders ts) else insiders ts - {i})"
  shows "locked_ok (k', s', ts[i := t])"
proof -
  have "pc \<le> length (acts p)" if "In pc l n \<in> set (ts[i := t])" for pc l n
    using that assms(1,3) set_update_subset_insert [of ts i t] by (fastforce simp: locked_ok_def)
  with assms(2,4) show ?thesis by (auto simp: locked_ok_def insiders_upd)
qed

lemma insiders_same:
  "i < length ts \<Longrightarrow> \<not> is_in (ts ! i) \<Longrightarrow> insiders ts - {i} = insiders ts"
  "i < length ts \<Longrightarrow> is_in (ts ! i) \<Longrightarrow> insert i (insiders ts) = insiders ts"
  by (auto simp: insiders_def)

lemma locked_step: "cs_step p st st' \<Longrightarrow> locked_ok st \<Longrightarrow> locked_ok st'"
proof (induction rule: cs_step.induct)
  case (cs_begin i ts n s l k)
  then show ?case by (intro locked_upd) (simp_all add: insiders_same, simp add: locked_ok_def)
next
  case (cs_abort i ts n s k)
  then show ?case unfolding quits_one [OF disjI1, OF cs_abort(3)] by (intro locked_upd) (simp_all add: insiders_same, simp add: locked_ok_def)
next
  case (cs_fail i ts l n k s)
  then show ?case unfolding quits_one [OF disjI2, OF cs_fail(3)] by (intro locked_upd) (simp_all add: insiders_same, simp add: locked_ok_def)
next
  case (cs_enter i ts l n k k' s)
  then have "fits k' (insert i (insiders ts))"
    by (intro fits_enter) (auto simp: locked_ok_def p_enter insiders_def)
  with cs_enter show ?case by (intro locked_upd) simp_all
next
  case (cs_act i ts pc l n s l' s' k)
  then show ?case by (intro locked_upd) (simp_all add: insiders_same, simp add: locked_ok_def)
next
  case (cs_leave i ts l n k s)
  then have "fits (leave i k) (insiders ts - {i})"
    by (intro fits_leave) (auto simp: locked_ok_def insiders_def)
  with cs_leave show ?case unfolding p_leave by (intro locked_upd) simp_all
qed

lemma locked_start: "locked_ok (k0, s, replicate m (Out n))"
  using fits_init by (simp add: locked_ok_def insiders_def conj_commute cong: conj_cong)

lemma locked_reach: "(cs_step p)\<^sup>*\<^sup>* (k0, s, replicate m (Out n)) st \<Longrightarrow> locked_ok st"
  by (induction rule: rtranclp_induct) (auto intro: locked_start locked_step)

text \<open>Never more than \<open>cap\<close> threads are in the critical section.\<close>

lemma at_most_cap: "(cs_step p)\<^sup>*\<^sup>* (k0, s0, replicate m (Out n)) (k, s, ts) \<Longrightarrow> number is_in ts \<le> cap"
  using locked_reach fits_card [of k "insiders ts"] by (fastforce simp: locked_ok_def insiders_number)

text \<open>The program is never stuck before every thread has done its rounds or has ended by an error.\<close>

lemma no_deadlock:
  assumes "locked_ok (k, s, ts)" "\<nexists>st. cs_step p (k, s, ts) st" "t \<in> set ts"
  shows "t = Out 0 \<or> t = Quit"
proof -
  obtain i where i: "i < length ts" "ts ! i = t" using assms(3) by (auto simp: in_set_conv_nth)
  have none: "\<not> is_in u" if u: "u \<in> set ts" for u
  proof
    assume "is_in u"
    then obtain pc l n where l: "u = In pc l n" by (cases u) auto
    from u obtain j where j: "j < length ts" "ts ! j = u" by (auto simp: in_set_conv_nth)
    from u l assms(1) have "pc \<le> length (acts p)" by (auto simp: locked_ok_def)
    with j l assms(2) show False
      by (cases "(acts p ! pc) (l, s)") (metis cs_act cs_leave le_neq_implies_less)
  qed
  then have "insiders ts = {}" by (auto simp: insiders_def)
  with assms(1) fits_room [of k "{}"] cap_pos have e: "enter j k \<noteq> None" for j by (simp add: locked_ok_def)
  show ?thesis
  proof (cases t)
    case (Out n)
    with i assms(2) show ?thesis by (cases n; cases "pre p i s") (auto dest: cs_begin cs_abort)
  next
    case (Wait l n)
    from e [of i] obtain k' where "code.enter p i k = Some k'" by (auto simp: p_enter)
    with Wait i assms(2) show ?thesis by (cases "fails p i") (auto dest: cs_fail cs_enter)
  qed (use none [OF assms(3)] in auto)
qed

text \<open>Without errors no thread quits.\<close>

lemma never_quits:
  assumes "finishes p k s m n s' ts" "\<And>i s. pre p i s \<noteq> None" "\<And>i. \<not> fails p i"
  shows "Quit \<notin> set ts"
proof -
  have "Quit \<notin> set (snd (snd st))" if "(cs_step p)\<^sup>*\<^sup>* (k, s, replicate m (Out n)) st" for st
    using that
  proof (induction rule: rtranclp_induct)
    case (step st st')
    from step(2,3) show ?case
      by cases (use assms(2,3) in \<open>auto dest!: set_update_subset_insert [THEN subsetD]\<close>)
  qed simp
  from this assms(1) show ?thesis by (fastforce simp: finishes_def)
qed

text \<open>Every run ends: each step lowers the work that is left.\<close>

fun effort :: "'l cs \<Rightarrow> nat" where
  "effort (Out n) = n * (length (acts p) + 4) + 1"
| "effort (Wait l n) = n * (length (acts p) + 4) + length (acts p) + 4"
| "effort (In pc l n) = n * (length (acts p) + 4) + length (acts p) + 3 - pc"
| "effort Quit = 0"

lemma effort_upd: "i < length ts \<Longrightarrow> f t < f (ts ! i) \<Longrightarrow> sum_list (map f (ts[i := t])) < (sum_list (map f ts) :: nat)"
  using sum_list_upd [of i ts f t] by linarith

lemma effort_step: "cs_step p (k, s, ts) (k', s', ts') \<Longrightarrow> sum_list (map effort ts') < sum_list (map effort ts)"
proof (induction "(k, s, ts)" "(k', s', ts')" rule: cs_step.induct)
  case (cs_abort i n)
  then show ?case using effort_upd [of i ts effort Quit] quits_one [of i s ts] by simp
next
  case (cs_fail i l n)
  then show ?case using effort_upd [of i ts effort Quit] quits_one [of i s ts] by simp
qed (auto intro!: effort_upd)

lemma steps_bounded:
  "(cs_step p ^^ N) (k, s, ts) (k', s', ts') \<Longrightarrow> N + sum_list (map effort ts') \<le> sum_list (map effort ts)"
proof (induction N arbitrary: k' s' ts')
  case (Suc N)
  then obtain k1 s1 ts1 where "(cs_step p ^^ N) (k, s, ts) (k1, s1, ts1)" "cs_step p (k1, s1, ts1) (k', s', ts')" by auto
  with Suc.IH [of k1 s1 ts1] effort_step [of k1 s1 ts1 k' s' ts'] show ?case by simp
qed simp

lemma run_ends: "\<exists>st'. (cs_step p)\<^sup>*\<^sup>* st st' \<and> (\<nexists>st2. cs_step p st' st2)"
proof (induction "sum_list (map effort (snd (snd st)))" arbitrary: st rule: less_induct)
  case less
  show ?case
  proof (cases "\<exists>st1. cs_step p st st1")
    case True
    then obtain st1 where st1: "cs_step p st st1" by blast
    then have "sum_list (map effort (snd (snd st1))) < sum_list (map effort (snd (snd st)))"
      using effort_step by (cases st; cases st1) simp
    from less [OF this] st1 show ?thesis by (blast intro: converse_rtranclp_into_rtranclp)
  qed blast
qed

lemma finishes_ex: "\<exists>s' ts. finishes p k s m n s' ts"
  using run_ends [of "(k, s, replicate m (Out n))"] by (auto simp: finishes_def)

end

section \<open>Atomicity\<close>

text \<open>
  The specification: threads that do the whole critical section in one step.
\<close>

definition section_of :: "('l, 's, 'k) code \<Rightarrow> 'l \<Rightarrow> 's \<Rightarrow> 's" where
  "section_of p l s = snd (fold (\<lambda>a. a) (acts p) (l, s))"

inductive atomic_step :: "('l, 's, 'k) code \<Rightarrow> 's \<times> 'l cs list \<Rightarrow> 's \<times> 'l cs list \<Rightarrow> bool" for p where
  at_begin: "i < length ts \<Longrightarrow> ts ! i = Out (Suc n) \<Longrightarrow> pre p i s = Some l \<Longrightarrow> atomic_step p (s, ts) (s, ts[i := Wait l n])"
| at_quit: "i < length ts \<Longrightarrow> ts ! i = Out (Suc n) \<and> pre p i s = None \<or> ts ! i = Wait l n \<and> fails p i \<Longrightarrow> atomic_step p (s, ts) (s, ts[i := Quit])"
| at_run: "i < length ts \<Longrightarrow> ts ! i = Wait l n \<Longrightarrow> \<not> fails p i \<Longrightarrow> atomic_step p (s, ts) (section_of p l s, ts[i := Out n])"

text \<open>
  When the section does the same to the object whatever the thread, the object tells how often it was run.
\<close>

fun rounds :: "'l cs \<Rightarrow> nat" where
  "rounds (Out n) = n"
| "rounds (Wait l n) = Suc n"
| "rounds (In pc l n) = Suc n"
| "rounds Quit = 0"

definition owing :: "'l cs list \<Rightarrow> nat" where
  "owing ts = sum_list (map rounds ts)"

definition quitters :: "'l cs list \<Rightarrow> nat" where
  "quitters ts = number (\<lambda>t. t = Quit) ts"

lemma owing_upd: "i < length ts \<Longrightarrow> owing (ts[i := t]) + rounds (ts ! i) = owing ts + rounds t"
  unfolding owing_def by (rule sum_list_upd)

lemma quitters_upd:
  "i < length ts \<Longrightarrow> ts ! i \<noteq> Quit \<Longrightarrow> quitters (ts[i := t]) = quitters ts + (if t = Quit then 1 else 0)"
  using number_upd [of i ts "\<lambda>t. t = Quit" t] by (simp add: quitters_def)

lemma quitters_0: "quitters ts = 0 \<longleftrightarrow> Quit \<notin> set ts"
  by (auto simp: quitters_def number_def filter_empty_conv)

definition counted :: "('s \<Rightarrow> 's) \<Rightarrow> 's \<Rightarrow> nat \<Rightarrow> nat \<Rightarrow> 's \<times> 'l cs list \<Rightarrow> bool" where
  "counted f s0 m n st \<longleftrightarrow> (\<exists>d. fst st = (f ^^ d) s0 \<and> d + owing (snd st) + quitters (snd st) \<le> m * n \<and>
     m * n \<le> d + owing (snd st) + n * quitters (snd st)) \<and> (\<forall>t \<in> set (snd st). rounds t \<le> n)"

lemma counted_start: "counted f s (length ts) n (s, replicate (length ts) (Out n))"
  by (auto simp: counted_def owing_def quitters_def number_def sum_list_replicate intro!: exI [of _ 0])

lemma rounds_upd: "\<forall>t \<in> set ts. rounds t \<le> n \<Longrightarrow> rounds t \<le> n \<Longrightarrow> \<forall>t \<in> set (ts[i := t]). rounds t \<le> n"
  using set_update_subset_insert [of ts i t] by blast

lemma counted_step:
  assumes "atomic_step p st st'" "counted f s0 m n st" "\<forall>l j. Wait l j \<in> set (snd st) \<longrightarrow> L l"
    and "\<And>l d. L l \<Longrightarrow> d < m * n \<Longrightarrow> section_of p l ((f ^^ d) s0) = f ((f ^^ d) s0)"
  shows "counted f s0 m n st'"
  using assms(1)
proof cases
  case (at_begin i ts j s l)
  moreover from this assms(2) have "Suc j \<le> n" using nth_mem [of i ts] by (force simp: counted_def)
  ultimately show ?thesis using assms(2) owing_upd [of i ts "Wait l j"] quitters_upd [of i ts "Wait l j"] rounds_upd [of ts n "Wait l j" i]
    by (auto simp: counted_def)
next
  case (at_quit i ts j s l)
  then have r: "1 \<le> rounds (ts ! i)" "rounds (ts ! i) \<le> n" "ts ! i \<noteq> Quit" using assms(2) nth_mem [of i ts] by (force simp: counted_def)+
  from at_quit(1,2) assms(2) obtain d where d: "s = (f ^^ d) s0" "d + owing ts + quitters ts \<le> m * n" "m * n \<le> d + owing ts + n * quitters ts"
    by (auto simp: counted_def)
  have "d + owing (ts[i := Quit]) + quitters (ts[i := Quit]) \<le> m * n" "m * n \<le> d + owing (ts[i := Quit]) + n * quitters (ts[i := Quit])"
    using d owing_upd [OF at_quit(3), of Quit] quitters_upd [OF at_quit(3) r(3), of Quit] r by (auto simp: algebra_simps)
  with d(1) assms(2) at_quit(1,2) rounds_upd [of ts n Quit i] show ?thesis by (auto simp: counted_def)
next
  case (at_run i ts l j s)
  then have r: "Suc j \<le> n" "L l" using assms(2,3) nth_mem [of i ts] by (force simp: counted_def)+
  from at_run(1,2) assms(2) obtain d where d: "s = (f ^^ d) s0" "d + owing ts + quitters ts \<le> m * n" "m * n \<le> d + owing ts + n * quitters ts"
    by (auto simp: counted_def)
  have o: "Suc (owing (ts[i := Out j])) = owing ts" "quitters (ts[i := Out j]) = quitters ts"
    using owing_upd [OF at_run(3), of "Out j"] quitters_upd [OF at_run(3), of "Out j"] at_run(4) by simp_all
  with d have "section_of p l s = (f ^^ Suc d) s0" using assms(4) [OF r(2), of d] by simp
  with o d assms(2) at_run(1,2) rounds_upd [of ts n "Out j" i] r show ?thesis
    by (auto simp: counted_def intro!: exI [of _ "Suc d"])
qed

text \<open>
  With one round each, the threads that quit are those for which \<open>fopen\<close> or the locking call fails.
\<close>

definition once_ok :: "('l, 's, 'k) code \<Rightarrow> (nat \<Rightarrow> bool) \<Rightarrow> nat \<Rightarrow> 'l cs \<Rightarrow> bool" where
  "once_ok p good i t \<longleftrightarrow> (case t of Out n \<Rightarrow> n \<le> 1 \<and> (n = 0 \<longrightarrow> good i \<and> \<not> fails p i) | Wait l n \<Rightarrow> n = 0 \<and> good i
     | In pc l n \<Rightarrow> n = 0 \<and> good i \<and> \<not> fails p i | Quit \<Rightarrow> \<not> good i \<or> fails p i)"

lemma once_step:
  assumes "cs_step p (k, s, ts) (k', s', ts')" "\<forall>i < length ts. once_ok p good i (ts ! i)"
    and "\<forall>i s. pre p i s = None \<longleftrightarrow> \<not> good i" "\<forall>i ts s. pre p i s = None \<or> fails p i \<longrightarrow> quit p i ts = ts[i := Quit]"
  shows "length ts' = length ts \<and> (\<forall>i < length ts. once_ok p good i (ts' ! i))"
proof -
  have g: "good i" if "pre p i s = Some l" for i s l using assms(3) that by (metis option.distinct(1))
  from assms(1) show ?thesis
  proof cases
    case (cs_abort i n)
    with assms(2-4) show ?thesis by (auto simp: nth_list_update once_ok_def)
  next
    case (cs_fail i l n)
    with assms(2,4) show ?thesis by (auto simp: nth_list_update once_ok_def)
  qed (use assms(2) g in \<open>auto simp: nth_list_update once_ok_def split: cs.splits\<close>)
qed

lemma once_quitters:
  assumes "(cs_step p)\<^sup>*\<^sup>* (k0, s0, replicate m (Out 1)) (k, s, ts)" "\<forall>t \<in> set ts. t = Out 0 \<or> t = Quit"
    and "\<forall>i s. pre p i s = None \<longleftrightarrow> \<not> good i" "\<forall>i ts s. pre p i s = None \<or> fails p i \<longrightarrow> quit p i ts = ts[i := Quit]"
  shows "quitters ts + card {i. i < m \<and> good i \<and> \<not> fails p i} = m"
proof -
  have "length (snd (snd st)) = m \<and> (\<forall>i < m. once_ok p good i (snd (snd st) ! i))"
    if "(cs_step p)\<^sup>*\<^sup>* (k0, s0, replicate m (Out 1)) st" for st
    using that
  proof (induction rule: rtranclp_induct)
    case (step st st')
    then show ?case using once_step [OF _ _ assms(3,4)] by (cases st; cases st') fastforce
  qed (simp add: once_ok_def)
  from this [OF assms(1)] have o: "length ts = m" "\<And>i. i < m \<Longrightarrow> once_ok p good i (ts ! i)" by auto
  have "ts ! i = Quit \<longleftrightarrow> \<not> good i \<or> fails p i" if "i < m" for i
    using o(2) [OF that] assms(2) nth_mem [of i ts] o(1) that by (cases "ts ! i") (auto simp: once_ok_def)
  then have "{i. i < m \<and> ts ! i = Quit} = {i. i < m \<and> (\<not> good i \<or> fails p i)}" by auto
  then have "quitters ts = card {i. i < m \<and> \<not> (good i \<and> \<not> fails p i)}"
    using o(1) by (simp add: quitters_def number_def length_filter_conv_card)
  moreover have "card {i. i < m \<and> \<not> (good i \<and> \<not> fails p i)} + card {i. i < m \<and> good i \<and> \<not> fails p i} = card {i. i < m}"
    by (subst card_Un_disjoint [symmetric]) (auto intro!: arg_cong [where f = card, of _ "{..<m}", simplified])
  ultimately show ?thesis by simp
qed

text \<open>
  One thread at a time, and only the last statement of the section changes the shared object.
\<close>

locale exclusive = guarded enter leave fits 1 k0 p
  for enter :: "nat \<Rightarrow> 'k \<Rightarrow> 'k option" and leave :: "nat \<Rightarrow> 'k \<Rightarrow> 'k" and fits :: "'k \<Rightarrow> nat set \<Rightarrow> bool" and k0 :: 'k
    and p :: "('l, 's, 'k) code" +
  assumes acts_ne: "acts p \<noteq> []"
    and silent: "Suc pc < length (acts p) \<Longrightarrow> snd ((acts p ! pc) (l, s)) = s"
begin

definition upto :: "nat \<Rightarrow> 'l \<times> 's \<Rightarrow> 'l \<times> 's" where
  "upto pc ls = fold (\<lambda>a. a) (take pc (acts p)) ls"

lemma upto_Suc: "pc < length (acts p) \<Longrightarrow> upto (Suc pc) ls = (acts p ! pc) (upto pc ls)"
  by (simp add: upto_def take_Suc_conv_app_nth)

lemma upto_all: "snd (upto (length (acts p)) (l, s)) = section_of p l s"
  by (simp add: upto_def section_of_def)

fun stands_for :: "'s \<Rightarrow> 'l cs \<Rightarrow> 'l cs \<Rightarrow> bool" where
  "stands_for s (In pc l n) a = (if pc < length (acts p) then (\<exists>l0. a = Wait l0 n \<and> upto pc (l0, s) = (l, s)) else a = Out n)"
| "stands_for s t a = (a = t)"

definition sim :: "'k \<times> 's \<times> 'l cs list \<Rightarrow> 's \<times> 'l cs list \<Rightarrow> bool" where
  "sim st ab \<longleftrightarrow> (case st of (k, s, ts) \<Rightarrow> locked_ok st \<and> fst ab = s \<and> list_all2 (stands_for s) ts (snd ab) \<and>
     (\<forall>i < length ts. \<forall>pc l n. ts ! i = In pc l n \<longrightarrow> \<not> fails p i))"

lemma stands_outside: "\<not> is_in t \<Longrightarrow> stands_for s t a \<longleftrightarrow> a = t"
  by (cases t) auto

text \<open>Threads outside do not notice a change of the shared object.\<close>

lemma stands_elsewhere:
  assumes "locked_ok (k, s, ts)" "i < length ts" "is_in (ts ! i)" "list_all2 (stands_for s) ts as" "stands_for s' t a"
  shows "list_all2 (stands_for s') (ts[i := t]) (as[i := a])"
proof -
  have "card (insiders ts) \<le> 1" using assms(1) fits_card [of k "insiders ts"] by (simp add: locked_ok_def)
  moreover have "i \<in> insiders ts" using assms(2,3) by (simp add: insiders_def)
  ultimately have "insiders ts = {i}"
    by (metis card_le_Suc0_iff_eq finite_insiders insertI1 is_singletonI' is_singleton_the_elem One_nat_def empty_iff singletonD)
  then have "\<not> is_in (ts ! j)" if "j < length ts" "j \<noteq> i" for j using that by (auto simp: insiders_def)
  with assms show ?thesis by (auto simp: list_all2_conv_all_nth nth_list_update stands_outside)
qed

lemma sim_upd:
  assumes "sim (k, s, ts) (s, as)" "i < length ts" "locked_ok (k', s, ts[i := t])" "stands_for s t a" "is_in t \<longrightarrow> \<not> fails p i"
  shows "sim (k', s, ts[i := t]) (s, as[i := a])"
  using assms by (auto simp: sim_def nth_list_update intro!: list_all2_update_cong)

lemma sim_nth:
  assumes "sim (k, s, ts) (s', as)" "i < length ts"
  shows "s' = s" "i < length as" "stands_for s (ts ! i) (as ! i)"
  using assms by (auto simp: sim_def list_all2_lengthD list_all2_nthD)

lemma sim_act:
  assumes sim: "sim (k, s, ts) (s, as)" and i: "i < length ts" "ts ! i = In pc l n" "pc < length (acts p)"
    and act: "(acts p ! pc) (l, s) = (l', s')" and ok: "locked_ok (k, s', ts[i := In (Suc pc) l' n])"
  shows "\<exists>ab'. (atomic_step p)\<^sup>=\<^sup>= (s, as) ab' \<and> sim (k, s', ts[i := In (Suc pc) l' n]) ab'"
proof -
  obtain l0 where l0: "as ! i = Wait l0 n" "upto pc (l0, s) = (l, s)"
    using sim_nth(3) [OF sim i(1)] i by auto
  then have u: "upto (Suc pc) (l0, s) = (l', s')" using i act by (simp add: upto_Suc)
  have f: "\<not> fails p i" using sim i by (auto simp: sim_def)
  show ?thesis
  proof (cases "Suc pc < length (acts p)")
    case True
    with silent [OF True, of l s] act have "s' = s" by simp
    with sim_upd [OF sim i(1), of k "In (Suc pc) l' n" "Wait l0 n"] ok u f True l0(1)
    have "sim (k, s', ts[i := In (Suc pc) l' n]) (s, as)" using list_update_id [of as i] by simp
    then show ?thesis by blast
  next
    case False
    with i have e: "Suc pc = length (acts p)" by simp
    with u upto_all [of l0 s] have s': "s' = section_of p l0 s" by simp
    have "atomic_step p (s, as) (s', as[i := Out n])" unfolding s' using l0 f sim_nth(2) [OF sim i(1)] by (intro at_run)
    moreover have "list_all2 (stands_for s') (ts[i := In (Suc pc) l' n]) (as[i := Out n])"
      using sim i e by (intro stands_elsewhere [of k s]) (auto simp: sim_def)
    then have "sim (k, s', ts[i := In (Suc pc) l' n]) (s', as[i := Out n])"
      using sim ok f i(1) by (auto simp: sim_def nth_list_update split: if_splits)
    ultimately show ?thesis by blast
  qed
qed

lemma sim_step:
  assumes "cs_step p st st'" "sim st ab"
  shows "\<exists>ab'. (atomic_step p)\<^sup>=\<^sup>= ab ab' \<and> sim st' ab'"
proof -
  have ok: "locked_ok st'" using locked_step [OF assms(1)] assms(2) by (auto simp: sim_def)
  obtain s as where ab: "ab = (s, as)" by (cases ab)
  show ?thesis using assms(1)
  proof cases
    case (cs_begin i ts n s1 l k)
    with assms(2) ab sim_nth [of k s1 ts s as i] have a: "s1 = s" "atomic_step p (s, as) (s, as[i := Wait l n])"
      by (auto intro: at_begin)
    with sim_upd [of k s ts as i k "Wait l n" "Wait l n"] cs_begin assms(2) ok ab show ?thesis by auto
  next
    case (cs_abort i ts n s1 k)
    with assms(2) ab sim_nth [of k s1 ts s as i] have a: "s1 = s" "atomic_step p (s, as) (s, as[i := Quit])"
      by (auto intro: at_quit)
    with sim_upd [of k s ts as i k Quit Quit] quits_one [of i s ts] cs_abort assms(2) ok ab show ?thesis by auto
  next
    case (cs_fail i ts l n k s1)
    with assms(2) ab sim_nth [of k s1 ts s as i] have a: "s1 = s" "atomic_step p (s, as) (s, as[i := Quit])"
      by (auto intro: at_quit)
    with sim_upd [of k s ts as i k Quit Quit] quits_one [of i s ts] cs_fail assms(2) ok ab show ?thesis by auto
  next
    case (cs_enter i ts l n k k' s1)
    with assms(2) ab sim_nth [of k s1 ts s as i] have a: "s1 = s" "as ! i = Wait l n" by auto
    with sim_upd [of k s ts as i k' "In 0 l n" "Wait l n"] cs_enter assms(2) ok ab acts_ne sim_nth(2) [of k s1 ts s as i]
    show ?thesis using list_update_id [of as i] by (auto simp: upto_def)
  next
    case (cs_act i ts pc l n s1 l' s' k)
    with assms(2) ab sim_nth(1) [of k s1 ts s as i] have "s1 = s" by auto
    with sim_act [of k s ts as i pc l n l' s'] cs_act assms(2) ok ab show ?thesis by simp
  next
    case (cs_leave i ts l n k s1)
    with assms(2) ab sim_nth [of k s1 ts s as i] have a: "s1 = s" "as ! i = Out n" by auto
    with sim_upd [of k s ts as i "code.leave p i k" "Out n" "Out n"] cs_leave assms(2) ok ab sim_nth(2) [of k s1 ts s as i]
    show ?thesis using list_update_id [of as i] by auto
  qed
qed

lemma sim_start: "sim (k0, s, replicate m (Out n)) (s, replicate m (Out n))"
  using locked_start by (simp add: sim_def list_all2_conv_all_nth)

text \<open>Every run is, seen from outside the critical section, a run of the specification.\<close>

lemma sim_reach:
  "(cs_step p)\<^sup>*\<^sup>* (k0, s, replicate m (Out n)) st \<Longrightarrow> \<exists>ab. (atomic_step p)\<^sup>*\<^sup>* (s, replicate m (Out n)) ab \<and> sim st ab"
proof (induction rule: rtranclp_induct)
  case base
  then show ?case using sim_start by blast
next
  case (step st st')
  then obtain ab where ab: "(atomic_step p)\<^sup>*\<^sup>* (s, replicate m (Out n)) ab" "sim st ab" by blast
  with sim_step [OF step(2) ab(2)] show ?case by (auto intro: rtranclp.rtrancl_into_rtrancl)
qed

text \<open>At the end the threads are those of the specification.\<close>

lemma sim_end:
  assumes "sim (k, s, ts) ab" "\<forall>t \<in> set ts. \<not> is_in t"
  shows "ab = (s, ts)"
proof -
  have "list_all2 (=) ts (snd ab)"
    using assms by (auto simp: sim_def list_all2_conv_all_nth stands_outside)
  then show ?thesis using assms(1) by (cases ab) (simp add: sim_def list.rel_eq)
qed

lemma refines_atomic:
  assumes "(cs_step p)\<^sup>*\<^sup>* (k0, s, replicate m (Out n)) (k, s', ts)" "\<forall>t \<in> set ts. \<not> is_in t"
  shows "(atomic_step p)\<^sup>*\<^sup>* (s, replicate m (Out n)) (s', ts)"
  using sim_reach [OF assms(1)] sim_end [OF _ assms(2)] by blast

lemma atomic_waits:
  assumes "(atomic_step p)\<^sup>*\<^sup>* (s, replicate m (Out n)) st" "\<And>i s l. pre p i s = Some l \<Longrightarrow> L l"
  shows "\<forall>l j. Wait l j \<in> set (snd st) \<longrightarrow> L l"
  using assms(1)
proof (induction rule: rtranclp_induct)
  case (step st st')
  from step(2,3) show ?case
    by cases (auto dest!: set_update_subset_insert [THEN subsetD] intro: assms(2))
qed simp

lemma finish_atomic:
  assumes "finishes p k0 s m n s' ts"
  shows "(atomic_step p)\<^sup>*\<^sup>* (s, replicate m (Out n)) (s', ts)" "\<forall>t \<in> set ts. t = Out 0 \<or> t = Quit"
proof -
  obtain k where run: "(cs_step p)\<^sup>*\<^sup>* (k0, s, replicate m (Out n)) (k, s', ts)" "\<nexists>st. cs_step p (k, s', ts) st"
    using assms by (auto simp: finishes_def)
  show t: "\<forall>t \<in> set ts. t = Out 0 \<or> t = Quit" using no_deadlock [OF locked_reach [OF run(1)] run(2)] by blast
  then have "\<forall>t \<in> set ts. \<not> is_in t" by fastforce
  with refines_atomic [OF run(1)] show "(atomic_step p)\<^sup>*\<^sup>* (s, replicate m (Out n)) (s', ts)" by blast
qed

text \<open>
  When a program whose section acts as \<open>f\<close> can do nothing more, no thread is inside, and the object is the
  result of as many rounds as the threads that did not quit have made.
\<close>

lemma completes:
  assumes fin: "finishes p k0 s m n s' ts"
    and L: "\<And>i s l. pre p i s = Some l \<Longrightarrow> L l"
    and f: "\<And>l d. L l \<Longrightarrow> d < m * n \<Longrightarrow> section_of p l ((f ^^ d) s) = f ((f ^^ d) s)"
  shows "(\<forall>t \<in> set ts. t = Out 0 \<or> t = Quit) \<and>
    (\<exists>d. s' = (f ^^ d) s \<and> d + quitters ts \<le> m * n \<and> m * n \<le> d + n * quitters ts)"
proof -
  note r = finish_atomic(1) [OF fin] and t = finish_atomic(2) [OF fin]
  have "counted f s m n st" if "(atomic_step p)\<^sup>*\<^sup>* (s, replicate m (Out n)) st" for st
    using that
  proof (induction rule: rtranclp_induct)
    case base
    then show ?case using counted_start [of f s "replicate m undefined" n] by simp
  next
    case (step st st')
    then have "\<forall>l j. Wait l j \<in> set (snd st) \<longrightarrow> L l" using atomic_waits [OF step(1), of L] L by blast
    from counted_step [OF step(2,3) this] f show ?case by blast
  qed
  from this [OF r] have "counted f s m n (s', ts)" .
  moreover have "owing ts = 0" using t by (induction ts) (auto simp: owing_def)
  ultimately show ?thesis using t by (auto simp: counted_def)
qed

text \<open>With one round for each thread the number of rounds made is known.\<close>

lemma completes_once:
  assumes "finishes p k0 s m 1 s' ts" "\<And>i s l. pre p i s = Some l \<Longrightarrow> L l"
    and "\<And>l d. L l \<Longrightarrow> d < m \<Longrightarrow> section_of p l ((f ^^ d) s) = f ((f ^^ d) s)"
    and "\<forall>i s. pre p i s = None \<longleftrightarrow> \<not> good i"
  shows "s' = (f ^^ card {i. i < m \<and> good i \<and> \<not> fails p i}) s"
proof -
  obtain d where d: "s' = (f ^^ d) s" "d + quitters ts = m" "\<forall>t \<in> set ts. t = Out 0 \<or> t = Quit"
    using completes [OF assms(1), of L f] assms(2,3) by auto
  from assms(1) obtain k where "(cs_step p)\<^sup>*\<^sup>* (k0, s, replicate m (Out 1)) (k, s', ts)" by (auto simp: finishes_def)
  from once_quitters [OF this d(3) assms(4)] quits_one have "quitters ts + card {i. i < m \<and> good i \<and> \<not> fails p i} = m" by blast
  with d(2) have "d = card {i. i < m \<and> good i \<and> \<not> fails p i}" by linarith
  with d(1) show ?thesis by simp
qed

end

end
