(* ===== verification/Stdio.thy ===== *)
theory Stdio
  imports Prelude
begin

text \<open>
  The part of the C library that reads and prints text: white space, \<open>atoi\<close>, \<open>fgets\<close> and the conversion \<open>%d\<close>.
\<close>

text \<open>\<open>atoi\<close> for values of type \<open>int\<close>, \<open>fgets\<close>, and \<open>fprintf\<close> with \<open>%d\<close>.\<close>

definition c_space :: "char \<Rightarrow> bool" where
  "c_space c \<longleftrightarrow> (of_char c :: nat) = 32 \<or> 9 \<le> (of_char c :: nat) \<and> (of_char c :: nat) \<le> 13"

definition atoi :: "string \<Rightarrow> int" where
  "atoi s = (case dropWhile c_space s of
      [] \<Rightarrow> 0
    | c # cs \<Rightarrow> if c = CHR ''-'' then - int (read_nat (takeWhile c_digit cs))
        else if c = CHR ''+'' then int (read_nat (takeWhile c_digit cs))
        else int (read_nat (takeWhile c_digit (c # cs))))"

definition fgets :: "nat \<Rightarrow> string \<Rightarrow> string option" where
  "fgets n f = (if f = [] then None
     else (let t = take (n - 1) f in Some (takeWhile (\<lambda>c. c \<noteq> CHR 0x0A) t @ (if CHR 0x0A \<in> set t then [CHR 0x0A] else []))))"

definition show_int :: "int \<Rightarrow> string" where
  "show_int z = (if z < 0 then CHR ''-'' # show_nat (nat (- z)) else show_nat (nat z))"

lemma digit_facts: "c_digit c \<Longrightarrow> \<not> c_space c \<and> c \<noteq> CHR ''-'' \<and> c \<noteq> CHR ''+'' \<and> c \<noteq> CHR 0x0A"
  by (auto simp: c_digit_def c_space_def)

lemma atoi_show_nat: "atoi (show_nat n @ CHR 0x0A # r) = int n"
proof -
  obtain c cs where c: "show_nat n = c # cs" using show_nat_ne by (cases "show_nat n") auto
  have d: "c_digit x" if "x \<in> set (c # cs)" for x using show_nat_digits [of x n] that c by simp
  then have "takeWhile c_digit (c # cs @ CHR 0x0A # r) = c # cs"
    using takeWhile_append2 [of "c # cs" c_digit "CHR 0x0A # r"] by (simp add: c_digit_def)
  with c digit_facts [OF d [of c]] show ?thesis
    by (simp add: atoi_def del: takeWhile.simps) (metis c read_show_nat)
qed

text \<open>\<open>fgets\<close> on a stream: the line it delivers, and what is left.\<close>

definition next_line :: "nat \<Rightarrow> string \<Rightarrow> (string \<times> string) option" where
  "next_line n f = map_option (\<lambda>t. (t, drop (length t) f)) (fgets n f)"

lemma fgets_line:
  assumes "CHR 0x0A \<notin> set l" "length l + 1 < n"
  shows "fgets n (l @ CHR 0x0A # r) = Some (l @ [CHR 0x0A])"
proof -
  have t: "take (n - 1) (l @ CHR 0x0A # r) = l @ CHR 0x0A # take (n - 1 - length l - 1) r"
    using assms(2) by (cases "n - 1 - length l") (simp_all add: take_Cons')
  have "takeWhile (\<lambda>c. c \<noteq> CHR 0x0A) (l @ CHR 0x0A # x) = l" for x
    using assms(1) by (subst takeWhile_append2) auto
  with t show ?thesis by (simp add: fgets_def)
qed

lemma next_line_line:
  "CHR 0x0A \<notin> set l \<Longrightarrow> length l + 1 < n \<Longrightarrow> next_line n (l @ CHR 0x0A # r) = Some (l @ [CHR 0x0A], r)"
  by (simp add: next_line_def fgets_line)

lemma fgets_bound: "fgets n f = Some t \<Longrightarrow> 1 < n \<Longrightarrow> t \<noteq> [] \<and> length t \<le> n - 1 \<and> length t \<le> length f"
proof -
  assume f: "fgets n f = Some t" "1 < n"
  let ?t = "take (n - 1) f"
  have t: "t = takeWhile (\<lambda>c. c \<noteq> CHR 0x0A) ?t @ (if CHR 0x0A \<in> set ?t then [CHR 0x0A] else [])" "?t \<noteq> []"
    using f by (auto simp: fgets_def Let_def split: if_splits)
  have "length t \<le> length ?t"
  proof (cases "CHR 0x0A \<in> set ?t")
    case True
    then have "dropWhile (\<lambda>c. c \<noteq> CHR 0x0A) ?t \<noteq> []" by (auto simp: dropWhile_eq_Nil_conv)
    moreover have "length (takeWhile (\<lambda>c. c \<noteq> CHR 0x0A) ?t) + length (dropWhile (\<lambda>c. c \<noteq> CHR 0x0A) ?t) = length ?t"
      by (metis length_append takeWhile_dropWhile_id)
    ultimately show ?thesis unfolding t(1) using True by (cases "dropWhile (\<lambda>c. c \<noteq> CHR 0x0A) ?t") auto
  next
    case False
    then show ?thesis unfolding t(1) using length_takeWhile_le [of "\<lambda>c. c \<noteq> CHR 0x0A" ?t] by simp
  qed
  moreover have "t \<noteq> []" unfolding t(1) using t(2) by (cases ?t) auto
  ultimately show ?thesis by auto
qed

text \<open>Several programs end at a line that begins with \<open>bye\<close>.\<close>

lemma bye_line: "CHR 0x0A \<notin> set l \<Longrightarrow> take 3 (l @ [CHR 0x0A]) = ''bye'' \<longleftrightarrow> take 3 l = ''bye''"
proof (cases "3 \<le> length l")
  case False
  assume "CHR 0x0A \<notin> set l"
  have "length (take 3 l) < 3" using False by simp
  then have "take 3 l \<noteq> ''bye''" by auto
  moreover have "CHR 0x0A \<in> set (take 3 (l @ [CHR 0x0A]))" using False by simp
  moreover have "CHR 0x0A \<notin> set ''bye''" by simp
  ultimately have "take 3 (l @ [CHR 0x0A]) \<noteq> ''bye''" "take 3 l \<noteq> ''bye''" by metis+
  then show ?thesis by simp
qed simp

end
