(* ===== verification/Locks.thy ===== *)
theory Locks
  imports Critical Stdio
begin

text \<open>
  The programs in which threads or processes update a shared file or counter under a lock, as instances of
  the critical section of \<open>Critical\<close>: \<open>thread/posix/add_race.c\<close> (mutex), \<open>proIO/mmap/add_race.c\<close> (\<open>lockf\<close>),
  \<open>IPC/xsi/sem/add_race.c\<close> (XSI semaphore), \<open>samphorePV.c\<close>, \<open>multi_thread_with_lock.c\<close>, \<open>spin_lock.c\<close> and
  \<open>semaphore/sem.c\<close>.
\<close>

section \<open>The locks\<close>

text \<open>
  A mutex or spin lock with its owner; the lock of \<open>lockf\<close> on a file, which the owner can take again; a semaphore.
\<close>

definition mutex_lock :: "nat \<Rightarrow> nat option \<Rightarrow> nat option option" where
  "mutex_lock i k = (case k of None \<Rightarrow> Some (Some i) | Some j \<Rightarrow> None)"

definition mutex_unlock :: "nat \<Rightarrow> nat option \<Rightarrow> nat option" where
  "mutex_unlock i k = None"

definition lockf_lock :: "nat \<Rightarrow> nat option \<Rightarrow> nat option option" where
  "lockf_lock i k = (case k of None \<Rightarrow> Some (Some i) | Some j \<Rightarrow> if j = i then Some k else None)"

definition lockf_unlock :: "nat \<Rightarrow> nat option \<Rightarrow> nat option" where
  "lockf_unlock i k = (if k = Some i then None else k)"

definition sem_down :: "nat \<Rightarrow> nat \<Rightarrow> nat option" where
  "sem_down i v = (if v = 0 then None else Some (v - 1))"

definition sem_up :: "nat \<Rightarrow> nat \<Rightarrow> nat" where
  "sem_up i v = v + 1"

definition owned :: "nat option \<Rightarrow> nat set \<Rightarrow> bool" where
  "owned k I \<longleftrightarrow> I = set_option k"

definition sem_fits :: "nat \<Rightarrow> nat \<Rightarrow> nat set \<Rightarrow> bool" where
  "sem_fits c v I \<longleftrightarrow> v + card I = c"

lemma card_set_option [simp]: "card (set_option k) \<le> Suc 0"
  by (cases k) simp_all

interpretation mutex: gate mutex_lock mutex_unlock owned 1 None
  by unfold_locales (auto simp: owned_def mutex_lock_def mutex_unlock_def split: option.splits)

interpretation filelock: gate lockf_lock lockf_unlock owned 1 None
  by unfold_locales (auto simp: owned_def lockf_lock_def lockf_unlock_def split: option.splits if_splits)

lemma sem_gate: "gate sem_down sem_up (sem_fits c) c c"
  by unfold_locales (auto simp: sem_fits_def sem_down_def sem_up_def card_Diff_singleton card_gt_0_iff split: if_splits
    dest: card_Suc_Diff1)

interpretation binary: gate sem_down sem_up "sem_fits 1" 1 1
  by (rule sem_gate)

section \<open>Numbers in a file\<close>

definition num_line :: "nat \<Rightarrow> string" where
  "num_line k = show_nat k @ [CHR 0x0A]"

lemma fgets_num_line:
  assumes "int k \<le> INT_MAX"
  shows "fgets 1024 (num_line k) = Some (num_line k)"
proof -
  have "length (show_nat k) \<le> length (show_nat 2147483647)" using assms by (intro show_nat_mono) (simp add: INT_MAX_def)
  also have "\<dots> = 10" by (simp add: show_nat.simps)
  finally have "take 1023 (num_line k) = num_line k" by (simp add: num_line_def)
  moreover have "takeWhile (\<lambda>c. c \<noteq> CHR 0x0A) (num_line k) = show_nat k"
    unfolding num_line_def using show_nat_digits digit_facts by (subst takeWhile_append2) auto
  ultimately show ?thesis by (simp add: fgets_def) (simp add: num_line_def)
qed

section \<open>The three versions of \<open>add_race.c\<close>\<close>

text \<open>
  The shared object is the content of \<open>test.txt\<close>; a thread has its line buffer and the output buffer of its
  stream. \<open>opens\<close> says for which threads \<open>fopen\<close> succeeds, \<open>junk\<close> what the uninitialised line buffer holds.
\<close>

record add_loc =
  linebuf :: string
  obuf :: string

definition add_pre :: "(nat \<Rightarrow> bool) \<Rightarrow> (nat \<Rightarrow> string) \<Rightarrow> nat \<Rightarrow> string \<Rightarrow> add_loc option" where
  "add_pre opens junk i f = (if opens i then Some \<lparr>linebuf = junk i, obuf = []\<rparr> else None)"

definition add_fgets :: "add_loc \<times> string \<Rightarrow> add_loc \<times> string" where
  "add_fgets lf = (case lf of (l, f) \<Rightarrow> (case fgets 1024 f of None \<Rightarrow> (l, f) | Some t \<Rightarrow> (l\<lparr>linebuf := t\<rparr>, f)))"

definition add_fprintf :: "add_loc \<times> string \<Rightarrow> add_loc \<times> string" where
  "add_fprintf lf = (case lf of (l, f) \<Rightarrow> (l\<lparr>obuf := show_int (c_int (atoi (linebuf l) + 1)) @ [CHR 0x0A]\<rparr>, f))"

definition add_flush :: "add_loc \<times> string \<Rightarrow> add_loc \<times> string" where
  "add_flush lf = (case lf of (l, f) \<Rightarrow> (l, obuf l @ drop (length (obuf l)) f))"

text \<open>\<open>thread/posix/add_race.c\<close>: \<open>exit\<close> in one thread ends them all.\<close>

definition thr_func :: "(nat \<Rightarrow> bool) \<Rightarrow> (nat \<Rightarrow> string) \<Rightarrow> (add_loc, string, nat option) code" where
  "thr_func opens junk = \<lparr>pre = add_pre opens junk, fails = \<lambda>_. False, acts = [add_fgets, add_fprintf, add_flush],
     quit = quit_all, enter = mutex_lock, leave = mutex_unlock\<rparr>"

text \<open>\<open>proIO/mmap/add_race.c\<close>.\<close>

definition func_add :: "(nat \<Rightarrow> bool) \<Rightarrow> (nat \<Rightarrow> string) \<Rightarrow> (add_loc, string, nat option) code" where
  "func_add opens junk = \<lparr>pre = add_pre opens junk, fails = \<lambda>_. False, acts = [add_fgets, add_fprintf, add_flush],
     quit = quit_one, enter = lockf_lock, leave = lockf_unlock\<rparr>"

text \<open>
  \<open>IPC/xsi/sem/add_race.c\<close>: \<open>P\<close> and \<open>V\<close>. The condition under which \<open>P\<close> gives up after a failed \<open>semop\<close>,
  \<^verbatim>\<open>errno != EINTR || errno != EAGAIN\<close>, holds for every \<open>errno\<close>; \<open>err i\<close> is the \<open>errno\<close> of a failing \<open>semop\<close> in \<open>P\<close>. The \<open>semop\<close> of
  \<open>V\<close> is taken to succeed. Line 67 calls \<^verbatim>\<open>lockf(fd, F_ULOCK, 0)\<close> with a descriptor that was never set; whatever its value, the process holds no record lock that
  the call could release, and its result is not looked at, so it has no place in the section.
\<close>

definition P_gives_up :: "int \<Rightarrow> bool" where
  "P_gives_up e \<longleftrightarrow> e \<noteq> EINTR \<or> e \<noteq> EAGAIN"

definition xsi_func_add :: "(nat \<Rightarrow> bool) \<Rightarrow> (nat \<Rightarrow> string) \<Rightarrow> (nat \<Rightarrow> int option) \<Rightarrow> (add_loc, string, nat) code" where
  "xsi_func_add opens junk err = \<lparr>pre = add_pre opens junk, fails = \<lambda>i. (case err i of None \<Rightarrow> False | Some e \<Rightarrow> P_gives_up e),
     acts = [add_fgets, add_fprintf, add_flush], quit = quit_one, enter = sem_down, leave = sem_up\<rparr>"

text \<open>\<open>main\<close> starts this many threads or processes and waits for all of them.\<close>

definition PROCNUM :: nat where "PROCNUM = 20"

text \<open>\<open>main\<close>: how a file is left when the twenty have come to their end.\<close>

definition add_main :: "(nat \<Rightarrow> bool) \<Rightarrow> (nat \<Rightarrow> string) \<Rightarrow> string \<Rightarrow> string \<Rightarrow> bool" where
  "add_main opens junk f0 f \<longleftrightarrow> (\<exists>ts. finishes (thr_func opens junk) None f0 PROCNUM 1 f ts)"

definition lockf_main :: "(nat \<Rightarrow> bool) \<Rightarrow> (nat \<Rightarrow> string) \<Rightarrow> string \<Rightarrow> string \<Rightarrow> bool" where
  "lockf_main opens junk f0 f \<longleftrightarrow> (\<exists>ts. finishes (func_add opens junk) None f0 PROCNUM 1 f ts)"

definition xsi_main :: "(nat \<Rightarrow> bool) \<Rightarrow> (nat \<Rightarrow> string) \<Rightarrow> (nat \<Rightarrow> int option) \<Rightarrow> string \<Rightarrow> string \<Rightarrow> bool" where
  "xsi_main opens junk err f0 f \<longleftrightarrow> (\<exists>ts. finishes (xsi_func_add opens junk err) 1 f0 PROCNUM 1 f ts)"

lemmas add_acts = add_fgets_def add_fprintf_def add_flush_def

lemma add_silent: "Suc pc < 3 \<Longrightarrow> snd (([add_fgets, add_fprintf, add_flush] ! pc) (l, f)) = f"
  by (auto simp: add_acts nth_Cons' split: option.splits)

interpretation lockf_add: exclusive lockf_lock lockf_unlock owned None "func_add opens junk"
  by unfold_locales (use add_silent in \<open>auto simp: func_add_def quit_one_def\<close>)

interpretation xsi_add: exclusive sem_down sem_up "sem_fits 1" 1 "xsi_func_add opens junk err"
  by unfold_locales (use add_silent in \<open>auto simp: xsi_func_add_def quit_one_def\<close>)

interpretation mutex_add: exclusive mutex_lock mutex_unlock owned None "thr_func (\<lambda>_. True) junk"
  by unfold_locales (use add_silent in \<open>auto simp: thr_func_def add_pre_def\<close>)


text \<open>What the section does to a file that holds a number, and the number of threads that come through.\<close>

definition bump :: "string \<Rightarrow> string" where
  "bump f = num_line (read_nat (butlast f) + 1)"

lemma bump_num_line [simp]: "(bump ^^ d) (num_line k) = num_line (k + d)"
  by (induction d) (simp_all add: bump_def num_line_def [of "k + _"])

lemma add_section:
  assumes "int k + 1 \<le> INT_MAX" "acts p = [add_fgets, add_fprintf, add_flush]"
  shows "section_of p l (num_line k) = bump (num_line k)"
proof -
  have "atoi (num_line k) = int k" using atoi_show_nat [of k "[]"] by (simp add: num_line_def)
  moreover have "c_int (int k + 1) = int (k + 1)" using assms(1) by (simp add: c_int_id INT_MIN_def)
  moreover have "show_int (int (k + 1)) = show_nat (k + 1)" by (simp add: show_int_def nat_add_distrib)
  moreover have "drop (length (num_line (k + 1))) (num_line k) = []" using show_nat_mono [of k "k + 1"] by (simp add: num_line_def)
  ultimately show ?thesis
    using assms fgets_num_line [of k] bump_num_line [of 1 k]
    by (simp add: section_of_def add_acts num_line_def [of "k + 1"] num_line_def [of "Suc k"])
qed


text \<open>
  C34: The three versions of \<open>add_race.c\<close> lose no update: when \<open>test.txt\<close> holds a number \<open>k\<close> and nothing can run any
  more, it holds \<open>k\<close> plus the number of threads or processes that came through. With the mutex these are all twenty
  (when the file can be opened), with \<open>lockf\<close> those that could open the file, with the semaphore those that could
  open it and whose \<open>semop\<close> in \<open>P\<close> did not fail: a process that is interrupted by a signal in \<open>P\<close> gives up (the \<open>semop\<close> in \<open>V\<close> is taken to
  succeed, and the \<open>lockf\<close> of that version, on a descriptor never set, to release nothing).
\<close>

theorem add_race_counts:
  assumes "int k + int PROCNUM \<le> INT_MAX"
  shows "(add_main (\<lambda>_. True) junk (num_line k) f1 \<longrightarrow> f1 = num_line (k + PROCNUM)) \<and>
    (lockf_main opens junk (num_line k) f2 \<longrightarrow> f2 = num_line (k + card {i. i < PROCNUM \<and> opens i})) \<and>
    (xsi_main opens junk err (num_line k) f3 \<longrightarrow>
      f3 = num_line (k + card {i. i < PROCNUM \<and> opens i \<and> err i = None}))"
  unfolding add_main_def lockf_main_def xsi_main_def
proof (intro conjI impI; elim exE)
  have 1: "section_of (thr_func (\<lambda>_. True) junk) l ((bump ^^ d) (num_line k)) = bump ((bump ^^ d) (num_line k))"
    and 2: "section_of (func_add opens junk) l ((bump ^^ d) (num_line k)) = bump ((bump ^^ d) (num_line k))"
    and 3: "section_of (xsi_func_add opens junk err) l ((bump ^^ d) (num_line k)) = bump ((bump ^^ d) (num_line k))"
    if "d < PROCNUM" for l d
    using that assms by (simp_all add: add_section thr_func_def func_add_def xsi_func_add_def)
  show "f1 = num_line (k + PROCNUM)" if "finishes (thr_func (\<lambda>_. True) junk) None (num_line k) PROCNUM 1 f1 ts1" for ts1
    using mutex_add.completes_once [OF that, where L = "\<lambda>_. True" and f = bump and good = "\<lambda>_. True"] 1
    by (simp add: thr_func_def add_pre_def)
  show "f2 = num_line (k + card {i. i < PROCNUM \<and> opens i})" if "finishes (func_add opens junk) None (num_line k) PROCNUM 1 f2 ts2" for ts2
    using lockf_add.completes_once [OF that, where L = "\<lambda>_. True" and f = bump and good = opens] 2
    by (simp add: func_add_def add_pre_def)
  show "f3 = num_line (k + card {i. i < PROCNUM \<and> opens i \<and> err i = None})"
    if "finishes (xsi_func_add opens junk err) 1 (num_line k) PROCNUM 1 f3 ts3" for ts3
  proof -
    have "fails (xsi_func_add opens junk err) i \<longleftrightarrow> err i \<noteq> None" for i
      by (auto simp: xsi_func_add_def P_gives_up_def errno_defs split: option.splits)
    with xsi_add.completes_once [OF that, where L = "\<lambda>_. True" and f = bump and good = opens] 3 show ?thesis
      by (simp add: xsi_func_add_def add_pre_def)
  qed
qed

theorem add_race_counts_witness:
  "xsi_main (\<lambda>i. i \<noteq> 3) (\<lambda>_. []) (\<lambda>i. if i = 5 then Some EINTR else None) (num_line 7) (num_line 25)"
proof -
  let ?err = "\<lambda>i. if i = 5 then Some EINTR else None"
  obtain f where f: "xsi_main (\<lambda>i. i \<noteq> 3) (\<lambda>_. []) ?err (num_line 7) f" using xsi_add.finishes_ex unfolding xsi_main_def by blast
  have "{i. i < PROCNUM \<and> i \<noteq> 3 \<and> ?err i = None} = {..<20} - {3, 5}" by (auto simp: PROCNUM_def)
  then have "card {i. i < PROCNUM \<and> i \<noteq> 3 \<and> ?err i = None} = 18" by simp
  with add_race_counts [where k = 7 and opens = "\<lambda>i. i \<noteq> 3" and junk = "\<lambda>_. []" and err = ?err] f
  have "f = num_line 25" by (auto simp: PROCNUM_def INT_MAX_def)
  with f show ?thesis by auto
qed

section \<open>Counters\<close>

text \<open>
  \<open>samphorePV.c\<close>: two threads increment \<open>count\<close> 100000 times each between \<open>sem_wait\<close> and \<open>sem_post\<close>; \<open>count++\<close> loads
  and stores.
\<close>

definition load_count :: "int \<times> int \<Rightarrow> int \<times> int" where
  "load_count rc = (case rc of (r, c) \<Rightarrow> (c, c))"

definition store_count :: "int \<times> int \<Rightarrow> int \<times> int" where
  "store_count rc = (case rc of (r, c) \<Rightarrow> (r, c_int (r + 1)))"

definition pv_task :: "(int, int, nat) code" where
  "pv_task = \<lparr>pre = \<lambda>_ _. Some 0, fails = \<lambda>_. False, acts = [load_count, store_count], quit = quit_one,
     enter = sem_down, leave = sem_up\<rparr>"

definition PV_ROUNDS :: nat where "PV_ROUNDS = 100000"

interpretation pv: exclusive sem_down sem_up "sem_fits 1" 1 pv_task
  by unfold_locales (auto simp: pv_task_def quit_one_def load_count_def)

text \<open>
  \<open>multi_thread_with_lock.c\<close> and \<open>spin_lock.c\<close>: a thread counts up in a variable \<open>t\<close> of its own and adds it to the
  shared number under the lock. In \<open>spin_lock.c\<close> \<open>t\<close> starts from the shared number, read without the lock.
\<close>

definition count_up :: "nat \<Rightarrow> int \<Rightarrow> int" where
  "count_up N t = ((\<lambda>t. c_int (t + 1)) ^^ N) t"

record sum_loc =
  t_own :: int
  t_reg :: int

definition load_num :: "sum_loc \<times> int \<Rightarrow> sum_loc \<times> int" where
  "load_num ln = (case ln of (l, n) \<Rightarrow> (l\<lparr>t_reg := n\<rparr>, n))"

definition add_num :: "sum_loc \<times> int \<Rightarrow> sum_loc \<times> int" where
  "add_num ln = (case ln of (l, n) \<Rightarrow> (l, c_int (t_reg l + t_own l)))"

definition lock_handler :: "(sum_loc, int, nat option) code" where
  "lock_handler = \<lparr>pre = \<lambda>_ _. Some \<lparr>t_own = count_up 1000000 0, t_reg = 0\<rparr>, fails = \<lambda>_. False, acts = [load_num, add_num],
     quit = quit_one, enter = mutex_lock, leave = mutex_unlock\<rparr>"

definition spin_task :: "(sum_loc, int, nat option) code" where
  "spin_task = \<lparr>pre = \<lambda>_ n. Some \<lparr>t_own = count_up 10000000 n, t_reg = 0\<rparr>, fails = \<lambda>_. False, acts = [load_num, add_num],
     quit = quit_one, enter = mutex_lock, leave = mutex_unlock\<rparr>"

definition SPIN_THREADS :: nat where "SPIN_THREADS = 3"

interpretation locked: exclusive mutex_lock mutex_unlock owned None lock_handler
  by unfold_locales (auto simp: lock_handler_def quit_one_def load_num_def)

interpretation spin: exclusive mutex_lock mutex_unlock owned None spin_task
  by unfold_locales (auto simp: spin_task_def quit_one_def load_num_def)

lemma count_up_id: "INT_MIN \<le> t \<Longrightarrow> t + int N \<le> INT_MAX \<Longrightarrow> count_up N t = t + int N"
proof (induction N)
  case (Suc N)
  then show ?case by (simp add: count_up_def c_int_id)
qed (simp add: count_up_def)

lemma shift_iter: "((\<lambda>c. c + a) ^^ d) (0 :: int) = int d * a"
  by (induction d) (simp_all add: algebra_simps)

definition pv_main :: "int \<Rightarrow> bool" where
  "pv_main c \<longleftrightarrow> (\<exists>ts. finishes pv_task 1 0 2 PV_ROUNDS c ts)"

definition lock_main :: "int \<Rightarrow> bool" where
  "lock_main n \<longleftrightarrow> (\<exists>ts. finishes lock_handler None 0 2 1 n ts)"

definition spin_main :: "int \<Rightarrow> bool" where
  "spin_main n \<longleftrightarrow> (\<exists>ts. finishes spin_task None 0 SPIN_THREADS 1 n ts)"

text \<open>
  The counters of \<open>samphorePV.c\<close> and \<open>multi_thread_with_lock.c\<close> lose no update: however the two threads
  interleave, at the end \<open>count\<close> is 200000 and \<open>num\<close> is 2000000; and every run of \<open>samphorePV.c\<close> comes to its end.
\<close>

theorem counters_exact:
  "(pv_main c \<longrightarrow> c = 200000) \<and> (lock_main n \<longrightarrow> n = 2000000) \<and>
   ((cs_step pv_task ^^ N) (1, 0, replicate 2 (Out PV_ROUNDS)) (k, c', ts') \<longrightarrow> N \<le> 1200002)"
  unfolding pv_main_def lock_main_def
proof (intro conjI impI; (elim exE)?)
  fix ts
  assume f: "finishes pv_task 1 0 2 PV_ROUNDS c ts"
  have "section_of pv_task l (((\<lambda>c. c + 1) ^^ d) 0) = ((\<lambda>c. c + 1) ^^ d) 0 + 1" if "d < 2 * PV_ROUNDS" for l d
    using that by (simp add: shift_iter section_of_def pv_task_def load_count_def store_count_def c_int_id INT_MIN_def INT_MAX_def PV_ROUNDS_def)
  moreover have "quitters ts = 0"
    using pv.never_quits [OF f] by (simp add: pv_task_def quitters_0)
  ultimately show "c = 200000"
    using pv.completes [OF f, where L = "\<lambda>_. True" and f = "\<lambda>c. c + 1"] by (auto simp: shift_iter PV_ROUNDS_def)
next
  fix us
  assume f: "finishes lock_handler None 0 2 1 n us"
  let ?L = "\<lambda>l. t_own l = 1000000"
  have "section_of lock_handler l (((\<lambda>c. c + 1000000) ^^ d) 0) = ((\<lambda>c. c + 1000000) ^^ d) 0 + 1000000" if "d < 2" "?L l" for l d
    using that by (simp add: shift_iter section_of_def lock_handler_def load_num_def add_num_def c_int_id INT_MIN_def INT_MAX_def)
  moreover have "?L l" if "pre lock_handler i s = Some l" for i s l
    using that by (auto simp: lock_handler_def count_up_id INT_MIN_def INT_MAX_def)
  ultimately have "n = ((\<lambda>c. c + 1000000) ^^ card {i. i < 2 \<and> True \<and> \<not> fails lock_handler i}) 0"
    by (intro locked.completes_once [OF f, where L = ?L]) (auto simp: lock_handler_def)
  then show "n = 2000000" by (simp add: shift_iter lock_handler_def)
next
  assume "(cs_step pv_task ^^ N) (1, 0, replicate 2 (Out PV_ROUNDS)) (k, c', ts')"
  moreover have "length (acts pv_task) = 2" by (simp add: pv_task_def)
  ultimately show "N \<le> 1200002" using pv.steps_bounded [of N 1 0 "replicate 2 (Out PV_ROUNDS)" k c' ts']
    by (simp add: PV_ROUNDS_def sum_list_replicate)
qed

theorem counters_exact_witness:
  "pv_main 200000 \<and> lock_main 2000000"
proof -
  obtain c n where "pv_main c" "lock_main n"
    using pv.finishes_ex locked.finishes_ex unfolding pv_main_def lock_main_def by meson
  with counters_exact [of c n] show ?thesis by blast
qed

text \<open>
  In \<open>spin_lock.c\<close> the unlocked read makes the sum depend on the schedule: \<open>d\<close> additions bring the number between
  \<open>d\<close> and \<open>2 ^ d - 1\<close> times ten million.
\<close>

definition spin_ok :: "int \<times> sum_loc cs list \<Rightarrow> bool" where
  "spin_ok st \<longleftrightarrow> (case st of (n, ts) \<Rightarrow>
     (\<exists>d. d + owing ts = SPIN_THREADS \<and> int d * 10000000 \<le> n \<and> n \<le> (2 ^ d - 1) * 10000000) \<and> Quit \<notin> set ts \<and>
     (\<forall>l j. Wait l j \<in> set ts \<longrightarrow> 10000000 \<le> t_own l \<and> t_own l \<le> n + 10000000))"

lemma spin_section:
  "INT_MIN \<le> n + t_own l \<Longrightarrow> n + t_own l \<le> INT_MAX \<Longrightarrow> section_of spin_task l n = n + t_own l"
  by (simp add: section_of_def spin_task_def load_num_def add_num_def c_int_id)

lemma spin_pow: "d \<le> SPIN_THREADS \<Longrightarrow> (2 :: int) ^ d \<le> 8"
  using power_increasing [of d 3 "2 :: int"] by (simp add: SPIN_THREADS_def)

lemma spin_step:
  assumes "atomic_step spin_task st st'" "spin_ok st"
  shows "spin_ok st'"
  using assms(1)
proof cases
  case (at_begin i ts j n l)
  from assms(2) at_begin(1) obtain d where d: "d + owing ts = SPIN_THREADS" "int d * 10000000 \<le> n" "n \<le> (2 ^ d - 1) * 10000000"
    by (auto simp: spin_ok_def)
  have "2 ^ d \<le> (8 :: int)" using d(1) by (intro spin_pow) simp
  with d have "0 \<le> n" "n \<le> 70000000" by simp_all
  with at_begin(5) have l: "t_own l = n + 10000000" by (auto simp: spin_task_def count_up_id INT_MIN_def INT_MAX_def)
  have "owing (ts[i := Wait l j]) = owing ts" using owing_upd [OF at_begin(3), of "Wait l j"] at_begin(4) by simp
  with d l \<open>0 \<le> n\<close> assms(2) at_begin(1,2) show ?thesis
    by (auto simp: spin_ok_def dest!: set_update_subset_insert [THEN subsetD])
next
  case (at_quit i ts j n l)
  then show ?thesis by (simp add: spin_task_def)
next
  case (at_run i ts l j n)
  from assms(2) at_run(1) obtain d where d: "d + owing ts = SPIN_THREADS" "int d * 10000000 \<le> n" "n \<le> (2 ^ d - 1) * 10000000"
    by (auto simp: spin_ok_def)
  have l: "10000000 \<le> t_own l" "t_own l \<le> n + 10000000" using assms(2) at_run(1,3,4) nth_mem [of i ts] by (force simp: spin_ok_def)+
  have o: "Suc (owing (ts[i := Out j])) = owing ts" using owing_upd [OF at_run(3), of "Out j"] at_run(4) by simp
  have "2 ^ Suc d \<le> (8 :: int)" using d(1) o by (intro spin_pow) simp
  with d(2,3) l have n: "int (Suc d) * 10000000 \<le> n + t_own l" "n + t_own l \<le> (2 ^ Suc d - 1) * 10000000" "n + t_own l \<le> INT_MAX" "0 \<le> n"
    by (simp_all add: INT_MAX_def)
  then have "section_of spin_task l n = n + t_own l" using l by (intro spin_section) (simp_all add: INT_MIN_def)
  moreover have "10000000 \<le> t_own l' \<and> t_own l' \<le> n + t_own l + 10000000" if "Wait l' j' \<in> set ts" for l' j'
  proof -
    have "10000000 \<le> t_own l' \<and> t_own l' \<le> n + 10000000" using that assms(2) at_run(1) by (force simp: spin_ok_def)
    with l(1) show ?thesis by linarith
  qed
  moreover have "Quit \<notin> set ts" using assms(2) at_run(1) by (simp add: spin_ok_def)
  ultimately show ?thesis using n(1,2) o d(1) at_run(2) set_update_subset_insert [of ts i "Out j"]
    by (force simp: spin_ok_def intro!: exI [of _ "Suc d"])
qed

lemma spin_alone:
  assumes "i < length ts" "ts ! i = Out 1" "0 \<le> n" "n \<le> 70000000"
  shows "(cs_step spin_task)\<^sup>*\<^sup>* (None, n, ts) (None, 2 * n + 10000000, ts[i := Out 0])"
proof -
  let ?l = "\<lparr>t_own = n + 10000000, t_reg = 0\<rparr>" and ?l' = "\<lparr>t_own = n + 10000000, t_reg = n\<rparr>"
  have "cs_step spin_task (None, n, ts) (None, n, ts[i := Wait ?l 0])"
    using assms by (intro cs_begin) (auto simp: spin_task_def count_up_id INT_MIN_def INT_MAX_def)
  moreover have "cs_step spin_task (None, n, ts[i := Wait ?l 0]) (Some i, n, ts[i := In 0 ?l 0])"
    using assms cs_enter [of i "ts[i := Wait ?l 0]" ?l 0 spin_task None "Some i" n] by (simp add: spin_task_def mutex_lock_def)
  moreover have "cs_step spin_task (Some i, n, ts[i := In 0 ?l 0]) (Some i, n, ts[i := In 1 ?l' 0])"
    using assms cs_act [of i "ts[i := In 0 ?l 0]" 0 ?l 0 spin_task n ?l' n "Some i"] by (simp add: spin_task_def load_num_def)
  moreover have "cs_step spin_task (Some i, n, ts[i := In 1 ?l' 0]) (Some i, 2 * n + 10000000, ts[i := In 2 ?l' 0])"
    using assms cs_act [of i "ts[i := In 1 ?l' 0]" 1 ?l' 0 spin_task n ?l' "2 * n + 10000000" "Some i"]
    by (simp add: spin_task_def add_num_def c_int_id INT_MIN_def INT_MAX_def numeral_2_eq_2)
  moreover have "cs_step spin_task (Some i, 2 * n + 10000000, ts[i := In 2 ?l' 0]) (None, 2 * n + 10000000, ts[i := Out 0])"
    using assms cs_leave [of i "ts[i := In 2 ?l' 0]" spin_task ?l' 0 "Some i" "2 * n + 10000000"]
    by (simp add: spin_task_def mutex_unlock_def numeral_2_eq_2)
  ultimately show ?thesis by (meson converse_rtranclp_into_rtranclp rtranclp.rtrancl_refl)
qed

lemma spin_over: "\<forall>t \<in> set ts. t = Out 0 \<Longrightarrow> \<not> cs_step spin_task (k, n, ts) st"
  by (auto elim!: cs_stepE dest!: nth_mem)

text \<open>
  \<open>spin_lock.c\<close> does not count to thirty million: each thread starts its own counter from the shared number, which it
  reads without the lock, so the result lies between 30000000 and 70000000 and depends on the schedule; when the
  threads run one after the other it is 70000000.
\<close>

theorem spin_sum_depends:
  "(spin_main n \<longrightarrow> 30000000 \<le> n \<and> n \<le> 70000000) \<and> spin_main 70000000"
  unfolding spin_main_def
proof (intro conjI impI; (elim exE)?)
  fix ts
  assume f: "finishes spin_task None 0 SPIN_THREADS 1 n ts"
  then have r: "(atomic_step spin_task)\<^sup>*\<^sup>* (0, replicate SPIN_THREADS (Out 1)) (n, ts)" "\<forall>t \<in> set ts. t = Out 0"
    using spin.finish_atomic [OF f] spin.never_quits [OF f] by (auto simp: spin_task_def)
  have "spin_ok st" if "(atomic_step spin_task)\<^sup>*\<^sup>* (0, replicate SPIN_THREADS (Out 1)) st" for st
    using that
  proof (induction rule: rtranclp_induct)
    case base
    show ?case by (auto simp: spin_ok_def owing_def SPIN_THREADS_def sum_list_replicate)
  qed (rule spin_step)
  from this [OF r(1)] have s: "spin_ok (n, ts)" .
  have "owing ts = 0" using r(2) by (induction ts) (auto simp: owing_def)
  with s show "30000000 \<le> n" "n \<le> 70000000" by (auto simp: spin_ok_def SPIN_THREADS_def)
next
  let ?o = "[Out 1, Out 1, Out 1] :: sum_loc cs list"
  have "(cs_step spin_task)\<^sup>*\<^sup>* (None, 0, ?o) (None, 70000000, [Out 0, Out 0, Out 0])"
    using spin_alone [of 0 ?o 0] spin_alone [of 1 "[Out 0, Out 1, Out 1]" 10000000] spin_alone [of 2 "[Out 0, Out 0, Out 1]" 30000000]
    by simp
  moreover have "replicate SPIN_THREADS (Out 1) = ?o" by (simp add: SPIN_THREADS_def numeral_3_eq_3)
  ultimately have "finishes spin_task None 0 SPIN_THREADS 1 70000000 [Out 0, Out 0, Out 0]"
    using spin_over [of "[Out 0, Out 0, Out 0]"] by (auto simp: finishes_def)
  then show "\<exists>ts. finishes spin_task None 0 SPIN_THREADS 1 70000000 ts" by blast
qed

theorem spin_sum_depends_witness:
  "\<exists>n. spin_main n \<and> 30000000 \<le> n \<and> n \<le> 70000000"
proof -
  obtain n where "spin_main n" using spin.finishes_ex unfolding spin_main_def by blast
  with spin_sum_depends show ?thesis by blast
qed

section \<open>A limit on the number of threads\<close>

text \<open>\<open>semaphore/sem.c\<close>: eight threads, of which the semaphore lets four run at a time; the shared object is the output.\<close>

datatype said = Started nat | Ended nat

definition MAX_THREADS :: nat where "MAX_THREADS = 8"
definition SEM_N :: nat where "SEM_N = 4"

definition say_started :: "nat \<times> said list \<Rightarrow> nat \<times> said list" where
  "say_started io = (case io of (i, os) \<Rightarrow> (i, os @ [Started i]))"

definition say_ended :: "nat \<times> said list \<Rightarrow> nat \<times> said list" where
  "say_ended io = (case io of (i, os) \<Rightarrow> (i, os @ [Ended i]))"

definition sem_task :: "(nat, said list, nat) code" where
  "sem_task = \<lparr>pre = \<lambda>i _. Some (i + 1), fails = \<lambda>_. False, acts = [say_started, \<lambda>io. io, say_ended], quit = quit_one,
     enter = sem_down, leave = sem_up\<rparr>"

interpretation sem_c: guarded sem_down sem_up "sem_fits SEM_N" SEM_N SEM_N sem_task
  by (intro guarded.intro sem_gate guarded_axioms.intro) (auto simp: sem_task_def SEM_N_def quit_one_def)

text \<open>What thread \<open>i\<close> has said, from where it is.\<close>

fun lines_said :: "nat cs \<Rightarrow> nat \<times> nat" where
  "lines_said (In pc l n) = (if pc = 0 then (0, 0) else if pc < 3 then (1, 0) else (1, 1))"
| "lines_said (Out n) = (if n = 0 then (1, 1) else (0, 0))"
| "lines_said t = (0, 0)"

definition said_ok :: "said list \<Rightarrow> nat \<Rightarrow> nat cs \<Rightarrow> bool" where
  "said_ok os i t \<longleftrightarrow> (count_list os (Started (i + 1)), count_list os (Ended (i + 1))) = lines_said t \<and>
     (case t of Out n \<Rightarrow> n \<le> 1 | Wait l n \<Rightarrow> n = 0 \<and> l = i + 1 | In pc l n \<Rightarrow> n = 0 \<and> l = i + 1 | Quit \<Rightarrow> False)"

lemma said_step:
  assumes "cs_step sem_task (k, os, ts) (k', os', ts')" "\<forall>i < length ts. said_ok os i (ts ! i)"
  shows "length ts' = length ts \<and> (\<forall>i < length ts. said_ok os' i (ts' ! i))"
  using assms(1)
proof cases
  case (cs_act i pc l n l')
  then have pc: "pc = 0 \<or> pc = 1 \<or> pc = 2" by (auto simp: sem_task_def)
  have i: "said_ok os i (In pc l n)" using assms(2) cs_act by auto
  with pc cs_act have "said_ok os' i (In (Suc pc) l' n)"
    by (auto simp: said_ok_def sem_task_def say_started_def say_ended_def)
  moreover from i pc cs_act have "said_ok os' j t = said_ok os j t" if "j \<noteq> i" for j t
    using that by (auto simp: said_ok_def sem_task_def say_started_def say_ended_def)
  ultimately show ?thesis using assms(2) cs_act by (simp add: nth_list_update)
qed (use assms(2) in \<open>auto simp: said_ok_def nth_list_update sem_task_def\<close>)

lemma said_reach:
  assumes "(cs_step sem_task)\<^sup>*\<^sup>* (k0, [], replicate m (Out 1)) (k, os, ts)"
  shows "length ts = m \<and> (\<forall>i < m. said_ok os i (ts ! i))"
proof -
  have "length (snd (snd st)) = m \<and> (\<forall>i < m. said_ok (fst (snd st)) i (snd (snd st) ! i))"
    if "(cs_step sem_task)\<^sup>*\<^sup>* (k0, [], replicate m (Out 1)) st" for st
    using that
  proof (induction rule: rtranclp_induct)
    case (step st st')
    then show ?case using said_step by (cases st; cases st') fastforce
  qed (simp add: said_ok_def)
  from this [OF assms] show ?thesis by simp
qed

text \<open>
  At no time more than four of the eight threads of \<open>sem.c\<close> have printed their start and not yet their end; and
  when nothing can run any more, each thread has printed both lines once.
\<close>

theorem sem_admits_four:
  assumes "(cs_step sem_task)\<^sup>*\<^sup>* (SEM_N, [], replicate MAX_THREADS (Out 1)) (k, os, ts)"
  shows "card {i \<in> {1..MAX_THREADS}. Started i \<in> set os \<and> Ended i \<notin> set os} \<le> 4 \<and>
    ((\<nexists>st. cs_step sem_task (k, os, ts) st) \<longrightarrow>
      (\<forall>i \<in> {1..MAX_THREADS}. count_list os (Started i) = 1 \<and> count_list os (Ended i) = 1))"
proof (intro conjI impI ballI)
  have o: "length ts = MAX_THREADS" "\<And>i. i < MAX_THREADS \<Longrightarrow> said_ok os i (ts ! i)" using said_reach [OF assms] by auto
  have "i - 1 \<in> insiders ts" if i: "1 \<le> i" "i \<le> MAX_THREADS" "Started i \<in> set os" "Ended i \<notin> set os" for i
  proof -
    from i have "i - 1 < MAX_THREADS" by simp
    with o(2) [OF this] i o(1) count_list_0_iff [of os "Ended i"] count_list_0_iff [of os "Started i"] show ?thesis
      by (cases "ts ! (i - 1)") (auto simp: said_ok_def insiders_def split: if_splits)
  qed
  then have "(\<lambda>i. i - 1) ` {i \<in> {1..MAX_THREADS}. Started i \<in> set os \<and> Ended i \<notin> set os} \<subseteq> insiders ts" by auto
  moreover have "inj_on (\<lambda>i. i - 1) {i \<in> {1..MAX_THREADS}. Started i \<in> set os \<and> Ended i \<notin> set os}" by (auto simp: inj_on_def)
  ultimately have "card {i \<in> {1..MAX_THREADS}. Started i \<in> set os \<and> Ended i \<notin> set os} \<le> card (insiders ts)"
    by (intro card_inj_on_le finite_insiders)
  with sem_c.at_most_cap [OF assms] show "card {i \<in> {1..MAX_THREADS}. Started i \<in> set os \<and> Ended i \<notin> set os} \<le> 4"
    by (simp add: insiders_number SEM_N_def)
  fix i
  assume stop: "\<nexists>st. cs_step sem_task (k, os, ts) st" and i: "i \<in> {1..MAX_THREADS}"
  from i have "ts ! (i - 1) \<in> set ts" using o(1) by (intro nth_mem) auto
  with sem_c.no_deadlock [OF sem_c.locked_reach [OF assms] stop] have "ts ! (i - 1) = Out 0 \<or> ts ! (i - 1) = Quit" by blast
  moreover have "i - 1 < MAX_THREADS" using i by auto
  ultimately show "count_list os (Started i) = 1" "count_list os (Ended i) = 1"
    using o(2) [of "i - 1"] i by (auto simp: said_ok_def)
qed

theorem sem_admits_four_witness:
  "\<exists>os ts. finishes sem_task SEM_N [] MAX_THREADS 1 os ts \<and> (\<forall>i \<in> {1..MAX_THREADS}. count_list os (Started i) = 1)"
proof -
  obtain os ts where f: "finishes sem_task SEM_N [] MAX_THREADS 1 os ts" using sem_c.finishes_ex by blast
  then obtain k where "(cs_step sem_task)\<^sup>*\<^sup>* (SEM_N, [], replicate MAX_THREADS (Out 1)) (k, os, ts)" "\<nexists>st. cs_step sem_task (k, os, ts) st"
    by (auto simp: finishes_def)
  with sem_admits_four have "\<forall>i \<in> {1..MAX_THREADS}. count_list os (Started i) = 1" by blast
  with f show ?thesis by blast
qed

end
