(* ===== verification/Bounded.thy ===== *)
theory Bounded
  imports Monitor
begin

text \<open>
  Producers and consumers with a bounded store: \<open>homework/sem_prod_cons.c\<close> (semaphores), \<open>homework/parking.c\<close>
  (condition variables and signals) and \<open>productor_consumer/pc.c\<close> (broadcasts after the unlock). Each is shown to refine a
  counter of what was made and what was taken, never to overrun the store, and to come to an end with everything
  made and taken.
\<close>

section \<open>The specification\<close>

inductive traffic :: "nat \<Rightarrow> nat \<times> nat \<Rightarrow> nat \<times> nat \<Rightarrow> bool" for cap where
  make: "m < t + cap \<Longrightarrow> traffic cap (m, t) (Suc m, t)"
| take: "t < m \<Longrightarrow> traffic cap (m, t) (m, Suc t)"

lemma traffic_make: "m' = Suc m \<Longrightarrow> t' = t \<Longrightarrow> m < t + cap \<Longrightarrow> (traffic cap)\<^sup>=\<^sup>= (m, t) (m', t')"
  by (auto intro: make)

lemma traffic_take: "m' = m \<Longrightarrow> t' = Suc t \<Longrightarrow> t < m \<Longrightarrow> (traffic cap)\<^sup>=\<^sup>= (m, t) (m', t')"
  by (auto intro: take)

lemma traffic_none: "m' = m \<Longrightarrow> t' = t \<Longrightarrow> (traffic cap)\<^sup>=\<^sup>= (m, t) (m', t')"
  by simp

text \<open>
  What is asked of a program: \<open>any\<close> are its steps, \<open>step\<close> those of them that are not wake-ups without a cause.
  When no step is possible, a side that still has something to do is stopped by the store.
\<close>

locale bounded_store =
  fixes any :: "'st \<Rightarrow> 'st \<Rightarrow> bool" and step :: "'st \<Rightarrow> 'st \<Rightarrow> bool" and start :: 'st and inv :: "'st \<Rightarrow> bool"
    and made :: "'st \<Rightarrow> nat" and taken :: "'st \<Rightarrow> nat" and cap :: nat and total :: nat and weight :: "'st \<Rightarrow> nat"
  assumes cap_pos: "0 < cap"
    and inv_start: "inv start"
    and inv_any: "any st st' \<Longrightarrow> inv st \<Longrightarrow> inv st'"
    and start_0: "made start = 0" "taken start = 0"
    and goal: "inv st \<Longrightarrow> made st \<le> total \<and> taken st \<le> total"
    and counts: "any st st' \<Longrightarrow> inv st \<Longrightarrow> (traffic cap)\<^sup>=\<^sup>= (made st, taken st) (made st', taken st')"
    and stuck_make: "inv st \<Longrightarrow> (\<And>st'. \<not> step st st') \<Longrightarrow> made st < total \<Longrightarrow> taken st + cap \<le> made st"
    and stuck_take: "inv st \<Longrightarrow> (\<And>st'. \<not> step st st') \<Longrightarrow> taken st < total \<Longrightarrow> made st \<le> taken st"
    and step_any: "step st st' \<Longrightarrow> any st st'"
    and weight_step: "step st st' \<Longrightarrow> inv st \<Longrightarrow> weight st' < weight st"
begin

lemma inv_reach: "any\<^sup>*\<^sup>* start st \<Longrightarrow> inv st"
  by (induction rule: rtranclp_induct) (auto intro: inv_start inv_any)

lemma refines: "any\<^sup>*\<^sup>* start st \<Longrightarrow> (traffic cap)\<^sup>*\<^sup>* (0, 0) (made st, taken st)"
proof (induction rule: rtranclp_induct)
  case base
  then show ?case by (simp add: start_0)
next
  case (step st st')
  with counts [OF step(2) inv_reach [OF step(1)]] show ?case by (auto intro: rtranclp.rtrancl_into_rtrancl)
qed

lemma simulates: "any\<^sup>*\<^sup>* start st \<Longrightarrow> any st st' \<Longrightarrow> (traffic cap)\<^sup>=\<^sup>= (made st, taken st) (made st', taken st')"
  using counts inv_reach by blast

lemma within: "any\<^sup>*\<^sup>* start st \<Longrightarrow> taken st \<le> made st \<and> made st \<le> taken st + cap"
proof (drule refines)
  have "snd x \<le> fst x \<and> fst x \<le> snd x + cap" if "(traffic cap)\<^sup>*\<^sup>* (0, 0) x" for x
    using that by (induction rule: rtranclp_induct) (auto elim!: traffic.cases)
  then show "(traffic cap)\<^sup>*\<^sup>* (0, 0) (made st, taken st) \<Longrightarrow> ?thesis" by fastforce
qed

lemma complete:
  assumes "any\<^sup>*\<^sup>* start st" "\<And>st'. \<not> step st st'"
  shows "made st = total \<and> taken st = total"
proof -
  note i = inv_reach [OF assms(1)]
  have "made st \<noteq> total \<Longrightarrow> False"
    using goal [OF i] stuck_make [OF i assms(2)] stuck_take [OF i assms(2)] cap_pos by linarith
  moreover have "taken st \<noteq> total \<Longrightarrow> made st = total \<Longrightarrow> False"
    using goal [OF i] stuck_take [OF i assms(2)] by linarith
  ultimately show ?thesis by blast
qed

lemma steps_bound: "(step ^^ n) st st' \<Longrightarrow> inv st \<Longrightarrow> inv st' \<and> n + weight st' \<le> weight st"
proof (induction n arbitrary: st')
  case (Suc n)
  then obtain st1 where st1: "(step ^^ n) st st1" "step st1 st'" by auto
  with Suc inv_any [OF step_any [OF st1(2)]] weight_step [OF st1(2)] show ?case by fastforce
qed simp

lemma run_on: "inv st \<Longrightarrow> \<exists>st'. step\<^sup>*\<^sup>* st st' \<and> (\<forall>st2. \<not> step st' st2)"
proof (induction "weight st" arbitrary: st rule: less_induct)
  case less
  show ?case
  proof (cases "\<exists>st1. step st st1")
    case True
    then obtain st1 where st1: "step st st1" by blast
    from less(1) [OF weight_step [OF st1 less(2)] inv_any [OF step_any [OF st1] less(2)]] st1 show ?thesis
      by (blast intro: converse_rtranclp_into_rtranclp)
  qed blast
qed

lemma ends_ex: "\<exists>st. any\<^sup>*\<^sup>* start st \<and> (\<forall>st'. \<not> step st st')"
  using run_on [OF inv_start] step_any by (meson mono_rtranclp)

end

section \<open>\<open>sem_prod_cons.c\<close>\<close>

definition SIZE_OF_SEM :: nat where "SIZE_OF_SEM = 2"
definition SIZE_OF_PROD :: nat where "SIZE_OF_PROD = 3"
definition SIZE_OF_CONS :: nat where "SIZE_OF_CONS = 3"
definition TOTAL_ITEMS :: nat where "TOTAL_ITEMS = 30"

record store =
  sem_empty :: nat
  sem_full :: nat
  produced_count :: nat
  consumed_count :: nat

text \<open>
  A thread before its \<open>sem_wait\<close> with the rounds that are left, before the mutex, and before its \<open>sem_post\<close>.
\<close>

datatype sp = Down nat | Sect nat | Up nat

fun productor :: "sp \<Rightarrow> store \<Rightarrow> (sp \<times> store) option" where
  "productor (Down 0) s = None"
| "productor (Down (Suc n)) s = (if sem_empty s = 0 then None else Some (Sect n, s\<lparr>sem_empty := sem_empty s - 1\<rparr>))"
| "productor (Sect n) s = Some (Up n, s\<lparr>produced_count := produced_count s + 1\<rparr>)"
| "productor (Up n) s = Some (Down n, s\<lparr>sem_full := sem_full s + 1\<rparr>)"

fun consumer :: "sp \<Rightarrow> store \<Rightarrow> (sp \<times> store) option" where
  "consumer (Down 0) s = None"
| "consumer (Down (Suc n)) s = (if sem_full s = 0 then None else Some (Sect n, s\<lparr>sem_full := sem_full s - 1\<rparr>))"
| "consumer (Sect n) s = Some (Up n, s\<lparr>consumed_count := consumed_count s + 1\<rparr>)"
| "consumer (Up n) s = Some (Down n, s\<lparr>sem_empty := sem_empty s + 1\<rparr>)"

type_synonym sp_state = "sp list \<times> sp list \<times> store"

inductive sp_step :: "sp_state \<Rightarrow> sp_state \<Rightarrow> bool" where
  by_productor: "i < length ps \<Longrightarrow> productor (ps ! i) s = Some (t, s') \<Longrightarrow> sp_step (ps, cs, s) (ps[i := t], cs, s')"
| by_consumer: "i < length cs \<Longrightarrow> consumer (cs ! i) s = Some (t, s') \<Longrightarrow> sp_step (ps, cs, s) (ps, cs[i := t], s')"

definition sp_start :: sp_state where
  "sp_start = (replicate SIZE_OF_PROD (Down 10), replicate SIZE_OF_CONS (Down 10),
     \<lparr>sem_empty = SIZE_OF_SEM, sem_full = 0, produced_count = 0, consumed_count = 0\<rparr>)"

definition tot :: "('a \<Rightarrow> nat) \<Rightarrow> 'a list \<Rightarrow> nat" where
  "tot f xs = sum_list (map f xs)"

lemma tot_upd: "i < length xs \<Longrightarrow> tot f (xs[i := x]) + f (xs ! i) = tot f xs + f x"
  unfolding tot_def by (rule sum_list_upd)

lemma tot_0: "tot f xs = 0 \<longleftrightarrow> (\<forall>x \<in> set xs. f x = 0)"
  by (simp add: tot_def)

text \<open>Rounds still to be counted; units a thread holds between its two semaphores; items in its hands.\<close>

fun sp_todo :: "sp \<Rightarrow> nat" where
  "sp_todo (Down n) = n"
| "sp_todo (Sect n) = Suc n"
| "sp_todo (Up n) = n"

fun sp_mid :: "sp \<Rightarrow> nat" where
  "sp_mid (Down n) = 0"
| "sp_mid t = 1"

fun sp_up :: "sp \<Rightarrow> nat" where
  "sp_up (Up n) = 1"
| "sp_up t = 0"

fun sp_sect :: "sp \<Rightarrow> nat" where
  "sp_sect (Sect n) = 1"
| "sp_sect t = 0"

fun sp_weight :: "sp \<Rightarrow> nat" where
  "sp_weight (Down n) = 3 * n"
| "sp_weight (Sect n) = 3 * n + 2"
| "sp_weight (Up n) = 3 * n + 1"

definition sp_inv :: "sp_state \<Rightarrow> bool" where
  "sp_inv st \<longleftrightarrow> (case st of (ps, cs, s) \<Rightarrow>
     sem_empty s + sem_full s + tot sp_mid ps + tot sp_mid cs = SIZE_OF_SEM \<and>
     produced_count s + tot sp_todo ps = TOTAL_ITEMS \<and> consumed_count s + tot sp_todo cs = TOTAL_ITEMS \<and>
     produced_count s = consumed_count s + sem_full s + tot sp_up ps + tot sp_sect cs \<and>
     tot sp_mid ps = tot sp_sect ps + tot sp_up ps \<and> tot sp_mid cs = tot sp_sect cs + tot sp_up cs)"

abbreviation sp_made :: "sp_state \<Rightarrow> nat" where
  "sp_made st \<equiv> produced_count (snd (snd st))"

abbreviation sp_taken :: "sp_state \<Rightarrow> nat" where
  "sp_taken st \<equiv> consumed_count (snd (snd st))"

definition sp_left :: "sp_state \<Rightarrow> nat" where
  "sp_left st = tot sp_weight (fst st) + tot sp_weight (fst (snd st))"

text \<open>One step of a thread, as it shows in the sums over the threads.\<close>

lemma productor_step:
  assumes "i < length ps" "productor (ps ! i) s = Some (t, s')" "sp_inv (ps, cs, s)"
  shows "sp_inv (ps[i := t], cs, s') \<and> tot sp_weight (ps[i := t]) < tot sp_weight ps \<and>
    consumed_count s' = consumed_count s \<and> (s' = s\<lparr>produced_count := produced_count s + 1\<rparr> \<and> 0 < tot sp_sect ps \<or>
      produced_count s' = produced_count s)"
proof -
  have u: "tot f (ps[i := t]) + f (ps ! i) = tot f ps + f t" for f using tot_upd [OF assms(1)] .
  have "sp_sect (ps ! i) \<le> tot sp_sect ps" using assms(1) by (auto simp: tot_def intro: member_le_sum_list)
  with assms(2,3) u [of sp_todo] u [of sp_mid] u [of sp_up] u [of sp_sect] u [of sp_weight] show ?thesis
    by (cases "ps ! i" rule: sp.exhaust) (auto simp: sp_inv_def elim!: productor.elims split: if_splits)
qed

lemma consumer_step:
  assumes "i < length cs" "consumer (cs ! i) s = Some (t, s')" "sp_inv (ps, cs, s)"
  shows "sp_inv (ps, cs[i := t], s') \<and> tot sp_weight (cs[i := t]) < tot sp_weight cs \<and>
    produced_count s' = produced_count s \<and> (s' = s\<lparr>consumed_count := consumed_count s + 1\<rparr> \<and> 0 < tot sp_sect cs \<or>
      consumed_count s' = consumed_count s)"
proof -
  have u: "tot f (cs[i := t]) + f (cs ! i) = tot f cs + f t" for f using tot_upd [OF assms(1)] .
  have "sp_sect (cs ! i) \<le> tot sp_sect cs" using assms(1) by (auto simp: tot_def intro: member_le_sum_list)
  with assms(2,3) u [of sp_todo] u [of sp_mid] u [of sp_up] u [of sp_sect] u [of sp_weight] show ?thesis
    by (cases "cs ! i" rule: sp.exhaust) (auto simp: sp_inv_def elim!: consumer.elims split: if_splits)
qed

lemma sp_room:
  assumes "sp_inv (ps, cs, s)"
  shows "0 < tot sp_sect ps \<Longrightarrow> produced_count s < consumed_count s + SIZE_OF_SEM" "0 < tot sp_sect cs \<Longrightarrow> consumed_count s < produced_count s"
  using assms by (auto simp: sp_inv_def)

text \<open>When no thread can move, all are before their first semaphore.\<close>

lemma sp_stuck:
  assumes "\<And>st'. \<not> sp_step (ps, cs, s) st'"
  shows "tot sp_mid ps = 0" "tot sp_mid cs = 0" "tot sp_todo ps = 0 \<or> sem_empty s = 0" "tot sp_todo cs = 0 \<or> sem_full s = 0"
proof -
  have p: "productor t s = None" if "t \<in> set ps" for t
    using that assms by_productor [of _ ps s _ _ cs] by (cases "productor t s") (auto simp: in_set_conv_nth)
  have c: "consumer t s = None" if "t \<in> set cs" for t
    using that assms by_consumer [of _ cs s _ _ ps] by (cases "consumer t s") (auto simp: in_set_conv_nth)
  have "productor t s = None \<Longrightarrow> sp_mid t = 0 \<and> (sp_todo t = 0 \<or> sem_empty s = 0)"
    "consumer t s = None \<Longrightarrow> sp_mid t = 0 \<and> (sp_todo t = 0 \<or> sem_full s = 0)" for t
    by (cases t rule: sp_todo.cases; case_tac n; simp split: if_splits)+
  with p c show "tot sp_mid ps = 0" "tot sp_mid cs = 0" "tot sp_todo ps = 0 \<or> sem_empty s = 0" "tot sp_todo cs = 0 \<or> sem_full s = 0"
    by (auto simp: tot_0)
qed

interpretation sp: bounded_store sp_step sp_step sp_start sp_inv sp_made sp_taken SIZE_OF_SEM TOTAL_ITEMS sp_left
proof (unfold_locales, goal_cases)
  case 2
  show ?case by (simp add: sp_inv_def sp_start_def tot_def sum_list_replicate SIZE_OF_PROD_def SIZE_OF_CONS_def TOTAL_ITEMS_def)
next
  case (3 st st')
  then show ?case by cases (use productor_step consumer_step in blast)+
next
  case (6 st)
  then show ?case by (auto simp: sp_inv_def)
next
  case (7 st st')
  from 7(1) show ?case
  proof cases
    case (by_productor i ps s t s' cs)
    with 7(2) productor_step [of i ps s t s' cs] sp_room(1) [of ps cs s] show ?thesis by (auto intro!: make)
  next
    case (by_consumer i cs s t s' ps)
    with 7(2) consumer_step [of i cs s t s' ps] sp_room(2) [of ps cs s] show ?thesis by (auto intro!: take)
  qed
next
  case (8 st)
  then show ?case using sp_stuck [of "fst st" "fst (snd st)" "snd (snd st)"] by (cases st) (auto simp: sp_inv_def)
next
  case (9 st)
  then show ?case using sp_stuck [of "fst st" "fst (snd st)" "snd (snd st)"] by (cases st) (auto simp: sp_inv_def)
next
  case (11 st st')
  then show ?case by cases (use productor_step consumer_step in \<open>fastforce simp: sp_left_def\<close>)+
qed (simp_all add: sp_start_def SIZE_OF_SEM_def)

section \<open>\<open>parking.c\<close> and \<open>pc.c\<close>\<close>

text \<open>
  A thread before its loop's body with the rounds that are left, asleep on its condition variable in such a round, or
  (in \<open>pc.c\<close>) past the unlock and before the broadcast.
\<close>

datatype bt = At nat | Asleep nat | Cast nat

abbreviation asleep :: "bt \<Rightarrow> bool" where
  "asleep t \<equiv> (case t of Asleep n \<Rightarrow> True | _ \<Rightarrow> False)"

fun awaken :: "bt \<Rightarrow> bt" where
  "awaken (Asleep n) = At n"
| "awaken t = t"

text \<open>
  The body of a thread's loop: the new position, the shared number, and whether the other side is notified;
  \<open>None\<close> when the thread is asleep or done.
\<close>

definition MAX_CAPICITY :: nat where "MAX_CAPICITY = 10"

fun enter_car :: "bt \<Rightarrow> nat \<Rightarrow> (bt \<times> nat \<times> bool) option" where
  "enter_car (At (Suc n)) remain_size =
     (if remain_size = 0 then Some (Asleep (Suc n), remain_size, False) else Some (At n, remain_size - 1, True))"
| "enter_car t remain_size = None"

fun exit_car :: "bt \<Rightarrow> nat \<Rightarrow> (bt \<times> nat \<times> bool) option" where
  "exit_car (At (Suc n)) remain_size =
     (if remain_size = MAX_CAPICITY then Some (Asleep (Suc n), remain_size, False) else Some (At n, remain_size + 1, True))"
| "exit_car t remain_size = None"

definition QUEUE_MAX_SIZE :: nat where "QUEUE_MAX_SIZE = 5"

fun pc_prod :: "bt \<Rightarrow> nat \<Rightarrow> (bt \<times> nat \<times> bool) option" where
  "pc_prod (At (Suc n)) sz = (if sz = QUEUE_MAX_SIZE then Some (Asleep (Suc n), sz, False) else Some (Cast n, sz + 1, False))"
| "pc_prod (Cast n) sz = Some (At n, sz, True)"
| "pc_prod t sz = None"

fun pc_cons :: "bt \<Rightarrow> nat \<Rightarrow> (bt \<times> nat \<times> bool) option" where
  "pc_cons (At (Suc n)) sz = (if sz = 0 then Some (Asleep (Suc n), sz, False) else Some (Cast n, sz - 1, False))"
| "pc_cons (Cast n) sz = Some (At n, sz, True)"
| "pc_cons t sz = None"

text \<open>Two lists of threads, the shared number, and how one side notifies the other.\<close>

type_synonym bt_state = "bt list \<times> bt list \<times> nat"
type_synonym bt_code = "bt \<Rightarrow> nat \<Rightarrow> (bt \<times> nat \<times> bool) option"

inductive bt_step :: "bt_code \<Rightarrow> bt_code \<Rightarrow> (bt list \<Rightarrow> bt list \<Rightarrow> bool) \<Rightarrow> bt_state \<Rightarrow> bt_state \<Rightarrow> bool" for mk tk notify where
  mk_silent: "i < length ps \<Longrightarrow> mk (ps ! i) v = Some (t, v', False) \<Longrightarrow> bt_step mk tk notify (ps, cs, v) (ps[i := t], cs, v')"
| mk_notify: "i < length ps \<Longrightarrow> mk (ps ! i) v = Some (t, v', True) \<Longrightarrow> notify cs cs' \<Longrightarrow>
    bt_step mk tk notify (ps, cs, v) (ps[i := t], cs', v')"
| tk_silent: "i < length cs \<Longrightarrow> tk (cs ! i) v = Some (t, v', False) \<Longrightarrow> bt_step mk tk notify (ps, cs, v) (ps, cs[i := t], v')"
| tk_notify: "i < length cs \<Longrightarrow> tk (cs ! i) v = Some (t, v', True) \<Longrightarrow> notify ps ps' \<Longrightarrow>
    bt_step mk tk notify (ps, cs, v) (ps', cs[i := t], v')"

text \<open>With wake-ups that have no cause, which \<open>pthread_cond_wait\<close> permits.\<close>

inductive bt_any :: "bt_code \<Rightarrow> bt_code \<Rightarrow> (bt list \<Rightarrow> bt list \<Rightarrow> bool) \<Rightarrow> bt_state \<Rightarrow> bt_state \<Rightarrow> bool" for mk tk notify where
  caused: "bt_step mk tk notify st st' \<Longrightarrow> bt_any mk tk notify st st'"
| spurious_mk: "i < length ps \<Longrightarrow> bt_any mk tk notify (ps, cs, v) (ps[i := awaken (ps ! i)], cs, v)"
| spurious_tk: "i < length cs \<Longrightarrow> bt_any mk tk notify (ps, cs, v) (ps, cs[i := awaken (cs ! i)], v)"

definition ROUNDS :: nat where "ROUNDS = 10"

definition bt_start :: "nat \<Rightarrow> bt_state" where
  "bt_start v = (replicate 2 (At ROUNDS), replicate 2 (At ROUNDS), v)"

abbreviation park_step :: "bt_state \<Rightarrow> bt_state \<Rightarrow> bool" where
  "park_step \<equiv> bt_step enter_car exit_car (signalled asleep awaken)"

abbreviation park_any :: "bt_state \<Rightarrow> bt_state \<Rightarrow> bool" where
  "park_any \<equiv> bt_any enter_car exit_car (signalled asleep awaken)"

abbreviation pc_step :: "bt_state \<Rightarrow> bt_state \<Rightarrow> bool" where
  "pc_step \<equiv> bt_step pc_prod pc_cons (\<lambda>ts ts'. ts' = broadcast asleep awaken ts)"

abbreviation pc_any :: "bt_state \<Rightarrow> bt_state \<Rightarrow> bool" where
  "pc_any \<equiv> bt_any pc_prod pc_cons (\<lambda>ts ts'. ts' = broadcast asleep awaken ts)"

fun bt_todo :: "bt \<Rightarrow> nat" where
  "bt_todo (At n) = n"
| "bt_todo (Asleep n) = n"
| "bt_todo (Cast n) = n"

fun bt_weight :: "bt \<Rightarrow> nat" where
  "bt_weight (At n) = 10 * n + 1"
| "bt_weight (Asleep n) = 10 * n"
| "bt_weight (Cast n) = 10 * n + 6"

fun ready :: "bt \<Rightarrow> bool" where
  "ready (At (Suc n)) = True"
| "ready t = False"

fun bt_wf :: "bt \<Rightarrow> bool" where
  "bt_wf (Asleep n) = (0 < n)"
| "bt_wf (Cast n) = False"
| "bt_wf t = True"

definition JOB :: nat where "JOB = 20"

definition bt_made :: "bt_state \<Rightarrow> nat" where
  "bt_made st = JOB - tot bt_todo (fst st)"

definition bt_taken :: "bt_state \<Rightarrow> nat" where
  "bt_taken st = JOB - tot bt_todo (fst (snd st))"

definition bt_left :: "bt_state \<Rightarrow> nat" where
  "bt_left st = tot bt_weight (fst st) + tot bt_weight (fst (snd st))"

text \<open>A wake-up changes nothing that counts.\<close>

lemma awaken_facts [simp]:
  "bt_todo (awaken t) = bt_todo t" "\<not> asleep (awaken t)" "bt_wf t \<Longrightarrow> bt_wf (awaken t)" "ready t \<Longrightarrow> ready (awaken t)"
  "bt_wf t \<Longrightarrow> asleep t \<Longrightarrow> ready (awaken t)" "bt_weight (awaken t) \<le> Suc (bt_weight t)"
  "asleep t \<Longrightarrow> \<not> ready t"
  by (cases t; auto simp: gr0_conv_Suc)+

lemma signalled_tots:
  assumes "signalled asleep awaken ys ys'"
  shows "tot bt_todo ys' = tot bt_todo ys" "tot bt_weight ys' \<le> Suc (tot bt_weight ys)" "length ys' = length ys"
  using assms
proof (induction rule: signalled.induct)
  case (somebody j ws)
  { case 1 then show ?case using tot_upd [OF somebody(1), of bt_todo "awaken (ws ! j)"] by simp }
  { case 2 then show ?case using tot_upd [OF somebody(1), of bt_weight "awaken (ws ! j)"] awaken_facts(6) [of "ws ! j"] by linarith }
  { case 3 then show ?case by simp }
qed simp_all

definition side :: "bt list \<Rightarrow> nat \<Rightarrow> bool" where
  "side ts v \<longleftrightarrow> covered asleep ready v ts \<and> (\<forall>t \<in> set ts. bt_wf t)"

text \<open>A thread passes and signals the other side; a thread finds no unit and falls asleep; a wake-up without cause.\<close>

lemma side_signalled:
  assumes "side ys w" "signalled asleep awaken ys ys'"
  shows "side ys' (Suc w)"
proof -
  have wf: "\<forall>t \<in> set ys'. bt_wf t" using signalled_set [OF assms(2)] assms(1) by (fastforce simp: side_def)
  from assms(2,1) have "covered asleep ready (Suc w) ys'"
  proof (induction rule: signalled.induct)
    case (somebody j ws)
    then have "bt_wf (ws ! j)" "w \<le> number ready ws" by (auto simp: side_def covered_def)
    moreover from this somebody have "number ready (ws[j := awaken (ws ! j)]) = Suc (number ready ws)"
      using number_upd [OF somebody(1), of ready "awaken (ws ! j)"] by simp
    ultimately show ?case by (simp add: covered_def)
  qed (simp add: covered_def)
  with wf show ?thesis by (simp add: side_def)
qed

lemma side_pass:
  assumes "side xs (Suc v)" "i < length xs" "xs ! i = At (Suc n)"
  shows "side (xs[i := At n]) v"
  using assms covered_take [of asleep ready v xs i "At n"] ball_upd [of xs bt_wf "At n" i] by (simp add: side_def)

lemma side_sleep: "side xs 0 \<Longrightarrow> side (xs[i := Asleep (Suc n)]) 0"
  using ball_upd [of xs bt_wf "Asleep (Suc n)" i] by (simp add: side_def)

lemma side_spurious:
  assumes "side xs v" "i < length xs"
  shows "side (xs[i := awaken (xs ! i)]) v"
  using assms covered_move [of asleep ready v xs i "awaken (xs ! i)"] ball_upd [of xs bt_wf "awaken (xs ! i)" i]
  by (simp add: side_def)

text \<open>When nobody can move, a side that has rounds left has no units.\<close>

lemma side_stuck:
  assumes "side xs v" "\<forall>t \<in> set xs. \<not> ready t" "0 < tot bt_todo xs"
  shows "v = 0"
proof -
  obtain t where t: "t \<in> set xs" "bt_todo t \<noteq> 0" using assms(3) tot_0 [of bt_todo xs] by auto
  with assms(1,2) have "asleep t" by (cases t rule: ready.cases) (auto simp: side_def)
  with t assms(1) have "v \<le> number ready xs" by (auto simp: side_def covered_def)
  also have "\<dots> = 0" using assms(2) by (simp add: number_def filter_empty_conv)
  finally show ?thesis by simp
qed

definition park_inv :: "bt_state \<Rightarrow> bool" where
  "park_inv st \<longleftrightarrow> (case st of (ps, cs, r) \<Rightarrow> r \<le> MAX_CAPICITY \<and> side ps r \<and> side cs (MAX_CAPICITY - r) \<and>
     tot bt_todo cs = tot bt_todo ps + (MAX_CAPICITY - r) \<and> tot bt_todo cs \<le> JOB)"

lemma enter_carE:
  assumes "enter_car t r = Some (t', r', b)"
  obtains n where "t = At (Suc n)" "r = 0" "t' = Asleep (Suc n)" "r' = 0" "\<not> b"
  | n v where "t = At (Suc n)" "r = Suc v" "t' = At n" "r' = v" "b"
  using assms by (cases t rule: ready.cases; cases r) (auto split: if_splits)

lemma exit_carE:
  assumes "exit_car t r = Some (t', r', b)"
  obtains n where "t = At (Suc n)" "r = MAX_CAPICITY" "t' = Asleep (Suc n)" "r' = r" "\<not> b"
  | n where "t = At (Suc n)" "r \<noteq> MAX_CAPICITY" "t' = At n" "r' = Suc r" "b"
  using assms by (cases t rule: ready.cases) (auto split: if_splits)

lemma park_step_ok:
  assumes "park_step st st'" "park_inv st"
  shows "park_inv st' \<and> (traffic MAX_CAPICITY)\<^sup>=\<^sup>= (bt_made st, bt_taken st) (bt_made st', bt_taken st') \<and> bt_left st' < bt_left st"
  using assms(1)
proof cases
  case (mk_silent i ps v t v' cs)
  from mk_silent(4) obtain n where n: "ps ! i = At (Suc n)" "v = 0" "t = Asleep (Suc n)" "v' = 0" by (elim enter_carE) auto
  with tot_upd [OF mk_silent(3), of bt_todo t] tot_upd [OF mk_silent(3), of bt_weight t] assms(2) mk_silent show ?thesis
    by (auto simp: park_inv_def bt_made_def bt_taken_def bt_left_def side_sleep)
next
  case (mk_notify i ps v t v' cs cs')
  from mk_notify(4) obtain n where n: "ps ! i = At (Suc n)" "v = Suc v'" "t = At n" by (elim enter_carE) auto
  have u: "Suc (tot bt_todo (ps[i := t])) = tot bt_todo ps" "tot bt_weight (ps[i := t]) + 10 = tot bt_weight ps"
    using tot_upd [OF mk_notify(3), of bt_todo t] tot_upd [OF mk_notify(3), of bt_weight t] n by simp_all
  note s = signalled_tots [OF mk_notify(5)]
  have "side (ps[i := t]) v'" using side_pass [of ps v' i n] assms(2) mk_notify n by (simp add: park_inv_def)
  moreover have "side cs' (Suc (MAX_CAPICITY - v))" using side_signalled [OF _ mk_notify(5)] assms(2) mk_notify(1) by (simp add: park_inv_def)
  moreover have "Suc (MAX_CAPICITY - v) = MAX_CAPICITY - v'" using assms(2) mk_notify(1) n by (auto simp: park_inv_def)
  ultimately have "park_inv st'" using assms(2) mk_notify(1,2) n u s by (auto simp: park_inv_def)
  moreover have "(traffic MAX_CAPICITY)\<^sup>=\<^sup>= (bt_made st, bt_taken st) (bt_made st', bt_taken st')"
    by (rule traffic_make) (use assms(2) mk_notify(1,2) n u s in \<open>auto simp: park_inv_def bt_made_def bt_taken_def\<close>)
  moreover have "bt_left st' < bt_left st" using mk_notify(1,2) u s by (simp add: bt_left_def)
  ultimately show ?thesis by blast
next
  case (tk_silent i cs v t v' ps)
  from tk_silent(4) obtain n where n: "cs ! i = At (Suc n)" "v = MAX_CAPICITY" "t = Asleep (Suc n)" "v' = v" by (elim exit_carE) auto
  with tot_upd [OF tk_silent(3), of bt_todo t] tot_upd [OF tk_silent(3), of bt_weight t] assms(2) tk_silent show ?thesis
    by (auto simp: park_inv_def bt_made_def bt_taken_def bt_left_def side_sleep)
next
  case (tk_notify i cs v t v' ps ps')
  from tk_notify(4) obtain n where n: "cs ! i = At (Suc n)" "v \<noteq> MAX_CAPICITY" "t = At n" "v' = Suc v" by (elim exit_carE) auto
  have u: "Suc (tot bt_todo (cs[i := t])) = tot bt_todo cs" "tot bt_weight (cs[i := t]) + 10 = tot bt_weight cs"
    using tot_upd [OF tk_notify(3), of bt_todo t] tot_upd [OF tk_notify(3), of bt_weight t] n by simp_all
  note s = signalled_tots [OF tk_notify(5)]
  have v: "MAX_CAPICITY - v = Suc (MAX_CAPICITY - v')" "v' \<le> MAX_CAPICITY" using assms(2) tk_notify(1) n by (auto simp: park_inv_def)
  have "side (cs[i := t]) (MAX_CAPICITY - v')" using side_pass [of cs "MAX_CAPICITY - v'" i n] assms(2) tk_notify n v by (simp add: park_inv_def)
  moreover have "side ps' v'" using side_signalled [OF _ tk_notify(5), of v] assms(2) tk_notify(1) n by (simp add: park_inv_def)
  ultimately have "park_inv st'" using assms(2) tk_notify(1,2) n u s v by (auto simp: park_inv_def)
  moreover have "(traffic MAX_CAPICITY)\<^sup>=\<^sup>= (bt_made st, bt_taken st) (bt_made st', bt_taken st')"
    by (rule traffic_take) (use assms(2) tk_notify(1,2) n u s v in \<open>auto simp: park_inv_def bt_made_def bt_taken_def\<close>)
  moreover have "bt_left st' < bt_left st" using tk_notify(1,2) u s by (simp add: bt_left_def)
  ultimately show ?thesis by blast
qed

lemma park_any_ok:
  assumes "park_any st st'" "park_inv st"
  shows "park_inv st' \<and> (traffic MAX_CAPICITY)\<^sup>=\<^sup>= (bt_made st, bt_taken st) (bt_made st', bt_taken st')"
  using assms(1)
proof cases
  case caused
  with assms(2) park_step_ok show ?thesis by blast
next
  case (spurious_mk i ps cs v)
  with tot_upd [OF spurious_mk(3), of bt_todo "awaken (ps ! i)"] assms(2) side_spurious [OF _ spurious_mk(3)] show ?thesis
    by (auto simp: park_inv_def bt_made_def bt_taken_def)
next
  case (spurious_tk i cs ps v)
  with tot_upd [OF spurious_tk(3), of bt_todo "awaken (cs ! i)"] assms(2) side_spurious [OF _ spurious_tk(3)] show ?thesis
    by (auto simp: park_inv_def bt_made_def bt_taken_def)
qed

lemma park_stuck:
  assumes "\<And>st'. \<not> park_step (ps, cs, v) st'" "t \<in> set ps \<union> set cs"
  shows "\<not> ready t"
proof
  assume "ready t"
  then obtain n where n: "t = At (Suc n)" by (cases t rule: ready.cases) auto
  obtain ps' cs' where sig: "signalled asleep awaken ps ps'" "signalled asleep awaken cs cs'" using signalled_ex by blast
  from assms(2) consider i where "i < length ps" "ps ! i = t" | i where "i < length cs" "cs ! i = t" by (auto simp: in_set_conv_nth)
  then show False
  proof cases
    case 1
    with n assms(1) sig(2) show ?thesis by (cases v) (force intro: mk_silent mk_notify)+
  next
    case 2
    with n assms(1) sig(1) show ?thesis by (cases "v = MAX_CAPICITY") (force intro: tk_silent tk_notify)+
  qed
qed

interpretation park: bounded_store park_any park_step "bt_start MAX_CAPICITY" park_inv bt_made bt_taken MAX_CAPICITY JOB bt_left
proof (unfold_locales, goal_cases)
  case 2
  show ?case by (simp add: park_inv_def bt_start_def tot_def sum_list_replicate side_def covered_def JOB_def ROUNDS_def)
next
  case (3 st st')
  then show ?case using park_any_ok by blast
next
  case (7 st st')
  then show ?case using park_any_ok by blast
next
  case (8 st)
  obtain ps cs v where st: "st = (ps, cs, v)" by (cases st)
  with park_stuck [of ps cs v] 8(2) have "\<forall>t \<in> set ps. \<not> ready t" by blast
  moreover have "0 < tot bt_todo ps" using 8(3) st by (simp add: bt_made_def)
  ultimately have "v = 0" using side_stuck [of ps v] 8(1) st by (simp add: park_inv_def)
  with 8(1) st show ?case by (simp add: park_inv_def bt_made_def bt_taken_def)
next
  case (9 st)
  obtain ps cs v where st: "st = (ps, cs, v)" by (cases st)
  with park_stuck [of ps cs v] 9(2) have "\<forall>t \<in> set cs. \<not> ready t" by blast
  moreover have "0 < tot bt_todo cs" using 9(3) st by (simp add: bt_taken_def)
  ultimately have "MAX_CAPICITY - v = 0" using side_stuck [of cs "MAX_CAPICITY - v"] 9(1) st by (simp add: park_inv_def)
  with 9(1) st show ?case by (simp add: park_inv_def bt_made_def bt_taken_def)
next
  case (10 st st')
  then show ?case by (rule caused)
next
  case (11 st st')
  then show ?case using park_step_ok by blast
qed (simp_all add: bt_made_def bt_taken_def bt_start_def tot_def sum_list_replicate MAX_CAPICITY_def JOB_def ROUNDS_def)

text \<open>
  \<open>pc.c\<close> broadcasts after it has released the mutex. A thread that sleeps although there is something for it to do has
  a broadcast coming.
\<close>

fun is_cast :: "bt \<Rightarrow> bool" where
  "is_cast (Cast n) = True"
| "is_cast t = False"

definition cast_due :: "bt list \<Rightarrow> bt list \<Rightarrow> nat \<Rightarrow> bool" where
  "cast_due xs ys v \<longleftrightarrow> (\<exists>t \<in> set xs. asleep t) \<and> 0 < v \<longrightarrow> (\<exists>t \<in> set ys. is_cast t)"

definition pc_inv :: "bt_state \<Rightarrow> bool" where
  "pc_inv st \<longleftrightarrow> (case st of (ps, cs, v) \<Rightarrow> v \<le> QUEUE_MAX_SIZE \<and> length ps = 2 \<and> length cs = 2 \<and>
     cast_due ps cs (QUEUE_MAX_SIZE - v) \<and> cast_due cs ps v \<and>
     tot bt_todo cs = tot bt_todo ps + v \<and> tot bt_todo cs \<le> JOB)"

lemma broadcast_tots:
  "tot bt_todo (broadcast asleep awaken ys) = tot bt_todo ys"
  "tot bt_weight (broadcast asleep awaken ys) \<le> tot bt_weight ys + length ys"
  "length (broadcast asleep awaken ys) = length ys"
proof (induction ys)
  case (Cons y ys)
  { case 1 with Cons(1) show ?case by (simp add: broadcast_def tot_def) }
  { case 2 with Cons(2) awaken_facts(6) [of y] show ?case by (simp add: broadcast_def tot_def del: awaken_facts(6)) }
  { case 3 with Cons(3) show ?case by (simp add: broadcast_def) }
qed (simp_all add: broadcast_def tot_def)

lemma broadcast_sets:
  "t \<in> set (broadcast asleep awaken ys) \<Longrightarrow> \<not> asleep t"
  "\<exists>t \<in> set ys. is_cast t \<Longrightarrow> \<exists>t \<in> set (broadcast asleep awaken ys). is_cast t"
  by (auto simp: broadcast_def split: bt.splits)

lemma cast_due_mono: "cast_due xs ys v \<Longrightarrow> w \<le> v \<Longrightarrow> cast_due xs ys w"
  by (auto simp: cast_due_def)

lemma cast_due_broadcast: "cast_due (broadcast asleep awaken xs) ys v" "cast_due xs ys v \<Longrightarrow> cast_due xs (broadcast asleep awaken ys) v"
  using broadcast_sets by (auto simp: cast_due_def)

text \<open>A thread moves on one side: without falling asleep on the left, or without having had a broadcast to do on the right.\<close>

lemma cast_due_left: "cast_due xs ys v \<Longrightarrow> \<not> asleep t \<Longrightarrow> cast_due (xs[i := t]) ys v"
  using set_update_subset_insert [of xs i t] by (fastforce simp: cast_due_def)

lemma cast_due_right:
  assumes "cast_due xs ys v" "i < length ys" "\<not> is_cast (ys ! i)"
  shows "cast_due xs (ys[i := t]) v"
proof -
  have "u \<in> set (ys[i := t])" if u: "u \<in> set ys" "is_cast u" for u
  proof -
    from u(1) obtain j where j: "j < length ys" "ys ! j = u" by (auto simp: in_set_conv_nth)
    with u(2) assms(3) have "i \<noteq> j" by auto
    with j have "j < length (ys[i := t])" "ys[i := t] ! j = u" by auto
    then show ?thesis by (auto simp: in_set_conv_nth)
  qed
  with assms(1) show ?thesis by (auto simp: cast_due_def)
qed

lemma cast_due_now: "i < length ys \<Longrightarrow> is_cast t \<Longrightarrow> cast_due xs (ys[i := t]) v"
  by (auto simp: cast_due_def dest: set_update_memI [of i ys t])

lemma prodE:
  assumes "pc_prod t v = Some (t', v', b)"
  obtains n where "t = At (Suc n)" "v = QUEUE_MAX_SIZE" "t' = Asleep (Suc n)" "v' = v" "\<not> b"
  | n where "t = At (Suc n)" "v \<noteq> QUEUE_MAX_SIZE" "t' = Cast n" "v' = Suc v" "\<not> b"
  | n where "t = Cast n" "t' = At n" "v' = v" "b"
  using assms by (cases t rule: ready.cases) (auto split: if_splits)

lemma consE:
  assumes "pc_cons t v = Some (t', v', b)"
  obtains n where "t = At (Suc n)" "v = 0" "t' = Asleep (Suc n)" "v' = v" "\<not> b"
  | n where "t = At (Suc n)" "v = Suc v'" "t' = Cast n" "\<not> b"
  | n where "t = Cast n" "t' = At n" "v' = v" "b"
  using assms by (cases t rule: ready.cases; cases v) (auto split: if_splits)

lemma cast_due_0 [simp]: "cast_due xs ys 0"
  by (simp add: cast_due_def)

definition pc_good :: "bt_state \<Rightarrow> bt_state \<Rightarrow> bool" where
  "pc_good st st' \<longleftrightarrow> pc_inv st' \<and> (traffic QUEUE_MAX_SIZE)\<^sup>=\<^sup>= (bt_made st, bt_taken st) (bt_made st', bt_taken st') \<and> bt_left st' < bt_left st"

lemma pc_prod_ok:
  assumes "i < length ps" "pc_prod (ps ! i) v = Some (t, v', b)" "pc_inv (ps, cs, v)"
  shows "pc_good (ps, cs, v) (ps[i := t], if b then broadcast asleep awaken cs else cs, v')"
proof -
  note u = tot_upd [OF assms(1), of bt_todo t] tot_upd [OF assms(1), of bt_weight t]
  have inv: "cast_due ps cs (QUEUE_MAX_SIZE - v)" "cast_due cs ps v" using assms(3) by (auto simp: pc_inv_def)
  from assms(2) show ?thesis
  proof (cases rule: prodE)
    case (1 n)
    with inv cast_due_right [OF inv(2) assms(1)] have "cast_due (ps[i := t]) cs (QUEUE_MAX_SIZE - v')" "cast_due cs (ps[i := t]) v'"
      by simp_all
    with 1 u assms(3) show ?thesis by (auto simp: pc_good_def pc_inv_def bt_made_def bt_taken_def bt_left_def)
  next
    case (2 n)
    have "cast_due (ps[i := t]) cs (QUEUE_MAX_SIZE - v')" "cast_due cs (ps[i := t]) v'"
      using 2 cast_due_left [OF cast_due_mono [OF inv(1)]] cast_due_now [OF assms(1)] by simp_all
    moreover have "(traffic QUEUE_MAX_SIZE)\<^sup>=\<^sup>= (bt_made (ps, cs, v), bt_taken (ps, cs, v)) (bt_made (ps[i := t], cs, v'), bt_taken (ps[i := t], cs, v'))"
      by (rule traffic_make) (use 2 u assms(3) in \<open>auto simp: pc_inv_def bt_made_def bt_taken_def\<close>)
    ultimately show ?thesis using 2 u assms(3) by (auto simp: pc_good_def pc_inv_def bt_left_def)
  next
    case (3 n)
    with inv cast_due_broadcast cast_due_left have "cast_due (ps[i := t]) (broadcast asleep awaken cs) (QUEUE_MAX_SIZE - v')"
      "cast_due (broadcast asleep awaken cs) (ps[i := t]) v'" by auto
    with 3 u assms(3) broadcast_tots [of cs] show ?thesis
      by (auto simp: pc_good_def pc_inv_def bt_made_def bt_taken_def bt_left_def)
  qed
qed

lemma pc_cons_ok:
  assumes "i < length cs" "pc_cons (cs ! i) v = Some (t, v', b)" "pc_inv (ps, cs, v)"
  shows "pc_good (ps, cs, v) (if b then broadcast asleep awaken ps else ps, cs[i := t], v')"
proof -
  note u = tot_upd [OF assms(1), of bt_todo t] tot_upd [OF assms(1), of bt_weight t]
  have inv: "cast_due ps cs (QUEUE_MAX_SIZE - v)" "cast_due cs ps v" using assms(3) by (auto simp: pc_inv_def)
  from assms(2) show ?thesis
  proof (cases rule: consE)
    case (1 n)
    with inv cast_due_right [OF inv(1) assms(1)] have "cast_due (cs[i := t]) ps v'" "cast_due ps (cs[i := t]) (QUEUE_MAX_SIZE - v')"
      by simp_all
    with 1 u assms(3) show ?thesis by (auto simp: pc_good_def pc_inv_def bt_made_def bt_taken_def bt_left_def)
  next
    case (2 n)
    have "cast_due (cs[i := t]) ps v'" "cast_due ps (cs[i := t]) (QUEUE_MAX_SIZE - v')"
      using 2 cast_due_left [OF cast_due_mono [OF inv(2)]] cast_due_now [OF assms(1)] by simp_all
    moreover have "(traffic QUEUE_MAX_SIZE)\<^sup>=\<^sup>= (bt_made (ps, cs, v), bt_taken (ps, cs, v)) (bt_made (ps, cs[i := t], v'), bt_taken (ps, cs[i := t], v'))"
      by (rule traffic_take) (use 2 u assms(3) in \<open>auto simp: pc_inv_def bt_made_def bt_taken_def\<close>)
    ultimately show ?thesis using 2 u assms(3) by (auto simp: pc_good_def pc_inv_def bt_left_def)
  next
    case (3 n)
    with inv cast_due_broadcast cast_due_left have "cast_due (cs[i := t]) (broadcast asleep awaken ps) v'"
      "cast_due (broadcast asleep awaken ps) (cs[i := t]) (QUEUE_MAX_SIZE - v')" by auto
    with 3 u assms(3) broadcast_tots [of ps] show ?thesis
      by (auto simp: pc_good_def pc_inv_def bt_made_def bt_taken_def bt_left_def)
  qed
qed

lemma pc_step_ok: "pc_step st st' \<Longrightarrow> pc_inv st \<Longrightarrow> pc_good st st'"
proof (induction rule: bt_step.induct)
  case (mk_silent i ps v t v' cs)
  then show ?case using pc_prod_ok [of i ps v t v' False cs] by simp
next
  case (mk_notify i ps v t v' cs cs')
  then show ?case using pc_prod_ok [of i ps v t v' True cs] by simp
next
  case (tk_silent i cs v t v' ps)
  then show ?case using pc_cons_ok [of i cs v t v' False ps] by simp
next
  case (tk_notify i cs v t v' ps ps')
  then show ?case using pc_cons_ok [of i cs v t v' True ps] by simp
qed

lemma pc_any_ok:
  assumes "pc_any st st'" "pc_inv st"
  shows "pc_inv st' \<and> (traffic QUEUE_MAX_SIZE)\<^sup>=\<^sup>= (bt_made st, bt_taken st) (bt_made st', bt_taken st')"
  using assms(1)
proof cases
  case caused
  with assms(2) pc_step_ok show ?thesis by (auto simp: pc_good_def)
next
  case (spurious_mk i ps cs v)
  have "cast_due ps cs w \<Longrightarrow> cast_due (ps[i := awaken (ps ! i)]) cs w" "cast_due cs ps w \<Longrightarrow> cast_due cs (ps[i := awaken (ps ! i)]) w" for w
    using cast_due_left [of ps cs w "awaken (ps ! i)" i] cast_due_right [OF _ spurious_mk(3)] list_update_id [of ps i]
    by (cases "ps ! i"; simp)+
  with tot_upd [OF spurious_mk(3), of bt_todo "awaken (ps ! i)"] assms(2) spurious_mk show ?thesis
    by (auto simp: pc_inv_def bt_made_def bt_taken_def)
next
  case (spurious_tk i cs ps v)
  have "cast_due cs ps w \<Longrightarrow> cast_due (cs[i := awaken (cs ! i)]) ps w" "cast_due ps cs w \<Longrightarrow> cast_due ps (cs[i := awaken (cs ! i)]) w" for w
    using cast_due_left [of cs ps w "awaken (cs ! i)" i] cast_due_right [OF _ spurious_tk(3)] list_update_id [of cs i]
    by (cases "cs ! i"; simp)+
  with tot_upd [OF spurious_tk(3), of bt_todo "awaken (cs ! i)"] assms(2) spurious_tk show ?thesis
    by (auto simp: pc_inv_def bt_made_def bt_taken_def)
qed

lemma pc_stuck:
  assumes "\<And>st'. \<not> pc_step (ps, cs, v) st'"
  shows "\<forall>t \<in> set ps \<union> set cs. \<not> ready t \<and> \<not> is_cast t"
proof (rule ballI, rule ccontr)
  fix t
  assume "t \<in> set ps \<union> set cs" and "\<not> (\<not> ready t \<and> \<not> is_cast t)"
  then have *: "ready t \<or> is_cast t" by blast
  from \<open>t \<in> set ps \<union> set cs\<close> consider i where "i < length ps" "ps ! i = t" | i where "i < length cs" "cs ! i = t" by (auto simp: in_set_conv_nth)
  then show False
  proof cases
    case 1
    with * have "pc_prod (ps ! i) v \<noteq> None" by (cases t rule: ready.cases) auto
    then obtain t' v' b where "pc_prod (ps ! i) v = Some (t', v', b)" by (auto simp: not_None_eq)
    with mk_silent [OF 1(1), of pc_prod v t' v'] mk_notify [OF 1(1), of pc_prod v t' v'] assms show ?thesis by (cases b) fastforce+
  next
    case 2
    with * have "pc_cons (cs ! i) v \<noteq> None" by (cases t rule: ready.cases) auto
    then obtain t' v' b where "pc_cons (cs ! i) v = Some (t', v', b)" by (auto simp: not_None_eq)
    with tk_silent [OF 2(1), of pc_cons v t' v'] tk_notify [OF 2(1), of pc_cons v t' v'] assms show ?thesis by (cases b) fastforce+
  qed
qed

lemma idle_due:
  assumes "cast_due xs ys v" "\<forall>t \<in> set xs \<union> set ys. \<not> ready t \<and> \<not> is_cast t" "0 < tot bt_todo xs"
  shows "v = 0"
proof -
  obtain t where t: "t \<in> set xs" "bt_todo t \<noteq> 0" using assms(3) tot_0 [of bt_todo xs] by auto
  moreover from assms(2) t(1) have "\<not> ready t" "\<not> is_cast t" by blast+
  ultimately have "asleep t" by (cases t rule: ready.cases) simp_all
  with t assms show ?thesis by (auto simp: cast_due_def)
qed

interpretation pc: bounded_store pc_any pc_step "bt_start 0" pc_inv bt_made bt_taken QUEUE_MAX_SIZE JOB bt_left
proof (unfold_locales, goal_cases)
  case 2
  show ?case by (simp add: pc_inv_def bt_start_def tot_def sum_list_replicate cast_due_def JOB_def ROUNDS_def)
next
  case (3 st st')
  then show ?case using pc_any_ok by blast
next
  case (7 st st')
  then show ?case using pc_any_ok by blast
next
  case (8 st)
  obtain ps cs v where st: "st = (ps, cs, v)" by (cases st)
  with pc_stuck [of ps cs v] 8(2) have n: "\<forall>t \<in> set ps \<union> set cs. \<not> ready t \<and> \<not> is_cast t" by blast
  have "0 < tot bt_todo ps" using 8(3) st by (simp add: bt_made_def)
  with n have "QUEUE_MAX_SIZE - v = 0" using idle_due [of ps cs "QUEUE_MAX_SIZE - v"] 8(1) st by (auto simp: pc_inv_def)
  with 8(1) st show ?case by (simp add: pc_inv_def bt_made_def bt_taken_def)
next
  case (9 st)
  obtain ps cs v where st: "st = (ps, cs, v)" by (cases st)
  with pc_stuck [of ps cs v] 9(2) have n: "\<forall>t \<in> set ps \<union> set cs. \<not> ready t \<and> \<not> is_cast t" by blast
  have "0 < tot bt_todo cs" using 9(3) st by (simp add: bt_taken_def)
  with n have "v = 0" using idle_due [of cs ps v] 9(1) st by (auto simp: pc_inv_def)
  with 9(1) st show ?case by (simp add: pc_inv_def bt_made_def bt_taken_def)
next
  case (10 st st')
  then show ?case by (rule caused)
next
  case (11 st st')
  then show ?case using pc_step_ok by (auto simp: pc_good_def)
qed (simp_all add: bt_made_def bt_taken_def bt_start_def tot_def sum_list_replicate QUEUE_MAX_SIZE_def JOB_def ROUNDS_def)

section \<open>The properties\<close>

text \<open>
  C35: The three producer and consumer programs refine the counter of items made and taken. Nothing is made or taken at the start. In every state
  that any interleaving can reach, even with wake-ups that have no cause, each single step makes exactly one item, and this only while fewer than 2
  (10, 5) are in the store, or takes exactly one, and this only while one is in the store, or changes neither count; so what was taken never
  exceeds what was made, nor does what is in the store exceed its capacity. The programs' own variables agree with the counts: \<open>produced_count\<close> and \<open>consumed_count\<close>
  are the counts of the first program, \<open>remain_size\<close> is the free room of the second and the size of the queue the stock of the third.
\<close>

theorem stores_refine:
  "(sp_made sp_start, sp_taken sp_start) = (0, 0) \<and> (bt_made (bt_start v), bt_taken (bt_start v)) = (0, 0) \<and>
   (sp_step\<^sup>*\<^sup>* sp_start st1 \<longrightarrow> sp_taken st1 \<le> sp_made st1 \<and> sp_made st1 \<le> sp_taken st1 + SIZE_OF_SEM \<and>
     (\<forall>st'. sp_step st1 st' \<longrightarrow> (traffic SIZE_OF_SEM)\<^sup>=\<^sup>= (sp_made st1, sp_taken st1) (sp_made st', sp_taken st'))) \<and>
   (park_any\<^sup>*\<^sup>* (bt_start MAX_CAPICITY) st2 \<longrightarrow> bt_taken st2 \<le> bt_made st2 \<and> bt_made st2 \<le> bt_taken st2 + MAX_CAPICITY \<and>
     bt_made st2 + snd (snd st2) = bt_taken st2 + MAX_CAPICITY \<and>
     (\<forall>st'. park_any st2 st' \<longrightarrow> (traffic MAX_CAPICITY)\<^sup>=\<^sup>= (bt_made st2, bt_taken st2) (bt_made st', bt_taken st'))) \<and>
   (pc_any\<^sup>*\<^sup>* (bt_start 0) st3 \<longrightarrow> bt_taken st3 \<le> bt_made st3 \<and> bt_made st3 \<le> bt_taken st3 + QUEUE_MAX_SIZE \<and>
     bt_made st3 = bt_taken st3 + snd (snd st3) \<and>
     (\<forall>st'. pc_any st3 st' \<longrightarrow> (traffic QUEUE_MAX_SIZE)\<^sup>=\<^sup>= (bt_made st3, bt_taken st3) (bt_made st', bt_taken st')))"
proof -
  have "(bt_made (bt_start v), bt_taken (bt_start v)) = (0, 0)"
    by (simp add: bt_made_def bt_taken_def bt_start_def tot_def sum_list_replicate JOB_def ROUNDS_def)
  moreover have "bt_made st2 + snd (snd st2) = bt_taken st2 + MAX_CAPICITY" if "park_any\<^sup>*\<^sup>* (bt_start MAX_CAPICITY) st2"
    using park.inv_reach [OF that] by (auto simp: park_inv_def bt_made_def bt_taken_def)
  moreover have "bt_made st3 = bt_taken st3 + snd (snd st3)" if "pc_any\<^sup>*\<^sup>* (bt_start 0) st3"
    using pc.inv_reach [OF that] by (auto simp: pc_inv_def bt_made_def bt_taken_def)
  moreover note sp.start_0 sp.simulates sp.within park.simulates park.within pc.simulates pc.within
  ultimately show ?thesis by (metis (no_types, lifting))
qed

theorem stores_refine_witness:
  "\<exists>st2. park_any\<^sup>*\<^sup>* (bt_start MAX_CAPICITY) st2 \<and> (\<forall>st'. \<not> park_step st2 st') \<and> bt_made st2 \<le> bt_taken st2 + 10"
proof -
  obtain st2 where "park_any\<^sup>*\<^sup>* (bt_start MAX_CAPICITY) st2" "\<forall>st'. \<not> park_step st2 st'" using park.ends_ex by blast
  moreover from this(1) stores_refine [of 0 sp_start st2 "bt_start 0"] have "bt_made st2 \<le> bt_taken st2 + 10"
    by (simp add: MAX_CAPICITY_def)
  ultimately show ?thesis by blast
qed

text \<open>
  C36: None of the three programs deadlocks or runs on: where no thread can move, all thirty items (twenty cars, twenty
  items) were made and taken, so every \<open>pthread_join\<close> of \<open>main\<close> returns; and without wake-ups that have no cause a run has
  at most 180 steps (404 steps for \<open>parking.c\<close> and \<open>pc.c\<close>).
\<close>

theorem stores_complete:
  "(sp_step\<^sup>*\<^sup>* sp_start st1 \<and> (\<forall>st'. \<not> sp_step st1 st') \<longrightarrow> sp_made st1 = 30 \<and> sp_taken st1 = 30) \<and>
   (park_any\<^sup>*\<^sup>* (bt_start MAX_CAPICITY) st2 \<and> (\<forall>st'. \<not> park_step st2 st') \<longrightarrow> bt_made st2 = 20 \<and> bt_taken st2 = 20) \<and>
   (pc_any\<^sup>*\<^sup>* (bt_start 0) st3 \<and> (\<forall>st'. \<not> pc_step st3 st') \<longrightarrow> bt_made st3 = 20 \<and> bt_taken st3 = 20) \<and>
   ((sp_step ^^ n) sp_start st1 \<longrightarrow> n \<le> 180) \<and>
   ((park_step ^^ n) (bt_start MAX_CAPICITY) st2 \<longrightarrow> n \<le> 404) \<and> ((pc_step ^^ n) (bt_start 0) st3 \<longrightarrow> n \<le> 404)"
proof -
  have w: "sp_left sp_start = 180" "bt_left (bt_start v) = 404" for v
    by (simp_all add: sp_left_def sp_start_def bt_left_def bt_start_def tot_def sum_list_replicate SIZE_OF_PROD_def SIZE_OF_CONS_def ROUNDS_def)
  have "(sp_step ^^ n) sp_start st1 \<longrightarrow> n \<le> 180" "(park_step ^^ n) (bt_start MAX_CAPICITY) st2 \<longrightarrow> n \<le> 404"
    "(pc_step ^^ n) (bt_start 0) st3 \<longrightarrow> n \<le> 404"
    using sp.steps_bound [OF _ sp.inv_start, of n st1] park.steps_bound [OF _ park.inv_start, of n st2]
      pc.steps_bound [OF _ pc.inv_start, of n st3] by (simp_all only: w) linarith+
  moreover note sp.complete [of st1, unfolded TOTAL_ITEMS_def] park.complete [of st2, unfolded JOB_def] pc.complete [of st3, unfolded JOB_def]
  ultimately show ?thesis by blast
qed

theorem stores_complete_witness:
  "\<exists>st. pc_any\<^sup>*\<^sup>* (bt_start 0) st \<and> (\<forall>st'. \<not> pc_step st st') \<and> bt_made st = 20 \<and> bt_taken st = 20"
proof -
  obtain st3 where "pc_any\<^sup>*\<^sup>* (bt_start 0) st3" "\<forall>st'. \<not> pc_step st3 st'" using pc.ends_ex by blast
  with stores_complete [of sp_start "bt_start 0" st3 0] show ?thesis by blast
qed

end
