(* ===== verification/Turns.thy ===== *)
theory Turns
  imports Monitor
begin

text \<open>
  Four threads that print \<open>a\<close>, \<open>b\<close>, \<open>c\<close>, \<open>d\<close> in turn: \<open>thread/posix/abcd_race.c\<close> with a mutex for each thread, which the
  thread before it unlocks -- which POSIX leaves undefined, since that thread has not locked it --, and \<open>mytbf_multithread/abcd_race_notice.c\<close> with one mutex and a condition variable. The
  \<open>alarm(3)\<close> of \<open>main\<close> ends the process at some time; until then the threads run for ever.
\<close>

section \<open>Taking turns\<close>

definition ABCD :: nat where "ABCD = 4"

text \<open>
  Each step writes the letter whose turn it is, or brings the next letter nearer; there is always a step.
\<close>

locale turn_taking =
  fixes step :: "'st \<Rightarrow> 'st \<Rightarrow> bool" and start :: 'st and inv :: "'st \<Rightarrow> bool"
    and out :: "'st \<Rightarrow> nat list" and lag :: "'st \<Rightarrow> nat" and B :: nat
  assumes inv_start: "inv start" and out_start: "out start = []"
    and inv_step: "step st st' \<Longrightarrow> inv st \<Longrightarrow> inv st'"
    and grow: "step st st' \<Longrightarrow> inv st \<Longrightarrow> out st' = out st \<and> lag st' < lag st \<or> out st' = out st @ [length (out st) mod ABCD]"
    and lag_le: "inv st \<Longrightarrow> lag st \<le> B"
    and live: "inv st \<Longrightarrow> \<exists>st'. step st st'"
begin

lemma inv_reach: "step\<^sup>*\<^sup>* start st \<Longrightarrow> inv st"
  by (induction rule: rtranclp_induct) (auto intro: inv_start inv_step)

lemma in_order: "step\<^sup>*\<^sup>* start st \<Longrightarrow> out st = map (\<lambda>j. j mod ABCD) [0..<length (out st)]"
proof (induction rule: rtranclp_induct)
  case (step st st')
  from grow [OF step(2) inv_reach [OF step(1)]] show ?case
  proof
    assume "out st' = out st @ [length (out st) mod ABCD]"
    with step(3) show ?thesis by simp
  qed (use step(3) in simp)
qed (simp add: out_start)

lemma steps_grow:
  assumes "(step ^^ n) st st'" "inv st"
  shows "inv st' \<and> (out st' = out st \<and> n + lag st' \<le> lag st \<or> length (out st) < length (out st'))"
  using assms(1)
proof (induction n arbitrary: st')
  case (Suc n)
  then obtain st1 where st1: "(step ^^ n) st st1" "step st1 st'" by auto
  note i = Suc.IH [OF st1(1)]
  with grow [OF st1(2)] inv_step [OF st1(2)] show ?case by auto
qed (use assms(2) in simp)

lemma letter_within: "(step ^^ Suc B) st st' \<Longrightarrow> step\<^sup>*\<^sup>* start st \<Longrightarrow> length (out st) < length (out st')"
  using steps_grow [of "Suc B" st st'] lag_le [of st] inv_reach [of st] by auto

lemma never_stuck: "step\<^sup>*\<^sup>* start st \<Longrightarrow> \<exists>st'. step st st'"
  using live inv_reach by blast

lemma run_ex: "step\<^sup>*\<^sup>* start st \<Longrightarrow> \<exists>st'. (step ^^ n) st st'"
proof (induction n arbitrary: st)
  case (Suc n)
  then obtain st1 where st1: "step st st1" using never_stuck by blast
  with Suc have "step\<^sup>*\<^sup>* start st1" by (auto intro: rtranclp.rtrancl_into_rtrancl)
  with Suc.IH st1 show ?case by (metis relpowp_Suc_I2)
qed auto

end

section \<open>The programs\<close>

text \<open>\<^verbatim>\<open>static int next(int i)\<close>, the same in both.\<close>

definition next_thr :: "nat \<Rightarrow> nat" where
  "next_thr i = (if i + 1 = ABCD then 0 else i + 1)"

lemma next_thr_mod: "i < ABCD \<Longrightarrow> next_thr i = Suc i mod ABCD"
  by (auto simp: next_thr_def ABCD_def)

text \<open>
  \<open>abcd_race.c\<close>: a thread is before its \<open>pthread_mutex_lock\<close>, before its \<open>write\<close>, or before the unlock of the next
  thread's mutex. A mutex is locked or not and has the thread that locked it last, \<open>main\<close> being number 4. To unlock a default mutex that another
  thread has locked is undefined in POSIX. An implementation may still define it as a plain release, as Linux does for the default type; whether it does
  is the parameter \<open>lenient\<close>.
\<close>

datatype abcd = Locking | Writing | Unlocking

record abcd_st =
  mut_locked :: "bool list"
  mut_owner :: "nat list"
  abcd_thr :: "abcd list"
  letters :: "nat list"

definition abcd_unlock :: "bool \<Rightarrow> nat \<Rightarrow> nat \<Rightarrow> abcd_st \<Rightarrow> (unit, abcd_st) outcome" where
  "abcd_unlock lenient n m s =
     (if mut_locked s ! m \<and> (mut_owner s ! m = n \<or> lenient) then Ret () (s\<lparr>mut_locked := (mut_locked s)[m := False]\<rparr>) else Undef s)"

definition abcd_func :: "bool \<Rightarrow> nat \<Rightarrow> abcd_st \<Rightarrow> (unit, abcd_st) outcome" where
  "abcd_func lenient n s = (case abcd_thr s ! n of
      Locking \<Rightarrow> if mut_locked s ! n then Blocked s
        else Ret () (s\<lparr>mut_locked := (mut_locked s)[n := True], mut_owner := (mut_owner s)[n := n], abcd_thr := (abcd_thr s)[n := Writing]\<rparr>)
    | Writing \<Rightarrow> Ret () (s\<lparr>letters := letters s @ [n], abcd_thr := (abcd_thr s)[n := Unlocking]\<rparr>)
    | Unlocking \<Rightarrow> bind_outcome (abcd_unlock lenient n (next_thr n) s) (\<lambda>_ s'. Ret () (s'\<lparr>abcd_thr := (abcd_thr s')[n := Locking]\<rparr>)))"

inductive abcd_step :: "bool \<Rightarrow> abcd_st \<Rightarrow> abcd_st \<Rightarrow> bool" for lenient where
  "n < ABCD \<Longrightarrow> abcd_func lenient n s = Ret () s' \<Longrightarrow> abcd_step lenient s s'"

text \<open>Some thread is at an undefined operation.\<close>

definition abcd_undef :: "bool \<Rightarrow> abcd_st \<Rightarrow> bool" where
  "abcd_undef lenient s \<longleftrightarrow> (\<exists>n < ABCD. abcd_func lenient n s = Undef s)"

text \<open>\<open>main\<close> has created each mutex, locked it, created each thread, and unlocks the first mutex, which is its own.\<close>

definition abcd_main :: abcd_st where
  "abcd_main = \<lparr>mut_locked = (replicate ABCD True)[0 := False], mut_owner = replicate ABCD ABCD, abcd_thr = replicate ABCD Locking, letters = []\<rparr>"

text \<open>Where the turn is.\<close>

definition abcd_inv :: "abcd_st \<Rightarrow> bool" where
  "abcd_inv s \<longleftrightarrow> (let k = length (letters s) mod ABCD; j = (length (letters s) + 3) mod ABCD in
     (mut_locked s = (replicate ABCD True)[k := False] \<and> abcd_thr s = replicate ABCD Locking) \<or>
     (mut_locked s = replicate ABCD True \<and> abcd_thr s = (replicate ABCD Locking)[k := Writing]) \<or>
     (letters s \<noteq> [] \<and> mut_locked s = replicate ABCD True \<and> abcd_thr s = (replicate ABCD Locking)[j := Unlocking]))"

definition abcd_lag :: "abcd_st \<Rightarrow> nat" where
  "abcd_lag s = (if Unlocking \<in> set (abcd_thr s) then 2 else if Writing \<in> set (abcd_thr s) then 0 else 1)"

text \<open>
  \<open>abcd_race_notice.c\<close>: a thread is before its lock (also when it was woken), or asleep on \<open>cond\<close>.
\<close>

record turn_st =
  num :: nat
  sleeps :: "bool list"
  said :: "nat list"

definition notice_func :: "nat \<Rightarrow> turn_st \<Rightarrow> turn_st option" where
  "notice_func n s =
     (if sleeps s ! n then None
      else if num s \<noteq> n then Some (s\<lparr>sleeps := (sleeps s)[n := True]\<rparr>)
      else Some (s\<lparr>said := said s @ [n], num := next_thr (num s), sleeps := map (\<lambda>_. False) (sleeps s)\<rparr>))"

inductive notice_turn :: "turn_st \<Rightarrow> turn_st \<Rightarrow> bool" where
  "n < ABCD \<Longrightarrow> notice_func n s = Some s' \<Longrightarrow> notice_turn s s'"

definition notice_start :: turn_st where
  "notice_start = \<lparr>num = 0, sleeps = replicate ABCD False, said = []\<rparr>"

definition turn_inv :: "turn_st \<Rightarrow> bool" where
  "turn_inv s \<longleftrightarrow> length (sleeps s) = ABCD \<and> num s = length (said s) mod ABCD \<and> \<not> sleeps s ! num s"

definition turn_lag :: "turn_st \<Rightarrow> nat" where
  "turn_lag s = number (\<lambda>b. \<not> b) (sleeps s)"

interpretation by_num: turn_taking notice_turn notice_start turn_inv said turn_lag ABCD
proof (unfold_locales, goal_cases)
  case (3 st st')
  then show ?case
    by cases (auto simp: turn_inv_def notice_func_def next_thr_mod ABCD_def nth_list_update split: if_splits, metis mod_Suc_eq)
next
  case (4 st st')
  then obtain n where n: "n < length (sleeps st)" "notice_func n st = Some st'" by cases (auto simp: turn_inv_def)
  with 4(2) number_upd [OF n(1), of "\<lambda>b. \<not> b" True] show ?case
    by (auto simp: notice_func_def turn_inv_def turn_lag_def split: if_splits)
next
  case (5 st)
  then show ?case using number_le [of "\<lambda>b. \<not> b" "sleeps st"] by (simp add: turn_inv_def turn_lag_def)
next
  case (6 st)
  then have "num st < ABCD" "notice_func (num st) st \<noteq> None" by (auto simp: turn_inv_def ABCD_def notice_func_def)
  then show ?case by (auto intro: notice_turn.intros)
qed (simp_all add: turn_inv_def notice_start_def ABCD_def)

lemma replicate_upd_same [simp]: "(replicate n x)[k := x] = replicate n x"
proof (cases "k < n")
  case True
  then show ?thesis by (intro nth_equalityI) (auto simp: nth_list_update)
qed (simp add: list_update_beyond)

text \<open>The three positions of the turn in \<open>abcd_race.c\<close>, and the step from each.\<close>

lemma abcd_cases:
  assumes "abcd_inv s"
  obtains (locking) k where "k < ABCD" "length (letters s) mod ABCD = k" "mut_locked s = (replicate ABCD True)[k := False]"
      "abcd_thr s = replicate ABCD Locking"
  | (writing) k where "k < ABCD" "length (letters s) mod ABCD = k" "mut_locked s = replicate ABCD True"
      "abcd_thr s = (replicate ABCD Locking)[k := Writing]"
  | (unlocking) k where "k < ABCD" "length (letters s) mod ABCD = next_thr k" "letters s \<noteq> []" "mut_locked s = replicate ABCD True"
      "abcd_thr s = (replicate ABCD Locking)[k := Unlocking]"
proof -
  have "0 < ABCD" by (simp add: ABCD_def)
  then have k: "m mod ABCD < ABCD" for m by simp
  have "next_thr ((m + 3) mod ABCD) = m mod ABCD" for m
    by (simp add: next_thr_mod k mod_Suc_eq) (simp add: ABCD_def)
  with assms k locking [OF k refl] writing [OF k refl] unlocking [of "(length (letters s) + 3) mod ABCD"] show thesis
    by (auto simp: abcd_inv_def Let_def)
qed

lemma abcd_func_cases:
  assumes "abcd_inv s" "n < ABCD"
  shows "abcd_func True n s = Blocked s \<or>
    (\<exists>s'. abcd_func True n s = Ret () s' \<and> abcd_inv s' \<and> (letters s' = letters s \<and> abcd_lag s' < abcd_lag s \<or>
       letters s' = letters s @ [length (letters s) mod ABCD]))"
  using assms(1)
proof (cases rule: abcd_cases)
  case (locking k)
  show ?thesis
  proof (cases "n = k")
    case True
    with locking assms(2) show ?thesis
      by (auto simp: abcd_func_def abcd_unlock_def abcd_inv_def Let_def abcd_lag_def set_update_memI dest!: set_update_subset_insert [THEN subsetD])
  qed (use locking assms(2) in \<open>simp add: abcd_func_def abcd_unlock_def\<close>)
next
  case (writing k)
  have "(Suc (length (letters s)) + 3) mod ABCD = k" using writing(2) by (simp add: ABCD_def)
  with writing assms(2) show ?thesis
    by (cases "n = k") (simp_all add: abcd_func_def abcd_unlock_def abcd_inv_def Let_def)
next
  case (unlocking k)
  show ?thesis
  proof (cases "n = k")
    case True
    have "next_thr k < ABCD" using unlocking(1) by (auto simp: next_thr_def)
    with True unlocking assms(2) show ?thesis
      by (auto simp: abcd_func_def abcd_unlock_def abcd_inv_def Let_def abcd_lag_def set_update_memI)
  qed (use unlocking assms(2) in \<open>simp add: abcd_func_def abcd_unlock_def\<close>)
qed

lemma abcd_live:
  assumes "abcd_inv s"
  shows "\<exists>s'. abcd_step True s s'"
  using assms
proof (cases rule: abcd_cases)
  case (locking k)
  then show ?thesis using abcd_step.intros [of k True s] by (auto simp: abcd_func_def abcd_unlock_def)
next
  case (writing k)
  then show ?thesis using abcd_step.intros [of k True s] by (auto simp: abcd_func_def abcd_unlock_def)
next
  case (unlocking k)
  then have "next_thr k < ABCD" by (auto simp: next_thr_def)
  with unlocking show ?thesis using abcd_step.intros [of k True s] by (auto simp: abcd_func_def abcd_unlock_def)
qed

interpretation abcd: turn_taking \<open>abcd_step True\<close> abcd_main abcd_inv letters abcd_lag 2
proof (unfold_locales, goal_cases)
  case (3 st st')
  then obtain n where "n < ABCD" "abcd_func True n st = Ret () st'" by (auto elim!: abcd_step.cases)
  with abcd_func_cases [OF 3(2), of n] show ?case by auto
next
  case (4 st st')
  then obtain n where "n < ABCD" "abcd_func True n st = Ret () st'" by (auto elim!: abcd_step.cases)
  with abcd_func_cases [OF 4(2), of n] show ?case by auto
next
  case (6 st)
  then show ?case by (rule abcd_live)
qed (simp_all add: abcd_inv_def abcd_main_def abcd_lag_def ABCD_def)

text \<open>Where the unlock is undefined, the program comes as far as its first letter.\<close>

definition abcd_first :: abcd_st where
  "abcd_first = abcd_main\<lparr>mut_locked := replicate ABCD True, mut_owner := (replicate ABCD ABCD)[0 := 0], abcd_thr := (replicate ABCD Locking)[0 := Writing]\<rparr>"

definition abcd_stuck :: abcd_st where
  "abcd_stuck = abcd_first\<lparr>abcd_thr := (replicate ABCD Locking)[0 := Unlocking], letters := [0]\<rparr>"

lemma replicate_4: "replicate 4 x = [x, x, x, x]"
  by (simp add: numeral_eq_Suc)

lemmas abcd_states = abcd_stuck_def abcd_first_def abcd_main_def ABCD_def replicate_4

lemma below_ABCD: "n < ABCD \<longleftrightarrow> n = 0 \<or> n = 1 \<or> n = 2 \<or> n = 3"
  by (auto simp: ABCD_def)

lemma abcd_strict:
  assumes "n < ABCD"
  shows "abcd_func False n abcd_main = (if n = 0 then Ret () abcd_first else Blocked abcd_main)"
    and "abcd_func False n abcd_first = (if n = 0 then Ret () abcd_stuck else Blocked abcd_first)"
    and "abcd_func False n abcd_stuck = (if n = 0 then Undef abcd_stuck else Blocked abcd_stuck)"
  using assms unfolding below_ABCD
  by (elim disjE; simp add: abcd_func_def abcd_unlock_def next_thr_def abcd_states)+

lemma abcd_strict_step:
  "abcd_step False abcd_main s \<longleftrightarrow> s = abcd_first"
  "abcd_step False abcd_first s \<longleftrightarrow> s = abcd_stuck"
  "\<not> abcd_step False abcd_stuck s"
proof -
  have "0 < ABCD" by (simp add: ABCD_def)
  note first = abcd_strict [OF this]
  show "abcd_step False abcd_main s \<longleftrightarrow> s = abcd_first" "abcd_step False abcd_first s \<longleftrightarrow> s = abcd_stuck" "\<not> abcd_step False abcd_stuck s"
    using \<open>0 < ABCD\<close> first by (auto elim!: abcd_step.cases intro: abcd_step.intros simp: abcd_strict split: if_splits)
qed

lemma abcd_strict_reach: "(abcd_step False)\<^sup>*\<^sup>* abcd_main s \<Longrightarrow> s \<in> {abcd_main, abcd_first, abcd_stuck}"
  by (induction rule: rtranclp_induct) (auto simp: abcd_strict_step)

lemma abcd_stuck_undef: "abcd_undef False abcd_stuck"
  unfolding abcd_undef_def using abcd_strict(3) [of 0] by (intro exI [of _ 0]) (simp add: ABCD_def)

lemma abcd_lenient_defined: "abcd_inv s \<Longrightarrow> \<not> abcd_undef True s"
  using abcd_func_cases [of s] by (fastforce simp: abcd_undef_def)

text \<open>
  C37: Printing \<open>abcdabcd...\<close> in turn. \<open>abcd_race_notice.c\<close> does so whatever the scheduler does: in every reachable state the
  \<open>j\<close>-th letter written is the one of thread \<open>j mod 4\<close>, some thread can always go on, and any five steps write at least one letter
  (a thread that wakes up without a broadcast and sleeps again counts as no step). For \<open>abcd_race.c\<close>, POSIX promises one letter only: every
  run of it arrives after two steps, with \<open>a\<close> written, at the unlock of a mutex that \<open>main\<close> has locked, which is undefined. On an implementation that defines such
  an unlock as a release it has no undefined step, and prints the letters in turn as well, one in any three steps.
\<close>

theorem abcd_in_turn:
  "(notice_turn\<^sup>*\<^sup>* notice_start t \<longrightarrow> said t = map (\<lambda>j. j mod 4) [0..<length (said t)] \<and> (\<exists>t'. notice_turn t t') \<and>
     (\<forall>t'. (notice_turn ^^ 5) t t' \<longrightarrow> length (said t) < length (said t'))) \<and>
   ((abcd_step False)\<^sup>*\<^sup>* abcd_main s \<longrightarrow> (letters s = [] \<and> (\<exists>s'. abcd_step False s s')) \<or> (letters s = [0] \<and> abcd_undef False s)) \<and>
   (((abcd_step False) ^^ 2) abcd_main s \<longrightarrow> letters s = [0] \<and> abcd_undef False s) \<and>
   ((abcd_step True)\<^sup>*\<^sup>* abcd_main s \<longrightarrow> letters s = map (\<lambda>j. j mod 4) [0..<length (letters s)] \<and> (\<exists>s'. abcd_step True s s') \<and>
     \<not> abcd_undef True s \<and> (\<forall>s'. ((abcd_step True) ^^ 3) s s' \<longrightarrow> length (letters s) < length (letters s')))"
proof (intro conjI)
  have n: "Suc 2 = (3 :: nat)" "Suc ABCD = 5" "ABCD = 4" by (simp_all add: ABCD_def)
  show "notice_turn\<^sup>*\<^sup>* notice_start t \<longrightarrow> said t = map (\<lambda>j. j mod 4) [0..<length (said t)] \<and> (\<exists>t'. notice_turn t t') \<and>
     (\<forall>t'. (notice_turn ^^ 5) t t' \<longrightarrow> length (said t) < length (said t'))"
    using by_num.in_order [of t] by_num.never_stuck [of t] by_num.letter_within [of t] n by metis
  show "(abcd_step True)\<^sup>*\<^sup>* abcd_main s \<longrightarrow> letters s = map (\<lambda>j. j mod 4) [0..<length (letters s)] \<and> (\<exists>s'. abcd_step True s s') \<and>
     \<not> abcd_undef True s \<and> (\<forall>s'. ((abcd_step True) ^^ 3) s s' \<longrightarrow> length (letters s) < length (letters s'))"
    using abcd.in_order [of s] abcd.never_stuck [of s] abcd.letter_within [of s] abcd_lenient_defined abcd.inv_reach [of s] n by metis
  show "(abcd_step False)\<^sup>*\<^sup>* abcd_main s \<longrightarrow> (letters s = [] \<and> (\<exists>s'. abcd_step False s s')) \<or> (letters s = [0] \<and> abcd_undef False s)"
    using abcd_strict_reach [of s] abcd_stuck_undef by (auto simp: abcd_strict_step) (auto simp: abcd_states)
  show "((abcd_step False) ^^ 2) abcd_main s \<longrightarrow> letters s = [0] \<and> abcd_undef False s"
    using abcd_stuck_undef by (auto simp: numeral_2_eq_2 abcd_strict_step relcompp.simps) (auto simp: abcd_states)
qed

theorem abcd_in_turn_witness:
  "(\<exists>s. ((abcd_step True) ^^ 3) abcd_main s \<and> 0 < length (letters s)) \<and> abcd_undef False abcd_stuck"
proof
  obtain s where "((abcd_step True) ^^ 3) abcd_main s" using abcd.run_ex by blast
  with abcd_in_turn [of notice_start abcd_main] show "\<exists>s. ((abcd_step True) ^^ 3) abcd_main s \<and> 0 < length (letters s)"
    by (auto simp: abcd_main_def)
  have "((abcd_step False) ^^ 2) abcd_main abcd_stuck" by (auto simp: numeral_2_eq_2 abcd_strict_step relcompp.simps)
  with abcd_in_turn [of notice_start abcd_stuck] show "abcd_undef False abcd_stuck" by blast
qed

end
