(* ===== verification/Digest.thy ===== *)
theory Digest
  imports Prelude
begin

text \<open>
  Message digests. Their code belongs to OpenSSL; a digest is a parameter of the programs that use one, with the three
  calls of its interface. The loops that feed a digest with the pieces of a file, and the hexadecimal output, are shared by
  \<open>homework/openssl/myslicer.c\<close>, \<open>openssl/md.c\<close>, \<open>openssl/md_new.c\<close> and \<open>IO/FileIO/filecopy\<close>.
\<close>

record ('c, 'b) digest =
  dg_init :: 'c
  dg_update :: "'c \<Rightarrow> 'b list \<Rightarrow> 'c"
  dg_final :: "'c \<Rightarrow> nat list"

text \<open>
  The documented behaviour: a message may be given in pieces, and the MD5 sum has 16 bytes.
\<close>

definition streaming :: "('c, 'b) digest \<Rightarrow> bool" where
  "streaming d \<longleftrightarrow> (\<forall>c. dg_update d c [] = c) \<and> (\<forall>c a b. dg_update d c (a @ b) = dg_update d (dg_update d c a) b) \<and>
     (\<forall>c. length (dg_final d c) = 16)"

text \<open>The sum of a message given in one piece.\<close>

definition digest_of :: "('c, 'b) digest \<Rightarrow> 'b list \<Rightarrow> nat list" where
  "digest_of d bs = dg_final d (dg_update d (dg_init d) bs)"

lemma pieces_sum: "streaming d \<Longrightarrow> foldl (dg_update d) c ps = dg_update d c (concat ps)"
  by (induction ps arbitrary: c) (auto simp: streaming_def)

text \<open>Each byte as two hexadecimal digits, \<^verbatim>\<open>printf("%02x", hash[i])\<close>.\<close>

definition hex_digit :: "nat \<Rightarrow> char" where
  "hex_digit n = (if n < 10 then char_of (48 + n) else char_of (87 + n))"

definition hex :: "nat list \<Rightarrow> string" where
  "hex ns = concat (map (\<lambda>n. [hex_digit (n div 16 mod 16), hex_digit (n mod 16)]) ns)"

lemma length_hex: "length (hex ns) = 2 * length ns"
  by (induction ns) (simp_all add: hex_def)

end
