(* ===== verification/Slicer.thy ===== *)
theory Slicer
  imports Digest "HOL-Library.Sublist"
begin

text \<open>
  \<open>homework/openssl/myslicer.c\<close>: cuts a file into slices of 64 bytes, keeps the names of the slices in a static array
  of 100 rows of 12 characters, and writes a file with the MD5 sum of each slice and of the whole file. The message
  digest belongs to OpenSSL and is a parameter. The array is modelled as the memory it is: 1200 characters in one
  piece, into which \<open>strcpy\<close> writes past the end of a row.
\<close>

section \<open>Reading and summing\<close>

definition BUFSIZE :: nat where "BUFSIZE = 64"
definition MAX_SLICE :: nat where "MAX_SLICE = 100"
definition ROW :: nat where "ROW = 12"

text \<open>The pieces that \<open>fread\<close> with a buffer of \<open>BUFSIZE\<close> bytes returns until the end of the file.\<close>

abbreviation pieces :: "string \<Rightarrow> string list" where
  "pieces \<equiv> blocks BUFSIZE"

type_synonym fsys = "string \<rightharpoonup> string"

text \<open>
  \<open>file_to_md5\<close> reads the whole file into one block of memory, \<open>evp_file_to_md5\<close> goes through it with the small buffer.
  A file that cannot be opened gives \<open>NULL\<close>.
\<close>

definition file_to_md5 :: "('c, char) digest \<Rightarrow> fsys \<Rightarrow> string \<Rightarrow> string option" where
  "file_to_md5 d fs name = map_option (\<lambda>bs. hex (dg_final d (dg_update d (dg_init d) bs))) (fs name)"

definition evp_file_to_md5 :: "('c, char) digest \<Rightarrow> fsys \<Rightarrow> string \<Rightarrow> string option" where
  "evp_file_to_md5 d fs name = map_option (\<lambda>bs. hex (dg_final d (foldl (dg_update d) (dg_init d) (pieces bs)))) (fs name)"

section \<open>Cutting and summing\<close>

record slicer =
  disk :: fsys
  split_result :: string
  slice_count :: nat

definition split_name :: "nat \<Rightarrow> string" where
  "split_name i = ''split_'' @ show_nat i @ ''.txt''"

text \<open>\<open>strcpy\<close> to an offset of the array (with the final zero); \<open>None\<close> past the end of the array.\<close>

definition poke :: "nat \<Rightarrow> string \<Rightarrow> string \<Rightarrow> string option" where
  "poke off s mem = (if off + length s + 1 > length mem then None
     else Some (take off mem @ s @ [CHR 0x00] @ drop (off + length s + 1) mem))"

text \<open>The string at an offset of the array; \<open>None\<close> when no zero ends it there.\<close>

definition peek :: "nat \<Rightarrow> string \<Rightarrow> string option" where
  "peek off mem = (if CHR 0x00 \<in> set (drop off mem) then Some (takeWhile (\<lambda>c. c \<noteq> CHR 0x00) (drop off mem)) else None)"

text \<open>
  The loop of \<open>slice\<close>. \<open>ok\<close> says which files can be opened for writing.
\<close>

fun slice_loop :: "(string \<Rightarrow> bool) \<Rightarrow> string list \<Rightarrow> slicer \<Rightarrow> (unit, slicer) outcome" where
  "slice_loop ok [] s = Ret () s"
| "slice_loop ok (b # bs) s =
     (let name = split_name (slice_count s)
      in case poke (ROW * slice_count s) name (split_result s) of
          None \<Rightarrow> Undef s
        | Some mem \<Rightarrow>
            (let s1 = s\<lparr>split_result := mem\<rparr>
             in if \<not> ok name then Ret () s1
                else slice_loop ok bs (s1\<lparr>disk := (disk s1)(name \<mapsto> b), slice_count := slice_count s1 + 1\<rparr>)))"

definition slice :: "(string \<Rightarrow> bool) \<Rightarrow> string \<Rightarrow> slicer \<Rightarrow> (unit, slicer) outcome" where
  "slice ok filename s = (case disk s filename of None \<Rightarrow> Ret () s | Some bs \<Rightarrow> slice_loop ok (pieces bs) s)"

text \<open>
  The loop of \<open>write_to_meta\<close> over the rows. A sum that is \<open>NULL\<close> goes to \<open>fwrite\<close>, which is undefined. \<open>meta\<close> is what
  was written so far.
\<close>

fun meta_loop :: "('c, char) digest \<Rightarrow> slicer \<Rightarrow> nat list \<Rightarrow> string \<Rightarrow> string option" where
  "meta_loop d s [] meta = Some meta"
| "meta_loop d s (i # is) meta =
     (case peek (ROW * i) (split_result s) of
        None \<Rightarrow> None
      | Some name \<Rightarrow> (case evp_file_to_md5 d (disk s) name of
            None \<Rightarrow> None
          | Some md \<Rightarrow> meta_loop d s is (meta @ take 32 md @ [CHR 0x0A])))"

text \<open>When the summary cannot be created, \<open>fclose(NULL)\<close> is called, which is undefined.\<close>

definition write_to_meta :: "(string \<Rightarrow> bool) \<Rightarrow> ('c, char) digest \<Rightarrow> string \<Rightarrow> string \<Rightarrow> slicer \<Rightarrow> (unit, slicer) outcome" where
  "write_to_meta ok d filename meta_name s =
     bind_outcome (slice ok filename s) (\<lambda>_ s1.
       if \<not> ok meta_name then Undef s1
       else (let s2 = s1\<lparr>disk := (disk s1)(meta_name \<mapsto> [])\<rparr>
             in case meta_loop d s2 [0..<slice_count s2] [] of
                  None \<Rightarrow> Undef s2
                | Some m \<Rightarrow> (case evp_file_to_md5 d (disk s2) filename of
                      None \<Rightarrow> Undef s2
                    | Some md \<Rightarrow> Ret () (s2\<lparr>disk := (disk s2)(meta_name \<mapsto> m @ take 32 md)\<rparr>))))"

definition slicer_start :: "fsys \<Rightarrow> slicer" where
  "slicer_start fs = \<lparr>disk = fs, split_result = replicate (MAX_SLICE * ROW) (CHR 0x00), slice_count = 0\<rparr>"

definition slicer_main :: "(string \<Rightarrow> bool) \<Rightarrow> ('c, char) digest \<Rightarrow> fsys \<Rightarrow> (unit, slicer) outcome" where
  "slicer_main ok d fs = write_to_meta ok d ''test.txt'' ''meta.txt'' (slicer_start fs)"

section \<open>The two ways of summing agree\<close>

lemma BUFSIZE_pos [simp]: "0 < BUFSIZE"
  by (simp add: BUFSIZE_def)

lemma md5_equal: "streaming d \<Longrightarrow> evp_file_to_md5 d fs name = file_to_md5 d fs name"
  by (simp add: evp_file_to_md5_def file_to_md5_def pieces_sum)

section \<open>The array of names\<close>

lemma split_name_no_zero: "CHR 0x00 \<notin> set (split_name i)"
  using show_nat_digits [of "CHR 0x00" i] by (auto simp: split_name_def c_digit_def)

lemma length_split_name: "i < 100 \<Longrightarrow> length (split_name i) = (if i < 10 then 11 else 12)"
  by (simp add: split_name_def show_nat.simps [of i] show_nat.simps [of "i div 10"])

lemma split_name_inj: "split_name i = split_name j \<longleftrightarrow> i = j"
  by (simp add: split_name_def show_nat_inj)

lemma names_differ: "split_name i @ split_name j @ r \<noteq> split_name n"
proof
  assume "split_name i @ split_name j @ r = split_name n"
  then have "drop 6 (split_name i @ split_name j @ r) = drop 6 (split_name n)" by simp
  moreover have "CHR ''s'' \<in> set (drop 6 (split_name i @ split_name j @ r))" by (simp add: split_name_def)
  moreover have "CHR ''s'' \<notin> set (drop 6 (split_name n))"
    by (auto simp: split_name_def c_digit_def dest: show_nat_digits)
  ultimately show False by simp
qed

text \<open>The array after \<open>k\<close> slices: from the tenth row on the zero of a name lies in the next row.\<close>

definition row :: "nat \<Rightarrow> string" where
  "row i = split_name i @ (if i < 10 then [CHR 0x00] else [])"

definition rows :: "nat \<Rightarrow> nat \<Rightarrow> string" where
  "rows i k = concat (map row [i..<k])"

definition names_mem :: "nat \<Rightarrow> string" where
  "names_mem k = rows 0 k @ replicate (1200 - 12 * k) (CHR 0x00)"

lemma length_rows: "k \<le> 100 \<Longrightarrow> length (rows i k) = 12 * (k - i)"
proof (induction k)
  case (Suc k)
  then have "length (row k) = 12" by (simp add: row_def length_split_name)
  with Suc show ?case by (cases "i \<le> k") (auto simp: rows_def)
qed (simp add: rows_def)

lemma length_names_mem [simp]: "k \<le> 100 \<Longrightarrow> length (names_mem k) = 1200"
  by (simp add: names_mem_def length_rows)

lemma poke_name:
  assumes "k < 100"
  shows "poke (ROW * k) (split_name k) (names_mem k) = (if k < 99 then Some (names_mem (Suc k)) else None)"
proof -
  let ?z = "CHR 0x00"
  have t: "take (12 * k) (names_mem k) = rows 0 k" and d: "drop (m + 12 * k) (names_mem k) = replicate (1200 - 12 * k - m) ?z" for m
    using assms by (simp_all add: names_mem_def length_rows)
  have r: "rows 0 (Suc k) = rows 0 k @ row k" by (simp add: rows_def)
  show ?thesis
  proof (cases "k < 10")
    case True
    with t d [of 12] assms show ?thesis
      by (simp add: poke_def ROW_def length_split_name names_mem_def [of "Suc k"] r row_def)
  next
    case False
    have "1200 - 12 * Suc k = Suc (1200 - 12 * k - 13)" if "k < 99" using that by simp
    with False t d [of 13] assms show ?thesis
      by (simp add: poke_def ROW_def length_split_name names_mem_def [of "Suc k"] r row_def)
  qed
qed

lemma names_mem_split: "i \<le> k \<Longrightarrow> k \<le> 100 \<Longrightarrow> drop (12 * i) (names_mem k) = rows i k @ replicate (1200 - 12 * k) (CHR 0x00)"
proof -
  assume i: "i \<le> k" "k \<le> 100"
  then have "rows 0 k = rows 0 i @ rows i k" using upt_split [of 0 i k] by (simp add: rows_def)
  with i length_rows [of i 0] show ?thesis by (simp add: names_mem_def)
qed

lemma rows_Cons: "i < k \<Longrightarrow> rows i k = row i @ rows (Suc i) k"
  by (simp add: rows_def upt_rec)

lemma takeWhile_name: "takeWhile (\<lambda>c. c \<noteq> CHR 0x00) (split_name i @ xs) = split_name i @ takeWhile (\<lambda>c. c \<noteq> CHR 0x00) xs"
  by (rule takeWhile_append2) (use split_name_no_zero in metis)

text \<open>The names of the first ten slices can be read; the one of slice ten only if it is the last.\<close>

lemma peek_name:
  assumes "i < k" "k \<le> 100" "i < 10 \<or> Suc i = k \<and> k < 100"
  shows "peek (ROW * i) (names_mem k) = Some (split_name i)"
proof -
  have "drop (ROW * i) (names_mem k) = row i @ rows (Suc i) k @ replicate (1200 - 12 * k) (CHR 0x00)"
    using assms names_mem_split [of i k] rows_Cons [of i k] by (simp add: ROW_def)
  moreover have "rows (Suc i) k = []" if "Suc i = k" using that by (simp add: rows_def)
  moreover have "replicate (1200 - 12 * k) (CHR 0x00) = CHR 0x00 # replicate (1199 - 12 * k) (CHR 0x00)" if "k < 100"
  proof -
    have "1200 - 12 * k = Suc (1199 - 12 * k)" using that by simp
    then show ?thesis by simp
  qed
  ultimately show ?thesis using assms(3) by (cases "i < 10") (auto simp: peek_def row_def takeWhile_name)
qed

lemma peek_overrun:
  assumes "12 \<le> k" "k \<le> 100"
  shows "peek (ROW * 10) (names_mem k) = None \<or> (\<exists>r. peek (ROW * 10) (names_mem k) = Some (split_name 10 @ split_name 11 @ r))"
proof -
  have "drop (ROW * 10) (names_mem k) = split_name 10 @ split_name 11 @ rows 12 k @ replicate (1200 - 12 * k) (CHR 0x00)"
    using assms names_mem_split [of 10 k] rows_Cons [of 10 k] rows_Cons [of 11 k] by (simp add: ROW_def row_def)
  then show ?thesis by (simp add: peek_def takeWhile_name)
qed

section \<open>What the program does\<close>

lemma slice_loop_ok:
  assumes "\<forall>j. ok (split_name j)" "split_result s = names_mem (slice_count s)" "slice_count s + length ps \<le> 99"
  shows "\<exists>s'. slice_loop ok ps s = Ret () s' \<and> slice_count s' = slice_count s + length ps \<and> split_result s' = names_mem (slice_count s') \<and>
    (\<forall>j < length ps. disk s' (split_name (slice_count s + j)) = Some (ps ! j)) \<and>
    (\<forall>n. n \<notin> split_name ` {slice_count s..<slice_count s'} \<longrightarrow> disk s' n = disk s n)"
  using assms(2,3)
proof (induction ps arbitrary: s)
  case (Cons b bs)
  let ?k = "slice_count s"
  let ?s1 = "s\<lparr>split_result := names_mem (Suc ?k), disk := (disk s)(split_name ?k \<mapsto> b), slice_count := ?k + 1\<rparr>"
  from Cons.IH [of ?s1] Cons.prems obtain s' where s': "slice_loop ok bs ?s1 = Ret () s'" "slice_count s' = ?k + 1 + length bs"
    "split_result s' = names_mem (slice_count s')" "\<And>j. j < length bs \<Longrightarrow> disk s' (split_name (?k + 1 + j)) = Some (bs ! j)"
    "\<And>n. n \<notin> split_name ` {?k + 1..<slice_count s'} \<Longrightarrow> disk s' n = disk ?s1 n" by auto
  have "slice_loop ok (b # bs) s = slice_loop ok bs ?s1"
    using Cons.prems assms(1) poke_name [of ?k] by (simp add: Let_def)
  moreover have "disk s' (split_name ?k) = Some b" using s'(5) [of "split_name ?k"] by (simp add: image_iff split_name_inj)
  with s'(4) have "disk s' (split_name (?k + j)) = Some ((b # bs) ! j)" if "j < length (b # bs)" for j
    using that by (cases j) auto
  moreover have "disk s' n = disk s n" if "n \<notin> split_name ` {?k..<slice_count s'}" for n
  proof -
    have "n \<noteq> split_name ?k" "n \<notin> split_name ` {?k + 1..<slice_count s'}" using that s'(2) by auto
    with s'(5) [of n] show ?thesis by simp
  qed
  ultimately show ?case using s'(1-3) by auto
qed simp

lemma slice_loop_overrun:
  assumes "\<forall>j. ok (split_name j)" "split_result s = names_mem (slice_count s)" "slice_count s \<le> 99" "99 < slice_count s + length ps"
  shows "\<exists>s'. slice_loop ok ps s = Undef s'"
  using assms(2-)
proof (induction ps arbitrary: s)
  case (Cons b bs)
  show ?case
  proof (cases "slice_count s < 99")
    case True
    with Cons assms(1) poke_name [of "slice_count s"] show ?thesis by (simp add: Let_def)
  next
    case False
    with Cons.prems have "slice_count s = 99" by simp
    with Cons.prems poke_name [of 99] show ?thesis by (simp add: Let_def)
  qed
qed simp

lemma meta_loop_ok:
  assumes "\<forall>i \<in> set is. \<exists>md. peek (ROW * i) (split_result s) = Some (split_name i) \<and> evp_file_to_md5 d (disk s) (split_name i) = Some md"
  shows "meta_loop d s (is @ js) m = meta_loop d s js
    (m @ concat (map (\<lambda>i. take 32 (the (evp_file_to_md5 d (disk s) (split_name i))) @ [CHR 0x0A]) is))"
  using assms by (induction "is" arbitrary: m) auto

text \<open>The line of a message digest.\<close>

definition md5_of :: "('c, char) digest \<Rightarrow> string \<Rightarrow> string" where
  "md5_of d bs = hex (dg_final d (dg_update d (dg_init d) bs))"

lemma evp_md5_of: "streaming d \<Longrightarrow> fs n = Some bs \<Longrightarrow> evp_file_to_md5 d fs n = Some (md5_of d bs)"
  by (simp add: md5_equal file_to_md5_def md5_of_def)

lemma length_md5_of: "streaming d \<Longrightarrow> length (md5_of d bs) = 32"
  by (simp add: md5_of_def length_hex streaming_def)

lemma slicer_start_mem: "split_result (slicer_start fs) = names_mem 0"
  by (simp add: slicer_start_def names_mem_def rows_def MAX_SLICE_def ROW_def)

text \<open>The cutting of \<open>test.txt\<close> at the start of the program.\<close>

lemma slicing:
  assumes "\<forall>n. ok n" "length (pieces bs) \<le> 99"
  shows "\<exists>s. slice_loop ok (pieces bs) (slicer_start fs) = Ret () s \<and> slice_count s = length (pieces bs) \<and>
    split_result s = names_mem (length (pieces bs)) \<and> (\<forall>j < length (pieces bs). disk s (split_name j) = Some (pieces bs ! j)) \<and>
    (\<forall>n. n \<notin> range split_name \<longrightarrow> disk s n = fs n) \<and> disk s ''test.txt'' = fs ''test.txt''"
proof -
  have c: "slice_count (slicer_start fs) = 0" "disk (slicer_start fs) = fs" by (simp_all add: slicer_start_def)
  obtain s where s: "slice_loop ok (pieces bs) (slicer_start fs) = Ret () s" "slice_count s = length (pieces bs)"
    "split_result s = names_mem (length (pieces bs))" "\<forall>j < length (pieces bs). disk s (split_name j) = Some (pieces bs ! j)"
    "\<forall>n. n \<notin> split_name ` {0..<slice_count s} \<longrightarrow> disk s n = fs n"
    using slice_loop_ok [of ok "slicer_start fs" "pieces bs"] assms by (auto simp: slicer_start_mem c)
  from s(5) have r: "\<forall>n. n \<notin> range split_name \<longrightarrow> disk s n = fs n" by blast
  moreover have "''test.txt'' \<notin> range split_name" by (auto simp: split_name_def)
  ultimately show ?thesis using s(1-4) by blast
qed

text \<open>
  C27: For a file of at most 704 bytes \<open>myslicer\<close> does what it should: the slices of 64 bytes it writes are the file when put
  together, and \<open>meta.txt\<close> has the MD5 sum of each slice on a line of its own and then that of the whole file. The
  digest is one that can be given its message in pieces and does not fail, and all files can be opened. From 641 bytes on, the final zero of the eleventh name goes into the next
  row of \<open>split_result\<close>, which is still unused: the array is taken as one area of memory.
\<close>

theorem slicer_small_file:
  assumes "streaming d" "\<forall>n. ok n" "fs ''test.txt'' = Some bs" "length bs \<le> 704"
  shows "\<exists>s. slicer_main ok d fs = Ret () s \<and>
    concat (map (\<lambda>i. the (disk s (split_name i))) [0..<slice_count s]) = bs \<and>
    disk s ''meta.txt'' = Some (concat (map (\<lambda>i. md5_of d (the (disk s (split_name i))) @ [CHR 0x0A]) [0..<slice_count s]) @ md5_of d bs)"
proof -
  let ?k = "length (pieces bs)"
  have k: "?k \<le> 11" using length_blocks [of BUFSIZE bs 11] assms(4) by (simp add: BUFSIZE_def)
  have nm: "split_name i \<noteq> ''meta.txt''" for i by (simp add: split_name_def)
  obtain s where s: "slice_loop ok (pieces bs) (slicer_start fs) = Ret () s" "slice_count s = ?k" "split_result s = names_mem ?k"
    "\<And>j. j < ?k \<Longrightarrow> disk s (split_name j) = Some (pieces bs ! j)" "disk s ''test.txt'' = Some bs"
    using slicing [of ok bs fs] k assms(2,3) by auto
  let ?s2 = "s\<lparr>disk := (disk s)(''meta.txt'' \<mapsto> [])\<rparr>"
  have f: "disk ?s2 (split_name j) = Some (pieces bs ! j)" if "j < ?k" for j using s(4) [OF that] nm by simp
  have e: "evp_file_to_md5 d (disk ?s2) (split_name i) = Some (md5_of d (pieces bs ! i))" if "i < ?k" for i
    using evp_md5_of [OF assms(1), of "disk ?s2" "split_name i"] f [OF that] by simp
  have "peek (ROW * i) (names_mem ?k) = Some (split_name i)" if "i < ?k" for i
    using that k by (intro peek_name) auto
  with s(3) e have "meta_loop d ?s2 ([0..<?k] @ []) [] = meta_loop d ?s2 [] ([] @
      concat (map (\<lambda>i. take 32 (the (evp_file_to_md5 d (disk ?s2) (split_name i))) @ [CHR 0x0A]) [0..<?k]))"
    by (intro meta_loop_ok) auto
  also have "map (\<lambda>i. take 32 (the (evp_file_to_md5 d (disk ?s2) (split_name i))) @ [CHR 0x0A]) [0..<?k] =
      map (\<lambda>i. md5_of d (pieces bs ! i) @ [CHR 0x0A]) [0..<?k]"
    using e length_md5_of [OF assms(1)] by simp
  finally have m: "meta_loop d ?s2 [0..<?k] [] = Some (concat (map (\<lambda>i. md5_of d (pieces bs ! i) @ [CHR 0x0A]) [0..<?k]))"
    by (simp only: append_Nil append_Nil2 meta_loop.simps)
  let ?m = "concat (map (\<lambda>i. md5_of d (pieces bs ! i) @ [CHR 0x0A]) [0..<?k]) @ md5_of d bs"
  let ?s3 = "?s2\<lparr>disk := (disk ?s2)(''meta.txt'' \<mapsto> ?m)\<rparr>"
  have "slicer_main ok d fs = Ret () ?s3"
    using assms(2,3) s(1,2,5) m evp_md5_of [OF assms(1), of "disk ?s2" "''test.txt''" bs] length_md5_of [OF assms(1)]
    by (simp add: slicer_main_def write_to_meta_def slice_def) (simp add: slicer_start_def)
  moreover have g: "the (disk ?s3 (split_name i)) = pieces bs ! i" if "i < ?k" for i using s(4) [OF that] nm by simp
  have "map (\<lambda>i. the (disk ?s3 (split_name i))) [0..<?k] = map ((!) (pieces bs)) [0..<?k]"
    by (rule map_cong [OF refl], rule g) simp
  then have "concat (map (\<lambda>i. the (disk ?s3 (split_name i))) [0..<?k]) = bs" by (simp only: map_nth concat_blocks [OF BUFSIZE_pos])
  moreover have "map (\<lambda>i. md5_of d (the (disk ?s3 (split_name i))) @ [CHR 0x0A]) [0..<?k] = map (\<lambda>i. md5_of d (pieces bs ! i) @ [CHR 0x0A]) [0..<?k]"
    by (rule map_cong [OF refl], subst g) simp_all
  then have "disk ?s3 ''meta.txt'' = Some (concat (map (\<lambda>i. md5_of d (the (disk ?s3 (split_name i))) @ [CHR 0x0A]) [0..<?k]) @ md5_of d bs)"
    by (simp only:) simp
  moreover have "slice_count ?s3 = ?k" using s(2) by simp
  ultimately show ?thesis by metis
qed

text \<open>A digest that can be given its message in pieces: the sum of the bytes, sixteen times.\<close>

definition ex_digest :: "(nat, char) digest" where
  "ex_digest = \<lparr>dg_init = 0, dg_update = \<lambda>c bs. c + sum_list (map of_char bs), dg_final = \<lambda>c. replicate 16 c\<rparr>"

lemma ex_digest_streaming: "streaming ex_digest"
  by (simp add: streaming_def ex_digest_def)

theorem slicer_small_file_witness:
  "\<exists>s. slicer_main (\<lambda>_. True) ex_digest [''test.txt'' \<mapsto> ''hello''] = Ret () s \<and>
    concat (map (\<lambda>i. the (disk s (split_name i))) [0..<slice_count s]) = ''hello''"
  using slicer_small_file [OF ex_digest_streaming, of "\<lambda>_. True" "[''test.txt'' \<mapsto> ''hello'']" "''hello''"] by auto

text \<open>
  C39: For a longer file \<open>myslicer\<close> goes wrong: the rows of \<open>split_result\<close> are a character too short for \<open>split_10.txt\<close>, so
  with twelve slices or more that row runs on into the next ones, the file of this name does not exist, and the
  \<open>NULL\<close> that comes back goes to \<open>fwrite\<close> (or, from a hundred slices on, \<open>strcpy\<close> writes past the array).
\<close>

theorem slicer_overruns_rows:
  assumes "streaming d" "\<forall>n. ok n" "fs ''test.txt'' = Some bs" "704 < length bs"
    and "\<forall>r. fs (split_name 10 @ split_name 11 @ r) = None"
  shows "\<exists>s. slicer_main ok d fs = Undef s"
proof (cases "length (pieces bs) \<le> 99")
  case True
  let ?k = "length (pieces bs)"
  have k: "12 \<le> ?k" using length_blocks_gt [of BUFSIZE 11 bs] assms(4) by (simp add: BUFSIZE_def)
  obtain s where s: "slice_loop ok (pieces bs) (slicer_start fs) = Ret () s" "slice_count s = ?k" "split_result s = names_mem ?k"
    "\<forall>j < ?k. disk s (split_name j) = Some (pieces bs ! j)" "\<And>n. n \<notin> range split_name \<Longrightarrow> disk s n = fs n"
    using slicing [OF assms(2) True, of fs] by auto
  let ?s2 = "s\<lparr>disk := (disk s)(''meta.txt'' \<mapsto> [])\<rparr>"
  have "\<exists>md. peek (ROW * i) (names_mem ?k) = Some (split_name i) \<and> evp_file_to_md5 d (disk ?s2) (split_name i) = Some md" if "i < 10" for i
  proof -
    have "disk ?s2 (split_name i) = Some (pieces bs ! i)" using s(4) that k by (simp add: split_name_def)
    then show ?thesis using peek_name [of i ?k] that k True evp_md5_of [OF assms(1)] by auto
  qed
  with s(3) have "\<exists>m. meta_loop d ?s2 ([0..<10] @ [10..<?k]) [] = meta_loop d ?s2 [10..<?k] m"
    using meta_loop_ok [of "[0..<10]" ?s2 d "[10..<?k]" "[]"] by auto
  then obtain m where m: "meta_loop d ?s2 [0..<?k] [] = meta_loop d ?s2 (10 # [11..<?k]) m"
    using upt_split [of 0 10 ?k] k upt_conv_Cons [of 10 ?k] by auto
  have long: "split_name 10 @ split_name 11 @ r \<noteq> ''meta.txt''" "split_name 10 @ split_name 11 @ r \<notin> range split_name" for r
    using names_differ [of 10 11 r] by (auto simp: split_name_def [of 10])
  have "disk ?s2 (split_name 10 @ split_name 11 @ r) = None" for r
    using s(5) [OF long(2), of r] long(1) [of r] assms(5) by simp
  then have "meta_loop d ?s2 [0..<?k] [] = None"
    using m peek_overrun [of ?k] k True s(3) by (auto simp: evp_file_to_md5_def)
  then show ?thesis using assms(2,3) s(1,2) by (simp add: slicer_main_def write_to_meta_def slice_def) (simp add: slicer_start_def)
next
  case False
  with slice_loop_overrun [of ok "slicer_start fs" "pieces bs"] assms(2) obtain s where
    "slice_loop ok (pieces bs) (slicer_start fs) = Undef s"
    by (auto simp: slicer_start_mem) (auto simp: slicer_start_def)
  then show ?thesis using assms(3) by (simp add: slicer_main_def write_to_meta_def slice_def) (simp add: slicer_start_def)
qed

theorem slicer_overruns_rows_witness:
  "\<exists>s. slicer_main (\<lambda>_. True) ex_digest
    [''test.txt'' \<mapsto> replicate 705 (CHR ''x'')] = Undef s"
  using slicer_overruns_rows [OF ex_digest_streaming, of "\<lambda>_. True" "[''test.txt'' \<mapsto> replicate 705 (CHR ''x'')]" "replicate 705 (CHR ''x'')"]
  by (simp add: split_name_def)

end
