(* ===== verification/Myftp.thy ===== *)
theory Myftp
  imports Prelude "HOL-Library.Sublist"
begin

text \<open>
  \<open>IPC/xsi/msg/myftp_msg\<close>: a file server and its client that talk over one System V message queue. \<open>msgrcv\<close> takes
  the first message of the type asked for and blocks while there is none.
\<close>

section \<open>The queue\<close>

definition MSG_PATH :: int where "MSG_PATH = 1"
definition MSG_DATA :: int where "MSG_DATA = 2"
definition MSG_EOT :: int where "MSG_EOT = 3"
definition PATHMAX :: nat where "PATHMAX = 1024"
definition DATAMAX :: nat where "DATAMAX = 1024"

datatype packet = Path string | Data int string | Eot

type_synonym msgq = "(int \<times> packet) list"

fun msgrcv :: "int \<Rightarrow> msgq \<Rightarrow> (packet \<times> msgq) option" where
  "msgrcv t [] = None"
| "msgrcv t ((m, p) # q) = (if m = t then Some (p, q) else map_option (\<lambda>(p', q'). (p', (m, p) # q')) (msgrcv t q))"

section \<open>The server\<close>

definition send_data_packet :: "int \<Rightarrow> string \<Rightarrow> msgq \<Rightarrow> msgq" where
  "send_data_packet mtype d q = q @ [(mtype, Data (int (length d)) d)]"

definition send_eot_packet :: "int \<Rightarrow> msgq \<Rightarrow> msgq" where
  "send_eot_packet mtype q = q @ [(mtype, Eot)]"

text \<open>
  The server waits for a request, has these blocks of the file left to send, or is about to send the end mark;
  \<open>handle_file_request\<close> starts with the file's blocks, or with the end mark when the file cannot be opened.
\<close>

datatype srv = Waiting | Sending "string list" | Ending

definition handle_file_request :: "(string \<rightharpoonup> string) \<Rightarrow> string \<Rightarrow> srv" where
  "handle_file_request fs path = (case fs path of None \<Rightarrow> Ending | Some bs \<Rightarrow> Sending (blocks DATAMAX bs))"

fun ftp_server :: "(string \<rightharpoonup> string) \<Rightarrow> srv \<Rightarrow> msgq \<Rightarrow> (srv \<times> msgq) option" where
  "ftp_server fs Waiting q = (case msgrcv MSG_PATH q of
      Some (Path path, q') \<Rightarrow> Some (handle_file_request fs path, q')
    | _ \<Rightarrow> None)"
| "ftp_server fs (Sending (b # bs)) q = Some (Sending bs, send_data_packet MSG_DATA b q)"
| "ftp_server fs (Sending []) q = Some (Ending, q)"
| "ftp_server fs Ending q = Some (Waiting, send_eot_packet MSG_EOT q)"

section \<open>The client\<close>

text \<open>The client is about to ask, receives (with the content saved so far), or has left with an exit status.\<close>

datatype cli = Ask string | Receiving string | Returned int

definition send_path_request :: "string \<Rightarrow> msgq \<Rightarrow> msgq" where
  "send_path_request path q = q @ [(MSG_PATH, Path (take (PATHMAX - 1) path))]"

definition receive_and_save_file :: "string \<Rightarrow> msgq \<Rightarrow> (cli \<times> msgq) option" where
  "receive_and_save_file acc q = (case msgrcv MSG_DATA q of
      Some (Data n d, q') \<Rightarrow>
        if n = 0 then Some (Returned (if acc = [] then 1 else 0), q')
        else if n > 0 then Some (Receiving (acc @ take (nat n) d), q')
        else Some (Receiving acc, q')
    | _ \<Rightarrow> None)"

fun ftp_client :: "cli \<Rightarrow> msgq \<Rightarrow> (cli \<times> msgq) option" where
  "ftp_client (Ask path) q = Some (Receiving [], send_path_request path q)"
| "ftp_client (Receiving acc) q = receive_and_save_file acc q"
| "ftp_client (Returned r) q = None"

section \<open>Beginnings\<close>

text \<open>
  Both programs ask for the queue first: the results of \<open>ftok\<close> (a key) and \<open>msgget\<close> (an identifier) are given, with the message of
  \<open>perror\<close>. Server and client have a copy of \<open>get_msg_queue\<close> each. The client wants two arguments.
\<close>

definition get_msg_queue :: "int option \<Rightarrow> (int \<Rightarrow> int option) \<Rightarrow> int \<times> string list" where
  "get_msg_queue ftok msgget = (case ftok of
      None \<Rightarrow> (-1, [''ftok''])
    | Some key \<Rightarrow> (case msgget key of None \<Rightarrow> (-1, [''msgget'']) | Some msgid \<Rightarrow> (msgid, [])))"

definition cli_get_msg_queue :: "int option \<Rightarrow> (int \<Rightarrow> int option) \<Rightarrow> int \<times> string list" where
  "cli_get_msg_queue ftok msgget = (case ftok of
      None \<Rightarrow> (-1, [''ftok''])
    | Some key \<Rightarrow> (case msgget key of None \<Rightarrow> (-1, [''msgget'']) | Some msgid \<Rightarrow> (msgid, [])))"

definition ftp_server_begins :: "int option \<Rightarrow> (int \<Rightarrow> int option) \<Rightarrow> (srv \<times> int, string list) outcome" where
  "ftp_server_begins ftok msgget = (case get_msg_queue ftok msgget of (msgid, out) \<Rightarrow> if msgid = -1 then Exit 1 out else Ret (Waiting, msgid) out)"

definition ftp_client_begins :: "string list \<Rightarrow> int option \<Rightarrow> (int \<Rightarrow> int option) \<Rightarrow> (cli \<times> int, string list) outcome" where
  "ftp_client_begins argv ftok msgget =
     (if length argv \<noteq> 3 then Exit 1 [''Usage'']
      else (case cli_get_msg_queue ftok msgget of (msgid, out) \<Rightarrow> if msgid = -1 then Exit 1 out else Ret (Ask (argv ! 1), msgid) out))"

text \<open>With the same key and an existing queue server and client meet: both begin, on the same queue.\<close>

lemma ftp_meet:
  assumes "msgget key = Some msgid" "msgid \<noteq> -1" "length argv = 3"
  shows "ftp_server_begins (Some key) msgget = Ret (Waiting, msgid) [] \<and> ftp_client_begins argv (Some key) msgget = Ret (Ask (argv ! 1), msgid) []"
  using assms by (simp add: ftp_server_begins_def ftp_client_begins_def get_msg_queue_def cli_get_msg_queue_def)

section \<open>Both together\<close>

text \<open>
  With \<open>faults\<close>, a system call may fail: a failed \<open>msgsnd\<close> of the server ends the transfer, or loses the end mark; the
  client leaves with status 1.
\<close>

inductive ftp_step :: "(string \<rightharpoonup> string) \<Rightarrow> bool \<Rightarrow> srv \<times> cli \<times> msgq \<Rightarrow> srv \<times> cli \<times> msgq \<Rightarrow> bool" for fs faults where
  by_server: "ftp_server fs s q = Some (s', q') \<Longrightarrow> ftp_step fs faults (s, c, q) (s', c, q')"
| by_client: "ftp_client c q = Some (c', q') \<Longrightarrow> ftp_step fs faults (s, c, q) (s, c', q')"
| send_fails: "faults \<Longrightarrow> ftp_step fs faults (Sending (b # bs), c, q) (Ending, c, q)"
| eot_fails: "faults \<Longrightarrow> ftp_step fs faults (Ending, c, q) (Waiting, c, q)"
| client_fails: "faults \<Longrightarrow> c \<noteq> Returned r \<Longrightarrow> ftp_step fs faults (s, c, q) (s, Returned 1, q)"

inductive_cases ftp_stepE: "ftp_step fs faults (Waiting, c, q) st"

abbreviation data_msg :: "string \<Rightarrow> int \<times> packet" where
  "data_msg b \<equiv> (MSG_DATA, Data (int (length b)) b)"

definition content :: "(string \<rightharpoonup> string) \<Rightarrow> string \<Rightarrow> string" where
  "content fs path = (case fs path of None \<Rightarrow> [] | Some bs \<Rightarrow> bs)"

fun unsent :: "srv \<Rightarrow> string list" where
  "unsent (Sending bs) = bs"
| "unsent s = []"

lemma msgrcv_data [simp]:
  "msgrcv MSG_DATA (map data_msg (b # bl) @ e) = Some (Data (int (length b)) b, map data_msg bl @ e)"
  by simp

lemma msgrcv_none: "\<forall>m \<in> set q. fst m \<noteq> t \<Longrightarrow> msgrcv t q = None"
  by (induction q) auto

lemmas msg_types = MSG_PATH_def MSG_DATA_def MSG_EOT_def

text \<open>
  The transfer after the request was taken: what was saved, what is on the queue and what is still to be sent make up
  the file, or a beginning of it when something failed.
\<close>

definition moves :: "bool \<Rightarrow> string \<Rightarrow> srv \<Rightarrow> cli \<Rightarrow> msgq \<Rightarrow> string \<Rightarrow> string list \<Rightarrow> msgq \<Rightarrow> bool" where
  "moves faults bs s c q acc bl e \<longleftrightarrow> (c = Receiving acc \<or> faults \<and> c = Returned 1) \<and> q = map data_msg bl @ e \<and>
     (\<forall>b \<in> set bl \<union> set (unsent s). b \<noteq> []) \<and> (e = [] \<or> s = Waiting \<and> e = [(MSG_EOT, Eot)]) \<and>
     prefix (acc @ concat bl @ concat (unsent s)) bs \<and>
     (\<not> faults \<longrightarrow> acc @ concat bl @ concat (unsent s) = bs \<and> (s = Waiting \<longrightarrow> e \<noteq> []))"

definition moving :: "bool \<Rightarrow> string \<Rightarrow> srv \<times> cli \<times> msgq \<Rightarrow> bool" where
  "moving faults bs st \<longleftrightarrow> (case st of (s, c, q) \<Rightarrow> \<exists>acc bl e. moves faults bs s c q acc bl e)"

lemma movingI: "moves faults bs s c q acc bl e \<Longrightarrow> moving faults bs (s, c, q)"
  by (auto simp: moving_def)

lemma moves_queue:
  assumes "moves faults bs s c q acc bl e"
  shows "msgrcv MSG_PATH q = None" "bl = [] \<Longrightarrow> msgrcv MSG_DATA q = None"
proof -
  have q: "q = map data_msg bl @ e" "e = [] \<or> e = [(MSG_EOT, Eot)]" using assms unfolding moves_def by blast+
  then have "\<forall>m \<in> set q. fst m = MSG_DATA \<or> fst m = MSG_EOT" by auto
  then show "msgrcv MSG_PATH q = None" by (intro msgrcv_none) (auto simp: msg_types)
  show "msgrcv MSG_DATA q = None" if "bl = []"
    using q(2) unfolding q(1) that by (elim disjE) (simp_all add: msg_types)
qed

definition ftp_inv :: "(string \<rightharpoonup> string) \<Rightarrow> bool \<Rightarrow> string \<Rightarrow> srv \<times> cli \<times> msgq \<Rightarrow> bool" where
  "ftp_inv fs faults path st \<longleftrightarrow> st = (Waiting, Ask path, []) \<or> faults \<and> st = (Waiting, Returned 1, []) \<or>
     (\<exists>c. (c = Receiving [] \<or> faults \<and> c = Returned 1) \<and> st = (Waiting, c, [(MSG_PATH, Path path)])) \<or>
     moving faults (content fs path) st"

lemma moving_server:
  assumes "moving faults bs (s, c, q)" "ftp_server fs s q = Some (s', q')"
  shows "moving faults bs (s', c, q')"
proof -
  obtain acc bl e where m: "moves faults bs s c q acc bl e" using assms(1) by (auto simp: moving_def)
  from moves_queue(1) [OF m] assms(2) consider b rs where "s = Sending (b # rs)" "s' = Sending rs" "q' = q @ [data_msg b]"
    | "s = Sending []" "s' = Ending" "q' = q" | "s = Ending" "s' = Waiting" "q' = q @ [(MSG_EOT, Eot)]"
    by (cases "(fs, s, q)" rule: ftp_server.cases) (auto simp: send_data_packet_def send_eot_packet_def)
  then show ?thesis
  proof cases
    case (1 b rs)
    with m show ?thesis by (intro movingI [of _ _ _ _ _ acc "bl @ [b]" "[]"]) (auto simp: moves_def)
  next
    case 2
    with m show ?thesis by (intro movingI [of _ _ _ _ _ acc bl "[]"]) (auto simp: moves_def)
  next
    case 3
    with m show ?thesis by (intro movingI [of _ _ _ _ _ acc bl "[(MSG_EOT, Eot)]"]) (auto simp: moves_def)
  qed
qed

lemma moving_client:
  assumes "moving faults bs (s, c, q)" "ftp_client c q = Some (c', q')"
  shows "moving faults bs (s, c', q')"
proof -
  obtain acc bl e where m: "moves faults bs s c q acc bl e" using assms(1) by (auto simp: moving_def)
  have "c = Receiving acc \<or> c = Returned 1" using m unfolding moves_def by blast
  with assms(2) have r: "c = Receiving acc" "receive_and_save_file acc q = Some (c', q')" by (elim disjE; simp)+
  then have "bl \<noteq> []" using moves_queue(2) [OF m] by (auto simp: receive_and_save_file_def)
  then obtain b bl' where bl: "bl = b # bl'" by (cases bl) auto
  with m have "b \<noteq> []" "q = map data_msg (b # bl') @ e" by (simp_all add: moves_def)
  with r(2) have "c' = Receiving (acc @ b)" "q' = map data_msg bl' @ e"
    by (auto simp: receive_and_save_file_def)
  with m bl show ?thesis by (intro movingI [of _ _ _ _ _ "acc @ b" bl' e]) (simp add: moves_def)
qed

lemma moving_fault:
  assumes "moving True bs (s, c, q)"
  shows "moving True bs (s, Returned 1, q)" "s = Sending (b # rs) \<Longrightarrow> moving True bs (Ending, c, q)" "s = Ending \<Longrightarrow> moving True bs (Waiting, c, q)"
proof -
  obtain acc bl e where m: "moves True bs s c q acc bl e" using assms by (auto simp: moving_def)
  then show "moving True bs (s, Returned 1, q)" by (intro movingI [of _ _ _ _ _ acc bl e]) (auto simp: moves_def)
  show "moving True bs (Ending, c, q)" if "s = Sending (b # rs)"
    using m that by (intro movingI [of _ _ _ _ _ acc bl "[]"]) (auto simp: moves_def prefix_def)
  show "moving True bs (Waiting, c, q)" if "s = Ending"
    using m that by (intro movingI [of _ _ _ _ _ acc bl "[]"]) (auto simp: moves_def)
qed

lemma moving_step: "ftp_step fs faults st st' \<Longrightarrow> moving faults bs st \<Longrightarrow> moving faults bs st'"
proof (induction rule: ftp_step.induct)
  case (by_server s q s' q' c)
  then show ?case by (rule moving_server [rotated])
next
  case (by_client c q c' q' s)
  then show ?case by (rule moving_client [rotated])
next
  case (send_fails b bs c q)
  then show ?case using moving_fault(2) by simp
next
  case (eot_fails c q)
  then show ?case using moving_fault(3) by simp
next
  case (client_fails c r s q)
  then show ?case using moving_fault(1) by simp
qed

lemma moving_started:
  assumes "c = Receiving [] \<or> faults \<and> c = Returned 1"
  shows "moving faults (content fs path) (handle_file_request fs path, c, [])"
proof (intro movingI)
  show "moves faults (content fs path) (handle_file_request fs path) c [] [] [] []"
    using assms by (auto simp: moves_def handle_file_request_def content_def DATAMAX_def dest: blocks_ne split: option.splits)
qed

lemma ftp_inv_cases:
  assumes "ftp_inv fs faults path st"
  obtains (ask) "st = (Waiting, Ask path, [])" | (gone) "faults" "st = (Waiting, Returned 1, [])"
    | (asked) c where "c = Receiving [] \<or> faults \<and> c = Returned 1" "st = (Waiting, c, [(MSG_PATH, Path path)])"
    | (moving) "moving faults (content fs path) st"
  using assms unfolding ftp_inv_def by blast

lemma ftp_inv_step:
  assumes "ftp_step fs faults st st'" "ftp_inv fs faults path st" "length path < PATHMAX"
  shows "ftp_inv fs faults path st'"
proof -
  from assms(2) show ?thesis
  proof (cases rule: ftp_inv_cases)
    case ask
    from assms(1) [unfolded ask] show ?thesis
      by (rule ftp_stepE) (use assms(3) in \<open>simp_all add: ftp_inv_def send_path_request_def\<close>)
  next
    case gone
    from assms(1) [unfolded gone(2)] show ?thesis by (rule ftp_stepE) (use gone(1) in \<open>simp_all add: ftp_inv_def\<close>)
  next
    case (asked c)
    from assms(1) [unfolded asked(2)] show ?thesis
      by (rule ftp_stepE) (use asked(1) moving_started [OF asked(1)] in \<open>auto simp: ftp_inv_def receive_and_save_file_def msg_types\<close>)
  next
    case moving
    with assms(1) show ?thesis by (simp add: ftp_inv_def moving_step)
  qed
qed

lemma ftp_reach:
  assumes "(ftp_step fs faults)\<^sup>*\<^sup>* (Waiting, Ask path, []) st" "length path < PATHMAX"
  shows "ftp_inv fs faults path st"
  using assms(1) by (induction rule: rtranclp_induct) (auto simp: ftp_inv_def [of _ _ _ "(Waiting, Ask path, [])"] intro: ftp_inv_step [OF _ _ assms(2)])

text \<open>
  C38: The message queue client never reports success: whatever fails and however client and server interleave, it does not
  leave with status 0, and what it has saved is a beginning of the file. When nothing fails and nobody can go on, the
  client has saved the whole file but still waits for a data packet: the server's end mark has the type \<open>MSG_EOT\<close>,
  which the client does not receive, and stays in the queue.
\<close>

theorem ftp_client_hangs:
  assumes "length path < PATHMAX"
  shows "((ftp_step fs True)\<^sup>*\<^sup>* (Waiting, Ask path, []) (s, c, q) \<longrightarrow> c \<noteq> Returned 0 \<and> (\<forall>acc. c = Receiving acc \<longrightarrow> prefix acc (content fs path))) \<and>
    ((ftp_step fs False)\<^sup>*\<^sup>* (Waiting, Ask path, []) (s, c, q) \<and> (\<forall>st. \<not> ftp_step fs False (s, c, q) st) \<longrightarrow>
      s = Waiting \<and> c = Receiving (content fs path) \<and> q = [(MSG_EOT, Eot)])"
proof (intro conjI impI allI)
  assume "(ftp_step fs True)\<^sup>*\<^sup>* (Waiting, Ask path, []) (s, c, q)"
  from ftp_reach [OF this assms] show "c \<noteq> Returned 0" by (auto simp: ftp_inv_def moving_def moves_def)
next
  fix acc
  assume "(ftp_step fs True)\<^sup>*\<^sup>* (Waiting, Ask path, []) (s, c, q)" "c = Receiving acc"
  with ftp_reach [OF this(1) assms] show "prefix acc (content fs path)"
    by (auto simp: ftp_inv_def moving_def moves_def dest: append_prefixD)
next
  assume r: "(ftp_step fs False)\<^sup>*\<^sup>* (Waiting, Ask path, []) (s, c, q) \<and> (\<forall>st. \<not> ftp_step fs False (s, c, q) st)"
  have n: "ftp_server fs s q = None" "ftp_client c q = None"
    using r by_server [of fs s q _ _ False c] by_client [of c q _ _ fs False s] by (metis option.exhaust surj_pair)+
  have "moving False (content fs path) (s, c, q)"
    using ftp_reach [OF conjunct1 [OF r] assms]
  proof (cases rule: ftp_inv_cases)
    case (asked c')
    with n(1) show ?thesis by simp
  qed (use n(2) in simp_all)
  then obtain acc bl e where m: "moves False (content fs path) s c q acc bl e" by (auto simp: moving_def)
  have s: "s = Waiting" using n(1) by (cases "(fs, s, q)" rule: ftp_server.cases) auto
  have "bl = []"
  proof (rule ccontr)
    assume "bl \<noteq> []"
    then obtain b bl' where "bl = b # bl'" by (cases bl) auto
    with m n(2) show False by (auto simp: moves_def receive_and_save_file_def split: if_splits)
  qed
  with m s show "s = Waiting" "c = Receiving (content fs path)" "q = [(MSG_EOT, Eot)]" by (auto simp: moves_def)
qed

theorem ftp_client_hangs_witness:
  "\<exists>s c q. (ftp_step [''f'' \<mapsto> ''hi''] False)\<^sup>*\<^sup>* (Waiting, Ask ''f'', []) (s, c, q) \<and> c = Receiving ''hi'' \<and> (\<forall>st. \<not> ftp_step [''f'' \<mapsto> ''hi''] False (s, c, q) st)"
proof -
  let ?fs = "[''f'' \<mapsto> ''hi'']" and ?e = "[(MSG_EOT, Eot)]"
  note srv = by_server [of ?fs _ _ _ _ False] and cli = by_client [of _ _ _ _ ?fs False]
  have b: "blocks DATAMAX ''hi'' = [''hi'']" by (simp add: blocks.simps DATAMAX_def)
  have "ftp_step ?fs False (Waiting, Ask ''f'', []) (Waiting, Receiving [], [(MSG_PATH, Path ''f'')])"
    by (rule cli) (simp add: send_path_request_def PATHMAX_def)
  moreover have "ftp_step ?fs False (Waiting, Receiving [], [(MSG_PATH, Path ''f'')]) (Sending [''hi''], Receiving [], [])"
    by (rule srv) (simp add: handle_file_request_def b)
  moreover have "ftp_step ?fs False (Sending [''hi''], Receiving [], []) (Sending [], Receiving [], [data_msg ''hi''])"
    by (rule srv) (simp add: send_data_packet_def)
  moreover have "ftp_step ?fs False (Sending [], Receiving [], [data_msg ''hi'']) (Ending, Receiving [], [data_msg ''hi''])"
    by (rule srv) simp
  moreover have "ftp_step ?fs False (Ending, Receiving [], [data_msg ''hi'']) (Waiting, Receiving [], data_msg ''hi'' # ?e)"
    by (rule srv) (simp add: send_eot_packet_def)
  moreover have "ftp_step ?fs False (Waiting, Receiving [], data_msg ''hi'' # ?e) (Waiting, Receiving ''hi'', ?e)"
    by (rule cli) (simp add: receive_and_save_file_def)
  ultimately have r: "(ftp_step ?fs False)\<^sup>*\<^sup>* (Waiting, Ask ''f'', []) (Waiting, Receiving ''hi'', ?e)"
    by (meson converse_rtranclp_into_rtranclp rtranclp.rtrancl_refl)
  have stop: "\<not> ftp_step ?fs False (Waiting, Receiving ''hi'', ?e) st" for st
    by (auto simp: receive_and_save_file_def msg_types elim!: ftp_stepE)
  have "length ''f'' < PATHMAX" by (simp add: PATHMAX_def)
  from ftp_client_hangs [OF this, of ?fs Waiting "Receiving ''hi''" ?e] r stop show ?thesis by blast
qed

end
