(* ===== verification/Memory.thy ===== *)
theory Memory
  imports Posix
begin

text \<open>
  Values in raw memory: little-endian integers of two's complement, strings with a final zero, and a buffer that receives
  fewer bytes than it holds. Used by the programs that send structures over the network.
\<close>

section \<open>Integers in memory\<close>

primrec le_bytes :: "nat \<Rightarrow> int \<Rightarrow> byte list" where
  "le_bytes 0 x = []"
| "le_bytes (Suc n) x = word_of_int x # le_bytes n (x div 256)"

primrec le_nat :: "byte list \<Rightarrow> int" where
  "le_nat [] = 0"
| "le_nat (b # bs) = uint b + 256 * le_nat bs"

text \<open>The two's complement reading of a non-empty list of bytes.\<close>

definition le_int :: "byte list \<Rightarrow> int" where
  "le_int bs = (le_nat bs + 2 ^ (8 * length bs - 1)) mod 256 ^ length bs - 2 ^ (8 * length bs - 1)"

lemma length_le_bytes [simp]: "length (le_bytes n x) = n"
  by (induction n arbitrary: x) simp_all

lemma le_nat_le_bytes: "le_nat (le_bytes n x) = x mod 256 ^ n"
proof (induction n arbitrary: x)
  case (Suc n)
  have "x mod (256 * 256 ^ n) = 256 * (x div 256 mod 256 ^ n) + x mod 256"
    by (rule zmod_zmult2_eq) simp
  with Suc show ?case by (simp add: uint_word_of_int)
qed simp

lemma le_int_le_bytes:
  assumes "0 < n" "- (2 ^ (8 * n - 1)) \<le> x" "x < 2 ^ (8 * n - 1)"
  shows "le_int (le_bytes n x) = x"
proof -
  have "(256 :: int) ^ n = 2 ^ (8 * n)" by (simp add: power_mult)
  also have "\<dots> = 2 * 2 ^ (8 * n - 1)" using assms(1) by (simp flip: power_Suc)
  finally have p: "(256 :: int) ^ n = 2 * 2 ^ (8 * n - 1)" .
  have "le_int (le_bytes n x) = (x + 2 ^ (8 * n - 1)) mod 256 ^ n - 2 ^ (8 * n - 1)"
    by (simp add: le_int_def le_nat_le_bytes mod_add_left_eq)
  also have "(x + 2 ^ (8 * n - 1)) mod 256 ^ n = x + 2 ^ (8 * n - 1)"
    using assms(2,3) unfolding p by (intro mod_pos_pos_trivial) simp_all
  finally show ?thesis by simp
qed

lemma le_int_range:
  assumes "bs \<noteq> []"
  shows "- (2 ^ (8 * length bs - 1)) \<le> le_int bs \<and> le_int bs < 2 ^ (8 * length bs - 1)"
proof -
  have l: "0 < length bs" using assms by simp
  have "(256 :: int) ^ length bs = 2 ^ (8 * length bs)" by (simp add: power_mult)
  also have "\<dots> = 2 * 2 ^ (8 * length bs - 1)" using l by (simp flip: power_Suc)
  finally have p: "(256 :: int) ^ length bs = 2 * 2 ^ (8 * length bs - 1)" .
  have "0 \<le> (le_nat bs + 2 ^ (8 * length bs - 1)) mod 256 ^ length bs"
    "(le_nat bs + 2 ^ (8 * length bs - 1)) mod 256 ^ length bs < 256 ^ length bs" by simp_all
  with p show ?thesis unfolding le_int_def by linarith
qed

section \<open>Strings and buffers\<close>

definition cstring :: "byte list \<Rightarrow> byte list" where
  "cstring bs = takeWhile (\<lambda>b. b \<noteq> 0) bs"

lemma takeWhile_zero: "0 \<notin> set bs \<Longrightarrow> takeWhile (\<lambda>b. b \<noteq> 0) (bs @ 0 # list) = bs"
  by (induction bs) auto

text \<open>The string at an offset of a block; \<open>None\<close> when no zero ends it inside the block.\<close>

definition cstr_at :: "nat \<Rightarrow> byte list \<Rightarrow> byte list option" where
  "cstr_at off mem = (if 0 \<in> set (drop off mem) then Some (cstring (drop off mem)) else None)"

text \<open>Bytes copied to an offset of a block.\<close>

definition put_at :: "nat \<Rightarrow> byte list \<Rightarrow> byte list \<Rightarrow> byte list" where
  "put_at off bs mem = take off mem @ bs @ drop (off + length bs) mem"

lemma length_put_at [simp]: "off + length bs \<le> length mem \<Longrightarrow> length (put_at off bs mem) = length mem"
  by (simp add: put_at_def)

lemma take_put_at: "off \<le> length mem \<Longrightarrow> n \<le> off \<Longrightarrow> take n (put_at off bs mem) = take n mem"
  by (simp add: put_at_def)

lemma drop_put_at: "off + length bs \<le> n \<Longrightarrow> off \<le> length mem \<Longrightarrow> drop n (put_at off bs mem) = drop n mem"
  by (simp add: put_at_def)

lemma cstr_put_at:
  "off + length bs < length mem \<Longrightarrow> 0 \<notin> set bs \<Longrightarrow> cstr_at off (put_at off (bs @ [0]) mem) = Some bs"
  by (simp add: cstr_at_def put_at_def cstring_def takeWhile_zero)

section \<open>Characters as bytes\<close>

lemma unat_of_char: "unat (of_char c :: byte) = of_char c"
proof -
  have "unat (of_nat (of_char c) :: byte) = of_char c" by (simp only: unat_of_nat) simp
  then show ?thesis by (simp only: of_nat_of_char)
qed

lemma of_char_byte: "(of_char c :: byte) = of_char d \<longleftrightarrow> c = d"
  by (metis unat_of_char of_char_eq_iff)

lemma of_char_0: "(of_char c :: byte) = 0 \<longleftrightarrow> c = CHR 0x00"
  using of_char_byte [of c "CHR 0x00"] by simp

lemma of_char_10: "(of_char c :: byte) = 10 \<longleftrightarrow> c = CHR 0x0A"
  using of_char_byte [of c "CHR 0x0A"] by simp

end
