(* ===== verification/Filecopy.thy ===== *)
theory Filecopy
  imports Digest Posix Memory
begin

text \<open>
  \<open>IO/FileIO/filecopy\<close>: a client sends a file over TCP, a server stores a copy. The stream holds a \<open>FileHeader\<close> as it
  lies in memory, the name, and the content. The client ignores what its two \<open>send\<close> calls return, the server reads header
  and name with one \<open>recv\<close> each. What the network delivers is a script of \<open>Posix\<close>; after its last event the client is
  silent with the connection open, and \<open>recv\<close> blocks. Memory that was never written (the header variable, a fresh block of
  \<open>malloc\<close>) holds arbitrary bytes. Messages on the terminal are left out.
\<close>

section \<open>The header\<close>

text \<open>
  The programs send and receive the memory of the variable \<open>header\<close> itself. How \<open>FileHeader\<close> (\<open>common.h\<close>) lies in memory is
  the compiler's work: on a 64-bit little-endian machine \<open>name_len\<close> takes four bytes, four bytes of padding follow, then \<open>file_size\<close>
  in eight and \<open>md\<close> in 32. \<open>header_bytes\<close> is the memory of a header with given fields, \<open>header_of\<close> are the fields in given memory.
\<close>

definition MAX_BUFSIZE :: nat where "MAX_BUFSIZE = 4096"
definition HEADER_SIZE :: nat where "HEADER_SIZE = 48"

record file_header =
  name_len :: int
  file_size :: int
  md :: "byte list"

definition header_bytes :: "byte list \<Rightarrow> file_header \<Rightarrow> byte list" where
  "header_bytes pad h = le_bytes 4 (name_len h) @ pad @ le_bytes 8 (file_size h) @ md h"

definition header_of :: "byte list \<Rightarrow> file_header" where
  "header_of bs = \<lparr>name_len = le_int (take 4 bs), file_size = le_int (take 8 (drop 8 bs)), md = take 32 (drop 16 bs)\<rparr>"

definition header_ok :: "file_header \<Rightarrow> bool" where
  "header_ok h \<longleftrightarrow> INT_MIN \<le> name_len h \<and> name_len h \<le> INT_MAX \<and> - (2 ^ 63) \<le> file_size h \<and> file_size h < 2 ^ 63 \<and> length (md h) = 32"

lemma length_header: "header_ok h \<Longrightarrow> length pad = 4 \<Longrightarrow> length (header_bytes pad h) = HEADER_SIZE"
  by (simp add: header_bytes_def header_ok_def HEADER_SIZE_def)

lemma header_roundtrip:
  assumes "header_ok h" "length pad = 4"
  shows "header_of (header_bytes pad h) = h"
proof -
  have "le_int (le_bytes 4 (name_len h)) = name_len h" "le_int (le_bytes 8 (file_size h)) = file_size h"
    using assms by (intro le_int_le_bytes; simp add: header_ok_def INT_MIN_def INT_MAX_def)+
  with assms show ?thesis by (simp add: header_of_def header_bytes_def header_ok_def)
qed

section \<open>The server\<close>

text \<open>
  \<open>recv\<close> on a blocking socket: some of the bytes that have arrived, 0 when the peer has closed the connection (\<^term>\<open>RData []\<close>, from
  then on always), or -1. \<open>None\<close>: it does not return, because nothing has arrived and the connection is open.
\<close>

definition recv :: "nat \<Rightarrow> rd_ev list \<Rightarrow> (int \<times> byte list \<times> rd_ev list) option" where
  "recv n es = (case es of
      [] \<Rightarrow> None
    | RErr e # es' \<Rightarrow> Some (-1, [], es')
    | RData bs # es' \<Rightarrow>
        Some (int (length (take n bs)), take n bs, if bs \<noteq> [] \<and> drop n bs = [] then es' else RData (drop n bs) # es'))"

text \<open>\<open>write\<close> to the file; the file accepts what its script says, and everything when the script has ended.\<close>

definition fc_write :: "byte list \<Rightarrow> wr_ev list \<Rightarrow> int \<times> wr_ev list" where
  "fc_write bs ws = (case ws of
      [] \<Rightarrow> (int (length bs), [])
    | WErr e # ws' \<Rightarrow> (-1, ws')
    | WAccept k # ws' \<Rightarrow> (int (length (take k bs)), ws'))"

text \<open>
  One connection as the server meets it: what arrives, the bytes in the header variable before \<open>recv\<close>, the block that
  \<open>malloc\<close> returns for a size (with its old bytes), whether \<open>open\<close> and \<open>EVP_MD_CTX_new\<close> succeed, and what the
  writes to the file do.
\<close>

record fc_conn =
  c_in :: "rd_ev list"
  c_header :: "byte list"
  c_malloc :: "nat \<Rightarrow> byte list option"
  c_open :: bool
  c_ctx :: bool
  c_disk :: "wr_ev list"

type_synonym fc_files = "byte list \<rightharpoonup> byte list"

text \<open>
  The loop of lines 84 to 108. \<open>acc\<close> is what has been written to the file; the digest \<open>ctx\<close> is updated and never used.
  The loop is left, or a \<open>recv\<close> in it blocks.
\<close>

function recv_loop :: "('c, byte) digest \<Rightarrow> int \<Rightarrow> int \<Rightarrow> rd_ev list \<Rightarrow> wr_ev list \<Rightarrow> 'c \<Rightarrow> byte list \<Rightarrow> (int \<times> 'c, byte list) outcome" where
  "recv_loop dg fsize recv_total es ws ctx acc =
     (if recv_total < fsize then
        (let to_read = (if fsize - recv_total > int MAX_BUFSIZE then MAX_BUFSIZE else nat (fsize - recv_total))
         in case recv to_read es of
           None \<Rightarrow> Blocked acc
         | Some (n, buf, es') \<Rightarrow>
           if n \<le> 0 then Ret (recv_total, ctx) acc
           else (case fc_write buf ws of (wr, ws') \<Rightarrow>
             if wr \<noteq> n then Ret (recv_total, ctx) (acc @ take (nat wr) buf)
             else recv_loop dg fsize (recv_total + n) es' ws' (dg_update dg ctx buf) (acc @ buf)))
      else Ret (recv_total, ctx) acc)"
  by pat_completeness auto
termination
  by (relation "measure (\<lambda>(dg, fsize, t, es, ws, ctx, acc). nat (fsize - t))") auto

declare recv_loop.simps [simp del]

definition COPY :: "byte list" where
  "COPY = str_bytes ''_copy''"

text \<open>The conversion of an \<open>int\<close> to the parameter type \<open>size_t\<close> of \<open>malloc\<close> and \<open>recv\<close>.\<close>

definition size_t :: "int \<Rightarrow> nat" where
  "size_t n = nat (n mod 2 ^ 64)"

text \<open>
  Lines 54 to 61: the block of \<^verbatim>\<open>malloc(header.name_len + 8)\<close>, the name received into it, \<^verbatim>\<open>filename[header.name_len] = 0\<close>,
  \<^verbatim>\<open>strcat\<close>. Undefined are: an overflow of the sum, an access through \<open>NULL\<close> (\<open>recv\<close> itself only reports it), more bytes received than the
  block has, a zero written outside of the block, and \<open>strcat\<close> running past its end.
\<close>

definition recv_name :: "(nat \<Rightarrow> byte list option) \<Rightarrow> int \<Rightarrow> rd_ev list \<Rightarrow> (byte list, rd_ev list) outcome" where
  "recv_name mal len es =
     (if len + 8 > INT_MAX then Undef es
      else (case recv (size_t len) es of
          None \<Rightarrow> Blocked es
        | Some (n, bs, es') \<Rightarrow> (case mal (size_t (len + 8)) of
            None \<Rightarrow> Undef es'
          | Some mem \<Rightarrow>
              if length bs > length mem then Undef es'
              else if len < 0 \<or> len \<ge> int (length mem) then Undef es'
              else (let filename = cstring ((bs @ drop (length bs) mem)[nat len := 0])
                in if length filename + length COPY + 1 > length mem then Undef es' else Ret (filename @ COPY) es'))))"

text \<open>A file opened without \<open>O_TRUNC\<close> and written from its start keeps the rest of its old content.\<close>

definition overwrite :: "byte list option \<Rightarrow> byte list \<Rightarrow> byte list" where
  "overwrite old bs = bs @ drop (length bs) (case old of None \<Rightarrow> [] | Some bs' \<Rightarrow> bs')"

text \<open>The body of the loop of \<open>main\<close> for one connection.\<close>

definition fc_session :: "('c, byte) digest \<Rightarrow> fc_conn \<Rightarrow> fc_files \<Rightarrow> (unit, fc_files) outcome" where
  "fc_session dg c fs =
     (case recv HEADER_SIZE (c_in c) of
        None \<Rightarrow> Blocked fs
      | Some (_, bs, es1) \<Rightarrow>
        let header = header_of (bs @ drop (length bs) (c_header c))
        in case recv_name (c_malloc c) (name_len header) es1 of
            Ret filename es2 \<Rightarrow>
              if \<not> c_open c then Ret () fs
              else if \<not> c_ctx c then Ret () (fs(filename \<mapsto> overwrite (fs filename) []))
              else map_outcome (\<lambda>_. ()) (\<lambda>acc. fs(filename \<mapsto> overwrite (fs filename) acc))
                (recv_loop dg (file_size header) 0 es2 (c_disk c) (dg_init dg) [])
          | r \<Rightarrow> map_outcome (\<lambda>_. ()) (\<lambda>_. fs) r)"

text \<open>
  The loop of \<open>main\<close>: connections in the order they are accepted, \<open>None\<close> a failed \<open>accept\<close>. With nothing left to accept
  the server is blocked, and so it is in a session with a silent client: the clients after it are not served.
\<close>

fun fc_server :: "('c, byte) digest \<Rightarrow> fc_conn option list \<Rightarrow> fc_files \<Rightarrow> (unit, fc_files) outcome" where
  "fc_server dg [] fs = Blocked fs"
| "fc_server dg (None # cs) fs = fc_server dg cs fs"
| "fc_server dg (Some c # cs) fs = bind_outcome (fc_session dg c fs) (\<lambda>_ fs'. fc_server dg cs fs')"

section \<open>The client\<close>

text \<open>
  What the environment does to the client: the results of \<open>socket\<close>, \<open>connect\<close> and \<open>open\<close> (the content of the file), of the
  calls of \<open>compute_file_md5\<close>, the padding of the header, the low byte of the address of \<open>md5\<close>, how much each
  \<open>send\<close> transmits, the content while \<open>sendfile\<close> runs, and how its calls end.
\<close>

datatype sf_ev = SSend nat | SFail

record fc_env =
  e_socket :: bool
  e_connect :: bool
  e_open :: "byte list option"
  e_fopen :: "byte list option"
  e_ctx :: bool
  e_init :: bool
  e_update :: "byte list \<Rightarrow> bool"
  e_final :: bool
  e_pad :: "byte list"
  e_ptr :: byte
  e_send_header :: "nat option"
  e_send_name :: "nat option"
  e_now :: "byte list"
  e_sendfile :: "sf_ev list"

fun md5_loop :: "('c, byte) digest \<Rightarrow> (byte list \<Rightarrow> bool) \<Rightarrow> byte list list \<Rightarrow> 'c \<Rightarrow> 'c option" where
  "md5_loop dg ok [] c = Some c"
| "md5_loop dg ok (p # ps) c = (if ok p then md5_loop dg ok ps (dg_update dg c p) else None)"

definition compute_file_md5 :: "('c, byte) digest \<Rightarrow> fc_env \<Rightarrow> nat list option" where
  "compute_file_md5 dg e = (case e_fopen e of
      None \<Rightarrow> None
    | Some bs \<Rightarrow>
        if \<not> e_ctx e then None
        else if \<not> e_init e then None
        else (case md5_loop dg (e_update e) (blocks 8192 bs) (dg_init dg) of
            None \<Rightarrow> None
          | Some c \<Rightarrow> if e_final e then Some (dg_final dg c) else None))"

definition MD5_LEN :: nat where "MD5_LEN = 16"

definition print_md5 :: "nat list \<Rightarrow> string" where
  "print_md5 md5 = hex (take MD5_LEN md5) @ [CHR 0x0A]"

text \<open>What \<open>send\<close> transmits, all of it or less; its result is not looked at.\<close>

definition send_part :: "nat option \<Rightarrow> byte list \<Rightarrow> byte list" where
  "send_part r bs = (case r of None \<Rightarrow> [] | Some k \<Rightarrow> take k bs)"

text \<open>
  The loop of lines 82 to 93. A failed \<open>sendfile\<close>, or one that finds nothing left in the file, is tried again. \<open>out\<close> is what
  went into the socket.
\<close>

definition sendfile :: "sf_ev \<Rightarrow> nat \<Rightarrow> byte list \<Rightarrow> byte list" where
  "sendfile ev offset now = (case ev of SFail \<Rightarrow> [] | SSend k \<Rightarrow> take (min k MAX_BUFSIZE) (drop offset now))"

fun sendfile_loop :: "byte list \<Rightarrow> int \<Rightarrow> sf_ev list \<Rightarrow> int \<Rightarrow> nat \<Rightarrow> byte list \<Rightarrow> (unit, byte list) outcome" where
  "sendfile_loop now fsize [] sent offset out = (if sent < fsize then OutOfFuel out else Ret () out)"
| "sendfile_loop now fsize (ev # evs) sent offset out =
     (if sent < fsize then
        (let bs = sendfile ev offset now
         in if bs = [] then sendfile_loop now fsize evs sent offset out
            else sendfile_loop now fsize evs (sent + int (length bs)) (offset + length bs) (out @ bs))
      else Ret () out)"

definition base_name :: "byte list \<Rightarrow> byte list" where
  "base_name path = (if of_char (CHR ''/'') \<in> set path
     then rev (takeWhile (\<lambda>b. b \<noteq> of_char (CHR ''/'')) (rev path)) else path)"

text \<open>
  \<^verbatim>\<open>.md = md5\<close> initialises the first byte of the array from the address of \<open>md5\<close> and the others with 0. The name goes to
  an array of 256 bytes.
\<close>

definition fc_client :: "('c, byte) digest \<Rightarrow> fc_env \<Rightarrow> byte list list \<Rightarrow> (unit, byte list) outcome" where
  "fc_client dg e argv =
     (if length argv \<noteq> 2 then Exit 1 []
      else if \<not> e_socket e then Exit 1 []
      else if \<not> e_connect e then Exit 1 []
      else (case e_open e of
          None \<Rightarrow> Exit 1 []
        | Some content \<Rightarrow>
            let fsize = int (length content); fname = base_name (argv ! 1)
            in if length fname + 1 > 256 then Undef []
               else (case compute_file_md5 dg e of
                   None \<Rightarrow> Exit 1 []
                 | Some md5 \<Rightarrow>
                     let header = \<lparr>name_len = int (length fname), file_size = fsize, md = e_ptr e # replicate 31 0\<rparr>;
                         out = send_part (e_send_header e) (header_bytes (e_pad e) header) @ send_part (e_send_name e) fname
                     in bind_outcome (sendfile_loop (e_now e) fsize (e_sendfile e) 0 0 out) (\<lambda>_ out'. Exit 0 out'))))"

text \<open>\<open>compute_file_md5\<close> gives the sum of the whole file, however it is cut into blocks, and 33 characters are printed.\<close>

lemma md5_loop_all: "(\<forall>p. ok p) \<Longrightarrow> md5_loop dg ok ps c = Some (foldl (dg_update dg) c ps)"
  by (induction ps arbitrary: c) auto

lemma compute_file_md5_sum:
  assumes "streaming dg" "e_fopen e = Some bs" "e_ctx e" "e_init e" "e_final e" "\<forall>p. e_update e p"
  shows "compute_file_md5 dg e = Some (digest_of dg bs) \<and> length (print_md5 (digest_of dg bs)) = 33"
proof -
  have "length (digest_of dg bs) = 16" using assms(1) by (simp add: streaming_def digest_of_def)
  with assms show ?thesis
    by (simp add: compute_file_md5_def md5_loop_all pieces_sum concat_blocks digest_of_def print_md5_def MD5_LEN_def length_hex)
qed

section \<open>Receiving\<close>

text \<open>The bytes a blocking reader can get before the connection ends or fails.\<close>

fun arrived :: "rd_ev list \<Rightarrow> byte list" where
  "arrived [] = []"
| "arrived (RErr e # es) = []"
| "arrived (RData bs # es) = (if bs = [] then [] else bs @ arrived es)"

lemma recv_arrived:
  assumes "recv k es = Some (n, bs, es')" "0 < n"
  shows "arrived es = bs @ arrived es' \<and> n = int (length bs) \<and> length bs \<le> k"
proof (cases es)
  case (Cons e es0)
  with assms show ?thesis
    by (cases e) (auto simp: recv_def split: if_splits)
qed (use assms in \<open>simp add: recv_def\<close>)

lemma recv_progress:
  assumes "arrived es \<noteq> []" "0 < k"
  obtains n bs es' where "recv k es = Some (n, bs, es')" "0 < n"
proof (cases es)
  case (Cons e es0)
  with assms that show ?thesis by (cases e) (auto simp: recv_def split: if_splits)
qed (use assms in simp)

lemma recv_part:
  assumes "recv k es = Some (n, bs, es')"
  shows "prefix bs (arrived es) \<and> n \<le> int k \<and> length bs \<le> k"
proof (cases es)
  case (Cons e es0)
  with assms show ?thesis
    by (cases e) (auto simp: recv_def min_def intro: prefix_prefix take_is_prefix)
qed (use assms in \<open>simp add: recv_def\<close>)

text \<open>A client that closes its connection, at whatever point, does not leave the server blocked.\<close>

abbreviation closes :: "rd_ev list \<Rightarrow> bool" where
  "closes es \<equiv> RData [] \<in> set es"

lemma recv_closes: "closes es \<Longrightarrow> \<exists>n bs es'. recv k es = Some (n, bs, es') \<and> closes es'"
  by (cases es) (auto simp: recv_def split: rd_ev.splits)

abbreviation window_of :: "int \<Rightarrow> int \<Rightarrow> nat" where
  "window_of fsize t \<equiv> (if fsize - t > int MAX_BUFSIZE then MAX_BUFSIZE else nat (fsize - t))"

lemma recv_loop_part:
  "\<exists>bs r. recv_loop dg fsize t es ws ctx acc \<in> {Ret r (acc @ bs)} \<union> (if closes es then {} else {Blocked (acc @ bs)}) \<and>
     prefix bs (arrived es) \<and> int (length bs) \<le> max 0 (fsize - t)"
proof (induction dg fsize t es ws ctx acc rule: recv_loop.induct)
  case (1 dg fsize t es ws ctx acc)
  note unfold = recv_loop.simps [of dg fsize t es ws ctx acc]
  show ?case
  proof (cases "recv (window_of fsize t) es")
    case None
    with recv_closes [of es "window_of fsize t"] have "\<not> closes es" by auto
    with None show ?thesis unfolding unfold Let_def by (intro exI [of _ "[]"] exI [of _ "(t, ctx)"]) simp
  next
    case (Some x)
    obtain n buf es' where r: "recv (window_of fsize t) es = Some (n, buf, es')" using Some by (cases x) simp
    obtain wr ws' where w: "fc_write buf ws = (wr, ws')" by (cases "fc_write buf ws")
    note unfold = unfold Let_def r w option.case prod.case
    consider (stop) "\<not> (t < fsize \<and> 0 < n)" | (short) "t < fsize" "0 < n" "wr \<noteq> n" | (on) "t < fsize" "0 < n" "wr = n" by linarith
    then show ?thesis
    proof cases
      case stop
      then show ?thesis unfolding unfold by (intro exI [of _ "[]"] exI [of _ "(t, ctx)"]) auto
    next
      case short
      from recv_arrived [OF r short(2)] short show ?thesis unfolding unfold
        by (intro exI [of _ "take (nat wr) buf"] exI [of _ "(t, ctx)"]) (auto intro: prefix_prefix take_is_prefix split: if_splits)
    next
      case on
      note a = recv_arrived [OF r on(2)]
      have c: "closes es \<Longrightarrow> closes es'" using recv_closes [of es "window_of fsize t"] r by auto
      from "1.IH" [OF on(1) refl r refl refl _ w [symmetric]] on obtain bs q where
        "recv_loop dg fsize (t + n) es' ws' (dg_update dg ctx buf) (acc @ buf) \<in>
          {Ret q ((acc @ buf) @ bs)} \<union> (if closes es' then {} else {Blocked ((acc @ buf) @ bs)})" "prefix bs (arrived es')"
        "int (length bs) \<le> max 0 (fsize - (t + n))" by (auto simp: not_le)
      with a on c show ?thesis unfolding unfold by (intro exI [of _ "buf @ bs"] exI [of _ q]) (auto split: if_splits)
    qed
  qed
qed

text \<open>A file whose writes are never short.\<close>

definition takes_all :: "wr_ev list \<Rightarrow> bool" where
  "takes_all ws \<longleftrightarrow> (\<forall>w \<in> set ws. case w of WErr e \<Rightarrow> False | WAccept k \<Rightarrow> MAX_BUFSIZE \<le> k)"

lemma fc_write_all:
  assumes "takes_all ws" "length bs \<le> MAX_BUFSIZE"
  obtains ws' where "fc_write bs ws = (int (length bs), ws')" "takes_all ws'"
  using assms by (cases ws) (auto simp: fc_write_def takes_all_def split: wr_ev.splits)

lemma recv_loop_all:
  assumes "takes_all ws" "arrived es = data @ rest" "int (length data) = fsize - t"
  shows "\<exists>r. recv_loop dg fsize t es ws ctx acc = Ret r (acc @ data)"
  using assms
proof (induction dg fsize t es ws ctx acc arbitrary: data rule: recv_loop.induct)
  case (1 dg fsize t es ws ctx acc)
  show ?case
  proof (cases "t < fsize")
    case True
    then have "arrived es \<noteq> []" "0 < window_of fsize t" using "1.prems" by (auto simp: MAX_BUFSIZE_def)
    then obtain n buf es' where r: "recv (window_of fsize t) es = Some (n, buf, es')" and n: "0 < n" by (rule recv_progress)
    note a = recv_arrived [OF r n]
    have le: "length buf \<le> length data" "length buf \<le> MAX_BUFSIZE" using a "1.prems"(3) by (auto split: if_splits)
    from fc_write_all [OF "1.prems"(1) le(2)] obtain ws' where w: "fc_write buf ws = (n, ws')" "takes_all ws'" using a by metis
    have "take (length buf) (data @ rest) = buf" "drop (length buf) (data @ rest) = arrived es'" using a "1.prems"(2) by auto
    with le(1) have "take (length buf) data = buf" "drop (length buf) data @ rest = arrived es'" by simp_all
    then obtain d2 where d2: "data = buf @ d2" "arrived es' = d2 @ rest" by (metis append_take_drop_id)
    have "\<exists>r. recv_loop dg fsize (t + n) es' ws' (dg_update dg ctx buf) (acc @ buf) = Ret r ((acc @ buf) @ d2)"
      using "1.prems"(3) d2 a n w
      by (intro "1.IH" [OF True refl r refl refl _ w(1) [symmetric]]) auto
    with True n w r d2 show ?thesis by (simp add: recv_loop.simps [of dg fsize t es ws ctx acc] Let_def)
  next
    case False
    with "1.prems"(3) have "data = []" by (cases data) auto
    with False show ?thesis by (simp add: recv_loop.simps)
  qed
qed

section \<open>Sending\<close>

abbreviation sends :: "sf_ev \<Rightarrow> bool" where
  "sends ev \<equiv> (case ev of SFail \<Rightarrow> False | SSend k \<Rightarrow> 0 < k)"

lemma sendfile_split:
  "off \<le> length now \<Longrightarrow> drop off now = sendfile ev off now @ drop (off + length (sendfile ev off now)) now \<and>
     off + length (sendfile ev off now) \<le> length now"
  using append_take_drop_id [of "length (sendfile ev off now)" "drop off now"]
  by (cases ev) (auto simp: sendfile_def add.commute min_def)

lemma sendfile_Nil_iff: "off \<le> length now \<Longrightarrow> sendfile ev off now = [] \<longleftrightarrow> \<not> sends ev \<or> off = length now"
  by (auto simp: sendfile_def MAX_BUFSIZE_def split: sf_ev.splits)

lemma sendfile_all:
  assumes "off \<le> length content" "length content \<le> off + length (filter sends evs)"
  shows "sendfile_loop content (int (length content)) evs (int off) off out = Ret () (out @ drop off content)"
  using assms
proof (induction evs arbitrary: off out)
  case (Cons ev evs)
  define bs where "bs = sendfile ev off content"
  show ?case
  proof (cases "bs = []")
    case True
    with Cons sendfile_Nil_iff [of off content ev] show ?thesis by (auto simp: bs_def [symmetric])
  next
    case False
    note sp = sendfile_split [OF Cons.prems(1), of ev, folded bs_def]
    have "1 \<le> length bs" using False by (cases bs) auto
    with sp Cons.prems have "sendfile_loop content (int (length content)) evs (int (off + length bs)) (off + length bs) (out @ bs) =
      Ret () ((out @ bs) @ drop (off + length bs) content)"
      by (intro Cons.IH) (auto split: if_splits)
    moreover have "off < length content" using sp False by (cases bs) auto
    moreover have "bs @ drop (off + length bs) content = drop off content" using sp by simp
    ultimately show ?thesis using False by (simp add: bs_def [symmetric])
  qed
qed auto

lemma sendfile_short:
  assumes "int (length now) < fsize" "off \<le> length now"
  shows "\<exists>out'. sendfile_loop now fsize evs (int off) off out = OutOfFuel out'"
  using assms
proof (induction evs arbitrary: off out)
  case (Cons ev evs)
  define bs where "bs = sendfile ev off now"
  have "off + length bs \<le> length now" using sendfile_split [OF Cons.prems(2), of ev] by (simp add: bs_def)
  with Cons.IH [of "off + length bs" "out @ bs"] Cons.IH [of off out] Cons.prems show ?case by (simp add: bs_def [symmetric])
qed auto

section \<open>Client and server together\<close>

text \<open>
  A client with everything in order: the file is not changed while it is sent, both \<open>send\<close> calls transmit everything, and
  \<open>sendfile\<close> succeeds often enough (each call may send as little as one byte, failures in between are allowed).
\<close>

definition client_well :: "('c, byte) digest \<Rightarrow> fc_env \<Rightarrow> byte list \<Rightarrow> bool" where
  "client_well dg e content \<longleftrightarrow> e_socket e \<and> e_connect e \<and> e_open e = Some content \<and> compute_file_md5 dg e \<noteq> None \<and>
     length (e_pad e) = 4 \<and> e_send_header e = Some HEADER_SIZE \<and> (\<exists>k \<ge> 255. e_send_name e = Some k) \<and> e_now e = content \<and>
     length content \<le> length (filter sends (e_sendfile e)) \<and> length content < 2 ^ 63"

text \<open>
  A connection whose header and name arrive in one piece each (the server calls \<open>recv\<close> once for each), with memory and
  disk in order.
\<close>

definition recv_gets :: "nat \<Rightarrow> rd_ev list \<Rightarrow> rd_ev list option" where
  "recv_gets k es = (case recv k es of None \<Rightarrow> None | Some (n, _, es') \<Rightarrow> if n = int k then Some es' else None)"

definition conn_well :: "fc_conn \<Rightarrow> nat \<Rightarrow> bool" where
  "conn_well c len \<longleftrightarrow> (case recv_gets HEADER_SIZE (c_in c) of None \<Rightarrow> False | Some es \<Rightarrow> recv_gets len es \<noteq> None) \<and>
     (\<forall>n. \<exists>mem. c_malloc c n = Some mem \<and> length mem = n) \<and> c_open c \<and> c_ctx c \<and> takes_all (c_disk c)"

lemma recv_gets_iff: "recv_gets k es = Some es' \<longleftrightarrow> (\<exists>bs. recv k es = Some (int k, bs, es'))"
  by (auto simp: recv_gets_def split: option.splits)

lemma recv_whole:
  assumes "recv k es = Some (int k, bs, es')"
  shows "arrived es = bs @ arrived es' \<and> length bs = k"
proof (cases "k = 0")
  case True
  with assms show ?thesis by (cases es) (auto simp: recv_def split: rd_ev.splits if_splits)
next
  case False
  with recv_arrived [OF assms] show ?thesis by simp
qed

lemma size_t_int: "0 \<le> n \<Longrightarrow> n \<le> INT_MAX \<Longrightarrow> size_t n = nat n"
  by (simp add: size_t_def INT_MAX_def)

lemma cstring_terminated: "0 \<notin> set bs \<Longrightarrow> length bs < length mem \<Longrightarrow> cstring ((bs @ drop (length bs) mem)[length bs := 0]) = bs"
  by (cases "drop (length bs) mem") (auto simp: cstring_def list_update_append takeWhile_zero)

lemma recv_name_whole:
  assumes "recv len es = Some (int len, bs, es')" "0 \<notin> set bs" "len < 256" "\<forall>n. \<exists>mem. mal n = Some mem \<and> length mem = n"
  shows "recv_name mal (int len) es = Ret (bs @ COPY) es'"
proof -
  obtain mem where m: "mal (len + 8) = Some mem" "length mem = len + 8" using assms(4) by blast
  have l: "length bs = len" using recv_whole [OF assms(1)] by simp
  have "size_t (int len) = len" "size_t (int len + 8) = len + 8" using assms(3) by (auto simp: size_t_int INT_MAX_def)
  with m l assms cstring_terminated [of bs mem] show ?thesis
    by (simp add: recv_name_def INT_MAX_def COPY_def str_bytes_def)
qed

lemma set_base_name: "set (base_name path) \<subseteq> set path"
  by (auto simp: base_name_def dest: set_takeWhileD)

lemma client_sends:
  assumes "client_well dg e content" "length (base_name path) < 256"
  shows "fc_client dg e [prog, path] = Exit 0 (header_bytes (e_pad e)
    \<lparr>name_len = int (length (base_name path)), file_size = int (length content), md = e_ptr e # replicate 31 0\<rparr> @ base_name path @ content)"
proof -
  let ?h = "\<lparr>name_len = int (length (base_name path)), file_size = int (length content), md = e_ptr e # replicate 31 0\<rparr>"
  have "length (header_bytes (e_pad e) ?h) = HEADER_SIZE"
    using assms by (intro length_header) (auto simp: header_ok_def client_well_def INT_MIN_def INT_MAX_def)
  then have "send_part (e_send_header e) (header_bytes (e_pad e) ?h) = header_bytes (e_pad e) ?h" "send_part (e_send_name e) (base_name path) = base_name path"
    using assms by (auto simp: client_well_def send_part_def)
  with assms sendfile_all [of 0 content "e_sendfile e"] show ?thesis
    by (auto simp: fc_client_def client_well_def Let_def)
qed

text \<open>
  C3: A file arrives. A client with everything in order exits with status 0, and a server that gets its bytes in
  whatever pieces -- provided header and name come in one piece each -- returns to accepting connections with the content
  stored under the name with \<open>_copy\<close> appended; all other files are as before. A longer file of that name keeps
  its old end, because it is opened without \<open>O_TRUNC\<close>.
\<close>

theorem filecopy_delivers:
  assumes "client_well dg e content" "length (base_name path) < 256" "0 \<notin> set path"
  shows "\<exists>out. fc_client dg e [prog, path] = Exit 0 out \<and>
    (\<forall>c fs. arrived (c_in c) = out \<and> conn_well c (length (base_name path)) \<longrightarrow>
       fc_session dg c fs = Ret () (fs(base_name path @ COPY \<mapsto>
         content @ drop (length content) (case fs (base_name path @ COPY) of None \<Rightarrow> [] | Some old \<Rightarrow> old))))"
proof -
  let ?n = "base_name path"
  define h where "h = \<lparr>name_len = int (length ?n), file_size = int (length content), md = e_ptr e # replicate 31 0\<rparr>"
  have ok: "header_ok h" "length (e_pad e) = 4"
    using assms by (auto simp: h_def header_ok_def client_well_def INT_MIN_def INT_MAX_def)
  have "fc_session dg c fs = Ret () (fs(?n @ COPY \<mapsto> overwrite (fs (?n @ COPY)) content))"
    if c: "arrived (c_in c) = header_bytes (e_pad e) h @ ?n @ content" "conn_well c (length ?n)" for c fs
  proof -
    obtain bs es1 where r1: "recv HEADER_SIZE (c_in c) = Some (int HEADER_SIZE, bs, es1)" "recv_gets (length ?n) es1 \<noteq> None"
      using c(2) by (auto simp: conn_well_def recv_gets_iff split: option.splits)
    then obtain nm es2 where r2: "recv (length ?n) es1 = Some (int (length ?n), nm, es2)"
      by (auto simp: recv_gets_iff)
    have bs: "bs = header_bytes (e_pad e) h" "arrived es1 = ?n @ content"
      using c(1) recv_whole [OF r1(1)] length_header [OF ok] by auto
    have nm: "nm = ?n" "arrived es2 = content" using bs(2) recv_whole [OF r2] by auto
    have z: "0 \<notin> set ?n" using assms(3) set_base_name [of path] by auto
    note name = recv_name_whole [OF r2, unfolded nm(1), OF z assms(2), of "c_malloc c"]
    have loop: "\<exists>r. recv_loop dg (int (length content)) 0 es2 (c_disk c) (dg_init dg) [] = Ret r ([] @ content)"
      using c(2) nm(2) by (intro recv_loop_all [of _ _ _ "[]"]) (auto simp: conn_well_def)
    have "header_of (bs @ drop (length bs) (c_header c)) = h"
      using header_roundtrip [OF ok] length_header [OF ok] bs(1) by (simp add: header_of_def HEADER_SIZE_def)
    with c(2) r1 name loop show ?thesis
      by (auto simp: fc_session_def Let_def conn_well_def h_def)
  qed
  with client_sends [OF assms(1,2), of prog] show ?thesis by (auto simp: h_def overwrite_def)
qed

text \<open>A digest over bytes, a client and a connection in order.\<close>

definition ex_bytesum :: "(nat, byte) digest" where
  "ex_bytesum = \<lparr>dg_init = 0, dg_update = \<lambda>c bs. c + sum_list (map unat bs), dg_final = \<lambda>c. replicate 16 (c mod 256)\<rparr>"

definition ex_env :: fc_env where
  "ex_env = \<lparr>e_socket = True, e_connect = True, e_open = Some [7, 8, 9], e_fopen = Some [7, 8, 9], e_ctx = True, e_init = True,
     e_update = \<lambda>_. True, e_final = True, e_pad = [1, 1, 1, 1], e_ptr = 42, e_send_header = Some HEADER_SIZE, e_send_name = Some 255,
     e_now = [7, 8, 9], e_sendfile = [SSend 2, SFail, SSend 1, SSend 1]\<rparr>"

definition ex_conn :: fc_conn where
  "ex_conn = \<lparr>c_in = [RData (header_bytes [1, 1, 1, 1] \<lparr>name_len = 1, file_size = 3, md = 42 # replicate 31 0\<rparr> @ [97, 7]), RData [8], RData [9]],
     c_header = replicate 48 5, c_malloc = \<lambda>n. Some (replicate n 3), c_open = True, c_ctx = True, c_disk = []\<rparr>"

lemma ex_client_well: "client_well ex_bytesum ex_env [7, 8, 9]"
proof -
  have "compute_file_md5 ex_bytesum ex_env \<noteq> None"
  proof -
    have "\<exists>c. md5_loop ex_bytesum (\<lambda>_. True) ps c0 = Some c" for ps c0
      by (induction ps arbitrary: c0) auto
    then show ?thesis by (auto simp: compute_file_md5_def ex_env_def split: option.splits)
  qed
  then show ?thesis by (auto simp: client_well_def ex_env_def)
qed

lemma ex_header_length: "length (header_bytes [1, 1, 1, 1] \<lparr>name_len = 1, file_size = 3, md = 42 # replicate 31 0\<rparr>) = 48"
  by (simp add: header_bytes_def)

lemma ex_conn_well: "conn_well ex_conn 1"
  using ex_header_length by (simp add: conn_well_def ex_conn_def recv_gets_def recv_def HEADER_SIZE_def takes_all_def)

theorem filecopy_delivers_witness:
  "fc_session ex_bytesum ex_conn [[97] @ COPY \<mapsto> [1, 2, 3, 4, 5]] = Ret () ([[97] @ COPY \<mapsto> [7, 8, 9, 4, 5]])"
proof -
  have b: "base_name [47, 97] = [97]" by (simp add: base_name_def)
  from filecopy_delivers [OF ex_client_well, of "[47, 97]" "[]"] b obtain out where
    o: "fc_client ex_bytesum ex_env [[], [47, 97]] = Exit 0 out"
    "\<And>c fs. arrived (c_in c) = out \<Longrightarrow> conn_well c 1 \<Longrightarrow>
       fc_session ex_bytesum c fs = Ret () (fs([97] @ COPY \<mapsto> [7, 8, 9] @ drop 3 (case fs ([97] @ COPY) of None \<Rightarrow> [] | Some old \<Rightarrow> old)))"
    by (auto simp: numeral_3_eq_3)
  from client_sends [OF ex_client_well, of "[47, 97]" "[]"] b o(1) have "arrived (c_in ex_conn) = out"
    by (simp add: ex_env_def ex_conn_def)
  from o(2) [OF this ex_conn_well, of "[[97] @ COPY \<mapsto> [1, 2, 3, 4, 5]]"] show ?thesis by simp
qed

text \<open>The server writes a name only inside its block.\<close>

lemma cstring_bound: "i < length xs \<Longrightarrow> length (cstring (xs[i := 0])) \<le> i"
proof (rule ccontr)
  assume i: "i < length xs" and "\<not> length (cstring (xs[i := 0])) \<le> i"
  then have "cstring (xs[i := 0]) ! i = 0" "i < length (cstring (xs[i := 0]))"
    by (auto simp: cstring_def takeWhile_nth)
  then have "0 \<in> set (cstring (xs[i := 0]))" by (metis nth_mem)
  then show False by (auto simp: cstring_def dest: set_takeWhileD)
qed

lemma recv_name_cases:
  assumes "\<forall>n mem. mal n = Some mem \<longrightarrow> length mem = n" "len + 8 \<le> INT_MAX" "recv (size_t len) es = Some (n, bs, es')"
  shows "if 0 \<le> len \<and> mal (size_t (len + 8)) \<noteq> None
    then \<exists>f. recv_name mal len es = Ret (f @ COPY) es' \<and> int (length f) \<le> len else recv_name mal len es = Undef es'"
proof (cases "0 \<le> len \<and> mal (size_t (len + 8)) \<noteq> None")
  case True
  then have sz: "size_t len = nat len" "size_t (len + 8) = nat len + 8" using assms(2) by (auto simp: size_t_int INT_MAX_def)
  with True assms(1) obtain mem where m: "mal (nat len + 8) = Some mem" "length mem = nat len + 8" by auto
  let ?f = "cstring ((bs @ drop (length bs) mem)[nat len := 0])"
  have b: "length bs \<le> nat len" using recv_part [OF assms(3)] sz by simp
  then have "length ?f \<le> nat len" using m(2) by (intro cstring_bound) auto
  then have "recv_name mal len es = Ret (?f @ COPY) es'" "int (length ?f) \<le> len"
    using m b assms(2,3) sz True by (auto simp: recv_name_def Let_def COPY_def str_bytes_def)
  with True show ?thesis by auto
next
  case False
  with assms(2,3) have "recv_name mal len es = Undef es'" by (auto simp: recv_name_def split: option.splits)
  with False show ?thesis by (simp only: if_False)
qed

lemma fc_session_named:
  assumes "recv HEADER_SIZE (c_in c) = Some (m, hb, es1)" "h = header_of (hb @ drop (length hb) (c_header c))"
    and "recv_name (c_malloc c) (name_len h) es1 = Ret (f @ COPY) es2"
  shows "\<exists>fs'. fc_session dg c fs \<in> {Ret () fs'} \<union> (if closes es2 then {} else {Blocked fs'}) \<and>
      (fs' = fs \<or> (\<exists>bs. fs' = fs(f @ COPY \<mapsto> overwrite (fs (f @ COPY)) bs) \<and> prefix bs (arrived es2) \<and> int (length bs) \<le> max 0 (file_size h)))"
proof -
  from recv_loop_part [of dg "file_size h" 0 es2 "c_disk c" "dg_init dg" "[]"] obtain bs r where
    l: "recv_loop dg (file_size h) 0 es2 (c_disk c) (dg_init dg) [] \<in> {Ret r bs} \<union> (if closes es2 then {} else {Blocked bs})"
    "prefix bs (arrived es2)" "int (length bs) \<le> max 0 (file_size h)" by (auto simp only: append_Nil diff_0_right)
  define st where "st = (\<lambda>b. fs(f @ COPY \<mapsto> overwrite (fs (f @ COPY)) b))"
  have s: "fc_session dg c fs = (if \<not> c_open c then Ret () fs else if \<not> c_ctx c then Ret () (st [])
    else map_outcome (\<lambda>_. ()) st (recv_loop dg (file_size h) 0 es2 (c_disk c) (dg_init dg) []))"
    using assms by (simp add: fc_session_def Let_def st_def)
  consider "\<not> c_open c" | "c_open c" "\<not> c_ctx c" | "c_open c" "c_ctx c" by blast
  then show ?thesis
  proof cases
    case 2
    with s show ?thesis by (intro exI [of _ "st []"]) (auto simp: st_def intro!: exI [of _ "[]"])
  next
    case 3
    with s l have "fc_session dg c fs \<in> {Ret () (st bs)} \<union> (if closes es2 then {} else {Blocked (st bs)})" by (auto split: if_splits)
    with l(2,3) show ?thesis by (intro exI [of _ "st bs"]) (auto simp: st_def)
  qed (use s in auto)
qed

text \<open>
  C18: What a connection can do to the server, for every byte sequence it receives, in every split, with short reads
  and errors. If the length of the name in the header is between 0 and \<open>INT_MAX - 8\<close> and \<open>malloc\<close> has room, no access leaves the
  block of the name, and at most one file is changed, whose name ends in \<open>_copy\<close> and in which no more bytes are written
  than the header announces and the client has sent. The session then ends, or it is blocked in \<open>recv\<close> for as long as the client stays silent; a client
  that closes its connection never leaves it blocked. A name length above \<open>INT_MAX - 8\<close> is undefined behaviour as soon as the header is read;
  a negative one, or a block that is not granted, as soon as the next \<open>recv\<close> returns: a client that sends 48 bytes of 255 and closes suffices.
\<close>

theorem fc_session_bounds:
  assumes "\<forall>n mem. c_malloc c n = Some mem \<longrightarrow> length mem = n"
  shows "case recv HEADER_SIZE (c_in c) of
      None \<Rightarrow> fc_session dg c fs = Blocked fs \<and> \<not> closes (c_in c)
    | Some (_, hb, es1) \<Rightarrow> (let h = header_of (hb @ drop (length hb) (c_header c)) in
        if name_len h + 8 > INT_MAX then fc_session dg c fs = Undef fs
        else (case recv (size_t (name_len h)) es1 of
            None \<Rightarrow> fc_session dg c fs = Blocked fs \<and> \<not> closes (c_in c)
          | Some (_, _, es2) \<Rightarrow>
              if name_len h < 0 \<or> c_malloc c (size_t (name_len h + 8)) = None then fc_session dg c fs = Undef fs
              else (\<exists>fs'. fc_session dg c fs \<in> {Ret () fs'} \<union> (if closes (c_in c) then {} else {Blocked fs'}) \<and>
                (fs' = fs \<or> (\<exists>f bs. fs' = fs(f @ COPY \<mapsto> overwrite (fs (f @ COPY)) bs) \<and> int (length f) \<le> name_len h \<and>
                   prefix bs (arrived es2) \<and> int (length bs) \<le> max 0 (file_size h))))))"
proof (cases "recv HEADER_SIZE (c_in c)")
  case None
  with recv_closes [of "c_in c" HEADER_SIZE] show ?thesis by (auto simp: fc_session_def)
next
  case (Some x)
  then obtain m hb es1 where r1: "recv HEADER_SIZE (c_in c) = Some (m, hb, es1)" by (cases x) simp
  define h where "h = header_of (hb @ drop (length hb) (c_header c))"
  have c1: "closes (c_in c) \<Longrightarrow> closes es1" using recv_closes [of "c_in c" HEADER_SIZE] r1 by auto
  have "if name_len h + 8 > INT_MAX then fc_session dg c fs = Undef fs
    else (case recv (size_t (name_len h)) es1 of
        None \<Rightarrow> fc_session dg c fs = Blocked fs \<and> \<not> closes (c_in c)
      | Some (_, _, es2) \<Rightarrow>
          if name_len h < 0 \<or> c_malloc c (size_t (name_len h + 8)) = None then fc_session dg c fs = Undef fs
          else (\<exists>fs'. fc_session dg c fs \<in> {Ret () fs'} \<union> (if closes (c_in c) then {} else {Blocked fs'}) \<and>
            (fs' = fs \<or> (\<exists>f bs. fs' = fs(f @ COPY \<mapsto> overwrite (fs (f @ COPY)) bs) \<and> int (length f) \<le> name_len h \<and>
               prefix bs (arrived es2) \<and> int (length bs) \<le> max 0 (file_size h)))))" (is "if ?big then ?u else ?rest")
  proof (cases ?big)
    case False
    have ?rest
    proof (cases "recv (size_t (name_len h)) es1")
      case None
      with False r1 c1 recv_closes [of es1 "size_t (name_len h)"] show ?thesis
        by (auto simp: fc_session_def recv_name_def h_def [symmetric])
    next
      case (Some y)
      then obtain k nb es2 where r2: "recv (size_t (name_len h)) es1 = Some (k, nb, es2)" by (cases y) simp
      have c2: "closes (c_in c) \<Longrightarrow> closes es2" using recv_closes [of es1 "size_t (name_len h)"] r2 c1 by auto
      note nm = recv_name_cases [OF assms _ r2]
      show ?thesis
      proof (cases "name_len h < 0 \<or> c_malloc c (size_t (name_len h + 8)) = None")
        case True
        with nm False have "recv_name (c_malloc c) (name_len h) es1 = Undef es2" by auto
        with True r1 r2 show ?thesis by (simp add: fc_session_def h_def [symmetric])
      next
        case bad: False
        with nm False obtain f where f: "recv_name (c_malloc c) (name_len h) es1 = Ret (f @ COPY) es2" "int (length f) \<le> name_len h" by auto
        from fc_session_named [OF r1 h_def f(1), of dg fs] obtain fs' where
          "fc_session dg c fs \<in> {Ret () fs'} \<union> (if closes es2 then {} else {Blocked fs'})" and
          w: "fs' = fs \<or> (\<exists>bs. fs' = fs(f @ COPY \<mapsto> overwrite (fs (f @ COPY)) bs) \<and> prefix bs (arrived es2) \<and> int (length bs) \<le> max 0 (file_size h))"
          by blast
        then have "fc_session dg c fs \<in> {Ret () fs'} \<union> (if closes (c_in c) then {} else {Blocked fs'})" using c2 by (auto split: if_splits)
        with w f(2) have "\<exists>fs'. fc_session dg c fs \<in> {Ret () fs'} \<union> (if closes (c_in c) then {} else {Blocked fs'}) \<and>
            (fs' = fs \<or> (\<exists>f bs. fs' = fs(f @ COPY \<mapsto> overwrite (fs (f @ COPY)) bs) \<and> int (length f) \<le> name_len h \<and>
               prefix bs (arrived es2) \<and> int (length bs) \<le> max 0 (file_size h)))" by blast
        with bad r2 show ?thesis by (simp only: option.case prod.case if_False)
      qed
    qed
    with False show ?thesis by (simp only: if_False)
  qed (use r1 in \<open>simp add: fc_session_def recv_name_def h_def [symmetric]\<close>)
  then show ?thesis unfolding r1 option.case prod.case Let_def h_def .
qed

text \<open>A connection that announces a name of length -1 and is closed, and one that announces it and stays open.\<close>

lemma ex_header_bad: "name_len (header_of (replicate 48 255)) = -1"
proof -
  have "take 4 (replicate 48 (255 :: byte)) = [255, 255, 255, 255]" by (simp add: numeral_eq_Suc)
  then show ?thesis by (simp add: header_of_def le_int_def del: take_replicate)
qed

theorem fc_session_bounds_witness:
  "fc_session ex_bytesum (ex_conn\<lparr>c_in := [RData (replicate 48 255), RData []]\<rparr>) Map.empty = Undef Map.empty \<and>
   fc_session ex_bytesum (ex_conn\<lparr>c_in := [RData (replicate 48 255)]\<rparr>) Map.empty = Blocked Map.empty"
proof
  let ?c = "\<lambda>es. ex_conn\<lparr>c_in := RData (replicate 48 255) # es\<rparr>"
  have m: "\<forall>n mem. c_malloc (?c es) n = Some mem \<longrightarrow> length mem = n" for es by (simp add: ex_conn_def)
  have r: "recv HEADER_SIZE (c_in (?c es)) = Some (48, replicate 48 255, es)" for es
    by (simp add: recv_def HEADER_SIZE_def)
  from fc_session_bounds [OF m [of "[RData []]"], of ex_bytesum Map.empty] r [of "[RData []]"] ex_header_bad show
    "fc_session ex_bytesum (?c [RData []]) Map.empty = Undef Map.empty"
    by (simp add: ex_conn_def recv_def INT_MAX_def)
  from fc_session_bounds [OF m [of "[]"], of ex_bytesum Map.empty] r [of "[]"] ex_header_bad show
    "fc_session ex_bytesum (?c []) Map.empty = Blocked Map.empty"
    by (simp add: ex_conn_def recv_def INT_MAX_def)
qed

text \<open>
  A file that shrinks between \<open>fstat\<close> and \<open>sendfile\<close> keeps the client in its loop: however often \<open>sendfile\<close> is called, the
  loop is not left.
\<close>

lemma fc_client_hangs:
  assumes "e_socket e" "e_connect e" "e_open e = Some content" "compute_file_md5 dg e \<noteq> None"
    "length (base_name path) < 256" "length (e_now e) < length content"
  shows "\<exists>out. fc_client dg e [prog, path] = OutOfFuel out"
proof -
  have short: "\<exists>out'. sendfile_loop (e_now e) (int (length content)) (e_sendfile e) 0 0 out = OutOfFuel out'" for out
    using sendfile_short [of "e_now e" "int (length content)" 0 "e_sendfile e" out] assms(6) by simp
  obtain md5 where m: "compute_file_md5 dg e = Some md5" using assms(4) by auto
  let ?h = "\<lparr>name_len = int (length (base_name path)), file_size = int (length content), md = e_ptr e # replicate 31 0\<rparr>"
  from short [of "send_part (e_send_header e) (header_bytes (e_pad e) ?h) @ send_part (e_send_name e) (base_name path)"] obtain out' where
    "sendfile_loop (e_now e) (int (length content)) (e_sendfile e) 0 0
      (send_part (e_send_header e) (header_bytes (e_pad e) ?h) @ send_part (e_send_name e) (base_name path)) = OutOfFuel out'" by blast
  with assms m show ?thesis by (simp add: fc_client_def Let_def)
qed

end
