(* ===== verification/Copy_Tools.thy ===== *)
theory Copy_Tools
  imports Posix
begin

text \<open>
  Programs that copy or cut a file: \<open>mycp.c\<close> and \<open>IO/standradIO/mycpy.c\<close> (character by character over \<open>FILE\<close> streams),
  \<open>mycat.c\<close> and \<open>IO/FileIO/cp.c\<close> (blocks, over descriptors). The stream programs work on
  a map from names to contents; a file that is opened for writing is empty from then on, also when it is the source.
\<close>

type_synonym files = "string \<rightharpoonup> byte list"

text \<open>The permissions of the environment: which names can be opened for reading and for writing.\<close>

record perms =
  may_read :: "string \<Rightarrow> bool"
  may_write :: "string \<Rightarrow> bool"

definition EOF :: int where "EOF = -1"

text \<open>\<open>fgetc\<close>: the next byte as a non-negative \<open>int\<close>, or \<open>EOF\<close>.\<close>

fun fgetc :: "byte list \<Rightarrow> int \<times> byte list" where
  "fgetc [] = (EOF, [])"
| "fgetc (b # bs) = (uint b, bs)"

lemma fgetc_shorter: "fst (fgetc bs) \<noteq> EOF \<Longrightarrow> length (snd (fgetc bs)) < length bs"
  by (cases bs) auto

section \<open>mycp.c and mycpy.c\<close>

text \<open>\<^verbatim>\<open>int ch\<close>: every byte differs from \<open>EOF\<close>.\<close>

function mycp_loop :: "byte list \<Rightarrow> byte list \<Rightarrow> byte list" where
  "mycp_loop fps fpd = (case fgetc fps of (ch, rest) \<Rightarrow> if ch = EOF then fpd else mycp_loop rest (fpd @ [word_of_int ch]))"
  by pat_completeness auto
termination
  by (relation "measure (\<lambda>(fps, fpd). length fps)") (auto dest: fgetc_shorter simp: prod_eq_iff)

declare mycp_loop.simps [simp del]

text \<open>\<^verbatim>\<open>char ch\<close>: the result of \<open>fgetc\<close> is cut to eight bits and sign extended before it is compared.\<close>

definition as_char :: "int \<Rightarrow> int" where
  "as_char x = sint (word_of_int x :: byte)"

lemma fgetc_char_shorter: "as_char (fst (fgetc bs)) \<noteq> EOF \<Longrightarrow> length (snd (fgetc bs)) < length bs"
  by (cases bs) (auto simp: as_char_def EOF_def)

function mycpy_loop :: "byte list \<Rightarrow> byte list \<Rightarrow> byte list" where
  "mycpy_loop fps fpd = (case fgetc fps of (c, rest) \<Rightarrow>
     let ch = as_char c in if ch = EOF then fpd else mycpy_loop rest (fpd @ [word_of_int ch]))"
  by pat_completeness auto
termination
  by (relation "measure (\<lambda>(fps, fpd). length fps)") (auto dest: fgetc_char_shorter simp: prod_eq_iff)

declare mycpy_loop.simps [simp del]

definition copy_main :: "(byte list \<Rightarrow> byte list \<Rightarrow> byte list) \<Rightarrow> perms \<Rightarrow> (string \<Rightarrow> bool) \<Rightarrow> string list \<Rightarrow> files \<Rightarrow> (unit, files) outcome" where
  "copy_main loop p src_ok argv fs =
     (if length argv < 3 then Exit 1 fs
      else let src = argv ! 1; dst = argv ! 2
        in if fs src = None \<or> \<not> src_ok src then Exit 1 fs
           else if \<not> may_write p dst then Exit 1 fs
           else let fs1 = fs(dst \<mapsto> []) in Exit 0 (fs1(dst \<mapsto> loop (the (fs1 src)) [])))"

text \<open>\<open>mycp.c\<close> opens the source with mode \<open>r\<close>, \<open>mycpy.c\<close> with \<open>r+\<close>, which needs permission to write.\<close>

definition mycp_main :: "perms \<Rightarrow> string list \<Rightarrow> files \<Rightarrow> (unit, files) outcome" where
  "mycp_main p = copy_main mycp_loop p (may_read p)"

definition mycpy_main :: "perms \<Rightarrow> string list \<Rightarrow> files \<Rightarrow> (unit, files) outcome" where
  "mycpy_main p = copy_main mycpy_loop p (\<lambda>n. may_read p n \<and> may_write p n)"

lemma mycp_loop_copies: "mycp_loop fps fpd = fpd @ fps"
proof (induction fps arbitrary: fpd)
  case (Cons b bs)
  have "uint b \<noteq> EOF" using uint_ge_0 [of b] unfolding EOF_def by linarith
  with Cons show ?case by (simp add: mycp_loop.simps [of "b # bs"])
qed (simp add: mycp_loop.simps)

lemma as_char_EOF: "as_char (uint (b :: byte)) = EOF \<longleftrightarrow> b = 255"
proof -
  have "as_char (uint b) = sint b" by (simp add: as_char_def)
  moreover have "EOF = sint (255 :: byte)" by (simp add: EOF_def)
  ultimately have "as_char (uint b) = EOF \<longleftrightarrow> sint b = sint (255 :: byte)" by (simp only:)
  then show ?thesis by (metis signed_word_eqI)
qed

lemma mycpy_loop_copies: "mycpy_loop fps fpd = fpd @ takeWhile (\<lambda>b. b \<noteq> 255) fps"
proof (induction fps arbitrary: fpd)
  case Nil
  have "as_char EOF = EOF" by (simp add: as_char_def EOF_def)
  then show ?case by (simp add: mycpy_loop.simps)
next
  case (Cons b bs)
  have "word_of_int (as_char (uint b)) = b" by (simp only: as_char_def word_of_int_uint) simp
  with Cons show ?case by (simp add: mycpy_loop.simps [of "b # bs"] as_char_EOF Let_def)
qed

text \<open>
  \<open>mycp.c\<close> copies every file byte for byte; \<open>mycpy.c\<close> keeps the character in a \<open>char\<close>, takes a byte 255 for the end of the
  file and copies what comes before it. Both leave all other files alone. With the same name for source and
  destination both programs destroy the file and report success.
\<close>

theorem copies_to_destination:
  assumes "fs src = Some content" "may_read p src" "may_write p src" "may_write p dst"
  shows "mycp_main p [prog, src, dst] fs = Exit 0 (fs(dst \<mapsto> if src = dst then [] else content)) \<and>
    mycpy_main p [prog, src, dst] fs = Exit 0 (fs(dst \<mapsto> if src = dst then [] else takeWhile (\<lambda>b. b \<noteq> 255) content))"
  using assms by (simp_all add: mycp_main_def mycpy_main_def copy_main_def mycp_loop_copies mycpy_loop_copies Let_def)

theorem copies_to_destination_witness:
  "mycpy_main \<lparr>may_read = \<lambda>_. True, may_write = \<lambda>_. True\<rparr> [''mycpy'', ''a'', ''b''] [''a'' \<mapsto> [1, 255, 2]] =
     Exit 0 ([''a'' \<mapsto> [1, 255, 2], ''b'' \<mapsto> [1]])"
  using copies_to_destination [of "[''a'' \<mapsto> [1, 255, 2]]" "''a''" "[1, 255, 2]"
    "\<lparr>may_read = \<lambda>_. True, may_write = \<lambda>_. True\<rparr>" "''b''" "''mycpy''"] by simp

section \<open>mycat.c\<close>

definition CAT_BUFSIZE :: nat where "CAT_BUFSIZE = 1024"

text \<open>
  The inner loop: \<^verbatim>\<open>write(dfd, buf + pos, len)\<close> until \<open>len\<close> is 0. \<open>pos\<close> belongs to \<open>main\<close> and is never set back. A range
  that ends behind the array is undefined.
\<close>

function cat_write :: "byte list \<Rightarrow> nat \<Rightarrow> nat \<Rightarrow> world \<Rightarrow> (nat, world) outcome" where
  "cat_write buf len pos w =
     (if len = 0 then Ret pos w
      else if pos + len > length buf then Undef w
      else (case sys_write 1 (take len (drop pos buf)) w of (ret, w1) \<Rightarrow>
        if ret < 0 then Exit 1 (perror ''write()'' w1)
        else cat_write buf (len - nat ret) (pos + nat ret) w1))"
  by pat_completeness auto
termination
  by (relation "measure (\<lambda>(buf, len, pos, w). len + length (wr_script w 1))")
     (auto simp: sys_write_def split: list.splits wr_ev.splits)

declare cat_write.simps [simp del]

text \<open>The loop of \<open>main\<close>; the script of reads is at the end when \<open>fuel\<close> is larger than its work.\<close>

fun cat_loop :: "nat \<Rightarrow> int \<Rightarrow> byte list \<Rightarrow> nat \<Rightarrow> world \<Rightarrow> (unit, world) outcome" where
  "cat_loop 0 sfd buf pos w = OutOfFuel w"
| "cat_loop (Suc n) sfd buf pos w =
     (case sys_read sfd CAT_BUFSIZE w of (len, bs, w1) \<Rightarrow>
        if len < 0 then Ret () (perror ''read()'' w1)
        else if len = 0 then Ret () w1
        else let buf1 = bs @ drop (length bs) buf
          in bind_outcome (cat_write buf1 (nat len) pos w1) (\<lambda>pos1 w2. cat_loop n sfd buf1 pos1 w2))"

definition cat_main :: "nat \<Rightarrow> byte list \<Rightarrow> string list \<Rightarrow> world \<Rightarrow> (unit, world) outcome" where
  "cat_main fuel buf argv w =
     (if length argv < 2 then Exit 1 w
      else (case sys_open (argv ! 1) 0 w of (sfd, w1) \<Rightarrow>
        if sfd < 0 then Exit 1 (perror ''open()'' w1)
        else bind_outcome (cat_loop fuel sfd buf 0 w1) (\<lambda>_ w2. Exit 0 (sys_close sfd w2))))"

lemma cat_write_ok:
  "sink_total (wr_script w 1) \<Longrightarrow> pos + len \<le> length buf \<Longrightarrow> \<exists>w'. cat_write buf len pos w = Ret (pos + len) w' \<and>
     written w' = (written w)(1 := written w 1 @ take len (drop pos buf)) \<and> rd_script w' = rd_script w \<and> sink_total (wr_script w' 1)"
proof (induction buf len pos w rule: cat_write.induct)
  case (1 buf len pos w)
  show ?case
  proof (cases "len = 0")
    case False
    obtain ret w1 where sw: "sys_write 1 (take len (drop pos buf)) w = (ret, w1)" by (cases "sys_write 1 (take len (drop pos buf)) w")
    have r: "0 \<le> ret" "nat ret \<le> len" "written w1 = (written w)(1 := written w 1 @ take (nat ret) (drop pos buf))" "rd_script w1 = rd_script w"
      "sink_total (wr_script w1 1)"
      using sw "1.prems" by (auto simp: sys_write_def sink_total_def min_def split: list.splits wr_ev.splits)
    have "\<exists>w'. cat_write buf (len - nat ret) (pos + nat ret) w1 = Ret (pos + nat ret + (len - nat ret)) w' \<and>
      written w' = (written w1)(1 := written w1 1 @ take (len - nat ret) (drop (pos + nat ret) buf)) \<and> rd_script w' = rd_script w1 \<and>
      sink_total (wr_script w' 1)"
      using "1.prems" r False by (intro "1.IH" [OF _ _ sw [symmetric]]) auto
    moreover have "take (nat ret) (drop pos buf) @ take (len - nat ret) (drop (pos + nat ret) buf) = take len (drop pos buf)"
      using r(2) take_add [of "nat ret" "len - nat ret" "drop pos buf"] by (simp add: add.commute)
    moreover have "cat_write buf len pos w = cat_write buf (len - nat ret) (pos + nat ret) w1"
      using False "1.prems"(2) sw r(1) by (simp add: cat_write.simps [of buf len pos w])
    ultimately show ?thesis using r by (auto simp: fun_eq_iff)
  qed (use "1.prems" in \<open>auto simp: cat_write.simps\<close>)
qed

lemma cat_main_opened:
  "2 \<le> length argv \<Longrightarrow> open_fd w (argv ! 1) = sfd \<Longrightarrow> 0 \<le> sfd \<Longrightarrow>
   cat_main fuel buf argv w = bind_outcome (cat_loop fuel sfd buf 0 (w\<lparr>fd_flags := (fd_flags w)(sfd := 0)\<rparr>)) (\<lambda>_ w2. Exit 0 (sys_close sfd w2))"
  by (simp add: cat_main_def sys_open_def)

text \<open>
  \<open>mycat.c\<close> prints files of up to 1024 bytes, and only those: for a longer file it prints the first 1024 bytes and then
  passes a range behind its buffer to \<open>write\<close>, because the position in the buffer is not set back for the next block.
\<close>

theorem mycat_one_block:
  assumes "2 \<le> length argv" "open_fd w (argv ! 1) = sfd" "0 \<le> sfd" "rd_script w sfd = [RData content, RData []]"
    "sink_total (wr_script w 1)" "length buf = CAT_BUFSIZE" "3 \<le> fuel"
  shows "\<exists>w'. cat_main fuel buf argv w = (if length content \<le> CAT_BUFSIZE then Exit 0 w' else Undef w') \<and>
    written w' 1 = written w 1 @ take CAT_BUFSIZE content"
proof -
  obtain n where fuel: "fuel = Suc (Suc n)" using assms(7) by (cases fuel; cases "fuel - 1") auto
  let ?w = "w\<lparr>fd_flags := (fd_flags w)(sfd := 0)\<rparr>"
  note main = cat_main_opened [OF assms(1-3), of fuel buf]
  show ?thesis
  proof (cases "content = []")
    case True
    then show ?thesis unfolding main using assms(4) fuel by (auto simp: sys_read_def sys_close_def)
  next
    case False
    let ?b = "take CAT_BUFSIZE content"
    let ?es = "if drop CAT_BUFSIZE content = [] then [RData []] else [RData (drop CAT_BUFSIZE content), RData []]"
    let ?w1 = "?w\<lparr>rd_script := (rd_script w)(sfd := ?es)\<rparr>"
    let ?buf = "?b @ drop (length ?b) buf"
    have rd: "sys_read sfd CAT_BUFSIZE ?w = (int (length ?b), ?b, ?w1)" using assms(4) by (simp add: sys_read_def)
    from cat_write_ok [of ?w1 0 "length ?b" ?buf] assms(5) obtain w2 where
      w2: "cat_write ?buf (length ?b) 0 ?w1 = Ret (length ?b) w2" "written w2 = (written w)(1 := written w 1 @ ?b)"
        "rd_script w2 = (rd_script w)(sfd := ?es)" by (auto simp: min_def split: if_splits)
    have "0 < length ?b" using False by (simp add: CAT_BUFSIZE_def)
    with rd w2(1) have step: "cat_loop fuel sfd buf 0 ?w = cat_loop (Suc n) sfd ?buf (length ?b) w2"
      unfolding fuel by (simp add: Let_def)
    show ?thesis
    proof (cases "length content \<le> CAT_BUFSIZE")
      case True
      then show ?thesis unfolding main step using w2 by (auto simp: sys_read_def sys_close_def)
    next
      case long: False
      then have "cat_write (take CAT_BUFSIZE (drop CAT_BUFSIZE content) @ drop (length (take CAT_BUFSIZE (drop CAT_BUFSIZE content))) ?buf)
          (length (take CAT_BUFSIZE (drop CAT_BUFSIZE content))) (length ?b) w3 = Undef w3" for w3
        using assms(6) by (simp add: cat_write.simps CAT_BUFSIZE_def)
      with long w2 show ?thesis unfolding main step
        by (simp add: sys_read_def CAT_BUFSIZE_def)
    qed
  qed
qed

definition ex_cat_world :: "byte list \<Rightarrow> world" where
  "ex_cat_world bs = \<lparr>open_fd = \<lambda>_. 3, rd_script = (\<lambda>_. [])(3 := [RData bs, RData []]), wr_script = (\<lambda>_. [])(1 := [WAccept 2]),
     written = \<lambda>_. [], fd_flags = \<lambda>_. 0, errno = 0, perrs = [], closed = []\<rparr>"

theorem mycat_one_block_witness:
  "(\<exists>w'. cat_main 3 (replicate 1024 0) [''mycat'', ''f''] (ex_cat_world [1, 2, 3]) = Exit 0 w' \<and> written w' 1 = [1, 2, 3]) \<and>
   (\<exists>w'. cat_main 3 (replicate 1024 0) [''mycat'', ''f''] (ex_cat_world (replicate 1025 7)) = Undef w' \<and> written w' 1 = replicate 1024 7)"
  using mycat_one_block [of "[''mycat'', ''f'']" "ex_cat_world [1, 2, 3]" 3 "[1, 2, 3]" "replicate 1024 0" 3]
    mycat_one_block [of "[''mycat'', ''f'']" "ex_cat_world (replicate 1025 7)" 3 "replicate 1025 7" "replicate 1024 0" 3]
  by (simp add: ex_cat_world_def CAT_BUFSIZE_def sink_total_def)

section \<open>cp.c\<close>

definition CP_BUFSIZE :: nat where "CP_BUFSIZE = 2048"

text \<open>
  \<^verbatim>\<open>while (len = read(fd_in, buf, sizeof(buf))) write(fd_out, buf, len);\<close>: what \<open>write\<close> returns is not looked at; after a
  failed read the length -1 is passed on, which is a range far behind the buffer.
\<close>

fun cp_loop :: "nat \<Rightarrow> int \<Rightarrow> int \<Rightarrow> world \<Rightarrow> (unit, world) outcome" where
  "cp_loop 0 fd_in fd_out w = OutOfFuel w"
| "cp_loop (Suc n) fd_in fd_out w =
     (case sys_read fd_in CP_BUFSIZE w of (len, bs, w1) \<Rightarrow>
        if len = 0 then Ret () w1
        else if len < 0 then Undef w1
        else cp_loop n fd_in fd_out (snd (sys_write fd_out bs w1)))"

definition O_RDONLY :: "32 word" where "O_RDONLY = 0"
definition CP_FLAGS :: "32 word" where "CP_FLAGS = 2 + 64 + 1024"

definition cp_main :: "nat \<Rightarrow> string list \<Rightarrow> world \<Rightarrow> (unit, world) outcome" where
  "cp_main fuel argv w =
     (if length argv \<noteq> 3 then Exit 1 (perror ''Usage!'' w)
      else (case sys_open (argv ! 1) O_RDONLY w of (fd_in, w1) \<Rightarrow>
        if fd_in < 0 then Exit 1 (perror ''open fd_in'' w1)
        else (case sys_open (argv ! 2) CP_FLAGS w1 of (fd_out, w2) \<Rightarrow>
          if fd_out < 0 then Exit 1 (sys_close fd_in (perror ''open fd_out'' w2))
          else bind_outcome (cp_loop fuel fd_in fd_out w2) (\<lambda>_ w3. Exit 0 (sys_close fd_out (sys_close fd_in w3))))))"

lemma cp_loop_copies:
  assumes "\<forall>e \<in> set (rd_script w fd_in). \<exists>bs. e = RData bs" "stream_ends (rd_script w fd_in)" "wr_script w fd_out = []"
    "rd_work (rd_script w fd_in) \<le> fuel"
  shows "\<exists>w'. cp_loop fuel fd_in fd_out w = Ret () w' \<and> written w' = (written w)(fd_out := written w fd_out @ stream (rd_script w fd_in))"
  using assms
proof (induction fuel arbitrary: w)
  case 0
  then show ?case by (cases "rd_script w fd_in") auto
next
  case (Suc n)
  then obtain bs es where e: "rd_script w fd_in = RData bs # es" by (cases "rd_script w fd_in") auto
  show ?case
  proof (cases "bs = []")
    case True
    with e show ?thesis by (auto simp: sys_read_def)
  next
    case False
    let ?es = "if drop CP_BUFSIZE bs = [] then es else RData (drop CP_BUFSIZE bs) # es"
    let ?b = "take CP_BUFSIZE bs"
    let ?w = "w\<lparr>rd_script := (rd_script w)(fd_in := ?es), written := (written w)(fd_out := written w fd_out @ ?b)\<rparr>"
    have "length ?b \<noteq> 0" using False by (simp add: CP_BUFSIZE_def)
    then have "cp_loop (Suc n) fd_in fd_out w = cp_loop n fd_in fd_out ?w"
      using e Suc.prems(3) by (auto simp: sys_read_def sys_write_def)
    moreover have "\<exists>w'. cp_loop n fd_in fd_out ?w = Ret () w' \<and>
        written w' = (written ?w)(fd_out := written ?w fd_out @ stream (rd_script ?w fd_in))"
      using Suc.prems False e by (intro Suc.IH) (auto simp: CP_BUFSIZE_def)
    moreover have "?b @ stream ?es = stream (rd_script w fd_in)"
    proof (cases "drop CP_BUFSIZE bs = []")
      case True
      with False e show ?thesis by simp
    next
      case rest: False
      with False e have "stream (rd_script w fd_in) = ?b @ drop CP_BUFSIZE bs @ stream es" by simp
      with rest show ?thesis by simp
    qed
    ultimately show ?thesis by auto
  qed
qed

text \<open>The whole source is appended to the destination, which keeps what it had before; a failed read is undefined.\<close>

lemma cp_appends:
  assumes "open_fd w src = fd_in" "0 \<le> fd_in" "open_fd w dst = fd_out" "0 \<le> fd_out"
    "\<forall>e \<in> set (rd_script w fd_in). \<exists>bs. e = RData bs" "stream_ends (rd_script w fd_in)" "wr_script w fd_out = []"
    "rd_work (rd_script w fd_in) \<le> fuel"
  shows "\<exists>w'. cp_main fuel [prog, src, dst] w = Exit 0 w' \<and> written w' = (written w)(fd_out := written w fd_out @ stream (rd_script w fd_in))"
proof -
  let ?w = "w\<lparr>fd_flags := (fd_flags w)(fd_in := O_RDONLY, fd_out := CP_FLAGS)\<rparr>"
  have "\<exists>w'. cp_loop fuel fd_in fd_out ?w = Ret () w' \<and> written w' = (written ?w)(fd_out := written ?w fd_out @ stream (rd_script ?w fd_in))"
    using assms by (intro cp_loop_copies) auto
  with assms show ?thesis by (auto simp: cp_main_def sys_open_def sys_close_def)
qed

lemma cp_read_error: "rd_script w fd_in = RErr k # es \<Longrightarrow> \<exists>w'. cp_loop (Suc n) fd_in fd_out w = Undef w'"
  by (simp add: sys_read_def)

end
