(* ===== verification/Text_Count.thy ===== *)
theory Text_Count
  imports Copy_Tools
begin

text \<open>
  The counters of \<open>homework/IO_std\<close>: \<open>MyWC.c\<close> and \<open>MyWC_op.c\<close> count bytes, lines and words of a file, \<open>cSourceStatist.c\<close> the lines
  of a C source by kind. All are loops over \<open>fgetc\<close>. The variable \<open>lastch\<close> is not initialised in any of them; its value
  before the first character is an argument. The counters are of type \<open>int\<close>: \<open>inc\<close> is \<open>++\<close> with the wrap-around at \<open>INT_MAX\<close>.
\<close>

definition inc :: "int \<Rightarrow> int" where
  "inc n = c_int (n + 1)"

lemma c_int_shift: "c_int (c_int x + y) = c_int (x + y)"
proof -
  have "(c_int x + y + 2147483648) mod 4294967296 = (x + y + 2147483648) mod 4294967296"
    unfolding c_int_def by (simp add: mod_simps algebra_simps)
  then show ?thesis by (simp add: c_int_def)
qed

lemma c_int_c_int [simp]: "c_int (c_int x) = c_int x"
  using c_int_shift [of x 0] by simp

lemma c_int_inc [simp]: "c_int (inc n) = inc n" "c_int (inc n + k) = c_int (n + (1 + k))"
  by (simp_all add: inc_def c_int_shift add.assoc)

lemma inc_id: "0 \<le> n \<Longrightarrow> n < INT_MAX \<Longrightarrow> inc n = n + 1"
  by (simp add: inc_def c_int_id INT_MIN_def)

lemma c_int_small [simp]: "c_int 0 = 0" "c_int 1 = 1"
  by (simp_all add: c_int_def)

definition NL :: int where "NL = 10"

definition isspace :: "int \<Rightarrow> bool" where
  "isspace ch \<longleftrightarrow> ch = 32 \<or> 9 \<le> ch \<and> ch \<le> 13"

text \<open>\<open>.\<close>, \<open>?\<close> and \<open>!\<close>.\<close>

definition ends_sentence :: "int \<Rightarrow> bool" where
  "ends_sentence ch \<longleftrightarrow> ch = 46 \<or> ch = 63 \<or> ch = 33"

text \<open>The loop \<^verbatim>\<open>while ((ch = fgetc(fp)) != EOF)\<close> with a body.\<close>

function while_fgetc :: "(int \<Rightarrow> 's \<Rightarrow> 's) \<Rightarrow> byte list \<Rightarrow> 's \<Rightarrow> 's" where
  "while_fgetc body fp s = (case fgetc fp of (ch, rest) \<Rightarrow> if ch = EOF then s else while_fgetc body rest (body ch s))"
  by pat_completeness auto
termination
  by (relation "measure (\<lambda>(body, fp, s). length fp)") (auto dest: fgetc_shorter simp: prod_eq_iff)

declare while_fgetc.simps [simp del]

lemma uint_not_EOF [simp]: "uint b \<noteq> EOF"
  using uint_ge_0 [of b] unfolding EOF_def by linarith

lemma while_fgetc_simps [simp]:
  "while_fgetc body [] s = s"
  "while_fgetc body (b # bs) s = while_fgetc body bs (body (uint b) s)"
  by (simp_all add: while_fgetc.simps)

lemma while_fgetc_append: "while_fgetc body (as @ bs) s = while_fgetc body bs (while_fgetc body as s)"
  by (induction as arbitrary: s) simp_all

section \<open>MyWC.c and MyWC_op.c\<close>

record wc =
  byte_count :: int
  word_count :: int
  line_count :: int
  in_word :: bool
  lastch :: int

text \<open>The test of the words, the same in both programs.\<close>

definition word_body :: "int \<Rightarrow> wc \<Rightarrow> wc" where
  "word_body ch s =
     (let s1 = (if isspace ch \<or> ends_sentence (lastch s) then s\<lparr>in_word := False\<rparr>
        else if \<not> in_word s then s\<lparr>word_count := inc (word_count s), in_word := True\<rparr> else s)
      in s1\<lparr>lastch := ch\<rparr>)"

definition wc_body :: "int \<Rightarrow> wc \<Rightarrow> wc" where
  "wc_body ch s =
     (let s1 = s\<lparr>byte_count := inc (byte_count s)\<rparr>;
          s2 = (if ch = NL then s1\<lparr>line_count := inc (line_count s1)\<rparr> else s1)
      in word_body ch s2)"

definition wc_init :: "int \<Rightarrow> wc" where
  "wc_init junk = \<lparr>byte_count = 0, word_count = 0, line_count = 0, in_word = False, lastch = junk\<rparr>"

text \<open>\<open>main\<close> of \<open>MyWC.c\<close> after the file is open: the first character counts as a line and a byte, the loop starts behind it.\<close>

definition mywc :: "int \<Rightarrow> byte list \<Rightarrow> wc" where
  "mywc junk fp = (case fgetc fp of (ch, rest) \<Rightarrow>
     let s = (if ch \<noteq> EOF then (wc_init junk)\<lparr>line_count := 1, byte_count := 1\<rparr> else wc_init junk)
     in while_fgetc wc_body rest s)"

definition byteCount :: "byte list \<Rightarrow> int" where
  "byteCount fp = while_fgetc (\<lambda>ch n. inc n) fp 0"

definition lineCount :: "byte list \<Rightarrow> int" where
  "lineCount fp = (case fgetc fp of (ch, rest) \<Rightarrow>
     while_fgetc (\<lambda>ch n. if ch = NL then inc n else n) rest (if ch \<noteq> EOF then 1 else 0))"

definition wordCount :: "int \<Rightarrow> byte list \<Rightarrow> int" where
  "wordCount junk fp = word_count (while_fgetc word_body fp (wc_init junk))"

text \<open>
  \<^verbatim>\<open>getopt(argc, argv + 1, "-lcw")\<close>, called once: it looks at the argument behind the file name. A letter of the list is
  returned, another letter gives \<open>?\<close>, an argument without \<open>-\<close> gives 1 (the list starts with \<open>-\<close>), and none -1.
\<close>

definition getopt_once :: "string list \<Rightarrow> int" where
  "getopt_once argv = (if length argv < 3 then -1
     else (case argv ! 2 of
         CHR ''-'' # c # cs \<Rightarrow> if c = CHR ''-'' \<and> cs = [] then -1 else if c \<in> {CHR ''l'', CHR ''c'', CHR ''w''} then of_char c else of_char CHR ''?''
       | _ \<Rightarrow> 1))"

text \<open>\<open>main\<close> of \<open>MyWC_op.c\<close>: the number it prints, if it prints one.\<close>

definition mywc_op :: "int \<Rightarrow> files \<Rightarrow> string list \<Rightarrow> (int option, unit) outcome" where
  "mywc_op junk fs argv = (if length argv < 2 then Undef () else case fs (argv ! 1) of
      None \<Rightarrow> Exit 1 ()
    | Some fp \<Rightarrow>
        let c = getopt_once argv
        in if c = of_char (CHR ''l'') then Ret (Some (lineCount fp)) ()
           else if c = of_char (CHR ''c'') then Ret (Some (byteCount fp)) ()
           else if c = of_char (CHR ''w'') then Ret (Some (wordCount junk fp)) ()
           else Ret None ())"

section \<open>What is counted\<close>

text \<open>
  The reference: a character is inside a word when it is no space and does not follow the end of a sentence; a word is a
  maximal run of such characters. \<open>starts\<close> counts their beginnings, given the character before and whether a run goes on.
\<close>

primrec starts :: "bool \<Rightarrow> int \<Rightarrow> byte list \<Rightarrow> nat" where
  "starts run prev [] = 0"
| "starts run prev (b # bs) =
     (let inside = \<not> isspace (uint b) \<and> \<not> ends_sentence prev
      in (if inside \<and> \<not> run then 1 else 0) + starts inside (uint b) bs)"

lemma word_loop:
  "c_int (word_count s) = word_count s \<Longrightarrow> word_count (while_fgetc word_body bs s) = c_int (word_count s + int (starts (in_word s) (lastch s) bs))"
  by (induction bs arbitrary: s) (auto simp: word_body_def Let_def)

lemma wc_loop:
  assumes "c_int (byte_count s) = byte_count s" "c_int (line_count s) = line_count s" "c_int (word_count s) = word_count s"
  shows "byte_count (while_fgetc wc_body bs s) = c_int (byte_count s + int (length bs))"
    and "line_count (while_fgetc wc_body bs s) = c_int (line_count s + int (length (filter (\<lambda>b. uint b = NL) bs)))"
    and "word_count (while_fgetc wc_body bs s) = c_int (word_count s + int (starts (in_word s) (lastch s) bs))"
  using assms by (induction bs arbitrary: s) (auto simp: wc_body_def word_body_def Let_def)

lemma byte_loop: "c_int n = n \<Longrightarrow> while_fgetc (\<lambda>ch n. inc n) bs n = c_int (n + int (length bs))"
  by (induction bs arbitrary: n) auto

lemma line_loop: "c_int n = n \<Longrightarrow> while_fgetc (\<lambda>ch n. if ch = NL then inc n else n) bs n = c_int (n + int (length (filter (\<lambda>b. uint b = NL) bs)))"
  by (induction bs arbitrary: n) auto

lemma starts_le: "starts run p bs \<le> length bs"
  by (induction bs arbitrary: run p) (auto simp: Let_def le_SucI)

lemma starts_junk: "starts False j bs = starts False j' bs" if "\<not> ends_sentence j" "\<not> ends_sentence j'"
  using that by (cases bs) simp_all

lemma starts_run: "starts True p bs \<le> starts False p bs \<and> starts False p bs \<le> Suc (starts True p bs)"
  by (cases bs) (auto simp: Let_def)

lemma starts_tl: "starts False NL (b # bs) = starts False NL bs \<or> starts False NL (b # bs) = Suc (starts False NL bs)"
proof -
  have nl: "\<not> ends_sentence NL" by (simp add: ends_sentence_def NL_def)
  consider "isspace (uint b)" | "\<not> isspace (uint b)" "\<not> ends_sentence (uint b)" | "\<not> isspace (uint b)" "ends_sentence (uint b)" by blast
  then show ?thesis
  proof cases
    case 1
    then have "\<not> ends_sentence (uint b)" by (auto simp: isspace_def ends_sentence_def)
    with 1 nl starts_junk [of "uint b" NL bs] show ?thesis by simp
  next
    case 2
    with nl starts_junk [of "uint b" NL bs] starts_run [of "uint b" bs] show ?thesis by auto
  next
    case 3
    show ?thesis
    proof (cases bs)
      case (Cons a list)
      with 3 nl starts_run [of "uint a" list] show ?thesis by (auto simp: Let_def)
    qed (use 3 nl in simp)
  qed
qed

text \<open>
  C17: What \<open>MyWC.c\<close> and \<open>MyWC_op.c\<close> count in a file of at most \<open>INT_MAX\<close> bytes (in a larger one the \<open>int\<close> counters overflow). Bytes: all. Lines: one for a file
  that is not empty and one for every newline behind its first character, in both programs. Words: \<open>MyWC_op.c\<close> counts the maximal runs of the reference definition,
  as long as the uninitialised \<open>lastch\<close> does not happen to hold a full stop, a question mark or an exclamation mark; \<open>MyWC.c\<close> does the same for the text
  without its first character, so its number is the same or one less.
\<close>

theorem word_counters_agree:
  assumes "\<not> ends_sentence junk" and "int (length fp) \<le> INT_MAX"
  shows "byte_count (mywc junk fp) = byteCount fp \<and> byteCount fp = int (length fp) \<and>
    line_count (mywc junk fp) = lineCount fp \<and>
    lineCount fp = (if fp = [] then 0 else 1 + int (length (filter (\<lambda>b. uint b = NL) (tl fp)))) \<and>
    wordCount junk fp = int (starts False NL fp) \<and>
    word_count (mywc junk fp) = int (starts False NL (tl fp)) \<and>
    (wordCount junk fp = word_count (mywc junk fp) \<or> wordCount junk fp = word_count (mywc junk fp) + 1)"
proof -
  have nl: "\<not> ends_sentence NL" by (simp add: ends_sentence_def NL_def)
  have in_range: "c_int (int n) = int n" if "n \<le> length fp" for n
    using that assms(2) by (intro c_int_id) (auto simp: INT_MIN_def)
  have ws: "wordCount junk fp = int (starts False NL fp)"
    using starts_junk [OF assms(1) nl] in_range [OF starts_le] by (simp add: wordCount_def word_loop wc_init_def)
  have "starts False NL (tl fp) \<le> length fp" using starts_le [of False NL "tl fp"] by simp
  then have mw: "word_count (mywc junk fp) = int (starts False NL (tl fp))"
    using starts_junk [OF assms(1) nl] in_range by (cases fp) (simp_all add: mywc_def wc_loop wc_init_def)
  have lines: "c_int (1 + int (length (filter (\<lambda>b. uint b = NL) bs))) = 1 + int (length (filter (\<lambda>b. uint b = NL) bs))" if "fp = b # bs" for b bs
    using in_range [of "Suc (length (filter (\<lambda>b. uint b = NL) bs))"] that by simp
  have "starts False NL fp = starts False NL (tl fp) \<or> starts False NL fp = Suc (starts False NL (tl fp))"
    using starts_tl by (cases fp) (simp_all only: list.sel, simp)
  then show ?thesis
    unfolding ws mw using in_range [of "length fp"] lines
    by (cases fp) (auto simp: mywc_def wc_loop wc_init_def byteCount_def byte_loop lineCount_def line_loop add.commute)
qed

definition ascii :: "string \<Rightarrow> byte list" where
  "ascii = map of_char"

theorem word_counters_agree_witness:
  "word_count (mywc 0 (ascii ''a b'')) = 1 \<and> wordCount 0 (ascii ''a b'') = 2 \<and> lineCount (ascii ''a b'') = 1"
  using word_counters_agree [of 0 "ascii ''a b''"] by (simp add: ends_sentence_def ascii_def isspace_def NL_def INT_MAX_def)

section \<open>cSourceStatist.c\<close>

record cstat =
  total_line_count :: int
  comment_line_count :: int
  space_line_count :: int
  is_comment_type1 :: bool
  is_comment_type2 :: bool
  is_space :: bool
  cs_lastch :: int

definition SLASH :: int where "SLASH = 47"
definition STAR :: int where "STAR = 42"

text \<open>The body of the loop; \<open>cs_line\<close> are the counters at the end of a line, the same as behind the loop.\<close>

definition cs_line :: "cstat \<Rightarrow> cstat" where
  "cs_line s =
     (let s1 = s\<lparr>total_line_count := inc (total_line_count s)\<rparr>;
          s2 = (if is_comment_type1 s1 \<or> is_comment_type2 s1 then s1\<lparr>comment_line_count := inc (comment_line_count s1)\<rparr> else s1)
      in if is_space s2 then s2\<lparr>space_line_count := inc (space_line_count s2)\<rparr> else s2)"

definition cs_body :: "int \<Rightarrow> cstat \<Rightarrow> cstat" where
  "cs_body ch s =
     (let s1 = (if \<not> is_comment_type1 s \<and> cs_lastch s = SLASH \<and> ch = SLASH
                then s\<lparr>is_comment_type1 := True, is_space := False\<rparr> else s);
          s2 = (if \<not> is_comment_type2 s1 \<and> cs_lastch s1 = SLASH \<and> ch = STAR
                then s1\<lparr>is_comment_type2 := True, is_space := False\<rparr>
                else if \<not> isspace ch \<or> is_comment_type1 s1 then s1\<lparr>is_space := False\<rparr> else s1);
          s3 = (if ch = NL then (cs_line s2)\<lparr>is_comment_type1 := False, is_space := True\<rparr> else s2);
          s4 = (if cs_lastch s3 = STAR \<and> ch = SLASH
                then s3\<lparr>comment_line_count := inc (comment_line_count s3), is_comment_type2 := False\<rparr> else s3)
      in s4\<lparr>cs_lastch := ch\<rparr>)"

definition cs_init :: "int \<Rightarrow> cstat" where
  "cs_init junk = \<lparr>total_line_count = 0, comment_line_count = 0, space_line_count = 0, is_comment_type1 = False,
     is_comment_type2 = False, is_space = True, cs_lastch = junk\<rparr>"

definition cs_scan :: "int \<Rightarrow> byte list \<Rightarrow> cstat" where
  "cs_scan junk fp =
     (let s = while_fgetc cs_body fp (cs_init junk)
      in if cs_lastch s = NL \<or> \<not> isspace (cs_lastch s) then cs_line s else s)"

definition code_line_count :: "cstat \<Rightarrow> int" where
  "code_line_count s = c_int (c_int (total_line_count s - comment_line_count s) - space_line_count s)"

definition cstat_main :: "int \<Rightarrow> files \<Rightarrow> string list \<Rightarrow> (int \<times> int \<times> int \<times> int, unit) outcome" where
  "cstat_main junk fs argv = (if length argv < 2 then Undef () else case fs (argv ! 1) of
      None \<Rightarrow> Exit 1 ()
    | Some fp \<Rightarrow> (let s = cs_scan junk fp in Ret (total_line_count s, code_line_count s, comment_line_count s, space_line_count s) ()))"

section \<open>Lines of a source without comments\<close>

text \<open>The lines of a text; behind the last newline there is one more, possibly empty.\<close>

fun text_lines :: "byte list \<Rightarrow> byte list list" where
  "text_lines [] = [[]]"
| "text_lines (b # bs) = (if uint b = NL then [] # text_lines bs
     else (case text_lines bs of [] \<Rightarrow> [[b]] | l # ls \<Rightarrow> (b # l) # ls))"

abbreviation blank :: "byte list \<Rightarrow> bool" where
  "blank l \<equiv> \<forall>b \<in> set l. isspace (uint b)"

text \<open>No two neighbours form \<open>//\<close>, \<open>/*\<close> or \<open>*/\<close>; \<open>prev\<close> is the character before.\<close>

fun no_comment :: "int \<Rightarrow> byte list \<Rightarrow> bool" where
  "no_comment prev [] = True"
| "no_comment prev (b # bs) \<longleftrightarrow> \<not> (prev = SLASH \<and> (uint b = SLASH \<or> uint b = STAR)) \<and> \<not> (prev = STAR \<and> uint b = SLASH) \<and> no_comment (uint b) bs"

lemma text_lines_neq [simp]: "text_lines bs \<noteq> []"
  by (induction bs) (auto split: list.splits)

lemma cs_body_plain:
  assumes "\<not> is_comment_type1 s" "\<not> is_comment_type2 s" "no_comment (cs_lastch s) [b]"
  shows "cs_body (uint b) s = (if uint b = NL then (cs_line s)\<lparr>is_space := True, cs_lastch := NL\<rparr>
    else s\<lparr>is_space := is_space s \<and> isspace (uint b), cs_lastch := uint b\<rparr>)"
proof -
  have "isspace NL" "NL \<noteq> SLASH" "NL \<noteq> STAR" by (simp_all add: isspace_def NL_def SLASH_def STAR_def)
  with assms show ?thesis by (auto simp: cs_body_def cs_line_def Let_def)
qed

lemma cs_loop_plain:
  assumes "\<not> is_comment_type1 s" "\<not> is_comment_type2 s" "no_comment (cs_lastch s) bs" "t = while_fgetc cs_body bs s"
    and "0 \<le> total_line_count s" "total_line_count s + int (length (text_lines bs)) \<le> INT_MAX"
    and "0 \<le> space_line_count s" "space_line_count s + int (length (text_lines bs)) \<le> INT_MAX"
  shows "0 \<le> space_line_count t \<and> \<not> is_comment_type1 t \<and> \<not> is_comment_type2 t \<and> comment_line_count t = comment_line_count s \<and>
    cs_lastch t = (if bs = [] then cs_lastch s else uint (last bs)) \<and>
    total_line_count t + 1 = total_line_count s + int (length (text_lines bs)) \<and>
    space_line_count t + of_bool (is_space t) =
      space_line_count s + of_bool (is_space s \<and> blank (hd (text_lines bs))) + int (length (filter blank (tl (text_lines bs))))"
  using assms
proof (induction bs arbitrary: s)
  case (Cons b bs)
  let ?s = "cs_body (uint b) s"
  have b: "?s = (if uint b = NL then (cs_line s)\<lparr>is_space := True, cs_lastch := NL\<rparr>
    else s\<lparr>is_space := is_space s \<and> isspace (uint b), cs_lastch := uint b\<rparr>)"
    using Cons.prems by (intro cs_body_plain) auto
  have "0 < length (text_lines bs)" by simp
  then have i: "inc (total_line_count s) = total_line_count s + 1" "inc (space_line_count s) = space_line_count s + 1" if "uint b = NL"
    using Cons.prems(5-8) that by (intro inc_id; simp)+
  have "0 \<le> total_line_count ?s" "total_line_count ?s + int (length (text_lines bs)) \<le> INT_MAX"
    "0 \<le> space_line_count ?s" "space_line_count ?s + int (length (text_lines bs)) \<le> INT_MAX"
  proof -
    obtain h ls where hl: "text_lines bs = h # ls" by (cases "text_lines bs") auto
    have len: "length (text_lines (b # bs)) = length (text_lines bs) + of_bool (uint b = NL)" using hl by simp
    have "total_line_count ?s = total_line_count s + of_bool (uint b = NL)" "space_line_count ?s = space_line_count s + of_bool (uint b = NL \<and> is_space s)"
      using i Cons.prems(1,2) by (auto simp: b cs_line_def Let_def)
    with Cons.prems(5-8) len show "0 \<le> total_line_count ?s" "total_line_count ?s + int (length (text_lines bs)) \<le> INT_MAX"
      "0 \<le> space_line_count ?s" "space_line_count ?s + int (length (text_lines bs)) \<le> INT_MAX"
      by (auto simp del: text_lines.simps split: split_of_bool_asm)
  qed
  moreover have "\<not> is_comment_type1 ?s" "\<not> is_comment_type2 ?s" "cs_lastch ?s = uint b"
    using Cons.prems(1,2) by (simp_all add: b cs_line_def Let_def)
  ultimately have IH: "0 \<le> space_line_count t \<and> \<not> is_comment_type1 t \<and> \<not> is_comment_type2 t \<and> comment_line_count t = comment_line_count ?s \<and>
    cs_lastch t = (if bs = [] then cs_lastch ?s else uint (last bs)) \<and>
    total_line_count t + 1 = total_line_count ?s + int (length (text_lines bs)) \<and>
    space_line_count t + of_bool (is_space t) =
      space_line_count ?s + of_bool (is_space ?s \<and> blank (hd (text_lines bs))) + int (length (filter blank (tl (text_lines bs))))"
    using Cons.prems(3,4) by (intro Cons.IH) simp_all
  obtain h ls where hl: "text_lines bs = h # ls" by (cases "text_lines bs") auto
  show ?case
  proof (cases "uint b = NL")
    case True
    have "comment_line_count ?s = comment_line_count s" "total_line_count ?s = total_line_count s + 1"
      "space_line_count ?s = space_line_count s + of_bool (is_space s)" "is_space ?s" "cs_lastch ?s = NL"
      unfolding b using True Cons.prems(1,2) i by (simp_all add: cs_line_def Let_def)
    with IH True hl show ?thesis by (simp del: of_bool_eq_iff)
  next
    case False
    then have "?s = s\<lparr>is_space := is_space s \<and> isspace (uint b), cs_lastch := uint b\<rparr>" by (simp add: b)
    with IH False hl show ?thesis by (simp add: conj_assoc)
  qed
qed auto

lemma filter_blank_split: "length (filter P ls) + length (filter (\<lambda>l. \<not> P l) ls) = length ls"
  by (induction ls) auto

text \<open>
  On a source of fewer than \<open>INT_MAX\<close> lines without comments (no two neighbours \<open>//\<close>, \<open>/*\<close> or \<open>*/\<close>) that ends with a newline or with a visible
  character, \<open>cSourceStatist.c\<close> counts its lines: all of them, those that hold nothing but white space, and the others as code;
  behind a final newline it counts one more empty line.
\<close>

theorem cs_counts_lines:
  assumes "fp \<noteq> []" "no_comment junk fp" "uint (last fp) = NL \<or> \<not> isspace (uint (last fp))"
    "int (length (text_lines fp)) \<le> INT_MAX"
  shows "total_line_count (cs_scan junk fp) = int (length (text_lines fp)) \<and> comment_line_count (cs_scan junk fp) = 0 \<and>
    space_line_count (cs_scan junk fp) = int (length (filter blank (text_lines fp))) \<and>
    code_line_count (cs_scan junk fp) = int (length (filter (\<lambda>l. \<not> blank l) (text_lines fp)))"
proof -
  define t where "t = while_fgetc cs_body fp (cs_init junk)"
  have t: "\<not> is_comment_type1 t" "\<not> is_comment_type2 t" "comment_line_count t = 0" "cs_lastch t = uint (last fp)"
    "total_line_count t + 1 = int (length (text_lines fp))"
    "space_line_count t + of_bool (is_space t) = of_bool (blank (hd (text_lines fp))) + int (length (filter blank (tl (text_lines fp))))"
    using cs_loop_plain [of "cs_init junk" fp t] assms(1,2,4) by (auto simp: cs_init_def t_def)
  have nn: "0 \<le> space_line_count t" using cs_loop_plain [of "cs_init junk" fp t] assms(1,2,4) by (auto simp: cs_init_def t_def)
  have "0 < length (text_lines fp)" by simp
  then have tot: "inc (total_line_count t) = int (length (text_lines fp))"
    using t(5) assms(4) inc_id [of "total_line_count t"] by linarith
  have "of_bool (blank (hd (text_lines fp))) + int (length (filter blank (tl (text_lines fp)))) = int (length (filter blank (text_lines fp)))"
    by (cases "text_lines fp") auto
  moreover have "length (filter blank (text_lines fp)) \<le> length (text_lines fp)" by simp
  ultimately have "space_line_count t + of_bool (is_space t) \<le> INT_MAX" using t(6) assms(4) by linarith
  then have spc: "is_space t \<Longrightarrow> inc (space_line_count t) = space_line_count t + 1" using nn by (intro inc_id) simp_all
  have scan: "cs_scan junk fp = cs_line t" using assms(3) t(4) by (auto simp: cs_scan_def Let_def t_def [symmetric])
  have line: "total_line_count (cs_line t) = int (length (text_lines fp))" "comment_line_count (cs_line t) = 0"
    "space_line_count (cs_line t) = space_line_count t + of_bool (is_space t)"
    using t(1-3) tot spc by (auto simp: cs_line_def Let_def)
  have "space_line_count (cs_line t) = int (length (filter blank (text_lines fp)))"
    unfolding line(3) t(6) by (cases "text_lines fp") auto
  moreover have "c_int (int (length (text_lines fp))) = int (length (text_lines fp))"
    "c_int (int (length (text_lines fp)) - int (length (filter blank (text_lines fp)))) = int (length (text_lines fp)) - int (length (filter blank (text_lines fp)))"
    using assms(4) filter_blank_split [of blank "text_lines fp"] by (intro c_int_id; simp add: INT_MIN_def)+
  ultimately show ?thesis using line(1,2) filter_blank_split [of blank "text_lines fp"]
    by (simp add: scan code_line_count_def)
qed

theorem cs_counts_lines_witness:
  "code_line_count (cs_scan 0 (ascii [CHR ''a'', CHR 0x0A, CHR 0x20, CHR 0x0A])) = 1 \<and>
   space_line_count (cs_scan 0 (ascii [CHR ''a'', CHR 0x0A, CHR 0x20, CHR 0x0A])) = 2"
  using cs_counts_lines [of "ascii [CHR ''a'', CHR 0x0A, CHR 0x20, CHR 0x0A]" 0]
  by (simp add: ascii_def NL_def SLASH_def STAR_def isspace_def INT_MAX_def)

text \<open>Two comments in one line are counted twice, so that the number of lines of code is negative.\<close>

lemma cs_negative: "code_line_count (cs_scan 0 (ascii ''/**/ /**/'')) = -1"
  by (simp add: ascii_def cs_scan_def cs_body_def cs_init_def cs_line_def code_line_count_def Let_def NL_def SLASH_def STAR_def isspace_def inc_def c_int_def)

end
