(* ===== verification/Shell_Tools.thy ===== *)
theory Shell_Tools
  imports Prelude "HOL-Library.Multiset"
begin

text \<open>
  \<open>myshell.c\<close>, a shell that splits a line into words, expands them and runs the command, and \<open>mydu.c\<close>, which adds up the blocks
  of a directory tree. Both rely on \<open>glob\<close>: what it matches is a parameter.
\<close>

section \<open>myshell.c\<close>

definition DELIMIS :: string where
  "DELIMIS = [CHR 0x20, CHR 0x09, CHR 0x0A]"

abbreviation delim :: "char \<Rightarrow> bool" where
  "delim c \<equiv> c \<in> set DELIMIS"

text \<open>
  \<^verbatim>\<open>strsep(&line, DELIMIS)\<close>: the token up to the next delimiter, and the rest behind it, or \<open>NULL\<close> when there was none. A
  C string is the list of the characters before its zero; \<open>parse\<close> cuts the line there.
\<close>

definition strsep :: "string \<Rightarrow> string \<times> string option" where
  "strsep line = (takeWhile (\<lambda>c. \<not> delim c) line,
     case dropWhile (\<lambda>c. \<not> delim c) line of [] \<Rightarrow> None | _ # rest \<Rightarrow> Some rest)"

lemma strsep_shorter: "snd (strsep line) = Some rest \<Longrightarrow> length rest < length line"
proof -
  assume "snd (strsep line) = Some rest"
  then obtain c where "dropWhile (\<lambda>c. \<not> delim c) line = c # rest" by (auto simp: strsep_def split: list.splits)
  then have "length (c # rest) \<le> length line" by (metis length_dropWhile_le)
  then show ?thesis by simp
qed

text \<open>
  \<open>parse\<close>: the first non-empty token makes \<open>glob\<close> start a new list (\<^verbatim>\<open>GLOB_APPEND * i\<close> with \<open>i = 0\<close>), the later ones append.
  \<open>cmd\<close> is the list of paths, \<open>None\<close> as long as it was never set. \<open>expand\<close> is \<open>glob\<close> with \<open>GLOB_NOCHECK\<close>.
\<close>

function parse_loop :: "(string \<Rightarrow> string list) \<Rightarrow> string option \<Rightarrow> bool \<Rightarrow> string list option \<Rightarrow> string list option" where
  "parse_loop expand None i cmd = cmd"
| "parse_loop expand (Some line) i cmd = (case strsep line of (tok, rest) \<Rightarrow>
     if tok = [] then parse_loop expand rest i cmd
     else parse_loop expand rest True (Some ((if i then (case cmd of None \<Rightarrow> [] | Some ps \<Rightarrow> ps) else []) @ expand tok)))"
  by pat_completeness auto
termination
  by (relation "measure (\<lambda>(expand, line, i, cmd). case line of None \<Rightarrow> 0 | Some l \<Rightarrow> Suc (length l))")
     (auto dest: strsep_shorter simp: prod_eq_iff split: option.splits)

text \<open>A line as \<open>getline\<close> delivers it may contain zero characters; for the string functions it ends at the first of them.\<close>

definition c_string :: "string \<Rightarrow> string" where
  "c_string line = takeWhile (\<lambda>c. c \<noteq> CHR 0x00) line"

definition parse :: "(string \<Rightarrow> string list) \<Rightarrow> string \<Rightarrow> string list option \<Rightarrow> string list option" where
  "parse expand line cmd = parse_loop expand (Some (c_string line)) False cmd"

text \<open>
  A child: the command runs with its arguments, or \<open>execvp\<close> fails, the child prints a message and leaves with status 1. Without a command (no line had a word yet, or \<open>glob\<close> gave
  no path) the child reads an uninitialised or absent pointer.
\<close>

datatype shell_child = Runs "string list" | Exec_fails int string | Reads_garbage

definition shell_exec :: "bool \<Rightarrow> string list option \<Rightarrow> shell_child" where
  "shell_exec started cmd = (case cmd of
      Some (p # ps) \<Rightarrow> if started then Runs (p # ps) else Exec_fails 1 ''execvp()''
    | _ \<Rightarrow> Reads_garbage)"

text \<open>
  The loop of \<open>main\<close> over the lines of the input, with the results of \<open>fork\<close> and \<open>execvp\<close> for each. The state is \<open>cmd\<close> and what became of the children,
  oldest first; the parent waits for each.
\<close>

type_synonym shell = "string list option \<times> shell_child list"

fun shell_loop :: "(string \<Rightarrow> string list) \<Rightarrow> (string \<times> bool \<times> bool) list \<Rightarrow> shell \<Rightarrow> (unit, shell) outcome" where
  "shell_loop expand [] s = Exit 0 s"
| "shell_loop expand ((line, forks, started) # ls) (cmd, children) =
     (let cmd1 = parse expand line cmd
      in if \<not> forks then Exit 1 (cmd1, children) else shell_loop expand ls (cmd1, children @ [shell_exec started cmd1]))"

definition shell_main :: "(string \<Rightarrow> string list) \<Rightarrow> (string \<times> bool \<times> bool) list \<Rightarrow> (unit, shell) outcome" where
  "shell_main expand ls = shell_loop expand ls (None, [])"

text \<open>The words of a line, independent of \<open>strsep\<close>: maximal runs of characters that are no delimiters.\<close>

fun words_from :: "string \<Rightarrow> string \<Rightarrow> string list" where
  "words_from acc [] = (if acc = [] then [] else [acc])"
| "words_from acc (c # cs) = (if delim c then (if acc = [] then [] else [acc]) @ words_from [] cs else words_from (acc @ [c]) cs)"

definition words_of :: "string \<Rightarrow> string list" where
  "words_of line = words_from [] line"

abbreviation line_words :: "string \<times> bool \<times> bool \<Rightarrow> string list" where
  "line_words l \<equiv> words_of (c_string (fst l))"

lemma words_from_strsep:
  "words_from acc line = (case strsep line of (tok, rest) \<Rightarrow>
     (if acc @ tok = [] then [] else [acc @ tok]) @ (case rest of None \<Rightarrow> [] | Some r \<Rightarrow> words_from [] r))"
  by (induction line arbitrary: acc) (auto simp: strsep_def split: list.splits)

lemma parse_loop_words:
  "parse_loop expand line i cmd = (case line of None \<Rightarrow> cmd | Some l \<Rightarrow>
     if words_of l = [] then cmd
     else Some ((if i then (case cmd of None \<Rightarrow> [] | Some ps \<Rightarrow> ps) else []) @ concat (map expand (words_of l))))"
proof (induction expand line i cmd rule: parse_loop.induct)
  case (2 expand line i cmd)
  obtain tok rest where s: "strsep line = (tok, rest)" by (cases "strsep line")
  have w: "words_of line = (if tok = [] then [] else [tok]) @ (case rest of None \<Rightarrow> [] | Some r \<Rightarrow> words_of r)"
    using words_from_strsep [of "[]" line] s by (cases rest) (simp_all add: words_of_def)
  show ?case
  proof (cases "tok = []")
    case True
    with "2.IH"(1) [OF s [symmetric] True] s w show ?thesis by (simp split: option.splits)
  next
    case False
    with "2.IH"(2) [OF s [symmetric] False] s w show ?thesis by (simp split: option.splits)
  qed
qed simp

text \<open>What the shell should do, and does: each line runs its words, a line without words runs the command before it again.\<close>

fun commands :: "(string \<Rightarrow> string list) \<Rightarrow> string list option \<Rightarrow> string list list \<Rightarrow> string list option list" where
  "commands expand prev [] = []"
| "commands expand prev (ws # wss) =
     (let c = (if ws = [] then prev else Some (concat (map expand ws))) in c # commands expand c wss)"

lemma parse_words: "parse expand line cmd = (if words_of (c_string line) = [] then cmd else Some (concat (map expand (words_of (c_string line)))))"
  by (simp add: parse_def parse_loop_words)

definition forked :: "string \<times> bool \<times> bool \<Rightarrow> bool" where
  "forked l = fst (snd l)"

lemma shell_loop_commands:
  "\<exists>cmd'. shell_loop expand ls (cmd, cs) =
    Exit (if \<forall>l \<in> set ls. forked l then 0 else 1)
      (cmd', cs @ map2 shell_exec (map (snd \<circ> snd) (takeWhile forked ls)) (commands expand cmd (map line_words (takeWhile forked ls))))"
proof (induction ls arbitrary: cmd cs)
  case (Cons l ls)
  obtain line f x where l: "l = (line, f, x)" by (cases l)
  let ?c = "parse expand line cmd"
  have "commands expand cmd (words_of (c_string line) # wss) = ?c # commands expand ?c wss" for wss
    by (simp add: parse_words Let_def)
  with Cons.IH [of ?c "cs @ [shell_exec x ?c]"] l show ?case by (auto simp: Let_def forked_def)
qed simp

text \<open>Words that are joined by blanks come back.\<close>

lemma words_from_app: "\<forall>c \<in> set w. \<not> delim c \<Longrightarrow> words_from acc (w @ cs) = words_from (acc @ w) cs"
  by (induction w arbitrary: acc) auto

lemma words_of_join:
  "\<forall>w \<in> set ws. w \<noteq> [] \<and> (\<forall>c \<in> set w. \<not> delim c) \<Longrightarrow> words_of (concat (map (\<lambda>w. w @ [CHR 0x20]) ws) @ [CHR 0x0A]) = ws"
proof (induction ws)
  case (Cons w ws)
  then show ?case
    using words_from_app [of w "[]" "CHR 0x20 # concat (map (\<lambda>w. w @ [CHR 0x20]) ws) @ [CHR 0x0A]"]
    by (simp add: words_of_def DELIMIS_def)
qed (simp add: words_of_def DELIMIS_def)

text \<open>
  C24: The shell runs what was typed. For every input, up to the first line for which \<open>fork\<close> fails (there it leaves with status 1, otherwise at the end of the input with
  status 0), one child per line gets as its command the words of the line -- the maximal runs of characters other than blank, tab and newline, up to the first zero character
  of the line if it has one -- each replaced by what \<open>glob\<close> makes of it, in order. The child runs it or, when \<open>execvp\<close> fails, leaves with a message and status 1. A line
  without words gives the command of the line before again, and at the beginning an uninitialised one. Words without zero characters typed with blanks between them are found again.
\<close>

theorem shell_runs_words:
  "(\<exists>cmd'. shell_main expand ls = Exit (if \<forall>l \<in> set ls. forked l then 0 else 1)
      (cmd', map2 shell_exec (map (snd \<circ> snd) (takeWhile forked ls)) (commands expand None (map line_words (takeWhile forked ls))))) \<and>
    (\<forall>ws. (\<forall>w \<in> set ws. w \<noteq> [] \<and> (\<forall>c \<in> set w. \<not> delim c \<and> c \<noteq> CHR 0x00)) \<longrightarrow>
       words_of (c_string (concat (map (\<lambda>w. w @ [CHR 0x20]) ws) @ [CHR 0x0A])) = ws)"
proof (intro conjI allI impI)
  show "\<exists>cmd'. shell_main expand ls = Exit (if \<forall>l \<in> set ls. forked l then 0 else 1)
      (cmd', map2 shell_exec (map (snd \<circ> snd) (takeWhile forked ls)) (commands expand None (map line_words (takeWhile forked ls))))"
    using shell_loop_commands [of expand ls None "[]"] by (simp add: shell_main_def)
next
  fix ws :: "string list" assume w: "\<forall>w \<in> set ws. w \<noteq> [] \<and> (\<forall>c \<in> set w. \<not> delim c \<and> c \<noteq> CHR 0x00)"
  then have "\<forall>c \<in> set (concat (map (\<lambda>w. w @ [CHR 0x20]) ws) @ [CHR 0x0A]). c \<noteq> CHR 0x00" by auto
  then have "c_string (concat (map (\<lambda>w. w @ [CHR 0x20]) ws) @ [CHR 0x0A]) = concat (map (\<lambda>w. w @ [CHR 0x20]) ws) @ [CHR 0x0A]"
    unfolding c_string_def by (simp only: takeWhile_eq_all_conv)
  with w words_of_join [of ws] show "words_of (c_string (concat (map (\<lambda>w. w @ [CHR 0x20]) ws) @ [CHR 0x0A])) = ws"
    by simp
qed

theorem shell_runs_words_witness:
  "\<exists>cmd'. shell_main (\<lambda>w. [w]) [(''ls  -l'', True, True), ('' '', True, False), (''a'' @ [CHR 0x00] @ ''b c'', True, True)] =
     Exit 0 (cmd', [Runs [''ls'', ''-l''], Exec_fails 1 ''execvp()'', Runs [''a'']])"
  using shell_runs_words [of "\<lambda>w. [w]" "[(''ls  -l'', True, True), ('' '', True, False), (''a'' @ [CHR 0x00] @ ''b c'', True, True)]"]
  by (simp add: words_of_def DELIMIS_def Let_def forked_def c_string_def shell_exec_def)

section \<open>mydu.c\<close>

text \<open>
  The environment: \<open>lstat\<close> (whether the path is a directory, and its blocks) and \<open>glob\<close> without flags that matter.
\<close>

datatype glob_res = Matches "string list" | No_match | Glob_error

record du_env =
  lstat :: "string \<Rightarrow> (bool \<times> int) option"
  globs :: "string \<Rightarrow> glob_res"

definition PATHSIZE :: nat where "PATHSIZE = 1024"

definition path_noloop :: "string \<Rightarrow> bool" where
  "path_noloop path \<longleftrightarrow> (if CHR ''/'' \<notin> set path then True
     else let pos = rev (takeWhile (\<lambda>c. c \<noteq> CHR ''/'') (rev path)) in pos \<noteq> ''.'' \<and> pos \<noteq> ''..'')"

text \<open>The loop over the paths found, with the recursive call as an argument.\<close>

fun du_sum :: "(string \<Rightarrow> (int, unit) outcome) \<Rightarrow> string list \<Rightarrow> int \<Rightarrow> (int, unit) outcome" where
  "du_sum du [] s = Ret s ()"
| "du_sum du (p # ps) s = (if path_noloop p then bind_outcome (du p) (\<lambda>v _. du_sum du ps (s + v)) else du_sum du ps s)"

text \<open>
  \<open>mydu\<close>, with the depth of the recursion as fuel. Patterns are cut to the size of \<open>nextpath\<close>. The result of the second
  \<open>glob\<close> is not looked at: when it fails, nothing is appended.
\<close>

primrec mydu :: "du_env \<Rightarrow> nat \<Rightarrow> string \<Rightarrow> (int, unit) outcome" where
  "mydu env 0 path = OutOfFuel ()"
| "mydu env (Suc n) path = (case lstat env path of
      None \<Rightarrow> Exit 1 ()
    | Some (isdir, blks) \<Rightarrow>
        if \<not> isdir then Ret blks ()
        else (case globs env (take (PATHSIZE - 1) (path @ ''/*'')) of
            Glob_error \<Rightarrow> Exit 1 ()
          | r \<Rightarrow>
              (let vis = (case r of Matches ps \<Rightarrow> ps | _ \<Rightarrow> []);
                   hid = (case globs env (take (PATHSIZE - 1) (path @ ''/.*'')) of Matches ps \<Rightarrow> ps | _ \<Rightarrow> [])
               in du_sum (mydu env n) (vis @ hid) blks)))"

definition du_main :: "du_env \<Rightarrow> nat \<Rightarrow> string list \<Rightarrow> (int, unit) outcome" where
  "du_main env n argv = (if length argv < 2 then Exit 1 ()
     else bind_outcome (mydu env n (argv ! 1)) (\<lambda>v _. Ret (if 0 \<le> v then v div 2 else - (- v div 2)) ()))"

text \<open>The tree on disk, and the blocks it takes.\<close>

datatype dtree = Leaf int | Branch int "(string \<times> dtree) list"

fun blocks_of :: "dtree \<Rightarrow> int" where
  "blocks_of (Leaf b) = b"
| "blocks_of (Branch b kids) = b + sum_list (map (\<lambda>(n, t). blocks_of t) kids)"

fun height :: "dtree \<Rightarrow> nat" where
  "height (Leaf b) = 1"
| "height (Branch b kids) = Suc (Max (insert 0 (set (map (\<lambda>(n, t). height t) kids))))"

text \<open>
  The environment shows a tree at a path. This states what \<open>glob\<close> documents: \<open>*\<close> matches the names that do not begin with a dot,
  \<open>.*\<close> those that do, \<open>.\<close> and \<open>..\<close> among them, in any order; with no match there is none of them. Patterns fit
  into \<open>nextpath\<close>.
\<close>

definition found :: "glob_res \<Rightarrow> string list \<Rightarrow> bool" where
  "found r ps \<longleftrightarrow> (case r of Matches qs \<Rightarrow> mset qs = mset ps | No_match \<Rightarrow> ps = [] | Glob_error \<Rightarrow> False)"

abbreviation hidden :: "string \<Rightarrow> bool" where
  "hidden n \<equiv> n \<noteq> [] \<and> hd n = CHR ''.''"

fun shows_tree :: "du_env \<Rightarrow> string \<Rightarrow> dtree \<Rightarrow> bool" where
  "shows_tree env path (Leaf b) \<longleftrightarrow> lstat env path = Some (False, b)"
| "shows_tree env path (Branch b kids) \<longleftrightarrow> lstat env path = Some (True, b) \<and> length path + 3 < PATHSIZE \<and>
     found (globs env (path @ ''/*'')) (map (\<lambda>(n, t). path @ ''/'' @ n) (filter (\<lambda>(n, t). \<not> hidden n) kids)) \<and>
     found (globs env (path @ ''/.*'')) ([path @ ''/.'', path @ ''/..''] @ map (\<lambda>(n, t). path @ ''/'' @ n) (filter (\<lambda>(n, t). hidden n) kids)) \<and>
     (\<forall>(n, t) \<in> set kids. CHR ''/'' \<notin> set n \<and> n \<noteq> [] \<and> n \<noteq> ''.'' \<and> n \<noteq> ''..'' \<and> shows_tree env (path @ ''/'' @ n) t)"

lemma path_noloop_join: "CHR ''/'' \<notin> set n \<Longrightarrow> path_noloop (path @ ''/'' @ n) \<longleftrightarrow> n \<noteq> ''.'' \<and> n \<noteq> ''..''"
proof -
  assume "CHR ''/'' \<notin> set n"
  then have "takeWhile (\<lambda>c. c \<noteq> CHR ''/'') (rev n @ CHR ''/'' # rev path) = rev n"
    by (subst takeWhile_append2) auto
  then show ?thesis by (auto simp: path_noloop_def)
qed

lemma du_sum_all:
  "\<forall>p \<in> set ps. path_noloop p \<longrightarrow> du p = Ret (v p) () \<Longrightarrow> du_sum du ps s = Ret (s + sum_list (map v (filter path_noloop ps))) ()"
  by (induction ps arbitrary: s) auto

lemma sum_list_mset_eq: "mset xs = mset ys \<Longrightarrow> sum_list (map v xs) = sum_list (map v ys)" for v :: "'a \<Rightarrow> int"
  by (metis mset_map sum_mset_sum_list)

lemma height_kid: "(n, t) \<in> set kids \<Longrightarrow> height t < height (Branch b kids)"
  by (auto simp: less_Suc_eq_le intro!: Max_ge image_eqI [of _ _ "(n, t)"])

text \<open>The paths that survive the test are those of the children.\<close>

lemma found_kids:
  assumes "found r (map (\<lambda>(n, t). path @ ''/'' @ n) (filter (\<lambda>(n, t). \<not> hidden n) kids))"
    and "found r' ([path @ ''/.'', path @ ''/..''] @ map (\<lambda>(n, t). path @ ''/'' @ n) (filter (\<lambda>(n, t). hidden n) kids))"
    and "\<forall>(n, t) \<in> set kids. CHR ''/'' \<notin> set n \<and> n \<noteq> ''.'' \<and> n \<noteq> ''..''"
  shows "mset (filter path_noloop ((case r of Matches ps \<Rightarrow> ps | _ \<Rightarrow> []) @ (case r' of Matches ps \<Rightarrow> ps | _ \<Rightarrow> []))) =
    mset (map (\<lambda>(n, t). path @ ''/'' @ n) kids)"
proof -
  let ?p = "\<lambda>(n, t). path @ ''/'' @ n"
  have dots: "\<not> path_noloop (path @ ''/.'')" "\<not> path_noloop (path @ ''/..'')"
    using path_noloop_join [of "''.''" path] path_noloop_join [of "''..''" path] by simp_all
  have all: "filter path_noloop (map ?p ks) = map ?p ks" if "set ks \<subseteq> set kids" for ks
  proof -
    have "path_noloop (?p k)" if k: "k \<in> set ks" for k
    proof (cases k)
      case (Pair n t)
      with k \<open>set ks \<subseteq> set kids\<close> assms(3) have "CHR ''/'' \<notin> set n" "n \<noteq> ''.''" "n \<noteq> ''..''" by auto
      with Pair path_noloop_join [of n path] show ?thesis by simp
    qed
    then show ?thesis by (auto simp: filter_id_conv)
  qed
  have "mset (case r of Matches ps \<Rightarrow> ps | _ \<Rightarrow> []) = mset (map ?p (filter (\<lambda>(n, t). \<not> hidden n) kids))"
    using assms(1) unfolding found_def by (cases r) simp_all
  moreover have "mset (case r' of Matches ps \<Rightarrow> ps | _ \<Rightarrow> []) =
      mset ([path @ ''/.'', path @ ''/..''] @ map ?p (filter (\<lambda>(n, t). hidden n) kids))"
    using assms(2) unfolding found_def by (cases r') simp_all
  ultimately have "mset (filter path_noloop ((case r of Matches ps \<Rightarrow> ps | _ \<Rightarrow> []) @ (case r' of Matches ps \<Rightarrow> ps | _ \<Rightarrow> []))) =
      mset (filter path_noloop (map ?p (filter (\<lambda>(n, t). \<not> hidden n) kids))) +
      mset (filter path_noloop ([path @ ''/.'', path @ ''/..''] @ map ?p (filter (\<lambda>(n, t). hidden n) kids)))"
    by (simp only: mset_filter filter_append mset_append filter_union_mset)
  also have "\<dots> = mset (map ?p (filter (\<lambda>(n, t). \<not> hidden n) kids)) + mset (map ?p (filter (\<lambda>(n, t). hidden n) kids))"
    using dots all [of "filter (\<lambda>(n, t). \<not> hidden n) kids"] all [of "filter (\<lambda>(n, t). hidden n) kids"] by auto
  also have "\<dots> = mset (map ?p kids)"
    by (induction kids) auto
  finally show ?thesis .
qed

text \<open>
  \<open>mydu\<close> adds up the blocks of the whole tree: whatever order \<open>glob\<close> returns the names in, each file and directory counts once,
  hidden ones included, and \<open>.\<close> and \<open>..\<close> are not followed. As many nested calls as the tree is high are enough.
\<close>

theorem mydu_counts_tree:
  assumes "shows_tree env path t" "height t \<le> n"
  shows "mydu env n path = Ret (blocks_of t) ()"
  using assms
proof (induction n arbitrary: path t)
  case 0
  then show ?case by (cases t) auto
next
  case (Suc n)
  show ?case
  proof (cases t)
    case (Leaf b)
    with Suc.prems show ?thesis by simp
  next
    case (Branch b kids)
    let ?p = "\<lambda>(m :: string, k :: dtree). path @ ''/'' @ m"
    define vis where "vis = (case globs env (path @ ''/*'') of Matches ps \<Rightarrow> ps | _ \<Rightarrow> [])"
    define hid where "hid = (case globs env (path @ ''/.*'') of Matches ps \<Rightarrow> ps | _ \<Rightarrow> [])"
    define v where "v p = (case mydu env n p of Ret x _ \<Rightarrow> x | _ \<Rightarrow> 0)" for p
    have ms: "mset (filter path_noloop (vis @ hid)) = mset (map ?p kids)"
      unfolding vis_def hid_def using Suc.prems(1) Branch by (intro found_kids) auto
    have kid: "mydu env n (?p (m, k)) = Ret (blocks_of k) ()" if "(m, k) \<in> set kids" for m k
    proof -
      from that Suc.prems(1) Branch have "shows_tree env (?p (m, k)) k" by auto
      moreover have "height k \<le> n" using height_kid [OF that, of b] Suc.prems(2) unfolding Branch by linarith
      ultimately show ?thesis by (rule Suc.IH)
    qed
    have "set (filter path_noloop (vis @ hid)) = set (map ?p kids)" using ms by (metis set_mset_mset)
    then have "\<forall>p \<in> set (vis @ hid). path_noloop p \<longrightarrow> mydu env n p = Ret (v p) ()"
    proof (intro ballI impI)
      fix p
      assume "p \<in> set (vis @ hid)" "path_noloop p"
      then have "p \<in> set (filter path_noloop (vis @ hid))" by simp
      then have "p \<in> set (map ?p kids)" using \<open>set (filter path_noloop (vis @ hid)) = set (map ?p kids)\<close> by blast
      then obtain m k where "(m, k) \<in> set kids" "p = ?p (m, k)" by auto
      with kid [of m k] show "mydu env n p = Ret (v p) ()" by (simp add: v_def)
    qed
    then have "du_sum (mydu env n) (vis @ hid) b = Ret (b + sum_list (map v (map ?p kids))) ()"
      using sum_list_mset_eq [OF ms, of v] by (simp only: du_sum_all [of "vis @ hid" "mydu env n" v b])
    also have "map v (map ?p kids) = map (\<lambda>(n, t). blocks_of t) kids"
      using kid by (auto simp: v_def)
    finally have "du_sum (mydu env n) (vis @ hid) b = Ret (blocks_of t) ()" using Branch by simp
    moreover have "mydu env (Suc n) path = du_sum (mydu env n) (vis @ hid) b"
    proof -
      have "length path + 3 < PATHSIZE" using Suc.prems(1) Branch by simp
      then have "take (PATHSIZE - 1) (path @ ''/*'') = path @ ''/*''" "take (PATHSIZE - 1) (path @ ''/.*'') = path @ ''/.*''"
        by (intro take_all; simp)+
      moreover have "globs env (path @ ''/*'') \<noteq> Glob_error" using Suc.prems(1) Branch by (auto simp: found_def)
      moreover have "lstat env path = Some (True, b)" using Suc.prems(1) Branch by simp
      ultimately show ?thesis by (cases "globs env (path @ ''/*'')") (simp_all add: vis_def hid_def)
    qed
    ultimately show ?thesis by simp
  qed
qed

definition ex_du :: du_env where
  "ex_du = \<lparr>lstat = [''d'' \<mapsto> (True, 8), ''d/a'' \<mapsto> (False, 3), ''d/.b'' \<mapsto> (False, 4)],
     globs = (\<lambda>_. No_match)(''d/*'' := Matches [''d/a''], ''d/.*'' := Matches [''d/..'', ''d/.b'', ''d/.''])\<rparr>"

theorem mydu_counts_tree_witness: "mydu ex_du 2 ''d'' = Ret 15 ()"
  using mydu_counts_tree [of ex_du "''d''" "Branch 8 [(''a'', Leaf 3), (''.b'', Leaf 4)]" 2]
  by (simp add: ex_du_def found_def PATHSIZE_def)

end
