(* ===== verification/Races.thy ===== *)
theory Races
  imports Primes
begin

text \<open>
  Thread programs around a shared counter: \<open>multi_thread/multi_thread_wo_lock.c\<close> increments without a lock, \<open>second.c\<close> hands out
  numbers under a mutex to four threads that test them, and \<open>homework/tickets.c\<close> locks once and unlocks in every turn.
\<close>

section \<open>Increments without a lock\<close>

text \<open>
  \<^verbatim>\<open>num++\<close> is a load and a store. A thread is between two turns of its loop with so many turns left, or has loaded a
  value in a turn after which so many are left.
\<close>

datatype incr = Idle nat | Got nat nat

definition WO_ROUNDS :: nat where "WO_ROUNDS = 100000"

inductive wo_step :: "nat \<times> incr list \<Rightarrow> nat \<times> incr list \<Rightarrow> bool" where
  wo_load: "i < length ts \<Longrightarrow> ts ! i = Idle (Suc n) \<Longrightarrow> wo_step (num, ts) (num, ts[i := Got n num])"
| wo_store: "i < length ts \<Longrightarrow> ts ! i = Got n r \<Longrightarrow> wo_step (num, ts) (r + 1, ts[i := Idle n])"

definition wo_start :: "nat \<Rightarrow> nat \<Rightarrow> nat \<times> incr list" where
  "wo_start m n = (0, replicate m (Idle n))"

definition wo_ends :: "nat \<Rightarrow> nat \<Rightarrow> nat \<Rightarrow> bool" where
  "wo_ends m n v \<longleftrightarrow> (\<exists>ts. wo_step\<^sup>*\<^sup>* (wo_start m n) (v, ts) \<and> (\<forall>t \<in> set ts. t = Idle 0))"

fun togo :: "incr \<Rightarrow> nat" where
  "togo (Idle n) = n"
| "togo (Got n r) = Suc n"

definition stored :: "nat \<Rightarrow> incr list \<Rightarrow> nat" where
  "stored N ts = sum_list (map (\<lambda>t. N - togo t) ts)"

text \<open>
  Upper bound: nothing exceeds the number of stores. Lower bound: after a store the variable is positive, so a thread that
  has stored before loads something positive and stores at least 2.
\<close>

definition wo_inv :: "nat \<Rightarrow> nat \<times> incr list \<Rightarrow> bool" where
  "wo_inv N st \<longleftrightarrow> (case st of (v, ts) \<Rightarrow> (\<forall>t \<in> set ts. togo t \<le> N) \<and> v \<le> stored N ts \<and> (\<forall>n r. Got n r \<in> set ts \<longrightarrow> r \<le> stored N ts) \<and>
     ((\<exists>t \<in> set ts. togo t < N) \<longrightarrow> 1 \<le> v) \<and> (\<forall>n r. Got n r \<in> set ts \<longrightarrow> Suc n < N \<longrightarrow> 1 \<le> r) \<and>
     (2 \<le> v \<or> (\<exists>t \<in> set ts. N \<le> togo t + 1)))"

lemma stored_upd: "i < length ts \<Longrightarrow> stored N (ts[i := t]) + (N - togo (ts ! i)) = stored N ts + (N - togo t)"
  unfolding stored_def by (rule sum_list_upd)

lemma wo_inv_start: "0 < m \<Longrightarrow> wo_inv N (wo_start m N)"
  by (auto simp: wo_inv_def wo_start_def stored_def)

lemma wo_inv_step: "wo_step st st' \<Longrightarrow> wo_inv N st \<Longrightarrow> wo_inv N st'"
proof (induction rule: wo_step.induct)
  case (wo_load i ts n num)
  let ?ts = "ts[i := Got n num]"
  have same: "stored N ?ts = stored N ts" using stored_upd [OF wo_load(1), of N "Got n num"] wo_load(2) by simp
  have mem: "Idle (Suc n) \<in> set ts" using wo_load(1,2) by (metis nth_mem)
  have new: "t = Got n num \<or> t \<in> set ts" if "t \<in> set ?ts" for t
    using that set_update_subset_insert [of ts i "Got n num"] by blast
  have old: "\<exists>t' \<in> set ts. togo t' = togo t" if "t \<in> set ?ts" for t
    using new [OF that] mem by (auto intro: bexI [of _ "Idle (Suc n)"])
  have kept: "\<exists>t' \<in> set ?ts. togo t' = togo t" if t: "t \<in> set ts" for t
  proof -
    obtain j where "j < length ts" "t = ts ! j" using t unfolding in_set_conv_nth by blast
    with wo_load(1,2) have "togo (?ts ! j) = togo t" by (cases "i = j") simp_all
    moreover have "?ts ! j \<in> set ?ts" using \<open>j < length ts\<close> by (intro nth_mem) simp
    ultimately show ?thesis by blast
  qed
  have inv: "\<forall>t \<in> set ts. togo t \<le> N" "num \<le> stored N ts" "\<And>n r. Got n r \<in> set ts \<Longrightarrow> r \<le> stored N ts \<and> (Suc n < N \<longrightarrow> 1 \<le> r)"
    "(\<exists>t \<in> set ts. togo t < N) \<longrightarrow> 1 \<le> num" "2 \<le> num \<or> (\<exists>t \<in> set ts. N \<le> togo t + 1)"
    using wo_load(3) by (auto simp: wo_inv_def)
  have "\<forall>t \<in> set ?ts. togo t \<le> N" using old inv(1) by metis
  moreover have "(\<exists>t \<in> set ?ts. togo t < N) \<longrightarrow> 1 \<le> num" using old inv(4) by metis
  moreover have "2 \<le> num \<or> (\<exists>t \<in> set ?ts. N \<le> togo t + 1)" using kept inv(5) by metis
  moreover have "r \<le> stored N ?ts \<and> (Suc k < N \<longrightarrow> 1 \<le> r)" if "Got k r \<in> set ?ts" for k r
  proof (cases "Got k r \<in> set ts")
    case True
    then show ?thesis using inv(3) same by simp
  next
    case False
    with new [OF that] have "k = n" "r = num" by auto
    moreover have "Suc n < N \<longrightarrow> 1 \<le> num" using mem inv(4) togo.simps(1) [of "Suc n"] by metis
    ultimately show ?thesis using inv(2) same by simp
  qed
  ultimately show ?case using inv(2) same unfolding wo_inv_def by simp
next
  case (wo_store i ts n r num)
  let ?ts = "ts[i := Idle n]"
  have mem: "Got n r \<in> set ts" using wo_store(1,2) by (metis nth_mem)
  then have le: "Suc n \<le> N" using wo_store(3) by (fastforce simp: wo_inv_def)
  have more: "stored N ?ts = Suc (stored N ts)" using stored_upd [OF wo_store(1), of N "Idle n"] wo_store(2) le by simp
  have new: "t = Idle n \<or> t \<in> set ts" if "t \<in> set ?ts" for t
    using that set_update_subset_insert [of ts i "Idle n"] by blast
  have in': "Idle n \<in> set ?ts" using wo_store(1) by (simp add: set_update_memI)
  have inv: "\<forall>t \<in> set ts. togo t \<le> N" "\<And>n r. Got n r \<in> set ts \<Longrightarrow> r \<le> stored N ts \<and> (Suc n < N \<longrightarrow> 1 \<le> r)"
    using wo_store(3) by (auto simp: wo_inv_def)
  note r = inv(2) [OF mem]
  have "togo t \<le> N" if "t \<in> set ?ts" for t using new [OF that] le inv(1) by auto
  moreover have "r' \<le> stored N ?ts \<and> (Suc n' < N \<longrightarrow> 1 \<le> r')" if "Got n' r' \<in> set ?ts" for n' r'
  proof -
    from new [OF that] have "Got n' r' \<in> set ts" by simp
    from inv(2) [OF this] more show ?thesis by auto
  qed
  moreover have "2 \<le> r + 1 \<or> (\<exists>t \<in> set ?ts. N \<le> togo t + 1)"
  proof (cases "Suc n < N")
    case False
    with le have "N \<le> togo (Idle n) + 1" by simp
    with in' show ?thesis by blast
  qed (use r in simp)
  ultimately show ?case using r more unfolding wo_inv_def by simp
qed

lemma wo_range:
  assumes "wo_ends m N v" "2 \<le> N" "0 < m"
  shows "2 \<le> v \<and> v \<le> m * N"
proof -
  obtain ts where ts: "wo_step\<^sup>*\<^sup>* (wo_start m N) (v, ts)" "\<forall>t \<in> set ts. t = Idle 0" using assms(1) by (auto simp: wo_ends_def)
  have "wo_inv N st \<and> length (snd st) = m" if "wo_step\<^sup>*\<^sup>* (wo_start m N) st" for st
    using that
  proof (induction rule: rtranclp_induct)
    case base
    show ?case using wo_inv_start [OF assms(3)] by (simp add: wo_start_def)
  next
    case (step st st')
    then show ?case using wo_inv_step [OF step(2)] by (auto elim: wo_step.cases)
  qed
  from this [OF ts(1)] have "wo_inv N (v, ts)" "length ts = m" by simp_all
  moreover have "stored N ts = length ts * N" using ts(2) unfolding stored_def by (induction ts) auto
  ultimately show ?thesis using ts(2) assms(2) by (auto simp: wo_inv_def)
qed

text \<open>One thread alone does some of its turns.\<close>

lemma wo_alone:
  "i < length ts \<Longrightarrow> ts ! i = Idle (k + n) \<Longrightarrow> wo_step\<^sup>*\<^sup>* (v, ts) (v + k, ts[i := Idle n])"
proof (induction k arbitrary: v ts)
  case 0
  then show ?case by (metis add_0 list_update_id plus_nat.add_0 add.right_neutral rtranclp.rtrancl_refl)
next
  case (Suc k)
  let ?ts = "ts[i := Idle (k + n)]"
  have "wo_step (v, ts) (v, ts[i := Got (k + n) v])" using Suc.prems by (intro wo_load) auto
  moreover have "wo_step (v, ts[i := Got (k + n) v]) (v + 1, (ts[i := Got (k + n) v])[i := Idle (k + n)])"
    using Suc.prems(1) by (intro wo_store) auto
  moreover have "wo_step\<^sup>*\<^sup>* (v + 1, ?ts) (v + 1 + k, ?ts[i := Idle n])" using Suc.prems(1) by (intro Suc.IH) auto
  ultimately show ?case by (simp add: converse_rtranclp_into_rtranclp)
qed

lemma wo_all_kept: "wo_ends 2 N (2 * N)"
proof -
  have "wo_step\<^sup>*\<^sup>* (0, [Idle N, Idle N]) (N, [Idle 0, Idle N])" using wo_alone [of 0 "[Idle N, Idle N]" N 0 0] by simp
  also have "wo_step\<^sup>*\<^sup>* (N, [Idle 0, Idle N]) (N + N, [Idle 0, Idle 0])" using wo_alone [of 1 "[Idle 0, Idle N]" N 0 N] by simp
  finally show ?thesis unfolding wo_ends_def wo_start_def by (intro exI [of _ "[Idle 0, Idle 0]"]) (simp add: numeral_2_eq_2)
qed

lemma wo_most_lost: "wo_ends 2 (Suc (Suc N)) 2"
proof -
  have "wo_step (0, [Idle (Suc (Suc N)), Idle (Suc (Suc N))]) (0, [Got (Suc N) 0, Idle (Suc (Suc N))])"
    using wo_load [of 0 "[Idle (Suc (Suc N)), Idle (Suc (Suc N))]" "Suc N" 0] by simp
  also have "wo_step\<^sup>*\<^sup>* (0, [Got (Suc N) 0, Idle (Suc (Suc N))]) (Suc N, [Got (Suc N) 0, Idle 1])"
    using wo_alone [of 1 "[Got (Suc N) 0, Idle (Suc (Suc N))]" "Suc N" 1 0] by simp
  also have "wo_step (Suc N, [Got (Suc N) 0, Idle 1]) (1, [Idle (Suc N), Idle 1])"
    using wo_store [of 0 "[Got (Suc N) 0, Idle 1]" "Suc N" 0 "Suc N"] by simp
  also have "wo_step (1, [Idle (Suc N), Idle 1]) (1, [Idle (Suc N), Got 0 1])"
    using wo_load [of 1 "[Idle (Suc N), Idle 1]" 0 1] by simp
  also have "wo_step\<^sup>*\<^sup>* (1, [Idle (Suc N), Got 0 1]) (1 + Suc N, [Idle 0, Got 0 1])"
    using wo_alone [of 0 "[Idle (Suc N), Got 0 1]" "Suc N" 0 1] by simp
  also have "wo_step (1 + Suc N, [Idle 0, Got 0 1]) (2, [Idle 0, Idle 0])"
    using wo_store [of 1 "[Idle 0, Got 0 1]" 0 1 "1 + Suc N"] by (simp add: numeral_2_eq_2)
  finally show ?thesis unfolding wo_ends_def wo_start_def by (intro exI [of _ "[Idle 0, Idle 0]"]) (simp add: numeral_2_eq_2)
qed

text \<open>
  What \<open>multi_thread_wo_lock.c\<close> can print: when both threads have ended, \<open>num\<close> is between 2 and 200000, and both bounds are
  reached -- all but two of the increments can be lost.
\<close>

theorem wo_lock_range:
  "(\<forall>v. wo_ends 2 WO_ROUNDS v \<longrightarrow> 2 \<le> v \<and> v \<le> 200000) \<and> wo_ends 2 WO_ROUNDS 2 \<and> wo_ends 2 WO_ROUNDS 200000"
proof -
  have "WO_ROUNDS = Suc (Suc 99998)" "2 * WO_ROUNDS = 200000" by (simp_all add: WO_ROUNDS_def)
  then show ?thesis using wo_range [of 2 WO_ROUNDS] wo_all_kept [of WO_ROUNDS] wo_most_lost [of 99998] by (metis numeral_2_eq_2 le_numeral_extra(4) not_numeral_le_zero one_add_one add_2_eq_Suc le_add1 zero_less_numeral)
qed

theorem wo_lock_range_witness: "\<exists>v. wo_ends 2 WO_ROUNDS v \<and> 2 \<le> v \<and> v \<le> 200000"
  using wo_lock_range by blast

section \<open>Programs whose steps run out\<close>

text \<open>The contract of a program with an invariant in which every step uses up some of a number.\<close>

locale bounded_run =
  fixes step :: "'s \<Rightarrow> 's \<Rightarrow> bool" and start :: 's and inv :: "'s \<Rightarrow> bool" and left :: "'s \<Rightarrow> nat"
  assumes start_inv: "inv start"
    and step_inv: "step st st' \<Longrightarrow> inv st \<Longrightarrow> inv st'"
    and step_left: "step st st' \<Longrightarrow> inv st \<Longrightarrow> left st' < left st"
begin

lemma run_bound: "(step ^^ k) start st \<Longrightarrow> inv st \<and> k + left st \<le> left start"
proof (induction k arbitrary: st)
  case (Suc k)
  then obtain st1 where st1: "(step ^^ k) start st1" "step st1 st" by auto
  with Suc.IH [OF st1(1)] step_inv [OF st1(2)] step_left [OF st1(2)] show ?case by auto
qed (simp add: start_inv)

lemma run_on: "inv st \<Longrightarrow> \<exists>k st'. (step ^^ k) st st' \<and> (\<nexists>x. step st' x)"
proof (induction "left st" arbitrary: st rule: less_induct)
  case less
  show ?case
  proof (cases "\<exists>x. step st x")
    case True
    then obtain x where x: "step st x" by blast
    from less(1) [OF step_left [OF x less(2)] step_inv [OF x less(2)]] obtain k st' where
      "(step ^^ k) x st'" "\<nexists>y. step st' y" by blast
    with x show ?thesis by (blast intro: relpowp_Suc_I2)
  next
    case False
    then show ?thesis by (intro exI [of _ 0]) auto
  qed
qed

lemma ends_ex: "\<exists>k st. (step ^^ k) start st \<and> (\<nexists>x. step st x)"
  using run_on [OF start_inv] .

end

section \<open>Numbers handed out under a lock\<close>

text \<open>
  \<open>second.c\<close>: each of four threads takes the next number under the mutex and tests it outside. Taking a number is one step. A
  thread is about to take a number, tests one, or has left the loop.
\<close>

definition RANGE1 :: nat where "RANGE1 = 2"
definition RANGE2 :: nat where "RANGE2 = 1000"
definition TASKS :: nat where "TASKS = 4"

text \<open>\<^verbatim>\<open>for (i = 2; i * i <= n; i++) if (n % i == 0) { is_primer = 0; break; }\<close>.\<close>

function root_trial :: "nat \<Rightarrow> nat \<Rightarrow> bool" where
  "root_trial n i = (if i * i \<le> n then (if n mod i = 0 then False else root_trial n (i + 1)) else True)"
  by pat_completeness auto
termination
  by (relation "measure (\<lambda>(n, i). Suc n - i)") (auto simp: less_Suc_eq_le dest: order_trans [OF le_square])

declare root_trial.simps [simp del]

datatype taker = Take_num | Test_num nat | Left_loop

record numbers =
  count :: nat
  printed :: "nat list"

fun second_primer :: "taker \<Rightarrow> numbers \<Rightarrow> (taker \<times> numbers) option" where
  "second_primer Take_num s = (let n = RANGE1 + count s; s1 = s\<lparr>count := count s + 1\<rparr> in Some (if n > RANGE2 then Left_loop else Test_num n, s1))"
| "second_primer (Test_num n) s = Some (Take_num, if root_trial n 2 then s\<lparr>printed := printed s @ [n]\<rparr> else s)"
| "second_primer Left_loop s = None"

inductive num_step :: "numbers \<times> taker list \<Rightarrow> numbers \<times> taker list \<Rightarrow> bool" where
  num_step: "k < length ts \<Longrightarrow> second_primer (ts ! k) s = Some (t, s') \<Longrightarrow> num_step (s, ts) (s', ts[k := t])"

definition num_start :: "numbers \<times> taker list" where
  "num_start = (\<lparr>count = 0, printed = []\<rparr>, replicate TASKS Take_num)"

lemma root_trial_iff: "root_trial n i \<longleftrightarrow> (\<forall>d. i \<le> d \<and> d * d \<le> n \<longrightarrow> \<not> d dvd n)"
proof (induction n i rule: root_trial.induct)
  case (1 n i)
  show ?case
  proof (cases "i * i \<le> n")
    case True
    show ?thesis
    proof (cases "n mod i = 0")
      case False
      with 1 True have "root_trial n i \<longleftrightarrow> (\<forall>d. Suc i \<le> d \<and> d * d \<le> n \<longrightarrow> \<not> d dvd n)" by (subst root_trial.simps) simp
      with False show ?thesis by (metis Suc_leI dvd_eq_mod_eq_0 le_neq_implies_less Suc_leD)
    qed (use True in \<open>subst root_trial.simps, auto\<close>)
  next
    case False
    then have "\<not> d * d \<le> n" if "i \<le> d" for d using mult_le_mono [OF that that] by linarith
    with False show ?thesis by (subst root_trial.simps) auto
  qed
qed

lemma root_trial_prime:
  assumes "2 \<le> n"
  shows "root_trial n 2 \<longleftrightarrow> is_prime n"
proof
  assume "root_trial n 2"
  then show "is_prime n" using assms composite_factor [of n] unfolding root_trial_iff
    by (metis Suc_1 Suc_leI Suc_le_lessD One_nat_def)
next
  assume p: "is_prime n"
  have "\<not> d dvd n" if "2 \<le> d" "d * d \<le> n" for d
  proof -
    have "d * 2 \<le> n" using mult_le_mono2 [OF that(1), of d] that(2) by linarith
    with that(1) have "d < n" by linarith
    with prime_no_divisor [OF p, of d] that(1) show ?thesis by simp
  qed
  then show "root_trial n 2" by (simp add: root_trial_iff)
qed

text \<open>Numbers in test that are prime, and the invariant: what is printed and what is in test are the primes given out.\<close>

fun under_test :: "taker \<Rightarrow> nat multiset" where
  "under_test (Test_num n) = {#n#}"
| "under_test t = {#}"

definition given :: "nat \<Rightarrow> nat list" where
  "given c = filter is_prime [RANGE1..<min (RANGE1 + c) (RANGE2 + 1)]"

definition num_inv :: "numbers \<times> taker list \<Rightarrow> bool" where
  "num_inv st \<longleftrightarrow> (case st of (s, ts) \<Rightarrow>
     mset (printed s) + filter_mset is_prime (sum_list (map under_test ts)) = mset (given (count s)) \<and>
     (\<forall>n. Test_num n \<in> set ts \<longrightarrow> 2 \<le> n) \<and> (Left_loop \<in> set ts \<longrightarrow> RANGE2 < RANGE1 + count s))"

fun num_weight :: "taker \<Rightarrow> nat" where
  "num_weight Take_num = 1" | "num_weight (Test_num n) = 2" | "num_weight Left_loop = 0"

definition num_left :: "numbers \<times> taker list \<Rightarrow> nat" where
  "num_left st = 2 * (RANGE2 + 1 - (RANGE1 + count (fst st))) + sum_list (map num_weight (snd st))"

lemma num_left_step: "num_step st st' \<Longrightarrow> num_left st' < num_left st"
proof (induction rule: num_step.induct)
  case (num_step k ts s t s')
  from sum_list_upd [OF num_step(1), of num_weight t] num_step(2) show ?case
    by (cases "ts ! k") (auto simp: num_left_def Let_def split: if_splits)
qed

lemma given_Suc:
  "given (Suc c) = (if RANGE1 + c \<le> RANGE2 then given c @ (if is_prime (RANGE1 + c) then [RANGE1 + c] else []) else given c)"
proof (cases "RANGE1 + c \<le> RANGE2")
  case True
  then have "min (RANGE1 + Suc c) (RANGE2 + 1) = Suc (RANGE1 + c)" "min (RANGE1 + c) (RANGE2 + 1) = RANGE1 + c" by simp_all
  with True show ?thesis by (simp add: given_def)
next
  case False
  then have "min (RANGE1 + Suc c) (RANGE2 + 1) = RANGE2 + 1" "min (RANGE1 + c) (RANGE2 + 1) = RANGE2 + 1" by simp_all
  with False show ?thesis by (simp only: given_def if_False)
qed

lemma num_inv_step: "num_step st st' \<Longrightarrow> num_inv st \<Longrightarrow> num_inv st'"
proof (induction rule: num_step.induct)
  case (num_step k ts s t s')
  have u: "sum_list (map under_test (ts[k := t])) + under_test (ts ! k) = sum_list (map under_test ts) + under_test t"
    by (rule sum_list_upd [OF num_step(1)])
  have new: "x = t \<or> x \<in> set ts" if "x \<in> set (ts[k := t])" for x
    using that set_update_subset_insert [of ts k t] by blast
  have inv: "mset (printed s) + filter_mset is_prime (sum_list (map under_test ts)) = mset (given (count s))"
    "\<And>n. Test_num n \<in> set ts \<Longrightarrow> 2 \<le> n" "Left_loop \<in> set ts \<Longrightarrow> RANGE2 < RANGE1 + count s"
    using num_step(3) by (auto simp: num_inv_def)
  show ?case
  proof (cases "ts ! k")
    case Take_num
    then have t: "t = (if RANGE1 + count s > RANGE2 then Left_loop else Test_num (RANGE1 + count s))" "s' = s\<lparr>count := count s + 1\<rparr>"
      using num_step(2) by (auto simp: Let_def)
    have "mset (printed s') + filter_mset is_prime (sum_list (map under_test (ts[k := t]))) = mset (given (count s'))"
    proof -
      have "sum_list (map under_test (ts[k := t])) = sum_list (map under_test ts) + under_test t" using u Take_num by simp
      then show ?thesis using t inv(1) [symmetric] by (simp add: given_Suc)
    qed
    moreover have "2 \<le> n" if "Test_num n \<in> set (ts[k := t])" for n
      using new [OF that] inv(2) t(1) by (auto simp: RANGE1_def split: if_splits)
    moreover have "RANGE2 < RANGE1 + count s'" if "Left_loop \<in> set (ts[k := t])"
      using new [OF that] inv(3) t by (auto split: if_splits)
    ultimately show ?thesis by (auto simp: num_inv_def)
  next
    case (Test_num n)
    then have n: "2 \<le> n" using inv(2) num_step(1) by (metis nth_mem)
    have t: "t = Take_num" "s' = (if is_prime n then s\<lparr>printed := printed s @ [n]\<rparr> else s)"
      using num_step(2) Test_num root_trial_prime [OF n] by auto
    have "sum_list (map under_test ts) = sum_list (map under_test (ts[k := t])) + {#n#}" using u Test_num t(1) by simp
    then have "mset (printed s') + filter_mset is_prime (sum_list (map under_test (ts[k := t]))) = mset (given (count s'))"
      using inv(1) t(2) by auto
    moreover have "2 \<le> m" if "Test_num m \<in> set (ts[k := t])" for m using new [OF that] inv(2) t(1) by auto
    moreover have "RANGE2 < RANGE1 + count s'" if "Left_loop \<in> set (ts[k := t])" using new [OF that] inv(3) t by auto
    ultimately show ?thesis by (auto simp: num_inv_def)
  next
    case Left_loop
    with num_step(2) show ?thesis by simp
  qed
qed

interpretation nums: bounded_run num_step num_start num_inv num_left
proof
  show "num_inv num_start" by (simp add: num_inv_def num_start_def given_def RANGE1_def RANGE2_def TASKS_def numeral_eq_Suc)
qed (auto intro: num_inv_step num_left_step)

lemma num_left_start: "num_left num_start = 2002"
  by (simp add: num_left_def num_start_def RANGE1_def RANGE2_def TASKS_def sum_list_replicate)

lemma num_stuck: "(\<nexists>x. num_step (s, ts) x) \<Longrightarrow> \<forall>t \<in> set ts. t = Left_loop"
proof
  fix t assume s: "\<nexists>x. num_step (s, ts) x" and "t \<in> set ts"
  then obtain k where k: "k < length ts" "ts ! k = t" by (auto simp: in_set_conv_nth)
  show "t = Left_loop"
  proof (rule ccontr)
    assume "t \<noteq> Left_loop"
    then obtain t' s' where "second_primer (ts ! k) s = Some (t', s')" using k(2) by (cases t) (auto simp: Let_def)
    from num_step.num_step [OF k(1) this] s show False by blast
  qed
qed

text \<open>
  C9: \<open>second.c\<close> always ends, and prints each prime number from 2 to 1000 exactly once, however its four threads
  interleave: no run has more than 2002 steps (a step takes a number or tests one), and where nothing can go on all threads
  have left their loops and the numbers printed are those primes.
\<close>

theorem second_prints_primes:
  "\<forall>k s ts. (num_step ^^ k) num_start (s, ts) \<longrightarrow>
     k \<le> 2002 \<and> ((\<nexists>x. num_step (s, ts) x) \<longrightarrow> ts = replicate 4 Left_loop \<and> mset (printed s) = mset (filter is_prime [2..<1001]))"
proof (intro allI impI conjI)
  fix k s ts
  assume run: "(num_step ^^ k) num_start (s, ts)"
  note b = nums.run_bound [OF run]
  show "k \<le> 2002" using b num_left_start by linarith
  assume stuck: "\<nexists>x. num_step (s, ts) x"
  have len: "length (snd st) = 4" if "(num_step ^^ k) num_start st" for st
    using that by (induction k arbitrary: st) (auto simp: num_start_def TASKS_def elim!: num_step.cases)
  note all = num_stuck [OF stuck]
  with len [OF run] show ts: "ts = replicate 4 Left_loop" by (simp add: list_eq_iff_nth_eq)
  have e: "sum_list (map under_test ts) = {#}" "Left_loop \<in> set ts" using ts by (simp_all add: numeral_eq_Suc)
  with b have p: "mset (printed s) = mset (given (count s))" "RANGE2 < RANGE1 + count s" by (auto simp: num_inv_def)
  have "min (RANGE1 + count s) (RANGE2 + 1) = RANGE2 + 1" using p(2) by linarith
  then have "given (count s) = filter is_prime [RANGE1..<RANGE2 + 1]" unfolding given_def by (rule arg_cong)
  moreover have "RANGE2 + 1 = 1001" by (simp add: RANGE2_def)
  ultimately show "mset (printed s) = mset (filter is_prime [2..<1001])" using p(1) by (simp only: RANGE1_def)
qed

theorem second_prints_primes_witness:
  "\<exists>k s ts. (num_step ^^ k) num_start (s, ts) \<and> k \<le> 2002 \<and> ts = replicate 4 Left_loop \<and> mset (printed s) = mset (filter is_prime [2..<1001])"
proof -
  obtain k s ts where r: "(num_step ^^ k) num_start (s, ts)" "\<nexists>x. num_step (s, ts) x" using nums.ends_ex by auto
  with second_prints_primes show ?thesis by blast
qed

section \<open>Locked once, unlocked in every turn\<close>

text \<open>
  \<open>tickets.c\<close>: the thread locks before its loop and unlocks at the end of each turn. A thread is before the lock, at the test of a turn
  (with the number of tickets it has sold), at the unlock, or has left with \<open>pthread_exit\<close>. The owner of the mutex is recorded;
  unlocking a mutex that one does not own is undefined for this kind of mutex, here the state \<open>None\<close>. The test and
  \<^verbatim>\<open>tickets--\<close> are one step each, which leaves out the further races between threads that are past their first unlock. The
  array \<open>ids\<close>, whose length is an uninitialised variable, is taken to be long enough.
\<close>

datatype seller = At_lock | At_test nat | At_unlock nat | Exited

definition THREA_NUM :: nat where "THREA_NUM = 3"
definition TICKET_COUNT :: nat where "TICKET_COUNT = 100"

record office =
  owner :: "nat option"
  tickets :: nat
  sold :: "(nat \<times> nat) list"

type_synonym sale = "(office \<times> seller list) option"

fun sale_tickets :: "nat \<Rightarrow> seller \<Rightarrow> office \<Rightarrow> (seller \<times> office) option option" where
  "sale_tickets i At_lock s = (if owner s = None then Some (Some (At_test 0, s\<lparr>owner := Some i\<rparr>)) else None)"
| "sale_tickets i (At_test n) s =
     (if tickets s = 0 then Some (Some (Exited, s))
      else Some (Some (At_unlock (n + 1), s\<lparr>sold := sold s @ [(i, tickets s)], tickets := tickets s - 1\<rparr>)))"
| "sale_tickets i (At_unlock n) s = (if owner s = Some i then Some (Some (At_test n, s\<lparr>owner := None\<rparr>)) else Some None)"
| "sale_tickets i Exited s = None"

inductive sale_step :: "sale \<Rightarrow> sale \<Rightarrow> bool" where
  sale_goes: "i < length ts \<Longrightarrow> sale_tickets i (ts ! i) s = Some (Some (t, s')) \<Longrightarrow> sale_step (Some (s, ts)) (Some (s', ts[i := t]))"
| sale_undef: "i < length ts \<Longrightarrow> sale_tickets i (ts ! i) s = Some None \<Longrightarrow> sale_step (Some (s, ts)) None"

definition sale_start :: sale where
  "sale_start = Some (\<lparr>owner = None, tickets = TICKET_COUNT, sold = []\<rparr>, replicate THREA_NUM At_lock)"

text \<open>A thread owns the mutex from its lock to its first unlock, so it gets at most two tickets.\<close>

fun sales :: "seller \<Rightarrow> nat" where
  "sales At_lock = 0" | "sales (At_test n) = n" | "sales (At_unlock n) = n" | "sales Exited = 0"

fun holding :: "seller \<Rightarrow> bool" where
  "holding (At_test n) = (n = 0)" | "holding (At_unlock n) = (n = 1)" | "holding t = False"

fun seller_ok :: "seller \<Rightarrow> bool" where
  "seller_ok At_lock = True" | "seller_ok (At_test n) = (n \<le> 1)" | "seller_ok (At_unlock n) = (n = 1 \<or> n = 2)" | "seller_ok Exited = False"

fun seller_weight :: "seller \<Rightarrow> nat" where
  "seller_weight At_lock = 4" | "seller_weight (At_test n) = (if n = 0 then 3 else 1)" | "seller_weight (At_unlock n) = (if n = 1 then 2 else 0)"
| "seller_weight Exited = 0"

definition sale_inv :: "sale \<Rightarrow> bool" where
  "sale_inv st \<longleftrightarrow> (case st of None \<Rightarrow> True | Some (s, ts) \<Rightarrow> length ts = THREA_NUM \<and> (\<forall>t \<in> set ts. seller_ok t) \<and>
     (\<forall>i < length ts. holding (ts ! i) \<longleftrightarrow> owner s = Some i) \<and> (\<forall>i. owner s = Some i \<longrightarrow> i < length ts) \<and>
     tickets s + sum_list (map sales ts) = TICKET_COUNT)"

definition sale_left :: "sale \<Rightarrow> nat" where
  "sale_left st = (case st of None \<Rightarrow> 0 | Some (s, ts) \<Rightarrow> Suc (sum_list (map seller_weight ts)))"

lemma sales_bound: "\<forall>t \<in> set ts. seller_ok t \<Longrightarrow> sum_list (map sales ts) \<le> 2 * length ts"
proof (induction ts)
  case (Cons t ts)
  then show ?case by (cases t) auto
qed simp

lemma tickets_remain: "sale_inv (Some (s, ts)) \<Longrightarrow> 94 \<le> tickets s"
  using sales_bound [of ts] by (simp add: sale_inv_def THREA_NUM_def TICKET_COUNT_def)

lemma sale_inv_step: "sale_step st st' \<Longrightarrow> sale_inv st \<Longrightarrow> sale_inv st'"
proof (induction rule: sale_step.induct)
  case (sale_goes i ts s t s')
  have pos: "tickets s \<noteq> 0" using tickets_remain [OF sale_goes(3)] by simp
  have sum: "sum_list (map sales (ts[i := t])) + sales (ts ! i) = sum_list (map sales ts) + sales t"
    by (rule sum_list_upd [OF sale_goes(1)])
  have inv: "length ts = THREA_NUM" "\<forall>t \<in> set ts. seller_ok t" "\<forall>j < length ts. holding (ts ! j) \<longleftrightarrow> owner s = Some j"
    "\<forall>j. owner s = Some j \<longrightarrow> j < length ts" "tickets s + sum_list (map sales ts) = TICKET_COUNT"
    using sale_goes(3) unfolding sale_inv_def option.case prod.case by blast+
  have ok: "seller_ok (ts ! i)" "holding (ts ! i) \<longleftrightarrow> owner s = Some i" using inv(2,3) sale_goes(1) by auto
  have "seller_ok t \<and> (holding t \<longleftrightarrow> owner s' = Some i) \<and> (\<forall>j. j \<noteq> i \<longrightarrow> (owner s' = Some j \<longleftrightarrow> owner s = Some j)) \<and>
    tickets s' + sales t = tickets s + sales (ts ! i)"
    using sale_goes(2) ok pos by (cases "ts ! i") (auto split: if_splits)
  then have *: "seller_ok t" "holding t \<longleftrightarrow> owner s' = Some i" "\<And>j. j \<noteq> i \<Longrightarrow> owner s' = Some j \<longleftrightarrow> owner s = Some j"
    "tickets s' + sales t = tickets s + sales (ts ! i)" by auto
  have "holding (ts[i := t] ! j) \<longleftrightarrow> owner s' = Some j" if "j < length ts" for j
    using that *(2,3) inv(3) by (cases "j = i") auto
  moreover have "j < length ts" if "owner s' = Some j" for j using that *(3) [of j] inv(4) sale_goes(1) by (cases "j = i") auto
  moreover have "\<forall>x \<in> set (ts[i := t]). seller_ok x" using inv(2) *(1) by (rule ball_upd)
  ultimately show ?case using inv(1,5) *(4) sum by (simp add: sale_inv_def)
qed (simp add: sale_inv_def)

lemma sale_left_step: "sale_step st st' \<Longrightarrow> sale_inv st \<Longrightarrow> sale_left st' < sale_left st"
proof (induction rule: sale_step.induct)
  case (sale_goes i ts s t s')
  have pos: "tickets s \<noteq> 0" using tickets_remain [OF sale_goes(3)] by simp
  have "seller_ok (ts ! i)" "holding (ts ! i) \<longleftrightarrow> owner s = Some i" using sale_goes(1,3) by (auto simp: sale_inv_def)
  then have "seller_weight t < seller_weight (ts ! i)"
    using sale_goes(2) pos by (cases "ts ! i") (auto split: if_splits)
  with sum_list_upd [OF sale_goes(1), of seller_weight t] show ?case by (simp add: sale_left_def)
qed (simp add: sale_left_def)

interpretation office: bounded_run sale_step sale_start sale_inv sale_left
proof
  show "sale_inv sale_start" by (auto simp: sale_inv_def sale_start_def sum_list_replicate)
qed (auto intro: sale_inv_step sale_left_step)

text \<open>In a defined state some thread can move: the owner of the mutex, or any thread when it is free.\<close>

lemma sale_moves:
  assumes "sale_inv (Some (s, ts))"
  shows "\<exists>x. sale_step (Some (s, ts)) x"
proof -
  have len: "0 < length ts" using assms by (simp add: sale_inv_def THREA_NUM_def)
  obtain i where i: "i < length ts" "owner s = None \<or> owner s = Some i"
    using assms len by (cases "owner s") (auto simp: sale_inv_def)
  have "seller_ok (ts ! i)" "holding (ts ! i) \<longleftrightarrow> owner s = Some i" using assms i(1) by (auto simp: sale_inv_def)
  then have "sale_tickets i (ts ! i) s \<noteq> None" using i(2) by (cases "ts ! i") auto
  then obtain r where r: "sale_tickets i (ts ! i) s = Some r" by blast
  show ?thesis
  proof (cases r)
    case None
    with r sale_undef [OF i(1)] show ?thesis by blast
  next
    case (Some x)
    with r sale_goes [OF i(1), of s "fst x" "snd x"] show ?thesis by auto
  qed
qed

text \<open>
  \<open>tickets.c\<close> never gets to sell its hundred tickets properly: whatever the scheduler does, after at most 13 steps a thread
  unlocks a mutex that it does not own. Until then at most six tickets are sold and no thread has left its loop.
\<close>

theorem tickets_undefined:
  "\<forall>k st. (sale_step ^^ k) sale_start st \<longrightarrow> k \<le> 13 \<and> ((\<nexists>x. sale_step st x) \<longrightarrow> st = None) \<and>
     (case st of None \<Rightarrow> True | Some (s, ts) \<Rightarrow> 94 \<le> tickets s \<and> Exited \<notin> set ts)"
proof (intro allI impI)
  fix k st
  assume run: "(sale_step ^^ k) sale_start st"
  note b = office.run_bound [OF run]
  have "sale_left sale_start = 13" by (simp add: sale_left_def sale_start_def THREA_NUM_def sum_list_replicate)
  with b have k: "k \<le> 13" by linarith
  show "k \<le> 13 \<and> ((\<nexists>x. sale_step st x) \<longrightarrow> st = None) \<and>
     (case st of None \<Rightarrow> True | Some (s, ts) \<Rightarrow> 94 \<le> tickets s \<and> Exited \<notin> set ts)"
  proof (cases st)
    case None
    with k show ?thesis by simp
  next
    case (Some p)
    then obtain s ts where st: "st = Some (s, ts)" by (cases p) auto
    with b have inv: "sale_inv (Some (s, ts))" by simp
    then have "Exited \<notin> set ts" by (auto simp: sale_inv_def)
    with k sale_moves [OF inv] tickets_remain [OF inv] st show ?thesis by auto
  qed
qed

theorem tickets_undefined_witness: "\<exists>k. (sale_step ^^ k) sale_start None \<and> k \<le> 13"
proof -
  obtain k st where r: "(sale_step ^^ k) sale_start st" "\<nexists>x. sale_step st x" using office.ends_ex by auto
  with tickets_undefined have "st = None" "k \<le> 13" by blast+
  with r show ?thesis by blast
qed

end
