(* ===== verification/Datagram.thy ===== *)
theory Datagram
  imports Memory Stdio
begin

text \<open>
  The datagram programs. \<open>IPC/socket/dgram/basic\<close> and \<open>brcast/basic\<close> send a packed structure with a name of fixed size, \<open>ebasic\<close> one
  with a name of variable length; \<open>IPC/socket/Newer/DGRAM\<close> sends the lines of its input. A datagram is a list of bytes; the receiver
  gets what fits into its buffer, and keeps the old bytes behind it. Addresses are left out.
\<close>

section \<open>Numbers in network byte order\<close>

text \<open>\<open>htonl\<close> on the way into a structure; \<open>ntohl\<close> and \<open>%d\<close> on the way out.\<close>

definition be32 :: "int \<Rightarrow> byte list" where
  "be32 x = rev (le_bytes 4 x)"

definition show_be32 :: "byte list \<Rightarrow> int" where
  "show_be32 bs = le_int (rev bs)"

lemma length_be32 [simp]: "length (be32 x) = 4"
  by (simp add: be32_def)

lemma show_be32_be32: "INT_MIN \<le> x \<Longrightarrow> x \<le> INT_MAX \<Longrightarrow> show_be32 (be32 x) = x"
  by (simp add: show_be32_def be32_def le_int_le_bytes INT_MIN_def INT_MAX_def)

definition MATH :: int where "MATH = 100"
definition CHINESE :: int where "CHINESE = 99"

lemma scores [simp]: "show_be32 (be32 MATH) = 100" "show_be32 (be32 CHINESE) = 99"
  by (simp_all add: show_be32_be32 MATH_def CHINESE_def INT_MIN_def INT_MAX_def)

section \<open>A name of fixed size\<close>

text \<open>\<open>struct msg_st\<close> of \<open>basic\<close>: 11 bytes for the name, then \<open>math\<close> and \<open>chinese\<close>, packed.\<close>

definition NAMESIZE :: nat where "NAMESIZE = 11"
definition FIXED_SIZE :: nat where "FIXED_SIZE = NAMESIZE + 4 + 4"

text \<open>The structure on the stack, with its old content, after \<open>strcpy\<close> and the two assignments; \<open>basic/snder.c\<close> and \<open>brcast/basic/snder.c\<close>.\<close>

definition fixed_msg :: "byte list \<Rightarrow> byte list \<Rightarrow> byte list" where
  "fixed_msg name sbuf =
     put_at (NAMESIZE + 4) (be32 CHINESE) (put_at NAMESIZE (be32 MATH) (put_at 0 (name @ [0]) sbuf))"

definition snder_basic :: "byte list \<Rightarrow> nat \<Rightarrow> bool \<Rightarrow> bool \<Rightarrow> (byte list option, unit) outcome" where
  "snder_basic sbuf argc sock sends =
     (if argc < 2 then Exit 1 ()
      else if \<not> sock then Exit 1 ()
      else if \<not> sends then Exit 1 ()
      else Ret (Some (fixed_msg (str_bytes ''Vivi'') sbuf)) ())"

definition snder_brcast :: "bool \<Rightarrow> bool \<Rightarrow> bool \<Rightarrow> bool \<Rightarrow> bool \<Rightarrow> (byte list option, unit) outcome" where
  "snder_brcast sock hops iface bound sends =
     (if \<not> sock then Exit 1 ()
      else if \<not> hops then Exit 1 ()
      else if \<not> iface then Exit 1 ()
      else if \<not> bound then Exit 1 ()
      else if \<not> sends then Exit 1 ()
      else Ret (Some (fixed_msg (str_bytes ''Cassid'') (replicate FIXED_SIZE 0))) ())"

text \<open>What is printed of a message.\<close>

record shown =
  sh_name :: "byte list"
  sh_math :: int
  sh_chinese :: int

text \<open>
  One turn of the receiver, the same in \<open>basic/rcver.c\<close> and \<open>brcast/basic/rcver.c\<close>: the result of \<open>recvfrom\<close> is not looked at, so a
  failure (\<open>None\<close>) prints the old content again. A name without a final zero in the structure is read past its end.
\<close>

definition rcv_fixed :: "byte list option \<Rightarrow> byte list \<Rightarrow> (shown, byte list) outcome" where
  "rcv_fixed dgram buf =
     (let buf1 = (case dgram of None \<Rightarrow> buf | Some bs \<Rightarrow> put_at 0 (take FIXED_SIZE bs) buf)
      in case cstr_at 0 buf1 of
          None \<Rightarrow> Undef buf1
        | Some name \<Rightarrow> Ret \<lparr>sh_name = name, sh_math = show_be32 (take 4 (drop NAMESIZE buf1)),
            sh_chinese = show_be32 (take 4 (drop (NAMESIZE + 4) buf1))\<rparr> buf1)"

lemma put_at_append: "length a = off \<Longrightarrow> put_at off bs (a @ t) = a @ bs @ drop (length bs) t"
  by (simp add: put_at_def)

lemma fixed_msg_layout:
  assumes "length sbuf = FIXED_SIZE" "length name < NAMESIZE"
  shows "fixed_msg name sbuf = (name @ [0] @ drop (length name + 1) (take NAMESIZE sbuf)) @ be32 MATH @ be32 CHINESE"
proof -
  define hd where "hd = name @ [0] @ drop (length name + 1) (take NAMESIZE sbuf)"
  have len: "length hd = NAMESIZE" "length (drop NAMESIZE sbuf) = 8" using assms by (simp_all add: hd_def FIXED_SIZE_def)
  have "sbuf = take NAMESIZE sbuf @ drop NAMESIZE sbuf" by simp
  then have "put_at 0 (name @ [0]) sbuf = hd @ drop NAMESIZE sbuf"
    using assms by (simp add: put_at_def hd_def drop_take) (metis append_take_drop_id drop_drop le_add_diff_inverse2 Suc_leI)
  then have "fixed_msg name sbuf = put_at (NAMESIZE + 4) (be32 CHINESE) (hd @ be32 MATH @ drop 4 (drop NAMESIZE sbuf))"
    using len by (simp add: fixed_msg_def put_at_append)
  also have "\<dots> = put_at (NAMESIZE + 4) (be32 CHINESE) ((hd @ be32 MATH) @ drop 4 (drop NAMESIZE sbuf))" by simp
  also have "\<dots> = (hd @ be32 MATH) @ be32 CHINESE @ drop 4 (drop 4 (drop NAMESIZE sbuf))"
    using len by (subst put_at_append) auto
  finally show ?thesis using len assms by (simp add: hd_def FIXED_SIZE_def)
qed

lemma rcv_fixed_msg:
  assumes "length sbuf = FIXED_SIZE" "length buf = FIXED_SIZE" "length name < NAMESIZE" "0 \<notin> set name"
  shows "\<exists>buf'. rcv_fixed (Some (fixed_msg name sbuf)) buf = Ret \<lparr>sh_name = name, sh_math = 100, sh_chinese = 99\<rparr> buf' \<and> length buf' = FIXED_SIZE"
proof -
  let ?m = "fixed_msg name sbuf"
  define hd where "hd = name @ [0] @ drop (length name + 1) (take NAMESIZE sbuf)"
  have lay: "?m = hd @ be32 MATH @ be32 CHINESE" "length hd = NAMESIZE"
    using fixed_msg_layout [OF assms(1,3)] assms(1,3) by (simp_all add: hd_def FIXED_SIZE_def)
  have len: "length ?m = FIXED_SIZE" using lay by (simp add: FIXED_SIZE_def)
  have "cstr_at 0 ?m = Some name" using assms(4) lay(1) by (simp add: hd_def cstr_at_def cstring_def takeWhile_zero)
  moreover have "take 4 (drop NAMESIZE ?m) = be32 MATH" "take 4 (drop (NAMESIZE + 4) ?m) = be32 CHINESE"
    using lay by simp_all
  ultimately show ?thesis using len assms(2) by (simp add: rcv_fixed_def put_at_def)
qed

text \<open>
  The receivers' loop, which ends by no \<open>break\<close>: \<open>ds\<close> are the results of \<open>recvfrom\<close>, the output is what is printed of each message.
\<close>

fun rcv_loop :: "(byte list option \<Rightarrow> byte list \<Rightarrow> (shown, byte list) outcome) \<Rightarrow> byte list option list \<Rightarrow> byte list \<Rightarrow>
    shown list \<Rightarrow> (unit, shown list) outcome" where
  "rcv_loop turn [] buf out = Blocked out"
| "rcv_loop turn (d # ds) buf out = (case turn d buf of Ret s buf1 \<Rightarrow> rcv_loop turn ds buf1 (out @ [s]) | _ \<Rightarrow> Undef out)"

definition rcver_basic :: "bool \<Rightarrow> bool \<Rightarrow> byte list option list \<Rightarrow> byte list \<Rightarrow> (unit, shown list) outcome" where
  "rcver_basic sock bound ds recv_buf =
     (if \<not> sock then Exit 1 [] else if \<not> bound then Exit 1 [] else rcv_loop rcv_fixed ds recv_buf [])"

definition rcver_brcast :: "bool \<Rightarrow> bool \<Rightarrow> bool \<Rightarrow> byte list option list \<Rightarrow> byte list \<Rightarrow> (unit, shown list) outcome" where
  "rcver_brcast sock joined bound ds recv_buf =
     (if \<not> sock then Exit 1 []
      else if \<not> joined then Exit 1 []
      else if \<not> bound then Exit 1 []
      else rcv_loop rcv_fixed ds recv_buf [])"

text \<open>A receiver whose turn handles each of the messages, with any content of its buffer, shows them all in order.\<close>

lemma rcv_loop_shows:
  assumes "\<forall>(d, s) \<in> set ps. \<forall>buf. length buf = n \<longrightarrow> (\<exists>buf'. turn d buf = Ret s buf' \<and> length buf' = n)" "length buf = n"
  shows "rcv_loop turn (map fst ps) buf out = Blocked (out @ map snd ps)"
  using assms
proof (induction ps arbitrary: buf out)
  case (Cons p ps)
  obtain d s where p: "p = (d, s)" by (cases p)
  with Cons.prems obtain buf' where "turn d buf = Ret s buf'" "length buf' = n" by fastforce
  with p Cons.IH [of buf' "out @ [s]"] Cons.prems(1) show ?case by simp
qed simp

text \<open>The two fixed messages arrive, with whatever the structure held behind the name.\<close>

lemma fixed_messages_arrive:
  assumes "length sbuf = FIXED_SIZE" "length buf = FIXED_SIZE"
  shows "\<exists>m buf'. snder_basic sbuf 2 True True = Ret (Some m) () \<and>
      rcv_fixed (Some m) buf = Ret \<lparr>sh_name = str_bytes ''Vivi'', sh_math = 100, sh_chinese = 99\<rparr> buf'"
    and "\<exists>m buf'. snder_brcast True True True True True = Ret (Some m) () \<and>
      rcv_fixed (Some m) buf = Ret \<lparr>sh_name = str_bytes ''Cassid'', sh_math = 100, sh_chinese = 99\<rparr> buf'"
  using rcv_fixed_msg [OF assms, of "str_bytes ''Vivi''"] rcv_fixed_msg [OF _ assms(2), of "replicate FIXED_SIZE 0" "str_bytes ''Cassid''"]
  by (auto simp: snder_basic_def snder_brcast_def str_bytes_def NAMESIZE_def)

text \<open>So any number of messages of this form, whatever stood in the senders' structures, is shown in order by both receivers.\<close>

lemma fixed_receivers_show:
  assumes "length recv_buf = FIXED_SIZE" "\<forall>(name, sbuf) \<in> set ms. length sbuf = FIXED_SIZE \<and> length name < NAMESIZE \<and> 0 \<notin> set name"
  defines "ds \<equiv> map (\<lambda>(name, sbuf). Some (fixed_msg name sbuf)) ms"
    and "shows \<equiv> map (\<lambda>(name, sbuf). \<lparr>sh_name = name, sh_math = 100, sh_chinese = 99\<rparr>) ms"
  shows "rcver_basic True True ds recv_buf = Blocked shows" "rcver_brcast True True True ds recv_buf = Blocked shows"
proof -
  let ?ps = "map (\<lambda>(name, sbuf). (Some (fixed_msg name sbuf), \<lparr>sh_name = name, sh_math = 100, sh_chinese = 99\<rparr>)) ms"
  have "rcv_loop rcv_fixed (map fst ?ps) recv_buf [] = Blocked ([] @ map snd ?ps)"
    using assms(1,2) rcv_fixed_msg by (intro rcv_loop_shows [where n = FIXED_SIZE]) fastforce+
  then show "rcver_basic True True ds recv_buf = Blocked shows" "rcver_brcast True True True ds recv_buf = Blocked shows"
    by (simp_all add: rcver_basic_def rcver_brcast_def assms(3,4) comp_def case_prod_beta')
qed

section \<open>A name of variable length\<close>

text \<open>
  \<open>struct msg_st\<close> of \<open>ebasic\<close>: \<open>math\<close>, \<open>chinese\<close> and the first byte of the name, nine bytes; the sender's block is longer by the
  length of the name, the receiver's by \<open>NAMEMAX - 1\<close>.
\<close>

definition NAMEMAX :: nat where "NAMEMAX = 512 - 8 - 8"
definition MSG_ST :: nat where "MSG_ST = 9"

text \<open>\<open>main\<close> of \<open>ebasic/snder.c\<close>; \<open>mal\<close> gives the block of \<open>malloc\<close>. \<open>None\<close> of the copy is a write past the block.\<close>

definition snder_ebasic :: "(nat \<Rightarrow> byte list option) \<Rightarrow> bool \<Rightarrow> bool \<Rightarrow> byte list list \<Rightarrow> (byte list option, unit) outcome" where
  "snder_ebasic mal sock sends argv =
     (if length argv < 3 then Exit 1 ()
      else let name = argv ! 2
        in if length name > NAMEMAX then Exit 1 ()
           else if \<not> sock then Exit 1 ()
           else (case mal (MSG_ST + length name) of
               None \<Rightarrow> Exit 1 ()
             | Some blk \<Rightarrow>
                 if 8 + length name + 1 > length blk then Undef ()
                 else if \<not> sends then Exit 1 ()
                 else Ret (Some (put_at 4 (be32 CHINESE) (put_at 0 (be32 MATH) (put_at 8 (name @ [0]) blk)))) ()))"

definition rcv_ebasic :: "byte list option \<Rightarrow> byte list \<Rightarrow> (shown, byte list) outcome" where
  "rcv_ebasic dgram buf =
     (let size = MSG_ST + NAMEMAX - 1;
          buf1 = (case dgram of None \<Rightarrow> buf | Some bs \<Rightarrow> put_at 0 (take size bs) buf)
      in case cstr_at 8 buf1 of
          None \<Rightarrow> Undef buf1
        | Some name \<Rightarrow> Ret \<lparr>sh_name = name, sh_math = show_be32 (take 4 buf1), sh_chinese = show_be32 (take 4 (drop 4 buf1))\<rparr> buf1)"

definition rcver_ebasic :: "(nat \<Rightarrow> byte list option) \<Rightarrow> bool \<Rightarrow> bool \<Rightarrow> byte list option list \<Rightarrow> (unit, shown list) outcome" where
  "rcver_ebasic mal sock bound ds =
     (case mal (MSG_ST + NAMEMAX - 1) of
        None \<Rightarrow> Exit 1 []
      | Some recv_bufp \<Rightarrow> if \<not> sock then Exit 1 [] else if \<not> bound then Exit 1 [] else rcv_loop rcv_ebasic ds recv_bufp [])"

lemma snder_ebasic_sends:
  assumes "length name \<le> NAMEMAX" "mal (MSG_ST + length name) = Some blk" "length blk = MSG_ST + length name"
  shows "snder_ebasic mal True True [prog, ip, name] = Ret (Some (be32 MATH @ be32 CHINESE @ name @ [0])) ()"
proof -
  let ?m = "put_at 8 (name @ [0]) blk"
  have "?m = take 8 blk @ name @ [0]" using assms(3) by (simp add: put_at_def MSG_ST_def)
  moreover have "length (take 8 blk) = 8" using assms(3) by (simp add: MSG_ST_def)
  ultimately have "put_at 4 (be32 CHINESE) (put_at 0 (be32 MATH) ?m) = be32 MATH @ be32 CHINESE @ name @ [0]"
    by (simp add: put_at_def)
  with assms show ?thesis by (simp add: snder_ebasic_def Let_def MSG_ST_def)
qed

lemma rcv_ebasic_msg:
  assumes "length name < NAMEMAX" "0 \<notin> set name" "length buf = MSG_ST + NAMEMAX - 1"
  shows "\<exists>buf'. rcv_ebasic (Some (be32 MATH @ be32 CHINESE @ name @ [0])) buf = Ret \<lparr>sh_name = name, sh_math = 100, sh_chinese = 99\<rparr> buf' \<and>
    length buf' = MSG_ST + NAMEMAX - 1"
proof -
  let ?m = "be32 MATH @ be32 CHINESE @ name @ [0]"
  have t: "take (MSG_ST + NAMEMAX - 1) ?m = ?m" using assms(1) by (simp add: MSG_ST_def)
  have "drop 8 (put_at 0 ?m buf) = name @ 0 # drop (length ?m) buf" "take 4 (put_at 0 ?m buf) = be32 MATH"
    "take 4 (drop 4 (put_at 0 ?m buf)) = be32 CHINESE" by (simp_all add: put_at_def)
  with assms(2) have "rcv_ebasic (Some ?m) buf = Ret \<lparr>sh_name = name, sh_math = 100, sh_chinese = 99\<rparr> (put_at 0 ?m buf)"
    unfolding rcv_ebasic_def Let_def option.case t by (simp add: cstr_at_def cstring_def takeWhile_zero)
  with assms(1,3) show ?thesis by (simp add: MSG_ST_def put_at_def)
qed

text \<open>Any number of messages, with names of different lengths, is shown in order: a short name is not mixed with the rest of a longer one.\<close>

lemma rcver_ebasic_shows:
  assumes "mal (MSG_ST + NAMEMAX - 1) = Some blk" "length blk = MSG_ST + NAMEMAX - 1" "\<forall>name \<in> set ns. length name < NAMEMAX \<and> 0 \<notin> set name"
  shows "rcver_ebasic mal True True (map (\<lambda>name. Some (be32 MATH @ be32 CHINESE @ name @ [0])) ns) =
    Blocked (map (\<lambda>name. \<lparr>sh_name = name, sh_math = 100, sh_chinese = 99\<rparr>) ns)"
proof -
  let ?ps = "map (\<lambda>name. (Some (be32 MATH @ be32 CHINESE @ name @ [0]), \<lparr>sh_name = name, sh_math = 100, sh_chinese = 99\<rparr>)) ns"
  have "rcv_loop rcv_ebasic (map fst ?ps) blk [] = Blocked ([] @ map snd ?ps)"
    using assms(2,3) rcv_ebasic_msg by (intro rcv_loop_shows [where n = "MSG_ST + NAMEMAX - 1"]) fastforce+
  then show ?thesis using assms(1) by (simp add: rcver_ebasic_def comp_def)
qed

text \<open>
  C28: Messages of \<open>dgram/ebasic\<close>. The sender writes only inside its block and refuses names of more than 496 bytes. A name of
  up to 495 bytes arrives: the receiver prints it with both scores, whatever its buffer held before. A name of exactly
  496 bytes passes the sender's test, but its final zero does not fit into the receiver's buffer, which is then read past
  its end.
\<close>

theorem ebasic_messages:
  assumes "0 \<notin> set name" "\<forall>n. \<exists>blk. mal n = Some blk \<and> length blk = n" "length buf = MSG_ST + NAMEMAX - 1"
  shows "if length name > NAMEMAX then snder_ebasic mal True True [prog, ip, name] = Exit 1 ()
    else \<exists>m. snder_ebasic mal True True [prog, ip, name] = Ret (Some m) () \<and>
      (\<exists>buf'. rcv_ebasic (Some m) buf =
        (if length name < NAMEMAX then Ret \<lparr>sh_name = name, sh_math = 100, sh_chinese = 99\<rparr> buf' else Undef buf'))"
proof (cases "length name > NAMEMAX")
  case False
  obtain blk where "mal (MSG_ST + length name) = Some blk" "length blk = MSG_ST + length name" using assms(2) by blast
  with False have s: "snder_ebasic mal True True [prog, ip, name] = Ret (Some (be32 MATH @ be32 CHINESE @ name @ [0])) ()"
    by (intro snder_ebasic_sends) auto
  let ?m = "be32 MATH @ be32 CHINESE @ name @ [0]"
  let ?size = "MSG_ST + NAMEMAX - 1"
  show ?thesis
  proof (cases "length name < NAMEMAX")
    case True
    from rcv_ebasic_msg [OF this assms(1,3)] s True False show ?thesis by auto
  next
    case full: False
    with False have l: "length name = NAMEMAX" by simp
    then have "take ?size ?m = be32 MATH @ be32 CHINESE @ name" by (simp add: MSG_ST_def)
    with l assms(3) have "put_at 0 (take ?size ?m) buf = be32 MATH @ be32 CHINESE @ name" by (simp add: put_at_def MSG_ST_def)
    with assms(1) have "rcv_ebasic (Some ?m) buf = Undef (be32 MATH @ be32 CHINESE @ name)"
      by (simp add: rcv_ebasic_def cstr_at_def)
    with s full False show ?thesis by auto
  qed
qed (simp add: snder_ebasic_def)

theorem ebasic_messages_witness:
  "\<exists>m buf'. snder_ebasic (\<lambda>n. Some (replicate n 5)) True True [[], [], [65, 66]] = Ret (Some m) () \<and>
     rcv_ebasic (Some m) (replicate 504 9) = Ret \<lparr>sh_name = [65, 66], sh_math = 100, sh_chinese = 99\<rparr> buf'"
  using ebasic_messages [of "[65, 66]" "\<lambda>n. Some (replicate n 5)" "replicate 504 9" "[]" "[]"]
  by (auto simp: NAMEMAX_def MSG_ST_def)

section \<open>Lines as datagrams\<close>

text \<open>
  \<open>IPC/socket/Newer/DGRAM/send.c\<close>: each line goes out in a datagram of 1024 bytes filled up with zeros, until one begins with \<open>bye\<close>. At the end
  of the input \<open>fgets\<close> leaves the buffer empty, and the loop goes on sending empty messages. \<open>oks\<close> are the results of \<open>sendto\<close>.
\<close>

definition LINE_MAX :: nat where "LINE_MAX = 1024"

fun send_loop :: "bool list \<Rightarrow> string \<Rightarrow> byte list list \<Rightarrow> (unit, byte list list) outcome" where
  "send_loop [] inp out = OutOfFuel out"
| "send_loop (ok # oks) inp out =
     (let (msg, rest) = (case next_line LINE_MAX inp of None \<Rightarrow> ([], inp) | Some p \<Rightarrow> p);
          out1 = out @ [put_at 0 (str_bytes msg) (replicate LINE_MAX 0)]
      in if \<not> ok then Exit 1 out
         else if take 3 msg = ''bye'' then Ret () out1
         else send_loop oks rest out1)"

text \<open>
  \<open>recv.c\<close>: one turn; a failing \<open>recvfrom\<close> or an empty datagram ends the program, the newline is replaced by a zero before the text is printed. The buffer has 1472 bytes.
\<close>

definition RECV_MAX :: nat where "RECV_MAX = 1472"

definition recv_turn :: "byte list option \<Rightarrow> byte list \<Rightarrow> (byte list, byte list) outcome" where
  "recv_turn dgram buf = (case dgram of
      None \<Rightarrow> Exit 1 buf
    | Some bs \<Rightarrow>
        if bs = [] then Exit 1 buf
        else let buf1 = put_at 0 (take RECV_MAX bs) buf
          in case cstr_at 0 buf1 of
              None \<Rightarrow> Undef buf1
            | Some t \<Rightarrow> (let buf2 = (if 10 \<in> set t then buf1[length (takeWhile (\<lambda>b. b \<noteq> 10) t) := 0] else buf1)
                in Ret (takeWhile (\<lambda>b. b \<noteq> 10) t) buf2))"

fun recv_turns :: "byte list option list \<Rightarrow> byte list \<Rightarrow> (byte list list, byte list) outcome" where
  "recv_turns [] buf = Ret [] buf"
| "recv_turns (d # ds) buf = bind_outcome (recv_turn d buf) (\<lambda>t buf1. bind_outcome (recv_turns ds buf1) (\<lambda>ts buf2. Ret (t # ts) buf2))"

definition line_ok :: "string \<Rightarrow> bool" where
  "line_ok l \<longleftrightarrow> CHR 0x0A \<notin> set l \<and> CHR 0x00 \<notin> set l \<and> length l + 1 < LINE_MAX"

abbreviation datagram :: "string \<Rightarrow> byte list" where
  "datagram l \<equiv> put_at 0 (str_bytes (l @ [CHR 0x0A])) (replicate LINE_MAX 0)"

lemma datagram_shape: "line_ok l \<Longrightarrow> datagram l = str_bytes l @ 10 # replicate (LINE_MAX - length l - 1) 0"
  by (simp add: put_at_def str_bytes_def line_ok_def)

lemma str_bytes_clean: "line_ok l \<Longrightarrow> 0 \<notin> set (str_bytes l) \<and> 10 \<notin> set (str_bytes l)"
  unfolding str_bytes_def line_ok_def set_map by (metis (no_types, lifting) image_iff of_char_0 of_char_10)

lemma recv_turn_line:
  assumes "line_ok l" "length buf = RECV_MAX"
  shows "\<exists>buf'. recv_turn (Some (datagram l)) buf = Ret (str_bytes l) buf' \<and> length buf' = RECV_MAX"
proof -
  note c = str_bytes_clean [OF assms(1)]
  have len: "length (datagram l) = LINE_MAX" using assms(1) by (simp add: line_ok_def str_bytes_def)
  then have t: "take RECV_MAX (datagram l) = datagram l" by (simp add: RECV_MAX_def LINE_MAX_def)
  obtain k where k: "LINE_MAX - length l - 1 = Suc k" using assms(1) by (cases "LINE_MAX - length l - 1") (auto simp: line_ok_def)
  have m: "put_at 0 (datagram l) buf = (str_bytes l @ [10]) @ 0 # replicate k 0 @ drop LINE_MAX buf"
  proof -
    have "put_at 0 (datagram l) buf = datagram l @ drop LINE_MAX buf"
      unfolding put_at_def [of 0 "datagram l"] using len by simp
    then show ?thesis using datagram_shape [OF assms(1)] k by simp
  qed
  have "cstr_at 0 (put_at 0 (datagram l) buf) = Some (str_bytes l @ [10])"
    using c takeWhile_zero [of "str_bytes l @ [10]" "replicate k 0 @ drop LINE_MAX buf"] by (simp add: m cstr_at_def cstring_def)
  moreover have "takeWhile (\<lambda>b. b \<noteq> 10) (str_bytes l @ [10]) = str_bytes l" using c by (subst takeWhile_append2) auto
  moreover have "length (put_at 0 (datagram l) buf) = RECV_MAX" using len assms(2) by (simp add: RECV_MAX_def LINE_MAX_def)
  ultimately show ?thesis using datagram_shape [OF assms(1)] unfolding recv_turn_def option.case Let_def t by simp
qed

lemma recv_turns_lines:
  "\<forall>l \<in> set ls. line_ok l \<Longrightarrow> length buf = RECV_MAX \<Longrightarrow> \<exists>buf'. recv_turns (map (\<lambda>l. Some (datagram l)) ls) buf = Ret (map str_bytes ls) buf'"
proof (induction ls arbitrary: buf)
  case (Cons l ls)
  then obtain buf1 where b: "recv_turn (Some (datagram l)) buf = Ret (str_bytes l) buf1" "length buf1 = RECV_MAX"
    using recv_turn_line [of l buf] by auto
  with Cons.IH [of buf1] Cons.prems(1) obtain buf2 where "recv_turns (map (\<lambda>l. Some (datagram l)) ls) buf1 = Ret (map str_bytes ls) buf2" by auto
  with b(1) show ?case by simp
qed simp

lemma send_loop_lines:
  assumes "\<forall>l \<in> set ls. line_ok l \<and> take 3 l \<noteq> ''bye''" "line_ok b" "take 3 b = ''bye''"
  shows "send_loop (replicate (Suc (length ls)) True) (concat (map (\<lambda>l. l @ [CHR 0x0A]) ls) @ b @ CHR 0x0A # rest) out =
    Ret () (out @ map datagram (ls @ [b]))"
  using assms(1)
proof (induction ls arbitrary: out)
  case Nil
  have "length (take 3 b) = 3" unfolding assms(3) by simp
  then have "3 \<le> length b" by simp
  then show ?case using assms(2,3) by (simp add: next_line_line line_ok_def Let_def)
next
  case (Cons l ls)
  let ?r = "concat (map (\<lambda>l. l @ [CHR 0x0A]) ls) @ b @ CHR 0x0A # rest"
  have "next_line LINE_MAX (l @ CHR 0x0A # ?r) = Some (l @ [CHR 0x0A], ?r)"
    using Cons.prems by (intro next_line_line) (auto simp: line_ok_def)
  moreover have "take 3 (l @ [CHR 0x0A]) \<noteq> ''bye''" using Cons.prems bye_line [of l] by (simp add: line_ok_def)
  ultimately show ?case using Cons.IH [of "out @ [datagram l]"] Cons.prems by (simp add: Let_def)
qed

text \<open>
  Lines over datagrams. When the input begins with lines of at most 1022 characters (no zero among them) of which the last is the
  first that starts with \<open>bye\<close>, \<open>send.c\<close> ends after as many datagrams, and \<open>recv.c\<close>, if they all arrive in order, prints exactly these
  lines without their newlines, whatever its buffer held. When the input ends before such a line, \<open>send.c\<close> goes on sending empty
  messages for as long as \<open>sendto\<close> succeeds.
\<close>

theorem dgram_lines:
  "(\<forall>ls b rest buf. (\<forall>l \<in> set ls. line_ok l \<and> take 3 l \<noteq> ''bye'') \<and> line_ok b \<and> take 3 b = ''bye'' \<and> length buf = RECV_MAX \<longrightarrow>
     (\<exists>ds buf'. send_loop (replicate (Suc (length ls)) True) (concat (map (\<lambda>l. l @ [CHR 0x0A]) ls) @ b @ CHR 0x0A # rest) [] = Ret () ds \<and>
        recv_turns (map Some ds) buf = Ret (map str_bytes (ls @ [b])) buf')) \<and>
   (\<forall>n out. send_loop (replicate n True) [] out = OutOfFuel (out @ replicate n (replicate LINE_MAX 0)))"
proof (intro conjI allI impI)
  fix ls b rest and buf :: "byte list"
  assume a: "(\<forall>l \<in> set ls. line_ok l \<and> take 3 l \<noteq> ''bye'') \<and> line_ok b \<and> take 3 b = ''bye'' \<and> length buf = RECV_MAX"
  then have "\<exists>buf'. recv_turns (map (\<lambda>l. Some (datagram l)) (ls @ [b])) buf = Ret (map str_bytes (ls @ [b])) buf'"
    by (intro recv_turns_lines) auto
  with send_loop_lines [of ls b rest "[]"] a
  show "\<exists>ds buf'. send_loop (replicate (Suc (length ls)) True) (concat (map (\<lambda>l. l @ [CHR 0x0A]) ls) @ b @ CHR 0x0A # rest) [] = Ret () ds \<and>
    recv_turns (map Some ds) buf = Ret (map str_bytes (ls @ [b])) buf'" by (auto simp: comp_def)
next
  fix n out
  show "send_loop (replicate n True) [] out = OutOfFuel (out @ replicate n (replicate LINE_MAX 0))"
    by (induction n arbitrary: out) (simp_all add: next_line_def fgets_def put_at_def str_bytes_def replicate_append_same)
qed

theorem dgram_lines_witness:
  "\<exists>ds buf'. send_loop [True, True] (''hi'' @ [CHR 0x0A] @ ''bye'' @ [CHR 0x0A]) [] = Ret () ds \<and>
     recv_turns (map Some ds) (replicate 1472 7) = Ret [str_bytes ''hi'', str_bytes ''bye''] buf'"
  using dgram_lines [THEN conjunct1, rule_format, of "[''hi'']" "''bye''" "replicate 1472 7" "[]"]
  by (simp add: line_ok_def LINE_MAX_def RECV_MAX_def)

section \<open>The structure in a message queue\<close>

text \<open>
  \<open>IPC/xsi/msg/basic\<close>: the text of a message, behind its type, has ten bytes of name, two of padding, two integers in the byte order of the machine and four bytes of
  padding at the end. \<open>sender.c\<close> sends one message of type 1; \<open>ftok\<close>, \<open>msgget\<close> and \<open>msgsnd\<close> may fail.
\<close>

definition MSG_TEXT :: nat where "MSG_TEXT = 24"
definition MATH_AT :: nat where "MATH_AT = 12"
definition CHINESE_AT :: nat where "CHINESE_AT = 16"

definition sender_main :: "bool \<Rightarrow> bool \<Rightarrow> bool \<Rightarrow> byte list \<Rightarrow> ((int \<times> byte list) option, unit) outcome" where
  "sender_main key_ok get_ok snd_ok sbuf =
     (if \<not> key_ok then Exit 1 ()
      else if \<not> get_ok then Exit 1 ()
      else let text = put_at CHINESE_AT (le_bytes 4 100) (put_at MATH_AT (le_bytes 4 99) (put_at 0 (str_bytes ''Vicky'' @ [0]) sbuf))
        in if \<not> snd_ok then Exit 1 () else Ret (Some (1, text)) ())"

text \<open>\<open>reciever.c\<close>: messages of any type; a failure, or a message that is too long, ends the program.\<close>

fun reciever_loop :: "(int \<times> byte list) option list \<Rightarrow> byte list \<Rightarrow> shown list \<Rightarrow> (unit, shown list) outcome" where
  "reciever_loop [] rbuf out = Blocked out"
| "reciever_loop (None # ms) rbuf out = Exit 1 out"
| "reciever_loop (Some (ty, bs) # ms) rbuf out =
     (if length bs > MSG_TEXT then Exit 1 out
      else let rbuf1 = put_at 0 bs rbuf
        in case cstr_at 0 rbuf1 of
            None \<Rightarrow> Undef out
          | Some name \<Rightarrow> reciever_loop ms rbuf1
              (out @ [\<lparr>sh_name = name, sh_math = le_int (take 4 (drop MATH_AT rbuf1)), sh_chinese = le_int (take 4 (drop CHINESE_AT rbuf1))\<rparr>]))"

definition reciever_main :: "bool \<Rightarrow> bool \<Rightarrow> (int \<times> byte list) option list \<Rightarrow> byte list \<Rightarrow> (unit, shown list) outcome" where
  "reciever_main key_ok get_ok ms rbuf =
     (if \<not> key_ok then Exit 1 [] else if \<not> get_ok then Exit 1 [] else reciever_loop ms rbuf [])"

text \<open>The message is shown as it was sent, whatever stood in the two structures.\<close>

lemma queue_message_shown:
  assumes "length sbuf = MSG_TEXT" "length rbuf = MSG_TEXT"
  shows "\<exists>m. sender_main True True True sbuf = Ret (Some m) () \<and>
    reciever_main True True [Some m] rbuf = Blocked [\<lparr>sh_name = str_bytes ''Vicky'', sh_math = 99, sh_chinese = 100\<rparr>]"
proof -
  let ?v = "str_bytes ''Vicky'' @ [0]"
  define q where "q = take 6 (drop 6 sbuf)"
  define a where "a = ?v @ q"
  define t where "t = drop 20 sbuf"
  have la: "length q = 6" "length ?v = 6" "length a = 12" "length t = 4" using assms(1) by (simp_all add: q_def a_def t_def MSG_TEXT_def str_bytes_def)
  have "put_at 0 ?v sbuf = ?v @ drop 6 sbuf" using la(2) by (simp only: put_at_def) simp
  also have "drop 6 sbuf = q @ drop 12 sbuf" using append_take_drop_id [of 6 "drop 6 sbuf"] by (simp add: q_def)
  finally have v: "put_at 0 ?v sbuf = a @ drop 12 sbuf" by (simp add: a_def)
  have "put_at MATH_AT (le_bytes 4 99) (a @ drop 12 sbuf) = (a @ le_bytes 4 99) @ drop 16 sbuf"
    using la by (simp add: put_at_append MATH_AT_def)
  moreover have "put_at CHINESE_AT (le_bytes 4 100) ((a @ le_bytes 4 99) @ drop 16 sbuf) = (a @ le_bytes 4 99) @ le_bytes 4 100 @ t"
    using la put_at_append [of "a @ le_bytes 4 99" CHINESE_AT] by (simp add: CHINESE_AT_def t_def)
  ultimately have m: "put_at CHINESE_AT (le_bytes 4 100) (put_at MATH_AT (le_bytes 4 99) (put_at 0 ?v sbuf)) = a @ le_bytes 4 99 @ le_bytes 4 100 @ t"
    using v by simp
  let ?m = "a @ le_bytes 4 99 @ le_bytes 4 100 @ t"
  have "put_at 0 ?m rbuf = ?m" using la assms(2) by (simp add: put_at_def MSG_TEXT_def)
  moreover have "cstr_at 0 ?m = Some (str_bytes ''Vicky'')"
    using takeWhile_zero [of "str_bytes ''Vicky''"] by (simp add: a_def cstr_at_def cstring_def str_bytes_def)
  moreover have "take 4 (drop MATH_AT ?m) = le_bytes 4 99" "take 4 (drop CHINESE_AT ?m) = le_bytes 4 100" using la by (simp_all add: MATH_AT_def CHINESE_AT_def)
  ultimately show ?thesis using la m by (simp add: sender_main_def reciever_main_def MSG_TEXT_def Let_def le_int_le_bytes)
qed

end
