(* ===== verification/Same_Process.thy ===== *)
theory Same_Process
  imports Datagram
begin

text \<open>
  \<open>IPC/socket/Newer/DGRAM/same_process.c\<close>: two threads that send and receive over one socket. The receiver binds the socket to port 1900, the sender sends
  lines to that port. Nothing orders the two: a socket that is not bound gets some other port with the first \<open>sendto\<close>, and the
  receiver's \<open>bind\<close>, whose result is not looked at, then fails. Between two threads of one machine no datagram is lost or reordered.
\<close>

section \<open>Threads and socket\<close>

datatype port = Unbound | Own_port | Other_port
datatype sender = S_loop | S_done
datatype recver = R_bind | R_loop | R_done

text \<open>\<open>sp_sent\<close> collects the datagrams that were sent to the port.\<close>

record duo =
  sp_input :: string
  sp_port :: port
  sp_queue :: "byte list list"
  sp_closed :: bool
  sp_sent :: "byte list list"
  sp_shown :: "byte list list"
  sp_snd :: sender
  sp_rcv :: recver

definition sp_msg :: "string \<Rightarrow> byte list" where
  "sp_msg msg = put_at 0 (str_bytes msg) (replicate LINE_MAX 0)"

text \<open>One turn of \<open>my_sender\<close>; \<open>sendto\<close> fails on the closed socket.\<close>

definition my_sender :: "duo \<Rightarrow> duo option" where
  "my_sender s = (case sp_snd s of
      S_done \<Rightarrow> None
    | S_loop \<Rightarrow>
        (case (case next_line LINE_MAX (sp_input s) of None \<Rightarrow> ([], sp_input s) | Some p \<Rightarrow> p) of (msg, rest) \<Rightarrow>
           let s1 = s\<lparr>sp_input := rest\<rparr>
           in if sp_closed s then Some (s1\<lparr>sp_snd := S_done\<rparr>)
              else let s2 = s1\<lparr>sp_sent := sp_sent s @ [sp_msg msg], sp_port := (if sp_port s = Unbound then Other_port else sp_port s),
                     sp_queue := (if sp_port s = Own_port then sp_queue s @ [sp_msg msg] else sp_queue s)\<rparr>
                in Some (if take 3 msg = ''bye'' then s2\<lparr>sp_snd := S_done\<rparr> else s2)))"

text \<open>The text of a datagram: up to the first zero, with the newline replaced by a zero.\<close>

definition recv_text :: "byte list \<Rightarrow> byte list" where
  "recv_text d = takeWhile (\<lambda>b. b \<noteq> 10) (cstring d)"

definition bye_text :: "byte list \<Rightarrow> bool" where
  "bye_text t \<longleftrightarrow> take 3 t = str_bytes ''bye''"

text \<open>\<open>my_recver\<close>: the set-up, then one turn for each datagram.\<close>

definition my_recver :: "duo \<Rightarrow> duo option" where
  "my_recver s = (case sp_rcv s of
      R_bind \<Rightarrow> Some (s\<lparr>sp_rcv := R_loop, sp_port := (if sp_port s = Unbound then Own_port else sp_port s)\<rparr>)
    | R_done \<Rightarrow> None
    | R_loop \<Rightarrow>
        (case sp_queue s of
            [] \<Rightarrow> None
          | d # ds \<Rightarrow>
              let s1 = s\<lparr>sp_queue := ds\<rparr>
              in Some (if bye_text (recv_text d) then s1\<lparr>sp_closed := True, sp_rcv := R_done\<rparr>
                       else s1\<lparr>sp_shown := sp_shown s @ [recv_text d]\<rparr>)))"

text \<open>
  \<open>main\<close>: both \<open>pthread_create\<close> store the identifier in \<open>tids[0]\<close>, so the first \<open>pthread_join\<close> waits for the sender, and the second gets
  \<open>tids[1]\<close>, which was never set: undefined behaviour, the state \<open>None\<close>.
\<close>

inductive duo_step :: "duo option \<Rightarrow> duo option \<Rightarrow> bool" where
  sends: "my_sender s = Some s' \<Longrightarrow> duo_step (Some s) (Some s')"
| receives: "my_recver s = Some s' \<Longrightarrow> duo_step (Some s) (Some s')"
| joins: "sp_snd s = S_done \<Longrightarrow> duo_step (Some s) None"

definition duo_start :: "string \<Rightarrow> duo" where
  "duo_start inp = \<lparr>sp_input = inp, sp_port = Unbound, sp_queue = [], sp_closed = False, sp_sent = [], sp_shown = [], sp_snd = S_loop, sp_rcv = R_bind\<rparr>"

section \<open>What arrives\<close>

definition duo_inv :: "duo \<Rightarrow> bool" where
  "duo_inv s \<longleftrightarrow> (case sp_port s of
      Unbound \<Rightarrow> sp_sent s = [] \<and> sp_rcv s = R_bind \<and> sp_queue s = [] \<and> sp_shown s = [] \<and> \<not> sp_closed s
    | Other_port \<Rightarrow> sp_sent s \<noteq> [] \<and> sp_rcv s \<noteq> R_done \<and> sp_queue s = [] \<and> sp_shown s = [] \<and> \<not> sp_closed s
    | Own_port \<Rightarrow> sp_rcv s \<noteq> R_bind \<and> (sp_closed s \<longleftrightarrow> sp_rcv s = R_done) \<and>
        (\<exists>ds. map recv_text ds = sp_shown s \<and> (\<forall>d \<in> set ds. \<not> bye_text (recv_text d)) \<and>
          (if sp_rcv s = R_done then \<exists>b. bye_text (recv_text b) \<and> sp_sent s = ds @ b # sp_queue s else sp_sent s = ds @ sp_queue s)))"

lemma duo_inv_send:
  assumes "duo_inv s" "my_sender s = Some s'"
  shows "duo_inv s'"
proof -
  have l: "sp_snd s = S_loop" using assms(2) by (cases "sp_snd s") (auto simp: my_sender_def)
  obtain msg rest where n: "(case next_line LINE_MAX (sp_input s) of None \<Rightarrow> ([], sp_input s) | Some p \<Rightarrow> p) = (msg, rest)"
    by (cases "case next_line LINE_MAX (sp_input s) of None \<Rightarrow> ([], sp_input s) | Some p \<Rightarrow> p") auto
  show ?thesis
  proof (cases "sp_closed s")
    case True
    with assms l n show ?thesis by (auto simp: my_sender_def duo_inv_def split: port.splits)
  next
    case open_: False
    show ?thesis
    proof (cases "sp_port s = Own_port")
      case True
      with assms l n open_ show ?thesis by (auto simp: my_sender_def duo_inv_def Let_def split: if_splits)
    next
      case False
      with assms l n open_ show ?thesis by (cases "sp_port s") (auto simp: my_sender_def duo_inv_def Let_def split: if_splits)
    qed
  qed
qed

lemma duo_inv_recv:
  assumes "duo_inv s" "my_recver s = Some s'"
  shows "duo_inv s'"
proof (cases "sp_rcv s")
  case R_bind
  with assms show ?thesis by (cases "sp_port s") (auto simp: my_recver_def duo_inv_def)
next
  case R_loop
  with assms obtain d q where q: "sp_queue s = d # q" by (cases "sp_queue s") (auto simp: my_recver_def)
  with assms R_loop have p: "sp_port s = Own_port" by (cases "sp_port s") (auto simp: duo_inv_def)
  with assms R_loop q obtain ds where ds: "map recv_text ds = sp_shown s" "\<forall>d \<in> set ds. \<not> bye_text (recv_text d)" "sp_sent s = ds @ d # q" "\<not> sp_closed s"
    by (auto simp: duo_inv_def)
  show ?thesis
  proof (cases "bye_text (recv_text d)")
    case True
    with assms(2) R_loop q p ds show ?thesis by (auto simp: my_recver_def duo_inv_def)
  next
    case False
    then have s': "s' = s\<lparr>sp_queue := q, sp_shown := sp_shown s @ [recv_text d]\<rparr>" using assms(2) R_loop q by (simp add: my_recver_def)
    have "map recv_text (ds @ [d]) = sp_shown s' \<and> (\<forall>d \<in> set (ds @ [d]). \<not> bye_text (recv_text d)) \<and> sp_sent s' = (ds @ [d]) @ sp_queue s'"
      using ds False s' by simp
    then have "\<exists>es. map recv_text es = sp_shown s' \<and> (\<forall>d \<in> set es. \<not> bye_text (recv_text d)) \<and> sp_sent s' = es @ sp_queue s'" by blast
    moreover have "sp_port s' = Own_port" "sp_rcv s' = R_loop" "\<not> sp_closed s'" using s' p R_loop ds(4) by simp_all
    ultimately show ?thesis by (simp add: duo_inv_def)
  qed
next
  case R_done
  with assms(2) show ?thesis by (simp add: my_recver_def)
qed

lemma duo_inv_reach: "duo_step\<^sup>*\<^sup>* (Some (duo_start inp)) (Some s) \<Longrightarrow> duo_inv s"
proof (induction "Some s" arbitrary: s rule: rtranclp_induct)
  case base
  then show ?case by (auto simp: duo_inv_def duo_start_def)
next
  case (step y)
  from step(2) obtain t where t: "y = Some t" by (cases rule: duo_step.cases) auto
  with step(3) have i: "duo_inv t" by blast
  from step(2) show ?case unfolding t
  proof (cases rule: duo_step.cases)
    case sends
    from i this show ?thesis by (rule duo_inv_send)
  next
    case receives
    from i this show ?thesis by (rule duo_inv_recv)
  qed
qed

text \<open>
  Two threads, one socket. However the threads of \<open>same_process.c\<close> interleave: if the first line is sent before the receiver has
  bound the socket, no line ever arrives and the receiver never ends; if the socket was bound first, the receiver
  shows a prefix of the lines sent, in order, and ends exactly with the line \<open>bye\<close>. As soon as the sender has ended, the
  second \<open>pthread_join\<close> is undefined, in every case.
\<close>

theorem same_process_race:
  assumes "duo_step\<^sup>*\<^sup>* (Some (duo_start inp)) (Some s)"
  shows "(sp_port s = Other_port \<longrightarrow> sp_shown s = [] \<and> sp_rcv s \<noteq> R_done) \<and>
    (sp_port s = Own_port \<longrightarrow> (\<exists>rest. map recv_text (sp_sent s) = sp_shown s @ rest \<and> (sp_rcv s = R_done \<longrightarrow> rest \<noteq> [] \<and> bye_text (hd rest)))) \<and>
    (sp_snd s = S_done \<longrightarrow> duo_step (Some s) None)"
proof (intro conjI impI)
  note i = duo_inv_reach [OF assms]
  show "sp_shown s = []" "sp_rcv s \<noteq> R_done" if "sp_port s = Other_port" using i that by (simp_all add: duo_inv_def)
  show "\<exists>rest. map recv_text (sp_sent s) = sp_shown s @ rest \<and> (sp_rcv s = R_done \<longrightarrow> rest \<noteq> [] \<and> bye_text (hd rest))" if p: "sp_port s = Own_port"
  proof (cases "sp_rcv s = R_done")
    case True
    with i p obtain ds b where "map recv_text ds = sp_shown s" "bye_text (recv_text b)" "sp_sent s = ds @ b # sp_queue s"
      by (auto simp: duo_inv_def)
    then show ?thesis by (intro exI [of _ "recv_text b # map recv_text (sp_queue s)"]) simp
  next
    case False
    with i p obtain ds where "map recv_text ds = sp_shown s" "sp_sent s = ds @ sp_queue s" by (auto simp: duo_inv_def)
    with False show ?thesis by (intro exI [of _ "map recv_text (sp_queue s)"]) simp
  qed
  show "duo_step (Some s) None" if "sp_snd s = S_done" using that by (rule joins)
qed

theorem same_process_race_witness:
  "\<exists>s. duo_step\<^sup>*\<^sup>* (Some (duo_start [])) (Some s) \<and> sp_port s = Other_port \<and> sp_shown s = [] \<and> sp_rcv s \<noteq> R_done"
proof -
  let ?s = "(duo_start [])\<lparr>sp_sent := [sp_msg []], sp_port := Other_port\<rparr>"
  have "my_sender (duo_start []) = Some ?s" by (simp add: my_sender_def duo_start_def next_line_def fgets_def)
  then have r: "duo_step\<^sup>*\<^sup>* (Some (duo_start [])) (Some ?s)" by (intro r_into_rtranclp sends)
  from same_process_race [OF r] r show ?thesis by (intro exI [of _ ?s]) simp
qed

end
