(* ===== verification/Stamp_Service.thy ===== *)
theory Stamp_Service
  imports Stdio "HOL-Library.Multiset"
begin

text \<open>
  The time service of \<open>IPC/socket/stream\<close>: a server sends its clock as a line of text, \<open>client.c\<close> reads it. \<open>basic/server.c\<close> forks a child for
  every connection, \<open>pool_static/server.c\<close> forks four children at the start, which accept from the same socket. \<open>webdl.c\<close> fetches a
  file from a web server. The three directories hold the same \<open>client.c\<close> and \<open>webdl.c\<close>. Setting up the sockets is part of \<open>Servers\<close>.
\<close>

section \<open>The line with the time\<close>

definition fmt_stamp :: "int \<Rightarrow> string" where
  "fmt_stamp t = show_int t @ [CHR 0x0D, CHR 0x0A]"

text \<open>\<open>server_job\<close>: \<open>send\<close> transmits some of the line, or fails, which ends the process.\<close>

definition stamp_job :: "int \<Rightarrow> nat option \<Rightarrow> (string, unit) outcome" where
  "stamp_job stamp sent = (let buf = fmt_stamp stamp in case sent of None \<Rightarrow> Exit 1 () | Some k \<Rightarrow> Ret (take k buf) ())"

text \<open>
  \<^verbatim>\<open>fscanf(fp, "%lld\r\n", &stamp)\<close> on what the connection delivers until it is closed: white space is skipped, then a sign and digits
  are read; a number outside of \<open>long long\<close> is replaced by the nearest one.
\<close>

definition LLONG_MAX :: int where "LLONG_MAX = 2 ^ 63 - 1"
definition LLONG_MIN :: int where "LLONG_MIN = - (2 ^ 63)"

definition scan_digits :: "string \<Rightarrow> nat option" where
  "scan_digits s = (if takeWhile c_digit s = [] then None else Some (read_nat (takeWhile c_digit s)))"

definition scan_lld :: "string \<Rightarrow> int option" where
  "scan_lld s = map_option (\<lambda>z. max LLONG_MIN (min LLONG_MAX z)) (case dropWhile c_space s of
      [] \<Rightarrow> None
    | c # cs \<Rightarrow> if c = CHR ''-'' then map_option (\<lambda>n. - int n) (scan_digits cs)
        else if c = CHR ''+'' then map_option int (scan_digits cs)
        else map_option int (scan_digits (c # cs)))"

text \<open>\<open>main\<close> of \<open>client.c\<close>: what it prints to standard output and standard error.\<close>

definition client_main :: "nat \<Rightarrow> bool \<Rightarrow> bool \<Rightarrow> bool \<Rightarrow> string \<Rightarrow> (unit, string \<times> string) outcome" where
  "client_main argc sock conn opened stream =
     (if argc < 2 then Exit 1 ([], ''Usage...'' @ [CHR 0x0A])
      else if \<not> sock then Exit 1 ([], ''socket()'')
      else if \<not> conn then Exit 1 ([], ''connect()'')
      else if \<not> opened then Exit 1 ([], ''fdopen()'')
      else (case scan_lld stream of
          None \<Rightarrow> Exit 0 ([], ''Bad format'' @ [CHR 0x0A])
        | Some stamp \<Rightarrow> Exit 0 (''stamp = '' @ show_int stamp @ [CHR 0x0A], [])))"

lemma takeWhile_digits: "\<forall>c \<in> set ds. c_digit c \<Longrightarrow> \<not> c_digit x \<Longrightarrow> takeWhile c_digit (ds @ x # r) = ds"
  by (induction ds) auto

lemma scan_show_nat: "scan_digits (show_nat n @ CHR 0x0D # r) = Some n"
  using takeWhile_digits [of "show_nat n" "CHR 0x0D" r] show_nat_digits show_nat_ne [of n]
  by (auto simp: scan_digits_def c_digit_def)

lemma scan_fmt_stamp:
  assumes "LLONG_MIN \<le> t" "t \<le> LLONG_MAX"
  shows "scan_lld (fmt_stamp t) = Some t"
proof (cases "t < 0")
  case True
  then have "fmt_stamp t = CHR ''-'' # show_nat (nat (- t)) @ [CHR 0x0D, CHR 0x0A]" by (simp add: fmt_stamp_def show_int_def)
  moreover have "\<not> c_space CHR ''-''" by (simp add: c_space_def)
  ultimately show ?thesis using True assms scan_show_nat [of "nat (- t)" "[CHR 0x0A]"] by (simp add: scan_lld_def)
next
  case False
  obtain c cs where c: "show_nat (nat t) = c # cs" using show_nat_ne by (cases "show_nat (nat t)") auto
  have d: "c_digit c" using show_nat_digits [of c "nat t"] c by simp
  have "fmt_stamp t = c # cs @ [CHR 0x0D, CHR 0x0A]" using False c by (simp add: fmt_stamp_def show_int_def)
  moreover have "scan_digits (c # cs @ [CHR 0x0D, CHR 0x0A]) = Some (nat t)" using scan_show_nat [of "nat t" "[CHR 0x0A]"] c by simp
  ultimately show ?thesis using False assms digit_facts [OF d] by (simp add: scan_lld_def)
qed

section \<open>webdl.c\<close>

text \<open>
  The buffer has 1024 bytes, but \<^verbatim>\<open>fread(rbuf, 1, BUFSIZ, fp)\<close> asks for \<open>BUFSIZ\<close>, which is 8192 in the C library: a block of more than 1024
  bytes is written past its end. \<open>fread\<close> delivers full blocks until the end of the stream.
\<close>

definition WEB_BUFSIZE :: nat where "WEB_BUFSIZE = 1024"
definition BUFSIZ :: nat where "BUFSIZ = 8192"

fun webdl_loop :: "string list \<Rightarrow> string \<Rightarrow> (unit, string) outcome" where
  "webdl_loop [] out = Exit 0 out"
| "webdl_loop (b # bs) out = (if length b > WEB_BUFSIZE then Undef out else webdl_loop bs (out @ b))"

definition webdl_main :: "nat \<Rightarrow> bool \<Rightarrow> bool \<Rightarrow> bool \<Rightarrow> string \<Rightarrow> (unit, string) outcome" where
  "webdl_main argc sock conn opened reply =
     (if argc < 2 \<or> \<not> sock \<or> \<not> conn \<or> \<not> opened then Exit 1 [] else webdl_loop (blocks BUFSIZ reply) [])"

section \<open>A child for every connection\<close>

text \<open>
  \<open>basic/server.c\<close>. An event is one turn of the loop: whether \<open>accept\<close> and \<open>fork\<close> succeed, the time, and what \<open>send\<close> does in the child. The
  parent's state: its open descriptors (the sets of numbers), and its children with what each has sent, or that it failed.
  Nobody waits for the children.
\<close>

record turn =
  tr_accept :: "nat option"
  tr_fork :: bool
  tr_time :: int
  tr_send :: "nat option"

record forker =
  fk_open :: "nat list"
  fk_children :: "(string, unit) outcome list"

fun basic_loop :: "turn list \<Rightarrow> forker \<Rightarrow> (unit, forker) outcome" where
  "basic_loop [] s = Blocked s"
| "basic_loop (e # es) s = (case tr_accept e of
      None \<Rightarrow> Exit 1 s
    | Some sd2 \<Rightarrow>
        (let s1 = s\<lparr>fk_open := sd2 # fk_open s\<rparr>
         in if \<not> tr_fork e then Exit 1 s1
            else basic_loop es (s1\<lparr>fk_open := removeAll sd2 (fk_open s1),
              fk_children := fk_children s1 @ [stamp_job (tr_time e) (tr_send e)]\<rparr>)))"

lemma stamp_job_all: "length (fmt_stamp t) \<le> k \<Longrightarrow> stamp_job t (Some k) = Ret (fmt_stamp t) ()"
  by (simp add: stamp_job_def)

text \<open>
  A turn is served when \<open>accept\<close> and \<open>fork\<close> succeed. The server serves turn after turn up to the first that is not, where it leaves with
  status 1; the children it has forked go on.
\<close>

abbreviation turn_served :: "turn \<Rightarrow> bool" where
  "turn_served e \<equiv> tr_accept e \<noteq> None \<and> tr_fork e"

lemma basic_loop_serves:
  assumes "\<forall>e \<in> set es. \<forall>sd2. tr_accept e = Some sd2 \<longrightarrow> sd2 \<notin> set (fk_open s)"
  shows "\<exists>s'. basic_loop es s = (if \<forall>e \<in> set es. turn_served e then Blocked s' else Exit 1 s') \<and>
    fk_children s' = fk_children s @ map (\<lambda>e. stamp_job (tr_time e) (tr_send e)) (takeWhile turn_served es) \<and>
    ((\<forall>e \<in> set es. turn_served e) \<longrightarrow> fk_open s' = fk_open s)"
  using assms
proof (induction es arbitrary: s)
  case (Cons e es)
  show ?case
  proof (cases "turn_served e")
    case True
    then obtain sd2 where a: "tr_accept e = Some sd2" "sd2 \<notin> set (fk_open s)" "tr_fork e" using Cons.prems by auto
    let ?s = "s\<lparr>fk_children := fk_children s @ [stamp_job (tr_time e) (tr_send e)]\<rparr>"
    have "basic_loop (e # es) s = basic_loop es ?s" using a by (simp add: Let_def removeAll_id)
    with Cons.IH [of ?s] Cons.prems a True show ?thesis by simp
  next
    case False
    then show ?thesis by (cases "tr_accept e") (auto simp: Let_def)
  qed
qed simp

text \<open>What the client of a child prints: the time, when the child has sent the whole line; without any line it complains.\<close>

definition shows_stamp :: "(string \<Rightarrow> (unit, string \<times> string) outcome) \<Rightarrow> turn \<Rightarrow> (string, unit) outcome \<Rightarrow> bool" where
  "shows_stamp client e child \<longleftrightarrow> (case tr_send e of
      None \<Rightarrow> child = Exit 1 () \<and> client [] = Exit 0 ([], ''Bad format'' @ [CHR 0x0A])
    | Some k \<Rightarrow> child = Ret (take k (fmt_stamp (tr_time e))) () \<and> (length (fmt_stamp (tr_time e)) \<le> k \<longrightarrow>
        client (take k (fmt_stamp (tr_time e))) = Exit 0 (''stamp = '' @ show_int (tr_time e) @ [CHR 0x0A], [])))"

lemma stamp_job_shows:
  "LLONG_MIN \<le> tr_time e \<Longrightarrow> tr_time e \<le> LLONG_MAX \<Longrightarrow> shows_stamp (client_main 2 True True True) e (stamp_job (tr_time e) (tr_send e))"
  using scan_fmt_stamp [of "tr_time e"] by (auto simp: shows_stamp_def stamp_job_def client_main_def scan_lld_def split: option.splits)

text \<open>A web page of up to 1024 bytes is printed, a longer one overruns the buffer.\<close>

lemma webdl_overruns:
  "webdl_main 2 True True True reply = (if length reply \<le> WEB_BUFSIZE then Exit 0 reply else Undef [])"
proof (cases "reply = []")
  case False
  have b: "blocks BUFSIZ reply = take BUFSIZ reply # blocks BUFSIZ (drop BUFSIZ reply)" using False by (simp add: BUFSIZ_def blocks.simps)
  have n: "blocks BUFSIZ ([] :: string) = []" by (simp add: blocks.simps)
  show ?thesis
  proof (cases "length reply \<le> WEB_BUFSIZE")
    case True
    then have "take BUFSIZ reply = reply" "drop BUFSIZ reply = []" by (simp_all add: WEB_BUFSIZE_def BUFSIZ_def)
    with True b n show ?thesis by (simp add: webdl_main_def)
  next
    case False
    then have "WEB_BUFSIZE < length (take BUFSIZ reply)" by (simp add: WEB_BUFSIZE_def BUFSIZ_def)
    with False b show ?thesis by (simp add: webdl_main_def)
  qed
qed (simp add: webdl_main_def blocks.simps)

section \<open>Four children at one socket\<close>

text \<open>
  \<open>pool_static/server.c\<close>: a child waits in \<open>accept\<close>, serves a connection, or has ended (after a failed \<open>accept\<close> or \<open>send\<close>). Connections are
  numbered in the order of their arrival. The parent forks four children, which run as soon as they exist, and waits for them; when \<open>fork\<close> fails it leaves
  at once, and the children it has stay.
\<close>

definition PROCNUM :: nat where "PROCNUM = 4"

datatype child = Accepting | Serving nat | Ended

datatype static_parent = Forking nat | Awaiting | Left int

record static_st =
  arrived_no :: nat
  backlog :: "nat list"
  taken :: "nat list"
  served :: "nat list"
  failed :: "nat list"
  children :: "child list"
  parent :: static_parent

inductive static_step :: "static_st \<Rightarrow> static_st \<Rightarrow> bool" where
  client_arrives: "static_step s (s\<lparr>backlog := backlog s @ [arrived_no s], arrived_no := arrived_no s + 1\<rparr>)"
| child_accepts: "i < length (children s) \<Longrightarrow> children s ! i = Accepting \<Longrightarrow> backlog s = c # cs \<Longrightarrow>
    static_step s (s\<lparr>backlog := cs, taken := taken s @ [c], children := (children s)[i := Serving c]\<rparr>)"
| accept_fails: "i < length (children s) \<Longrightarrow> children s ! i = Accepting \<Longrightarrow> static_step s (s\<lparr>children := (children s)[i := Ended]\<rparr>)"
| child_serves: "i < length (children s) \<Longrightarrow> children s ! i = Serving c \<Longrightarrow>
    static_step s (s\<lparr>served := served s @ [c], children := (children s)[i := Accepting]\<rparr>)"
| send_fails: "i < length (children s) \<Longrightarrow> children s ! i = Serving c \<Longrightarrow>
    static_step s (s\<lparr>failed := failed s @ [c], children := (children s)[i := Ended]\<rparr>)"
| parent_forks: "parent s = Forking i \<Longrightarrow> i < PROCNUM \<Longrightarrow> static_step s (s\<lparr>children := children s @ [Accepting], parent := Forking (i + 1)\<rparr>)"
| fork_fails: "parent s = Forking i \<Longrightarrow> i < PROCNUM \<Longrightarrow> static_step s (s\<lparr>parent := Left 1\<rparr>)"
| forks_done: "parent s = Forking PROCNUM \<Longrightarrow> static_step s (s\<lparr>parent := Awaiting\<rparr>)"
| parent_leaves: "\<forall>c \<in> set (children s). c = Ended \<Longrightarrow> parent s = Awaiting \<Longrightarrow> static_step s (s\<lparr>parent := Left 0\<rparr>)"

definition static_start :: static_st where
  "static_start = \<lparr>arrived_no = 0, backlog = [], taken = [], served = [], failed = [], children = [], parent = Forking 0\<rparr>"

fun in_hand :: "child \<Rightarrow> nat multiset" where
  "in_hand (Serving c) = {#c#}"
| "in_hand c = {#}"

definition ended_no :: "child list \<Rightarrow> nat" where
  "ended_no cs = sum_list (map (\<lambda>c. if c = Ended then 1 else 0) cs)"

definition parent_ok :: "static_st \<Rightarrow> bool" where
  "parent_ok s \<longleftrightarrow> length (children s) \<le> PROCNUM \<and> (case parent s of
      Forking i \<Rightarrow> length (children s) = i
    | Awaiting \<Rightarrow> length (children s) = PROCNUM
    | Left c \<Rightarrow> c = 0 \<longrightarrow> length (children s) = PROCNUM \<and> (\<forall>k \<in> set (children s). k = Ended))"

definition static_inv :: "static_st \<Rightarrow> bool" where
  "static_inv s \<longleftrightarrow> taken s @ backlog s = [0..<arrived_no s] \<and>
     mset (served s) + mset (failed s) + sum_list (map in_hand (children s)) = mset (taken s) \<and>
     length (failed s) \<le> ended_no (children s) \<and> parent_ok s"

lemma ended_upd: "i < length cs \<Longrightarrow> ended_no (cs[i := c]) + (if cs ! i = Ended then 1 else 0) = ended_no cs + (if c = Ended then 1 else 0)"
  unfolding ended_no_def using sum_list_upd [of i cs "\<lambda>c. if c = Ended then 1 else (0 :: nat)" c] by simp

lemma parent_ok_child: "parent_ok s \<Longrightarrow> i < length (children s) \<Longrightarrow> children s ! i \<noteq> Ended \<Longrightarrow> children s' = (children s)[i := c] \<Longrightarrow>
    parent s' = parent s \<Longrightarrow> parent_ok s'"
  by (auto simp: parent_ok_def split: static_parent.splits)

lemma static_inv_step: "static_step s s' \<Longrightarrow> static_inv s \<Longrightarrow> static_inv s'"
proof (induction rule: static_step.induct)
  case (child_accepts i s c cs)
  with sum_list_upd [of i "children s" in_hand "Serving c"] ended_upd [of i "children s" "Serving c"] show ?case
    by (auto simp: static_inv_def intro: parent_ok_child)
next
  case (accept_fails i s)
  with sum_list_upd [of i "children s" in_hand Ended] ended_upd [of i "children s" Ended] show ?case
    by (auto simp: static_inv_def intro: parent_ok_child)
next
  case (child_serves i s c)
  then have "sum_list (map in_hand (children s)) = sum_list (map in_hand ((children s)[i := Accepting])) + {#c#}"
    using sum_list_upd [of i "children s" in_hand Accepting] by simp
  with child_serves ended_upd [of i "children s" Accepting] show ?case by (auto simp: static_inv_def intro: parent_ok_child)
next
  case (send_fails i s c)
  then have "sum_list (map in_hand (children s)) = sum_list (map in_hand ((children s)[i := Ended])) + {#c#}"
    using sum_list_upd [of i "children s" in_hand Ended] by simp
  with send_fails ended_upd [of i "children s" Ended] show ?case by (auto simp: static_inv_def intro: parent_ok_child)
qed (auto simp: static_inv_def parent_ok_def ended_no_def split: static_parent.splits)

lemma static_inv_reach: "static_step\<^sup>*\<^sup>* static_start s \<Longrightarrow> static_inv s"
proof (induction rule: rtranclp_induct)
  case base
  show ?case by (simp add: static_inv_def static_start_def ended_no_def parent_ok_def)
qed (rule static_inv_step)

lemma all_ended: "ended_no cs = length cs \<Longrightarrow> \<forall>c \<in> set cs. c = Ended"
proof (induction cs)
  case (Cons c cs)
  have "ended_no cs \<le> length cs" unfolding ended_no_def by (induction cs) auto
  with Cons show ?case by (auto simp: ended_no_def split: if_splits)
qed simp

lemma ended_le: "ended_no cs \<le> length cs"
  unfolding ended_no_def by (induction cs) auto

text \<open>With all children gone nothing is accepted any more.\<close>

lemma dead_pool:
  assumes st: "static_step s s'" and i: "static_inv s" and a: "\<forall>c \<in> set (children s). c = Ended" and l: "length (children s) = PROCNUM"
  shows "taken s' = taken s \<and> (\<forall>c \<in> set (children s'). c = Ended) \<and> length (children s') = PROCNUM"
proof -
  have e: "children s ! i = Ended" if "i < length (children s)" for i using a that by simp
  from st show ?thesis by (cases rule: static_step.cases) (use a e i l in \<open>auto simp: static_inv_def parent_ok_def\<close>)
qed

lemma mset_distinct: "mset xs \<subseteq># mset ys \<Longrightarrow> distinct ys \<Longrightarrow> distinct xs"
proof -
  assume a: "mset xs \<subseteq># mset ys" "distinct ys"
  have "count (mset xs) x = (if x \<in> set xs then 1 else 0)" for x
  proof (cases "x \<in> set xs")
    case True
    then have "0 < count (mset xs) x" by simp
    moreover have "count (mset xs) x \<le> count (mset ys) x" using a(1) by (rule mset_subset_eq_count)
    moreover have "count (mset ys) x \<le> 1" using a(2) by (simp add: distinct_count_atmost_1)
    ultimately have "count (mset xs) x = 1" by linarith
    with True show ?thesis by simp
  qed (simp add: count_mset_0_iff)
  then show ?thesis by (simp add: distinct_count_atmost_1)
qed

text \<open>
  C19: The static pool. However clients and children interleave, connections are accepted in the order of their arrival, none
  is served twice, and each accepted one is served, in service or lost by a failed \<open>send\<close>; but a failed \<open>send\<close> costs a child for good:
  at most four connections are ever lost, and after the fourth no connection is accepted any more. All this holds also while the parent
  is still forking and after a failed \<open>fork\<close>, which leaves the pool without a parent; the parent reports success only when four children have ended.
\<close>

theorem static_pool:
  assumes "static_step\<^sup>*\<^sup>* static_start s"
  shows "taken s = [0..<length (taken s)] \<and> distinct (served s) \<and> set (served s) \<subseteq> set (taken s) \<and> length (failed s) \<le> 4 \<and>
    (\<forall>c \<in> set (taken s). c \<in> set (served s) \<or> c \<in> set (failed s) \<or> Serving c \<in> set (children s)) \<and>
    (length (failed s) = 4 \<longrightarrow> (\<forall>s'. static_step\<^sup>*\<^sup>* s s' \<longrightarrow> taken s' = taken s)) \<and>
    (parent s = Left 0 \<longrightarrow> children s = replicate 4 Ended)"
proof -
  note i = static_inv_reach [OF assms]
  have app: "taken s @ backlog s = [0..<arrived_no s]" using i by (simp add: static_inv_def)
  have le: "length (taken s) \<le> arrived_no s" using arg_cong [OF app, of length] by simp
  have tk: "taken s = [0..<length (taken s)]" using arg_cong [OF app, of "take (length (taken s))"] le by (simp add: take_upt)
  have ms: "mset (served s) + mset (failed s) + sum_list (map in_hand (children s)) = mset (taken s)" using i by (simp add: static_inv_def)
  have "distinct (taken s)" by (subst tk) simp
  moreover have subm: "mset (served s) \<subseteq># mset (taken s)" by (simp flip: ms)
  ultimately have d: "distinct (served s)" using mset_distinct by blast
  have sub: "set (served s) \<subseteq> set (taken s)" using set_mset_mono [OF subm] by simp
  have hand: "Serving c \<in> set cs" if "c \<in># sum_list (map in_hand cs)" for c cs
    using that
  proof (induction cs)
    case (Cons a cs)
    then show ?case by (cases a) auto
  qed simp
  have cover: "c \<in> set (served s) \<or> c \<in> set (failed s) \<or> Serving c \<in> set (children s)" if "c \<in> set (taken s)" for c
    using that hand [of c "children s"] arg_cong [OF ms, of set_mset] by auto
  have fl: "length (failed s) \<le> 4" using i ended_le [of "children s"] by (simp add: static_inv_def parent_ok_def PROCNUM_def)
  have dead: "taken s' = taken s" if "length (failed s) = 4" "static_step\<^sup>*\<^sup>* s s'" for s'
  proof -
    have e: "ended_no (children s) = length (children s)" "length (children s) = PROCNUM"
      using that(1) i ended_le [of "children s"] by (auto simp: static_inv_def parent_ok_def PROCNUM_def)
    with that(2) have "taken s' = taken s \<and> (\<forall>c \<in> set (children s'). c = Ended) \<and> length (children s') = PROCNUM \<and> static_inv s'"
    proof (induction rule: rtranclp_induct)
      case (step y z)
      then show ?case using dead_pool [of y z] static_inv_step [of y z] by simp
    qed (use all_ended [of "children s"] i in auto)
    then show ?thesis by simp
  qed
  have left: "parent s = Left 0 \<Longrightarrow> children s = replicate 4 Ended"
    using i by (auto simp: static_inv_def parent_ok_def PROCNUM_def intro: replicate_eqI)
  from tk d sub cover fl dead left show ?thesis by blast
qed

theorem static_pool_witness:
  "\<exists>s. static_step\<^sup>*\<^sup>* static_start s \<and> served s = [0] \<and> parent s = Left 1 \<and> distinct (served s) \<and> length (failed s) \<le> 4"
proof -
  let ?s0 = "static_start\<lparr>children := [Accepting], parent := Forking 1\<rparr>"
  let ?s1 = "?s0\<lparr>backlog := [0], arrived_no := 1\<rparr>"
  let ?s2 = "?s1\<lparr>backlog := [], taken := [0], children := [Serving 0]\<rparr>"
  let ?s3 = "?s2\<lparr>parent := Left 1\<rparr>"
  let ?s4 = "?s3\<lparr>served := [0], children := [Accepting]\<rparr>"
  have "static_step\<^sup>*\<^sup>* static_start ?s0"
    using parent_forks [of static_start 0] by (intro r_into_rtranclp) (simp add: static_start_def PROCNUM_def)
  also have "static_step ?s0 ?s1" using client_arrives [of ?s0] by (simp add: static_start_def)
  also have "static_step ?s1 ?s2" using child_accepts [of 0 ?s1 0 "[]"] by (simp add: static_start_def)
  also have "static_step ?s2 ?s3" using fork_fails [of ?s2 1] by (simp add: static_start_def PROCNUM_def)
  also have "static_step ?s3 ?s4" using child_serves [of 0 ?s3 0] by (simp add: static_start_def)
  finally have r: "static_step\<^sup>*\<^sup>* static_start ?s4" by simp
  from static_pool [OF r] r show ?thesis by (intro exI [of _ ?s4]) simp
qed

end
