(* ===== verification/Chat.thy ===== *)
theory Chat
  imports Memory Stdio
begin

text \<open>
  Programs in which two processes talk line by line: \<open>IPC/socket/Newer/c_s\<close> (a server that forks for each client, and its client) and the chats
  over named pipes, \<open>IPC/pipe/fifo_chat_a.c\<close> with \<open>fifo_chat_b.c\<close>, and \<open>mkfifo_chat.c\<close>.
\<close>

section \<open>Question and answer over a connection\<close>

definition LINE :: nat where "LINE = 1024"

text \<open>
  A blocking \<open>fgets\<close> on a connection: with a newline, or as many characters as fit, or after the peer has closed, it returns (\<open>Some\<close> of
  what \<^term>\<open>next_line\<close> gives); otherwise it waits (\<open>None\<close>).
\<close>

definition await_line :: "bool \<Rightarrow> string \<Rightarrow> (string \<times> string) option option" where
  "await_line eof ch = (if CHR 0x0A \<in> set (take (LINE - 1) ch) \<or> LINE - 1 \<le> length ch \<or> eof then Some (next_line LINE ch) else None)"

definition BYE :: string where "BYE = ''bye'' @ [CHR 0x0A]"
definition OK_LINE :: string where "OK_LINE = ''server send data: ok'' @ [CHR 0x0A]"

abbreviation is_bye :: "string \<Rightarrow> bool" where
  "is_bye l \<equiv> take 3 l = ''bye''"

text \<open>
  The client is at its prompt, waits for the answer (to \<open>bye\<close> or to another line), or has left; the server reads or has left the
  session.
\<close>

datatype asker = Prompt | Await bool | Gone
datatype answerer = Reading | Closed

record talk =
  t_input :: string
  to_server :: string
  to_client :: string
  asker :: asker
  answerer :: answerer
  t_seen :: "string list"
  t_shown :: "string list"

text \<open>\<open>c.c\<close>: one line of input is sent, up to a zero in it; \<open>fgets\<close> at the end of the input leaves an empty buffer, which is sent as nothing.\<close>

fun c_main :: "talk \<Rightarrow> talk option" where
  "c_main s = (case asker s of
      Prompt \<Rightarrow>
        (case (case next_line LINE (t_input s) of None \<Rightarrow> ([], t_input s) | Some p \<Rightarrow> p) of (buf, rest) \<Rightarrow>
          Some (s\<lparr>t_input := rest, to_server := to_server s @ takeWhile (\<lambda>c. c \<noteq> CHR 0x00) buf, asker := Await (is_bye buf)\<rparr>))
    | Await bye \<Rightarrow>
        (case await_line (answerer s = Closed) (to_client s) of
            None \<Rightarrow> None
          | Some None \<Rightarrow> Some (s\<lparr>asker := Gone\<rparr>)
          | Some (Some (l, rest)) \<Rightarrow>
              Some (s\<lparr>to_client := rest, t_shown := t_shown s @ [l], asker := (if bye then Gone else Prompt)\<rparr>))
    | Gone \<Rightarrow> None)"

text \<open>\<open>s.c\<close>: the session loop of the child.\<close>

fun s_session :: "talk \<Rightarrow> talk option" where
  "s_session s = (case answerer s of
      Closed \<Rightarrow> None
    | Reading \<Rightarrow>
        (case await_line (asker s = Gone) (to_server s) of
            None \<Rightarrow> None
          | Some None \<Rightarrow> Some (s\<lparr>answerer := Closed\<rparr>)
          | Some (Some (l, rest)) \<Rightarrow>
              (let s1 = s\<lparr>to_server := rest, t_seen := t_seen s @ [l]\<rparr>
               in Some (if is_bye l then s1\<lparr>to_client := to_client s @ BYE, answerer := Closed\<rparr>
                        else s1\<lparr>to_client := to_client s @ OK_LINE\<rparr>))))"

inductive talk_step :: "talk \<Rightarrow> talk \<Rightarrow> bool" where
  by_client: "c_main s = Some s' \<Longrightarrow> talk_step s s'"
| by_server: "s_session s = Some s' \<Longrightarrow> talk_step s s'"

definition talk_start :: "string \<Rightarrow> talk" where
  "talk_start inp = \<lparr>t_input = inp, to_server = [], to_client = [], asker = Prompt, answerer = Reading, t_seen = [], t_shown = []\<rparr>"

declare c_main.simps [simp del] s_session.simps [simp del]

text \<open>Lines that are typed in one piece.\<close>

definition typed :: "string \<Rightarrow> bool" where
  "typed l \<longleftrightarrow> CHR 0x0A \<notin> set l \<and> CHR 0x00 \<notin> set l \<and> length l + 1 < LINE"

abbreviation nl :: "string \<Rightarrow> string" where
  "nl l \<equiv> l @ [CHR 0x0A]"

lemma await_typed: "typed l \<Longrightarrow> await_line c (nl l @ r) = Some (Some (nl l, r))"
proof -
  assume l: "typed l"
  have "CHR 0x0A \<in> set (take (LINE - 1) (nl l @ r))" using l by (auto simp: typed_def take_Cons')
  with l next_line_line [of l LINE r] show ?thesis by (simp add: await_line_def typed_def)
qed

lemma await_nothing: "await_line False [] = None"
  by (simp add: await_line_def LINE_def)

lemma typed_replies: "typed ''server send data: ok''" "typed ''bye''"
  by (simp_all add: typed_def LINE_def)

lemma await_replies: "await_line c OK_LINE = Some (Some (OK_LINE, []))" "await_line c BYE = Some (Some (BYE, []))"
  using await_typed [OF typed_replies(1), of c "[]"] await_typed [OF typed_replies(2), of c "[]"] by (simp_all add: OK_LINE_def BYE_def)

text \<open>The states of a conversation: before a line, with the line on its way, with the answer on its way.\<close>

definition at_prompt :: "string list \<Rightarrow> string \<Rightarrow> talk" where
  "at_prompt said inp = \<lparr>t_input = inp, to_server = [], to_client = [], asker = Prompt, answerer = Reading,
     t_seen = map nl said, t_shown = replicate (length said) OK_LINE\<rparr>"

definition on_way :: "string list \<Rightarrow> string \<Rightarrow> string \<Rightarrow> talk" where
  "on_way said l inp = (at_prompt said inp)\<lparr>to_server := nl l, asker := Await (is_bye l)\<rparr>"

definition replied :: "string list \<Rightarrow> string \<Rightarrow> string \<Rightarrow> talk" where
  "replied said l inp = (at_prompt said inp)\<lparr>to_client := OK_LINE, asker := Await False, t_seen := map nl (said @ [l])\<rparr>"

definition bye_replied :: "string list \<Rightarrow> string \<Rightarrow> string \<Rightarrow> talk" where
  "bye_replied said l inp = (at_prompt said inp)\<lparr>to_client := BYE, asker := Await True, answerer := Closed, t_seen := map nl (said @ [l])\<rparr>"

definition bye_done :: "string list \<Rightarrow> string \<Rightarrow> string \<Rightarrow> talk" where
  "bye_done said l inp = (at_prompt said inp)\<lparr>asker := Gone, answerer := Closed, t_seen := map nl (said @ [l]),
     t_shown := replicate (length said) OK_LINE @ [BYE]\<rparr>"

definition hung :: "string list \<Rightarrow> talk" where
  "hung said = (at_prompt said [])\<lparr>asker := Await False\<rparr>"

lemmas talk_states = on_way_def replied_def bye_replied_def bye_done_def hung_def at_prompt_def

lemma prompt_moves:
  assumes "typed l"
  shows "talk_step (at_prompt said (nl l @ r)) st \<longleftrightarrow> st = on_way said l r"
proof -
  have z: "takeWhile (\<lambda>c. c \<noteq> CHR 0x00) (nl l) = nl l" using assms by (auto simp: typed_def takeWhile_eq_all_conv)
  have n: "next_line LINE (nl l @ r) = Some (nl l, r)" using assms next_line_line [of l LINE r] by (simp add: typed_def)
  have "c_main (at_prompt said (nl l @ r)) = Some (on_way said l r)"
    using assms n z bye_line [of l] by (simp add: c_main.simps talk_states typed_def)
  moreover have "s_session (at_prompt said (nl l @ r)) = None" by (simp add: s_session.simps talk_states await_nothing)
  ultimately show ?thesis by (auto simp: talk_step.simps)
qed

lemma prompt_at_end: "talk_step (at_prompt said []) st \<longleftrightarrow> st = hung said"
proof -
  have "next_line LINE [] = None" by (simp add: next_line_def fgets_def)
  then have "c_main (at_prompt said []) = Some (hung said)" by (simp add: c_main.simps talk_states)
  moreover have "s_session (at_prompt said []) = None" by (simp add: s_session.simps talk_states await_nothing)
  ultimately show ?thesis by (auto simp: talk_step.simps)
qed

lemma on_way_moves:
  assumes "typed l"
  shows "talk_step (on_way said l r) st \<longleftrightarrow> st = (if is_bye l then bye_replied said l r else replied said l r)"
proof -
  have "c_main (on_way said l r) = None" by (simp add: c_main.simps talk_states await_nothing)
  moreover have "s_session (on_way said l r) = Some (if is_bye l then bye_replied said l r else replied said l r)"
    using await_typed [OF assms, of False "[]"] bye_line [of l] assms by (simp add: s_session.simps talk_states Let_def typed_def)
  ultimately show ?thesis by (auto simp: talk_step.simps)
qed

lemma replied_moves: "talk_step (replied said l r) st \<longleftrightarrow> st = at_prompt (said @ [l]) r"
proof -
  have "c_main (replied said l r) = Some (at_prompt (said @ [l]) r)"
    by (simp add: c_main.simps talk_states await_replies replicate_append_same)
  moreover have "s_session (replied said l r) = None" by (simp add: s_session.simps talk_states await_nothing)
  ultimately show ?thesis by (auto simp: talk_step.simps)
qed

lemma bye_replied_moves: "talk_step (bye_replied said l r) st \<longleftrightarrow> st = bye_done said l r"
proof -
  have "c_main (bye_replied said l r) = Some (bye_done said l r)" by (simp add: c_main.simps talk_states await_replies)
  moreover have "s_session (bye_replied said l r) = None" by (simp add: s_session.simps talk_states)
  ultimately show ?thesis by (auto simp: talk_step.simps)
qed

lemma ends_stuck: "\<not> talk_step (bye_done said l r) st" "\<not> talk_step (hung said) st"
  by (auto simp: talk_step.simps c_main.simps s_session.simps talk_states await_nothing)

lemmas talk_moves = prompt_moves prompt_at_end on_way_moves replied_moves bye_replied_moves ends_stuck

text \<open>
  Where a run can be after \<open>n\<close> steps, for an input of lines that do not begin with \<open>bye\<close>, followed by one that does, or by nothing.
\<close>

definition rest_input :: "string option \<Rightarrow> string \<Rightarrow> string" where
  "rest_input b rest = (case b of None \<Rightarrow> [] | Some l \<Rightarrow> nl l @ rest)"

definition talk_at :: "string list \<Rightarrow> string option \<Rightarrow> string \<Rightarrow> nat \<Rightarrow> talk \<Rightarrow> bool" where
  "talk_at ls b rest n st \<longleftrightarrow>
     (\<exists>d r. ls = d @ r \<and> n = 3 * length d \<and> st = at_prompt d (concat (map nl r) @ rest_input b rest)) \<or>
     (\<exists>d l r. ls = d @ l # r \<and> n = 3 * length d + 1 \<and> st = on_way d l (concat (map nl r) @ rest_input b rest)) \<or>
     (\<exists>d l r. ls = d @ l # r \<and> n = 3 * length d + 2 \<and> st = replied d l (concat (map nl r) @ rest_input b rest)) \<or>
     (case b of None \<Rightarrow> n = 3 * length ls + 1 \<and> st = hung ls
      | Some l \<Rightarrow> n = 3 * length ls + 1 \<and> st = on_way ls l rest \<or> n = 3 * length ls + 2 \<and> st = bye_replied ls l rest \<or>
          n = 3 * length ls + 3 \<and> st = bye_done ls l rest)"

lemma talk_at_step:
  assumes "talk_at ls b rest n st" "talk_step st st'" "\<forall>l \<in> set ls. typed l \<and> \<not> is_bye l" "\<forall>l. b = Some l \<longrightarrow> typed l \<and> is_bye l"
  shows "talk_at ls b rest (Suc n) st'"
proof -
  consider (prompt) d r where "ls = d @ r" "n = 3 * length d" "st = at_prompt d (concat (map nl r) @ rest_input b rest)"
    | (way) d l r where "ls = d @ l # r" "n = 3 * length d + 1" "st = on_way d l (concat (map nl r) @ rest_input b rest)"
    | (repl) d l r where "ls = d @ l # r" "n = 3 * length d + 2" "st = replied d l (concat (map nl r) @ rest_input b rest)"
    | (hung) "st = hung ls"
    | (bye1) l where "b = Some l" "n = 3 * length ls + 1" "st = on_way ls l rest"
    | (bye2) l where "b = Some l" "n = 3 * length ls + 2" "st = bye_replied ls l rest"
    | (bye3) l where "st = bye_done ls l rest"
    using assms(1) unfolding talk_at_def by (cases b) auto
  then show ?thesis
  proof cases
    case prompt
    show ?thesis
    proof (cases r)
      case (Cons l r')
      then have "st' = on_way d l (concat (map nl r') @ rest_input b rest)" using assms(2,3) prompt prompt_moves [of l d] by auto
      with prompt Cons show ?thesis unfolding talk_at_def by auto
    next
      case Nil
      show ?thesis
      proof (cases b)
        case None
        then have "st' = hung ls" using assms(2) prompt Nil by (simp add: rest_input_def prompt_at_end)
        with prompt Nil None show ?thesis by (simp add: talk_at_def)
      next
        case (Some l)
        then have "st' = on_way ls l rest" using assms(2,4) prompt Nil prompt_moves [of l d rest] by (simp add: rest_input_def)
        with prompt Nil Some show ?thesis by (simp add: talk_at_def)
      qed
    qed
  next
    case way
    then have "st' = replied d l (concat (map nl r) @ rest_input b rest)" using assms(2,3) on_way_moves [of l d] by auto
    with way show ?thesis unfolding talk_at_def by auto
  next
    case repl
    then have "st' = at_prompt (d @ [l]) (concat (map nl r) @ rest_input b rest)" using assms(2) replied_moves by simp
    with repl have "\<exists>d r. ls = d @ r \<and> Suc n = 3 * length d \<and> st' = at_prompt d (concat (map nl r) @ rest_input b rest)"
      by (intro exI [of _ "d @ [l]"] exI [of _ r]) simp
    then show ?thesis unfolding talk_at_def by blast
  next
    case bye1
    with assms(2,4) on_way_moves [of l ls rest st'] show ?thesis by (simp add: talk_at_def)
  next
    case bye2
    with assms(2) bye_replied_moves [of ls l rest st'] show ?thesis by (simp add: talk_at_def)
  qed (use assms(2) ends_stuck in auto)
qed

text \<open>
  C10: A conversation between \<open>c.c\<close> and \<open>s.c\<close>. If the input consists of lines of at most 1022 characters of which the last is the first
  that begins with \<open>bye\<close>, every run ends after three steps per line: the server has seen exactly these lines, the client has shown an
  answer to each and the farewell, and both have left. If the input ends without such a line, every run ends with the
  client waiting for an answer to the nothing it has sent and the server waiting for a line.
\<close>

theorem talk_ends:
  assumes "\<forall>l \<in> set ls. typed l \<and> \<not> is_bye l" "\<forall>l. b = Some l \<longrightarrow> typed l \<and> is_bye l"
    and "(talk_step ^^ n) (talk_start (concat (map nl ls) @ (case b of None \<Rightarrow> [] | Some l \<Rightarrow> nl l @ rest))) st"
  shows "n \<le> 3 * length ls + 3 \<and> ((\<nexists>x. talk_step st x) \<longrightarrow>
    (case b of
       None \<Rightarrow> asker st = Await False \<and> answerer st = Reading \<and> t_seen st = map nl ls \<and> t_shown st = replicate (length ls) OK_LINE
     | Some l \<Rightarrow> asker st = Gone \<and> answerer st = Closed \<and> t_seen st = map nl (ls @ [l]) \<and> t_shown st = replicate (length ls) OK_LINE @ [BYE]))"
proof -
  have "talk_at ls b rest n st"
    using assms(3)
  proof (induction n arbitrary: st)
    case 0
    then show ?case by (auto simp: talk_at_def talk_start_def at_prompt_def rest_input_def)
  next
    case (Suc n)
    then obtain st1 where "(talk_step ^^ n) (talk_start (concat (map nl ls) @ (case b of None \<Rightarrow> [] | Some l \<Rightarrow> nl l @ rest))) st1" "talk_step st1 st" by auto
    with Suc.IH talk_at_step [OF _ _ assms(1,2)] show ?case by blast
  qed
  then consider (prompt) d r where "ls = d @ r" "n = 3 * length d" "st = at_prompt d (concat (map nl r) @ rest_input b rest)"
    | (way) d l r where "ls = d @ l # r" "n = 3 * length d + 1" "st = on_way d l (concat (map nl r) @ rest_input b rest)"
    | (repl) d l r where "ls = d @ l # r" "n = 3 * length d + 2" "st = replied d l (concat (map nl r) @ rest_input b rest)"
    | (hung) "b = None" "n = 3 * length ls + 1" "st = hung ls"
    | (bye1) l where "b = Some l" "n = 3 * length ls + 1" "st = on_way ls l rest"
    | (bye2) l where "b = Some l" "n = 3 * length ls + 2" "st = bye_replied ls l rest"
    | (bye3) l where "b = Some l" "n = 3 * length ls + 3" "st = bye_done ls l rest"
    unfolding talk_at_def by (cases b) auto
  then show ?thesis
  proof cases
    case prompt
    have "\<exists>x. talk_step st x"
    proof (cases r)
      case Nil
      with prompt assms(2) prompt_moves show ?thesis by (cases b) (auto simp: rest_input_def prompt_at_end)
    qed (use prompt assms(1) prompt_moves in auto)
    with prompt show ?thesis by simp
  next
    case way
    with assms(1) have "talk_step st (replied d l (concat (map nl r) @ rest_input b rest))" by (simp add: on_way_moves)
    with way show ?thesis by auto
  next
    case repl
    then have "talk_step st (at_prompt (d @ [l]) (concat (map nl r) @ rest_input b rest))" by (simp add: replied_moves)
    with repl show ?thesis by auto
  next
    case hung
    then show ?thesis by (simp add: talk_states)
  next
    case bye1
    with assms(2) have "talk_step st (bye_replied ls l rest)" by (simp add: on_way_moves)
    with bye1 show ?thesis by auto
  next
    case bye2
    then have "talk_step st (bye_done ls l rest)" by (simp add: bye_replied_moves)
    with bye2 show ?thesis by auto
  next
    case bye3
    then show ?thesis by (simp add: talk_states)
  qed
qed

theorem talk_ends_witness:
  "\<exists>st. (talk_step ^^ 3) (talk_start (''bye'' @ [CHR 0x0A])) st \<and> asker st = Gone \<and> t_shown st = [BYE]"
proof -
  have t: "typed ''bye''" by (rule typed_replies)
  have "talk_step (at_prompt [] (nl ''bye'' @ [])) (on_way [] ''bye'' [])" using prompt_moves [OF t, of "[]" "[]"] by simp
  moreover have "talk_step (on_way [] ''bye'' []) (bye_replied [] ''bye'' [])" using on_way_moves [OF t, of "[]" "[]"] by simp
  moreover have "talk_step (bye_replied [] ''bye'' []) (bye_done [] ''bye'' [])" using bye_replied_moves by simp
  ultimately have "(talk_step ^^ 3) (at_prompt [] (nl ''bye'' @ [])) (bye_done [] ''bye'' [])"
    by (auto simp: numeral_3_eq_3 intro!: relcomppI)
  moreover have "at_prompt [] (nl ''bye'' @ []) = talk_start (nl ''bye'')" by (simp add: at_prompt_def talk_start_def)
  ultimately have r: "(talk_step ^^ 3) (talk_start (nl ''bye'')) (bye_done [] ''bye'' [])" by simp
  with talk_ends [of "[]" "Some ''bye''" 3 "[]" "bye_done [] ''bye'' []"] t ends_stuck show ?thesis
    by (intro exI [of _ "bye_done [] ''bye'' []"]) auto
qed

section \<open>Processes of the forking server\<close>

text \<open>
  \<open>main\<close> of \<open>s.c\<close>: a process accepts and forks; the parent goes back to \<open>accept\<close>. The child holds the session, and when it is over it goes
  on with the same loop: there is no \<open>exit\<close> behind the session. The counts are the processes at \<open>accept\<close>, those in a session, the
  sessions that have ended and the processes that have left after an error.
\<close>

record s_family =
  acceptors :: nat
  sessions :: nat
  ended :: nat
  lost :: nat

inductive s_main :: "s_family \<Rightarrow> s_family \<Rightarrow> bool" where
  accept_fork: "0 < acceptors s \<Longrightarrow> s_main s (s\<lparr>sessions := sessions s + 1\<rparr>)"
| session_over: "0 < sessions s \<Longrightarrow> s_main s (s\<lparr>sessions := sessions s - 1, acceptors := acceptors s + 1, ended := ended s + 1\<rparr>)"
| accept_error: "0 < acceptors s \<Longrightarrow> s_main s (s\<lparr>acceptors := acceptors s - 1, lost := lost s + 1\<rparr>)"
| fork_error: "0 < acceptors s \<Longrightarrow> s_main s (s\<lparr>acceptors := acceptors s - 1, lost := lost s + 1\<rparr>)"

definition s_start :: s_family where
  "s_start = \<lparr>acceptors = 1, sessions = 0, ended = 0, lost = 0\<rparr>"

text \<open>Every session that ends leaves one more process at \<open>accept\<close>; none leaves but by an error.\<close>

lemma servers_multiply: "s_main\<^sup>*\<^sup>* s_start s \<Longrightarrow> acceptors s + lost s = 1 + ended s"
proof (induction rule: rtranclp_induct)
  case (step s s')
  from step(2,3) show ?case by (cases rule: s_main.cases) auto
qed (simp add: s_start_def)

section \<open>Chats over named pipes\<close>

definition BUFFER_SIZE :: nat where "BUFFER_SIZE = 256"

text \<open>\<^verbatim>\<open>buffer[strcspn(buffer, "\n")] = '\0'\<close> on what \<open>fgets\<close> delivers.\<close>

definition chomp :: "string \<Rightarrow> string" where
  "chomp l = takeWhile (\<lambda>c. c \<noteq> CHR 0x0A \<and> c \<noteq> CHR 0x00) l"

text \<open>
  The loop of \<open>main\<close> of \<open>fifo_chat_a.c\<close>: \<open>lines\<close> are the results of \<open>fgets\<close>, with whether the write succeeds; \<open>out\<close> is what went
  into the pipe, one element per \<open>write\<close>.
\<close>

fun chat_a :: "(string \<times> bool) list \<Rightarrow> byte list list \<Rightarrow> byte list list" where
  "chat_a [] out = out"
| "chat_a ((l, ok) # ls) out =
     (let buffer = chomp l
      in if buffer = [] then chat_a ls out
         else if buffer = ''exit'' then out
         else if \<not> ok then out
         else chat_a ls (out @ [str_bytes buffer @ [0]]))"

text \<open>The reader thread of \<open>fifo_chat_a.c\<close>: \<open>chunks\<close> are the results of \<open>read\<close>, \<open>None\<close> a failure; the buffer was cleared before.\<close>

fun read_thread :: "byte list option list \<Rightarrow> byte list list \<Rightarrow> byte list list" where
  "read_thread [] shown = shown"
| "read_thread (None # cs) shown = shown"
| "read_thread (Some bs # cs) shown =
     (let b = take (BUFFER_SIZE - 1) bs in if b = [] then shown else read_thread cs (shown @ [cstring b]))"

text \<open>
  \<open>fifo_chat_b.c\<close>: one turn of the loop over \<open>select\<close>, which fails or tells what is ready, with what the calls then deliver.
\<close>

record select_ev =
  sl_ok :: bool
  sl_pipe :: "byte list option option"
  sl_input :: "string option option"
  sl_write :: bool

record chat =
  ch_shown :: "byte list list"
  ch_sent :: "byte list list"

text \<open>\<open>Inl\<close>: the loop is left; \<open>Inr\<close>: it goes on.\<close>

definition chat_b_pipe :: "select_ev \<Rightarrow> chat \<Rightarrow> chat + chat" where
  "chat_b_pipe e s = (case sl_pipe e of
      None \<Rightarrow> Inr s
    | Some None \<Rightarrow> Inl s
    | Some (Some bs) \<Rightarrow> (let b = take (BUFFER_SIZE - 1) bs in if b = [] then Inl s else Inr (s\<lparr>ch_shown := ch_shown s @ [cstring b]\<rparr>)))"

definition chat_b_input :: "select_ev \<Rightarrow> chat \<Rightarrow> chat + chat" where
  "chat_b_input e s = (case sl_input e of
      None \<Rightarrow> Inr s
    | Some None \<Rightarrow> Inl s
    | Some (Some l) \<Rightarrow>
        (let buffer = chomp l
         in if buffer = [] then Inr s
            else if buffer = ''exit'' then Inl s
            else if \<not> sl_write e then Inl s
            else Inr (s\<lparr>ch_sent := ch_sent s @ [str_bytes buffer @ [0]]\<rparr>)))"

fun chat_b :: "select_ev list \<Rightarrow> chat \<Rightarrow> chat" where
  "chat_b [] s = s"
| "chat_b (e # es) s =
     (if \<not> sl_ok e then s
      else (case chat_b_pipe e s of Inl s1 \<Rightarrow> s1 | Inr s1 \<Rightarrow> (case chat_b_input e s1 of Inl s2 \<Rightarrow> s2 | Inr s2 \<Rightarrow> chat_b es s2)))"

text \<open>
  \<open>mkfifo_chat.c\<close> sends without the final zero and ignores the result of \<open>fgets\<close>: at the end of the input the last line is sent again,
  without end. \<open>n\<close> bounds the turns.
\<close>

fun mkfifo_loop :: "nat \<Rightarrow> string list \<Rightarrow> string \<Rightarrow> byte list list \<Rightarrow> (unit, byte list list) outcome" where
  "mkfifo_loop 0 ls buffer out = OutOfFuel out"
| "mkfifo_loop (Suc n) ls buffer out =
     (let b = chomp (case ls of [] \<Rightarrow> buffer | l # _ \<Rightarrow> l)
      in if b = ''exit'' then Ret () out else mkfifo_loop n (tl ls) b (out @ [str_bytes b]))"

text \<open>The reader thread of \<open>mkfifo_chat.c\<close> tells the end of the pipe from a failing \<open>read\<close>.\<close>

datatype reader_end = Disconnected | Read_failed | Reads_on

fun mkfifo_reader :: "byte list option list \<Rightarrow> byte list list \<Rightarrow> byte list list \<times> reader_end" where
  "mkfifo_reader [] shown = (shown, Reads_on)"
| "mkfifo_reader (None # cs) shown = (shown, Read_failed)"
| "mkfifo_reader (Some bs # cs) shown =
     (let b = take (BUFFER_SIZE - 1) bs in if b = [] then (shown, Disconnected) else mkfifo_reader cs (shown @ [cstring b]))"

lemma readers_agree: "fst (mkfifo_reader cs shown) = read_thread cs shown"
  by (induction cs shown rule: mkfifo_reader.induct) (simp_all add: Let_def)

text \<open>
  The main programs, with the names of the pipes that exist: \<open>mkfifo\<close> makes a name, finds it there (\<open>EEXIST\<close>), or fails otherwise; \<open>open\<close>
  succeeds or not. The result is the return value, the names that are left and what was sent.
\<close>

datatype mkfifo_res = Made | There | Not_made

definition A_TO_B :: string where "A_TO_B = ''/tmp/fifo_a_to_b''"
definition B_TO_A :: string where "B_TO_A = ''/tmp/fifo_b_to_a''"

definition mkfifo :: "mkfifo_res \<Rightarrow> string \<Rightarrow> string set \<Rightarrow> string set" where
  "mkfifo m f fs = (if m = Made then insert f fs else fs)"

definition chat_a_main :: "mkfifo_res \<Rightarrow> mkfifo_res \<Rightarrow> bool \<Rightarrow> bool \<Rightarrow> (string \<times> bool) list \<Rightarrow> string set \<Rightarrow> (nat, string set \<times> byte list list) outcome" where
  "chat_a_main m1 m2 w_ok r_ok lines fs =
     (let fs1 = mkfifo m1 A_TO_B (fs - {A_TO_B, B_TO_A}); fs2 = mkfifo m2 B_TO_A fs1
      in if m1 = Not_made then Ret 1 (fs1, [])
         else if m2 = Not_made then Ret 1 (fs2, [])
         else if \<not> w_ok then Ret 1 (fs2, [])
         else if \<not> r_ok then Ret 1 (fs2, [])
         else Ret 0 (fs2 - {A_TO_B, B_TO_A}, chat_a lines []))"

definition chat_b_main :: "mkfifo_res \<Rightarrow> mkfifo_res \<Rightarrow> bool \<Rightarrow> bool \<Rightarrow> select_ev list \<Rightarrow> string set \<Rightarrow> (nat, string set \<times> chat) outcome" where
  "chat_b_main m1 m2 r_ok w_ok evs fs =
     (let fs1 = mkfifo m2 B_TO_A (mkfifo m1 A_TO_B fs); s = \<lparr>ch_shown = [], ch_sent = []\<rparr>
      in if \<not> r_ok then Ret 1 (fs1, s)
         else if \<not> w_ok then Ret 1 (fs1, s)
         else Ret 0 (fs1 - {A_TO_B, B_TO_A}, chat_b evs s))"

definition mkfifo_main :: "mkfifo_res \<Rightarrow> mkfifo_res \<Rightarrow> bool \<Rightarrow> bool \<Rightarrow> nat \<Rightarrow> string list \<Rightarrow> string \<Rightarrow> string set \<Rightarrow> (nat, string set \<times> byte list list) outcome" where
  "mkfifo_main m1 m2 w_ok r_ok n lines buffer fs =
     (let fs1 = mkfifo m1 A_TO_B fs; fs2 = mkfifo m2 B_TO_A fs1
      in if m1 = Not_made then Ret 1 (fs1, [])
         else if m2 = Not_made then Ret 1 (fs2, [])
         else if \<not> w_ok \<or> \<not> r_ok then Ret 1 (fs2, [])
         else (case mkfifo_loop n lines buffer [] of
             Ret _ out \<Rightarrow> Ret 0 (fs2 - {A_TO_B, B_TO_A}, out)
           | OutOfFuel out \<Rightarrow> OutOfFuel (fs2, out)
           | _ \<Rightarrow> Undef (fs2, [])))"

lemma chomp_clean: "0 \<notin> set (str_bytes (chomp l))"
  by (auto simp: str_bytes_def chomp_def of_char_0 dest!: set_takeWhileD)

text \<open>
  \<open>mkfifowrite.c\<close> and \<open>mkfiforead.c\<close>, a pair for one direction. The writer looks at the result of \<open>write\<close> (\<open>oks\<close>) and not at that of \<open>fgets\<close>; the
  pipe's name is removed by the reader.
\<close>

definition MY_FIFO :: string where "MY_FIFO = ''/tmp/my_fifo''"

fun fifo_write_loop :: "bool list \<Rightarrow> string list \<Rightarrow> string \<Rightarrow> byte list list \<Rightarrow> (unit, byte list list) outcome" where
  "fifo_write_loop [] ls buffer out = OutOfFuel out"
| "fifo_write_loop (ok # oks) ls buffer out =
     (let b = chomp (case ls of [] \<Rightarrow> buffer | l # _ \<Rightarrow> l)
      in if b = ''exit'' then Ret () out
         else if \<not> ok then Ret () out
         else fifo_write_loop oks (tl ls) b (out @ [str_bytes b]))"

definition mkfifowrite_main :: "mkfifo_res \<Rightarrow> bool \<Rightarrow> bool list \<Rightarrow> string list \<Rightarrow> string \<Rightarrow> string set \<Rightarrow> (nat, string set \<times> byte list list) outcome" where
  "mkfifowrite_main m opened oks lines buffer fs =
     (let fs1 = mkfifo m MY_FIFO fs
      in if m = Not_made then Ret 1 (fs1, [])
         else if \<not> opened then Ret 1 (fs1, [])
         else (case fifo_write_loop oks lines buffer [] of
             Ret _ out \<Rightarrow> Ret 0 (fs1, out)
           | OutOfFuel out \<Rightarrow> OutOfFuel (fs1, out)
           | _ \<Rightarrow> Undef (fs1, [])))"

definition mkfiforead_main :: "mkfifo_res \<Rightarrow> bool \<Rightarrow> byte list option list \<Rightarrow> string set \<Rightarrow> (nat, string set \<times> byte list list) outcome" where
  "mkfiforead_main m opened chunks fs =
     (let fs1 = mkfifo m MY_FIFO fs
      in if m = Not_made then Ret 1 (fs1, [])
         else if \<not> opened then Ret 1 (fs1, [])
         else (case mkfifo_reader chunks [] of
             (shown, Reads_on) \<Rightarrow> Blocked (fs1, shown)
           | (shown, _) \<Rightarrow> Ret 0 (fs1 - {MY_FIFO}, shown)))"

text \<open>
  The writer sends its lines without a final zero, so the reader shows exactly what each \<open>read\<close> delivers: all text arrives, but messages that
  pile up run together.
\<close>

lemma fifo_write_lines:
  assumes "\<forall>l \<in> set ls. chomp l \<noteq> ''exit''" "chomp x = ''exit''"
  shows "fifo_write_loop (replicate (Suc (length ls)) True) (ls @ [x]) buffer out = Ret () (out @ map (\<lambda>l. str_bytes (chomp l)) ls)"
  using assms(1)
proof (induction ls arbitrary: buffer out)
  case Nil
  then show ?case using assms(2) by simp
next
  case (Cons l ls)
  then show ?case by (simp add: Let_def)
qed

lemma mkfifo_reader_text:
  assumes "\<forall>c \<in> set cs. c \<noteq> [] \<and> 0 \<notin> set c \<and> length c < BUFFER_SIZE"
  shows "mkfifo_reader (map Some cs @ [Some []]) shown = (shown @ cs, Disconnected)"
  using assms
proof (induction cs arbitrary: shown)
  case (Cons c cs)
  then have "take (BUFFER_SIZE - 1) c = c" "cstring c = c" by (auto simp: BUFFER_SIZE_def cstring_def takeWhile_eq_all_conv)
  with Cons show ?case by (simp add: Let_def)
qed (simp add: Let_def)

lemma one_way_text:
  assumes "concat cs = concat (map (\<lambda>l. str_bytes (chomp l)) ls)" "\<forall>c \<in> set cs. c \<noteq> [] \<and> length c < BUFFER_SIZE"
    and "\<forall>l \<in> set ls. chomp l \<noteq> ''exit''" "chomp x = ''exit''"
  shows "\<exists>out shown. mkfifowrite_main Made True (replicate (Suc (length ls)) True) (ls @ [x]) buffer {} = Ret 0 ({MY_FIFO}, out) \<and>
    mkfiforead_main There True (map Some cs @ [Some []]) {MY_FIFO} = Ret 0 ({}, shown) \<and> concat shown = concat out"
proof -
  have "0 \<notin> set (concat cs)" unfolding assms(1) using chomp_clean by auto
  then have "\<forall>c \<in> set cs. c \<noteq> [] \<and> 0 \<notin> set c \<and> length c < BUFFER_SIZE" using assms(2) by auto
  from mkfifo_reader_text [OF this, of "[]"] have "mkfiforead_main There True (map Some cs @ [Some []]) {MY_FIFO} = Ret 0 ({}, cs)"
    by (simp add: mkfiforead_main_def mkfifo_def)
  moreover have "mkfifowrite_main Made True (replicate (Suc (length ls)) True) (ls @ [x]) buffer {} = Ret 0 ({MY_FIFO}, map (\<lambda>l. str_bytes (chomp l)) ls)"
    unfolding mkfifowrite_main_def fifo_write_lines [OF assms(3,4)] by (simp add: mkfifo_def)
  ultimately show ?thesis using assms(1) by simp
qed

text \<open>
  A chat that was opened removes both names, as the comment on cleaning up says; \<open>fifo_chat_a.c\<close> always begins with fresh pipes. A chat
  whose pipes do not open leaves behind the names it has made.
\<close>

lemma chats_clean_up:
  "chat_a_main m1 m2 w_ok r_ok lines fs = Ret 0 (fs', out) \<Longrightarrow> fs' = fs - {A_TO_B, B_TO_A} \<and> out = chat_a lines []"
  "chat_b_main m1 m2 r_ok w_ok evs fs = Ret 0 (fs', s) \<Longrightarrow> fs' = fs - {A_TO_B, B_TO_A}"
  "mkfifo_main m1 m2 w_ok r_ok n ls buffer fs = Ret 0 (fs', out) \<Longrightarrow> fs' = fs - {A_TO_B, B_TO_A}"
  "chat_a_main Made Made False r_ok lines fs = Ret 1 (insert B_TO_A (insert A_TO_B fs), [])"
  by (auto simp: chat_a_main_def chat_b_main_def mkfifo_main_def mkfifo_def Let_def split: if_splits outcome.splits)

text \<open>An ended input never ends \<open>mkfifo_chat.c\<close>: it does not return with however many turns.\<close>

lemma mkfifo_main_runs_on:
  "chomp b = b \<Longrightarrow> b \<noteq> ''exit'' \<Longrightarrow> mkfifo_main Made Made True True n [] b {} = OutOfFuel ({A_TO_B, B_TO_A}, replicate n (str_bytes b))"
proof -
  assume a: "chomp b = b" "b \<noteq> ''exit''"
  have "mkfifo_loop n [] b out = OutOfFuel (out @ replicate n (str_bytes b))" for out
    using a by (induction n arbitrary: out) (simp_all add: Let_def replicate_append_same)
  then show ?thesis by (auto simp: mkfifo_main_def mkfifo_def Let_def)
qed

lemma chomp_idem [simp]: "chomp (chomp l) = chomp l"
  by (simp add: chomp_def takeWhile_idem)

text \<open>The messages typed before \<open>exit\<close>.\<close>

definition messages :: "string list \<Rightarrow> string list" where
  "messages ls = filter (\<lambda>m. m \<noteq> []) (takeWhile (\<lambda>m. m \<noteq> ''exit'') (map chomp ls))"

lemma chat_a_sends: "chat_a (map (\<lambda>l. (l, True)) ls) out = out @ map (\<lambda>m. str_bytes m @ [0]) (messages ls)"
  by (induction ls arbitrary: out) (auto simp: messages_def Let_def)

lemma cstring_group: "0 \<notin> set (str_bytes m) \<Longrightarrow> cstring (str_bytes m @ 0 # r) = str_bytes m"
  by (simp add: cstring_def takeWhile_zero)

lemma messages_clean: "m \<in> set (messages ls) \<Longrightarrow> 0 \<notin> set (str_bytes m) \<and> m \<noteq> []"
  using chomp_clean by (auto simp: messages_def dest!: set_takeWhileD)

text \<open>The reader shows the first message of each chunk it reads.\<close>

lemma read_thread_groups:
  assumes "\<forall>g \<in> set gs. g \<noteq> [] \<and> (\<forall>m \<in> set g. 0 \<notin> set (str_bytes m) \<and> m \<noteq> []) \<and> length (concat (map (\<lambda>m. str_bytes m @ [0]) g)) < BUFFER_SIZE"
  shows "read_thread (map (\<lambda>g. Some (concat (map (\<lambda>m. str_bytes m @ [0]) g))) gs) shown = shown @ map (\<lambda>g. str_bytes (hd g)) gs"
  using assms
proof (induction gs arbitrary: shown)
  case (Cons g gs)
  then obtain m ms where g: "g = m # ms" by (cases g) auto
  let ?c = "concat (map (\<lambda>m. str_bytes m @ [0]) g)"
  have "take (BUFFER_SIZE - 1) ?c = ?c" using Cons.prems by (auto simp: BUFFER_SIZE_def)
  moreover have "?c = str_bytes m @ 0 # concat (map (\<lambda>m. str_bytes m @ [0]) ms)" using g by simp
  moreover have "0 \<notin> set (str_bytes m)" using Cons.prems g by simp
  ultimately have "read_thread (map (\<lambda>g. Some (concat (map (\<lambda>m. str_bytes m @ [0]) g))) (g # gs)) shown =
      read_thread (map (\<lambda>g. Some (concat (map (\<lambda>m. str_bytes m @ [0]) g))) gs) (shown @ [str_bytes m])"
    by (simp add: Let_def cstring_group)
  with Cons.IH [of "shown @ [str_bytes m]"] Cons.prems g show ?case by simp
qed simp

text \<open>
  Both programs show and send the same: \<open>fifo_chat_b.c\<close>, on turns with only the pipe ready, shows what the reader thread shows, and on
  turns with only the input ready it sends what \<open>fifo_chat_a.c\<close> sends.
\<close>

lemma chat_b_reads:
  "ch_shown (chat_b (map (\<lambda>c. \<lparr>sl_ok = True, sl_pipe = Some c, sl_input = None, sl_write = True\<rparr>) cs) s) = read_thread cs (ch_shown s)"
proof (induction cs arbitrary: s)
  case (Cons c cs)
  then show ?case by (cases c) (auto simp: chat_b_pipe_def chat_b_input_def Let_def)
qed simp

lemma chat_b_sends:
  "ch_sent (chat_b (map (\<lambda>(l, ok). \<lparr>sl_ok = True, sl_pipe = None, sl_input = Some (Some l), sl_write = ok\<rparr>) ls) s) = chat_a ls (ch_sent s)"
proof (induction ls arbitrary: s)
  case (Cons l ls)
  then show ?case by (cases l) (auto simp: chat_b_pipe_def chat_b_input_def Let_def)
qed simp

text \<open>
  The chat over pipes. The sender writes every non-empty line up to \<open>exit\<close>, each with a final zero. The other side shows what a
  \<open>read\<close> delivers up to the first zero: if each \<open>read\<close> gets one message, all messages are shown in order; if messages pile up and one
  \<open>read\<close> gets several of them, only the first of these is shown and the others are lost.
\<close>

theorem fifo_chat_shows:
  assumes "concat gs = messages ls"
    and "\<forall>g \<in> set gs. g \<noteq> [] \<and> length (concat (map (\<lambda>m. str_bytes m @ [0]) g)) < BUFFER_SIZE"
  shows "concat (chat_a (map (\<lambda>l. (l, True)) ls) []) = concat (map (\<lambda>g. concat (map (\<lambda>m. str_bytes m @ [0]) g)) gs) \<and>
    read_thread (map (\<lambda>g. Some (concat (map (\<lambda>m. str_bytes m @ [0]) g))) gs) [] = map (\<lambda>g. str_bytes (hd g)) gs \<and>
    ((\<forall>g \<in> set gs. length g = 1) \<longrightarrow> map (\<lambda>g. str_bytes (hd g)) gs = map str_bytes (messages ls))"
proof (intro conjI impI)
  show "concat (chat_a (map (\<lambda>l. (l, True)) ls) []) = concat (map (\<lambda>g. concat (map (\<lambda>m. str_bytes m @ [0]) g)) gs)"
    unfolding chat_a_sends assms(1) [symmetric] by (induction gs) auto
  have "0 \<notin> set (str_bytes m) \<and> m \<noteq> []" if "g \<in> set gs" "m \<in> set g" for g m
    using that assms(1) messages_clean [of m ls] by (metis UN_I set_concat)
  then show "read_thread (map (\<lambda>g. Some (concat (map (\<lambda>m. str_bytes m @ [0]) g))) gs) [] = map (\<lambda>g. str_bytes (hd g)) gs"
    using assms(2) read_thread_groups [of gs "[]"] by simp
  assume "\<forall>g \<in> set gs. length g = 1"
  then show "map (\<lambda>g. str_bytes (hd g)) gs = map str_bytes (messages ls)"
    unfolding assms(1) [symmetric]
  proof (induction gs)
    case (Cons g gs)
    then show ?case by (cases g) auto
  qed simp
qed

theorem fifo_chat_shows_witness:
  "read_thread [Some (str_bytes ''a'' @ [0] @ str_bytes ''b'' @ [0])] [] = [str_bytes ''a'']"
  using fifo_chat_shows [of "[[''a'', ''b'']]" "[''a'', ''b'', ''exit'']"]
  by (simp add: messages_def chomp_def str_bytes_def BUFFER_SIZE_def)

end
