(* ===== verification/Sockets.thy ===== *)
theory Sockets
  imports Prelude
begin

text \<open>
  The calls with which a server gets a socket that clients can reach: \<open>socket\<close>, \<open>setsockopt\<close> with \<open>SO_REUSEADDR\<close>, \<open>bind\<close>, \<open>listen\<close>. A
  program checks the result of such a call, or does not. The locale \<open>checked_server\<close> is what a set-up promises that checks all that matters.
\<close>

section \<open>The host\<close>

text \<open>
  A socket is new, bound to a port, or listens on a port with a limit of waiting connections. The host knows the ports of other
  programs and those that linger after a closed connection, which only a socket with \<open>SO_REUSEADDR\<close> can be bound to. \<open>grants\<close> says which calls
  succeed if nothing else is against it. \<open>sock\<close> is the program's socket and whether the option is set; \<open>says\<close> are the
  messages of \<open>perror\<close>. A socket that listens without having been bound gets a free port, \<open>spare_port\<close>.
\<close>

datatype sock_state = Fresh | Bound nat | Listening nat nat

datatype sys_call = Socket | Setsockopt | Bind | Listen | Mmap

record host =
  in_use :: "nat list"
  lingering :: "nat list"
  spare_port :: nat
  grants :: "sys_call \<Rightarrow> bool"
  sock :: "(sock_state \<times> bool) option"
  says :: "string list"

definition sys_socket :: "host \<Rightarrow> host option" where
  "sys_socket h = (if grants h Socket then Some (h\<lparr>sock := Some (Fresh, False)\<rparr>) else None)"

definition sys_reuse :: "host \<Rightarrow> host option" where
  "sys_reuse h = (case sock h of
      None \<Rightarrow> None
    | Some (st, r) \<Rightarrow> if grants h Setsockopt then Some (h\<lparr>sock := Some (st, True)\<rparr>) else None)"

definition sys_bind :: "nat \<Rightarrow> host \<Rightarrow> host option" where
  "sys_bind p h = (case sock h of
      Some (Fresh, r) \<Rightarrow>
        if grants h Bind \<and> p \<notin> set (in_use h) \<and> (p \<in> set (lingering h) \<longrightarrow> r) then Some (h\<lparr>sock := Some (Bound p, r)\<rparr>) else None
    | _ \<Rightarrow> None)"

definition sys_listen :: "nat \<Rightarrow> host \<Rightarrow> host option" where
  "sys_listen b h = (if \<not> grants h Listen then None else (case sock h of
      None \<Rightarrow> None
    | Some (Fresh, r) \<Rightarrow> Some (h\<lparr>sock := Some (Listening (spare_port h) b, r)\<rparr>)
    | Some (Bound p, r) \<Rightarrow> Some (h\<lparr>sock := Some (Listening p b, r)\<rparr>)
    | Some (Listening p _, r) \<Rightarrow> Some (h\<lparr>sock := Some (Listening p b, r)\<rparr>)))"

lemmas sock_defs = sys_socket_def sys_reuse_def sys_bind_def sys_listen_def

section \<open>Calls in a program\<close>

text \<open>
  \<open>must\<close>: after a failure the program prints a message and leaves with status 1; \<open>must_close\<close> closes the socket before. \<open>just\<close>:
  the result is not looked at.
\<close>

definition must :: "string \<Rightarrow> (host \<Rightarrow> host option) \<Rightarrow> host \<Rightarrow> (unit, host) outcome" where
  "must name f h = (case f h of Some h' \<Rightarrow> Ret () h' | None \<Rightarrow> Exit 1 (h\<lparr>says := says h @ [name]\<rparr>))"

definition must_close :: "string \<Rightarrow> (host \<Rightarrow> host option) \<Rightarrow> host \<Rightarrow> (unit, host) outcome" where
  "must_close name f h = (case f h of Some h' \<Rightarrow> Ret () h' | None \<Rightarrow> Exit 1 (h\<lparr>says := says h @ [name], sock := None\<rparr>))"

definition just :: "(host \<Rightarrow> host option) \<Rightarrow> host \<Rightarrow> (unit, host) outcome" where
  "just f h = Ret () (case f h of Some h' \<Rightarrow> h' | None \<Rightarrow> h)"

lemmas call_defs = must_def must_close_def just_def

fun run_calls :: "(host \<Rightarrow> (unit, host) outcome) list \<Rightarrow> host \<Rightarrow> (unit, host) outcome" where
  "run_calls [] h = Ret () h"
| "run_calls (c # cs) h = bind_outcome (c h) (\<lambda>_. run_calls cs)"

text \<open>A program that sets its socket up and then runs; the state of the second part is \<open>w\<close> as long as it has not begun.\<close>

fun after_setup :: "(unit, host) outcome \<Rightarrow> 'w \<Rightarrow> ('a, 'w) outcome \<Rightarrow> ('a, host \<times> 'w) outcome" where
  "after_setup (Ret _ h) w r = map_outcome (\<lambda>a. a) (Pair h) r"
| "after_setup (Exit c h) w r = Exit c (h, w)"
| "after_setup (Abort h) w r = Abort (h, w)"
| "after_setup (Blocked h) w r = Blocked (h, w)"
| "after_setup (OutOfFuel h) w r = OutOfFuel (h, w)"
| "after_setup (Undef h) w r = Undef (h, w)"

text \<open>Clients of the port \<open>p\<close> reach the program; nothing stands against a server on \<open>p\<close>.\<close>

definition reached_at :: "nat \<Rightarrow> host \<Rightarrow> bool" where
  "reached_at p h \<longleftrightarrow> (case sock h of Some (Listening q _, _) \<Rightarrow> q = p | _ \<Rightarrow> False)"

definition all_granted :: "nat \<Rightarrow> host \<Rightarrow> bool" where
  "all_granted p h \<longleftrightarrow> (\<forall>c \<in> {Socket, Setsockopt, Bind, Listen, Mmap}. grants h c) \<and> p \<notin> set (in_use h)"

section \<open>Set-ups that check\<close>

locale checked_server =
  fixes set_up :: "host \<Rightarrow> (unit, host) outcome" and port :: nat
  assumes comes_up: "all_granted port h \<Longrightarrow> \<exists>h'. set_up h = Ret () h' \<and> says h' = says h"
    and listens: "set_up h = Ret () h' \<Longrightarrow> reached_at port h' \<and> port \<notin> set (in_use h)"
    and reports: "sock h = None \<Longrightarrow> (\<exists>h'. set_up h = Ret () h') \<or> (\<exists>h' m. set_up h = Exit 1 h' \<and> says h' = says h @ [m] \<and> \<not> reached_at port h')"
begin

text \<open>
  A program with such a set-up runs only when clients reach it at its port. Otherwise it leaves with status 1 and one message,
  and what follows the set-up has not begun.
\<close>

lemma runs_or_reports:
  assumes "sock h = None"
  shows "(\<exists>h'. reached_at port h' \<and> port \<notin> set (in_use h) \<and> after_setup (set_up h) w r = map_outcome (\<lambda>a. a) (Pair h') r) \<or>
   (\<exists>h' m. after_setup (set_up h) w r = Exit 1 (h', w) \<and> says h' = says h @ [m] \<and> \<not> reached_at port h')"
proof (cases "\<exists>h'. set_up h = Ret () h'")
  case True
  then obtain h' where "set_up h = Ret () h'" by blast
  with listens [of h h'] show ?thesis by auto
next
  case False
  with reports [of h] assms show ?thesis by auto
qed

lemma runs:
  assumes "all_granted port h"
  shows "\<exists>h'. reached_at port h' \<and> says h' = says h \<and> after_setup (set_up h) w r = map_outcome (\<lambda>a. a) (Pair h') r"
proof -
  from comes_up [OF assms] obtain h' where "set_up h = Ret () h'" "says h' = says h" by blast
  with listens [of h h'] show ?thesis by auto
qed

lemma port_taken:
  assumes "sock h = None" "port \<in> set (in_use h)"
  shows "\<exists>h' m. after_setup (set_up h) w r = Exit 1 (h', w) \<and> says h' = says h @ [m]"
  using runs_or_reports [OF assms(1), of w r] assms(2) by blast

end

lemmas set_up_simps = call_defs sock_defs reached_at_def all_granted_def

end
