(* ===== verification/Servers.thy ===== *)
theory Servers
  imports Sockets Stamp_Service Prefork Socket_Server Filecopy Chat Datagram
begin

text \<open>
  The main programs of the servers, from the first call to the loop that serves. Three of them check every call of the
  set-up (\<open>IPC/socket/stream\<close>), \<open>IPC/socket/Newer/c_s/s.c\<close> all but the option; \<open>IPC/socket/Newer/server.c\<close>, \<open>IO/FileIO/filecopy/server.c\<close> and
  \<open>IPC/socket/Newer/DGRAM/recv.c\<close> do not look at the result of \<open>bind\<close>.
\<close>

section \<open>Set-up of the time servers\<close>

definition SERVERPORT :: string where "SERVERPORT = ''1988''"

definition stamp_port :: nat where "stamp_port = nat (atoi SERVERPORT)"

definition basic_setup :: "host \<Rightarrow> (unit, host) outcome" where
  "basic_setup = run_calls [must ''socket()'' sys_socket, must ''setsockopt()'' sys_reuse,
     must ''bind()'' (sys_bind stamp_port), must ''listen()'' (sys_listen 200)]"

definition static_setup :: "host \<Rightarrow> (unit, host) outcome" where
  "static_setup = run_calls [must ''socket()'' sys_socket, must ''setsockopt()'' sys_reuse,
     must ''bind()'' (sys_bind stamp_port), must ''listen()'' (sys_listen 200)]"

text \<open>The preforking server maps the shared table first. Anonymous memory has no effect on the socket.\<close>

definition sys_mmap :: "host \<Rightarrow> host option" where
  "sys_mmap h = (if grants h Mmap then Some h else None)"

definition pf_setup :: "host \<Rightarrow> (unit, host) outcome" where
  "pf_setup = run_calls [must ''mmap()'' sys_mmap, must ''socket()'' sys_socket, must ''setsockopt()'' sys_reuse,
     must ''bind()'' (sys_bind stamp_port), must ''listen()'' (sys_listen 100)]"

text \<open>
  Its signals: children that end are not kept, the notification of a child has an empty handler and is blocked; the old mask
  is the one that \<open>sigsuspend\<close> waits with.
\<close>

datatype pf_signal = SIGCHLD | SIG_NOTIFY

datatype disposition = SIG_DFL | SIG_IGN_nowait | Usr2_handler

record sig_env =
  sig_action :: "pf_signal \<Rightarrow> disposition"
  sig_mask :: "pf_signal \<Rightarrow> bool"

definition pf_signals :: "sig_env \<Rightarrow> sig_env \<times> (pf_signal \<Rightarrow> bool)" where
  "pf_signals e =
     (let e1 = e\<lparr>sig_action := (sig_action e)(SIGCHLD := SIG_IGN_nowait)\<rparr>;
          e2 = e1\<lparr>sig_action := (sig_action e1)(SIG_NOTIFY := Usr2_handler)\<rparr>
      in (e2\<lparr>sig_mask := (sig_mask e2)(SIG_NOTIFY := True)\<rparr>, sig_mask e2))"

text \<open>A notification is never delivered outside of \<open>sigsuspend\<close>, never kills the server, and ends \<open>sigsuspend\<close> if it was not blocked from the start.\<close>

lemma pf_notified:
  "pf_signals e = (e', oldset) \<Longrightarrow>
     sig_mask e' SIG_NOTIFY \<and> sig_action e' SIG_NOTIFY = Usr2_handler \<and> sig_action e' SIGCHLD = SIG_IGN_nowait \<and>
     oldset SIG_NOTIFY = sig_mask e SIG_NOTIFY"
  by (auto simp: pf_signals_def Let_def)

interpretation bsc: checked_server basic_setup stamp_port
  by unfold_locales (auto simp: basic_setup_def set_up_simps split: if_splits)

interpretation stc: checked_server static_setup stamp_port
  by unfold_locales (auto simp: static_setup_def set_up_simps split: if_splits)

interpretation pfk: checked_server pf_setup stamp_port
  by unfold_locales (auto simp: pf_setup_def sys_mmap_def set_up_simps split: if_splits)

section \<open>Set-up of the other servers\<close>

definition CS_PORT :: nat where "CS_PORT = 1900"

definition cs_setup :: "host \<Rightarrow> (unit, host) outcome" where
  "cs_setup = run_calls [must ''socket()'' sys_socket, just sys_reuse,
     must_close ''bind()'' (sys_bind CS_PORT), must_close ''listen()'' (sys_listen 10)]"

interpretation csv: checked_server cs_setup CS_PORT
  by unfold_locales (auto simp: cs_setup_def set_up_simps split: if_splits option.splits)

definition POOL_PORT :: nat where "POOL_PORT = 9000"

definition newer_setup :: "host \<Rightarrow> (unit, host) outcome" where
  "newer_setup = run_calls [must ''socket()'' sys_socket, just sys_reuse, just (sys_bind POOL_PORT), just (sys_listen 9)]"

definition SERV_PORT :: nat where "SERV_PORT = 1900"
definition MAX_CONNECTION :: nat where "MAX_CONNECTION = 5"

definition fc_setup :: "host \<Rightarrow> (unit, host) outcome" where
  "fc_setup = run_calls [must ''socket()'' sys_socket, just sys_reuse, just (sys_bind SERV_PORT), just (sys_listen MAX_CONNECTION)]"

definition RECV_PORT :: nat where "RECV_PORT = 1900"

definition recv_setup :: "host \<Rightarrow> (unit, host) outcome" where
  "recv_setup = run_calls [just sys_socket, just sys_reuse, just (sys_bind RECV_PORT)]"

section \<open>The main programs\<close>

text \<open>
  Programs with one thread of control are run on a script; for the others the result is the state in which their step relation
  starts. \<open>sd\<close> is the number of the listening socket.
\<close>

definition basic_server_main :: "nat \<Rightarrow> turn list \<Rightarrow> host \<Rightarrow> (unit, host \<times> forker) outcome" where
  "basic_server_main sd es h = after_setup (basic_setup h) \<lparr>fk_open = [], fk_children = []\<rparr> (basic_loop es \<lparr>fk_open = [sd], fk_children = []\<rparr>)"

definition static_server_main :: "host \<Rightarrow> (static_st, host \<times> unit) outcome" where
  "static_server_main h = after_setup (static_setup h) () (Ret static_start ())"

definition pf_server_main :: "(nat \<Rightarrow> int) \<Rightarrow> host \<Rightarrow> (pf_pc \<times> prefork, host \<times> unit) outcome" where
  "pf_server_main f h = after_setup (pf_setup h) () (Ret (pf_start f) ())"

definition cs_server_main :: "host \<Rightarrow> (s_family, host \<times> unit) outcome" where
  "cs_server_main h = after_setup (cs_setup h) () (Ret s_start ())"

definition newer_server_main :: "world \<Rightarrow> host \<Rightarrow> (srv_thread list \<times> server, host \<times> unit) outcome" where
  "newer_server_main w h = after_setup (newer_setup h) () (Ret (srv_start w) ())"

definition fc_server_main :: "('c, byte) digest \<Rightarrow> fc_conn option list \<Rightarrow> fc_files \<Rightarrow> host \<Rightarrow> (unit, host \<times> fc_files) outcome" where
  "fc_server_main dg cs fs h = after_setup (fc_setup h) fs (fc_server dg cs fs)"

text \<open>
  \<open>recv.c\<close>: without a socket \<open>recvfrom\<close> fails; a socket that is not bound to the port receives nothing.
\<close>

definition recv_main :: "byte list option list \<Rightarrow> byte list \<Rightarrow> host \<Rightarrow> (byte list list, host \<times> byte list) outcome" where
  "recv_main ds buf h = (case recv_setup h of
      Ret _ h' \<Rightarrow> after_setup (Ret () h') buf (case sock h' of
          None \<Rightarrow> bind_outcome (recv_turn None buf) (\<lambda>t. Ret [t])
        | Some (Bound p, r) \<Rightarrow> recv_turns ds buf
        | Some _ \<Rightarrow> Blocked buf)
    | r \<Rightarrow> after_setup r buf (Blocked buf))"

section \<open>From start to service\<close>

lemma stamp_port: "stamp_port = 1988"
  by (simp add: stamp_port_def SERVERPORT_def atoi_def c_space_def c_digit_def read_nat_def)

lemma basic_setup_grants:
  "(\<exists>h'. basic_setup h = Ret () h' \<and> says h' = says h) \<longleftrightarrow> 1988 \<notin> set (in_use h) \<and> (\<forall>c \<in> {Socket, Setsockopt, Bind, Listen}. grants h c)"
  "basic_setup h = Ret () h' \<Longrightarrow> says h' = says h"
  by (auto simp: basic_setup_def stamp_port set_up_simps split: if_splits)

text \<open>
  C40: The forking time server as a whole, for every sequence of turns of its loop (each with the results of \<open>accept\<close>, \<open>fork\<close>, \<open>time\<close> and \<open>send\<close>; the time fits in
  64 bits and \<open>accept\<close> returns a new descriptor). When nobody uses port 1988 and the four calls of the set-up are granted, no message is printed by the set-up and
  there is one child for each turn up to the first in which \<open>accept\<close> or \<open>fork\<close> fails. If there is such a turn, the server leaves with status 1, and the later clients are not
  served; otherwise it ends up waiting at \<open>accept\<close> with its listening socket as only descriptor. A child that has sent its whole line has its client, connected to port 1988,
  print the time the child has read; a \<open>send\<close> that transmits less delivers the part; one that fails ends the child with status 1, and its client prints \<open>Bad format\<close>. When the port is
  in use or a call of the set-up fails, the server leaves with status 1 and one message before it has accepted anything.
\<close>

theorem time_server:
  assumes "sock h = None"
    and "\<forall>e \<in> set es. tr_accept e \<noteq> Some sd \<and> LLONG_MIN \<le> tr_time e \<and> tr_time e \<le> LLONG_MAX"
    and "srv = takeWhile (\<lambda>e. tr_accept e \<noteq> None \<and> tr_fork e) es"
  shows "if 1988 \<notin> set (in_use h) \<and> (\<forall>c \<in> {Socket, Setsockopt, Bind, Listen}. grants h c)
     then \<exists>h' s. basic_server_main sd es h = (if srv = es then Blocked (h', s) else Exit 1 (h', s)) \<and> says h' = says h \<and>
       (srv = es \<longrightarrow> fk_open s = [sd]) \<and> length (fk_children s) = length srv \<and>
       (\<forall>i < length srv. shows_stamp (client_main 2 True (reached_at 1988 h') True) (srv ! i) (fk_children s ! i))
     else \<exists>h' m. basic_server_main sd es h = Exit 1 (h', \<lparr>fk_open = [], fk_children = []\<rparr>) \<and> says h' = says h @ [m]"
proof (cases "1988 \<notin> set (in_use h) \<and> (\<forall>c \<in> {Socket, Setsockopt, Bind, Listen}. grants h c)")
  case True
  with basic_setup_grants(1) [of h] obtain h' where h': "basic_setup h = Ret () h'" "says h' = says h" by blast
  have eq: "(\<forall>e \<in> set es. turn_served e) \<longleftrightarrow> srv = es" using assms(3) by (simp add: takeWhile_eq_all_conv)
  from basic_loop_serves [of es "\<lparr>fk_open = [sd], fk_children = []\<rparr>"] assms(2) obtain s where
    s: "basic_loop es \<lparr>fk_open = [sd], fk_children = []\<rparr> = (if srv = es then Blocked s else Exit 1 s)"
      "fk_children s = map (\<lambda>e. stamp_job (tr_time e) (tr_send e)) srv" "srv = es \<longrightarrow> fk_open s = [sd]"
    unfolding eq assms(3) [symmetric] by auto
  have "set srv \<subseteq> set es" using assms(3) set_takeWhileD by fastforce
  with assms(2) have "shows_stamp (client_main 2 True True True) (srv ! i) (stamp_job (tr_time (srv ! i)) (tr_send (srv ! i)))" if "i < length srv" for i
    using that nth_mem [of i srv] by (intro stamp_job_shows) blast+
  moreover have "reached_at 1988 h'" using bsc.listens [OF h'(1)] stamp_port by simp
  ultimately have "basic_server_main sd es h = (if srv = es then Blocked (h', s) else Exit 1 (h', s)) \<and> says h' = says h \<and>
       (srv = es \<longrightarrow> fk_open s = [sd]) \<and> length (fk_children s) = length srv \<and>
       (\<forall>i < length srv. shows_stamp (client_main 2 True (reached_at 1988 h') True) (srv ! i) (fk_children s ! i))"
    using h' s by (simp add: basic_server_main_def)
  then show ?thesis unfolding if_P [OF True] by blast
next
  case False
  with basic_setup_grants [of h] bsc.reports [OF assms(1)] obtain h' m where "basic_setup h = Exit 1 h'" "says h' = says h @ [m]" by metis
  then show ?thesis unfolding if_not_P [OF False] by (simp add: basic_server_main_def)
qed

definition ex_host :: host where
  "ex_host = \<lparr>in_use = [22], lingering = [1988], spare_port = 40000, grants = (\<lambda>c. True), sock = None, says = []\<rparr>"

text \<open>A client that is served, one whose \<open>send\<close> fails, and a \<open>fork\<close> that fails; and the port in use.\<close>

definition ex_turns :: "turn list" where
  "ex_turns = [\<lparr>tr_accept = Some 4, tr_fork = True, tr_time = -7, tr_send = Some 4\<rparr>, \<lparr>tr_accept = Some 4, tr_fork = True, tr_time = 5, tr_send = None\<rparr>,
     \<lparr>tr_accept = Some 4, tr_fork = False, tr_time = 6, tr_send = Some 9\<rparr>]"

theorem time_server_witness:
  "(\<exists>h' s. basic_server_main 3 ex_turns ex_host = Exit 1 (h', s) \<and> says h' = [] \<and> length (fk_children s) = 2 \<and> fk_children s ! 1 = Exit 1 ()) \<and>
   (\<exists>h' s. basic_server_main 3 (take 2 ex_turns) ex_host = Blocked (h', s) \<and> fk_open s = [3]) \<and>
   (\<exists>h' m. basic_server_main 3 [] (ex_host\<lparr>in_use := [1988]\<rparr>) = Exit 1 (h', \<lparr>fk_open = [], fk_children = []\<rparr>) \<and> says h' = [m])"
proof (intro conjI)
  show "\<exists>h' s. basic_server_main 3 ex_turns ex_host = Exit 1 (h', s) \<and> says h' = [] \<and> length (fk_children s) = 2 \<and> fk_children s ! 1 = Exit 1 ()"
    using time_server [of ex_host ex_turns 3, OF _ _ refl]
    by (auto simp: ex_host_def ex_turns_def LLONG_MIN_def LLONG_MAX_def shows_stamp_def less_Suc_eq)
  show "\<exists>h' s. basic_server_main 3 (take 2 ex_turns) ex_host = Blocked (h', s) \<and> fk_open s = [3]"
    using time_server [of ex_host "take 2 ex_turns" 3, OF _ _ refl]
    by (auto simp: ex_host_def ex_turns_def LLONG_MIN_def LLONG_MAX_def)
  show "\<exists>h' m. basic_server_main 3 [] (ex_host\<lparr>in_use := [1988]\<rparr>) = Exit 1 (h', \<lparr>fk_open = [], fk_children = []\<rparr>) \<and> says h' = [m]"
    using time_server [of "ex_host\<lparr>in_use := [1988]\<rparr>" "[]" 3, OF _ _ refl] by (auto simp: ex_host_def)
qed

text \<open>
  The servers that do not look at \<open>bind\<close>: with the port in use they start all the same, at a port nobody asks for.
\<close>

theorem unchecked_bind:
  assumes "sock h = None" "grants h Socket" "grants h Listen" "spare_port h \<noteq> 9000" "spare_port h \<noteq> 1900"
  shows "9000 \<in> set (in_use h) \<Longrightarrow> \<exists>h'. newer_server_main w h = Ret (srv_start w) (h', ()) \<and> says h' = says h \<and> \<not> reached_at 9000 h'"
    and "1900 \<in> set (in_use h) \<Longrightarrow> \<exists>h' r. fc_setup h = Ret () h' \<and> sock h' = Some (Listening (spare_port h) 5, r) \<and> \<not> reached_at 1900 h'"
    and "1900 \<in> set (in_use h) \<Longrightarrow> \<exists>h'. recv_main ds buf h = Blocked (h', buf)"
    and "1900 \<in> set (in_use h) \<Longrightarrow> \<exists>h' m. cs_server_main h = Exit 1 (h', ()) \<and> says h' = says h @ [m]"
  using assms csv.port_taken [OF assms(1)]
  by (auto simp: newer_server_main_def newer_setup_def fc_setup_def recv_main_def recv_setup_def cs_server_main_def POOL_PORT_def SERV_PORT_def
    RECV_PORT_def CS_PORT_def MAX_CONNECTION_def set_up_simps split: if_splits option.splits)

text \<open>Without a conflict each of them is reached at its port.\<close>

lemma newer_reached: "all_granted POOL_PORT h \<Longrightarrow> \<exists>h'. newer_server_main w h = Ret (srv_start w) (h', ()) \<and> reached_at POOL_PORT h'"
  by (auto simp: newer_server_main_def newer_setup_def set_up_simps)

lemma fc_reached: "all_granted SERV_PORT h \<Longrightarrow> \<exists>h'. fc_setup h = Ret () h' \<and> reached_at SERV_PORT h'"
  by (auto simp: fc_setup_def set_up_simps)

lemma recv_no_socket: "\<not> grants h Socket \<Longrightarrow> sock h = None \<Longrightarrow> \<exists>h'. recv_main ds buf h = Exit 1 (h', buf)"
  by (auto simp: recv_main_def recv_setup_def recv_turn_def set_up_simps)

section \<open>The client of the question and answer server\<close>

text \<open>
  \<open>c.c\<close> up to its loop: \<open>connect\<close> succeeds when a server is reached at the port, and the stream of the connection is opened. \<open>cs_meet\<close>: a
  server whose set-up succeeds is found by the client.
\<close>

definition cs_client_begins :: "bool \<Rightarrow> host \<Rightarrow> bool \<Rightarrow> string \<Rightarrow> (talk, string list) outcome" where
  "cs_client_begins got_socket server opened inp =
     (if \<not> got_socket then Exit 1 [''socket()'']
      else if \<not> reached_at CS_PORT server then Exit 1 [''connect'']
      else if \<not> opened then Exit 1 [''fdopen()'']
      else Ret (talk_start inp) [])"

lemma cs_meet:
  assumes "cs_server_main h = Ret s (h', ())"
  shows "s = s_start \<and> cs_client_begins True h' True inp = Ret (talk_start inp) []"
proof -
  obtain h1 where "cs_setup h = Ret () h1" using assms by (cases "cs_setup h") (auto simp: cs_server_main_def)
  with assms csv.listens [of h h1] show ?thesis by (simp add: cs_server_main_def cs_client_begins_def)
qed

section \<open>The clients of the pools\<close>

text \<open>
  \<open>pool_static\<close> and \<open>pool_dynamic\<close> have their own copies of \<open>client.c\<close> and \<open>webdl.c\<close>, with the same text as in \<open>basic\<close>. The format in
  \<open>pool_dynamic\<close> is \<open>%ld\<close> instead of \<open>%lld\<close>; both are 64 bits wide.
\<close>

definition static_client_main :: "nat \<Rightarrow> bool \<Rightarrow> bool \<Rightarrow> bool \<Rightarrow> string \<Rightarrow> (unit, string \<times> string) outcome" where
  "static_client_main = client_main"

definition dynamic_client_main :: "nat \<Rightarrow> bool \<Rightarrow> bool \<Rightarrow> bool \<Rightarrow> string \<Rightarrow> (unit, string \<times> string) outcome" where
  "dynamic_client_main = client_main"

definition static_webdl_main :: "nat \<Rightarrow> bool \<Rightarrow> bool \<Rightarrow> bool \<Rightarrow> string \<Rightarrow> (unit, string) outcome" where
  "static_webdl_main = webdl_main"

definition dynamic_webdl_main :: "nat \<Rightarrow> bool \<Rightarrow> bool \<Rightarrow> bool \<Rightarrow> string \<Rightarrow> (unit, string) outcome" where
  "dynamic_webdl_main = webdl_main"

text \<open>What a child of the preforking server adds to the sent lines is printed by its client as the same time.\<close>

lemma dynamic_client_shows:
  assumes "server_job p (Accepted sd) acc t s = Ret j s'" "0 \<le> sd" "int t \<le> LLONG_MAX"
  shows "\<exists>line. prefork.sent s' = prefork.sent s @ [(sd, line)] \<and>
    dynamic_client_main 2 True True True line = Exit 0 (''stamp = '' @ show_nat t @ [CHR 0x0A], [])"
proof -
  have "Prefork.fmt_stamp t = Stamp_Service.fmt_stamp (int t)" by (simp add: Prefork.fmt_stamp_def Stamp_Service.fmt_stamp_def show_int_def)
  with assms scan_fmt_stamp [of "int t"] show ?thesis
    by (auto simp: dynamic_client_main_def client_main_def LLONG_MIN_def show_int_def)
qed

end
