(* ===== verification/Sigmask.thy ===== *)
theory Sigmask
  imports Prelude
begin

text \<open>
  Four programs that print rows of stars and answer a signal with an exclamation mark: \<open>block.c\<close>, \<open>suspend.c\<close>, \<open>sigsuspend.c\<close> and
  \<open>suspend_rt.c\<close>. They differ in how they open the signal mask between two rows. A signal can arrive between any two system
  calls; one step is one system call, \<open>sleep\<close> only takes time.
\<close>

section \<open>Mask, pending signals, handler\<close>

text \<open>
  The process: whether the signal is blocked, how many are pending (at most one of \<open>SIGINT\<close>, any number of a real-time signal), the two
  saved masks, what has been written to standard output; \<open>arrived\<close> counts the signals sent to it.
\<close>

record sigst =
  blocked :: bool
  pend :: nat
  saveset :: bool
  oldset :: bool
  shown :: string
  arrived :: nat

abbreviation BANG :: char where "BANG \<equiv> CHR ''!''"
abbreviation STAR :: char where "STAR \<equiv> CHR ''*''"

definition put :: "string \<Rightarrow> sigst \<Rightarrow> sigst" where
  "put cs s = s\<lparr>shown := shown s @ cs\<rparr>"

text \<open>\<open>int_handler\<close> and \<open>mysig_handler\<close>.\<close>

definition int_handler :: "sigst \<Rightarrow> sigst" where
  "int_handler s = put [BANG] s"

text \<open>A signal arrives; \<open>rt\<close>: it is queued.\<close>

definition arrive :: "bool \<Rightarrow> sigst \<Rightarrow> sigst" where
  "arrive rt s =
     (let s1 = s\<lparr>arrived := arrived s + 1\<rparr>
      in if blocked s then s1\<lparr>pend := (if rt then pend s + 1 else 1)\<rparr> else int_handler s1)"

text \<open>The mask is set; pending signals are delivered before the call returns when it opens the mask.\<close>

definition setmask :: "bool \<Rightarrow> sigst \<Rightarrow> sigst" where
  "setmask b s = (if b then s\<lparr>blocked := True\<rparr> else (int_handler ^^ pend s) (s\<lparr>blocked := False, pend := 0\<rparr>))"

text \<open>\<open>sigsuspend\<close> when a signal is pending under the temporary mask: one handler runs, then the old mask is back.\<close>

definition take_pending :: "sigst \<Rightarrow> sigst" where
  "take_pending s = int_handler (s\<lparr>pend := pend s - 1\<rparr>)"

section \<open>The four programs\<close>

text \<open>
  Places: the first calls, the head of the outer loop, in a row, at the call that opens the mask, before and in \<open>pause\<close> or \<open>sigsuspend\<close>, after
  the loop.
\<close>

datatype place = Begin | Blocking | Turn nat | Stars nat nat | Open nat | Pausing nat | Waiting nat | Over

definition TURNS :: nat where "TURNS = 1000"
definition ROW :: nat where "ROW = 10"

definition row_step :: "nat \<Rightarrow> nat \<Rightarrow> sigst \<Rightarrow> place \<times> sigst" where
  "row_step j i s = (if i < ROW then (Stars j (Suc i), put [STAR] s) else (Open j, put [CHR 0x0A] s))"

fun block_main :: "place \<Rightarrow> sigst \<Rightarrow> (place \<times> sigst) option" where
  "block_main Begin s = Some (Turn 0, setmask False (s\<lparr>saveset := blocked s\<rparr>))"
| "block_main (Turn j) s = Some (if j < TURNS then (Stars j 0, setmask True s) else (Over, setmask (saveset s) s))"
| "block_main (Stars j i) s = Some (row_step j i s)"
| "block_main (Open j) s = Some (Turn (Suc j), setmask False s)"
| "block_main pl s = None"

fun suspend_main :: "place \<Rightarrow> sigst \<Rightarrow> (place \<times> sigst) option" where
  "suspend_main Begin s = Some (Turn 0, setmask False (s\<lparr>saveset := blocked s\<rparr>))"
| "suspend_main (Turn j) s = Some (if j < TURNS then (Stars j 0, setmask True (s\<lparr>oldset := blocked s\<rparr>)) else (Over, setmask (saveset s) s))"
| "suspend_main (Stars j i) s = Some (row_step j i s)"
| "suspend_main (Open j) s = Some (Pausing j, setmask (oldset s) s)"
| "suspend_main (Pausing j) s = Some (Waiting j, s)"
| "suspend_main pl s = None"

fun sigsuspend_main :: "place \<Rightarrow> sigst \<Rightarrow> (place \<times> sigst) option" where
  "sigsuspend_main Begin s = Some (Blocking, setmask False (s\<lparr>saveset := blocked s\<rparr>))"
| "sigsuspend_main Blocking s = Some (Turn 0, setmask True (s\<lparr>oldset := blocked s\<rparr>))"
| "sigsuspend_main (Turn j) s = Some (if j < TURNS then (Stars j 0, s) else (Over, setmask (saveset s) s))"
| "sigsuspend_main (Stars j i) s = Some (row_step j i s)"
| "sigsuspend_main (Open j) s = Some (if \<not> oldset s \<and> 0 < pend s then (Turn (Suc j), take_pending s) else (Waiting j, s))"
| "sigsuspend_main pl s = None"

text \<open>\<open>suspend_rt.c\<close> removes the signal from the temporary mask, so it is open whatever \<open>oldset\<close> holds.\<close>

fun suspend_rt_main :: "place \<Rightarrow> sigst \<Rightarrow> (place \<times> sigst) option" where
  "suspend_rt_main Begin s = Some (Turn 0, setmask False (s\<lparr>saveset := blocked s\<rparr>))"
| "suspend_rt_main (Turn j) s = Some (if j < TURNS then (Stars j 0, setmask True (s\<lparr>oldset := blocked s\<rparr>)) else (Over, setmask (saveset s) s))"
| "suspend_rt_main (Stars j i) s = Some (row_step j i s)"
| "suspend_rt_main (Open j) s = Some (if 0 < pend s then (Turn (Suc j), take_pending s) else (Waiting j, s))"
| "suspend_rt_main pl s = None"

text \<open>
  What a signal does at each place: in \<open>pause\<close> a handled signal ends the wait; in \<open>sigsuspend\<close> the temporary mask decides whether it is
  handled.
\<close>

fun at_pause :: "place \<Rightarrow> sigst \<Rightarrow> place \<times> sigst" where
  "at_pause (Waiting j) s = (if blocked s then Waiting j else Turn (Suc j), arrive False s)"
| "at_pause pl s = (pl, arrive False s)"

fun at_suspend :: "bool \<Rightarrow> (sigst \<Rightarrow> bool) \<Rightarrow> place \<Rightarrow> sigst \<Rightarrow> place \<times> sigst" where
  "at_suspend rt tmp (Waiting j) s =
     (if tmp s then (Waiting j, arrive rt s) else (Turn (Suc j), int_handler (s\<lparr>arrived := arrived s + 1\<rparr>)))"
| "at_suspend rt tmp pl s = (pl, arrive rt s)"

text \<open>A run: steps of the program and arrivals in any order.\<close>

inductive sig_step :: "(place \<Rightarrow> sigst \<Rightarrow> (place \<times> sigst) option) \<Rightarrow> (place \<Rightarrow> sigst \<Rightarrow> place \<times> sigst) \<Rightarrow>
    place \<times> sigst \<Rightarrow> place \<times> sigst \<Rightarrow> bool" for main dlv where
  own: "main pl s = Some st \<Longrightarrow> sig_step main dlv (pl, s) st"
| signal: "sig_step main dlv (pl, s) (dlv pl s)"

definition sig_start :: "bool \<Rightarrow> place \<times> sigst" where
  "sig_start b = (Begin, \<lparr>blocked = b, pend = 0, saveset = False, oldset = False, shown = [], arrived = 0\<rparr>)"

lemma sig_invariant:
  assumes "(sig_step main dlv)\<^sup>*\<^sup>* (sig_start b) (pl, s)"
    and "\<And>pl s. sig_start b = (pl, s) \<Longrightarrow> P pl s"
    and own: "\<And>pl s pl' s'. P pl s \<Longrightarrow> main pl s = Some (pl', s') \<Longrightarrow> P pl' s'"
    and dlv: "\<And>pl s pl' s'. P pl s \<Longrightarrow> dlv pl s = (pl', s') \<Longrightarrow> P pl' s'"
  shows "P pl s"
  using assms(1)
proof (induction "(pl, s)" arbitrary: pl s rule: rtranclp_induct)
  case base
  then show ?case by (rule assms(2))
next
  case (step st)
  obtain pl1 s1 where st: "st = (pl1, s1)" by (cases st)
  with step(3) have i: "P pl1 s1" by blast
  from step(2) show ?case unfolding st
  proof (cases rule: sig_step.cases)
    case own
    with i assms(3) show ?thesis by blast
  next
    case signal
    with i dlv show ?thesis by metis
  qed
qed

abbreviation block_step where "block_step \<equiv> sig_step block_main at_pause"
abbreviation suspend_step where "suspend_step \<equiv> sig_step suspend_main at_pause"
abbreviation sigsuspend_step where "sigsuspend_step \<equiv> sig_step sigsuspend_main (at_suspend False oldset)"
abbreviation suspend_rt_step where "suspend_rt_step \<equiv> sig_step suspend_rt_main (at_suspend True (\<lambda>s. False))"


lemma put_simps [simp]:
  "shown (put cs s) = shown s @ cs" "blocked (put cs s) = blocked s" "pend (put cs s) = pend s" "oldset (put cs s) = oldset s"
  "saveset (put cs s) = saveset s" "arrived (put cs s) = arrived s"
  by (simp_all add: put_def)

lemma handlers: "(int_handler ^^ n) s = put (replicate n BANG) s"
proof (induction n)
  case 0
  show ?case by (simp add: put_def)
next
  case (Suc n)
  then show ?case by (simp add: int_handler_def put_def replicate_append_same)
qed

lemma setmask_simps [simp]:
  "setmask True s = s\<lparr>blocked := True\<rparr>"
  "setmask False s = put (replicate (pend s) BANG) (s\<lparr>blocked := False, pend := 0\<rparr>)"
  by (simp_all add: setmask_def handlers)

lemma setmask_shown: "\<exists>n. shown (setmask b s) = shown s @ replicate n BANG"
proof (cases b)
  case True
  then have "shown (setmask b s) = shown s @ replicate 0 BANG" by simp
  then show ?thesis by blast
qed auto

lemma arrive_simps [simp]:
  "blocked s \<Longrightarrow> shown (arrive rt s) = shown s" "\<not> blocked s \<Longrightarrow> shown (arrive rt s) = shown s @ [BANG]"
  "blocked (arrive rt s) = blocked s" "oldset (arrive rt s) = oldset s" "arrived (arrive rt s) = arrived s + 1"
  "\<not> blocked s \<Longrightarrow> pend (arrive rt s) = pend s" "blocked s \<Longrightarrow> pend (arrive True s) = pend s + 1"
  by (simp_all add: arrive_def int_handler_def Let_def)

lemma arrive_shown: "\<exists>n. shown (arrive rt s) = shown s @ replicate n BANG"
proof (cases "blocked s")
  case True
  then have "shown (arrive rt s) = shown s @ replicate 0 BANG" by simp
  then show ?thesis by blast
next
  case False
  then have "shown (arrive rt s) = shown s @ replicate 1 BANG" by simp
  then show ?thesis by blast
qed

section \<open>Rows are not interrupted\<close>

text \<open>Rows completed at a place, and the stars of the current one.\<close>

fun rows :: "place \<Rightarrow> nat" where
  "rows (Turn j) = j"
| "rows (Stars j i) = j"
| "rows (Open j) = Suc j"
| "rows (Pausing j) = Suc j"
| "rows (Waiting j) = Suc j"
| "rows Over = TURNS"
| "rows _ = 0"

fun stars :: "place \<Rightarrow> nat" where
  "stars (Stars j i) = i"
| "stars _ = 0"

fun in_row :: "place \<Rightarrow> bool" where
  "in_row (Stars j i) = True"
| "in_row _ = False"

text \<open>No mark directly behind a star.\<close>

fun unbroken :: "string \<Rightarrow> bool" where
  "unbroken (a # b # cs) \<longleftrightarrow> (a = STAR \<longrightarrow> b \<noteq> BANG) \<and> unbroken (b # cs)"
| "unbroken _ \<longleftrightarrow> True"

lemma unbroken_snoc: "unbroken (cs @ [c]) \<longleftrightarrow> unbroken cs \<and> (cs \<noteq> [] \<and> last cs = STAR \<longrightarrow> c \<noteq> BANG)"
  by (induction cs rule: unbroken.induct) auto

lemma unbroken_bangs: "unbroken cs \<Longrightarrow> (cs = [] \<or> last cs \<noteq> STAR) \<Longrightarrow> unbroken (cs @ replicate n BANG) \<and> (cs @ replicate n BANG = [] \<or> last (cs @ replicate n BANG) \<noteq> STAR)"
proof (induction n)
  case (Suc n)
  let ?xs = "cs @ replicate n BANG"
  have "cs @ replicate (Suc n) BANG = ?xs @ [BANG]" by (simp add: replicate_append_same)
  then show ?case using Suc unbroken_snoc [of ?xs BANG] by simp
qed simp

definition row :: string where "row = replicate ROW STAR @ [CHR 0x0A]"

lemma rows_more: "concat (replicate (Suc j) row) = concat (replicate j row) @ replicate ROW STAR @ [CHR 0x0A]"
  by (simp add: row_def flip: replicate_append_same)

definition unmarked :: "string \<Rightarrow> string" where
  "unmarked cs = filter (\<lambda>c. c \<noteq> BANG) cs"

definition rows_inv :: "place \<Rightarrow> sigst \<Rightarrow> bool" where
  "rows_inv pl s \<longleftrightarrow> unbroken (shown s) \<and> unmarked (shown s) = concat (replicate (rows pl) row) @ replicate (stars pl) STAR \<and>
     stars pl \<le> ROW \<and> rows pl \<le> TURNS \<and> (if in_row pl then blocked s \<and> rows pl < TURNS else shown s = [] \<or> last (shown s) \<noteq> STAR)"

text \<open>
  The contract of such a program: a row is printed star by star, with the mask closed; outside of a row only handlers write, and no
  row is counted or forgotten. \<open>ok\<close> is an invariant of the program's own.
\<close>

locale row_printer =
  fixes main :: "place \<Rightarrow> sigst \<Rightarrow> (place \<times> sigst) option" and dlv :: "place \<Rightarrow> sigst \<Rightarrow> place \<times> sigst" and rt :: bool and
    ok :: "place \<Rightarrow> sigst \<Rightarrow> bool"
  assumes ok_start: "ok Begin \<lparr>blocked = b, pend = 0, saveset = False, oldset = False, shown = [], arrived = 0\<rparr>"
    and ok_main: "ok pl s \<Longrightarrow> main pl s = Some (pl', s') \<Longrightarrow> ok pl' s'"
    and ok_dlv: "ok pl s \<Longrightarrow> dlv pl s = (pl', s') \<Longrightarrow> ok pl' s'"
    and main_row: "main (Stars j i) s = Some (row_step j i s)"
    and main_other: "main pl s = Some (pl', s') \<Longrightarrow> \<not> in_row pl \<Longrightarrow> rows pl \<le> TURNS \<Longrightarrow> ok pl s \<Longrightarrow>
      (\<exists>n. shown s' = shown s @ replicate n BANG) \<and> rows pl' = rows pl \<and> stars pl' = 0 \<and> (in_row pl' \<longrightarrow> blocked s' \<and> rows pl' < TURNS)"
    and dlv_row: "dlv (Stars j i) s = (Stars j i, arrive rt s)"
    and dlv_other: "\<not> in_row pl \<Longrightarrow> dlv pl s = (pl', s') \<Longrightarrow>
      (\<exists>n. shown s' = shown s @ replicate n BANG) \<and> rows pl' = rows pl \<and> \<not> in_row pl'"
begin

lemma marks_keep:
  assumes "rows_inv pl s" "\<not> in_row pl" "\<exists>n. shown s' = shown s @ replicate n BANG" "rows pl' = rows pl" "stars pl' = 0"
    "in_row pl' \<longrightarrow> blocked s' \<and> rows pl' < TURNS"
  shows "rows_inv pl' s'"
proof -
  have "stars pl = 0" using assms(2) by (cases pl) auto
  with assms unbroken_bangs show ?thesis by (fastforce simp: rows_inv_def unmarked_def)
qed

lemma row_keeps: "rows_inv (Stars j i) s \<Longrightarrow> row_step j i s = (pl', s') \<Longrightarrow> rows_inv pl' s'"
  by (auto simp: rows_inv_def row_step_def unmarked_def unbroken_snoc replicate_append_same rows_more simp flip: replicate_Suc split: if_splits)

lemma own_keeps: "rows_inv pl s \<Longrightarrow> ok pl s \<Longrightarrow> main pl s = Some (pl', s') \<Longrightarrow> rows_inv pl' s'"
proof (cases "in_row pl")
  case True
  then obtain j i where "pl = Stars j i" by (cases pl) auto
  moreover assume "rows_inv pl s" "main pl s = Some (pl', s')"
  ultimately show ?thesis using row_keeps main_row by auto
next
  case False
  assume a: "rows_inv pl s" "ok pl s" "main pl s = Some (pl', s')"
  then have "rows pl \<le> TURNS" by (simp add: rows_inv_def)
  with main_other [OF a(3) False _ a(2)] have o: "\<exists>n. shown s' = shown s @ replicate n BANG" "rows pl' = rows pl" "stars pl' = 0"
    "in_row pl' \<longrightarrow> blocked s' \<and> rows pl' < TURNS" by blast+
  from a(1) False o show ?thesis by (rule marks_keep)
qed

lemma dlv_keeps: "rows_inv pl s \<Longrightarrow> dlv pl s = (pl', s') \<Longrightarrow> rows_inv pl' s'"
proof (cases "in_row pl")
  case True
  then obtain j i where "pl = Stars j i" by (cases pl) auto
  moreover assume "rows_inv pl s" "dlv pl s = (pl', s')"
  ultimately show ?thesis using dlv_row by (auto simp: rows_inv_def)
next
  case False
  assume a: "rows_inv pl s" "dlv pl s = (pl', s')"
  have "\<not> in_row pl'" using dlv_other [OF False a(2)] by simp
  then have "stars pl' = 0" by (cases pl') auto
  with False a dlv_other marks_keep show ?thesis by blast
qed

lemma rows_reach: "(sig_step main dlv)\<^sup>*\<^sup>* (sig_start b) (pl, s) \<Longrightarrow> rows_inv pl s \<and> ok pl s"
proof (elim sig_invariant)
  show "rows_inv pl s \<and> ok pl s" if "sig_start b = (pl, s)" for pl s
    using that ok_start by (auto simp: sig_start_def rows_inv_def unmarked_def)
qed (use own_keeps ok_main dlv_keeps ok_dlv in blast)+

lemma row_run: "i \<le> ROW \<Longrightarrow> (sig_step main dlv)\<^sup>*\<^sup>* (Stars j i, s) (Open j, put (replicate (ROW - i) STAR @ [CHR 0x0A]) s)"
proof (induction "ROW - i" arbitrary: i s)
  case 0
  then have "sig_step main dlv (Stars j i, s) (Open j, put [CHR 0x0A] s)" by (intro own) (simp add: main_row row_step_def)
  with 0 show ?case by simp
next
  case (Suc n)
  then have "sig_step main dlv (Stars j i, s) (Stars j (Suc i), put [STAR] s)" by (intro own) (simp add: main_row row_step_def)
  also have "(sig_step main dlv)\<^sup>*\<^sup>* (Stars j (Suc i), put [STAR] s) (Open j, put (replicate (ROW - Suc i) STAR @ [CHR 0x0A]) (put [STAR] s))"
    using Suc by (intro Suc(1)) auto
  finally show ?case using Suc(2) by (simp add: put_def flip: Suc_diff_Suc)
qed

end

text \<open>The four programs keep the contract.\<close>

lemma printer_dlv:
  "\<not> in_row pl \<Longrightarrow> at_pause pl s = (pl', s') \<Longrightarrow> (\<exists>n. shown s' = shown s @ replicate n BANG) \<and> rows pl' = rows pl \<and> \<not> in_row pl'"
  "\<not> in_row pl \<Longrightarrow> at_suspend rt tmp pl s = (pl', s') \<Longrightarrow> (\<exists>n. shown s' = shown s @ replicate n BANG) \<and> rows pl' = rows pl \<and> \<not> in_row pl'"
proof -
  show "(\<exists>n. shown s' = shown s @ replicate n BANG) \<and> rows pl' = rows pl \<and> \<not> in_row pl'" if "\<not> in_row pl" "at_pause pl s = (pl', s')"
    using that arrive_shown [of False s] by (cases pl) (auto split: if_splits)
  have one: "\<exists>n. shown s @ [BANG] = shown s @ replicate n BANG" by (rule exI [of _ 1]) simp
  show "(\<exists>n. shown s' = shown s @ replicate n BANG) \<and> rows pl' = rows pl \<and> \<not> in_row pl'" if "\<not> in_row pl" "at_suspend rt tmp pl s = (pl', s')"
    using that arrive_shown [of rt s] one by (cases pl) (auto simp: int_handler_def split: if_splits)
qed

lemma no_marks: "\<exists>n. shown s = shown s @ replicate n BANG" "\<exists>n. shown s @ [BANG] = shown s @ replicate n BANG"
  by (rule exI [of _ 0], simp) (rule exI [of _ 1], simp)

interpretation blk: row_printer block_main at_pause False "\<lambda>pl s. True"
proof unfold_locales
  fix pl s pl' s'
  assume a: "block_main pl s = Some (pl', s')" "\<not> in_row pl" "rows pl \<le> TURNS"
  show "(\<exists>n. shown s' = shown s @ replicate n BANG) \<and> rows pl' = rows pl \<and> stars pl' = 0 \<and> (in_row pl' \<longrightarrow> blocked s' \<and> rows pl' < TURNS)"
    using a setmask_shown [of "saveset s" s] no_marks [of s] by (cases pl) (auto simp: take_pending_def int_handler_def split: if_splits)
qed (simp, simp, simp, simp, simp, rule printer_dlv(1))

interpretation sus: row_printer suspend_main at_pause False "\<lambda>pl s. True"
proof unfold_locales
  fix pl s pl' s'
  assume a: "suspend_main pl s = Some (pl', s')" "\<not> in_row pl" "rows pl \<le> TURNS"
  show "(\<exists>n. shown s' = shown s @ replicate n BANG) \<and> rows pl' = rows pl \<and> stars pl' = 0 \<and> (in_row pl' \<longrightarrow> blocked s' \<and> rows pl' < TURNS)"
    using a setmask_shown [of "saveset s" s] no_marks [of s] setmask_shown [of "oldset s" s] by (cases pl) (auto simp: take_pending_def int_handler_def split: if_splits)
qed (simp, simp, simp, simp, simp, rule printer_dlv(1))

text \<open>Once \<open>sigsuspend.c\<close> has closed the mask it stays closed, but for the inside of \<open>sigsuspend\<close>; the mask used there is open.\<close>

fun shut :: "place \<Rightarrow> sigst \<Rightarrow> bool" where
  "shut Begin s = True"
| "shut Blocking s = (\<not> blocked s)"
| "shut Over s = True"
| "shut pl s = (blocked s \<and> \<not> oldset s)"

lemma shut_main: "shut pl s \<Longrightarrow> sigsuspend_main pl s = Some (pl', s') \<Longrightarrow> shut pl' s'"
  by (cases pl) (auto simp: row_step_def take_pending_def int_handler_def split: if_splits)

lemma shut_dlv: "shut pl s \<Longrightarrow> at_suspend False oldset pl s = (pl', s') \<Longrightarrow> shut pl' s'"
  by (cases pl) (auto simp: int_handler_def split: if_splits)

interpretation sgs: row_printer sigsuspend_main "at_suspend False oldset" False shut
proof unfold_locales
  fix pl s pl' s'
  assume a: "sigsuspend_main pl s = Some (pl', s')" "\<not> in_row pl" "rows pl \<le> TURNS" "shut pl s"
  show "(\<exists>n. shown s' = shown s @ replicate n BANG) \<and> rows pl' = rows pl \<and> stars pl' = 0 \<and> (in_row pl' \<longrightarrow> blocked s' \<and> rows pl' < TURNS)"
    using a setmask_shown [of "saveset s" s] no_marks [of s] by (cases pl) (auto simp: take_pending_def int_handler_def split: if_splits)
qed (simp, erule (1) shut_main, erule (1) shut_dlv, simp, simp, rule printer_dlv(2))

text \<open>Places behind the first star of the program, and the turns that have ended there.\<close>

fun begun :: "place \<Rightarrow> bool" where
  "begun (Turn j) = (0 < j)"
| "begun (Stars j i) = (0 < j \<or> 0 < i)"
| "begun (Open j) = True"
| "begun (Pausing j) = True"
| "begun (Waiting j) = True"
| "begun _ = False"

fun turns :: "place \<Rightarrow> nat" where
  "turns (Turn j) = j"
| "turns (Stars j i) = j"
| "turns (Open j) = j"
| "turns (Pausing j) = j"
| "turns (Waiting j) = j"
| "turns _ = 0"

text \<open>\<open>suspend_rt.c\<close> has its mask closed from the first star on; no signal gets lost.\<close>

definition marks :: "string \<Rightarrow> nat" where
  "marks cs = length (filter (\<lambda>c. c = BANG) cs)"

lemma marks_simps [simp]: "marks [] = 0" "marks (cs @ ds) = marks cs + marks ds" "marks (c # cs) = (if c = BANG then 1 else 0) + marks cs"
  "marks (replicate n BANG) = n"
  by (simp_all add: marks_def filter_replicate)

definition queued :: "place \<Rightarrow> sigst \<Rightarrow> bool" where
  "queued pl s \<longleftrightarrow> (begun pl \<or> in_row pl \<longrightarrow> blocked s) \<and> arrived s = marks (shown s) + pend s"

lemma setmask_marks: "marks (shown (setmask b s)) + pend (setmask b s) = marks (shown s) + pend s \<and> arrived (setmask b s) = arrived s"
  by (cases b) simp_all

lemma arrive_marks: "marks (shown (arrive True s)) + pend (arrive True s) = marks (shown s) + pend s + 1"
  by (cases "blocked s") simp_all

lemma queued_main: "queued pl s \<Longrightarrow> suspend_rt_main pl s = Some (pl', s') \<Longrightarrow> queued pl' s'"
  using setmask_marks [of "saveset s" s]
  by (cases pl) (auto simp: queued_def row_step_def take_pending_def int_handler_def split: if_splits)

lemma queued_dlv: "queued pl s \<Longrightarrow> at_suspend True (\<lambda>s. False) pl s = (pl', s') \<Longrightarrow> queued pl' s'"
  using arrive_marks [of s] by (cases pl) (auto simp: queued_def int_handler_def)

interpretation srt: row_printer suspend_rt_main "at_suspend True (\<lambda>s. False)" True queued
proof unfold_locales
  fix pl s pl' s'
  assume a: "suspend_rt_main pl s = Some (pl', s')" "\<not> in_row pl" "rows pl \<le> TURNS"
  show "(\<exists>n. shown s' = shown s @ replicate n BANG) \<and> rows pl' = rows pl \<and> stars pl' = 0 \<and> (in_row pl' \<longrightarrow> blocked s' \<and> rows pl' < TURNS)"
    using a setmask_shown [of "saveset s" s] no_marks [of s] by (cases pl) (auto simp: take_pending_def int_handler_def split: if_splits)
qed (simp add: queued_def, erule (1) queued_main, erule (1) queued_dlv, simp, simp, rule printer_dlv(2))

section \<open>Signals that are answered\<close>

text \<open>What is written from the first star on, and the marks in it.\<close>

definition after :: "string \<Rightarrow> string" where
  "after cs = dropWhile (\<lambda>c. c = BANG) cs"

lemma after_simps [simp]: "after [] = []" "after cs \<noteq> [] \<Longrightarrow> after (cs @ ds) = after cs @ ds" "after cs = [] \<Longrightarrow> after (cs @ ds) = after ds"
  "after (replicate n BANG) = []" "after [BANG] = []" "after [STAR] = [STAR]" "after [CHR 0x0A] = [CHR 0x0A]"
  by (auto simp: after_def dropWhile_append)

definition answer_inv :: "place \<Rightarrow> sigst \<Rightarrow> bool" where
  "answer_inv pl s \<longleftrightarrow> pl = Over \<or>
     (after (shown s) \<noteq> [] \<longleftrightarrow> begun pl) \<and> marks (after (shown s)) = turns pl \<and> (\<forall>j. pl = Waiting j \<longrightarrow> pend s = 0)"

lemma after_arrive: "after (shown s) = [] \<Longrightarrow> after (shown (arrive rt s)) = []"
  by (cases "blocked s") simp_all

lemma answer_arrive:
  assumes "answer_inv pl s" "\<forall>j. pl \<noteq> Waiting j" "begun pl \<longrightarrow> blocked s"
  shows "answer_inv pl (arrive rt s)"
proof (cases "begun pl")
  case True
  with assms show ?thesis by (auto simp: answer_inv_def)
next
  case False
  with assms have "pl = Over \<or> after (shown s) = [] \<and> turns pl = 0" by (auto simp: answer_inv_def)
  with False assms(2) after_arrive [of s rt] show ?thesis by (auto simp: answer_inv_def)
qed

lemma answer_row: "answer_inv (Stars j i) s \<Longrightarrow> row_step j i s = (pl', s') \<Longrightarrow> 0 < i \<or> ROW \<noteq> 0 \<Longrightarrow> answer_inv pl' s'"
  by (cases "after (shown s) = []") (auto simp: answer_inv_def row_step_def split: if_splits)

lemma row_pos: "ROW \<noteq> 0"
  by (simp add: ROW_def)

text \<open>A pending signal is taken by \<open>sigsuspend\<close>: one more mark, one more turn.\<close>

lemma answer_taken: "answer_inv (Open j) s \<Longrightarrow> answer_inv (Turn (Suc j)) (take_pending s)"
  by (simp add: answer_inv_def take_pending_def int_handler_def)

lemma answer_woken: "answer_inv (Waiting j) s \<Longrightarrow> answer_inv (Turn (Suc j)) (int_handler (s\<lparr>arrived := a\<rparr>))"
  by (simp add: answer_inv_def int_handler_def)

lemma answer_wait: "answer_inv (Open j) s \<Longrightarrow> pend s = 0 \<Longrightarrow> answer_inv (Waiting j) s"
  by (simp add: answer_inv_def)

lemma answer_turn: "answer_inv (Turn j) s \<Longrightarrow> shown s' = shown s \<Longrightarrow> answer_inv (Stars j 0) s'"
  by (simp add: answer_inv_def)

lemma answer_first: "answer_inv pl s \<Longrightarrow> pl \<noteq> Over \<Longrightarrow> \<not> begun pl \<Longrightarrow> \<not> begun pl' \<Longrightarrow> turns pl' = 0 \<Longrightarrow> \<exists>n. shown s' = shown s @ replicate n BANG \<Longrightarrow> answer_inv pl' s'"
  by (auto simp: answer_inv_def)

lemma answer_over: "answer_inv Over s"
  by (simp add: answer_inv_def)

lemmas answer_rules = answer_taken answer_wait answer_over

lemma answer_sigsuspend_main:
  assumes i: "answer_inv pl s" and k: "shut pl s" and m: "sigsuspend_main pl s = Some (pl', s')"
  shows "answer_inv pl' s'"
proof (cases pl)
  case (Stars j n)
  with i m row_pos show ?thesis by (auto intro: answer_row)
next
  case (Turn j)
  with m have "pl' = Over \<or> pl' = Stars j 0 \<and> shown s' = shown s" by (auto split: if_splits)
  with i Turn answer_over answer_turn show ?thesis by blast
next
  case (Open j)
  with i k m show ?thesis by (auto intro: answer_rules split: if_splits)
next
  case Begin
  with m have "pl' = Blocking" "\<exists>n. shown s' = shown s @ replicate n BANG" by auto
  with answer_first [OF i, of pl' s'] Begin show ?thesis by simp
next
  case Blocking
  with m have "pl' = Turn 0" "\<exists>n. shown s' = shown s @ replicate n BANG" using no_marks(1) by auto
  with answer_first [OF i, of pl' s'] Blocking show ?thesis by simp
qed (use m in auto)

lemma answer_rt_main:
  assumes i: "answer_inv pl s" and m: "suspend_rt_main pl s = Some (pl', s')"
  shows "answer_inv pl' s'"
proof (cases pl)
  case (Stars j n)
  with i m row_pos show ?thesis by (auto intro: answer_row)
next
  case (Turn j)
  with m have "pl' = Over \<or> pl' = Stars j 0 \<and> shown s' = shown s" by (auto split: if_splits)
  with i Turn answer_over answer_turn show ?thesis by blast
next
  case (Open j)
  with i m show ?thesis by (auto intro: answer_rules split: if_splits)
next
  case Begin
  with m have "pl' = Turn 0" "\<exists>n. shown s' = shown s @ replicate n BANG" by auto
  with answer_first [OF i, of pl' s'] Begin show ?thesis by simp
qed (use m in auto)

lemma answer_dlv:
  assumes i: "answer_inv pl s" and b: "begun pl \<longrightarrow> blocked s" and t: "\<forall>j. pl = Waiting j \<longrightarrow> \<not> tmp s" and m: "at_suspend rt tmp pl s = (pl', s')"
  shows "answer_inv pl' s'"
proof (cases "\<exists>j. pl = Waiting j")
  case True
  with i t m show ?thesis by (auto intro: answer_woken)
next
  case False
  then have "pl' = pl" "s' = arrive rt s" using m by (cases pl; simp)+
  with i b False show ?thesis by (auto intro: answer_arrive)
qed

lemma answer_start: "sig_start b = (pl, s) \<Longrightarrow> answer_inv pl s"
  by (auto simp: sig_start_def answer_inv_def)

text \<open>
  C26: Rows of stars. In each of the four programs, whenever signals arrive: no mark stands directly behind a star, and without
  the marks the output is the completed rows of ten stars and the stars of the current row.
\<close>

theorem rows_unbroken:
  assumes "block_step\<^sup>*\<^sup>* (sig_start b) (pl, s) \<or> suspend_step\<^sup>*\<^sup>* (sig_start b) (pl, s) \<or>
    sigsuspend_step\<^sup>*\<^sup>* (sig_start b) (pl, s) \<or> suspend_rt_step\<^sup>*\<^sup>* (sig_start b) (pl, s)"
  shows "unbroken (shown s) \<and> unmarked (shown s) = concat (replicate (rows pl) row) @ replicate (stars pl) STAR \<and> rows pl \<le> 1000"
proof -
  have "rows_inv pl s" using assms blk.rows_reach sus.rows_reach sgs.rows_reach srt.rows_reach by blast
  then show ?thesis by (simp add: rows_inv_def TURNS_def)
qed

lemma sigsuspend_reach: "sigsuspend_step\<^sup>*\<^sup>* (sig_start b) (pl, s) \<Longrightarrow> answer_inv pl s \<and> shut pl s"
proof (elim sig_invariant)
  show "answer_inv pl s \<and> shut pl s" if "sig_start b = (pl, s)" for pl s using that answer_start by (auto simp: sig_start_def)
  show "answer_inv pl' s' \<and> shut pl' s'" if "answer_inv pl s \<and> shut pl s" "sigsuspend_main pl s = Some (pl', s')" for pl s pl' s'
    using that answer_sigsuspend_main shut_main by blast
  show "answer_inv pl' s' \<and> shut pl' s'" if "answer_inv pl s \<and> shut pl s" "at_suspend False oldset pl s = (pl', s')" for pl s pl' s'
  proof -
    have "begun pl \<longrightarrow> blocked s" "\<forall>j. pl = Waiting j \<longrightarrow> \<not> oldset s" using that(1) by (cases pl; auto)+
    with that show ?thesis using answer_dlv shut_dlv by blast
  qed
qed

lemma suspend_rt_reach: "suspend_rt_step\<^sup>*\<^sup>* (sig_start b) (pl, s) \<Longrightarrow> answer_inv pl s \<and> queued pl s"
proof (elim sig_invariant)
  show "answer_inv pl s \<and> queued pl s" if "sig_start b = (pl, s)" for pl s using that answer_start by (auto simp: sig_start_def queued_def)
  show "answer_inv pl' s' \<and> queued pl' s'" if "answer_inv pl s \<and> queued pl s" "suspend_rt_main pl s = Some (pl', s')" for pl s pl' s'
    using that answer_rt_main queued_main by blast
  show "answer_inv pl' s' \<and> queued pl' s'" if "answer_inv pl s \<and> queued pl s" "at_suspend True (\<lambda>s. False) pl s = (pl', s')" for pl s pl' s'
  proof -
    have "begun pl \<longrightarrow> blocked s" using that(1) by (auto simp: queued_def)
    with that show ?thesis using answer_dlv [of pl s "\<lambda>s. False" True pl' s'] queued_dlv by blast
  qed
qed

text \<open>\<open>suspend.c\<close> with one signal in the first row: its handler runs when the mask opens, before \<open>pause\<close>, which then waits for another signal.\<close>

definition lost :: sigst where
  "lost = \<lparr>blocked = False, pend = 0, saveset = False, oldset = False, shown = row @ [BANG], arrived = 1\<rparr>"

lemma suspend_loses: "suspend_step\<^sup>*\<^sup>* (sig_start False) (Waiting 0, lost)"
proof -
  let ?s = "snd (sig_start False)"
  let ?t = "?s\<lparr>blocked := True, pend := 1, arrived := 1\<rparr>"
  have "suspend_step\<^sup>*\<^sup>* (sig_start False) (Begin, ?s)" by (simp add: sig_start_def)
  also have "suspend_step (Begin, ?s) (Turn 0, ?s)" by (intro own) (simp add: sig_start_def put_def)
  also have "suspend_step (Turn 0, ?s) (Stars 0 0, ?s\<lparr>blocked := True\<rparr>)"
    by (intro own) (simp add: TURNS_def sig_start_def)
  also have "suspend_step (Stars 0 0, ?s\<lparr>blocked := True\<rparr>) (Stars 0 0, ?t)"
    using signal [of suspend_main at_pause "Stars 0 0" "?s\<lparr>blocked := True\<rparr>"] by (simp add: arrive_def sig_start_def)
  also have "suspend_step\<^sup>*\<^sup>* (Stars 0 0, ?t) (Open 0, put row ?t)" using sus.row_run [of 0 0 ?t] by (simp add: row_def)
  also have "suspend_step (Open 0, put row ?t) (Pausing 0, lost)" by (intro own) (simp add: sig_start_def lost_def put_def)
  also have "suspend_step (Pausing 0, lost) (Waiting 0, lost)" by (intro own) simp
  finally show ?thesis .
qed

text \<open>
  C11: Opening the mask and waiting in one call. When \<open>sigsuspend.c\<close> or \<open>suspend_rt.c\<close> waits in turn \<open>j\<close>, exactly \<open>j\<close> signals have been answered
  since the first star and none is pending: a signal that came while a row was printed has already started the next row. For
  the queued signal of \<open>suspend_rt.c\<close> every signal ever sent has been answered. \<open>suspend.c\<close>, which opens the mask first and then
  calls \<open>pause\<close>, can wait in its first turn although a signal has been answered.
\<close>

theorem sigsuspend_answers:
  "(\<forall>b j s. sigsuspend_step\<^sup>*\<^sup>* (sig_start b) (Waiting j, s) \<longrightarrow> marks (after (shown s)) = j \<and> pend s = 0) \<and>
   (\<forall>b j s. suspend_rt_step\<^sup>*\<^sup>* (sig_start b) (Waiting j, s) \<longrightarrow>
      marks (after (shown s)) = j \<and> pend s = 0 \<and> marks (shown s) = arrived s) \<and>
   (\<exists>s. suspend_step\<^sup>*\<^sup>* (sig_start False) (Waiting 0, s) \<and> marks (after (shown s)) = 1)"
proof (intro conjI allI impI)
  fix b j s
  assume "sigsuspend_step\<^sup>*\<^sup>* (sig_start b) (Waiting j, s)"
  from sigsuspend_reach [OF this] show "marks (after (shown s)) = j" "pend s = 0" by (simp_all add: answer_inv_def)
next
  fix b j s
  assume "suspend_rt_step\<^sup>*\<^sup>* (sig_start b) (Waiting j, s)"
  from suspend_rt_reach [OF this] show "marks (after (shown s)) = j" "pend s = 0" "marks (shown s) = arrived s"
    by (simp_all add: answer_inv_def queued_def)
next
  have "after (shown lost) = row @ [BANG]" by (simp add: lost_def row_def after_def ROW_def numeral_eq_Suc)
  moreover have "marks row = 0" by (simp add: row_def marks_def)
  ultimately show "\<exists>s. suspend_step\<^sup>*\<^sup>* (sig_start False) (Waiting 0, s) \<and> marks (after (shown s)) = 1"
    using suspend_loses by (intro exI [of _ lost]) simp
qed

text \<open>A run of \<open>sigsuspend.c\<close> with a signal in the first row.\<close>

lemma sigsuspend_run:
  "\<exists>s. sigsuspend_step\<^sup>*\<^sup>* (sig_start False) (Waiting 1, s)"
proof -
  let ?s = "(snd (sig_start False))\<lparr>blocked := True\<rparr>"
  let ?t = "put row (?s\<lparr>pend := 1, arrived := 1\<rparr>)"
  have "sigsuspend_step\<^sup>*\<^sup>* (sig_start False) (Begin, snd (sig_start False))" by (simp add: sig_start_def)
  also have "sigsuspend_step (Begin, snd (sig_start False)) (Blocking, snd (sig_start False))" by (intro own) (simp add: sig_start_def put_def)
  also have "sigsuspend_step (Blocking, snd (sig_start False)) (Turn 0, ?s)" by (intro own) (simp add: sig_start_def)
  also have "sigsuspend_step (Turn 0, ?s) (Stars 0 0, ?s)" by (intro own) (simp add: TURNS_def)
  also have "sigsuspend_step (Stars 0 0, ?s) (Stars 0 0, ?s\<lparr>pend := 1, arrived := 1\<rparr>)"
    using signal [of sigsuspend_main "at_suspend False oldset" "Stars 0 0" ?s] by (simp add: arrive_def sig_start_def)
  also have "sigsuspend_step\<^sup>*\<^sup>* (Stars 0 0, ?s\<lparr>pend := 1, arrived := 1\<rparr>) (Open 0, ?t)"
    using sgs.row_run [of 0 0 "?s\<lparr>pend := 1, arrived := 1\<rparr>"] by (simp add: row_def)
  also have "sigsuspend_step (Open 0, ?t) (Turn 1, take_pending ?t)" by (intro own) (simp add: sig_start_def)
  also have "sigsuspend_step (Turn 1, take_pending ?t) (Stars 1 0, take_pending ?t)" by (intro own) (simp add: TURNS_def)
  also have "sigsuspend_step\<^sup>*\<^sup>* (Stars 1 0, take_pending ?t) (Open 1, put row (take_pending ?t))"
    using sgs.row_run [of 0 1 "take_pending ?t"] by (simp add: row_def)
  also have "sigsuspend_step (Open 1, put row (take_pending ?t)) (Waiting 1, put row (take_pending ?t))"
    by (intro own) (simp add: take_pending_def int_handler_def)
  finally show ?thesis by blast
qed

theorem sigsuspend_answers_witness:
  "\<exists>s. sigsuspend_step\<^sup>*\<^sup>* (sig_start False) (Waiting 1, s) \<and> marks (after (shown s)) = 1 \<and> pend s = 0"
  using sigsuspend_run sigsuspend_answers by blast

theorem rows_unbroken_witness:
  "\<exists>s. sigsuspend_step\<^sup>*\<^sup>* (sig_start False) (Waiting 1, s) \<and> unmarked (shown s) = row @ row"
proof -
  obtain s where s: "sigsuspend_step\<^sup>*\<^sup>* (sig_start False) (Waiting 1, s)" using sigsuspend_run by blast
  then have "unmarked (shown s) = concat (replicate (rows (Waiting 1)) row) @ replicate (stars (Waiting 1)) STAR"
    using rows_unbroken by blast
  with s show ?thesis by auto
qed

end
