(* ===== verification/Rw_Lock.thy ===== *)
theory Rw_Lock
  imports Prelude
begin

text \<open>
  \<open>thread/posix/Newer/read_write_lock/rw_lock.c\<close>: one writer and three readers around a lock that prefers waiting writers. Each thread reads and writes
  the shared \<open>n\<close> in separate steps, so that what is printed depends on the lock. \<open>sleep\<close> only takes time.
\<close>

section \<open>Threads and lock\<close>

datatype reader = RIdle | RLocked | RHas int | RPrinted
datatype writer = WIdle | WWait | WLocked | WHas int | WStored | WPrinted

text \<open>What is printed: a reader's or a writer's line with its number.\<close>

datatype line = Read int | Wrote int

definition THREAD_NUM :: nat where "THREAD_NUM = 4"
definition THREAD_READ :: nat where "THREAD_READ = 3"

record rw =
  rw_n :: int
  rw_out :: "line list"
  wr :: writer
  rds :: "reader list"

text \<open>
  The two thread functions. \<open>pthread_rwlock_rdlock\<close> succeeds when no writer holds the lock and none waits for it
  (\<open>PTHREAD_RWLOCK_PREFER_WRITER_NONRECURSIVE_NP\<close>), \<open>pthread_rwlock_wrlock\<close> when nobody holds it. The increment is undefined at \<open>INT_MAX\<close>, where no
  step is given.
\<close>

fun myRead :: "bool \<Rightarrow> reader \<Rightarrow> rw \<Rightarrow> (reader \<times> rw) option" where
  "myRead free RIdle s = (if free then Some (RLocked, s) else None)"
| "myRead free RLocked s = Some (RHas (rw_n s), s)"
| "myRead free (RHas v) s = Some (RPrinted, s\<lparr>rw_out := rw_out s @ [Read v]\<rparr>)"
| "myRead free RPrinted s = Some (RIdle, s)"

fun myWrite :: "bool \<Rightarrow> writer \<Rightarrow> rw \<Rightarrow> (writer \<times> rw) option" where
  "myWrite free WIdle s = Some (WWait, s)"
| "myWrite free WWait s = (if free then Some (WLocked, s) else None)"
| "myWrite free WLocked s = Some (WHas (rw_n s), s)"
| "myWrite free (WHas v) s = (if v < INT_MAX then Some (WStored, s\<lparr>rw_n := v + 1\<rparr>) else None)"
| "myWrite free WStored s = Some (WPrinted, s\<lparr>rw_out := rw_out s @ [Wrote (rw_n s)]\<rparr>)"
| "myWrite free WPrinted s = Some (WIdle, s)"

inductive rw_step :: "rw \<Rightarrow> rw \<Rightarrow> bool" where
  reads: "k < length (rds s) \<Longrightarrow> myRead (wr s = WIdle) (rds s ! k) s = Some (r, s') \<Longrightarrow> rw_step s (s'\<lparr>rds := (rds s)[k := r]\<rparr>)"
| writes: "myWrite (\<forall>r \<in> set (rds s). r = RIdle) (wr s) s = Some (w, s') \<Longrightarrow> rw_step s (s'\<lparr>wr := w\<rparr>)"

text \<open>\<open>main\<close> creates \<open>THREAD_NUM - THREAD_READ\<close> writers, which is one, and then the readers.\<close>

definition rw_start :: rw where
  "rw_start = \<lparr>rw_n = 0, rw_out = [], wr = WIdle, rds = replicate THREAD_READ RIdle\<rparr>"

lemma one_writer: "THREAD_NUM - THREAD_READ = 1"
  by (simp add: THREAD_NUM_def THREAD_READ_def)

section \<open>What is printed\<close>

text \<open>Writers print the next number, readers the number of the last writer.\<close>

fun consistent :: "int \<Rightarrow> line list \<Rightarrow> bool" where
  "consistent n [] \<longleftrightarrow> True"
| "consistent n (Read v # ls) \<longleftrightarrow> v = n \<and> consistent n ls"
| "consistent n (Wrote v # ls) \<longleftrightarrow> v = n + 1 \<and> consistent (n + 1) ls"

definition wrote :: "line list \<Rightarrow> int" where
  "wrote ls = int (length (filter (\<lambda>l. case l of Wrote _ \<Rightarrow> True | _ \<Rightarrow> False) ls))"

lemma wrote_simps [simp]: "wrote [] = 0" "wrote (Read v # ls) = wrote ls" "wrote (Wrote v # ls) = 1 + wrote ls" "wrote (ls @ ms) = wrote ls + wrote ms"
  by (simp_all add: wrote_def)

lemma consistent_snoc [simp]:
  "consistent n (ls @ [Read v]) \<longleftrightarrow> consistent n ls \<and> v = n + wrote ls"
  "consistent n (ls @ [Wrote v]) \<longleftrightarrow> consistent n ls \<and> v = n + wrote ls + 1"
  by (induction n ls rule: consistent.induct) auto

fun inside :: "writer \<Rightarrow> bool" where
  "inside WIdle = False"
| "inside WWait = False"
| "inside _ = True"

definition rw_inv :: "rw \<Rightarrow> bool" where
  "rw_inv s \<longleftrightarrow> (inside (wr s) \<longrightarrow> (\<forall>r \<in> set (rds s). r = RIdle)) \<and> (\<forall>v. RHas v \<in> set (rds s) \<longrightarrow> v = rw_n s) \<and>
     (\<forall>v. wr s = WHas v \<longrightarrow> v = rw_n s) \<and> rw_n s = wrote (rw_out s) + (if wr s = WStored then 1 else 0) \<and>
     consistent 0 (rw_out s) \<and> length (rds s) = THREAD_READ"

lemma reader_out: "inside (wr s) \<longrightarrow> (\<forall>r \<in> set (rds s). r = RIdle) \<Longrightarrow> k < length (rds s) \<Longrightarrow>
  myRead (wr s = WIdle) (rds s ! k) s = Some p \<Longrightarrow> \<not> inside (wr s)"
proof
  assume i: "inside (wr s)" and a: "inside (wr s) \<longrightarrow> (\<forall>r \<in> set (rds s). r = RIdle)" "k < length (rds s)"
    "myRead (wr s = WIdle) (rds s ! k) s = Some p"
  then have "rds s ! k = RIdle" "wr s \<noteq> WIdle" by auto
  with a(3) show False by simp
qed

lemma rw_inv_step: "rw_step s s' \<Longrightarrow> rw_inv s \<Longrightarrow> rw_inv s'"
proof (induction rule: rw_step.induct)
  case (reads k s r s')
  then have "inside (wr s) \<longrightarrow> (\<forall>r \<in> set (rds s). r = RIdle)" by (simp add: rw_inv_def)
  with reads(1,2) have o: "\<not> inside (wr s)" by (intro reader_out)
  then have "wr s \<noteq> WStored" "\<And>v. wr s \<noteq> WHas v" by auto
  moreover have "RHas v = rds s ! k \<longrightarrow> v = rw_n s" for v using reads nth_mem [OF reads(1)] by (auto simp: rw_inv_def)
  ultimately show ?case using reads o
    by (cases "rds s ! k") (auto simp: rw_inv_def dest!: set_update_subset_insert [THEN subsetD] split: if_splits)
next
  case (writes s w s')
  then show ?case by (cases "wr s") (auto simp: rw_inv_def split: if_splits)
qed

lemma rw_inv_reach: "rw_step\<^sup>*\<^sup>* rw_start s \<Longrightarrow> rw_inv s"
proof (induction rule: rtranclp_induct)
  case base
  show ?case by (simp add: rw_inv_def rw_start_def)
qed (rule rw_inv_step)

text \<open>
  The lock keeps readers and writer apart. In every interleaving of \<open>rw_lock.c\<close> no reader is inside while the writer is, the
  writer prints 1, 2, 3 and so on, and every reader prints the number that the writer has printed last.
\<close>

theorem rw_lock_consistent:
  assumes "rw_step\<^sup>*\<^sup>* rw_start s"
  shows "consistent 0 (rw_out s) \<and> (inside (wr s) \<longrightarrow> (\<forall>r \<in> set (rds s). r = RIdle))"
  using rw_inv_reach [OF assms] by (simp add: rw_inv_def)

theorem rw_lock_consistent_witness: "\<exists>s. rw_step\<^sup>*\<^sup>* rw_start s \<and> wr s = WLocked \<and> rds s = [RIdle, RIdle, RIdle]"
proof -
  let ?s = "rw_start\<lparr>wr := WWait\<rparr>"
  have "rw_step\<^sup>*\<^sup>* rw_start ?s" using writes [of rw_start WWait rw_start] by (intro r_into_rtranclp) (simp add: rw_start_def)
  also have "rw_step ?s (?s\<lparr>wr := WLocked\<rparr>)" using writes [of ?s WLocked ?s] by (simp add: rw_start_def THREAD_READ_def numeral_eq_Suc)
  finally have r: "rw_step\<^sup>*\<^sup>* rw_start (?s\<lparr>wr := WLocked\<rparr>)" .
  from rw_lock_consistent [OF r] r show ?thesis
    by (intro exI [of _ "?s\<lparr>wr := WLocked\<rparr>"]) (simp add: rw_start_def THREAD_READ_def numeral_eq_Suc)
qed

section \<open>The writer gets in\<close>

text \<open>Steps a reader has to go until it is out.\<close>

fun steps_out :: "reader \<Rightarrow> nat" where
  "steps_out RIdle = 0"
| "steps_out RLocked = 3"
| "steps_out (RHas v) = 2"
| "steps_out RPrinted = 1"

definition to_go :: "rw \<Rightarrow> nat" where
  "to_go s = sum_list (map steps_out (rds s))"

lemma to_go_less:
  assumes "rw_step s s'" "wr s = WWait" "wr s' = WWait"
  shows "to_go s' < to_go s"
  using assms
proof (induction rule: rw_step.induct)
  case (reads k s r s')
  then have "steps_out r < steps_out (rds s ! k)" by (cases "rds s ! k") auto
  with reads(1) sum_list_upd [of k "rds s" steps_out r] show ?case by (simp add: to_go_def)
qed (auto split: if_splits)

lemma to_go_bound: "length (rds s) = THREAD_READ \<Longrightarrow> to_go s \<le> 9"
proof -
  assume "length (rds s) = THREAD_READ"
  moreover have "steps_out r \<le> 3" for r by (cases r) auto
  then have "sum_list (map steps_out (rds s)) \<le> sum_list (map (\<lambda>r. 3) (rds s))" by (intro sum_list_mono)
  ultimately show ?thesis by (simp add: to_go_def sum_list_triv THREAD_READ_def)
qed

lemma wait_moves: "wr s = WWait \<Longrightarrow> \<exists>s'. rw_step s s'"
proof (cases "\<forall>r \<in> set (rds s). r = RIdle")
  case True
  assume "wr s = WWait"
  with True have "myWrite (\<forall>r \<in> set (rds s). r = RIdle) (wr s) s = Some (WLocked, s)" by simp
  from rw_step.writes [OF this] show ?thesis by blast
next
  case False
  then obtain k where k: "k < length (rds s)" "rds s ! k \<noteq> RIdle" by (auto simp: in_set_conv_nth)
  then obtain r s' where "myRead (wr s = WIdle) (rds s ! k) s = Some (r, s')" by (cases "rds s ! k") auto
  from rw_step.reads [OF k(1) this] show ?thesis by blast
qed

text \<open>
  C12: The writer does not starve. When the writer of \<open>rw_lock.c\<close> waits for the lock, at most nine steps of the readers can happen before it
  has the lock, and until then some thread can always take a step: every run lets it in.
\<close>

theorem writer_gets_in:
  assumes "rw_step\<^sup>*\<^sup>* rw_start s" "wr s = WWait" "((\<lambda>a b. rw_step a b \<and> wr b = WWait) ^^ k) s s'"
  shows "k \<le> 9 \<and> (\<exists>s''. rw_step s' s'')"
proof -
  have "wr s' = WWait \<and> to_go s' + k \<le> to_go s" using assms(3)
  proof (induction k arbitrary: s')
    case 0
    with assms(2) show ?case by simp
  next
    case (Suc k)
    then obtain t where t: "((\<lambda>a b. rw_step a b \<and> wr b = WWait) ^^ k) s t" "rw_step t s'" "wr s' = WWait" by auto
    with Suc.IH [OF t(1)] to_go_less [OF t(2)] show ?case by simp
  qed
  moreover have "to_go s \<le> 9" using rw_inv_reach [OF assms(1)] by (intro to_go_bound) (simp add: rw_inv_def)
  ultimately show ?thesis using wait_moves [of s'] by simp
qed

theorem writer_gets_in_witness:
  "\<exists>s s'. rw_step\<^sup>*\<^sup>* rw_start s \<and> wr s = WWait \<and> ((\<lambda>a b. rw_step a b \<and> wr b = WWait) ^^ 1) s s' \<and> (1 :: nat) \<le> 9 \<and> (\<exists>s''. rw_step s' s'')"
proof -
  let ?s1 = "rw_start\<lparr>rds := [RLocked, RIdle, RIdle]\<rparr>"
  let ?s2 = "?s1\<lparr>wr := WWait\<rparr>"
  let ?s3 = "?s2\<lparr>rds := [RHas 0, RIdle, RIdle]\<rparr>"
  have "rw_step\<^sup>*\<^sup>* rw_start ?s1" using reads [of 0 rw_start RLocked rw_start] by (intro r_into_rtranclp) (simp add: rw_start_def THREAD_READ_def numeral_eq_Suc)
  also have "rw_step ?s1 ?s2" using writes [of ?s1 WWait ?s1] by (simp add: rw_start_def)
  finally have r: "rw_step\<^sup>*\<^sup>* rw_start ?s2" .
  have "rw_step ?s2 ?s3" using reads [of 0 ?s2 "RHas 0" ?s2] by (simp add: rw_start_def)
  then have "((\<lambda>a b. rw_step a b \<and> wr b = WWait) ^^ 1) ?s2 ?s3" by (auto simp: relpowp_1)
  with writer_gets_in [OF r _ this] r show ?thesis by (intro exI [of _ ?s2] exI [of _ ?s3]) simp
qed

end
