(* ===== verification/Openssl_Tools.thy ===== *)
theory Openssl_Tools
  imports Digest Memory
begin

text \<open>
  The examples under \<open>openssl\<close>: message digests of a string and of a file (\<open>md.c\<close>, \<open>md_new.c\<close>) and Base64 (\<open>base64.c\<close>). Digests and the Base64 filter are code
  of OpenSSL and parameters of the model.
\<close>

section \<open>Digests\<close>

definition MD5_DIGEST_LENGTH :: nat where "MD5_DIGEST_LENGTH = 16"
definition SHA_DIGEST_LENGTH :: nat where "SHA_DIGEST_LENGTH = 20"
definition SHA256_DIGEST_LENGTH :: nat where "SHA256_DIGEST_LENGTH = 32"

text \<open>
  A line with the sum: \<open>n\<close> bytes of the array \<open>hash\<close> are printed; the bytes of the array behind the sum are its old content.
\<close>

definition print_hash :: "string \<Rightarrow> nat \<Rightarrow> nat list \<Rightarrow> string" where
  "print_hash tag n hash = tag @ '':'' @ [CHR 0x09] @ hex (take n hash) @ [CHR 0x0A]"

definition hash_mem :: "nat list \<Rightarrow> nat list \<Rightarrow> nat list" where
  "hash_mem md hash = md @ drop (length md) hash"

definition to_md5 :: "('c, byte) digest \<Rightarrow> nat list \<Rightarrow> byte list \<Rightarrow> string" where
  "to_md5 d hash str =
     (let ctx = dg_update d (dg_init d) (cstring str)
      in print_hash ''MD5'' MD5_DIGEST_LENGTH (hash_mem (dg_final d ctx) hash))"

definition to_sha256 :: "('c, byte) digest \<Rightarrow> nat list \<Rightarrow> byte list \<Rightarrow> string" where
  "to_sha256 d hash str =
     (let ctx = dg_update d (dg_init d) (cstring str)
      in print_hash ''SHA256'' SHA256_DIGEST_LENGTH (hash_mem (dg_final d ctx) hash))"

text \<open>\<open>md_new.c\<close>: the same through the newer interface, with an array that is longer than the sum.\<close>

definition evp_to_md5 :: "('c, byte) digest \<Rightarrow> nat list \<Rightarrow> byte list \<Rightarrow> string" where
  "evp_to_md5 d hash str =
     (let ctx = dg_update d (dg_init d) (cstring str)
      in print_hash ''MD5'' MD5_DIGEST_LENGTH (hash_mem (dg_final d ctx) hash))"

text \<open>
  \<open>file_to_sha128\<close>: \<open>got\<close> is how much \<open>fread\<close> delivers of the file, \<open>mem\<close> whether \<open>malloc\<close> succeeds, which is not tested: reading at least one byte
  into \<open>NULL\<close> is undefined.
\<close>

definition file_to_sha128 :: "('c, byte) digest \<Rightarrow> nat list \<Rightarrow> bool \<Rightarrow> nat \<Rightarrow> byte list option \<Rightarrow> (unit, string) outcome" where
  "file_to_sha128 d hash mem got file = (case file of
      None \<Rightarrow> Ret () []
    | Some content \<Rightarrow>
        let file_size = length content; file_read = min got file_size
        in if \<not> mem \<and> 0 < file_read then Undef []
           else if file_read \<noteq> file_size then Exit 1 []
           else let ctx = dg_update d (dg_init d) content
             in Ret () (print_hash ''SHA128'' SHA_DIGEST_LENGTH (hash_mem (dg_final d ctx) hash)))"

definition md_str :: "byte list" where
  "md_str = str_bytes ''hello openSSL'' @ [0]"

text \<open>\<open>main\<close> of \<open>md.c\<close>, with the three digests and the old content of the three arrays.\<close>

definition md_main :: "('c, byte) digest \<Rightarrow> ('d, byte) digest \<Rightarrow> ('e, byte) digest \<Rightarrow> nat list \<times> nat list \<times> nat list \<Rightarrow> bool \<Rightarrow> nat \<Rightarrow>
    byte list option \<Rightarrow> (unit, string) outcome" where
  "md_main md5 sha256 sha1 hs mem got file = (case hs of (h1, h2, h3) \<Rightarrow>
     let out = to_md5 md5 h1 md_str @ to_sha256 sha256 h2 md_str
     in case file_to_sha128 sha1 h3 mem got file of
         Ret _ o3 \<Rightarrow> Exit 0 (out @ o3)
       | Exit c o3 \<Rightarrow> Exit c (out @ o3)
       | r \<Rightarrow> Undef out)"

text \<open>The line of a digest of the documented length shows the sum and nothing of the old content of the array.\<close>

lemma print_stored: "length md = n \<Longrightarrow> print_hash tag n (hash_mem md hash) = tag @ '':'' @ [CHR 0x09] @ hex md @ [CHR 0x0A]"
  by (simp add: print_hash_def hash_mem_def)

lemma md5_lines:
  assumes "\<forall>c. length (dg_final d c) = MD5_DIGEST_LENGTH" "0 \<notin> set str"
  shows "to_md5 d hash (str @ 0 # junk) = ''MD5:'' @ [CHR 0x09] @ hex (digest_of d str) @ [CHR 0x0A]"
    and "evp_to_md5 d hash' (str @ 0 # junk') = to_md5 d hash (str @ 0 # junk)"
  using assms by (simp_all add: to_md5_def evp_to_md5_def print_stored digest_of_def cstring_def takeWhile_zero)

section \<open>Base64\<close>

text \<open>
  The filter \<open>BIO_f_base64\<close>. Writing gives the characters that go on to the next \<open>BIO\<close>, flushing the rest; reading in pieces of at most
  \<open>n\<close> bytes gives the list of pieces until the end. The argument says whether lines are broken (no \<open>BIO_FLAGS_BASE64_NO_NL\<close>).
\<close>

record 'c b64 =
  be_init :: "bool \<Rightarrow> 'c"
  be_write :: "'c \<Rightarrow> byte list \<Rightarrow> 'c \<times> byte list"
  be_flush :: "'c \<Rightarrow> byte list"
  bd_read :: "bool \<Rightarrow> byte list \<Rightarrow> nat \<Rightarrow> byte list list"

definition encoded :: "'c b64 \<Rightarrow> bool \<Rightarrow> byte list \<Rightarrow> byte list" where
  "encoded f nl bs = (case be_write f (be_init f nl) bs of (c, out) \<Rightarrow> out @ be_flush f c)"

text \<open>
  Documented behaviour: data may be written in pieces, encoded text has no zero byte, and what was encoded is read back in non-empty
  pieces that fit.
\<close>

definition b64_laws :: "'c b64 \<Rightarrow> bool" where
  "b64_laws f \<longleftrightarrow>
     (\<forall>c. be_write f c [] = (c, [])) \<and>
     (\<forall>c a b. be_write f c (a @ b) = (case be_write f c a of (c1, o1) \<Rightarrow> case be_write f c1 b of (c2, o2) \<Rightarrow> (c2, o1 @ o2))) \<and>
     (\<forall>nl bs. 0 \<notin> set (encoded f nl bs)) \<and>
     (\<forall>nl bs n. 0 < n \<longrightarrow> concat (bd_read f nl (encoded f nl bs) n) = bs \<and> (\<forall>p \<in> set (bd_read f nl (encoded f nl bs) n). p \<noteq> [] \<and> length p \<le> n))"

text \<open>\<open>encode\<close>: the result is a new string.\<close>

definition encode :: "'c b64 \<Rightarrow> byte list \<Rightarrow> byte list" where
  "encode f str = encoded f False (cstring str) @ [0]"

text \<open>\<open>decode\<close>: a block of as many bytes as the text has (old content \<open>junk\<close>), filled by one \<open>BIO_read\<close>; no zero is added.\<close>

definition decode :: "'c b64 \<Rightarrow> (nat \<Rightarrow> byte list) \<Rightarrow> byte list \<Rightarrow> byte list \<times> int" where
  "decode f junk data =
     (let input_len = length (cstring data); buf = junk input_len
      in case bd_read f False (cstring data) input_len of
          [] \<Rightarrow> (buf, 0)
        | p # _ \<Rightarrow> (put_at 0 p buf, int (length p)))"

text \<open>
  \<open>encode_file\<close> and \<open>decode_file\<close>: \<open>rd\<close> and \<open>wr\<close> say which files can be opened. Opening the destination empties it. Without a source nothing is
  read; without a destination nothing is hash_mem.
\<close>

type_synonym bfiles = "string \<rightharpoonup> byte list"

definition B64_BUF :: nat where "B64_BUF = 1024 * 4"

fun write_pieces :: "'c b64 \<Rightarrow> 'c \<Rightarrow> byte list list \<Rightarrow> byte list \<Rightarrow> 'c \<times> byte list" where
  "write_pieces f c [] out = (c, out)"
| "write_pieces f c (p # ps) out = (case be_write f c p of (c1, o1) \<Rightarrow> write_pieces f c1 ps (out @ o1))"

definition encode_file :: "'c b64 \<Rightarrow> (string \<Rightarrow> bool) \<Rightarrow> (string \<Rightarrow> bool) \<Rightarrow> string \<Rightarrow> string \<Rightarrow> bfiles \<Rightarrow> bfiles" where
  "encode_file f rd wr src dest fs =
     (if \<not> wr dest then fs
      else let fs1 = fs(dest \<mapsto> []);
          content = (if rd src then (case fs src of None \<Rightarrow> [] | Some _ \<Rightarrow> the (fs1 src)) else [])
        in case write_pieces f (be_init f True) (blocks B64_BUF content) [] of
            (c, out) \<Rightarrow> fs(dest \<mapsto> out @ be_flush f c))"

definition decode_file :: "'c b64 \<Rightarrow> (string \<Rightarrow> bool) \<Rightarrow> (string \<Rightarrow> bool) \<Rightarrow> string \<Rightarrow> string \<Rightarrow> bfiles \<Rightarrow> bfiles" where
  "decode_file f rd wr src dest fs =
     (if \<not> wr dest then fs
      else let fs1 = fs(dest \<mapsto> []);
          content = (if rd src then (case fs src of None \<Rightarrow> [] | Some _ \<Rightarrow> the (fs1 src)) else [])
        in fs(dest \<mapsto> concat (bd_read f True content B64_BUF)))"

lemma write_pieces_all:
  assumes "b64_laws f"
  shows "write_pieces f c ps out = (case be_write f c (concat ps) of (c1, o1) \<Rightarrow> (c1, out @ o1))"
proof (induction ps arbitrary: c out)
  case Nil
  then show ?case using assms by (simp add: b64_laws_def)
next
  case (Cons p ps)
  have "be_write f c (p @ concat ps) = (case be_write f c p of (c1, o1) \<Rightarrow> case be_write f c1 (concat ps) of (c2, o2) \<Rightarrow> (c2, o1 @ o2))"
    using assms by (simp add: b64_laws_def)
  with Cons show ?case by (simp split: prod.splits)
qed

lemma encode_file_encodes:
  assumes "b64_laws f" "fs src = Some content" "rd src" "wr dest" "src \<noteq> dest"
  shows "encode_file f rd wr src dest fs = fs(dest \<mapsto> encoded f True content)"
  using assms by (simp add: encode_file_def write_pieces_all encoded_def B64_BUF_def split: prod.splits)

text \<open>
  Base64 of files. A file of any length that is encoded block by block with \<open>encode_file\<close> and decoded with \<open>decode_file\<close> comes back unchanged, the
  other files stay as they are; when the source does not exist, both leave an empty (or flushed) destination behind instead of
  an error, and a file encoded onto itself is lost.
\<close>

theorem base64_file_roundtrip:
  assumes "b64_laws f" "rd a" "rd b" "wr b" "wr c" "a \<noteq> b" "b \<noteq> c"
  shows "(\<forall>content. fs a = Some content \<longrightarrow>
      decode_file f rd wr b c (encode_file f rd wr a b fs) = fs(b \<mapsto> encoded f True content, c \<mapsto> content)) \<and>
    (fs a = None \<longrightarrow> encode_file f rd wr a b fs = fs(b \<mapsto> encoded f True [])) \<and>
    (fs b \<noteq> None \<longrightarrow> encode_file f rd wr b b fs = fs(b \<mapsto> encoded f True []))"
proof (intro conjI allI impI)
  have n: "blocks B64_BUF ([] :: byte list) = []" by (simp add: blocks.simps)
  have pos: "0 < B64_BUF" by (simp add: B64_BUF_def)
  show "decode_file f rd wr b c (encode_file f rd wr a b fs) = fs(b \<mapsto> encoded f True content, c \<mapsto> content)" if "fs a = Some content" for content
  proof -
    have "encode_file f rd wr a b fs = fs(b \<mapsto> encoded f True content)" using assms that by (intro encode_file_encodes)
    moreover have "concat (bd_read f True (encoded f True content) B64_BUF) = content" using assms(1) pos by (simp add: b64_laws_def)
    ultimately show ?thesis using assms by (simp add: decode_file_def)
  qed
  show "encode_file f rd wr a b fs = fs(b \<mapsto> encoded f True [])" if "fs a = None"
    using that assms(1,4) n by (simp add: encode_file_def write_pieces_all encoded_def split: prod.splits)
  show "encode_file f rd wr b b fs = fs(b \<mapsto> encoded f True [])" if "fs b \<noteq> None"
    using that assms(1,4) n by (auto simp: encode_file_def write_pieces_all encoded_def split: prod.splits)
qed

text \<open>An instance of the laws: each byte as two letters.\<close>

definition ex_nibbles :: "byte list \<Rightarrow> byte list" where
  "ex_nibbles bs = concat (map (\<lambda>b. [b div 16 + 65, b mod 16 + 65]) bs)"

fun ex_bytes :: "byte list \<Rightarrow> byte list" where
  "ex_bytes (a # b # cs) = (16 * (a - 65) + (b - 65)) # ex_bytes cs"
| "ex_bytes _ = []"

definition ex_b64 :: "unit b64" where
  "ex_b64 = \<lparr>be_init = \<lambda>nl. (), be_write = \<lambda>c bs. ((), ex_nibbles bs), be_flush = \<lambda>c. [], bd_read = \<lambda>nl bs n. blocks n (ex_bytes bs)\<rparr>"

lemma ex_nibble: "16 * (b div 16) + b mod 16 = (b :: byte)"
  by (metis div_mult_mod_eq mult.commute)

lemma ex_bytes_nibbles: "ex_bytes (ex_nibbles bs) = bs"
  by (induction bs) (simp_all add: ex_nibbles_def ex_nibble)

lemma ex_letters: "0 \<notin> set (ex_nibbles bs)"
proof -
  have "b div 16 + 65 \<noteq> 0 \<and> b mod 16 + 65 \<noteq> 0" for b :: byte
  proof -
    have l: "uint (b div 16) < 16" "uint (b mod 16) < 16" using uint_lt2p [of b] by (simp_all add: uint_div uint_mod)
    have g: "0 \<le> uint (b div 16)" "0 \<le> uint (b mod 16)" by (rule uint_ge_0)+
    have "uint (b div 16 + 65) = uint (b div 16) + 65" "uint (b mod 16 + 65) = uint (b mod 16) + 65"
      using l g by (simp_all add: uint_word_ariths)
    with g have "uint (b div 16 + 65) \<noteq> 0" "uint (b mod 16 + 65) \<noteq> 0" by linarith+
    then show ?thesis by auto
  qed
  then show ?thesis by (auto simp: ex_nibbles_def)
qed

lemma ex_b64_laws: "b64_laws ex_b64"
  using ex_letters blocks_ne by (auto simp: b64_laws_def ex_b64_def encoded_def ex_bytes_nibbles) (auto simp: ex_nibbles_def)

theorem base64_file_roundtrip_witness:
  "decode_file ex_b64 (\<lambda>_. True) (\<lambda>_. True) ''b'' ''c'' (encode_file ex_b64 (\<lambda>_. True) (\<lambda>_. True) ''a'' ''b'' [''a'' \<mapsto> [7, 200]]) ''c'' = Some [7, 200]"
  using base64_file_roundtrip [OF ex_b64_laws, of "\<lambda>_. True" "''a''" "''b''" "\<lambda>_. True" "''c''" "[''a'' \<mapsto> [7, 200]]"] by simp

text \<open>
  The text that \<open>main\<close> prints after decoding: the block has no final zero, so that its old content is printed behind the text, up
  to a zero, and the block is left behind when there is none.
\<close>

definition print_decoded :: "byte list \<times> int \<Rightarrow> (byte list, unit) outcome" where
  "print_decoded r = (case cstr_at 0 (fst r) of None \<Rightarrow> Undef () | Some t \<Rightarrow> Ret t ())"

definition base64_main :: "'c b64 \<Rightarrow> (nat \<Rightarrow> byte list) \<Rightarrow> (string \<Rightarrow> bool) \<Rightarrow> (string \<Rightarrow> bool) \<Rightarrow> bfiles \<Rightarrow> (byte list \<times> byte list, bfiles) outcome" where
  "base64_main f junk rd wr fs =
     (let base64 = cstring (encode f (str_bytes ''Hello Base64'' @ [0]))
      in case print_decoded (decode f junk (str_bytes ''SGVsbG8gQmFzZTY0'' @ [0])) of
          Ret text _ \<Rightarrow> Ret (base64, text)
            (decode_file f rd wr ''codex_Base64.txt'' ''codex_decoded.txt'' (encode_file f rd wr ''codex.txt'' ''codex_Base64.txt'' fs))
        | _ \<Rightarrow> Undef fs)"

lemma decode_unterminated:
  assumes "bd_read f False (cstring data) (length (cstring data)) = p # ps" "0 \<notin> set p" "length p \<le> length (cstring data)"
    "length (junk (length (cstring data))) = length (cstring data)"
  shows "print_decoded (decode f junk data) =
    (let rest = drop (length p) (junk (length (cstring data))) in if 0 \<in> set rest then Ret (p @ cstring rest) () else Undef ())"
proof -
  have "takeWhile (\<lambda>b. b \<noteq> 0) (p @ xs) = p @ takeWhile (\<lambda>b. b \<noteq> 0) xs" for xs using assms(2) by (intro takeWhile_append2) auto
  with assms show ?thesis by (simp add: print_decoded_def decode_def cstr_at_def put_at_def cstring_def Let_def)
qed

end
