(* ===== verification/Show_Date.thy ===== *)
theory Show_Date
  imports Stdio
begin

text \<open>
  \<open>showdateInfo.c\<close>: prints the date in a format put together from its options, to standard output or to a file named among the
  arguments.
\<close>

section \<open>Options\<close>

text \<open>
  \<open>getopt\<close> with the string \<^verbatim>\<open>-H:MSy:md\<close>: options are returned in order, an argument that is no option as the code 1, an
  unknown option or a missing value as a question mark. The first argument is the rest of a word with several options.
\<close>

datatype opt = Opt char string | Arg string | Unknown

definition valued :: "char \<Rightarrow> bool" where
  "valued c \<longleftrightarrow> c = CHR ''H'' \<or> c = CHR ''y''"

definition plain :: "char \<Rightarrow> bool" where
  "plain c \<longleftrightarrow> c = CHR ''M'' \<or> c = CHR ''S'' \<or> c = CHR ''m'' \<or> c = CHR ''d''"

function getopts :: "string \<Rightarrow> string list \<Rightarrow> opt list" where
  "getopts [] [] = []"
| "getopts [] (a # as) =
     (if a = ''--'' then []
      else if a \<noteq> [] \<and> hd a = CHR ''-'' \<and> tl a \<noteq> [] then getopts (tl a) as
      else Arg a # getopts [] as)"
| "getopts (c # cs) as =
     (if valued c then
        (if cs \<noteq> [] then Opt c cs # getopts [] as
         else (case as of [] \<Rightarrow> [Unknown] | v # vs \<Rightarrow> Opt c v # getopts [] vs))
      else if plain c then Opt c [] # getopts cs as
      else Unknown # getopts cs as)"
  by pat_completeness auto
termination
  by (relation "measure (\<lambda>(cs, as). length cs + sum_list (map (\<lambda>a. length a + 1) as))") (auto split: list.splits)

section \<open>The format\<close>

definition FMTSTRSIZE :: nat where "FMTSTRSIZE = 1024"
definition TIMESTRSIZE :: nat where "TIMESTRSIZE = 1024"

text \<open>\<^verbatim>\<open>strncat(fmstr, s, FMTSTRSIZE - strlen(fmstr) - 1)\<close>.\<close>

definition add_fmt :: "string \<Rightarrow> string \<Rightarrow> string" where
  "add_fmt fm s = fm @ take (FMTSTRSIZE - length fm - 1) s"

text \<open>What an option adds to the format.\<close>

definition piece :: "opt \<Rightarrow> string" where
  "piece op = (case op of
      Opt c v \<Rightarrow>
        if c = CHR ''H'' then (if v = ''12'' then ''%I(%p) '' else if v = ''24'' then ''%H '' else [])
        else if c = CHR ''M'' then ''%M ''
        else if c = CHR ''S'' then ''%S ''
        else if c = CHR ''y'' then (if v = ''2'' then ''%y '' else if v = ''4'' then ''%Y '' else [])
        else if c = CHR ''m'' then ''%m ''
        else if c = CHR ''d'' then ''%d ''
        else []
    | _ \<Rightarrow> [])"

text \<open>The loop over the options: the format, the open file (\<open>None\<close>: standard output) and the files. A file that cannot be opened leaves standard output.\<close>

record show_st =
  fmstr :: string
  fp :: "string option"
  files :: "string \<rightharpoonup> string"

definition show_turn :: "(string \<Rightarrow> bool) \<Rightarrow> opt \<Rightarrow> show_st \<Rightarrow> show_st" where
  "show_turn opens op s = (case op of
      Arg p \<Rightarrow> if opens p then s\<lparr>fp := Some p, files := (files s)(p \<mapsto> [])\<rparr> else s\<lparr>fp := None\<rparr>
    | _ \<Rightarrow> s\<lparr>fmstr := add_fmt (fmstr s) (piece op)\<rparr>)"

section \<open>Printing the time\<close>

text \<open>The broken-down time, and \<open>strftime\<close> for the conversions used; \<open>None\<close>: a conversion that is not one of them.\<close>

record tm =
  tm_hour :: nat
  tm_min :: nat
  tm_sec :: nat
  tm_mday :: nat
  tm_mon :: nat
  tm_year :: nat

definition two :: "nat \<Rightarrow> string" where
  "two n = show_nat (n div 10 mod 10) @ show_nat (n mod 10)"

definition conv :: "tm \<Rightarrow> char \<Rightarrow> string option" where
  "conv t c =
     (if c = CHR ''I'' then Some (two ((tm_hour t + 11) mod 12 + 1))
      else if c = CHR ''p'' then Some (if tm_hour t < 12 then ''AM'' else ''PM'')
      else if c = CHR ''H'' then Some (two (tm_hour t))
      else if c = CHR ''M'' then Some (two (tm_min t))
      else if c = CHR ''S'' then Some (two (tm_sec t))
      else if c = CHR ''y'' then Some (two (tm_year t mod 100))
      else if c = CHR ''Y'' then Some (show_nat (tm_year t + 1900))
      else if c = CHR ''m'' then Some (two (tm_mon t + 1))
      else if c = CHR ''d'' then Some (two (tm_mday t))
      else None)"

fun strftime :: "tm \<Rightarrow> string \<Rightarrow> string option" where
  "strftime t [] = Some []"
| "strftime t [c] = (if c = CHR ''%'' then None else Some [c])"
| "strftime t (c # d # cs) =
     (if c = CHR ''%'' then (case conv t d of None \<Rightarrow> None | Some x \<Rightarrow> map_option (append x) (strftime t cs))
      else map_option (Cons c) (strftime t (d # cs)))"

text \<open>
  \<open>main\<close>. When the text and its final zero do not fit into \<open>timestr\<close>, \<open>strftime\<close> returns 0 and the content of \<open>timestr\<close>, which is then printed, is
  undefined. The result: standard output and the files.
\<close>

definition show_main :: "(string \<Rightarrow> bool) \<Rightarrow> tm \<Rightarrow> string list \<Rightarrow> (string \<rightharpoonup> string) \<Rightarrow> (unit, string \<times> (string \<rightharpoonup> string)) outcome" where
  "show_main opens t argv fs =
     (let s = fold (show_turn opens) (getopts [] (tl argv)) \<lparr>fmstr = [], fp = None, files = fs\<rparr>;
          fm = add_fmt (fmstr s) [CHR 0x0A]
      in case strftime t fm of
          None \<Rightarrow> Undef ([], files s)
        | Some timestr \<Rightarrow>
            if length timestr + 1 > TIMESTRSIZE then Undef ([], files s)
            else (case fp s of
                None \<Rightarrow> Exit 0 (timestr, files s)
              | Some p \<Rightarrow> Exit 0 ([], (files s)(p \<mapsto> timestr))))"

section \<open>What is printed\<close>

text \<open>The text each option stands for, written out.\<close>

definition field :: "tm \<Rightarrow> opt \<Rightarrow> string" where
  "field t op =
     (if op = Opt (CHR ''H'') ''12'' then two ((tm_hour t + 11) mod 12 + 1) @ ''('' @ (if tm_hour t < 12 then ''AM'' else ''PM'') @ '') ''
      else if op = Opt (CHR ''H'') ''24'' then two (tm_hour t) @ '' ''
      else if op = Opt (CHR ''y'') ''2'' then two (tm_year t mod 100) @ '' ''
      else if op = Opt (CHR ''y'') ''4'' then show_nat (tm_year t + 1900) @ '' ''
      else case op of
          Opt c v \<Rightarrow> if c = CHR ''M'' then two (tm_min t) @ '' ''
            else if c = CHR ''S'' then two (tm_sec t) @ '' ''
            else if c = CHR ''m'' then two (tm_mon t + 1) @ '' ''
            else if c = CHR ''d'' then two (tm_mday t) @ '' ''
            else []
        | _ \<Rightarrow> [])"

lemma strftime_piece: "strftime t (piece op) = Some (field t op)"
  by (cases op) (auto simp: piece_def field_def conv_def)

lemma append_one: "(@) [c] = Cons c"
  by (rule ext) simp

lemma strftime_append: "strftime t a = Some x \<Longrightarrow> strftime t (a @ b) = map_option (append x) (strftime t b)"
proof (induction t a arbitrary: x rule: strftime.induct)
  case (1 t)
  then show ?case by (simp add: option.map_ident)
next
  case (2 t c)
  then show ?case by (cases b) (auto simp: append_one split: if_splits)
next
  case (3 t c d cs)
  then show ?case by (cases "strftime t b") (auto split: if_splits option.splits)
qed

lemma strftime_pieces: "strftime t (concat (map piece ops) @ [CHR 0x0A]) = Some (concat (map (field t) ops) @ [CHR 0x0A])"
proof (induction ops)
  case (Cons op ops)
  then show ?case using strftime_append [OF strftime_piece, of t op "concat (map piece ops) @ [CHR 0x0A]"] by simp
qed simp

text \<open>The format never outgrows its array; options beyond it are cut off.\<close>

lemma add_fmt_bound: "length fm < FMTSTRSIZE \<Longrightarrow> length (add_fmt fm s) < FMTSTRSIZE"
  by (auto simp: add_fmt_def)

lemma show_turns_bound: "length (fmstr s) < FMTSTRSIZE \<Longrightarrow> length (fmstr (fold (show_turn opens) ops s)) < FMTSTRSIZE"
  by (induction ops arbitrary: s) (auto simp: show_turn_def add_fmt_bound split: opt.splits)

text \<open>The file chosen by the arguments, and the files they have emptied.\<close>

definition target :: "(string \<Rightarrow> bool) \<Rightarrow> opt list \<Rightarrow> string option \<Rightarrow> string option" where
  "target opens ops p0 = fold (\<lambda>op p. case op of Arg q \<Rightarrow> if opens q then Some q else None | _ \<Rightarrow> p) ops p0"

definition emptied :: "(string \<Rightarrow> bool) \<Rightarrow> opt list \<Rightarrow> (string \<rightharpoonup> string) \<Rightarrow> string \<rightharpoonup> string" where
  "emptied opens ops fs = fold (\<lambda>op fs. case op of Arg q \<Rightarrow> if opens q then fs(q \<mapsto> []) else fs | _ \<Rightarrow> fs) ops fs"

lemma show_turns:
  assumes "length (fmstr s) + length (concat (map piece ops)) < FMTSTRSIZE"
  shows "fold (show_turn opens) ops s = \<lparr>fmstr = fmstr s @ concat (map piece ops), fp = target opens ops (fp s), files = emptied opens ops (files s)\<rparr>"
  using assms
proof (induction ops arbitrary: s)
  case Nil
  then show ?case by (simp add: target_def emptied_def)
next
  case (Cons op ops)
  have f: "fmstr (show_turn opens op s) = fmstr s @ piece op"
    using Cons.prems by (cases op) (auto simp: show_turn_def piece_def add_fmt_def)
  have "fold (show_turn opens) ops (show_turn opens op s) = \<lparr>fmstr = fmstr (show_turn opens op s) @ concat (map piece ops),
      fp = target opens ops (fp (show_turn opens op s)), files = emptied opens ops (files (show_turn opens op s))\<rparr>"
    using Cons.prems f by (intro Cons.IH) simp
  moreover have "target opens ops (fp (show_turn opens op s)) = target opens (op # ops) (fp s)"
    "emptied opens ops (files (show_turn opens op s)) = emptied opens (op # ops) (files s)"
    by (cases op; simp add: show_turn_def target_def emptied_def)+
  ultimately show ?case using f by simp
qed

lemma show_main_fits:
  fixes t :: tm
  assumes "length (concat (map piece (getopts [] args))) + 1 < FMTSTRSIZE"
  defines "ops \<equiv> getopts [] args"
  defines "out \<equiv> concat (map (field t) ops) @ [CHR 0x0A]"
  shows "show_main opens t (prog # args) fs =
    (if length out < TIMESTRSIZE
     then case target opens ops None of None \<Rightarrow> Exit 0 (out, emptied opens ops fs) | Some p \<Rightarrow> Exit 0 ([], (emptied opens ops fs)(p \<mapsto> out))
     else Undef ([], emptied opens ops fs))"
proof -
  have "fold (show_turn opens) ops \<lparr>fmstr = [], fp = None, files = fs\<rparr> = \<lparr>fmstr = concat (map piece ops), fp = target opens ops None, files = emptied opens ops fs\<rparr>"
    using assms(1) by (subst show_turns) (simp_all add: ops_def)
  moreover have "add_fmt (concat (map piece ops)) [CHR 0x0A] = concat (map piece ops) @ [CHR 0x0A]" using assms(1) by (simp add: add_fmt_def ops_def)
  ultimately show ?thesis using strftime_pieces [of t ops]
    by (auto simp: show_main_def out_def ops_def Let_def split: option.splits)
qed

text \<open>Three hundred four-digit years fit into the format and not into the text.\<close>

lemma years: "getopts [] (replicate n ''-y4'') = replicate n (Opt (CHR ''y'') ''4'')"
  by (induction n) (simp_all add: valued_def)

lemma show_date_overruns:
  assumes "getopts [] args = replicate 300 (Opt (CHR ''y'') ''4'')" "tm_year t = 125"
  shows "show_main opens t (prog # args) fs = Undef ([], fs)"
proof -
  have y: "length (field t (Opt (CHR ''y'') ''4'')) = 5" using assms(2) by (simp add: field_def show_nat.simps)
  have e: "emptied opens (replicate n (Opt c v)) fs = fs" for n c v by (induction n) (simp_all add: emptied_def)
  have l: "length (concat (replicate n xs)) = n * length xs" for n and xs :: string by (induction n) simp_all
  have "length (piece (Opt (CHR ''y'') ''4'')) = 3" by (simp add: piece_def)
  then show ?thesis using y by (subst show_main_fits) (simp_all add: assms(1) map_replicate e l FMTSTRSIZE_def TIMESTRSIZE_def)
qed

text \<open>
  C25: The date as asked for. When the formats of the options fit into the format array, \<open>showdateInfo.c\<close> prints the fields in the
  order of the options, each with a blank, and a newline -- to the file named last among the arguments if it can
  be opened, else to standard output. When this text does not fit into its own array, what is printed is undefined; three hundred options \<open>-y4\<close>, whose text is longer than
  their format, are an example.
\<close>

theorem show_date:
  "(length (concat (map piece (getopts [] args))) + 1 < FMTSTRSIZE \<longrightarrow>
     show_main opens t (prog # args) fs =
       (let ops = getopts [] args; out = concat (map (field t) ops) @ [CHR 0x0A]; fs' = emptied opens ops fs
        in if length out < TIMESTRSIZE
           then case target opens ops None of None \<Rightarrow> Exit 0 (out, fs') | Some p \<Rightarrow> Exit 0 ([], fs'(p \<mapsto> out))
           else Undef ([], fs'))) \<and>
   (tm_year t = 125 \<longrightarrow> show_main opens t (prog # replicate 300 ''-y4'') fs = Undef ([], fs))"
  using show_main_fits [of args opens t prog fs] show_date_overruns [OF years, of t opens prog fs] by (simp add: Let_def)

theorem show_date_witness:
  "show_main (\<lambda>_. True) \<lparr>tm_hour = 15, tm_min = 4, tm_sec = 9, tm_mday = 1, tm_mon = 0, tm_year = 125\<rparr> [''show'', ''-y4'', ''-H'', ''12''] Map.empty =
     Exit 0 (''2025 03(PM) '' @ [CHR 0x0A], Map.empty)"
proof -
  have d: "show_nat 2025 = ''2025''" "show_nat 0 = ''0''" "show_nat 3 = ''3''" by code_simp+
  show ?thesis
    using show_date [of "[''-y4'', ''-H'', ''12'']" "\<lambda>_. True" "\<lparr>tm_hour = 15, tm_min = 4, tm_sec = 9, tm_mday = 1, tm_mon = 0, tm_year = 125\<rparr>"
      "''show''" Map.empty] by (simp add: valued_def Let_def d piece_def field_def two_def target_def emptied_def FMTSTRSIZE_def TIMESTRSIZE_def)
qed

end
