(* ===== verification/File_Demos.thy ===== *)
theory File_Demos
  imports Copy_Tools Memory Stdio
begin

text \<open>
  Further small programs over files: records written and read in binary form (\<open>IO/standradIO/iob.c\<close>, \<open>iobRead.c\<close>), copying in blocks (\<open>iob2.c\<close>), cutting
  into slices (\<open>IO/dir/split.c\<close>), listing a directory (\<open>IO/dir/dir.c\<close>), counting a letter in a mapped file (\<open>proIO/mmap/mmap.c\<close>) and numbering
  the lines of a log (\<open>timelog.c\<close>).
\<close>

section \<open>Records in binary form\<close>

text \<open>
  \<open>struct person\<close>: ten bytes of name, two of padding, the age. A structure keeps the old bytes behind the string and in the padding.
\<close>

definition PERSON :: nat where "PERSON = 16"
definition AGE_AT :: nat where "AGE_AT = 12"

definition person :: "byte list \<Rightarrow> string \<Rightarrow> int \<Rightarrow> byte list" where
  "person old name age = put_at AGE_AT (le_bytes 4 age) (put_at 0 (str_bytes name @ [0]) old)"

text \<open>\<open>iob.c\<close>: \<open>p1\<close> is initialised (only its padding \<open>pad\<close> is old), \<open>p2\<close> lies on the stack, \<open>p3\<close> on the heap (\<open>None\<close>: \<open>malloc\<close> has failed, which is not tested).\<close>

definition iob_main :: "byte list \<Rightarrow> byte list \<Rightarrow> byte list option \<Rightarrow> perms \<Rightarrow> string list \<Rightarrow> files \<Rightarrow> (unit, files) outcome" where
  "iob_main pad stack heap p argv fs = (case heap of
      None \<Rightarrow> Undef fs
    | Some blk \<Rightarrow>
        let p1 = person (replicate 10 0 @ pad @ replicate 4 0) ''Cassie'' 21; p2 = person stack ''Sid'' 21; p3 = person blk ''Effy'' 21
        in if length argv < 2 then Undef fs
           else if \<not> may_write p (argv ! 1) then Exit 1 fs
           else Exit 0 (fs(argv ! 1 \<mapsto> p1 @ p2 @ p3)))"

text \<open>
  \<open>iobRead.c\<close>: up to three records are read over the old content of the array \<open>p2\<close>; each is printed as a string and a number. A
  name without a zero runs on into the bytes behind it.
\<close>

definition read_person :: "byte list \<Rightarrow> nat \<Rightarrow> (byte list \<times> int) option" where
  "read_person mem i = map_option (\<lambda>name. (name, le_int (take 4 (drop (i * PERSON + AGE_AT) mem)))) (cstr_at (i * PERSON) mem)"

fun print_persons :: "byte list \<Rightarrow> nat list \<Rightarrow> (byte list \<times> int) list \<Rightarrow> (unit, (byte list \<times> int) list) outcome" where
  "print_persons mem [] out = Exit 0 out"
| "print_persons mem (i # is) out = (case read_person mem i of None \<Rightarrow> Undef out | Some r \<Rightarrow> print_persons mem is (out @ [r]))"

definition iobRead_main :: "byte list \<Rightarrow> perms \<Rightarrow> string list \<Rightarrow> files \<Rightarrow> (unit, (byte list \<times> int) list) outcome" where
  "iobRead_main junk p argv fs =
     (if length argv < 2 then Undef []
      else case fs (argv ! 1) of
          None \<Rightarrow> Exit 1 []
        | Some content \<Rightarrow>
            if \<not> may_read p (argv ! 1) then Exit 1 []
            else print_persons (put_at 0 (take (3 * PERSON) content) junk) [0, 1, 2] [])"

lemma person_layout:
  assumes "length old = PERSON" "length name < 10"
  shows "\<exists>pad. person old name age = str_bytes name @ 0 # pad @ le_bytes 4 age \<and> length pad = 11 - length name"
proof -
  let ?pad = "drop (length name + 1) (take AGE_AT old)"
  have "put_at 0 (str_bytes name @ [0]) old = str_bytes name @ 0 # drop (length name + 1) old" by (simp add: put_at_def str_bytes_def)
  then have "person old name age = str_bytes name @ 0 # ?pad @ le_bytes 4 age"
    using assms by (simp add: person_def put_at_def PERSON_def AGE_AT_def str_bytes_def drop_take take_Cons' drop_Cons' Suc_diff_Suc)
  moreover have "length ?pad = 11 - length name" using assms by (simp add: PERSON_def AGE_AT_def)
  ultimately show ?thesis by blast
qed

lemma read_person_at:
  assumes "length pre = i * PERSON" "length old = PERSON" "length name < 10" "CHR 0x00 \<notin> set name" "INT_MIN \<le> age" "age \<le> INT_MAX"
  shows "read_person (pre @ person old name age @ post) i = Some (str_bytes name, age)"
proof -
  obtain pad where p: "person old name age = str_bytes name @ 0 # pad @ le_bytes 4 age" "length pad = 11 - length name"
    using person_layout [OF assms(2,3)] by blast
  have z: "0 \<notin> set (str_bytes name)" using assms(4) by (auto simp: str_bytes_def of_char_0)
  have "cstr_at (i * PERSON) (pre @ person old name age @ post) = Some (str_bytes name)"
    using assms(1) p(1) z by (simp add: cstr_at_def cstring_def takeWhile_zero)
  moreover have "drop (i * PERSON + AGE_AT) (pre @ person old name age @ post) = le_bytes 4 age @ post"
  proof -
    let ?q = "pre @ str_bytes name @ 0 # pad"
    have "length ?q = i * PERSON + AGE_AT" using p(2) assms(1,3) by (simp add: AGE_AT_def str_bytes_def)
    moreover have "pre @ person old name age @ post = ?q @ le_bytes 4 age @ post" using p(1) by simp
    ultimately show ?thesis by (metis append_eq_conv_conj)
  qed
  ultimately show ?thesis using assms(5,6) by (simp add: read_person_def le_int_le_bytes INT_MIN_def INT_MAX_def)
qed

lemma length_person: "length old = PERSON \<Longrightarrow> length name < 10 \<Longrightarrow> length (person old name age) = PERSON"
  by (simp add: person_def AGE_AT_def PERSON_def str_bytes_def put_at_def)

text \<open>
  Records survive the file. Whatever the structures held before -- padding, stack, heap -- \<open>iobRead.c\<close> prints from the file of
  \<open>iob.c\<close> the three names and ages that were stored, from whatever content of its own array.
\<close>

theorem persons_roundtrip:
  assumes "length pad = 2" "length stack = PERSON" "length blk = PERSON" "length junk = 3 * PERSON" "may_write p f" "may_read p f"
  shows "\<exists>fs'. iob_main pad stack (Some blk) p [prog, f] fs = Exit 0 fs' \<and>
    iobRead_main junk p [prog', f] fs' = Exit 0 [(str_bytes ''Cassie'', 21), (str_bytes ''Sid'', 21), (str_bytes ''Effy'', 21)]"
proof -
  let ?z = "replicate 10 0 @ pad @ replicate 4 0"
  let ?p1 = "person ?z ''Cassie'' 21" and ?p2 = "person stack ''Sid'' 21" and ?p3 = "person blk ''Effy'' 21"
  let ?m = "?p1 @ ?p2 @ ?p3"
  have z: "length ?z = PERSON" using assms(1) by (simp add: PERSON_def)
  have l: "length ?p1 = PERSON" "length ?p2 = PERSON" "length ?p3 = PERSON"
    using z assms(2,3) by (simp_all add: length_person)
  have e: "INT_MIN \<le> 21" "21 \<le> INT_MAX" by (simp_all add: INT_MIN_def INT_MAX_def)
  have 1: "read_person ?m 0 = Some (str_bytes ''Cassie'', 21)"
    using read_person_at [of "[]" 0 ?z "''Cassie''" 21 "?p2 @ ?p3"] z e by simp
  have 2: "read_person ?m 1 = Some (str_bytes ''Sid'', 21)"
    using read_person_at [of ?p1 1 stack "''Sid''" 21 ?p3] l assms(2) e by simp
  have 3: "read_person ?m 2 = Some (str_bytes ''Effy'', 21)"
    using read_person_at [of "?p1 @ ?p2" 2 blk "''Effy''" 21 "[]"] l assms(3) e by simp
  have "put_at 0 (take (3 * PERSON) ?m) junk = ?m" using l assms(4) by (simp add: put_at_def)
  with 1 2 3 assms(5,6) show ?thesis by (simp add: iob_main_def iobRead_main_def Let_def)
qed

theorem persons_roundtrip_witness:
  "\<exists>fs'. iob_main [1, 2] (replicate 16 3) (Some (replicate 16 4)) \<lparr>may_read = \<lambda>_. True, may_write = \<lambda>_. True\<rparr> [''iob'', ''f''] Map.empty = Exit 0 fs' \<and>
    iobRead_main (replicate 48 5) \<lparr>may_read = \<lambda>_. True, may_write = \<lambda>_. True\<rparr> [''iobRead'', ''f''] fs' =
      Exit 0 [(str_bytes ''Cassie'', 21), (str_bytes ''Sid'', 21), (str_bytes ''Effy'', 21)]"
  by (rule persons_roundtrip) (simp_all add: PERSON_def)

section \<open>Blocks and slices\<close>

text \<open>\<open>iob2.c\<close> (the same file in \<open>IO/standradIO\<close> and \<open>IO/dir\<close>): blocks of 32 bytes. Opening the destination empties it.\<close>

definition BUFFERSIZE :: nat where "BUFFERSIZE = 32"

definition iob2_main :: "perms \<Rightarrow> string list \<Rightarrow> files \<Rightarrow> (unit, files) outcome" where
  "iob2_main p argv fs =
     (if length argv < 3 then Undef fs
      else if fs (argv ! 1) = None \<or> \<not> may_read p (argv ! 1) then Exit 1 fs
      else if \<not> may_write p (argv ! 2) then Exit 1 fs
      else let fs1 = fs(argv ! 2 \<mapsto> []) in Exit 0 (fs(argv ! 2 \<mapsto> fold (\<lambda>b out. out @ b) (blocks BUFFERSIZE (the (fs1 (argv ! 1)))) [])))"

lemma fold_append: "fold (\<lambda>b out. out @ b) bs out = out @ concat bs"
  by (induction bs arbitrary: out) simp_all

lemma iob2_copies:
  assumes "fs src = Some content" "may_read p src" "may_write p dst"
  shows "iob2_main p [prog, src, dst] fs = Exit 0 (fs(dst \<mapsto> if src = dst then [] else content))"
  using assms blocks.simps [of BUFFERSIZE "[] :: byte list"] by (simp add: iob2_main_def fold_append BUFFERSIZE_def Let_def)

text \<open>
  \<open>split.c\<close>: slices of 64 bytes in files of their own, none of which is closed; a slice that cannot be created ends the program. \<open>ok\<close> tells
  for the number of a slice whether \<open>fopen\<close> succeeds.
\<close>

definition SLICE :: nat where "SLICE = 64"

definition slice_name :: "nat \<Rightarrow> string" where
  "slice_name i = ''split_'' @ show_nat i @ ''.txt''"

fun split_loop :: "(nat \<Rightarrow> bool) \<Rightarrow> nat \<Rightarrow> byte list list \<Rightarrow> files \<Rightarrow> (unit, files) outcome" where
  "split_loop ok i [] fs = Ret () fs"
| "split_loop ok i (b # bs) fs = (if \<not> ok i then Exit 1 fs else split_loop ok (i + 1) bs (fs(slice_name i \<mapsto> b)))"

definition split_main :: "(nat \<Rightarrow> bool) \<Rightarrow> perms \<Rightarrow> string list \<Rightarrow> files \<Rightarrow> (unit, files) outcome" where
  "split_main ok p argv fs =
     (if length argv < 2 then Undef fs
      else case fs (argv ! 1) of
          None \<Rightarrow> Exit 1 fs
        | Some content \<Rightarrow>
            if \<not> may_read p (argv ! 1) \<or> \<not> may_write p (argv ! 1) then Exit 1 fs
            else split_loop ok 1 (blocks SLICE content) fs)"

lemma slice_name_inj: "slice_name i = slice_name j \<longleftrightarrow> i = j"
proof
  assume "slice_name i = slice_name j"
  then have "read_nat (show_nat i) = read_nat (show_nat j)" by (simp add: slice_name_def)
  then show "i = j" by simp
qed simp

lemma split_loop_slices:
  assumes "\<forall>k < length bs. ok (i + k)"
  shows "\<exists>fs'. split_loop ok i bs fs = Ret () fs' \<and> (\<forall>k < length bs. fs' (slice_name (i + k)) = Some (bs ! k)) \<and>
    (\<forall>f. (\<forall>k < length bs. f \<noteq> slice_name (i + k)) \<longrightarrow> fs' f = fs f)"
  using assms
proof (induction bs arbitrary: i fs)
  case (Cons b bs)
  let ?fs = "fs(slice_name i \<mapsto> b)"
  have "ok i" using Cons.prems by (metis add.right_neutral length_Cons zero_less_Suc)
  moreover have "\<forall>k < length bs. ok (i + 1 + k)" using Cons.prems by auto
  from Cons.IH [OF this, of ?fs] obtain fs' where f: "split_loop ok (i + 1) bs ?fs = Ret () fs'"
    "\<And>k. k < length bs \<Longrightarrow> fs' (slice_name (i + 1 + k)) = Some (bs ! k)"
    "\<And>g. \<forall>k < length bs. g \<noteq> slice_name (i + 1 + k) \<Longrightarrow> fs' g = ?fs g" by blast
  have "fs' (slice_name i) = Some b" using f(3) [of "slice_name i"] by (simp add: slice_name_inj)
  then have "fs' (slice_name (i + k)) = Some ((b # bs) ! k)" if "k < length (b # bs)" for k
    using f(2) [of "k - 1"] that by (cases k) auto
  moreover have "fs' g = fs g" if "\<forall>k < length (b # bs). g \<noteq> slice_name (i + k)" for g
  proof -
    have "\<forall>k < length bs. g \<noteq> slice_name (i + 1 + k)" using that by (metis Suc_less_eq add.assoc length_Cons plus_1_eq_Suc)
    moreover have "g \<noteq> slice_name i" using that by (metis add.right_neutral length_Cons zero_less_Suc)
    ultimately show ?thesis using f(3) [of g] by simp
  qed
  ultimately show ?case using f(1) by auto
qed simp

lemma split_cuts:
  assumes "fs src = Some content" "may_read p src" "may_write p src" "\<forall>i. ok i"
  shows "\<exists>fs'. split_main ok p [prog, src] fs = Ret () fs' \<and>
    concat (map (\<lambda>i. the (fs' (slice_name i))) [1..<1 + length (blocks SLICE content)]) = content"
proof -
  let ?bs = "blocks SLICE content"
  obtain fs' where f: "split_loop ok 1 ?bs fs = Ret () fs'" "\<And>k. k < length ?bs \<Longrightarrow> fs' (slice_name (1 + k)) = Some (?bs ! k)"
    using split_loop_slices [of ?bs ok 1 fs] assms(4) by blast
  have "map (\<lambda>i. the (fs' (slice_name i))) [1..<1 + length ?bs] = ?bs"
    by (rule nth_equalityI) (use f(2) in \<open>auto simp del: upt_Suc\<close>)
  moreover have "concat ?bs = content" by (simp add: SLICE_def)
  ultimately show ?thesis using assms f(1) by (simp add: split_main_def)
qed

section \<open>Listing a directory\<close>

text \<open>
  \<open>dir.c\<close>: for every name that does not begin with a dot a letter for its kind, the number and the name. The letter is kept in a
  variable that other kinds do not set: they show the letter of the entry before, or \<open>junk\<close>. \<open>None\<close> among the results of \<open>readdir\<close> is an error.
\<close>

record dirent =
  d_type :: nat
  d_ino :: nat
  d_name :: string

definition type_char :: "nat \<Rightarrow> char \<Rightarrow> char" where
  "type_char k c = (if k = 8 then CHR ''-'' else if k = 10 then CHR ''l'' else if k = 4 then CHR ''d'' else c)"

fun dir_loop :: "dirent option list \<Rightarrow> char \<Rightarrow> (char \<times> nat \<times> string) list \<Rightarrow> (unit, (char \<times> nat \<times> string) list) outcome" where
  "dir_loop [] c out = Exit 0 out"
| "dir_loop (None # es) c out = Exit 1 out"
| "dir_loop (Some e # es) c out =
     (if take 1 (d_name e) \<noteq> ''.'' then let c1 = type_char (d_type e) c in dir_loop es c1 (out @ [(c1, d_ino e, d_name e)])
      else dir_loop es c out)"

definition dir_main :: "(string \<Rightarrow> dirent option list option) \<Rightarrow> char \<Rightarrow> string list \<Rightarrow> (unit, (char \<times> nat \<times> string) list) outcome" where
  "dir_main opendir junk argv =
     (if length argv < 2 then Undef [] else case opendir (argv ! 1) of None \<Rightarrow> Exit 1 [] | Some es \<Rightarrow> dir_loop es junk [])"

text \<open>With files, links and directories only, the listing is right; another kind takes over the letter before it.\<close>

lemma dir_lists:
  assumes "\<forall>e \<in> set es. d_type e \<in> {4, 8, 10}"
  shows "dir_loop (map Some es) c out =
    Exit 0 (out @ map (\<lambda>e. (type_char (d_type e) CHR ''?'', d_ino e, d_name e)) (filter (\<lambda>e. take 1 (d_name e) \<noteq> ''.'') es))"
  using assms by (induction es arbitrary: c out) (auto simp: type_char_def Let_def)

lemma dir_stale:
  "d_type e = 4 \<Longrightarrow> d_type f \<notin> {4, 8, 10} \<Longrightarrow> take 1 (d_name e) \<noteq> ''.'' \<Longrightarrow> take 1 (d_name f) \<noteq> ''.'' \<Longrightarrow>
   dir_loop [Some e, Some f] c [] = Exit 0 [(CHR ''d'', d_ino e, d_name e), (CHR ''d'', d_ino f, d_name f)]"
  by (simp add: type_char_def Let_def)

section \<open>Counting in a mapped file\<close>

text \<open>\<open>mmap.c\<close>: the letter \<open>a\<close> in the bytes of the mapping. \<open>mmap\<close> refuses a length of 0.\<close>

fun count_a :: "byte list \<Rightarrow> nat \<Rightarrow> nat" where
  "count_a [] count = count"
| "count_a (b # bs) count = count_a bs (if b = 97 then count + 1 else count)"

definition mmap_main :: "perms \<Rightarrow> bool \<Rightarrow> bool \<Rightarrow> string list \<Rightarrow> files \<Rightarrow> (unit, nat option) outcome" where
  "mmap_main p stat_ok map_ok argv fs =
     (if length argv < 2 then Exit 1 None
      else case fs (argv ! 1) of
          None \<Rightarrow> Exit 1 None
        | Some str \<Rightarrow>
            if \<not> may_read p (argv ! 1) then Exit 1 None
            else if \<not> stat_ok then Exit 1 None
            else if \<not> map_ok \<or> length str = 0 then Exit 1 None
            else Exit 0 (Some (count_a str 0)))"

lemma count_a_length: "count_a bs n = n + length (filter (\<lambda>b. b = 97) bs)"
  by (induction bs arbitrary: n) simp_all

lemma mmap_counts:
  assumes "fs f = Some content" "may_read p f"
  shows "mmap_main p True True [prog, f] fs = (if content = [] then Exit 1 None else Exit 0 (Some (length (filter (\<lambda>b. b = 97) content))))"
  using assms by (simp add: mmap_main_def count_a_length)

section \<open>Numbering a log\<close>

text \<open>
  \<open>timelog.c\<close>: the lines of the log are counted with \<open>fgets\<close> and a buffer of 1024 bytes; the entries that follow are numbered from there. The
  clock is a list of texts.
\<close>

definition LOGBUF :: nat where "LOGBUF = 1024"

function count_lines :: "string \<Rightarrow> nat \<Rightarrow> nat" where
  "count_lines f count = (case next_line LOGBUF f of None \<Rightarrow> count | Some (t, rest) \<Rightarrow> count_lines rest (count + 1))"
  by pat_completeness auto
termination
proof (relation "measure (\<lambda>(f, count). length f)")
  fix f count and x :: "string \<times> string" and t rest :: string
  assume "next_line LOGBUF f = Some x" "(t, rest) = x"
  then have "fgets LOGBUF f = Some t" "rest = drop (length t) f" by (auto simp: next_line_def)
  with fgets_bound [of LOGBUF f t] show "((rest, count + 1), f, count) \<in> measure (\<lambda>(f, count). length f)"
    by (cases f) (auto simp: LOGBUF_def)
qed simp

declare count_lines.simps [simp del]

text \<open>\<^verbatim>\<open>%-4d\<close>: the number, filled up with blanks to four characters.\<close>

definition left4 :: "nat \<Rightarrow> string" where
  "left4 n = show_nat n @ replicate (4 - length (show_nat n)) CHR '' ''"

fun log_entries :: "string list \<Rightarrow> nat \<Rightarrow> string \<Rightarrow> string" where
  "log_entries [] count f = f"
| "log_entries (t # ts) count f = log_entries ts (count + 1) (f @ left4 (count + 1) @ t @ [CHR 0x0A])"

definition timelog_main :: "bool \<Rightarrow> string list \<Rightarrow> string list \<Rightarrow> string \<Rightarrow> (unit, string) outcome" where
  "timelog_main opened clock argv f =
     (if length argv < 2 then Undef f else if \<not> opened then Exit 1 f else Blocked (log_entries clock (count_lines f 0) f))"

lemma count_lines_all:
  assumes "\<forall>l \<in> set ls. CHR 0x0A \<notin> set l \<and> length l + 1 < LOGBUF"
  shows "count_lines (concat (map (\<lambda>l. l @ [CHR 0x0A]) ls)) n = n + length ls"
  using assms
proof (induction ls arbitrary: n)
  case Nil
  then show ?case by (subst count_lines.simps) (simp add: next_line_def fgets_def)
next
  case (Cons l ls)
  then show ?case by (subst count_lines.simps) (simp add: next_line_line)
qed

lemma log_entries_append: "log_entries ts n f = f @ concat (map (\<lambda>(k, t). left4 (n + k) @ t @ [CHR 0x0A]) (zip [1..<1 + length ts] ts))"
proof (induction ts arbitrary: n f)
  case (Cons t ts)
  have "[1..<1 + length (t # ts)] = 1 # map Suc [1..<1 + length ts]" by (simp add: upt_conv_Cons map_Suc_upt del: upt_Suc)
  with Cons show ?case by (simp add: zip_map1 case_prod_beta' comp_def)
qed simp

text \<open>A second run numbers on where the first one stopped.\<close>

lemma timelog_continues:
  assumes "\<forall>t \<in> set ts. CHR 0x0A \<notin> set t \<and> (\<forall>k \<le> length ts. length (left4 k @ t) + 1 < LOGBUF)"
  shows "timelog_main True us [prog, name] (log_entries ts 0 []) = Blocked (log_entries (ts @ us) 0 [])"
proof -
  let ?ls = "map (\<lambda>(k, t). left4 k @ t) (zip [1..<1 + length ts] ts)"
  have "log_entries us (length ts + n) (log_entries ts n f) = log_entries (ts @ us) n f" for n f
  proof (induction ts arbitrary: n f)
    case (Cons t ts)
    from this [of "n + 1" "f @ left4 (n + 1) @ t @ [CHR 0x0A]"] show ?case by simp
  qed simp
  then have 1: "log_entries us (length ts) (log_entries ts 0 []) = log_entries (ts @ us) 0 []" by (metis add.right_neutral)
  have d: "CHR 0x0A \<notin> set (left4 k)" for k using show_nat_digits [of "CHR 0x0A" k] by (auto simp: left4_def c_digit_def)
  have z: "t \<in> set ts \<and> k \<le> length ts" if "(k, t) \<in> set (zip [1..<1 + length ts] ts)" for k t
    using set_zip_leftD [OF that] set_zip_rightD [OF that] by auto
  have "\<forall>l \<in> set ?ls. CHR 0x0A \<notin> set l \<and> length l + 1 < LOGBUF"
  proof
    fix l
    assume "l \<in> set ?ls"
    then obtain k t where l: "l = left4 k @ t" "(k, t) \<in> set (zip [1..<1 + length ts] ts)" by fastforce
    from z [OF l(2)] assms d [of k] show "CHR 0x0A \<notin> set l \<and> length l + 1 < LOGBUF" unfolding l(1) by (metis UnE set_append)
  qed
  from count_lines_all [OF this, of 0] have "count_lines (concat (map (\<lambda>l. l @ [CHR 0x0A]) ?ls)) 0 = length ts" by (simp del: upt_Suc map_map)
  moreover have "log_entries ts 0 [] = concat (map (\<lambda>l. l @ [CHR 0x0A]) ?ls)"
    unfolding log_entries_append by (simp add: comp_def case_prod_beta')
  ultimately show ?thesis using 1 by (simp add: timelog_main_def)
qed

end
