(* ===== verification/Process_Demos.thy ===== *)
theory Process_Demos
  imports Memory Stdio
begin

text \<open>
  Programs about processes: a jump out of nested calls (\<open>myjump.c\<close>), daemons (\<open>deamon/mydeamon.c\<close>, \<open>deamon/mydeamon2.c\<close>, \<open>mydeamon2.c\<close>), memory shared by parent and
  child (\<open>IPC/xsi/shm/shm.c\<close>, \<open>proIO/mmap/mmap_share.c\<close>) and a pipe between them (\<open>IPC/pipe/pipe.c\<close>).
\<close>

section \<open>A jump out of nested calls\<close>

text \<open>
  How a function is left: it returns, or \<open>longjmp\<close> goes back to \<open>setjmp\<close> with a value. The final \<open>printf\<close> of \<open>b\<close>, \<open>c\<close> and \<open>d\<close> has a \<open>%s\<close> without an
  argument: undefined, if it were reached.
\<close>

datatype jflow = Back | Jump int | Bad

definition d_fun :: "string list \<Rightarrow> jflow \<times> string list" where
  "d_fun out = (Jump 16, out @ [''d():Begin.'', ''d():Jump now!.''])"

definition c_fun :: "string list \<Rightarrow> jflow \<times> string list" where
  "c_fun out = (case d_fun (out @ [''c():Begin.'', ''c():call d().'']) of
      (Back, o1) \<Rightarrow> (Bad, o1 @ [''c():d() returned.''])
    | r \<Rightarrow> r)"

definition b_fun :: "string list \<Rightarrow> jflow \<times> string list" where
  "b_fun out = (case c_fun (out @ [''b():Begin.'', ''b():call c().'']) of
      (Back, o1) \<Rightarrow> (Bad, o1 @ [''b():c() returned.''])
    | r \<Rightarrow> r)"

text \<open>\<open>setjmp\<close> returns 0 first, and after a jump the value given to \<open>longjmp\<close>, or 1 instead of 0.\<close>

definition a_fun :: "string list \<Rightarrow> jflow \<times> string list" where
  "a_fun out = (case b_fun (out @ [''a():Begin.'', ''a():call b().'']) of
      (Back, o1) \<Rightarrow> (Back, o1 @ [''a():b() returned.'', ''a():End.''])
    | (Jump v, o1) \<Rightarrow> (Back, o1 @ [''a():Jump back here with code '' @ show_int (if v = 0 then 1 else v), ''a():End.''])
    | (Bad, o1) \<Rightarrow> (Bad, o1))"

definition jump_main :: "(unit, string list) outcome" where
  "jump_main = (case a_fun [''main():Begin.'', ''main():call a().''] of
      (Back, o1) \<Rightarrow> Exit 0 (o1 @ [''main():a() returned.'', ''main():End.''])
    | (_, o1) \<Rightarrow> Undef o1)"

text \<open>The jump skips the rest of three functions; the faulty lines are not reached.\<close>

lemma jump_skips:
  "jump_main = Exit 0 [''main():Begin.'', ''main():call a().'', ''a():Begin.'', ''a():call b().'', ''b():Begin.'', ''b():call c().'',
     ''c():Begin.'', ''c():call d().'', ''d():Begin.'', ''d():Jump now!.'', ''a():Jump back here with code 16'', ''a():End.'',
     ''main():a() returned.'', ''main():End.'']"
proof -
  have "show_int 16 = ''16''" by code_simp
  then show ?thesis by (simp add: jump_main_def a_fun_def b_fun_def c_fun_def d_fun_def)
qed

section \<open>Daemons\<close>

text \<open>
  \<open>daemonize\<close>, the same in the three files. The process after it: the parent has left, or the child goes on with its
  three standard streams on \<open>/dev/null\<close>, or an error value is returned (by the caller of a failed \<open>fork\<close>, or by the child).
\<close>

record dproc =
  std_null :: bool
  own_session :: bool
  at_root :: bool

datatype daemon_res = Parent_exits | Returned int dproc

definition daemonize :: "int \<Rightarrow> bool \<Rightarrow> dproc \<Rightarrow> daemon_res" where
  "daemonize pid null_opens s =
     (if pid < 0 then Returned 1 s
      else if pid > 0 then Parent_exits
      else if \<not> null_opens then Returned (-1) s
      else Returned 0 (s\<lparr>std_null := True, own_session := True, at_root := True\<rparr>))"

text \<open>
  The loop of \<open>main\<close>: a number a second; \<open>i++\<close> at \<open>INT_MAX\<close> is undefined. \<open>sigs\<close> tells for each turn whether one of the three signals has come before
  its \<open>fprintf\<close>. In \<open>deamon/mydeamon2.c\<close> the handler closes the file and returns, the loop goes on with the closed file; in the other
  two files the signal ends the process (here with the code 128 of a shell).
\<close>

fun daemon_loop :: "bool \<Rightarrow> bool list \<Rightarrow> int \<Rightarrow> int list \<Rightarrow> (unit, int list) outcome" where
  "daemon_loop handler [] i out = OutOfFuel out"
| "daemon_loop handler (sg # sigs) i out =
     (if sg then (if handler then Undef out else Exit 128 out)
      else if i = INT_MAX then Undef out
      else daemon_loop handler sigs (i + 1) (out @ [i]))"

definition daemon_main :: "bool \<Rightarrow> int \<Rightarrow> bool \<Rightarrow> bool \<Rightarrow> bool list \<Rightarrow> (unit, int list) outcome" where
  "daemon_main handler pid null_opens file_opens sigs =
     (case daemonize pid null_opens \<lparr>std_null = False, own_session = False, at_root = False\<rparr> of
        Parent_exits \<Rightarrow> Exit 0 []
      | Returned r s \<Rightarrow>
          if r \<noteq> 0 then Exit 1 []
          else if \<not> file_opens then Exit 1 []
          else daemon_loop handler sigs 1 [])"

definition mydeamon_main :: "int \<Rightarrow> bool \<Rightarrow> bool \<Rightarrow> bool list \<Rightarrow> (unit, int list) outcome" where
  "mydeamon_main = daemon_main False"

definition mydeamon2_main :: "int \<Rightarrow> bool \<Rightarrow> bool \<Rightarrow> bool list \<Rightarrow> (unit, int list) outcome" where
  "mydeamon2_main = daemon_main True"

lemma daemon_counts:
  "int n + i \<le> INT_MAX \<Longrightarrow> daemon_loop handler (replicate n False @ sigs) i out = daemon_loop handler sigs (i + int n) (out @ map (\<lambda>k. i + int k) [0..<n])"
proof (induction n arbitrary: i out)
  case (Suc n)
  have "[0..<Suc n] = 0 # map Suc [0..<n]" by (simp add: upt_conv_Cons map_Suc_upt del: upt_Suc)
  then have "map (\<lambda>k. i + int k) [0..<Suc n] = i # map (\<lambda>k. i + 1 + int k) [0..<n]" by (simp add: comp_def add.assoc del: upt_Suc)
  with Suc.IH [of "i + 1" "out @ [i]"] Suc.prems show ?case by (simp add: add.assoc del: upt_Suc)
qed simp

text \<open>
  A daemon and a signal. The child of either daemon writes 1, 2, 3 and so on until a signal comes; then the version without a
  handler ends, while the handler of \<open>deamon/mydeamon2.c\<close>, which is meant to end it in order, only closes the file: the next turn
  writes to a closed file, which is undefined.
\<close>

theorem daemon_signal:
  assumes "int n < INT_MAX"
  shows "mydeamon_main 0 True True (replicate n False @ True # sigs) = Exit 128 (map (\<lambda>k. 1 + int k) [0..<n]) \<and>
    mydeamon2_main 0 True True (replicate n False @ True # sigs) = Undef (map (\<lambda>k. 1 + int k) [0..<n])"
  using assms by (simp add: mydeamon_main_def mydeamon2_main_def daemon_main_def daemonize_def daemon_counts)

theorem daemon_signal_witness: "mydeamon2_main 0 True True [False, False, True] = Undef [1, 2]"
  using daemon_signal [of 2 "[]"] by (simp add: INT_MAX_def numeral_2_eq_2)

section \<open>Memory shared by parent and child\<close>

definition MEMSIZE :: nat where "MEMSIZE = 1024"

text \<open>
  \<open>shm.c\<close>: the child writes into the segment, the parent waits for it and prints. The results of the calls are arguments; the outcome's
  state is what is printed and whether the segment still exists at the end.
\<close>

definition shm_main :: "bool \<Rightarrow> bool \<Rightarrow> bool \<Rightarrow> bool \<Rightarrow> (unit, byte list option \<times> bool) outcome" where
  "shm_main get_ok fork_ok child_at parent_at =
     (if \<not> get_ok then Exit 1 (None, False)
      else if \<not> fork_ok then Exit 1 (None, True)
      else let mem = replicate MEMSIZE 0; mem1 = (if child_at then put_at 0 (str_bytes ''Hello'' @ [0]) mem else mem)
        in if \<not> parent_at then Exit 1 (None, True)
           else case cstr_at 0 mem1 of None \<Rightarrow> Undef (None, True) | Some t \<Rightarrow> Exit 0 (Some t, False))"

text \<open>\<open>mmap_share.c\<close>: the mapping disappears with the processes.\<close>

definition mmap_share_main :: "bool \<Rightarrow> bool \<Rightarrow> (unit, byte list option) outcome" where
  "mmap_share_main map_ok fork_ok =
     (if \<not> map_ok then Exit 1 None
      else if \<not> fork_ok then Exit 1 None
      else let mem1 = put_at 0 (str_bytes ''hello'' @ [0]) (replicate MEMSIZE 0)
        in case cstr_at 0 mem1 of None \<Rightarrow> Undef None | Some t \<Rightarrow> Exit 0 (Some t))"

lemma cstr_put: "0 \<notin> set t \<Longrightarrow> length t + 1 \<le> n \<Longrightarrow> cstr_at 0 (put_at 0 (t @ [0]) (replicate n 0)) = Some t"
  by (simp add: cstr_at_def cstring_def put_at_def takeWhile_zero)

text \<open>What the child has written is printed; a child that cannot attach goes unnoticed, and every early exit leaves the segment behind.\<close>

lemma shared_memory:
  "shm_main True True True True = Exit 0 (Some (str_bytes ''Hello''), False)"
  "shm_main True True False True = Exit 0 (Some [], False)"
  "shm_main True True c False = Exit 1 (None, True)" "shm_main True False c p = Exit 1 (None, True)"
  "mmap_share_main True True = Exit 0 (Some (str_bytes ''hello''))"
proof -
  have z: "0 \<notin> set (str_bytes ''Hello'')" "0 \<notin> set (str_bytes ''hello'')" by (auto simp: str_bytes_def)
  from z show "shm_main True True True True = Exit 0 (Some (str_bytes ''Hello''), False)" "mmap_share_main True True = Exit 0 (Some (str_bytes ''hello''))"
    using cstr_put [of "str_bytes ''Hello''" MEMSIZE] cstr_put [of "str_bytes ''hello''" MEMSIZE]
    by (simp_all add: shm_main_def mmap_share_main_def MEMSIZE_def Let_def str_bytes_def)
qed (simp_all add: shm_main_def MEMSIZE_def cstr_at_def cstring_def)

text \<open>\<open>pipe.c\<close>: the parent's twelve bytes go through the pipe in one piece (they are fewer than \<open>PIPE_BUF\<close>); the child prints what it reads.\<close>

definition PIPE_BUFSIZE :: nat where "PIPE_BUFSIZE = 1024"

definition pipe_main :: "bool \<Rightarrow> bool \<Rightarrow> (unit, byte list) outcome" where
  "pipe_main pipe_ok fork_ok =
     (if \<not> pipe_ok then Exit 1 []
      else if \<not> fork_ok then Exit 1 []
      else let sent = take 12 (str_bytes (''Hello World'' @ [CHR 0x0A])) in Exit 0 (take PIPE_BUFSIZE sent))"

lemma pipe_prints: "pipe_main True True = Exit 0 (str_bytes (''Hello World'' @ [CHR 0x0A]))"
  by (simp add: pipe_main_def PIPE_BUFSIZE_def str_bytes_def)

end
