(* ===== verification/Fork_Exec.thy ===== *)
theory Fork_Exec
  imports Stdio
begin

text \<open>
  Small programs around \<open>fork\<close> and \<open>exec\<close>: \<open>fork1.c\<close>, \<open>fwe.c\<close>, \<open>sleep.c\<close>, \<open>system1.c\<close>, \<open>exec.c\<close>, \<open>mysu.c\<close>, \<open>atexit.c\<close>. What they print depends on the buffer of
  standard output: it is written out at the end of a line on a terminal, and only by \<open>fflush\<close> and \<open>exit\<close> when output goes to a file; \<open>fork\<close> copies it and
  \<open>exec\<close> drops it.
\<close>

section \<open>Processes with a buffer\<close>

text \<open>
  The straight code of a process is a list of calls. \<open>Puts\<close> prints a line; \<open>Fork\<close> has the code of the child, a failing \<open>fork\<close> prints a message and leaves; \<open>Exec\<close> has what the
  program prints when a given user starts it, \<open>None\<close> when it cannot be started. Only the user 0 can become another user. \<open>Atexit\<close> registers a function, which is called by \<open>exit\<close>.
\<close>

datatype call =
    Puts string
  | Fflush
  | Fork "call list"
  | Exec "int \<Rightarrow> string option"
  | Setuid int
  | Perror string
  | Wait
  | Atexit "call list"
  | Leave int

record process =
  todo :: "call list"
  outbuf :: string
  hooks :: "call list list"
  owner :: int

record fx_state =
  par :: process
  chi :: "process option"
  screen :: string
  errors :: "string list"
  status :: "int list"

text \<open>
  One call of a process: the process afterwards, the text and messages it adds, a child, and its exit status. \<open>tty\<close> says whether standard output is a terminal, \<open>can\<close>
  whether \<open>fork\<close> succeeds, \<open>alone\<close> whether there is no child left to wait for.
\<close>

record effect =
  eff_proc :: process
  eff_out :: string
  eff_err :: "string list"
  eff_child :: "process option"
  eff_exit :: "int list"

definition goes_on :: "process \<Rightarrow> effect" where
  "goes_on p = \<lparr>eff_proc = p, eff_out = [], eff_err = [], eff_child = None, eff_exit = []\<rparr>"

fun do_call :: "bool \<Rightarrow> bool \<Rightarrow> bool \<Rightarrow> call \<Rightarrow> process \<Rightarrow> effect option" where
  "do_call tty can alone (Puts s) p =
     (let text = outbuf p @ s @ [CHR 0x0A]
      in if tty then Some ((goes_on (p\<lparr>outbuf := []\<rparr>))\<lparr>eff_out := text\<rparr>) else Some (goes_on (p\<lparr>outbuf := text\<rparr>)))"
| "do_call tty can alone Fflush p = Some ((goes_on (p\<lparr>outbuf := []\<rparr>))\<lparr>eff_out := outbuf p\<rparr>)"
| "do_call tty can alone (Fork c) p =
     (if can then Some ((goes_on p)\<lparr>eff_child := Some (p\<lparr>todo := c\<rparr>)\<rparr>)
      else Some (goes_on (p\<lparr>todo := [Perror ''fork()'', Leave 1]\<rparr>)))"
| "do_call tty can alone (Exec r) p = (case r (owner p) of
      Some text \<Rightarrow> Some \<lparr>eff_proc = p\<lparr>todo := [], outbuf := []\<rparr>, eff_out = text, eff_err = [], eff_child = None, eff_exit = [0]\<rparr>
    | None \<Rightarrow> Some (goes_on p))"
| "do_call tty can alone (Setuid u) p = Some (goes_on (if owner p = 0 then p\<lparr>owner := u\<rparr> else p))"
| "do_call tty can alone (Perror m) p = Some ((goes_on p)\<lparr>eff_err := [m]\<rparr>)"
| "do_call tty can alone Wait p = (if alone then Some (goes_on p) else None)"
| "do_call tty can alone (Atexit f) p = Some (goes_on (p\<lparr>hooks := f # hooks p\<rparr>))"
| "do_call tty can alone (Leave c) p =
     (case hooks p of
        f # fs \<Rightarrow> Some (goes_on (p\<lparr>todo := f @ [Leave c], hooks := fs\<rparr>))
      | [] \<Rightarrow> Some \<lparr>eff_proc = p\<lparr>todo := [], outbuf := []\<rparr>, eff_out = outbuf p, eff_err = [], eff_child = None, eff_exit = [c]\<rparr>)"

definition turn_of :: "bool \<Rightarrow> bool \<Rightarrow> bool \<Rightarrow> process \<Rightarrow> effect option" where
  "turn_of tty can alone p = (case todo p of [] \<Rightarrow> None | c # cs \<Rightarrow> do_call tty can alone c (p\<lparr>todo := cs\<rparr>))"

text \<open>The states that can follow: a call of the parent or of the child.\<close>

definition over :: "process option \<Rightarrow> bool" where
  "over c = (case c of None \<Rightarrow> True | Some p \<Rightarrow> todo p = [])"

definition fx_next :: "bool \<Rightarrow> bool \<Rightarrow> fx_state \<Rightarrow> fx_state list" where
  "fx_next tty can s =
     (case turn_of tty can (over (chi s)) (par s) of None \<Rightarrow> [] | Some e \<Rightarrow>
        [s\<lparr>par := eff_proc e, chi := (case eff_child e of None \<Rightarrow> chi s | c \<Rightarrow> c), screen := screen s @ eff_out e, errors := errors s @ eff_err e,
           status := status s @ eff_exit e\<rparr>]) @
     (case chi s of None \<Rightarrow> [] | Some p \<Rightarrow> (case turn_of tty can True p of None \<Rightarrow> [] | Some e \<Rightarrow>
        [s\<lparr>chi := Some (eff_proc e), screen := screen s @ eff_out e, errors := errors s @ eff_err e\<rparr>]))"

definition fx_start :: "int \<Rightarrow> call list \<Rightarrow> fx_state" where
  "fx_start user code = \<lparr>par = \<lparr>todo = code, outbuf = [], hooks = [], owner = user\<rparr>, chi = None, screen = [], errors = [], status = []\<rparr>"

definition fx_step :: "bool \<Rightarrow> bool \<Rightarrow> fx_state \<Rightarrow> fx_state \<Rightarrow> bool" where
  "fx_step tty can s s' \<longleftrightarrow> s' \<in> set (fx_next tty can s)"

text \<open>All states in which the runs of the program stop; \<open>None\<close> when a run is longer than the fuel.\<close>

fun all_ends :: "nat \<Rightarrow> bool \<Rightarrow> bool \<Rightarrow> fx_state \<Rightarrow> fx_state list option" where
  "all_ends 0 tty can s = (if fx_next tty can s = [] then Some [s] else None)"
| "all_ends (Suc n) tty can s =
     (if fx_next tty can s = [] then Some [s] else map_option concat (those (map (all_ends n tty can) (fx_next tty can s))))"

lemma those_in: "those xs = Some ys \<Longrightarrow> x \<in> set xs \<Longrightarrow> \<exists>y \<in> set ys. x = Some y"
proof (induction xs arbitrary: ys)
  case (Cons a xs)
  then show ?case by (fastforce split: option.splits)
qed simp

lemma fx_first: "(fx_step tty can ^^ Suc k) s t \<Longrightarrow> \<exists>s1 \<in> set (fx_next tty can s). (fx_step tty can ^^ k) s1 t"
  using relpowp_Suc_D2 [of k "fx_step tty can" s t] by (auto simp: fx_step_def)

lemma fx_stuck: "fx_next tty can s = [] \<Longrightarrow> (fx_step tty can ^^ k) s t \<Longrightarrow> k = 0"
  using fx_first [of "k - 1" tty can s t] by (cases k) auto

text \<open>Every run that has stopped is among them, and no run has more than \<open>n\<close> calls.\<close>

lemma all_ends_complete:
  assumes "all_ends n tty can s = Some es" "(fx_step tty can ^^ k) s t"
  shows "k \<le> n" and "fx_next tty can t = [] \<Longrightarrow> t \<in> set es"
proof -
  have "k \<le> n \<and> (fx_next tty can t = [] \<longrightarrow> t \<in> set es)"
    using assms
  proof (induction n arbitrary: s es k)
    case 0
    then have "fx_next tty can s = []" "es = [s]" by (auto split: if_splits)
    moreover from this(1) 0(2) have "k = 0" by (rule fx_stuck)
    ultimately show ?case using 0 by simp
  next
    case (Suc n)
    show ?case
    proof (cases "fx_next tty can s = []")
      case True
      moreover from this Suc.prems(2) have "k = 0" by (rule fx_stuck)
      ultimately show ?thesis using Suc.prems by auto
    next
      case False
      with Suc.prems(1) obtain ess where e: "those (map (all_ends n tty can) (fx_next tty can s)) = Some ess" "es = concat ess" by auto
      show ?thesis
      proof (cases k)
        case 0
        with Suc.prems(2) False show ?thesis by auto
      next
        case (Suc k')
        with Suc.prems(2) obtain s1 where s1: "s1 \<in> set (fx_next tty can s)" "(fx_step tty can ^^ k') s1 t"
          using fx_first by blast
        from those_in [OF e(1), of "all_ends n tty can s1"] s1(1) obtain es1 where "all_ends n tty can s1 = Some es1" "es1 \<in> set ess" by force
        with Suc.IH [OF _ s1(2)] e(2) Suc show ?thesis by fastforce
      qed
    qed
  qed
  then show "k \<le> n" "fx_next tty can t = [] \<Longrightarrow> t \<in> set es" by auto
qed

section \<open>The programs\<close>

text \<open>The numbers of the processes, as printed, are arguments.\<close>

definition fork1_main :: "string \<Rightarrow> string \<Rightarrow> call list" where
  "fork1_main p c =
     [Puts (p @ '' Begin''),
      Fork [Puts (c @ '' child is working''), Puts (c @ '' End''), Leave 0],
      Puts (p @ '' parent is working''), Puts (p @ '' End''), Leave 0]"

definition fwe_main :: "(int \<Rightarrow> string option) \<Rightarrow> call list" where
  "fwe_main date = [Puts ''Begin'', Fflush, Fork [Exec date, Perror ''execl()'', Leave 1], Wait, Puts ''End'', Leave 0]"

definition sleep_main :: "(int \<Rightarrow> string option) \<Rightarrow> call list" where
  "sleep_main slp = [Puts ''Begin'', Fflush, Fork [Exec slp, Perror ''execl()'', Leave 1], Wait, Puts ''End'', Leave 0]"

definition system1_main :: "(int \<Rightarrow> string option) \<Rightarrow> call list" where
  "system1_main sh = [Fork [Exec sh, Perror ''execl()'', Leave 1], Wait, Leave 0]"

definition exec_main :: "(int \<Rightarrow> string option) \<Rightarrow> call list" where
  "exec_main date = [Puts ''Bgein'', Fflush, Exec date, Perror ''exec()'', Leave 1, Puts ''End'', Leave 0]"

text \<open>\<open>mysu.c\<close>: \<open>run\<close> is what a command with its arguments prints when a user runs it. The result of \<open>setuid\<close> is not looked at.\<close>

definition mysu_main :: "(string list \<Rightarrow> int \<Rightarrow> string option) \<Rightarrow> string list \<Rightarrow> call list" where
  "mysu_main run argv =
     (if length argv < 3 then [Perror ''Usage...'', Leave 1]
      else [Fork [Setuid (atoi (argv ! 1)), Exec (run (drop 2 argv)), Perror ''execvp()'', Leave 1], Wait, Leave 0])"

definition atexit_main :: "call list" where
  "atexit_main = [Puts ''Begin!'', Atexit [Puts ''f1 is working''], Atexit [Puts ''f2 is working''], Atexit [Puts ''f3 is working''], Puts ''End!'', Leave 0]"

lemmas fx_eval = fx_next_def turn_of_def over_def goes_on_def fx_start_def eval_nat_numeral Let_def

abbreviation nl :: "string \<Rightarrow> string" where
  "nl s \<equiv> s @ [CHR 0x0A]"

text \<open>The texts on the screen with which the runs of a program stop. Every run stops, with one of them.\<close>

definition shows_one_of :: "bool \<Rightarrow> bool \<Rightarrow> fx_state \<Rightarrow> string set \<Rightarrow> bool" where
  "shows_one_of tty can s V \<longleftrightarrow> (\<exists>es. all_ends 12 tty can s = Some es \<and> screen ` set es = V)"

lemma shows_one_of_runs:
  assumes "shows_one_of tty can s V" "(fx_step tty can ^^ k) s t"
  shows "k \<le> 12" "fx_next tty can t = [] \<Longrightarrow> screen t \<in> V"
proof -
  from assms(1) obtain es where "all_ends 12 tty can s = Some es" "screen ` set es = V" by (auto simp: shows_one_of_def)
  with all_ends_complete [OF _ assms(2), of 12 es] show "k \<le> 12" "fx_next tty can t = [] \<Longrightarrow> screen t \<in> V" by auto
qed

lemma fork1_tty:
  "shows_one_of True True (fx_start u (fork1_main p c)) ((\<lambda>zs. nl (p @ '' Begin'') @ concat zs) `
     shuffles [nl (p @ '' parent is working''), nl (p @ '' End'')] [nl (c @ '' child is working''), nl (c @ '' End'')])"
  by (auto simp: shows_one_of_def fx_eval fork1_main_def)

lemma fork1_file:
  "shows_one_of False True (fx_start u (fork1_main p c))
     {concat ([nl (p @ '' Begin'')] @ [nl (p @ '' parent is working''), nl (p @ '' End'')] @ [nl (p @ '' Begin'')] @ [nl (c @ '' child is working''), nl (c @ '' End'')]),
      concat ([nl (p @ '' Begin'')] @ [nl (c @ '' child is working''), nl (c @ '' End'')] @ [nl (p @ '' Begin'')] @ [nl (p @ '' parent is working''), nl (p @ '' End'')])}"
  by (simp add: shows_one_of_def fx_eval fork1_main_def insert_commute)

text \<open>
  \<open>fork1.c\<close>. Every run stops after at most 12 calls. On a terminal the parent's first line comes once and then the lines of both processes in any order, each
  process's own lines in its order. When output goes to a file, the first line is in the file twice, once before the lines of each process: \<open>fork\<close> has
  copied it with the buffer.
\<close>

theorem fork1_prints:
  assumes "(fx_step tty True ^^ k) (fx_start u (fork1_main p c)) t"
  defines "b \<equiv> nl (p @ '' Begin'')" and "ps \<equiv> [nl (p @ '' parent is working''), nl (p @ '' End'')]"
    and "cs \<equiv> [nl (c @ '' child is working''), nl (c @ '' End'')]"
  shows "k \<le> 12 \<and> (fx_next tty True t = [] \<longrightarrow>
    (if tty then \<exists>zs \<in> shuffles ps cs. screen t = b @ concat zs
     else screen t = concat ([b] @ ps @ [b] @ cs) \<or> screen t = concat ([b] @ cs @ [b] @ ps)))"
proof (cases tty)
  case True
  from shows_one_of_runs [OF fork1_tty [of u p c], of k t] assms(1) True show ?thesis by (auto simp: b_def ps_def cs_def)
next
  case False
  from shows_one_of_runs [OF fork1_file [of u p c], of k t] assms(1) False show ?thesis by (auto simp: b_def ps_def cs_def)
qed

text \<open>
  With \<open>fflush\<close> before \<open>fork\<close> the first line is printed once, on a terminal and in a file, and \<open>wait\<close> puts the parent's last line behind what the command prints.
\<close>

definition printed :: "string option \<Rightarrow> string" where
  "printed r = (case r of None \<Rightarrow> [] | Some t \<Rightarrow> t)"

lemma fwe_shows: "shows_one_of tty True (fx_start u (fwe_main date)) {nl ''Begin'' @ printed (date u) @ nl ''End''}"
  by (cases tty; cases "date u") (simp_all add: shows_one_of_def printed_def fx_eval fwe_main_def)

lemma sleep_shows: "shows_one_of tty True (fx_start u (sleep_main slp)) {nl ''Begin'' @ printed (slp u) @ nl ''End''}"
  using fwe_shows [of tty u slp] by (simp add: fwe_main_def sleep_main_def)

lemma system1_shows: "shows_one_of tty True (fx_start u (system1_main sh)) {printed (sh u)}"
  by (cases "sh u") (simp_all add: shows_one_of_def printed_def fx_eval system1_main_def)

text \<open>\<open>exec.c\<close> never prints its last line.\<close>

lemma exec_shows: "shows_one_of tty can (fx_start u (exec_main date)) {nl ''Bgein'' @ printed (date u)}"
  by (cases tty; cases "date u") (simp_all add: shows_one_of_def printed_def fx_eval exec_main_def)

lemma atexit_shows: "shows_one_of tty can (fx_start u atexit_main)
    {nl ''Begin!'' @ nl ''End!'' @ nl ''f3 is working'' @ nl ''f2 is working'' @ nl ''f1 is working''}"
  by (cases tty) (simp_all add: shows_one_of_def fx_eval atexit_main_def)

text \<open>
  \<open>mysu.c\<close> called by the user \<open>u\<close>: only when \<open>u\<close> is 0 the command runs as the user asked for; otherwise it runs as \<open>u\<close>, without any message.
\<close>

theorem mysu_runs:
  assumes "3 \<le> length argv" "run (drop 2 argv) (if u = 0 then atoi (argv ! 1) else u) = Some text" "(fx_step tty True ^^ k) (fx_start u (mysu_main run argv)) t"
    "fx_next tty True t = []"
  shows "screen t = text \<and> errors t = [] \<and> status t = [0]"
proof -
  have "\<exists>es. all_ends 12 tty True (fx_start u (mysu_main run argv)) = Some es \<and> (\<forall>t \<in> set es. screen t = text \<and> errors t = [] \<and> status t = [0])"
    using assms(1,2) by (cases "u = 0") (simp_all add: fx_eval mysu_main_def)
  with all_ends_complete [OF _ assms(3)] assms(4) show ?thesis by blast
qed

end
