(* ===== verification/Calendar.thy ===== *)
theory Calendar
  imports Prelude
begin

text \<open>
  \<open>100days.c\<close> and \<open>100days2.c\<close>: the date in a hundred days, once by adding seconds to the time, once by adding to the day of the month and letting \<open>mktime\<close>
  put the date in order. Local time differs from universal time by a fixed number of seconds, without summer time.
\<close>

section \<open>The calendar\<close>

record date =
  year :: int
  mon :: nat
  mday :: nat

definition leap :: "int \<Rightarrow> bool" where
  "leap y \<longleftrightarrow> y mod 4 = 0 \<and> y mod 100 \<noteq> 0 \<or> y mod 400 = 0"

definition month_days :: "int \<Rightarrow> nat \<Rightarrow> nat" where
  "month_days y m = (if m = 2 then if leap y then 29 else 28 else if m \<in> {4, 6, 9, 11} then 30 else 31)"

definition next_month :: "date \<Rightarrow> date" where
  "next_month d = (if mon d = 12 then d\<lparr>year := year d + 1, mon := 1\<rparr> else d\<lparr>mon := mon d + 1\<rparr>)"

definition next_day :: "date \<Rightarrow> date" where
  "next_day d = (if mday d < month_days (year d) (mon d) then d\<lparr>mday := mday d + 1\<rparr> else next_month (d\<lparr>mday := 1\<rparr>))"

definition epoch :: date where
  "epoch = \<lparr>year = 1970, mon = 1, mday = 1\<rparr>"

definition civil :: "nat \<Rightarrow> date" where
  "civil n = (next_day ^^ n) epoch"

definition valid :: "date \<Rightarrow> bool" where
  "valid d \<longleftrightarrow> 1970 \<le> year d \<and> 1 \<le> mon d \<and> mon d \<le> 12 \<and> 1 \<le> mday d \<and> mday d \<le> month_days (year d) (mon d)"

text \<open>\<open>mktime\<close> brings a day of the month that is too large into the following months.\<close>

lemma month_days_pos: "28 \<le> month_days y m"
  by (simp add: month_days_def)

function put_in_order :: "date \<Rightarrow> date" where
  "put_in_order d = (let k = month_days (year d) (mon d) in if mday d \<le> k then d else put_in_order (next_month (d\<lparr>mday := mday d - k\<rparr>)))"
  by pat_completeness auto
termination
proof (relation "measure mday")
  fix d :: date and k assume "k = month_days (year d) (mon d)" "\<not> mday d \<le> k"
  with month_days_pos [of "year d" "mon d"] have "mday d - k < mday d" by linarith
  then show "(next_month (d\<lparr>mday := mday d - k\<rparr>), d) \<in> measure mday" by (simp add: next_month_def)
qed simp

declare put_in_order.simps [simp del]

text \<open>The number of a day: the days of the years and months before it.\<close>

definition year_days :: "int \<Rightarrow> nat" where
  "year_days y = (if leap y then 366 else 365)"

definition day_no :: "date \<Rightarrow> nat" where
  "day_no d = sum_list (map (\<lambda>i. year_days (1970 + int i)) [0..<nat (year d - 1970)]) +
     sum_list (map (month_days (year d)) [1..<mon d]) + mday d - 1"

section \<open>The programs\<close>

text \<open>
  \<open>localtime\<close> and \<open>mktime\<close> on a date and the second of the day; \<open>off\<close> is the distance to universal time. The date is printed with \<open>%Y-%m-%d\<close>; years below 10000.
\<close>

definition DAY :: int where "DAY = 86400"

definition localtime :: "int \<Rightarrow> int \<Rightarrow> date \<times> int" where
  "localtime off t = (civil (nat ((t + off) div DAY)), (t + off) mod DAY)"

definition mktime :: "int \<Rightarrow> date \<times> int \<Rightarrow> int \<times> (date \<times> int)" where
  "mktime off tm = (case tm of (d, s) \<Rightarrow> let d1 = put_in_order d in (int (day_no d1) * DAY + s - off, (d1, s)))"

definition two_digits :: "nat \<Rightarrow> string" where
  "two_digits n = (if n < 10 then ''0'' else []) @ show_nat n"

definition show_day :: "date \<Rightarrow> string" where
  "show_day d = show_nat (nat (year d)) @ ''-'' @ two_digits (mon d) @ ''-'' @ two_digits (mday d)"

definition days100_main :: "int \<Rightarrow> int \<Rightarrow> string list" where
  "days100_main off now =
     (let tm = localtime off now; line1 = ''Now:'' @ show_day (fst tm);
          stamp = fst (mktime off tm) + 100 * 24 * 60 * 60;
          tm = localtime off stamp
      in [line1, ''100days Later:'' @ show_day (fst tm)])"

definition days100_2_main :: "int \<Rightarrow> int \<Rightarrow> string list" where
  "days100_2_main off now =
     (let tm = localtime off now; line1 = ''Now:'' @ show_day (fst tm);
          tm = ((fst tm)\<lparr>mday := mday (fst tm) + 100\<rparr>, snd tm);
          tm = snd (mktime off tm)
      in [line1, ''100days later:'' @ show_day (fst tm)])"

section \<open>Days in order\<close>

lemma valid_next: "valid d \<Longrightarrow> valid (next_day d)"
  using month_days_pos [of "year d + 1" 1] month_days_pos [of "year d" "Suc (mon d)"]
  by (auto simp: valid_def next_day_def next_month_def)

lemma valid_civil: "valid (civil n)"
  unfolding civil_def
proof (induction n)
  case 0
  show ?case by (simp add: valid_def epoch_def month_days_def)
qed (simp add: valid_next)

lemma year_sum: "sum_list (map (month_days y) [1..<13]) = year_days y"
  by (simp add: month_days_def year_days_def upt_rec numeral_eq_Suc)

lemma day_no_next:
  assumes "valid d"
  shows "day_no (next_day d) = day_no d + 1"
proof -
  obtain k where k: "year d = 1970 + int k" using assms by (auto simp: valid_def dest: zle_iff_zadd [THEN iffD1])
  show ?thesis
  proof (cases "mday d < month_days (year d) (mon d)")
    case True
    with assms show ?thesis by (simp add: day_no_def next_day_def valid_def)
  next
    case False
    then have m: "mday d = month_days (year d) (mon d)" using assms by (simp add: valid_def)
    show ?thesis
    proof (cases "mon d = 12")
      case True
      have e: "sum_list (map (month_days (year d)) [1..<12]) + month_days (year d) 12 = year_days (year d)"
        using year_sum [of "year d"] by (simp add: upt_rec numeral_eq_Suc)
      have n: "nat (year d + 1 - 1970) = Suc k" "nat (year d - 1970) = k" using k by simp_all
      show ?thesis using m True e k n month_days_pos [of "year d" 12]
        by (simp add: day_no_def next_day_def next_month_def del: upt_rec)
    next
      case False
      have "[1..<Suc (mon d)] = [1..<mon d] @ [mon d]" using assms by (simp add: valid_def)
      then show ?thesis using m False month_days_pos [of "year d" "mon d"]
        by (simp add: day_no_def next_day_def next_month_def)
    qed
  qed
qed

lemma day_no_civil: "day_no (civil n) = n"
proof (induction n)
  case 0
  show ?case by (simp add: civil_def day_no_def epoch_def)
next
  case (Suc n)
  then show ?case using day_no_next [OF valid_civil [of n]] by (simp add: civil_def)
qed

text \<open>Putting a later day of the month in order is the same as counting the days one by one.\<close>

lemma put_in_order_valid: "valid d \<Longrightarrow> put_in_order d = d"
  by (simp add: put_in_order.simps valid_def)

lemma put_in_order_next: "put_in_order (d\<lparr>mday := mday d + 1 + n\<rparr>) = put_in_order ((next_day d)\<lparr>mday := mday (next_day d) + n\<rparr>)"
  if "valid d"
proof (cases "mday d < month_days (year d) (mon d)")
  case True
  then show ?thesis by (simp add: next_day_def)
next
  case False
  then have m: "mday d = month_days (year d) (mon d)" using that by (simp add: valid_def)
  then have "put_in_order (d\<lparr>mday := mday d + 1 + n\<rparr>) = put_in_order (next_month (d\<lparr>mday := 1 + n\<rparr>))"
    by (subst put_in_order.simps) simp
  moreover have "next_month (d\<lparr>mday := 1 + n\<rparr>) = (next_day d)\<lparr>mday := mday (next_day d) + n\<rparr>"
    using m by (simp add: next_day_def next_month_def)
  ultimately show ?thesis by simp
qed

lemma put_in_order_count: "valid d \<Longrightarrow> put_in_order (d\<lparr>mday := mday d + n\<rparr>) = (next_day ^^ n) d"
proof (induction n arbitrary: d)
  case 0
  then show ?case by (simp add: put_in_order_valid)
next
  case (Suc n)
  have "put_in_order (d\<lparr>mday := mday d + Suc n\<rparr>) = put_in_order ((next_day d)\<lparr>mday := mday (next_day d) + n\<rparr>)"
    using put_in_order_next [OF Suc.prems, of n] by simp
  also have "\<dots> = (next_day ^^ n) (next_day d)" using Suc valid_next by blast
  finally show ?case by (simp add: funpow_swap1)
qed

text \<open>
  The two programs agree, at every time and in every zone without summer time: both print the date of now and the date whose number is a hundred
  more (the labels differ in one letter).
\<close>

theorem days100_agree:
  assumes "0 \<le> now + off"
  defines "n \<equiv> nat ((now + off) div DAY)"
  shows "days100_main off now = [''Now:'' @ show_day (civil n), ''100days Later:'' @ show_day (civil (n + 100))] \<and>
    days100_2_main off now = [''Now:'' @ show_day (civil n), ''100days later:'' @ show_day (civil (n + 100))] \<and>
    day_no (civil (n + 100)) = day_no (civil n) + 100"
proof -
  have t: "int n * DAY + (now + off) mod DAY = now + off"
    using assms(1) by (simp add: n_def DAY_def pos_imp_zdiv_nonneg_iff)
  have "fst (mktime off (localtime off now)) = now"
    using t by (simp add: mktime_def localtime_def put_in_order_valid valid_civil day_no_civil flip: n_def)
  moreover have "nat ((now + 8640000 + off) div DAY) = n + 100"
  proof -
    have "(now + 8640000 + off) div DAY = (now + off) div DAY + 100" by (simp add: DAY_def)
    then show ?thesis using assms(1) by (simp add: n_def DAY_def nat_add_distrib pos_imp_zdiv_nonneg_iff)
  qed
  moreover have "put_in_order ((civil n)\<lparr>mday := mday (civil n) + 100\<rparr>) = civil (n + 100)"
    using put_in_order_count [OF valid_civil [of n], of 100] by (simp only: civil_def funpow_add comp_apply add.commute [of n])
  ultimately show ?thesis
    by (simp add: days100_main_def days100_2_main_def Let_def localtime_def mktime_def day_no_civil flip: n_def)
qed

end
