(* ===== verification/Signal_Demos.thy ===== *)
theory Signal_Demos
  imports Prelude
begin

text \<open>
  Programs about alarms and signals: \<open>alarm.c\<close>, \<open>5Sec.c\<close>, \<open>5SecSig.c\<close>, \<open>mysignal.c\<close> and \<open>RussianBlock/signal.c\<close>.
\<close>

section \<open>One alarm at a time\<close>

text \<open>
  A process has at most one alarm; a call of \<open>alarm\<close> replaces it, and returns the seconds that were left. Without a handler the signal ends the process.
\<close>

record clock =
  now :: nat
  due :: "nat option"

definition sys_alarm :: "nat \<Rightarrow> clock \<Rightarrow> nat \<times> clock" where
  "sys_alarm n c = (case due c of None \<Rightarrow> 0 | Some t \<Rightarrow> t - now c, c\<lparr>due := (if n = 0 then None else Some (now c + n))\<rparr>)"

text \<open>\<open>alarm.c\<close> without other signals: \<open>pause\<close> lasts until the alarm; the result is the time at which the process is killed.\<close>

definition alarm_main :: "nat \<Rightarrow> nat option" where
  "alarm_main t =
     (let c = \<lparr>now = t, due = None\<rparr>;
          c = snd (sys_alarm 10 c); c = snd (sys_alarm 1 c); c = snd (sys_alarm 5 c)
      in due c)"

lemma alarm_last: "alarm_main t = Some (t + 5)"
  by (simp add: alarm_main_def sys_alarm_def Let_def)

section \<open>Counting for five seconds\<close>

text \<open>\<open>5Sec.c\<close>: the readings of the clock; \<open>None\<close> when the readings do not last to the end of the loop.\<close>

fun sec_loop :: "int list \<Rightarrow> int \<Rightarrow> int \<Rightarrow> int option" where
  "sec_loop [] stop count = None"
| "sec_loop (t # ts) stop count = (if t \<le> stop then sec_loop ts stop (count + 1) else Some count)"

definition sec5_main :: "int list \<Rightarrow> int option" where
  "sec5_main ts = (case ts of [] \<Rightarrow> None | t # ts \<Rightarrow> sec_loop ts (t + 5) 0)"

text \<open>
  \<open>5SecSig.c\<close>: the alarm comes at a moment, counted in steps of the program after \<open>alarm(5)\<close>: before the handler is in place it kills the process
  (\<open>None\<close>), afterwards it ends the loop.
\<close>

fun sig_loop :: "nat \<Rightarrow> int \<Rightarrow> int" where
  "sig_loop 0 count = count"
| "sig_loop (Suc n) count = sig_loop n (count + 1)"

definition sec5sig_main :: "nat \<Rightarrow> int option" where
  "sec5sig_main moment = (case moment of 0 \<Rightarrow> None | Suc n \<Rightarrow> Some (sig_loop n 0))"

text \<open>
  With a clock that does not run backwards the first program counts the readings within the five seconds and the rest of the sixth: it ends at the first reading of at
  least six seconds after the start, when there is one.
\<close>

lemma sec_loop_counts: "sec_loop ts e c = (if \<exists>t \<in> set ts. e < t then Some (c + int (length (takeWhile (\<lambda>t. t \<le> e) ts))) else None)"
  by (induction ts arbitrary: c) (auto simp: not_le)

lemma sec5_counts:
  assumes "sorted (t # ts)" "t + 6 \<in> set ts"
  shows "sec5_main (t # ts) = Some (int (length (filter (\<lambda>x. x < t + 6) ts)))"
proof -
  have "takeWhile (\<lambda>x. x \<le> t + 5) ts = filter (\<lambda>x. x \<le> t + 5) ts"
    using assms(1) by (induction ts) (force simp: filter_empty_conv eq_commute [of "[]"])+
  moreover have "filter (\<lambda>x. x \<le> t + 5) ts = filter (\<lambda>x. x < t + 6) ts" by (rule filter_cong) auto
  moreover have "\<exists>x \<in> set ts. t + 5 < x" using assms(2) by (intro bexI [of _ "t + 6"]) auto
  ultimately show ?thesis by (simp add: sec5_main_def sec_loop_counts)
qed

lemma sig_loop_counts: "sig_loop n c = c + int n"
  by (induction n c rule: sig_loop.induct) auto

section \<open>Stars and interrupts\<close>

text \<open>
  \<open>mysignal.c\<close>: ten stars with a second of sleep behind each. For each turn: how many interrupts come before \<open>sleep\<close> begins, and how many during it, of which the first ends
  \<open>sleep\<close>, so that there is at most one. The result: the output, and the number of seconds slept in full.
\<close>

fun star_loop :: "nat \<Rightarrow> (nat \<times> bool) list \<Rightarrow> string \<Rightarrow> nat \<Rightarrow> (string \<times> nat) option" where
  "star_loop 0 es out secs = Some (out, secs)"
| "star_loop (Suc i) [] out secs = None"
| "star_loop (Suc i) ((k, brk) # es) out secs =
     star_loop i es (out @ ''*'' @ replicate k CHR ''!'' @ (if brk then ''!'' else [])) (if brk then secs else secs + 1)"

definition mysignal_main :: "(nat \<times> bool) list \<Rightarrow> (string \<times> nat) option" where
  "mysignal_main es = star_loop 10 es [] 0"

lemma star_loop_prints:
  assumes "length es = n"
  shows "\<exists>o1 s1. star_loop n es out secs = Some (out @ o1, secs + s1) \<and> length (filter (\<lambda>c. c = CHR ''*'') o1) = n \<and>
    length (filter (\<lambda>c. c = CHR ''!'') o1) = sum_list (map (\<lambda>(k, brk). k + of_bool brk) es) \<and> s1 = length (filter (\<lambda>(k, brk). \<not> brk) es)"
  using assms
proof (induction es arbitrary: n out secs)
  case (Cons e es)
  obtain k brk where e: "e = (k, brk)" by (cases e)
  obtain m where n: "n = Suc m" "length es = m" using Cons.prems by auto
  from Cons.IH [OF n(2), of "out @ ''*'' @ replicate k CHR ''!'' @ (if brk then ''!'' else [])" "if brk then secs else secs + 1"]
  show ?case using e n by auto
qed simp

text \<open>
  Every interrupt is answered and none costs a star: ten stars, one mark for each interrupt. Each interrupted \<open>sleep\<close> makes the program a second shorter.
\<close>

theorem mysignal_prints:
  assumes "length es = 10"
  shows "\<exists>out secs. mysignal_main es = Some (out, secs) \<and> length (filter (\<lambda>c. c = CHR ''*'') out) = 10 \<and>
    length (filter (\<lambda>c. c = CHR ''!'') out) = sum_list (map (\<lambda>(k, brk). k + of_bool brk) es) \<and> secs + length (filter snd es) = 10"
proof -
  have "length (filter (\<lambda>(k, brk). \<not> brk) es) + length (filter snd es) = 10"
    using sum_length_filter_compl [of snd es] assms by (simp add: case_prod_unfold)
  with star_loop_prints [OF assms, of "[]" 0] show ?thesis by (auto simp: mysignal_main_def)
qed

section \<open>A clock for the game\<close>

text \<open>
  \<open>RussianBlock/signal.c\<close>: the handler sets the next alarm and prints; the loop prints and pauses. An alarm comes in \<open>pause\<close> or before it.
\<close>

datatype moment = In_pause | Before_pause

record game =
  lines_out :: "string list"
  armed :: bool

definition game_handler :: "game \<Rightarrow> game" where
  "game_handler g = g\<lparr>armed := True, lines_out := lines_out g @ [''SIGINT CATHCED'']\<rparr>"

fun game_loop :: "moment list \<Rightarrow> game \<Rightarrow> game" where
  "game_loop [] g = g"
| "game_loop (Before_pause # es) g = game_loop es (game_handler (g\<lparr>armed := False\<rparr>))"
| "game_loop (In_pause # es) g = (let g1 = game_handler (g\<lparr>armed := False\<rparr>) in game_loop es (g1\<lparr>lines_out := lines_out g1 @ [''while(1)'']\<rparr>))"

definition game_main :: "moment list \<Rightarrow> game" where
  "game_main es = game_loop es \<lparr>lines_out = [''while(1)''], armed = True\<rparr>"

lemma game_counts:
  "armed g \<Longrightarrow> armed (game_loop es g) \<and>
   count_list (lines_out (game_loop es g)) ''SIGINT CATHCED'' = count_list (lines_out g) ''SIGINT CATHCED'' + length es \<and>
   count_list (lines_out (game_loop es g)) ''while(1)'' = count_list (lines_out g) ''while(1)'' + length (filter (\<lambda>e. e = In_pause) es)"
  by (induction es g rule: game_loop.induct) (auto simp: game_handler_def Let_def)

text \<open>The clock never stops: after any number of alarms another one is set, and each was answered by one line.\<close>

theorem game_ticks:
  "armed (game_main es) \<and> count_list (lines_out (game_main es)) ''SIGINT CATHCED'' = length es \<and>
   count_list (lines_out (game_main es)) ''while(1)'' = 1 + length (filter (\<lambda>e. e = In_pause) es)"
  using game_counts [of "\<lparr>lines_out = [''while(1)''], armed = True\<rparr>" es] by (simp add: game_main_def)

end
