(* ===== verification/Thread_Demos.thy ===== *)
theory Thread_Demos
  imports Stdio
begin

text \<open>
  First programs with threads under \<open>thread/posix\<close>: \<open>Newer/thread_join.c\<close>, \<open>Newer/pthread_detach.c\<close>, \<open>Newer/first.c\<close>, \<open>maxthreadNum.c\<close>.
\<close>

section \<open>Two threads that print\<close>

text \<open>Each thread has lines left to print; the lines printed so far come last.\<close>

type_synonym printers = "string list \<times> string list \<times> string list"

inductive prints :: "printers \<Rightarrow> printers \<Rightarrow> bool" where
  by_main: "prints (l # ms, ts, out) (ms, ts, out @ [l])"
| by_thread: "prints (ms, l # ts, out) (ms, ts, out @ [l])"

lemma prints_shuffles:
  assumes "prints\<^sup>*\<^sup>* (ms, ts, out) ([], [], out')"
  shows "\<exists>zs \<in> shuffles ms ts. out' = out @ zs"
  using assms
proof (induction "(ms, ts, out)" arbitrary: ms ts out rule: converse_rtranclp_induct)
  case base
  then show ?case by simp
next
  case (step y)
  from step(1) show ?case
  proof (cases rule: prints.cases)
    case (by_main l ms1)
    with step(3) [of ms1 ts "out @ [l]"] obtain zs where "zs \<in> shuffles ms1 ts" "out' = out @ l # zs" by auto
    with by_main show ?thesis by (auto simp: Cons_in_shuffles_iff intro!: bexI [of _ "l # zs"])
  next
    case (by_thread l ts1)
    with step(3) [of ms ts1 "out @ [l]"] obtain zs where "zs \<in> shuffles ms ts1" "out' = out @ l # zs" by auto
    with by_thread show ?thesis by (auto simp: Cons_in_shuffles_iff intro!: bexI [of _ "l # zs"])
  qed
qed

section \<open>thread_join.c\<close>

text \<open>
  \<open>task\<close>: the lines it prints and the pointer it returns: the memory with the value 5, or \<open>NULL\<close> when the loop runs to its end; \<open>None\<close> in place of the result is undefined
  behaviour (a store through \<open>NULL\<close> when \<open>malloc\<close> has failed).
\<close>

definition task_line :: "string \<Rightarrow> nat \<Rightarrow> string" where
  "task_line tid i = ''-----------'' @ tid @ '' '' @ show_nat i"

fun task_loop :: "bool \<Rightarrow> string \<Rightarrow> nat list \<Rightarrow> string list \<Rightarrow> string list \<times> int option option" where
  "task_loop mem tid [] out = (out, Some None)"
| "task_loop mem tid (i # is) out =
     (let out1 = out @ [task_line tid i]
      in if i = 5 then (out1, if mem then Some (Some 5) else None) else task_loop mem tid is out1)"

definition join_task :: "bool \<Rightarrow> string \<Rightarrow> string list \<times> int option option" where
  "join_task mem tid = task_loop mem tid [0..<10] []"

text \<open>
  \<open>main\<close>: \<open>lines\<close> is what both threads have printed before the join, in the order of the run. The value is read through the returned pointer.
\<close>

definition main_lines :: "string \<Rightarrow> string \<Rightarrow> string list" where
  "main_lines tid self = [''sub: '' @ tid, ''main: '' @ self]"

definition join_main :: "bool \<Rightarrow> bool \<Rightarrow> string \<Rightarrow> string list \<Rightarrow> (unit, string list) outcome" where
  "join_main created mem tid lines =
     (if \<not> created then Exit 1 [''pthread_create()'']
      else (case snd (join_task mem tid) of
          Some (Some v) \<Rightarrow> Exit 0 (lines @ [show_int v])
        | _ \<Rightarrow> Undef lines))"

text \<open>
  In every order of the two threads the program prints the lines 0 to 5 of the thread in order, the two lines of \<open>main\<close> in order, and the value 5 last.
\<close>

theorem join_prints:
  assumes "prints\<^sup>*\<^sup>* (main_lines tid self, fst (join_task True tid), []) ([], [], lines)"
  shows "\<exists>zs \<in> shuffles (main_lines tid self) (map (task_line tid) [0..<6]). join_main True True tid lines = Exit 0 (zs @ [''5''])"
proof -
  have t: "join_task True tid = (map (task_line tid) [0..<6], Some (Some 5))"
    by (simp add: join_task_def upt_rec numeral_eq_Suc)
  have "show_int 5 = ''5''" by code_simp
  with t prints_shuffles [OF assms] show ?thesis by (auto simp: join_main_def)
qed

section \<open>first.c\<close>

text \<open>The thread prints twelve lines and is joined; then \<open>main\<close> prints ten.\<close>

definition thread_task :: "(nat \<Rightarrow> string) \<Rightarrow> string list" where
  "thread_task sub = map sub [0..<12]"

definition first_main :: "(nat \<Rightarrow> string) \<Rightarrow> (nat \<Rightarrow> string) \<Rightarrow> string list" where
  "first_main sub own = thread_task sub @ map own [0..<10]"

section \<open>pthread_detach.c\<close>

text \<open>
  The thread reads \<open>n\<close> through a pointer into the stack frame of \<open>main\<close>, then prints the numbers up to \<open>n\<close>. \<open>main\<close> leaves with \<open>pthread_exit\<close>, after which the frame is gone.
\<close>

datatype detached = Reads | Prints nat int | Over | Dangling

record detach_st =
  frame :: "int option"
  dthread :: detached
  dlines :: "string list"

inductive detach_step :: "detach_st \<Rightarrow> detach_st \<Rightarrow> bool" where
  main_exits: "frame s \<noteq> None \<Longrightarrow> detach_step s (s\<lparr>frame := None\<rparr>)"
| reads: "dthread s = Reads \<Longrightarrow> detach_step s (s\<lparr>dthread := (case frame s of None \<Rightarrow> Dangling | Some n \<Rightarrow> Prints 0 n)\<rparr>)"
| prints_no: "dthread s = Prints i n \<Longrightarrow> int i \<le> n \<Longrightarrow> detach_step s (s\<lparr>dlines := dlines s @ [show_nat i], dthread := Prints (i + 1) n\<rparr>)"
| over: "dthread s = Prints i n \<Longrightarrow> n < int i \<Longrightarrow> detach_step s (s\<lparr>dthread := Over\<rparr>)"

definition detach_start :: detach_st where
  "detach_start = \<lparr>frame = Some 10, dthread = Reads, dlines = []\<rparr>"

definition detach_inv :: "detach_st \<Rightarrow> bool" where
  "detach_inv s \<longleftrightarrow> (frame s = None \<or> frame s = Some 10) \<and> (case dthread s of
      Reads \<Rightarrow> dlines s = []
    | Prints i n \<Rightarrow> n = 10 \<and> i \<le> 11 \<and> dlines s = map show_nat [0..<i]
    | Over \<Rightarrow> dlines s = map show_nat [0..<11]
    | Dangling \<Rightarrow> frame s = None \<and> dlines s = [])"

lemma detach_inv_step: "detach_step s s' \<Longrightarrow> detach_inv s \<Longrightarrow> detach_inv s'"
proof (induction rule: detach_step.induct)
  case (over s i n)
  then have "i = 11" by (simp add: detach_inv_def)
  with over show ?case by (simp add: detach_inv_def)
qed (auto simp: detach_inv_def split: detached.splits option.splits)

lemma detach_inv_reach: "detach_step\<^sup>*\<^sup>* detach_start s \<Longrightarrow> detach_inv s"
proof (induction rule: rtranclp_induct)
  case base
  show ?case by (simp add: detach_inv_def detach_start_def)
qed (rule detach_inv_step)

text \<open>
  A thread that gets to its end has printed 0 to 10; but when \<open>main\<close> leaves before the thread has read its argument, the pointer dangles.
\<close>

theorem detach_prints:
  "(\<forall>s. detach_step\<^sup>*\<^sup>* detach_start s \<longrightarrow> dthread s = Over \<longrightarrow> dlines s = map show_nat [0..<11]) \<and>
   (\<exists>s. detach_step\<^sup>*\<^sup>* detach_start s \<and> dthread s = Dangling)"
proof
  show "\<forall>s. detach_step\<^sup>*\<^sup>* detach_start s \<longrightarrow> dthread s = Over \<longrightarrow> dlines s = map show_nat [0..<11]"
  proof (intro allI impI)
    fix s assume "detach_step\<^sup>*\<^sup>* detach_start s" "dthread s = Over"
    with detach_inv_reach [of s] show "dlines s = map show_nat [0..<11]" by (simp add: detach_inv_def)
  qed
  let ?s = "detach_start\<lparr>frame := None\<rparr>"
  have "detach_step detach_start ?s" by (rule main_exits) (simp add: detach_start_def)
  moreover have "detach_step ?s (?s\<lparr>dthread := Dangling\<rparr>)" using reads [of ?s] by (simp add: detach_start_def)
  ultimately have "detach_step\<^sup>*\<^sup>* detach_start (?s\<lparr>dthread := Dangling\<rparr>)" by (meson converse_rtranclp_into_rtranclp r_into_rtranclp)
  then show "\<exists>s. detach_step\<^sup>*\<^sup>* detach_start s \<and> dthread s = Dangling" by (intro exI) auto
qed

section \<open>maxthreadNum.c\<close>

text \<open>The results of the calls of \<open>pthread_create\<close>, 0 or an error number; the number of threads created and the message.\<close>

definition NTHREADS :: nat where "NTHREADS = 1000"

fun create_loop :: "nat \<Rightarrow> int list \<Rightarrow> nat \<Rightarrow> (unit, nat \<times> int option) outcome" where
  "create_loop 0 es k = Exit 0 (k, None)"
| "create_loop (Suc i) [] k = Blocked (k, None)"
| "create_loop (Suc i) (err # es) k = (if err \<noteq> 0 then Exit 1 (k, Some err) else create_loop i es (k + 1))"

definition maxthread_main :: "int list \<Rightarrow> (unit, nat \<times> int option) outcome" where
  "maxthread_main es = create_loop NTHREADS es 0"

lemma create_all: "\<forall>e \<in> set es. e = 0 \<Longrightarrow> length es = n \<Longrightarrow> create_loop n es k = Exit 0 (k + n, None)"
  by (induction es arbitrary: n k) auto

lemma create_some: "\<forall>e \<in> set es. e = 0 \<Longrightarrow> length es < n \<Longrightarrow> err \<noteq> 0 \<Longrightarrow> create_loop n (es @ err # r) k = Exit 1 (k + length es, Some err)"
proof (induction es arbitrary: n k)
  case Nil
  then show ?case by (cases n) auto
next
  case (Cons e es)
  then show ?case by (cases n) auto
qed

text \<open>The program succeeds exactly when a thousand threads can exist; otherwise it tells the error of the first that cannot.\<close>

theorem maxthread_limit:
  assumes "\<forall>e \<in> set es. e = 0" "length es \<le> 1000" "err \<noteq> 0"
  shows "maxthread_main (es @ err # r) = (if length es = 1000 then Exit 0 (1000, None) else Exit 1 (length es, Some err))"
proof (cases "length es = 1000")
  case True
  have "create_loop n (es @ err # r) k = create_loop n es k" if "length es = n" for n k
    using that assms(1) by (induction es arbitrary: n k) auto
  with True create_all [OF assms(1), of 1000 0] show ?thesis by (simp add: maxthread_main_def NTHREADS_def)
next
  case False
  with assms create_some [OF assms(1), of 1000 err r 0] show ?thesis by (simp add: maxthread_main_def NTHREADS_def)
qed

end
