(* ===== verification/Small_Tools.thy ===== *)
theory Small_Tools
  imports Copy_Tools Digest Memory Stdio
begin

text \<open>
  Programs of a few calls each: users and passwords (\<open>username.c\<close>, \<open>username2.c\<close>, \<open>chckpass.c\<close>), environment, patterns and directories (\<open>getenv.c\<close>, \<open>myenv.c\<close>,
  \<open>glob.c\<close>, \<open>readdir.c\<close>), files (\<open>IO/standradIO/fgets_fputs.c\<close>, \<open>ioRandomRW.c\<close>, \<open>formatPrint.c\<close>, \<open>IO/FileIO/io.c\<close>), the terminal (\<open>RussianBlock/terminoshow.c\<close>,
  \<open>vt.c\<close>) and the order of bytes (\<open>IPC/socket/Newer/Big_Little_end/endian.c\<close>).
\<close>

section \<open>Users\<close>

text \<open>
  The data base of users: names by number and numbers by name. A user that does not exist gives \<open>NULL\<close>, through which the programs read.
\<close>

definition uid_of :: "int \<Rightarrow> nat" where
  "uid_of z = nat (z mod 4294967296)"

definition username_main :: "(nat \<Rightarrow> string option) \<Rightarrow> string list \<Rightarrow> (unit, string) outcome" where
  "username_main getpwuid argv =
     (if length argv < 2 then Exit 1 ''Usage...''
      else case getpwuid (uid_of (atoi (argv ! 1))) of None \<Rightarrow> Undef [] | Some name \<Rightarrow> Exit 0 (name @ [CHR 0x0A]))"

definition username2_main :: "(string \<Rightarrow> nat option) \<Rightarrow> string list \<Rightarrow> (unit, string) outcome" where
  "username2_main getpwnam argv =
     (if length argv < 2 then Exit 1 ''Usage...''
      else case getpwnam (argv ! 1) of None \<Rightarrow> Undef [] | Some uid \<Rightarrow> Exit 0 (show_nat uid @ [CHR 0x0A]))"

text \<open>The two programs are inverse to each other on a data base that is: the number printed by one, given to the other, gives the name back.\<close>

lemma usernames_inverse:
  assumes "getpwnam name = Some uid" "getpwuid uid = Some name" "uid < 4294967296" "length argv \<ge> 2" "argv ! 1 = name"
  shows "\<exists>text. username2_main getpwnam argv = Exit 0 text \<and> username_main getpwuid [prog, text] = Exit 0 (name @ [CHR 0x0A])"
  using assms atoi_show_nat [of uid "[]"] by (simp add: username_main_def username2_main_def uid_of_def)

text \<open>
  \<open>chckpass.c\<close>: \<open>getspnam\<close> gives the stored line of a user, \<open>crypt\<close> the hash of a password with the settings at the beginning of a stored hash, or \<open>NULL\<close> when they are not valid.
\<close>

definition chckpass_main :: "(string \<Rightarrow> string option) \<Rightarrow> (string \<Rightarrow> string \<Rightarrow> string option) \<Rightarrow> string \<Rightarrow> string list \<Rightarrow> (unit, string) outcome" where
  "chckpass_main getspnam crypt input_pass argv =
     (if length argv < 2 then Exit 1 ''Usage...''
      else case getspnam (argv ! 1) of
          None \<Rightarrow> Undef []
        | Some sp_pwdp \<Rightarrow> (case crypt input_pass sp_pwdp of
              None \<Rightarrow> Undef []
            | Some crypted_pass \<Rightarrow> Exit 0 (if sp_pwdp = crypted_pass then ''OK'' else ''failed'')))"

text \<open>
  When the stored hash was made by \<open>crypt\<close> from a password, with \<open>crypt\<close> reading the same settings from its own results, exactly the passwords with the same hash are accepted.
\<close>

theorem chckpass_accepts:
  assumes "length argv \<ge> 2" "getspnam (argv ! 1) = Some h" "crypt pw salt = Some h" "\<forall>p. crypt p h = crypt p salt" "crypt input salt = Some h'"
  shows "chckpass_main getspnam crypt input argv = Exit 0 (if h' = h then ''OK'' else ''failed'')"
  using assms by (simp add: chckpass_main_def)

section \<open>Environment, patterns, directories\<close>

definition getenv_main :: "(string \<rightharpoonup> string) \<Rightarrow> (unit, string list) outcome" where
  "getenv_main env = (case env ''PATH'' of None \<Rightarrow> Undef [] | Some v \<Rightarrow> Exit 0 [v])"

text \<open>\<open>environ\<close> is an array of pointers that ends with \<open>NULL\<close>.\<close>

fun env_loop :: "string option list \<Rightarrow> string list \<Rightarrow> (unit, string list) outcome" where
  "env_loop [] out = Undef out"
| "env_loop (None # es) out = Exit 0 out"
| "env_loop (Some e # es) out = env_loop es (out @ [e])"

lemma env_loop_all: "env_loop (map Some es @ [None]) out = Exit 0 (out @ es)"
  by (induction es arbitrary: out) simp_all

definition myenv_main :: "string option list \<Rightarrow> (unit, string list) outcome" where
  "myenv_main environ = env_loop environ []"

definition PAT :: string where "PAT = ''/etc/a*.conf''"

definition glob_main :: "(string \<Rightarrow> int + string list) \<Rightarrow> (unit, string list) outcome" where
  "glob_main glob = (case glob PAT of
      Inl err \<Rightarrow> Exit 0 [''Error code = '' @ show_int err]
    | Inr gl_pathv \<Rightarrow> Exit 0 gl_pathv)"

definition DIR_PAT :: string where "DIR_PAT = ''/etc''"

text \<open>A directory that cannot be opened is reported on standard error (the second list), and with the exit status 0.\<close>

definition readdir_main :: "(string \<rightharpoonup> string list) \<Rightarrow> (unit, string list \<times> string list) outcome" where
  "readdir_main dirs = (case dirs DIR_PAT of None \<Rightarrow> Exit 0 ([], [''opendir()'']) | Some names \<Rightarrow> Exit 0 (names, []))"

section \<open>Files\<close>

text \<open>
  \<^verbatim>\<open>while(res = fgets(buf, 127, fp) != NULL)\<close> assigns the result of the comparison: \<open>res\<close> is the pointer 1, and printing the string there is undefined.
\<close>

definition fgets_fputs_main :: "string option \<Rightarrow> (unit, string) outcome" where
  "fgets_fputs_main file = (case file of
      None \<Rightarrow> Exit 1 []
    | Some content \<Rightarrow> (case fgets 127 content of None \<Rightarrow> Exit 0 [] | Some line \<Rightarrow> Undef line))"

lemma fgets_fputs_never_copies: "fgets_fputs_main (Some content) = Exit 0 out \<Longrightarrow> content = []"
  by (auto simp: fgets_fputs_main_def fgets_def Let_def split: if_splits)

text \<open>
  \<open>ioRandomRW.c\<close>: the size, and the content as a string. The buffer has room for the content only, so a text without a zero byte is printed past its end. \<open>mem\<close>: \<open>malloc\<close> succeeds.
\<close>

definition ioRandomRW_main :: "perms \<Rightarrow> bool \<Rightarrow> string list \<Rightarrow> files \<Rightarrow> (unit, nat \<times> byte list) outcome" where
  "ioRandomRW_main p mem argv fs =
     (if length argv < 2 then Undef (0, [])
      else case fs (argv ! 1) of
          None \<Rightarrow> Exit 1 (0, [])
        | Some content \<Rightarrow>
            if \<not> may_read p (argv ! 1) \<or> \<not> may_write p (argv ! 1) then Exit 1 (0, [])
            else if \<not> mem then Undef (length content, [])
            else (case cstr_at 0 content of None \<Rightarrow> Undef (length content, []) | Some text \<Rightarrow> Exit 0 (length content, text)))"

lemma ioRandomRW_text: "fs f = Some content \<Longrightarrow> 0 \<notin> set content \<Longrightarrow> may_read p f \<Longrightarrow> may_write p f \<Longrightarrow>
    ioRandomRW_main p mem [prog, f] fs = Undef (length content, [])"
  by (simp add: ioRandomRW_main_def cstr_at_def)

text \<open>
  \<open>io.c\<close>: six bytes over the beginning of \<open>abc.txt\<close>, whose rest stays. \<open>fd\<close> is the result of \<open>open\<close>, \<open>n\<close> what \<open>write\<close> takes (\<open>None\<close>: an error).
\<close>

definition hello_main :: "int \<Rightarrow> nat option \<Rightarrow> files \<Rightarrow> (unit, string \<times> files) outcome" where
  "hello_main fd n fs =
     (let out = show_int fd @ [CHR 0x0A]; old = (case fs ''abc.txt'' of None \<Rightarrow> [] | Some bs \<Rightarrow> bs)
      in if fd < 0 then Exit 1 (out, fs)
         else case n of
             None \<Rightarrow> Exit 1 (out, fs(''abc.txt'' \<mapsto> old))
           | Some k \<Rightarrow> (let bs = take k (str_bytes ''hello'' @ [0]); fs1 = fs(''abc.txt'' \<mapsto> bs @ drop (length bs) old)
               in if length bs \<noteq> 6 then Exit 1 (out, fs1) else Exit 0 (out, fs1)))"

lemma io_writes: "0 \<le> fd \<Longrightarrow> 6 \<le> k \<Longrightarrow> \<exists>out fs'. hello_main fd (Some k) fs = Exit 0 (out, fs') \<and>
    (\<exists>rest. fs' ''abc.txt'' = Some (str_bytes ''hello'' @ 0 # rest)) \<and> (\<forall>f. f \<noteq> ''abc.txt'' \<longrightarrow> fs' f = fs f)"
  by (auto simp: hello_main_def Let_def str_bytes_def)

text \<open>\<open>formatPrint.c\<close>: the same line into the file and twice to the screen. The file must exist (it is opened with \<open>r+\<close>, and the result is not tested).\<close>

definition format_line :: string where
  "format_line = ''name: '' @ ''Cassie'' @ [CHR 0x09] @ ''age:'' @ show_nat 21 @ [CHR 0x0A]"

definition snprintf :: "nat \<Rightarrow> string \<Rightarrow> string" where
  "snprintf n s = take (n - 1) s"

definition formatPrint_main :: "files \<Rightarrow> (unit, string \<times> files) outcome" where
  "formatPrint_main fs = (case fs ''test1.txt'' of
      None \<Rightarrow> Undef ([], fs)
    | Some old \<Rightarrow>
        let bs = str_bytes format_line; text = format_line; out = text; text = snprintf 50 format_line
        in Exit 0 (out @ text, fs(''test1.txt'' \<mapsto> bs @ drop (length bs) old)))"

lemma formatPrint_twice: "formatPrint_main fs = Exit 0 (out, fs') \<Longrightarrow> out = format_line @ format_line"
proof -
  assume a: "formatPrint_main fs = Exit 0 (out, fs')"
  have "length format_line = 20" by (simp add: format_line_def show_nat.simps)
  with a show ?thesis by (auto simp: formatPrint_main_def snprintf_def Let_def split: option.splits)
qed

section \<open>Terminal and bytes\<close>

text \<open>
  \<open>terminoshow.c\<close>: the terminal without echo and without lines, until a \<open>Q\<close> is typed; then the old settings are restored. Input is a list of keys, \<open>None\<close> the end
  of the input, which does not stop the loop: every further \<open>getchar\<close> fails again. The settings are canonical mode and echo.
\<close>

definition show_key :: "char option \<Rightarrow> string" where
  "show_key k = (case k of None \<Rightarrow> ''ffffffff ''
     | Some c \<Rightarrow> (let n = of_char c in (if n < 16 then [hex_digit n] else hex [n]) @ '' ''))"

fun key_loop :: "bool \<times> bool \<Rightarrow> char option list \<Rightarrow> string \<Rightarrow> (unit, (bool \<times> bool) \<times> string) outcome" where
  "key_loop old [] out = Blocked ((False, False), out)"
| "key_loop old (k # ks) out = (if k = Some CHR ''Q'' then Exit 0 (old, out) else key_loop old ks (out @ show_key k))"

definition termino_main :: "bool \<times> bool \<Rightarrow> char option list \<Rightarrow> (unit, (bool \<times> bool) \<times> string) outcome" where
  "termino_main old ks = key_loop old ks []"

text \<open>The program ends at the first \<open>Q\<close> and only there, with the settings of the terminal as before.\<close>

lemma key_loop_ends: "Some CHR ''Q'' \<notin> set ks \<Longrightarrow> key_loop old (ks @ Some CHR ''Q'' # r) out = Exit 0 (old, out @ concat (map show_key ks))"
  by (induction ks arbitrary: out) auto

lemma key_loop_stays: "Some CHR ''Q'' \<notin> set ks \<Longrightarrow> key_loop old ks out = Blocked ((False, False), out @ concat (map show_key ks))"
  by (induction ks arbitrary: out) auto

theorem termino_restores:
  "termino_main old ks = Exit c (settings, out) \<Longrightarrow> c = 0 \<and> settings = old \<and> (\<exists>ks1 r. ks = ks1 @ Some CHR ''Q'' # r \<and> out = concat (map show_key ks1))"
proof -
  assume a: "termino_main old ks = Exit c (settings, out)"
  show ?thesis
  proof (cases "Some CHR ''Q'' \<in> set ks")
    case True
    then obtain ks1 r where "ks = ks1 @ Some CHR ''Q'' # r" "Some CHR ''Q'' \<notin> set ks1" by (meson split_list_first)
    with a key_loop_ends [of ks1 old r "[]"] show ?thesis by (auto simp: termino_main_def)
  next
    case False
    with a key_loop_stays [of ks old "[]"] show ?thesis by (simp add: termino_main_def)
  qed
qed

definition vt_main :: string where
  "vt_main = CHR 0x1B # ''[10;10Hhello'' @ [CHR 0x0A]"

text \<open>\<open>endian.c\<close> on a little-endian machine: the values of the four bytes, from the lowest address on, with the sign of \<open>char\<close>.\<close>

definition endian_main :: "string list" where
  "endian_main = map (\<lambda>b. ''0x'' @ hex [nat (uint b)]) (le_bytes 4 0x12345678)"

lemma endian_little: "endian_main = [''0x78'', ''0x56'', ''0x34'', ''0x12'']"
  by code_simp

end
