(* ===== verification/Player.thy ===== *)
theory Player
  imports Prelude
begin

text \<open>
  \<open>IPC/pipe/player.c\<close>: a parent that should feed a decoder through a pipe. The child connects the read end to its standard input and both outputs to \<open>/dev/null\<close> before it
  starts the decoder; the parent only closes its ends and waits.
\<close>

section \<open>Descriptors\<close>

datatype opened = Tty | Pipe_rd | Pipe_wr | Dev_null

text \<open>A table of descriptors; a new one gets the lowest free number.\<close>

type_synonym fdtab = "opened option list"

definition fd_file :: "fdtab \<Rightarrow> nat \<Rightarrow> opened option" where
  "fd_file t n = (if n < length t then t ! n else None)"

definition fd_new :: "opened \<Rightarrow> fdtab \<Rightarrow> nat \<times> fdtab" where
  "fd_new f t = (let k = length (takeWhile (\<lambda>x. x \<noteq> None) t) in (k, if k < length t then t[k := Some f] else t @ [Some f]))"

definition fd_close :: "nat \<Rightarrow> fdtab \<Rightarrow> fdtab" where
  "fd_close n t = t[n := None]"

definition fd_dup2 :: "nat \<Rightarrow> nat \<Rightarrow> fdtab \<Rightarrow> fdtab" where
  "fd_dup2 a b t = (case fd_file t a of None \<Rightarrow> t | Some f \<Rightarrow> (t @ replicate (Suc b - length t) None)[b := Some f])"

definition has_write_end :: "fdtab \<Rightarrow> bool" where
  "has_write_end t \<longleftrightarrow> Some Pipe_wr \<in> set t"

section \<open>The program\<close>

definition sys_pipe :: "fdtab \<Rightarrow> nat \<times> nat \<times> fdtab" where
  "sys_pipe t = (let (r, t1) = fd_new Pipe_rd t; (w, t2) = fd_new Pipe_wr t1 in (r, w, t2))"

definition player_child :: "nat \<Rightarrow> nat \<Rightarrow> fdtab \<Rightarrow> fdtab" where
  "player_child pd0 pd1 t =
     (let t = fd_close pd1 t; t = fd_dup2 pd0 0 t; t = fd_close pd0 t; (fd, t) = fd_new Dev_null t; t = fd_dup2 fd 1 t
      in fd_dup2 fd 2 t)"

definition player_parent :: "nat \<Rightarrow> nat \<Rightarrow> fdtab \<Rightarrow> fdtab" where
  "player_parent pd0 pd1 t = fd_close pd1 (fd_close pd0 t)"

text \<open>
  \<open>main\<close> from a table of descriptors: the tables with which the decoder is started and with which the parent waits; an error of \<open>pipe\<close> or \<open>fork\<close> ends the program.
\<close>

definition player_main :: "bool \<Rightarrow> bool \<Rightarrow> fdtab \<Rightarrow> (fdtab \<times> fdtab, string list) outcome" where
  "player_main piped forked t =
     (if \<not> piped then Exit 1 [''pipe()'']
      else (case sys_pipe t of (pd0, pd1, t1) \<Rightarrow>
        if \<not> forked then Exit 1 [''fork()'']
        else Ret (player_child pd0 pd1 t1, player_parent pd0 pd1 t1) []))"

text \<open>
  With the three standard descriptors open and nothing else, the decoder reads from the pipe and prints nowhere; no process holds the write end any more, so the decoder finds its
  input at the end at once. The parent has its table of the beginning.
\<close>

theorem player_connects:
  "\<exists>dec wait. player_main True True [Some a, Some b, Some c] = Ret (dec, wait) [] \<and> fd_file dec 0 = Some Pipe_rd \<and> fd_file dec 1 = Some Dev_null \<and>
     fd_file dec 2 = Some Dev_null \<and> (Pipe_wr \<notin> {a, b, c} \<longrightarrow> \<not> has_write_end dec \<and> \<not> has_write_end wait) \<and>
     (\<forall>n. fd_file wait n = fd_file [Some a, Some b, Some c] n)"
proof -
  have "fd_file [Some a, Some b, Some c, None, None] n = fd_file [Some a, Some b, Some c] n" for n
    by (auto simp: fd_file_def nth_Cons' split: if_splits)
  then show ?thesis
    by (simp add: player_main_def sys_pipe_def fd_new_def player_child_def player_parent_def fd_close_def fd_dup2_def has_write_end_def fd_file_def
      numeral_eq_Suc)
qed

text \<open>Started without a standard input the child closes the read end it has just put there, and the decoder reads from \<open>/dev/null\<close>.\<close>

lemma player_without_stdin:
  "\<exists>dec wait. player_main True True [None, Some b, Some c] = Ret (dec, wait) [] \<and> fd_file dec 0 = Some Dev_null \<and> Some Pipe_rd \<notin> set (drop 3 dec)"
  by (simp add: player_main_def sys_pipe_def fd_new_def player_child_def player_parent_def fd_close_def fd_dup2_def fd_file_def numeral_eq_Suc)

end
