(* ===== verification/Spec2Isabelle.thy ===== *)
theory Spec2Isabelle
  imports Relay_Select Relay_Poll Relay_Epoll Relayer Anytimer Mysem Mypipe Slowcat Dirstat Socket_Server Prefork Prime_Pool Locks Bounded Turns
    Slicer Myftp Filecopy Copy_Tools Text_Count Shell_Tools Races Datagram Same_Process Stamp_Service Chat
    Servers Sigmask Rw_Lock Openssl_Tools Show_Date File_Demos Process_Demos
    Fork_Exec Calendar Signal_Demos Thread_Demos Small_Tools Player
begin

text \<open>
  \<^bold>\<open>The repository.\<close> A collection of C programs and small libraries about system programming on Linux: token buckets
  and timers driven by signals, relays between two descriptors, thread pools, producers and consumers, locks and
  semaphores, socket servers and clients, pipes, message queues, file copying, word and directory statistics, a shell, daemons
  and prime searches. It is no single program; the
  parts that call one another are the token buckets (called by the rate-limited \<open>cat\<close> programs), the relay's
  state machine (driven by four relay loops and by the relay engine) and the libraries \<open>anytimer\<close>, \<open>mysem\<close> and
  \<open>mypipe\<close>. The development follows these parts; all file names below are relative to \<open>src/\<close>.

  \<^bold>\<open>How programs are modelled.\<close> A struct is a record, the static variables of a module are one record, an array of
  pointers is a list of optional addresses into a map (the heap). A sequential function is a HOL function that takes
  and returns the state; its result is an \<open>outcome\<close> of \<open>Prelude\<close>: it returns, exits, still waits, or has undefined
  behaviour (freed or absent memory). \<open>int\<close> values are HOL integers; in the buckets, the timers, the text counters, the
  file copy, the locks and wherever else \<open>c_int\<close> or a limit such as \<open>INT_MAX\<close> occurs, what happens beyond the range is written out; the counters of
  directory entries, registered threads, jobs and children are unbounded. Threads and processes are lists of control points with an inductive step relation; one step is
  the code between two points at which another thread can notice a difference (a mutex section, a wait, a
  system call). What the system decides -- how many bytes a \<open>read\<close> or \<open>write\<close> moves, which error it gives, what
  \<open>select\<close> reports, which thread a signal wakes, the scheduler -- is a script in the world of \<open>Posix\<close>, an argument,
  or a choice of the step relation, and the theorems hold for all of them.

  \<^bold>\<open>Theories.\<close>

  \<^item> \<open>Prelude\<close>: outcomes, error numbers, C integers, decimal numbers, blocks of a list, the scan of a slot table; the locales
    \<open>slot_table\<close> (a table with free positions) and \<open>fifo\<close> (a bounded queue).
  \<^item> \<open>Posix\<close>: descriptors with scripted reads and writes, status flags, \<open>perror\<close>.
  \<^item> \<open>Bucket_Spec\<close>: the contract of a token bucket (locale \<open>token_buckets\<close>): what a tick, a fetch and a return do to one
    bucket, and the bound on the traffic that follows. \<open>Token_Bucket\<close> (\<open>mytbf/mytbf.c\<close>), \<open>Token_Bucket_SA\<close>
    (\<open>mytbf_sa/mytbf.c\<close>) and \<open>Token_Bucket_MT\<close> (\<open>thread/posix/mytbf_multithread/mytbf.c\<close>) model every function of
    the three libraries and interpret the locales on them. Shown: the traffic bound, creation and destruction as a
    round trip, equivalence of two versions of the fetch (the second waits with a mask that its source never declares, an argument
    of the model), forged signals without effect, no lost wake-up although clients run between the buckets of a round.
  \<^item> \<open>Slowcat\<close>: \<open>slowcat.c\<close>, \<open>slowcat2.c\<close> and the \<open>main.c\<close> of the three buckets, all as one loop over a rate limiter (locale
    \<open>limiter\<close>). Shown: the whole file is printed, and within the rate.
  \<^item> \<open>Relay_Spec\<close>: the finite machine of one direction, \<open>fsm_driver\<close> (locale \<open>relay_driver\<close>), and loops that wait for readiness
    (locale \<open>relay_mux\<close>). \<open>Relay\<close> (\<open>proIO/non-blocked/relay.c\<close>, \<open>relay_file.c\<close>, \<open>realy_file.c\<close>), \<open>Relay_Select\<close>, \<open>Relay_Poll\<close>,
    \<open>Relay_Epoll\<close> (the three \<open>relay.c\<close> under \<open>proIO/select\<close>, \<open>proIO/epoll\<close>, \<open>proIO/poll\<close>) and \<open>Relayer\<close>
    (\<open>proIO/non-blocked/relayer\<close>). Shown: both directions are copied completely and the relay returns; on failures a prefix
    is copied; the select relay hangs after an error of its second machine; the engine relays every added job and
    reports its errors.
  \<^item> \<open>Anytimer\<close> (\<open>anytimer/anytimer.c\<close>): the job table and all operations. Shown: when jobs fire, periods, waiting and reaping.
  \<^item> \<open>Monitor\<close>: calls that run as sections under one mutex and one condition variable (locale \<open>monitor\<close>); \<open>Mysem\<close>
    (\<open>thread/posix/mysemphon/mysem.c\<close>) and \<open>Mypipe\<close> (\<open>mypipe/mypipe.c\<close>). Shown: no wake-up and no count is lost; a
    reader whose writers have gone hangs.
  \<^item> \<open>Dirstat\<close>: the pool of \<open>homework/statistic_file_with_thread_pool.c\<close> with its ring (an instance of \<open>fifo\<close>), and the
    one-thread versions. Shown: the counts are exact in every interleaving, and the only way to get stuck.
  \<^item> \<open>Socket_Server\<close> (\<open>IPC/socket/Newer/server.c\<close>, its linked list of tasks another \<open>fifo\<close>) and \<open>Prefork\<close>
    (\<open>IPC/socket/stream/pool_dynamic/server.c\<close>). Shown: every connection is served once and in order, no lost wake-up; the process
    table is used safely and the number of idle children settles.
  \<^item> \<open>Primes\<close> (fourteen search programs) and \<open>Prime_Pool\<close> (\<open>primer_pool_busy.c\<close>, \<open>primer_pool_notice.c\<close>, locale \<open>hands_over\<close>).
    Shown: the programs agree and print the primes; the pools refine an abstract hand-over, and the second one ends.
  \<^item> \<open>Critical\<close>: critical sections under a gate (locales \<open>gate\<close>, \<open>guarded\<close>, \<open>exclusive\<close>): with room for one thread every run
    is equal to one in which whole sections are atomic. \<open>Locks\<close>: the three \<open>add_race.c\<close>, \<open>samphorePV.c\<close>,
    \<open>multi_thread_with_lock.c\<close>, \<open>spin_lock.c\<close>, \<open>sem.c\<close>. Shown: no update is lost, what \<open>spin_lock.c\<close> computes instead,
    at most four threads inside.
  \<^item> \<open>Bounded\<close>: \<open>homework/sem_prod_cons.c\<close>, \<open>homework/parking.c\<close>, \<open>productor_consumer/pc.c\<close> (locale \<open>bounded_store\<close>). Shown:
    they refine a counter of items made and taken, and all of them end with everything taken.
  \<^item> \<open>Turns\<close>: \<open>abcd_race.c\<close>, \<open>abcd_race_notice.c\<close> (locale \<open>turn_taking\<close>). Shown: the letters come in turn and
    keep coming, for the first program only where a thread may unlock a mutex that another one has locked.
  \<^item> \<open>Slicer\<close> (\<open>homework/openssl/myslicer.c\<close>): slices, their names as rows of one memory area, digests. Shown: right up to 704
    bytes, wrong from there on. \<open>Myftp\<close> (\<open>IPC/xsi/msg/myftp_msg\<close>): client and server on one message queue. Shown: the
    client saves a prefix of the file and never reports success.

  \<^item> \<open>Digest\<close>, \<open>Memory\<close>, \<open>Stdio\<close>: message digests as an interface, values in raw memory (little-endian integers, strings with a
    final zero, buffers that receive less than they hold), and what the programs use of the text functions of C (\<open>atoi\<close>, \<open>fgets\<close>, \<open>%d\<close>).
  \<^item> \<open>Filecopy\<close> (\<open>IO/FileIO/filecopy\<close>): the header as bytes of a stream, client, session and accept loop of the server, which a silent client
    can keep in \<open>recv\<close>. Shown: the server stores what the client has sent, behind which the tail of a longer old file stays; what a session can change, when it
    ends, and for which name lengths it is undefined.
  \<^item> \<open>Copy_Tools\<close> (\<open>mycp.c\<close>, \<open>mycpy.c\<close>, \<open>cp.c\<close>, \<open>mycat.c\<close>), \<open>Text_Count\<close> (the counters of \<open>homework/IO_std\<close>), \<open>Shell_Tools\<close> (\<open>myshell.c\<close>, \<open>mydu.c\<close>),
    \<open>Show_Date\<close> (\<open>showdateInfo.c\<close>), \<open>File_Demos\<close> (binary records, cutting and listing files, \<open>timelog.c\<close>, mapped files), \<open>Openssl_Tools\<close>
    (\<open>openssl/*.c\<close>). Shown: copies are equal to their source, also with short writes, and where they are not; where the two word counters differ; the
    words that the shell runs; the text of the date; records and Base64 as round trips.
  \<^item> \<open>Races\<close> (\<open>multi_thread_wo_lock.c\<close>, \<open>second.c\<close>, \<open>homework/tickets.c\<close>): step relations with a measure of the work left (locale
    \<open>bounded_run\<close>). Shown: which sums an unlocked counter can give, that each number is taken once and every run ends. \<open>Rw_Lock\<close>
    (\<open>rw_lock.c\<close>): writer and readers never overlap.
  \<^item> \<open>Datagram\<close> (all of \<open>IPC/socket/dgram\<close>, \<open>IPC/socket/Newer/DGRAM/recv.c\<close>, \<open>send.c\<close>, \<open>IPC/xsi/msg/basic\<close>): messages as the bytes of a packed
    structure. Shown: what is shown is what was sent, with the one name length that is read past the buffer. \<open>Same_Process\<close>
    (\<open>same_process.c\<close>): the race between \<open>bind\<close> and the first \<open>sendto\<close>.
  \<^item> \<open>Stamp_Service\<close> (\<open>IPC/socket/stream/basic\<close>, \<open>pool_static\<close>): the time as a line of text, one child for each connection, four children at one
    socket. Shown: each client prints the time its server read, also when later calls fail; each connection is taken once, and when the pool is dead.
  \<^item> \<open>Sockets\<close> (\<open>socket\<close>, \<open>setsockopt\<close>, \<open>bind\<close>, \<open>listen\<close> on a host with ports in use, locale \<open>checked_server\<close>) and \<open>Servers\<close>, the main programs
    of all servers from their first call on. Shown: a checked server runs only when clients reach it at its port, otherwise it leaves with a
    message; the servers that ignore \<open>bind\<close> start at another port.
  \<^item> \<open>Chat\<close> (\<open>IPC/socket/Newer/c_s\<close>, the programs of \<open>IPC/pipe\<close> with named pipes): two sides that talk line by line. Shown: the dialogue
    ends with the client's \<open>exit\<close>; what the chats show, depending on how \<open>read\<close> cuts the stream.
  \<^item> \<open>Sigmask\<close> (\<open>block.c\<close>, \<open>suspend.c\<close>, \<open>sigsuspend.c\<close>, \<open>suspend_rt.c\<close>, locale \<open>row_printer\<close>): signals at any time, mask, pending signals.
    Shown: rows are never interrupted, which programs answer every signal between rows, and the signal that \<open>suspend.c\<close> misses.
  \<^item> \<open>Process_Demos\<close>: the jump out of nested calls, daemons, memory shared by parent and child, a pipe between them. \<open>Fork_Exec\<close> (\<open>fork1.c\<close>, \<open>fwe.c\<close>, \<open>sleep.c\<close>, \<open>system1.c\<close>,
    \<open>exec.c\<close>, \<open>mysu.c\<close>, \<open>atexit.c\<close>): the buffer of standard output under \<open>fork\<close> and \<open>exec\<close>, with all runs of a program computed. \<open>Player\<close> (\<open>IPC/pipe/player.c\<close>): descriptors.
  \<^item> \<open>Calendar\<close> (\<open>100days.c\<close>, \<open>100days2.c\<close>: adding seconds and adding days agree), \<open>Signal_Demos\<close> (\<open>alarm.c\<close>, \<open>5Sec.c\<close>, \<open>5SecSig.c\<close>, \<open>mysignal.c\<close>,
    \<open>RussianBlock/signal.c\<close>), \<open>Thread_Demos\<close> (joining, detaching, creating threads), \<open>Small_Tools\<close> (users and passwords, environment, patterns, small file
    programs, the terminal, the order of bytes).

  \<^bold>\<open>Fuel and bounds.\<close> The relay loops, the copying loops and the session loops have a number of turns as an argument; the
  theorems state that a number computed from the scripts (\<open>work\<close>, \<open>rd_work\<close>: one turn for each scripted call and each byte
  that a write may leave over) is enough for the loop to return. The waits of the buckets and of \<open>anytimer\<close> consume a list
  of signals or a number of ticks; waiting beyond it is the outcome \<open>Blocked\<close>, and theorems say how many ticks
  suffice. The runs of the programs in \<open>Fork_Exec\<close> are computed with room for twelve calls, and it is shown that no run has more.
  The recursion over directories has the depth of nesting as fuel; \<open>None\<close> is a deeper tree. Everything
  else is structurally recursive or has a termination proof. Programs of threads have no fuel: that they
  end is a bound on the number of steps of every run. Wake-ups without a cause are allowed in the invariants and
  refinements of \<open>Dirstat\<close> and \<open>Bounded\<close> and left out where steps are counted, as they could go on without end.

  \<^bold>\<open>Assumed.\<close> The message digests and the Base64 filter of OpenSSL, the expansion of patterns (\<open>glob\<close>), the file system seen by the directory
  programs, the calendar functions and the random pauses are arguments; laws of a digest or filter are hypotheses with an instance that
  satisfies them. Mutexes, condition variables, semaphores, \<open>fork\<close>, signals and descriptors behave as POSIX says.

  \<^bold>\<open>Not modelled.\<close> The paths taken when \<open>pthread_create\<close> or \<open>fork\<close> fails, except where a theory says otherwise; the shell command
  that joins the files of the prime searches; the declared but undefined functions of \<open>relayer.h\<close>; summer time; the answer of a message
  queue server to a failing \<open>msgrcv\<close>; \<open>system.c\<close> and \<open>thread/openmp/hello.c\<close>, which consist of calls outside of the repository; sources that are
  not finished, that nothing uses, or that are empty (\<open>IPC/xsi/msg/myftp_msg/protol.h\<close>, \<open>homework/openssl/slice.c\<close>, \<open>IPC/socket/Newer/client.c\<close>, \<open>test.c\<close>,
  \<open>thread/posix/mysemphon/main.c\<close>).
\<close>

end
